(* ===== verification/Prelude.thy ===== *)
theory Prelude
  imports "HOL-Library.Word" "HOL-Library.Product_Lexorder" "HOL-Library.List_Lexorder"
    "HOL-Library.Char_ord" "HOL-Library.Multiset" "HOL-Library.Sublist"
begin

text \<open>
  What the components share: the collections of hints, Rust's fixed-width integers with their
  checked and saturating operations, \<open>Result\<close> as a sum with its sequencing, the early-exit folds
  the loops of the program become, and the facts about stable sorting that make a plan independent
  of the order its evidence arrived in.
\<close>

named_theorems result_simps \<open>sequencing of fallible steps\<close>
named_theorems arith_simps \<open>checked and saturating machine arithmetic, read through unat\<close>

section \<open>Machine integers\<close>

text \<open>
  A \<open>u64\<close> is a 64-bit word. An \<open>i64\<close> is the same word read through \<^const>\<open>sint\<close>: the cast
  \<open>as u64\<close> of the source keeps the bits, so it is the identity here.
\<close>

type_synonym u64 = "64 word"
type_synonym i64 = "64 word"

definition checked_add :: "u64 \<Rightarrow> u64 \<Rightarrow> u64 option" where
  "checked_add a b = (if unat a + unat b < 2 ^ 64 then Some (a + b) else None)"

definition checked_mul :: "u64 \<Rightarrow> u64 \<Rightarrow> u64 option" where
  "checked_mul a b = (if unat a * unat b < 2 ^ 64 then Some (a * b) else None)"

definition checked_sub :: "u64 \<Rightarrow> u64 \<Rightarrow> u64 option" where
  "checked_sub a b = (if b \<le> a then Some (a - b) else None)"

definition saturating_sub :: "u64 \<Rightarrow> u64 \<Rightarrow> u64" where
  "saturating_sub a b = (if b \<le> a then a - b else 0)"

definition saturating_add :: "u64 \<Rightarrow> u64 \<Rightarrow> u64" where
  "saturating_add a b = (if unat a + unat b < 2 ^ 64 then a + b else - 1)"

definition saturating_mul :: "u64 \<Rightarrow> u64 \<Rightarrow> u64" where
  "saturating_mul a b = (if unat a * unat b < 2 ^ 64 then a * b else - 1)"

text \<open>\<open>i64::try_from\<close> on a \<open>u64\<close> and \<open>u64::try_from\<close> on an \<open>i64\<close>: the same half of the range.\<close>

definition i64_try_from :: "u64 \<Rightarrow> i64 option" where
  "i64_try_from w = (if 0 \<le> sint w then Some w else None)"

definition u64_try_from :: "i64 \<Rightarrow> u64 option" where
  "u64_try_from w = (if 0 \<le> sint w then Some w else None)"

definition len_u64 :: "'a list \<Rightarrow> u64" where
  "len_u64 xs = of_nat (length xs)"

lemma unat_u64_less [simp]: "unat (w :: u64) < 2 ^ 64"
  using unsigned_less [of w] by simp

lemma unat_u64_max: "unat (- 1 :: u64) = 2 ^ 64 - 1"
  by (simp add: unsigned_minus_1_eq_mask mask_eq_exp_minus_1)

lemma sint_nonneg_iff: "0 \<le> sint (w :: u64) \<longleftrightarrow> unat w < 2 ^ 63"
proof -
  have b: "unat w < 2 ^ 64" by (rule unat_u64_less)
  have "0 \<le> sint w \<longleftrightarrow> \<not> bit w 63"
    using bit_last_iff [of w] by (simp add: not_less [symmetric])
  also have "\<dots> \<longleftrightarrow> \<not> bit (unat w) 63"
    by (simp add: bit_unsigned_iff)
  also have "\<dots> \<longleftrightarrow> even (unat w div 2 ^ 63)"
    by (simp only: bit_iff_odd) simp
  also have "\<dots> \<longleftrightarrow> unat w < 2 ^ 63"
  proof
    assume e: "even (unat w div 2 ^ 63)"
    have "unat w div 2 ^ 63 < 2" using b by (intro less_mult_imp_div_less) simp
    with e have "unat w div 2 ^ 63 = 0" by (auto elim!: evenE)
    then show "unat w < 2 ^ 63" by (simp add: div_eq_0_iff)
  qed (simp add: div_eq_0_iff)
  finally show ?thesis .
qed

lemma unat_add_u64: "unat ((a :: u64) + b) = (unat a + unat b) mod 2 ^ 64"
  by (simp add: unat_word_ariths)

lemma unat_mul_u64: "unat ((a :: u64) * b) = (unat a * unat b) mod 2 ^ 64"
  by (simp add: unat_word_ariths)

lemma checked_add_Some_iff [arith_simps]:
  "checked_add a b = Some c \<longleftrightarrow> unat c = unat a + unat b"
proof
  assume "unat c = unat a + unat b"
  moreover from this have "unat a + unat b < 2 ^ 64" by (metis unat_u64_less)
  ultimately show "checked_add a b = Some c"
    by (simp add: checked_add_def word_unat_eq_iff unat_add_u64)
qed (auto simp: checked_add_def unat_add_u64 split: if_splits)

lemma checked_add_None_iff [arith_simps]:
  "checked_add a b = None \<longleftrightarrow> 2 ^ 64 \<le> unat a + unat b"
  by (simp add: checked_add_def not_less)

lemma checked_mul_Some_iff [arith_simps]:
  "checked_mul a b = Some c \<longleftrightarrow> unat c = unat a * unat b"
proof
  assume "unat c = unat a * unat b"
  moreover from this have "unat a * unat b < 2 ^ 64" by (metis unat_u64_less)
  ultimately show "checked_mul a b = Some c"
    by (simp add: checked_mul_def word_unat_eq_iff unat_mul_u64)
qed (auto simp: checked_mul_def unat_mul_u64 split: if_splits)

lemma checked_mul_None_iff [arith_simps]:
  "checked_mul a b = None \<longleftrightarrow> 2 ^ 64 \<le> unat a * unat b"
  by (simp add: checked_mul_def not_less)

lemma unat_minus_le: "b \<le> a \<Longrightarrow> unat ((a :: u64) - b) = unat a - unat b"
  by (simp add: unat_sub)

lemma checked_sub_Some_iff [arith_simps]:
  "checked_sub a b = Some c \<longleftrightarrow> unat a = unat b + unat c"
proof
  assume h: "unat a = unat b + unat c"
  then have "b \<le> a" by (simp add: word_le_nat_alt)
  with h show "checked_sub a b = Some c"
    by (simp add: checked_sub_def word_unat_eq_iff unat_minus_le)
qed (auto simp: checked_sub_def unat_minus_le word_le_nat_alt split: if_splits)

lemma checked_sub_None_iff [arith_simps]:
  "checked_sub a b = None \<longleftrightarrow> unat a < unat b"
  by (simp add: checked_sub_def word_le_nat_alt not_le)

lemma unat_saturating_sub [arith_simps]: "unat (saturating_sub a b) = unat a - unat b"
  by (simp add: saturating_sub_def unat_minus_le word_le_nat_alt)

lemma unat_saturating_add [arith_simps]:
  "unat (saturating_add a b) = min (unat a + unat b) (2 ^ 64 - 1)"
  by (auto simp: saturating_add_def unat_add_u64 unat_u64_max min_def)

lemma unat_saturating_mul [arith_simps]:
  "unat (saturating_mul a b) = min (unat a * unat b) (2 ^ 64 - 1)"
  by (auto simp: saturating_mul_def unat_mul_u64 unat_u64_max min_def)

lemma i64_try_from_Some_iff [arith_simps]:
  "i64_try_from w = Some v \<longleftrightarrow> v = w \<and> unat w < 2 ^ 63"
  by (auto simp: i64_try_from_def sint_nonneg_iff)

lemma i64_try_from_None_iff [arith_simps]: "i64_try_from w = None \<longleftrightarrow> 2 ^ 63 \<le> unat w"
  by (auto simp: i64_try_from_def sint_nonneg_iff not_less)

lemma u64_try_from_Some_iff [arith_simps]:
  "u64_try_from w = Some v \<longleftrightarrow> v = w \<and> unat w < 2 ^ 63"
  by (auto simp: u64_try_from_def sint_nonneg_iff)

lemma u64_try_from_None_iff [arith_simps]: "u64_try_from w = None \<longleftrightarrow> sint w < 0"
  by (auto simp: u64_try_from_def)

lemma unat_of_nat_u64: "n < 2 ^ 64 \<Longrightarrow> unat (of_nat n :: u64) = n"
  by (simp add: unat_of_nat take_bit_nat_eq_self)

lemma unat_eq_of_nat_iff: "unat (w :: u64) = n \<and> unat w < 2 ^ 63 \<longleftrightarrow> n < 2 ^ 63 \<and> w = of_nat n"
proof -
  have "n < 2 ^ 63 \<Longrightarrow> unat (of_nat n :: u64) = n" by (simp add: unat_of_nat take_bit_nat_eq_self)
  then show ?thesis by auto
qed

lemma ex_u64_iff: "(\<exists>w :: u64. unat w = n) \<longleftrightarrow> n < 2 ^ 64"
  using unat_of_nat_u64 by (metis unat_u64_less)

lemma sint_eq_0_u64 [simp]: "sint (w :: u64) = 0 \<longleftrightarrow> w = 0"
  by (rule signed_eq_0_iff)

lemma unat_len_u64: "length xs < 2 ^ 64 \<Longrightarrow> unat (len_u64 xs) = length xs"
  by (simp add: len_u64_def unat_of_nat take_bit_nat_eq_self)

lemma unat_len_u64_le: "unat (len_u64 xs) \<le> length xs"
  by (simp add: len_u64_def unat_of_nat take_bit_nat_less_eq_self)

text \<open>Evaluated on binary integers rather than on unary naturals.\<close>

lemma checked_add_code [code]:
  "checked_add a b = (if uint a + uint b < 2 ^ 64 then Some (a + b) else None)"
  unfolding checked_add_def unat_eq_nat_uint
  by (subst nat_add_distrib [symmetric]) (simp_all add: nat_less_iff)

lemma checked_mul_code [code]:
  "checked_mul a b = (if uint a * uint b < 2 ^ 64 then Some (a * b) else None)"
  unfolding checked_mul_def unat_eq_nat_uint
  by (subst nat_mult_distrib [symmetric]) (simp_all add: nat_less_iff)

lemma saturating_add_code [code]:
  "saturating_add a b = (if uint a + uint b < 2 ^ 64 then a + b else - 1)"
  unfolding saturating_add_def unat_eq_nat_uint
  by (subst nat_add_distrib [symmetric]) (simp_all add: nat_less_iff)

lemma saturating_mul_code [code]:
  "saturating_mul a b = (if uint a * uint b < 2 ^ 64 then a * b else - 1)"
  unfolding saturating_mul_def unat_eq_nat_uint
  by (subst nat_mult_distrib [symmetric]) (simp_all add: nat_less_iff)

section \<open>Result, sequenced\<close>

definition rbind :: "'e + 'a \<Rightarrow> ('a \<Rightarrow> 'e + 'b) \<Rightarrow> 'e + 'b" where
  "rbind r f = (case r of Inl e \<Rightarrow> Inl e | Inr x \<Rightarrow> f x)"

definition ok_or :: "'e \<Rightarrow> 'a option \<Rightarrow> 'e + 'a" where
  "ok_or e x = (case x of None \<Rightarrow> Inl e | Some v \<Rightarrow> Inr v)"

definition map_err :: "('e \<Rightarrow> 'f) \<Rightarrow> 'e + 'a \<Rightarrow> 'f + 'a" where
  "map_err g r = (case r of Inl e \<Rightarrow> Inl (g e) | Inr x \<Rightarrow> Inr x)"

text \<open>A \<open>for\<close> loop whose body may leave the function early.\<close>

fun rfold :: "('s \<Rightarrow> 'a \<Rightarrow> 'e + 's) \<Rightarrow> 's \<Rightarrow> 'a list \<Rightarrow> 'e + 's" where
  "rfold f s [] = Inr s"
| "rfold f s (x # xs) = rbind (f s x) (\<lambda>s'. rfold f s' xs)"

fun rmap :: "('a \<Rightarrow> 'e + 'b) \<Rightarrow> 'a list \<Rightarrow> 'e + 'b list" where
  "rmap f [] = Inr []"
| "rmap f (x # xs) = rbind (f x) (\<lambda>y. rbind (rmap f xs) (\<lambda>ys. Inr (y # ys)))"

lemma rbind_Inl [simp]: "rbind (Inl e) f = Inl e"
  by (simp add: rbind_def)

lemma rbind_Inr [simp]: "rbind (Inr x) f = f x"
  by (simp add: rbind_def)

lemma rbind_eq_Inr [result_simps]: "rbind r f = Inr y \<longleftrightarrow> (\<exists>x. r = Inr x \<and> f x = Inr y)"
  by (cases r) auto

lemma rbind_eq_Inl [result_simps]:
  "rbind r f = Inl e \<longleftrightarrow> r = Inl e \<or> (\<exists>x. r = Inr x \<and> f x = Inl e)"
  by (cases r) auto

lemma rbind_cong [fundef_cong]:
  assumes "r = r'" and "\<And>x. r' = Inr x \<Longrightarrow> f x = g x"
  shows "rbind r f = rbind r' g"
  using assms by (cases r') auto

lemma ok_or_eq_Inr [result_simps]: "ok_or e x = Inr y \<longleftrightarrow> x = Some y"
  by (cases x) (auto simp: ok_or_def)

lemma ok_or_eq_Inl [result_simps]: "ok_or e x = Inl d \<longleftrightarrow> x = None \<and> d = e"
  by (cases x) (auto simp: ok_or_def)

lemma ok_or_simps [simp]: "ok_or e None = Inl e" "ok_or e (Some v) = Inr v"
  by (simp_all add: ok_or_def)

lemma map_err_eq_Inr [result_simps]: "map_err g r = Inr y \<longleftrightarrow> r = Inr y"
  by (cases r) (auto simp: map_err_def)

lemma map_err_eq_Inl [result_simps]: "map_err g r = Inl d \<longleftrightarrow> (\<exists>e. r = Inl e \<and> d = g e)"
  by (cases r) (auto simp: map_err_def)

lemma map_err_simps [simp]: "map_err g (Inl e) = Inl (g e)" "map_err g (Inr x) = Inr x"
  by (simp_all add: map_err_def)

lemma rfold_append: "rfold f s (xs @ ys) = rbind (rfold f s xs) (\<lambda>s'. rfold f s' ys)"
  by (induction xs arbitrary: s) (auto simp: rbind_def split: sum.splits)

text \<open>What every successful step keeps, the successful loop keeps.\<close>

lemma rfold_invariant:
  assumes "rfold f s xs = Inr t" and "I s"
    and "\<And>s x s'. I s \<Longrightarrow> x \<in> set xs \<Longrightarrow> f s x = Inr s' \<Longrightarrow> I s'"
  shows "I t"
  using assms
proof (induction xs arbitrary: s)
  case (Cons x xs)
  from Cons.prems(1) obtain s' where s': "f s x = Inr s'" "rfold f s' xs = Inr t"
    by (auto simp: result_simps)
  from Cons.prems(2,3) s'(1) have "I s'" by (meson list.set_intros(1))
  then show ?case using Cons.IH [OF s'(2)] Cons.prems(3) by (meson list.set_intros(2))
qed simp

lemma rfold_InlE:
  assumes "rfold f s xs = Inl e" and "I s"
    and "\<And>s x s'. I s \<Longrightarrow> x \<in> set xs \<Longrightarrow> f s x = Inr s' \<Longrightarrow> I s'"
  obtains s' x where "I s'" "x \<in> set xs" "f s' x = Inl e"
  using assms
proof (induction xs arbitrary: s thesis)
  case (Cons x xs)
  show ?case
  proof (cases "f s x")
    case (Inl d)
    with Cons.prems(2) have "f s x = Inl e" by simp
    with Cons.prems(1,3) show ?thesis by (meson list.set_intros(1))
  next
    case (Inr s')
    then have r: "rfold f s' xs = Inl e" using Cons.prems(2) by simp
    have i: "I s'" using Cons.prems(3,4) Inr by (meson list.set_intros(1))
    show ?thesis
      by (rule Cons.IH [OF _ r i]) (use Cons.prems(1,4) in \<open>meson list.set_intros(2)\<close>)+
  qed
qed simp

lemma rmap_eq_Inr [result_simps]:
  "rmap f xs = Inr ys \<longleftrightarrow> list_all2 (\<lambda>x y. f x = Inr y) xs ys"
proof (induction xs arbitrary: ys)
  case (Cons x xs)
  show ?case by (cases ys) (auto simp: result_simps Cons.IH)
qed auto

lemma rmap_InlE:
  assumes "rmap f xs = Inl e"
  obtains x where "x \<in> set xs" "f x = Inl e"
  using assms by (induction xs) (auto simp: result_simps)

section \<open>Loops over lists\<close>

lemma list_all2_left: "list_all2 R xs ys \<Longrightarrow> x \<in> set xs \<Longrightarrow> \<exists>y \<in> set ys. R x y"
  by (induction rule: list_all2_induct) auto

lemma list_all2_right: "list_all2 R xs ys \<Longrightarrow> y \<in> set ys \<Longrightarrow> \<exists>x \<in> set xs. R x y"
  by (induction rule: list_all2_induct) auto

text \<open>\<open>iter().position(p)\<close>.\<close>

fun position :: "('a \<Rightarrow> bool) \<Rightarrow> 'a list \<Rightarrow> nat option" where
  "position p [] = None"
| "position p (x # xs) = (if p x then Some 0 else map_option Suc (position p xs))"

lemma position_Some_iff:
  "position p xs = Some i \<longleftrightarrow> i < length xs \<and> p (xs ! i) \<and> (\<forall>j < i. \<not> p (xs ! j))"
proof (induction xs arbitrary: i)
  case (Cons x xs)
  show ?case
  proof (cases i)
    case 0
    then show ?thesis by auto
  next
    case (Suc k)
    show ?thesis by (auto simp: Suc Cons.IH less_Suc_eq_0_disj)
  qed
qed simp

lemma position_None_iff: "position p xs = None \<longleftrightarrow> (\<forall>x \<in> set xs. \<not> p x)"
  by (induction xs) auto

lemma position_exists: "x \<in> set xs \<Longrightarrow> p x \<Longrightarrow> \<exists>i. position p xs = Some i"
  by (cases "position p xs") (auto simp: position_None_iff)

text \<open>
  The drift checks of the program list named comparisons in a fixed order and report the first
  one that fails.
\<close>

fun first_failing :: "(string \<times> bool) list \<Rightarrow> string option" where
  "first_failing [] = None"
| "first_failing ((name, agrees) # rest) = (if agrees then first_failing rest else Some name)"

lemma first_failing_None_iff: "first_failing fs = None \<longleftrightarrow> (\<forall>(name, agrees) \<in> set fs. agrees)"
  by (induction fs rule: first_failing.induct) auto

section \<open>Stable sorting\<close>

text \<open>
  With distinct keys a stable sort depends on the elements alone, so evidence handed over in
  another order is read in the same order.
\<close>

lemma sort_key_permuted:
  assumes "mset xs = mset ys" and "distinct (map k xs)"
  shows "sort_key k xs = sort_key k ys"
proof (rule sort_key_inj_key_eq)
  show "mset xs = mset (sort_key k ys)" using assms(1) by simp
  show "inj_on k (set xs)" using assms(2) by (simp add: distinct_map)
qed simp

end
