(* ===== verification/Paths.thy ===== *)
theory Paths
  imports Prelude
begin

text \<open>
  \<open>std::path\<close> as the program uses it. A Rust \<open>Path\<close> is a byte string, but its equality, its
  order and every operation used here look at its components alone, so a path is the list of its
  components: \<open>/tank//a/\<close> and \<open>/tank/a\<close> are one path. \<open>components\<close> is the parser from the raw
  spelling; where a spelling itself matters (a stored key) the program keeps a string, and so does
  the model.
\<close>

datatype comp = RootDir | CurDir | ParentDir | Normal string

type_synonym path = "comp list"

text \<open>The derived order of \<open>std::path::Component\<close>: by variant, then by name.\<close>

fun comp_rank :: "comp \<Rightarrow> nat \<times> string" where
  "comp_rank RootDir = (0, [])"
| "comp_rank CurDir = (1, [])"
| "comp_rank ParentDir = (2, [])"
| "comp_rank (Normal n) = (3, n)"

lemma comp_rank_eq_iff [simp]: "comp_rank a = comp_rank b \<longleftrightarrow> a = b"
  by (cases a; cases b) auto

instantiation comp :: linorder
begin

definition less_eq_comp :: "comp \<Rightarrow> comp \<Rightarrow> bool" where
  "less_eq_comp a b \<longleftrightarrow> comp_rank a \<le> comp_rank b"

definition less_comp :: "comp \<Rightarrow> comp \<Rightarrow> bool" where
  "less_comp a b \<longleftrightarrow> comp_rank a < comp_rank b"

instance
proof
  fix a b c :: comp
  show "a < b \<longleftrightarrow> a \<le> b \<and> \<not> b \<le> a"
    unfolding less_comp_def less_eq_comp_def by (rule less_le_not_le)
  show "a \<le> a" unfolding less_eq_comp_def by (rule order_refl)
  show "a \<le> b \<Longrightarrow> b \<le> c \<Longrightarrow> a \<le> c" unfolding less_eq_comp_def by (rule order_trans)
  show "a \<le> b \<Longrightarrow> b \<le> a \<Longrightarrow> a = b"
    unfolding less_eq_comp_def by (metis comp_rank_eq_iff order_antisym)
  show "a \<le> b \<or> b \<le> a" unfolding less_eq_comp_def by (rule linear)
qed

end

section \<open>From a spelling to components\<close>

fun split_slash :: "string \<Rightarrow> string list" where
  "split_slash [] = [[]]"
| "split_slash (c # cs) =
     (if c = CHR ''/'' then [] # split_slash cs
      else case split_slash cs of [] \<Rightarrow> [[c]] | s # ss \<Rightarrow> (c # s) # ss)"

fun comp_of_segment :: "string \<Rightarrow> comp list" where
  "comp_of_segment s =
     (if s = [] \<or> s = ''.'' then [] else if s = ''..'' then [ParentDir] else [Normal s])"

text \<open>
  \<open>Path::components\<close>: a leading separator is the root; empty and \<open>.\<close> segments vanish, except a
  \<open>.\<close> that opens a relative path.
\<close>

definition components :: "string \<Rightarrow> path" where
  "components s =
     (case s of
        [] \<Rightarrow> []
      | c # _ \<Rightarrow>
          if c = CHR ''/'' then RootDir # concat (map comp_of_segment (split_slash s))
          else case split_slash s of
                 [] \<Rightarrow> []
               | first # rest \<Rightarrow>
                   (if first = ''.'' then [CurDir] else comp_of_segment first)
                     @ concat (map comp_of_segment rest))"

declare comp_of_segment.simps [simp del]

text \<open>A file name the kernel can hand out: not empty, no separator, neither \<open>.\<close> nor \<open>..\<close>.\<close>

definition name_ok :: "string \<Rightarrow> bool" where
  "name_ok n \<longleftrightarrow> n \<noteq> [] \<and> CHR ''/'' \<notin> set n \<and> n \<noteq> ''.'' \<and> n \<noteq> ''..''"

lemma comp_of_segment_name [simp]: "name_ok n \<Longrightarrow> comp_of_segment n = [Normal n]"
  by (simp add: name_ok_def comp_of_segment.simps)

lemma comp_of_segment_Nil [simp]: "comp_of_segment [] = []"
  by (simp add: comp_of_segment.simps)

lemma split_slash_nonempty [simp]: "split_slash s \<noteq> []"
  by (induction s) (auto split: list.splits)

lemma split_slash_no_sep: "CHR ''/'' \<notin> set n \<Longrightarrow> split_slash n = [n]"
  by (induction n) (auto split: list.splits)

lemma split_slash_append:
  "CHR ''/'' \<notin> set n \<Longrightarrow> split_slash (n @ CHR ''/'' # s) = n # split_slash s"
  by (induction n) (auto split: list.splits)

lemma split_slash_segments: "seg \<in> set (split_slash s) \<Longrightarrow> CHR ''/'' \<notin> set seg"
  by (induction s arbitrary: seg) (auto split: list.splits if_splits)

lemma comp_of_segment_cases:
  "c \<in> set (comp_of_segment s) \<Longrightarrow> c = ParentDir \<or> c = Normal s \<and> s \<noteq> [] \<and> s \<noteq> ''.'' \<and> s \<noteq> ''..''"
  by (auto simp: comp_of_segment.simps split: if_splits)

text \<open>Every \<open>Normal\<close> component a spelling yields is a name.\<close>

lemma components_names: "Normal n \<in> set (components s) \<Longrightarrow> name_ok n"
proof -
  assume n: "Normal n \<in> set (components s)"
  have seg: "name_ok n" if "Normal n \<in> set (comp_of_segment seg)" "seg \<in> set (split_slash s)" for seg
    using comp_of_segment_cases [OF that(1)] split_slash_segments [OF that(2)]
    by (auto simp: name_ok_def)
  show ?thesis
    using n by (auto simp: components_def split: list.splits if_splits dest: seg)
qed

lemma components_RootDir_iff: "components s \<noteq> [] \<and> hd (components s) = RootDir \<longleftrightarrow>
    (\<exists>t. s = CHR ''/'' # t)"
proof -
  have "RootDir \<notin> set (comp_of_segment seg)" for seg
    by (auto dest: comp_of_segment_cases)
  then have "RootDir \<notin> set (concat (map comp_of_segment segs))" for segs
    by auto
  then show ?thesis
    by (auto simp: components_def comp_of_segment.simps hd_append split: list.splits if_splits)
qed

section \<open>Operations\<close>

definition parent :: "path \<Rightarrow> path option" where
  "parent p = (if p = [] \<or> last p = RootDir then None else Some (butlast p))"

definition file_name :: "path \<Rightarrow> string option" where
  "file_name p =
     (if p = [] then None else case last p of Normal n \<Rightarrow> Some n | _ \<Rightarrow> None)"

definition starts_with :: "path \<Rightarrow> path \<Rightarrow> bool" where
  "starts_with p base \<longleftrightarrow> prefix base p"

definition strip_prefix :: "path \<Rightarrow> path \<Rightarrow> path option" where
  "strip_prefix p base = (if prefix base p then Some (drop (length base) p) else None)"

definition join :: "path \<Rightarrow> path \<Rightarrow> path" where
  "join p q =
     (case q of
        RootDir # _ \<Rightarrow> q
      | CurDir # r \<Rightarrow> if p = [] then q else p @ r
      | _ \<Rightarrow> p @ q)"

text \<open>\<open>Path::ancestors\<close>: the path, its parent, the parent's parent and so on.\<close>

function ancestors :: "path \<Rightarrow> path list" where
  "ancestors p = p # (case parent p of None \<Rightarrow> [] | Some q \<Rightarrow> ancestors q)"
  by pat_completeness auto
termination
  by (relation "measure length") (auto simp: parent_def split: if_splits)

declare ancestors.simps [simp del]

definition with_file_name :: "path \<Rightarrow> string \<Rightarrow> path" where
  "with_file_name p n = (if file_name p = None then p else butlast p) @ [Normal n]"

lemma strip_prefix_eq_Some: "strip_prefix p base = Some r \<longleftrightarrow> p = base @ r"
  by (auto simp: strip_prefix_def prefix_def)

lemma parent_snoc: "c \<noteq> RootDir \<Longrightarrow> parent (p @ [c]) = Some p"
  by (simp add: parent_def)

lemma parent_prefix: "parent p = Some q \<Longrightarrow> prefix q p \<and> q \<noteq> p"
  by (auto simp: parent_def prefix_def split: if_splits)
     (metis append_butlast_last_id, metis append_butlast_last_id append_self_conv not_Cons_self2)

text \<open>An absolute path: the root, then components that are not roots.\<close>

definition absolute :: "path \<Rightarrow> bool" where
  "absolute p \<longleftrightarrow> p \<noteq> [] \<and> hd p = RootDir \<and> RootDir \<notin> set (tl p)"

lemma ancestors_absolute:
  assumes "absolute p"
  shows "set (ancestors p) = {q. prefix q p \<and> q \<noteq> []}"
  using assms
proof (induction p rule: rev_induct)
  case (snoc c p)
  show ?case
  proof (cases "p = []")
    case True
    with snoc.prems show ?thesis
      by (auto simp: absolute_def ancestors.simps parent_def prefix_Cons)
  next
    case False
    with snoc.prems have a: "absolute p" and c: "c \<noteq> RootDir"
      by (auto simp: absolute_def)
    have "set (ancestors (p @ [c])) = insert (p @ [c]) (set (ancestors p))"
      using c by (subst ancestors.simps) (simp add: parent_snoc)
    also have "\<dots> = {q. prefix q (p @ [c]) \<and> q \<noteq> []}"
      unfolding snoc.IH [OF a] by auto
    finally show ?thesis .
  qed
qed (simp add: absolute_def)

section \<open>UTF-8\<close>

text \<open>\<open>str::from_utf8\<close>: the well-formed byte sequences, shortest form, no surrogates.\<close>

definition cont :: "nat \<Rightarrow> bool" where
  "cont b \<longleftrightarrow> 0x80 \<le> b \<and> b \<le> 0xBF"

fun utf8_ok :: "nat list \<Rightarrow> bool" where
  "utf8_ok [] = True"
| "utf8_ok (b0 # bs) =
     (if b0 < 0x80 then utf8_ok bs
      else if 0xC2 \<le> b0 \<and> b0 \<le> 0xDF then
        (case bs of b1 # r \<Rightarrow> cont b1 \<and> utf8_ok r | _ \<Rightarrow> False)
      else if 0xE0 \<le> b0 \<and> b0 \<le> 0xEF then
        (case bs of
           b1 # b2 # r \<Rightarrow>
             cont b1 \<and> (b0 = 0xE0 \<longrightarrow> 0xA0 \<le> b1) \<and> (b0 = 0xED \<longrightarrow> b1 \<le> 0x9F) \<and> cont b2 \<and> utf8_ok r
         | _ \<Rightarrow> False)
      else if 0xF0 \<le> b0 \<and> b0 \<le> 0xF4 then
        (case bs of
           b1 # b2 # b3 # r \<Rightarrow>
             cont b1 \<and> (b0 = 0xF0 \<longrightarrow> 0x90 \<le> b1) \<and> (b0 = 0xF4 \<longrightarrow> b1 \<le> 0x8F)
               \<and> cont b2 \<and> cont b3 \<and> utf8_ok r
         | _ \<Rightarrow> False)
      else False)"

text \<open>\<open>OsStr::to_str\<close>.\<close>

definition to_str :: "string \<Rightarrow> string option" where
  "to_str n = (if utf8_ok (map of_char n) then Some n else None)"

end
