(* ===== verification/Codec.thy ===== *)
theory Codec
  imports Prelude
begin

text \<open>
  The contract of every value the checkpoint database stores under a stable code: an encoder and a
  decoder that knows exactly the encoder's codes. A code this build does not know is refused, never
  folded into a known one.
\<close>

definition ok :: "'e + 'a \<Rightarrow> 'a option" where
  "ok r = (case r of Inl _ \<Rightarrow> None | Inr x \<Rightarrow> Some x)"

lemma ok_eq_Some [result_simps]: "ok r = Some x \<longleftrightarrow> r = Inr x"
  by (cases r) (auto simp: ok_def)

lemma ok_eq_None: "ok r = None \<longleftrightarrow> (\<exists>e. r = Inl e)"
  by (cases r) (auto simp: ok_def)

lemma ok_simps [simp]: "ok (Inl e) = None" "ok (Inr x) = Some x"
  by (simp_all add: ok_def)

locale wire_code =
  fixes enc :: "'a \<Rightarrow> 'c"
    and dec :: "'c \<Rightarrow> 'a option"
  assumes dec_enc: "dec (enc x) = Some x"
    and dec_sound: "dec c = Some x \<Longrightarrow> c = enc x"
begin

lemma dec_iff: "dec c = Some x \<longleftrightarrow> c = enc x"
  using dec_enc dec_sound by blast

lemma enc_eq_iff: "enc x = enc y \<longleftrightarrow> x = y"
  by (metis dec_enc option.inject)

lemma refused_iff: "dec c = None \<longleftrightarrow> (\<forall>x. c \<noteq> enc x)"
  by (metis dec_enc dec_sound not_None_eq)

text \<open>A column of codes reads back as the column that was written.\<close>

lemma column_roundtrip: "those (map dec (map enc xs)) = Some xs"
  by (induction xs) (auto simp: dec_enc)

end

end
