(* ===== verification/Reclaim.thy ===== *)
theory Reclaim
  imports Paths Codec
begin

text \<open>
  \<open>src/src/model/reclaim.rs\<close>: how far a stored byte figure can be trusted, and the one place that
  turns physical allocations into bytes. Errors are typed: each constructor of \<open>reclaim_error\<close> is
  one \<open>AppError::msg\<close> of the module, with the values its text quotes.
\<close>

section \<open>Data\<close>

datatype reclaim_state = StUnknown | StExact | StUpperBound

datatype link_count = LinksUnknown | LinksKnown u64

datatype destructive_plan_verdict = Allowed | RescanRequiredVerdict

datatype reclaim_error =
    UnknownReclaimState i64
  | CorruptLinkCount i64
  | LinkCountTooLarge u64
  | LinkCountsDisagree link_count link_count path
  | NoAllocations
  | CeilingOverflow u64 u64
  | MorePathsThanLinks path u64 u64
  | ScanTotalOverflow
  | NegativeReclaim i64
  | NegativeGuarantee i64
  | PathCountOverflow

record object_links =
  ol_observed :: u64
  ol_links :: link_count

record reclaim_estimate =
  est_state :: reclaim_state
  est_guaranteed :: u64
  est_ceiling :: u64

record group_reclaim =
  gr_observed_paths :: u64
  gr_object_count :: u64
  gr_total_links :: link_count
  gr_estimate :: reclaim_estimate

section \<open>Operations\<close>

fun state_as_i64 :: "reclaim_state \<Rightarrow> i64" where
  "state_as_i64 StUnknown = 0"
| "state_as_i64 StExact = 1"
| "state_as_i64 StUpperBound = 2"

definition state_from_i64 :: "i64 \<Rightarrow> reclaim_error + reclaim_state" where
  "state_from_i64 raw =
     (if raw = 0 then Inr StUnknown
      else if raw = 1 then Inr StExact
      else if raw = 2 then Inr StUpperBound
      else Inl (UnknownReclaimState raw))"

fun is_trusted :: "reclaim_state \<Rightarrow> bool" where
  "is_trusted StUnknown = False"
| "is_trusted StExact = True"
| "is_trusted StUpperBound = True"

definition links_from_i64 :: "i64 \<Rightarrow> reclaim_error + link_count" where
  "links_from_i64 raw =
     (if raw = 0 then Inr LinksUnknown
      else if 0 < sint raw then Inr (LinksKnown raw)
      else Inl (CorruptLinkCount raw))"

definition links_from_u64 :: "u64 \<Rightarrow> link_count" where
  "links_from_u64 v = (if v = 0 then LinksUnknown else LinksKnown v)"

fun links_to_i64 :: "link_count \<Rightarrow> reclaim_error + i64" where
  "links_to_i64 LinksUnknown = Inr 0"
| "links_to_i64 (LinksKnown n) = ok_or (LinkCountTooLarge n) (i64_try_from n)"

fun links_to_u64 :: "link_count \<Rightarrow> u64" where
  "links_to_u64 LinksUnknown = 0"
| "links_to_u64 (LinksKnown n) = n"

fun links_known :: "link_count \<Rightarrow> bool" where
  "links_known LinksUnknown = False"
| "links_known (LinksKnown _) = True"

definition agreed :: "link_count \<Rightarrow> link_count \<Rightarrow> path \<Rightarrow> reclaim_error + link_count" where
  "agreed low high named = (if low = high then Inr low else Inl (LinkCountsDisagree low high named))"

definition verdict_of :: "reclaim_state \<Rightarrow> bool \<Rightarrow> destructive_plan_verdict" where
  "verdict_of state link_counts_known =
     (if link_counts_known \<and> is_trusted state then Allowed else RescanRequiredVerdict)"

definition unknown :: reclaim_estimate where
  "unknown = \<lparr>est_state = StUnknown, est_guaranteed = 0, est_ceiling = 0\<rparr>"

definition exact :: "u64 \<Rightarrow> reclaim_estimate" where
  "exact bytes = \<lparr>est_state = StExact, est_guaranteed = bytes, est_ceiling = bytes\<rparr>"

definition upper_bound :: "u64 \<Rightarrow> reclaim_estimate" where
  "upper_bound ceiling = \<lparr>est_state = StUpperBound, est_guaranteed = 0, est_ceiling = ceiling\<rparr>"

definition potential_bytes :: "reclaim_estimate \<Rightarrow> u64 option" where
  "potential_bytes e = (case est_state e of StUnknown \<Rightarrow> None | _ \<Rightarrow> Some (est_ceiling e))"

definition persisted_bytes :: "reclaim_estimate \<Rightarrow> u64" where
  "persisted_bytes e = (case est_state e of StUnknown \<Rightarrow> 0 | _ \<Rightarrow> est_ceiling e)"

definition order_key :: "reclaim_estimate \<Rightarrow> u64 \<times> u64" where
  "order_key e = (est_guaranteed e, persisted_bytes e)"

definition object_ceiling :: "u64 \<Rightarrow> u64 \<Rightarrow> reclaim_error + u64" where
  "object_ceiling sz object_count =
     rbind (ok_or NoAllocations (checked_sub object_count 1)) (\<lambda>extra.
     rbind (ok_or (CeilingOverflow object_count sz) (checked_mul sz extra)) (\<lambda>ceiling.
     rbind (ok_or (CeilingOverflow object_count sz) (i64_try_from ceiling)) (\<lambda>_.
     Inr ceiling)))"

text \<open>The loop of \<open>for_objects\<close>: its two flags, and the early return on an impossible row.\<close>

definition weigh_object :: "path \<Rightarrow> bool \<times> bool \<Rightarrow> object_links \<Rightarrow> reclaim_error + bool \<times> bool" where
  "weigh_object named = (\<lambda>(unknown_seen, partial_seen) obj.
     (case ol_links obj of
        LinksUnknown \<Rightarrow> Inr (True, partial_seen)
      | LinksKnown links \<Rightarrow>
          if links < ol_observed obj then Inl (MorePathsThanLinks named (ol_observed obj) links)
          else Inr (unknown_seen, partial_seen \<or> ol_observed obj < links)))"

definition for_objects :: "u64 \<Rightarrow> object_links list \<Rightarrow> path \<Rightarrow> reclaim_error + reclaim_estimate" where
  "for_objects sz objs named =
     rbind (object_ceiling sz (len_u64 objs)) (\<lambda>ceiling.
     rbind (rfold (weigh_object named) (False, False) objs) (\<lambda>(unknown_seen, partial_seen).
     Inr (if unknown_seen then unknown
          else if partial_seen then upper_bound ceiling
          else exact ceiling)))"

text \<open>The loop of \<open>for_fresh_scan\<close>: an unknown group leaves the function at once.\<close>

fun sum_groups ::
  "reclaim_state \<Rightarrow> u64 \<Rightarrow> u64 \<Rightarrow> reclaim_estimate list \<Rightarrow> reclaim_error + reclaim_estimate" where
  "sum_groups state guaranteed ceiling [] =
     rbind (ok_or ScanTotalOverflow (i64_try_from ceiling)) (\<lambda>_.
     Inr \<lparr>est_state = state, est_guaranteed = guaranteed, est_ceiling = ceiling\<rparr>)"
| "sum_groups state guaranteed ceiling (grp # groups) =
     (case est_state grp of
        StUnknown \<Rightarrow> Inr unknown
      | _ \<Rightarrow>
          rbind (ok_or ScanTotalOverflow (checked_add guaranteed (est_guaranteed grp))) (\<lambda>guaranteed'.
          rbind (ok_or ScanTotalOverflow (checked_add ceiling (persisted_bytes grp))) (\<lambda>ceiling'.
          sum_groups (if est_state grp = StUpperBound then StUpperBound else state)
            guaranteed' ceiling' groups)))"

definition for_fresh_scan :: "reclaim_estimate list \<Rightarrow> reclaim_error + reclaim_estimate" where
  "for_fresh_scan groups = sum_groups StExact 0 0 groups"

definition from_persisted :: "i64 \<Rightarrow> i64 \<Rightarrow> reclaim_error + reclaim_estimate" where
  "from_persisted reclaim raw_state =
     rbind (state_from_i64 raw_state) (\<lambda>state.
     if state = StUnknown then Inr unknown
     else rbind (ok_or (NegativeReclaim reclaim) (u64_try_from reclaim)) (\<lambda>ceiling.
       Inr \<lparr>est_state = state,
            est_guaranteed = (if state = StExact then ceiling else 0),
            est_ceiling = ceiling\<rparr>))"

definition from_persisted_scan :: "i64 \<Rightarrow> i64 \<Rightarrow> i64 \<Rightarrow> reclaim_error + reclaim_estimate" where
  "from_persisted_scan guaranteed ceiling raw_state =
     rbind (from_persisted ceiling raw_state) (\<lambda>whole.
     if est_state whole \<noteq> StUpperBound then Inr whole
     else rbind (ok_or (NegativeGuarantee guaranteed) (u64_try_from guaranteed)) (\<lambda>g.
       Inr (whole\<lparr>est_guaranteed := g\<rparr>)))"

fun total_links :: "u64 \<Rightarrow> object_links list \<Rightarrow> u64 option" where
  "total_links acc [] = Some acc"
| "total_links acc (obj # objs) =
     (case ol_links obj of
        LinksUnknown \<Rightarrow> None
      | LinksKnown links \<Rightarrow>
          (case checked_add acc links of None \<Rightarrow> None | Some acc' \<Rightarrow> total_links acc' objs))"

definition of_objects :: "u64 \<Rightarrow> object_links list \<Rightarrow> path \<Rightarrow> reclaim_error + group_reclaim" where
  "of_objects sz objs named =
     rbind (for_objects sz objs named) (\<lambda>estimate.
     Inr \<lparr>gr_observed_paths = sum_list (map ol_observed objs),
          gr_object_count = len_u64 objs,
          gr_total_links = (case total_links 0 objs of None \<Rightarrow> LinksUnknown | Some n \<Rightarrow> LinksKnown n),
          gr_estimate = estimate\<rparr>)"

section \<open>The persisted integers\<close>

interpretation reclaim_code: wire_code state_as_i64 "\<lambda>raw. ok (state_from_i64 raw)"
proof unfold_locales
  show "ok (state_from_i64 (state_as_i64 s)) = Some s" for s
    by (cases s) (auto simp: state_from_i64_def)
  show "ok (state_from_i64 raw) = Some s \<Longrightarrow> raw = state_as_i64 s" for raw s
    by (auto simp: state_from_i64_def result_simps split: if_splits)
qed

lemma links_from_i64_eq_Inr [result_simps]:
  "links_from_i64 raw = Inr l \<longleftrightarrow> raw = links_to_u64 l \<and> l \<noteq> LinksKnown 0 \<and> unat raw < 2 ^ 63"
  using sint_nonneg_iff [of raw]
  by (cases l) (auto simp: links_from_i64_def less_le)

lemma links_to_i64_eq_Inr [result_simps]:
  "links_to_i64 l = Inr raw \<longleftrightarrow> raw = links_to_u64 l \<and> unat raw < 2 ^ 63"
  by (cases l) (auto simp: result_simps arith_simps)

section \<open>One group\<close>

definition object_fits :: "object_links \<Rightarrow> bool" where
  "object_fits obj \<longleftrightarrow> (\<forall>n. ol_links obj = LinksKnown n \<longrightarrow> ol_observed obj \<le> n)"

definition object_partial :: "object_links \<Rightarrow> bool" where
  "object_partial obj \<longleftrightarrow> (\<exists>n. ol_links obj = LinksKnown n \<and> ol_observed obj < n)"

lemma object_ceiling_eq_Inr [result_simps]:
  "object_ceiling sz n = Inr c \<longleftrightarrow>
     0 < unat n \<and> unat c = unat sz * (unat n - 1) \<and> unat c < 2 ^ 63"
proof -
  have "unat n = Suc (unat x) \<longleftrightarrow> 0 < unat n \<and> unat x = unat n - 1" for x :: u64 by auto
  moreover have "\<exists>x :: u64. unat x = unat n - 1"
    unfolding ex_u64_iff by (rule le_less_trans [OF diff_le_self unat_u64_less])
  ultimately show ?thesis
    by (auto simp: object_ceiling_def result_simps arith_simps)
qed

lemma weigh_loop:
  "rfold (weigh_object named) (u, p) objs = Inr (u', p') \<longleftrightarrow>
     (\<forall>obj \<in> set objs. object_fits obj)
     \<and> u' = (u \<or> (\<exists>obj \<in> set objs. ol_links obj = LinksUnknown))
     \<and> p' = (p \<or> (\<exists>obj \<in> set objs. object_partial obj))"
proof (induction objs arbitrary: u p)
  case (Cons obj objs)
  then show ?case
    by (cases "ol_links obj")
       (auto simp: weigh_object_def object_fits_def object_partial_def not_less)
qed auto

lemma for_objects_eq_Inr [result_simps]:
  "for_objects sz objs named = Inr e \<longleftrightarrow>
     (\<exists>c. object_ceiling sz (len_u64 objs) = Inr c
        \<and> (\<forall>obj \<in> set objs. object_fits obj)
        \<and> e = (if \<exists>obj \<in> set objs. ol_links obj = LinksUnknown then unknown
               else if \<exists>obj \<in> set objs. object_partial obj then upper_bound c
               else exact c))"
  by (auto simp: for_objects_def rbind_eq_Inr weigh_loop)

text \<open>
  What the state says about the figure: nothing is claimed while it is unknown, and a promise never
  exceeds the ceiling, which always fits the persisted column.
\<close>

definition estimate_wf :: "reclaim_estimate \<Rightarrow> bool" where
  "estimate_wf e \<longleftrightarrow>
     (case est_state e of
        StUnknown \<Rightarrow> e = unknown
      | StExact \<Rightarrow> est_guaranteed e = est_ceiling e \<and> unat (est_ceiling e) < 2 ^ 63
      | StUpperBound \<Rightarrow> est_guaranteed e \<le> est_ceiling e \<and> unat (est_ceiling e) < 2 ^ 63)"

lemmas estimate_defs = estimate_wf_def unknown_def exact_def upper_bound_def

lemma estimate_wf_unknown [simp]: "estimate_wf unknown"
  by (simp add: estimate_defs)

lemma estimate_wf_exact [simp]: "estimate_wf (exact b) \<longleftrightarrow> unat b < 2 ^ 63"
  by (simp add: estimate_defs)

lemma estimate_wf_upper_bound [simp]: "estimate_wf (upper_bound b) \<longleftrightarrow> unat b < 2 ^ 63"
  by (simp add: estimate_defs)

lemma estimate_wf_bounds:
  "estimate_wf e \<Longrightarrow> est_guaranteed e \<le> est_ceiling e \<and> unat (est_ceiling e) < 2 ^ 63"
  by (auto simp: estimate_defs split: reclaim_state.splits)

lemma for_objects_wf: "for_objects sz objs named = Inr e \<Longrightarrow> estimate_wf e"
  by (auto simp: result_simps)

section \<open>A whole scan\<close>

text \<open>\<open>sum_groups\<close> over trusted groups: both totals are plain sums, and the state is exact only if every group's is.\<close>

lemma sum_groups_trusted:
  assumes "\<forall>grp \<in> set groups. est_state grp \<noteq> StUnknown"
  shows "sum_groups state g c groups = Inr e \<longleftrightarrow>
     unat (est_guaranteed e) = unat g + sum_list (map (unat \<circ> est_guaranteed) groups)
     \<and> unat (est_ceiling e) = unat c + sum_list (map (unat \<circ> est_ceiling) groups)
     \<and> unat (est_ceiling e) < 2 ^ 63
     \<and> est_state e = (if \<exists>grp \<in> set groups. est_state grp = StUpperBound then StUpperBound else state)"
  using assms
proof (induction groups arbitrary: state g c)
  case Nil
  show ?case by (cases e) (auto simp: result_simps arith_simps word_unat_eq_iff)
next
  case (Cons grp groups)
  let ?st = "if est_state grp = StUpperBound then StUpperBound else state"
  have p: "persisted_bytes grp = est_ceiling grp"
    using Cons.prems by (auto simp: persisted_bytes_def split: reclaim_state.splits)
  have "sum_groups state g c (grp # groups) = Inr e \<longleftrightarrow>
      (\<exists>g' c'. unat g' = unat g + unat (est_guaranteed grp) \<and> unat c' = unat c + unat (est_ceiling grp)
         \<and> sum_groups ?st g' c' groups = Inr e)"
    using Cons.prems by (cases "est_state grp") (auto simp: rbind_eq_Inr ok_or_eq_Inr checked_add_Some_iff p)
  also have "\<dots> \<longleftrightarrow> unat (est_guaranteed e) = unat g + sum_list (map (unat \<circ> est_guaranteed) (grp # groups))
     \<and> unat (est_ceiling e) = unat c + sum_list (map (unat \<circ> est_ceiling) (grp # groups))
     \<and> unat (est_ceiling e) < 2 ^ 63
     \<and> est_state e = (if \<exists>x \<in> set (grp # groups). est_state x = StUpperBound then StUpperBound else state)"
    (is "?L \<longleftrightarrow> ?R")
  proof
    assume ?L
    then show ?R using Cons.prems by (auto simp: Cons.IH comp_def)
  next
    assume r: ?R
    then have "unat g + unat (est_guaranteed grp) < 2 ^ 64" "unat c + unat (est_ceiling grp) < 2 ^ 64"
      using unat_u64_less [of "est_guaranteed e"] unat_u64_less [of "est_ceiling e"] by auto
    then obtain g' c' :: u64 where
      "unat g' = unat g + unat (est_guaranteed grp)" "unat c' = unat c + unat (est_ceiling grp)"
      by (metis ex_u64_iff)
    with r Cons.prems show ?L
      by (intro exI [of _ g'] exI [of _ c']) (auto simp: Cons.IH comp_def)
  qed
  finally show ?case .
qed

lemma sum_groups_unknown:
  assumes "\<exists>grp \<in> set groups. est_state grp = StUnknown" and "sum_groups state g c groups = Inr e"
  shows "e = unknown"
  using assms
proof (induction groups arbitrary: state g c)
  case (Cons grp groups)
  then show ?case
    by (cases "est_state grp") (auto simp: result_simps)
qed simp

lemma sum_list_unat_mono:
  "(\<And>x. x \<in> set xs \<Longrightarrow> (f x :: u64) \<le> h x) \<Longrightarrow> sum_list (map (unat \<circ> f) xs) \<le> sum_list (map (unat \<circ> h) xs)"
  by (rule sum_list_mono) (simp add: word_le_nat_alt)

lemma for_fresh_scan_trusted:
  assumes "\<forall>grp \<in> set groups. est_state grp \<noteq> StUnknown"
  shows "for_fresh_scan groups = Inr e \<longleftrightarrow>
     unat (est_guaranteed e) = sum_list (map (unat \<circ> est_guaranteed) groups)
     \<and> unat (est_ceiling e) = sum_list (map (unat \<circ> est_ceiling) groups)
     \<and> unat (est_ceiling e) < 2 ^ 63
     \<and> est_state e = (if \<exists>grp \<in> set groups. est_state grp = StUpperBound then StUpperBound else StExact)"
  using sum_groups_trusted [OF assms, of StExact 0 0 e] by (simp add: for_fresh_scan_def)

lemma for_fresh_scan_unknown:
  "\<exists>grp \<in> set groups. est_state grp = StUnknown \<Longrightarrow> for_fresh_scan groups = Inr e \<Longrightarrow> e = unknown"
  unfolding for_fresh_scan_def by (rule sum_groups_unknown)

lemma for_fresh_scan_wf:
  assumes "for_fresh_scan groups = Inr e" and wf: "\<forall>grp \<in> set groups. estimate_wf grp"
  shows "estimate_wf e"
proof (cases "\<exists>grp \<in> set groups. est_state grp = StUnknown")
  case True
  then show ?thesis using for_fresh_scan_unknown assms(1) by fastforce
next
  case False
  then have t: "\<forall>grp \<in> set groups. est_state grp \<noteq> StUnknown" by blast
  note s = for_fresh_scan_trusted [OF t, THEN iffD1, OF assms(1)]
  have le: "est_guaranteed e \<le> est_ceiling e"
    using s wf estimate_wf_bounds by (auto simp: word_le_nat_alt [of "est_guaranteed e"] intro!: sum_list_unat_mono)
  have eq: "est_guaranteed e = est_ceiling e" if "\<forall>grp \<in> set groups. est_state grp \<noteq> StUpperBound"
  proof -
    have "est_guaranteed grp = est_ceiling grp" if "grp \<in> set groups" for grp
      using that wf t \<open>\<forall>grp \<in> set groups. est_state grp \<noteq> StUpperBound\<close>
      by (cases "est_state grp") (auto simp: estimate_wf_def)
    then have "map (unat \<circ> est_guaranteed) groups = map (unat \<circ> est_ceiling) groups" by simp
    with s show ?thesis by (simp add: word_unat_eq_iff)
  qed
  from s le eq show ?thesis by (auto simp: estimate_wf_def)
qed

section \<open>Properties\<close>

text \<open>
  What a group is worth, in full: a list of allocations yields a figure exactly when there
  is at least one of them, the ceiling \<open>size * (allocations - 1)\<close> fits the signed column, and no
  allocation shows more pathnames than its inode has links; the figure is then unknown if one link
  count was never recorded, an upper bound if one allocation has links outside the group, and exact
  otherwise.
\<close>

theorem group_figure:
  assumes "length objs < 2 ^ 63"
  shows "for_objects sz objs named = Inr e \<longleftrightarrow>
     objs \<noteq> [] \<and> unat sz * (length objs - 1) < 2 ^ 63 \<and> (\<forall>obj \<in> set objs. object_fits obj)
     \<and> e = (if \<exists>obj \<in> set objs. ol_links obj = LinksUnknown then unknown
            else if \<exists>obj \<in> set objs. object_partial obj
              then upper_bound (of_nat (unat sz * (length objs - 1)))
            else exact (of_nat (unat sz * (length objs - 1))))"
proof -
  have len: "unat (len_u64 objs) = length objs" using assms by (simp add: unat_len_u64)
  let ?k = "unat sz * (length objs - 1)"
  have c: "object_ceiling sz (len_u64 objs) = Inr c \<longleftrightarrow> objs \<noteq> [] \<and> ?k < 2 ^ 63 \<and> c = of_nat ?k" for c
  proof -
    have "unat c = ?k \<and> unat c < 2 ^ 63 \<longleftrightarrow> ?k < 2 ^ 63 \<and> c = of_nat ?k"
      by (rule unat_eq_of_nat_iff)
    then show ?thesis unfolding object_ceiling_eq_Inr len by auto
  qed
  show ?thesis unfolding for_objects_eq_Inr c by auto
qed

theorem group_figure_witness:
  "for_objects 4096
     [\<lparr>ol_observed = 1, ol_links = LinksKnown 1\<rparr>, \<lparr>ol_observed = 1, ol_links = LinksKnown 2\<rparr>] []
   = Inr (upper_bound 4096)"
  by (subst group_figure) (simp_all add: object_fits_def object_partial_def)

text \<open>
  The figure does not depend on the order the allocations of a group are listed in.
\<close>

theorem group_figure_order:
  assumes "mset objs = mset objs'"
  shows "ok (for_objects sz objs named) = ok (for_objects sz objs' named)"
proof -
  have "set objs = set objs'" "length objs = length objs'"
    using assms by (auto dest: mset_eq_setD mset_eq_length)
  then have "for_objects sz objs named = Inr e \<longleftrightarrow> for_objects sz objs' named = Inr e" for e
    by (simp add: for_objects_eq_Inr len_u64_def)
  then show ?thesis by (metis ok_eq_Some not_None_eq)
qed

theorem group_figure_order_witness:
  "ok (for_objects 1 [\<lparr>ol_observed = 2, ol_links = LinksKnown 2\<rparr>, \<lparr>ol_observed = 1, ol_links = LinksKnown 9\<rparr>] [])
   = ok (for_objects 1 [\<lparr>ol_observed = 1, ol_links = LinksKnown 9\<rparr>, \<lparr>ol_observed = 2, ol_links = LinksKnown 2\<rparr>] [])"
  by (rule group_figure_order) simp

text \<open>
  A scan's total separates the promise from the ceiling: one unknown group makes the whole
  total unknown; otherwise the guaranteed figure is the sum of what the groups guarantee, the ceiling
  is the sum of their ceilings and fits the persisted column, the promise never exceeds the ceiling,
  and the state is exact only if every group's is.
\<close>

theorem scan_total:
  assumes "for_fresh_scan groups = Inr e" and "\<forall>grp \<in> set groups. estimate_wf grp"
  shows "if \<exists>grp \<in> set groups. est_state grp = StUnknown then e = unknown
    else unat (est_guaranteed e) = sum_list (map (unat \<circ> est_guaranteed) groups)
      \<and> unat (est_ceiling e) = sum_list (map (unat \<circ> est_ceiling) groups)
      \<and> unat (est_ceiling e) < 2 ^ 63 \<and> est_guaranteed e \<le> est_ceiling e
      \<and> (est_state e = StExact \<longleftrightarrow> (\<forall>grp \<in> set groups. est_state grp = StExact))"
proof (cases "\<exists>grp \<in> set groups. est_state grp = StUnknown")
  case True
  then show ?thesis using for_fresh_scan_unknown assms(1) by auto
next
  case False
  then have t: "\<forall>grp \<in> set groups. est_state grp \<noteq> StUnknown" by blast
  have "est_guaranteed e \<le> est_ceiling e"
    using estimate_wf_bounds [OF for_fresh_scan_wf [OF assms]] by blast
  moreover have "(\<forall>grp \<in> set groups. est_state grp = StExact) \<longleftrightarrow>
      \<not> (\<exists>grp \<in> set groups. est_state grp = StUpperBound)"
    using t by (metis reclaim_state.distinct(5) reclaim_state.exhaust)
  ultimately show ?thesis
    using for_fresh_scan_trusted [OF t, THEN iffD1, OF assms(1)] False by auto
qed

theorem scan_total_witness:
  "for_fresh_scan [exact 10, upper_bound 5]
     = Inr \<lparr>est_state = StUpperBound, est_guaranteed = 10, est_ceiling = 15\<rparr>
   \<and> unat (est_ceiling \<lparr>est_state = StUpperBound, est_guaranteed = 10, est_ceiling = 15\<rparr>) = 15"
proof -
  let ?e = "\<lparr>est_state = StUpperBound, est_guaranteed = 10 :: u64, est_ceiling = 15 :: u64\<rparr>"
  have r: "for_fresh_scan [exact 10, upper_bound 5] = Inr ?e"
    by (simp add: for_fresh_scan_trusted exact_def upper_bound_def)
  have "\<forall>grp \<in> set [exact 10, upper_bound 5]. estimate_wf grp" by simp
  from scan_total [OF r this] r show ?thesis by (simp add: exact_def upper_bound_def)
qed

text \<open>
  A scan total survives the database: writing the guaranteed sum, the persisted ceiling and
  the state of any computed total, and reading the three columns back, yields the same estimate.
\<close>

theorem scan_total_roundtrip:
  assumes "for_fresh_scan groups = Inr e" and "\<forall>grp \<in> set groups. estimate_wf grp"
  shows "from_persisted_scan (est_guaranteed e) (persisted_bytes e) (state_as_i64 (est_state e)) = Inr e"
proof -
  have wf: "estimate_wf e" using assms by (rule for_fresh_scan_wf)
  have dec: "state_from_i64 (state_as_i64 s) = Inr s" for s
    using reclaim_code.dec_enc by (simp add: ok_eq_Some)
  have b: "unat (est_ceiling e) < 2 ^ 63" "unat (est_guaranteed e) < 2 ^ 63"
    using estimate_wf_bounds [OF wf] by (auto simp: word_le_nat_alt intro: le_less_trans)
  then have "u64_try_from (est_ceiling e) = Some (est_ceiling e)"
    "u64_try_from (est_guaranteed e) = Some (est_guaranteed e)"
    by (simp_all add: u64_try_from_Some_iff)
  with wf dec [of "est_state e"] show ?thesis
    by (cases "est_state e") (auto simp: from_persisted_scan_def from_persisted_def persisted_bytes_def
        estimate_defs simp del: state_as_i64.simps)
qed

theorem scan_total_roundtrip_witness:
  "from_persisted_scan 10 15 2 = Inr \<lparr>est_state = StUpperBound, est_guaranteed = 10, est_ceiling = 15\<rparr>"
proof -
  let ?e = "\<lparr>est_state = StUpperBound, est_guaranteed = 10 :: u64, est_ceiling = 15 :: u64\<rparr>"
  have "for_fresh_scan [exact 10, upper_bound 5] = Inr ?e"
    by (simp add: for_fresh_scan_trusted exact_def upper_bound_def)
  from scan_total_roundtrip [OF this] show ?thesis by (simp add: persisted_bytes_def)
qed

text \<open>
  The link-count column: a raw value decodes to a count exactly when encoding that count
  gives the raw value back, zero standing for a count never recorded and a negative value for none.
\<close>

theorem link_count_roundtrip:
  "links_from_i64 raw = Inr l \<longleftrightarrow> links_to_i64 l = Inr raw \<and> l \<noteq> LinksKnown 0"
  by (auto simp: result_simps)

end
