(* ===== verification/Actions.thy ===== *)
theory Actions
  imports Codec
begin

text \<open>
  \<open>src/src/model/action.rs\<close> and the status of \<open>src/src/model/scan.rs\<close>: the three reclaim actions,
  the fidelity of a journal row and the status of a scan, with the codes the checkpoint stores.
\<close>

section \<open>Actions\<close>

datatype action_kind = Delete | Hardlink | Reflink

fun kind_label :: "action_kind \<Rightarrow> string" where
  "kind_label Delete = ''DELETE''"
| "kind_label Hardlink = ''HARDLINK''"
| "kind_label Reflink = ''REFLINK''"

fun kind_as_str :: "action_kind \<Rightarrow> string" where
  "kind_as_str Delete = ''delete''"
| "kind_as_str Hardlink = ''hardlink''"
| "kind_as_str Reflink = ''reflink''"

definition kind_parse :: "string \<Rightarrow> action_kind option" where
  "kind_parse s =
     (if s = ''delete'' then Some Delete
      else if s = ''hardlink'' then Some Hardlink
      else if s = ''reflink'' then Some Reflink
      else None)"

interpretation kind_code: wire_code kind_as_str kind_parse
proof unfold_locales
  show "kind_parse (kind_as_str k) = Some k" for k by (cases k) (simp_all add: kind_parse_def)
  show "kind_parse s = Some k \<Longrightarrow> s = kind_as_str k" for s k
    by (auto simp: kind_parse_def split: if_splits)
qed

section \<open>The move journal\<close>

datatype path_fidelity = CarriedFromText | ExactBytes

fun fidelity_stored :: "path_fidelity \<Rightarrow> i64" where
  "fidelity_stored CarriedFromText = 0"
| "fidelity_stored ExactBytes = 1"

section \<open>Scan status\<close>

datatype scan_status = Walking | Hashing | Complete | CompleteWithWarnings | Aborted

fun status_as_str :: "scan_status \<Rightarrow> string" where
  "status_as_str Walking = ''walking''"
| "status_as_str Hashing = ''hashing''"
| "status_as_str Complete = ''complete''"
| "status_as_str CompleteWithWarnings = ''complete_with_warnings''"
| "status_as_str Aborted = ''aborted''"

definition status_parse :: "string \<Rightarrow> scan_status option" where
  "status_parse s =
     (if s = ''walking'' then Some Walking
      else if s = ''hashing'' then Some Hashing
      else if s = ''complete'' then Some Complete
      else if s = ''complete_with_warnings'' then Some CompleteWithWarnings
      else if s = ''aborted'' then Some Aborted
      else None)"

definition is_resumable :: "scan_status \<Rightarrow> bool" where
  "is_resumable st \<longleftrightarrow> st = Walking \<or> st = Hashing"

definition is_completed :: "scan_status \<Rightarrow> bool" where
  "is_completed st \<longleftrightarrow> st = Complete \<or> st = CompleteWithWarnings"

definition on_completion :: "u64 \<Rightarrow> u64 \<Rightarrow> scan_status" where
  "on_completion hash_failures warning_events =
     (if 0 < hash_failures \<or> 0 < warning_events then CompleteWithWarnings else Complete)"

interpretation status_code: wire_code status_as_str status_parse
proof unfold_locales
  show "status_parse (status_as_str st) = Some st" for st by (cases st) (simp_all add: status_parse_def)
  show "status_parse s = Some st \<Longrightarrow> s = status_as_str st" for s st
    by (auto simp: status_parse_def split: if_splits)
qed

text \<open>
  The stored status of a scan: every status reads back as itself and nothing else is read;
  a finished scan is never resumable and a status is one of finished, resumable or aborted; and the
  status a run ends with is finished, with a warning exactly when a candidate stayed unhashed or an
  entry was lost.
\<close>

theorem scan_status_lifecycle:
  "(status_parse s = Some st \<longleftrightarrow> s = status_as_str st)
   \<and> (is_completed st \<longleftrightarrow> \<not> is_resumable st \<and> st \<noteq> Aborted)
   \<and> is_completed (on_completion hf we)
   \<and> (on_completion hf we = CompleteWithWarnings \<longleftrightarrow> hf \<noteq> 0 \<or> we \<noteq> 0)"
  using status_code.dec_iff [of s st]
  by (cases st) (auto simp: is_completed_def is_resumable_def on_completion_def word_gt_0)

theorem scan_status_lifecycle_witness:
  "status_parse ''hashing'' = Some Hashing \<and> on_completion 0 3 = CompleteWithWarnings"
  using scan_status_lifecycle [of "''hashing''" Hashing 0 3] by simp

end
