(* ===== verification/Plan_Types.thy ===== *)
theory Plan_Types
  imports Reclaim Actions
begin

text \<open>
  The data of \<open>src/src/model/plan.rs\<close>: the evidence a destructive plan may read, the allocations
  it is folded into, its actions, its figures and its refusals. The accessor methods of the source
  are the selectors of the records.
\<close>

section \<open>Evidence\<close>

datatype mark_intent = Keeper | Act action_kind

record requested_mark =
  rm_path :: path
  rm_intent :: mark_intent

record plan_object_key =
  key_device :: u64
  key_inode :: u64
  key_size :: u64
  key_mtime :: i64
  key_mtime_nsec :: i64
  key_ctime_sec :: i64
  key_ctime_nsec :: i64
  key_identity_version :: i64

record live_identity =
  li_device :: u64
  li_inode :: u64
  li_size :: u64
  li_mtime :: i64
  li_mtime_nsec :: i64
  li_ctime_sec :: i64
  li_ctime_nsec :: i64
  li_nlink :: u64

record member =
  m_path :: path
  m_key :: plan_object_key
  m_links :: u64
  m_mark :: "mark_intent option"

record group_id =
  gid_scan :: i64
  gid_rank :: i64
  gid_generation :: i64

record group_input =
  gi_id :: group_id
  gi_hash :: string
  gi_members :: "member list"

record group_witness =
  gw_id :: group_id
  gw_digest :: string
  gw_members :: "path list"

record plan_witness =
  pw_scan_id :: i64
  pw_generation :: i64
  pw_groups :: "group_witness list"

section \<open>Refusals\<close>

datatype arith_detail =
    PlanTotal reclaim_error
  | NoSuchAllocation nat
  | RealizedTotalOverflow

text \<open>
  \<open>Panicked\<close> stands for the source's \<open>expect\<close>s: it is not a variant of \<open>PlanRefusal\<close>, and no
  evidence makes the model reach it. The \<open>detail\<close> text of an arithmetic refusal is the error it is
  rendered from.
\<close>

datatype (plugins only: code size) plan_refusal =
    RescanRequired
  | NoMarks
  | NothingToDo
  | MarkNotPersisted path
  | MarkDisagrees path mark_intent mark_intent
  | RequestContradictsItself path
  | CorruptMark path string string
  | ContradictoryMark path
  | NotAMember path
  | ForeignScan i64 i64
  | MixedGeneration i64 i64
  | NegativeRank i64
  | MultipleKeepers string path path
  | DuplicateGroupInput string
  | DuplicatePathEvidence path
  | ObjectInTwoGroups path string string
  | NotInManifest path
  | MissingDigest path
  | MissingKeeper string
  | CrossDataset action_kind path path nat
  | InconsistentGroupSize string
  | UnrecordedLinkCount path
  | CorruptLinkCountOf path string
  | DisagreeingLinkCounts path u64 u64
  | ImpossibleManifest path u64 u64
  | UnverifiedIdentity path
  | Vanished path
  | Symlink path
  | Drifted path string
  | AlreadyLinkedNow path path
  | ExternalChange path string
  | UnsettledObject path
  | Arithmetic arith_detail
  | Store string
  | Panicked string

section \<open>Plans\<close>

datatype object_role = RoleKeeper | RoleTarget | RoleBystander

record planned_object =
  po_key :: plan_object_key
  po_hash :: string
  po_representative :: path
  po_members :: "path list"
  po_links :: u64
  po_covered_links :: u64
  po_role :: object_role

datatype plan_warning =
    AlreadyLinkedWithKeeper path
  | UncoveredAlias path u64
  | ExternalLinks path u64

record plan_action =
  pa_kind :: action_kind
  pa_target :: path
  pa_keeper :: path
  pa_target_object :: nat
  pa_keeper_object :: nat
  pa_size :: u64
  pa_expected_hash :: string
  pa_group :: nat

record plan_summary =
  ps_actions :: nat
  ps_covered_objects :: nat
  ps_estimate :: reclaim_estimate
  ps_warnings :: "plan_warning list"

text \<open>
  Why an action cannot run where its files are. The source stores the rendered sentence; every
  sentence \<open>actions/preflight.rs\<close> builds is one constructor here.
\<close>

datatype (plugins only: code size) obstacle =
    SetAside
  | CannotCloneOnHost
  | CrossDatasetLink action_kind
  | DatasetUnknown action_kind
  | PoolCannotClone string
  | OutsideMountpoint string path
  | NoParentDirectory
  | AnotherMount string
  | ReadOnlyFilesystem string
  | NoSpaceLeft string
  | QuarantineImmutable path
  | DirectoryImmutable
  | DirectoryAppendOnly
  | FileImmutable
  | FileAppendOnly
  | KeeperAnotherMount
  | KeeperImmutable
  | KeeperAppendOnly

record unrunnable =
  un_reasons :: "obstacle option list"
  un_count :: nat
  un_first :: "nat option"

record action_plan =
  ap_scan_id :: i64
  ap_objects :: "planned_object list"
  ap_actions :: "plan_action list"
  ap_summary :: plan_summary
  ap_witness :: plan_witness
  ap_group_marks :: "nat list list"
  ap_unrunnable :: unrunnable

section \<open>Operations of the evidence\<close>

definition keeper_mark :: "path \<Rightarrow> requested_mark" where
  "keeper_mark p = \<lparr>rm_path = p, rm_intent = Keeper\<rparr>"

definition acting_mark :: "path \<Rightarrow> action_kind \<Rightarrow> requested_mark" where
  "acting_mark p k = \<lparr>rm_path = p, rm_intent = Act k\<rparr>"

text \<open>The derived order of \<open>PlanObjectKey\<close>: field by field, the signed ones by their signed value.\<close>

definition key_order ::
  "plan_object_key \<Rightarrow> u64 \<times> u64 \<times> u64 \<times> int \<times> int \<times> int \<times> int \<times> int" where
  "key_order k = (key_device k, key_inode k, key_size k, sint (key_mtime k), sint (key_mtime_nsec k),
     sint (key_ctime_sec k), sint (key_ctime_nsec k), sint (key_identity_version k))"

definition first_drift :: "plan_object_key \<Rightarrow> live_identity \<Rightarrow> u64 \<Rightarrow> string option" where
  "first_drift k live links = first_failing
     [(''device'', key_device k = li_device live),
      (''inode'', key_inode k = li_inode live),
      (''size'', key_size k = li_size live),
      (''mtime'', key_mtime k = li_mtime live),
      (''mtime_nsec'', key_mtime_nsec k = li_mtime_nsec live),
      (''ctime'', key_ctime_sec k = li_ctime_sec live),
      (''ctime_nsec'', key_ctime_nsec k = li_ctime_nsec live),
      (''link count'', links = li_nlink live)]"

definition member_new ::
  "path \<Rightarrow> plan_object_key \<Rightarrow> link_count \<Rightarrow> mark_intent option \<Rightarrow> plan_refusal + member" where
  "member_new p k links mark =
     (if key_identity_version k \<noteq> 1 then Inl (UnverifiedIdentity p)
      else case links of
             LinksKnown n \<Rightarrow> Inr \<lparr>m_path = p, m_key = k, m_links = n, m_mark = mark\<rparr>
           | LinksUnknown \<Rightarrow> Inl (UnrecordedLinkCount p))"

definition is_keeper :: "member \<Rightarrow> bool" where
  "is_keeper m \<longleftrightarrow> m_mark m = Some Keeper"

definition action_of :: "member \<Rightarrow> action_kind option" where
  "action_of m = (case m_mark m of Some (Act k) \<Rightarrow> Some k | _ \<Rightarrow> None)"

section \<open>Operations of one allocation\<close>

definition observed_links :: "planned_object \<Rightarrow> u64" where
  "observed_links obj = len_u64 (po_members obj)"

definition remaining_inside :: "planned_object \<Rightarrow> u64" where
  "remaining_inside obj = saturating_sub (observed_links obj) (po_covered_links obj)"

definition unobserved_links :: "planned_object \<Rightarrow> u64" where
  "unobserved_links obj = saturating_sub (po_links obj) (observed_links obj)"

definition object_estimate :: "planned_object \<Rightarrow> reclaim_estimate" where
  "object_estimate obj =
     (if po_covered_links obj = 0 \<or> 0 < remaining_inside obj then exact 0
      else if 0 < unobserved_links obj then upper_bound (key_size (po_key obj))
      else exact (key_size (po_key obj)))"

definition object_warning :: "planned_object \<Rightarrow> plan_warning option" where
  "object_warning obj =
     (if po_covered_links obj = 0 then None
      else if 0 < remaining_inside obj
        then Some (UncoveredAlias (po_representative obj) (remaining_inside obj))
      else if 0 < unobserved_links obj
        then Some (ExternalLinks (po_representative obj) (unobserved_links obj))
      else None)"

section \<open>Facts\<close>

lemma key_order_eq_iff [simp]: "key_order k = key_order k' \<longleftrightarrow> k = k'"
proof
  assume "key_order k = key_order k'"
  then have "sint (key_mtime k) = sint (key_mtime k')" "sint (key_mtime_nsec k) = sint (key_mtime_nsec k')"
    "sint (key_ctime_sec k) = sint (key_ctime_sec k')" "sint (key_ctime_nsec k) = sint (key_ctime_nsec k')"
    "sint (key_identity_version k) = sint (key_identity_version k')"
    "key_device k = key_device k'" "key_inode k = key_inode k'" "key_size k = key_size k'"
    by (auto simp: key_order_def)
  then show "k = k'" by (simp add: signed_word_eqI)
qed simp

lemma first_drift_None_iff:
  "first_drift k live links = None \<longleftrightarrow>
     key_device k = li_device live \<and> key_inode k = li_inode live \<and> key_size k = li_size live
     \<and> key_mtime k = li_mtime live \<and> key_mtime_nsec k = li_mtime_nsec live
     \<and> key_ctime_sec k = li_ctime_sec live \<and> key_ctime_nsec k = li_ctime_nsec live
     \<and> links = li_nlink live"
  by (simp add: first_drift_def)

lemma action_of_not_keeper: "action_of m = Some k \<Longrightarrow> \<not> is_keeper m"
  by (auto simp: action_of_def is_keeper_def split: option.splits mark_intent.splits)

lemma action_of_Some_iff: "action_of m = Some k \<longleftrightarrow> m_mark m = Some (Act k)"
  by (auto simp: action_of_def split: option.splits mark_intent.splits)

lemma member_new_eq_Inr [result_simps]:
  "member_new p k links mark = Inr m \<longleftrightarrow>
     key_identity_version k = 1 \<and> links = LinksKnown (m_links m)
     \<and> m_path m = p \<and> m_key m = k \<and> m_mark m = mark"
  by (cases links) (auto simp: member_new_def)

text \<open>A guarantee is claimed only for an allocation every link of which is both seen and removed.\<close>

definition fully_released :: "planned_object \<Rightarrow> bool" where
  "fully_released obj \<longleftrightarrow>
     po_covered_links obj \<noteq> 0 \<and> remaining_inside obj = 0 \<and> unobserved_links obj = 0"

lemma object_estimate_guaranteed:
  "est_guaranteed (object_estimate obj) = (if fully_released obj then key_size (po_key obj) else 0)"
  by (auto simp: object_estimate_def fully_released_def exact_def upper_bound_def word_gt_0)

lemma object_estimate_trusted: "est_state (object_estimate obj) \<noteq> StUnknown"
  by (auto simp: object_estimate_def exact_def upper_bound_def)

end
