(* ===== verification/Ordered_Map.thy ===== *)
theory Ordered_Map
  imports Prelude
begin

text \<open>
  \<open>BTreeMap\<close>: an association list kept strictly ascending in its keys, so iteration order is part
  of the value. The interface the clients use is the locale \<open>keyed_store\<close>; the facts its clients
  need (what a fold of entries leaves behind) are proved once inside it and reached through the
  interpretation at the end.
\<close>

fun bt_insert :: "'k::linorder \<Rightarrow> 'v \<Rightarrow> ('k \<times> 'v) list \<Rightarrow> ('k \<times> 'v) list" where
  "bt_insert k v [] = [(k, v)]"
| "bt_insert k v ((k', v') # m) =
     (if k < k' then (k, v) # (k', v') # m
      else if k = k' then (k, v) # m
      else (k', v') # bt_insert k v m)"

definition bt_get :: "('k \<times> 'v) list \<Rightarrow> 'k \<Rightarrow> 'v option" where
  "bt_get = map_of"

definition bt_wf :: "('k::linorder \<times> 'v) list \<Rightarrow> bool" where
  "bt_wf m \<longleftrightarrow> sorted_wrt (<) (map fst m)"

text \<open>\<open>entry(k).or_default()\<close> followed by a change of the slot.\<close>

definition bt_update :: "'k::linorder \<Rightarrow> ('v option \<Rightarrow> 'v) \<Rightarrow> ('k \<times> 'v) list \<Rightarrow> ('k \<times> 'v) list" where
  "bt_update k f m = bt_insert k (f (bt_get m k)) m"

text \<open>\<open>range(lo..hi)\<close>.\<close>

definition bt_range :: "'k::linorder \<Rightarrow> 'k \<Rightarrow> ('k \<times> 'v) list \<Rightarrow> ('k \<times> 'v) list" where
  "bt_range lo hi m = filter (\<lambda>(k, _). lo \<le> k \<and> k < hi) m"

lemma fst_set_bt_insert: "fst ` set (bt_insert k v m) = insert k (fst ` set m)"
  by (induction k v m rule: bt_insert.induct) auto

lemma bt_wf_Nil [simp]: "bt_wf []"
  by (simp add: bt_wf_def)

lemma bt_wf_insert: "bt_wf m \<Longrightarrow> bt_wf (bt_insert k v m)"
proof (induction k v m rule: bt_insert.induct)
  case (2 k v k' v' m)
  then show ?case
    using fst_set_bt_insert [of k v m] by (fastforce simp: bt_wf_def image_iff)
qed (simp add: bt_wf_def)

lemma bt_get_Nil [simp]: "bt_get [] k = None"
  by (simp add: bt_get_def)

lemma bt_wf_distinct: "bt_wf m \<Longrightarrow> distinct (map fst m)"
  by (auto simp: bt_wf_def strict_sorted_iff)

lemma bt_get_insert: "bt_wf m \<Longrightarrow> bt_get (bt_insert k v m) k' = (if k' = k then Some v else bt_get m k')"
proof (induction k v m rule: bt_insert.induct)
  case (2 k v a b m)
  then have "k \<notin> fst ` set m" if "k < a" using that by (fastforce simp: bt_wf_def)
  with 2 show ?case by (auto simp: bt_get_def bt_wf_def)
qed (simp add: bt_get_def)

lemma bt_get_Some_iff: "bt_wf m \<Longrightarrow> bt_get m k = Some v \<longleftrightarrow> (k, v) \<in> set m"
  by (simp add: bt_get_def map_of_eq_Some_iff bt_wf_distinct)

lemma bt_get_None_iff: "bt_get m k = None \<longleftrightarrow> k \<notin> fst ` set m"
  by (simp add: bt_get_def map_of_eq_None_iff)

lemma bt_wf_eqI:
  assumes "bt_wf m" "bt_wf m'" "\<And>k. bt_get m k = bt_get m' k"
  shows "m = m'"
proof -
  have "set m = set m'"
    using assms by (auto simp flip: bt_get_Some_iff)
  then have "sorted_list_of_set (fst ` set m) = sorted_list_of_set (fst ` set m')" by simp
  moreover have "sorted_list_of_set (fst ` set n) = map fst n" if "bt_wf n" for n :: "('a \<times> 'b) list"
    using that sorted_list_of_set.idem_if_sorted_distinct [of "map fst n"]
    by (simp add: bt_wf_def strict_sorted_iff)
  ultimately have k: "map fst m = map fst m'" using assms(1,2) by simp
  have "map snd m = map snd m'"
  proof (rule nth_equalityI)
    show "length (map snd m) = length (map snd m')" using k by (metis length_map)
    fix i assume "i < length (map snd m)"
    moreover from this have "fst (m ! i) = fst (m' ! i)" using k by (metis length_map nth_map)
    moreover have "m ! i \<in> set m" "m' ! i \<in> set m'"
      using \<open>i < length (map snd m)\<close> k by (auto intro!: nth_mem) (metis length_map)
    ultimately have "snd (m ! i) = snd (m' ! i)"
      using assms by (metis bt_get_Some_iff option.inject prod.collapse)
    then show "map snd m ! i = map snd m' ! i"
      using \<open>i < length (map snd m)\<close> k by (metis length_map nth_map)
  qed
  with k show ?thesis by (metis zip_map_fst_snd)
qed

section \<open>The interface\<close>

locale keyed_store =
  fixes get :: "'m \<Rightarrow> 'k \<Rightarrow> 'v option"
    and put :: "'k \<Rightarrow> 'v \<Rightarrow> 'm \<Rightarrow> 'm"
    and fresh :: "'m"
    and wf :: "'m \<Rightarrow> bool"
  assumes get_fresh: "get fresh k = None"
    and wf_fresh: "wf fresh"
    and get_put: "wf m \<Longrightarrow> get (put k v m) k' = (if k' = k then Some v else get m k')"
    and wf_put: "wf m \<Longrightarrow> wf (put k v m)"
begin

lemma wf_fold_put: "wf m \<Longrightarrow> wf (fold (\<lambda>(k, v). put k v) kvs m)"
  by (induction kvs arbitrary: m) (auto simp: wf_put split: prod.splits)

lemma get_fold_put:
  "wf m \<Longrightarrow> get (fold (\<lambda>(k, v). put k v) kvs m) k =
     (case map_of (rev kvs) k of None \<Rightarrow> get m k | Some v \<Rightarrow> Some v)"
proof (induction kvs arbitrary: m)
  case (Cons kv kvs)
  obtain a b where "kv = (a, b)" by force
  with Cons show ?case
    by (auto simp: wf_put get_put map_add_def map_of_append split: option.splits)
qed simp

text \<open>A checked accumulation: what the loop's last state holds for a key.\<close>

lemma rfold_keeps_wf:
  assumes "rfold f m xs = Inr m'" "wf m"
    and "\<And>m x m'. f m x = Inr m' \<Longrightarrow> \<exists>k v. m' = put k v m \<or> m' = m"
  shows "wf m'"
proof (rule rfold_invariant [of f m xs m' wf, OF assms(1,2)])
  fix s x s' assume "wf s" "f s x = Inr s'"
  then show "wf s'" using assms(3) wf_put by blast
qed

end

interpretation bt: keyed_store bt_get bt_insert "[]" bt_wf
  by unfold_locales (auto simp: bt_get_insert bt_wf_insert)

lemma bt_wf_update: "bt_wf m \<Longrightarrow> bt_wf (bt_update k f m)"
  by (simp add: bt_update_def bt.wf_put)

lemma bt_get_update:
  "bt_wf m \<Longrightarrow> bt_get (bt_update k f m) k' = (if k' = k then Some (f (bt_get m k)) else bt_get m k')"
  by (simp add: bt_update_def bt.get_put)

section \<open>Grouping by a key\<close>

text \<open>
  \<open>for x in xs { map.entry(key(x)).or_default().push(x) }\<close>, and what iterating the map then sees:
  every key once, ascending, with its elements in the order they came.
\<close>

definition bt_push :: "'k::linorder \<Rightarrow> 'a \<Rightarrow> ('k \<times> 'a list) list \<Rightarrow> ('k \<times> 'a list) list" where
  "bt_push k x m = bt_update k (\<lambda>old. (case old of None \<Rightarrow> [] | Some ys \<Rightarrow> ys) @ [x]) m"

definition group_by :: "('a \<Rightarrow> 'k::linorder) \<Rightarrow> 'a list \<Rightarrow> ('k \<times> 'a list) list" where
  "group_by key xs = fold (\<lambda>x. bt_push (key x) x) xs []"

lemma group_by_fold:
  assumes "bt_wf m"
  shows "bt_wf (fold (\<lambda>x. bt_push (key x) x) xs m) \<and>
    bt_get (fold (\<lambda>x. bt_push (key x) x) xs m) k =
      (let new = filter (\<lambda>x. key x = k) xs in
       case bt_get m k of None \<Rightarrow> (if new = [] then None else Some new) | Some ys \<Rightarrow> Some (ys @ new))"
  using assms
proof (induction xs arbitrary: m)
  case (Cons x xs)
  have "bt_wf (bt_push (key x) x m)" using Cons.prems by (simp add: bt_push_def bt_wf_update)
  from Cons.IH [OF this] Cons.prems show ?case
    by (auto simp: bt_push_def bt_get_update Let_def split: option.splits)
qed (auto split: option.splits)

lemma bt_wf_group_by [simp]: "bt_wf (group_by key xs)"
  by (simp add: group_by_def group_by_fold)

lemma bt_get_group_by:
  "bt_get (group_by key xs) k =
     (let ys = filter (\<lambda>x. key x = k) xs in if ys = [] then None else Some ys)"
  by (simp add: group_by_def group_by_fold Let_def)

lemma in_group_by_iff:
  "(k, ys) \<in> set (group_by key xs) \<longleftrightarrow> ys = filter (\<lambda>x. key x = k) xs \<and> ys \<noteq> []"
  by (auto simp flip: bt_get_Some_iff [OF bt_wf_group_by] simp: bt_get_group_by Let_def split: if_splits)

lemma group_by_keys: "fst ` set (group_by key xs) = key ` set xs"
proof -
  have "k \<in> fst ` set (group_by key xs) \<longleftrightarrow> k \<in> key ` set xs" for k
    using bt_get_None_iff [of "group_by key xs" k]
    by (auto simp: bt_get_group_by Let_def filter_empty_conv split: if_splits)
  then show ?thesis by blast
qed

lemma group_by_distinct: "distinct (map fst (group_by key xs))"
  by (rule bt_wf_distinct) simp

text \<open>The groups of two lists agree as soon as every key has the same elements in the same order.\<close>

lemma group_by_cong:
  "(\<And>k. filter (\<lambda>x. key x = k) xs = filter (\<lambda>x. key x = k) ys) \<Longrightarrow> group_by key xs = group_by key ys"
  by (rule bt_wf_eqI) (auto simp: bt_get_group_by)

end
