(* ===== verification/Plan_Build.thy ===== *)
theory Plan_Build
  imports Plan_Types Ordered_Map
begin

text \<open>
  \<open>ActionPlan::try_new\<close>, \<open>check_global_evidence\<close> and \<open>push_objects\<close> of
  \<open>src/src/model/plan.rs\<close>: complete group evidence is folded into a plan, or the whole plan is
  refused. The source pushes onto \<open>objects\<close>, \<open>actions\<close> and \<open>warnings\<close> while it walks the groups;
  here one group yields the part it would push (\<open>plan_group\<close>) and the walk appends it
  (\<open>fold_group\<close>).
\<close>

section \<open>The evidence as a whole\<close>

definition check_identity :: "i64 \<Rightarrow> i64 \<Rightarrow> group_input \<Rightarrow> plan_refusal + unit" where
  "check_identity scan_id generation g =
     (if gid_scan (gi_id g) \<noteq> scan_id then Inl (ForeignScan scan_id (gid_scan (gi_id g)))
      else if sint (gid_rank (gi_id g)) < 0 then Inl (NegativeRank (gid_rank (gi_id g)))
      else if gid_generation (gi_id g) \<noteq> generation
        then Inl (MixedGeneration generation (gid_generation (gi_id g)))
      else Inr ())"

definition sort_members :: "group_input \<Rightarrow> group_input" where
  "sort_members g = g\<lparr>gi_members := sort_key m_path (gi_members g)\<rparr>"

definition group_rank :: "group_input \<Rightarrow> int" where
  "group_rank g = sint (gid_rank (gi_id g))"

definition normalise :: "group_input list \<Rightarrow> group_input list" where
  "normalise groups = map sort_members (sort_key group_rank groups)"

fun check_distinct_ids :: "group_input list \<Rightarrow> plan_refusal + unit" where
  "check_distinct_ids (g # h # rest) =
     (if gi_id g = gi_id h then Inl (DuplicateGroupInput (gi_hash g)) else check_distinct_ids (h # rest))"
| "check_distinct_ids _ = Inr ()"

text \<open>The state of the second loop: the pathnames seen, and who owns each allocation.\<close>

type_synonym key_tuple = "u64 \<times> u64 \<times> u64 \<times> int \<times> int \<times> int \<times> int \<times> int"
type_synonym evidence_state = "path list \<times> (key_tuple \<times> string \<times> path) list"

definition check_member :: "string \<Rightarrow> evidence_state \<Rightarrow> member \<Rightarrow> plan_refusal + evidence_state" where
  "check_member hash = (\<lambda>(paths, owner) m.
     if m_path m \<in> set paths then Inl (DuplicatePathEvidence (m_path m))
     else case bt_get owner (key_order (m_key m)) of
            None \<Rightarrow> Inr (m_path m # paths, bt_insert (key_order (m_key m)) (hash, m_path m) owner)
          | Some (first_hash, first_path) \<Rightarrow>
              if first_hash \<noteq> hash then Inl (ObjectInTwoGroups first_path first_hash hash)
              else Inr (m_path m # paths, owner))"

definition check_global_evidence :: "group_input list \<Rightarrow> plan_refusal + unit" where
  "check_global_evidence groups =
     rbind (check_distinct_ids groups) (\<lambda>_.
     rbind (rfold (\<lambda>st g. rfold (check_member (gi_hash g)) st (gi_members g)) ([], []) groups) (\<lambda>_.
     Inr ()))"

section \<open>The allocations of one group\<close>

definition lowest :: "member list \<Rightarrow> u64" where
  "lowest ms = foldr (\<lambda>m. min (m_links m)) (tl ms) (m_links (hd ms))"

definition highest :: "member list \<Rightarrow> u64" where
  "highest ms = foldr (\<lambda>m. max (m_links m)) (tl ms) (m_links (hd ms))"

definition build_object ::
  "string \<Rightarrow> member option \<Rightarrow> member list \<Rightarrow> member list \<Rightarrow> plan_refusal + planned_object" where
  "build_object hash keeper covered aliases =
     (let k = m_key (hd aliases);
          low = lowest aliases;
          high = highest aliases;
          representative = m_path (hd aliases);
          observed = len_u64 aliases;
          covered_links = of_nat (length (filter (\<lambda>t. m_key t = k) covered))
      in rbind (map_err (\<lambda>_. DisagreeingLinkCounts representative low high)
                 (agreed (LinksKnown low) (LinksKnown high) representative)) (\<lambda>_.
         if low < observed then Inl (ImpossibleManifest representative observed low)
         else Inr
           \<lparr>po_key = k, po_hash = hash, po_representative = representative,
            po_members = map m_path aliases, po_links = low, po_covered_links = covered_links,
            po_role = (if map_option m_key keeper = Some k then RoleKeeper
                       else if 0 < covered_links then RoleTarget
                       else RoleBystander)\<rparr>))"

text \<open>What \<open>push_objects\<close> appends: one object per key, then sorted by the smallest pathname.\<close>

definition push_objects ::
  "group_input \<Rightarrow> member option \<Rightarrow> member list \<Rightarrow> plan_refusal + planned_object list" where
  "push_objects g keeper covered =
     rbind (rmap (\<lambda>(_, aliases). build_object (gi_hash g) keeper covered aliases)
              (group_by (key_order \<circ> m_key) (gi_members g))) (\<lambda>built.
     Inr (sort_key po_representative built))"

section \<open>One group\<close>

record group_part =
  gp_objects :: "planned_object list"
  gp_actions :: "plan_action list"
  gp_warnings :: "plan_warning list"
  gp_crossing :: "(action_kind \<times> path \<times> path) list"

definition index_of :: "planned_object list \<Rightarrow> nat \<Rightarrow> plan_object_key \<Rightarrow> nat option" where
  "index_of objs first_object k =
     map_option (\<lambda>offset. offset + first_object) (position (\<lambda>obj. po_key obj = k) objs)"

definition add_target ::
  "nat \<Rightarrow> nat \<Rightarrow> string \<Rightarrow> u64 \<Rightarrow> member \<Rightarrow> nat \<Rightarrow> group_part \<Rightarrow> member \<Rightarrow> plan_refusal + group_part" where
  "add_target group_index first_object hash sz keeper keeper_object part t =
     rbind (ok_or (Panicked ''targets carry an action'') (action_of t)) (\<lambda>kind.
     if kind \<noteq> Delete \<and> key_device (m_key t) \<noteq> key_device (m_key keeper)
       then Inr (part\<lparr>gp_crossing := gp_crossing part @ [(kind, m_path t, m_path keeper)]\<rparr>)
     else
       rbind (ok_or (Panicked ''a target is one of the members'')
                (index_of (gp_objects part) first_object (m_key t))) (\<lambda>target_object.
       Inr (part\<lparr>gp_actions := gp_actions part @
         [\<lparr>pa_kind = kind, pa_target = m_path t, pa_keeper = m_path keeper,
           pa_target_object = target_object, pa_keeper_object = keeper_object,
           pa_size = sz, pa_expected_hash = hash, pa_group = group_index\<rparr>]\<rparr>)))"

definition plan_group :: "nat \<Rightarrow> nat \<Rightarrow> group_input \<Rightarrow> plan_refusal + group_part" where
  "plan_group group_index first_object g =
     (let members = gi_members g;
          sz = key_size (m_key (hd members));
          keepers = filter is_keeper members;
          targets = filter (\<lambda>m. \<not> is_keeper m \<and> action_of m \<noteq> None) members
      in if members = [] then Inl (MissingKeeper (gi_hash g))
         else if \<exists>m \<in> set members. key_size (m_key m) \<noteq> sz then Inl (InconsistentGroupSize (gi_hash g))
         else case keepers of
             first # second # _ \<Rightarrow> Inl (MultipleKeepers (gi_hash g) (m_path first) (m_path second))
           | [] \<Rightarrow>
               if targets = [] then
                 rbind (push_objects g None []) (\<lambda>objs.
                 Inr \<lparr>gp_objects = objs, gp_actions = [], gp_warnings = [], gp_crossing = []\<rparr>)
               else Inl (MissingKeeper (gi_hash g))
           | [keeper] \<Rightarrow>
               let covered = filter (\<lambda>t. m_key t \<noteq> m_key keeper) targets;
                   skipped = filter (\<lambda>t. m_key t = m_key keeper) targets
               in rbind (push_objects g (Some keeper) covered) (\<lambda>objs.
                  rbind (ok_or (Panicked ''the keeper is one of the members'')
                           (index_of objs first_object (m_key keeper))) (\<lambda>keeper_object.
                  rfold (add_target group_index first_object (gi_hash g) sz keeper keeper_object)
                    \<lparr>gp_objects = objs, gp_actions = [],
                     gp_warnings = map (\<lambda>t. AlreadyLinkedWithKeeper (m_path t)) skipped,
                     gp_crossing = []\<rparr> covered)))"

definition append_part :: "group_part \<Rightarrow> group_part \<Rightarrow> group_part" where
  "append_part st part =
     \<lparr>gp_objects = gp_objects st @ gp_objects part,
      gp_actions = gp_actions st @ gp_actions part,
      gp_warnings = gp_warnings st @ gp_warnings part,
      gp_crossing = gp_crossing st @ gp_crossing part\<rparr>"

definition empty_part :: group_part where
  "empty_part = \<lparr>gp_objects = [], gp_actions = [], gp_warnings = [], gp_crossing = []\<rparr>"

definition fold_group :: "group_part \<Rightarrow> nat \<times> group_input \<Rightarrow> plan_refusal + group_part" where
  "fold_group st = (\<lambda>(group_index, g).
     rbind (plan_group group_index (length (gp_objects st)) g) (\<lambda>part. Inr (append_part st part)))"

section \<open>The plan\<close>

definition no_reading :: unrunnable where
  "no_reading = \<lparr>un_reasons = [], un_count = 0, un_first = None\<rparr>"

definition witness_of :: "i64 \<Rightarrow> i64 \<Rightarrow> group_input list \<Rightarrow> plan_witness" where
  "witness_of scan_id generation groups =
     \<lparr>pw_scan_id = scan_id, pw_generation = generation,
      pw_groups = map (\<lambda>g. \<lparr>gw_id = gi_id g, gw_digest = gi_hash g,
                            gw_members = map m_path (gi_members g)\<rparr>) groups\<rparr>"

definition marks_of :: "group_input \<Rightarrow> nat list" where
  "marks_of g = map fst (filter (\<lambda>(_, m). m_mark m \<noteq> None) (enumerate 0 (gi_members g)))"

definition finish_plan ::
  "i64 \<Rightarrow> plan_witness \<Rightarrow> nat list list \<Rightarrow> group_part \<Rightarrow> plan_refusal + action_plan" where
  "finish_plan scan_id witness group_marks st =
     (case gp_crossing st of
        (kind, target, keeper) # _ \<Rightarrow> Inl (CrossDataset kind target keeper (length (gp_crossing st)))
      | [] \<Rightarrow>
          if gp_actions st = [] then Inl (if gp_warnings st = [] then NoMarks else NothingToDo)
          else
            rbind (map_err (Arithmetic \<circ> PlanTotal)
                     (for_fresh_scan (map object_estimate (gp_objects st)))) (\<lambda>estimate.
            Inr \<lparr>ap_scan_id = scan_id, ap_objects = gp_objects st, ap_actions = gp_actions st,
                 ap_summary =
                   \<lparr>ps_actions = length (gp_actions st),
                    ps_covered_objects =
                      length (filter (\<lambda>obj. 0 < po_covered_links obj) (gp_objects st)),
                    ps_estimate = estimate,
                    ps_warnings = gp_warnings st @ List.map_filter object_warning (gp_objects st)\<rparr>,
                 ap_witness = witness, ap_group_marks = group_marks, ap_unrunnable = no_reading\<rparr>))"

definition try_new :: "i64 \<Rightarrow> group_input list \<Rightarrow> plan_refusal + action_plan" where
  "try_new scan_id input =
     (case input of
        [] \<Rightarrow> Inl NoMarks
      | g0 # _ \<Rightarrow>
          let generation = gid_generation (gi_id g0);
              groups = normalise input
          in rbind (rfold (\<lambda>_. check_identity scan_id generation) () input) (\<lambda>_.
             rbind (check_global_evidence groups) (\<lambda>_.
             rbind (rfold fold_group empty_part (enumerate 0 groups)) (\<lambda>st.
             finish_plan scan_id (witness_of scan_id generation groups) (map marks_of groups) st))))"

end
