(* ===== verification/Plan_Facts.thy ===== *)
theory Plan_Facts
  imports Plan_Build
begin

text \<open>
  What a successful fold of \<open>try_new\<close> established: about the evidence, about the allocations of one
  group, about the part each group contributes and about the plan as a whole.
\<close>

section \<open>The evidence\<close>

lemma check_identity_Inr [result_simps]:
  "check_identity scan_id generation g = Inr u \<longleftrightarrow>
     gid_scan (gi_id g) = scan_id \<and> 0 \<le> group_rank g \<and> gid_generation (gi_id g) = generation"
  by (auto simp: check_identity_def group_rank_def)

lemma rfold_check_identity:
  "rfold (\<lambda>_. check_identity scan_id generation) () gs = Inr u \<longleftrightarrow>
     (\<forall>g \<in> set gs. gid_scan (gi_id g) = scan_id \<and> 0 \<le> group_rank g \<and> gid_generation (gi_id g) = generation)"
  by (induction gs) (auto simp: result_simps)

lemma sort_members_id [simp]:
  "gi_id (sort_members g) = gi_id g" "gi_hash (sort_members g) = gi_hash g"
  "group_rank (sort_members g) = group_rank g" "set (gi_members (sort_members g)) = set (gi_members g)"
  "mset (gi_members (sort_members g)) = mset (gi_members g)"
  by (simp_all add: sort_members_def group_rank_def)

lemma set_normalise: "set (normalise gs) = sort_members ` set gs"
  by (simp add: normalise_def)

lemma normalise_ranks: "map group_rank (normalise gs) = sort (map group_rank gs)"
proof -
  have "map group_rank (normalise gs) = map group_rank (sort_key group_rank gs)"
    by (simp add: normalise_def comp_def)
  also have "\<dots> = sort (map group_rank gs)"
    by (rule sym [OF properties_for_sort]) simp_all
  finally show ?thesis .
qed

lemma check_distinct_ids_ranks:
  assumes "check_distinct_ids gs = Inr u" and "sorted (map group_rank gs)"
    and "\<forall>g \<in> set gs. gid_scan (gi_id g) = s \<and> gid_generation (gi_id g) = n"
  shows "distinct (map group_rank gs)"
  using assms
proof (induction gs rule: check_distinct_ids.induct)
  case (1 g h rest)
  from "1.prems"(1) have ne: "gi_id g \<noteq> gi_id h" and tl: "check_distinct_ids (h # rest) = Inr u"
    by (simp_all split: if_splits)
  have so: "sorted (map group_rank (h # rest))" using "1.prems"(2) by simp
  have al: "\<forall>g \<in> set (h # rest). gid_scan (gi_id g) = s \<and> gid_generation (gi_id g) = n"
    using "1.prems"(3) by (metis list.set_intros(2))
  note d = "1.IH" [OF ne tl so al]
  have "group_rank g \<noteq> group_rank h"
  proof
    assume "group_rank g = group_rank h"
    then have "gid_rank (gi_id g) = gid_rank (gi_id h)"
      by (simp add: group_rank_def signed_word_eqI)
    moreover have "gid_scan (gi_id g) = gid_scan (gi_id h)"
      "gid_generation (gi_id g) = gid_generation (gi_id h)"
      using "1.prems"(3) by simp_all
    ultimately have "gi_id g = gi_id h" by simp
    with ne show False ..
  qed
  with "1.prems"(2) have "group_rank g < group_rank h" by simp
  then have "\<forall>r \<in> set (map group_rank (h # rest)). group_rank g < r"
    using "1.prems"(2) by auto
  with d show ?case by (metis distinct.simps(2) less_irrefl list.simps(9))
qed simp_all

lemma check_member_Inr:
  "check_member hash (paths, owner) m = Inr (paths', owner') \<Longrightarrow>
     m_path m \<notin> set paths \<and> paths' = m_path m # paths"
  by (auto simp: check_member_def split: if_splits option.splits)

lemma rfold_check_member:
  "rfold (check_member hash) (paths, owner) ms = Inr (paths', owner') \<Longrightarrow> distinct paths \<Longrightarrow>
     distinct paths' \<and> paths' = rev (map m_path ms) @ paths"
proof (induction ms arbitrary: paths owner)
  case (Cons m ms)
  from Cons.prems(1) obtain p o' where st: "check_member hash (paths, owner) m = Inr (p, o')"
    "rfold (check_member hash) (p, o') ms = Inr (paths', owner')"
    by (auto simp: result_simps)
  from check_member_Inr [OF st(1)] Cons.prems(2) have p: "p = m_path m # paths" "distinct p" by simp_all
  from Cons.IH [OF st(2) p(2)] show ?case unfolding p(1) by clarsimp
qed simp

lemma check_evidence_paths:
  "rfold (\<lambda>st g. rfold (check_member (gi_hash g)) st (gi_members g)) (paths, owner) gs = Inr (paths', owner') \<Longrightarrow>
   distinct paths \<Longrightarrow> distinct paths' \<and> paths' = rev (concat (map (map m_path \<circ> gi_members) gs)) @ paths"
proof (induction gs arbitrary: paths owner)
  case (Cons g gs)
  from Cons.prems(1) obtain p o' where st: "rfold (check_member (gi_hash g)) (paths, owner) (gi_members g) = Inr (p, o')"
    "rfold (\<lambda>st g. rfold (check_member (gi_hash g)) st (gi_members g)) (p, o') gs = Inr (paths', owner')"
    by (auto simp: result_simps)
  from rfold_check_member [OF st(1) Cons.prems(2)]
  have p: "p = rev (map m_path (gi_members g)) @ paths" "distinct p" by blast+
  from Cons.IH [OF st(2) p(2)] show ?case unfolding p(1) by clarsimp
qed simp

definition all_paths :: "group_input list \<Rightarrow> path list" where
  "all_paths gs = concat (map (map m_path \<circ> gi_members) gs)"

lemma check_global_evidence_paths:
  "check_global_evidence gs = Inr u \<Longrightarrow> distinct (all_paths gs) \<and> check_distinct_ids gs = Inr ()"
  by (auto simp: check_global_evidence_def all_paths_def result_simps dest: check_evidence_paths)

section \<open>The allocations of one group\<close>

text \<open>What one object says about the members that share its key.\<close>

definition aliases_of :: "member list \<Rightarrow> plan_object_key \<Rightarrow> member list" where
  "aliases_of ms k = filter (\<lambda>m. m_key m = k) ms"

definition object_spec :: "group_input \<Rightarrow> member option \<Rightarrow> member list \<Rightarrow> planned_object \<Rightarrow> bool" where
  "object_spec g keeper covered obj \<longleftrightarrow>
     (let al = aliases_of (gi_members g) (po_key obj);
          cov = of_nat (length (filter (\<lambda>t. m_key t = po_key obj) covered))
      in al \<noteq> [] \<and> po_members obj = map m_path al \<and> po_hash obj = gi_hash g
       \<and> po_representative obj = m_path (hd al)
       \<and> (\<forall>m \<in> set al. m_links m = po_links obj) \<and> len_u64 al \<le> po_links obj
       \<and> po_covered_links obj = cov
       \<and> po_role obj = (if map_option m_key keeper = Some (po_key obj) then RoleKeeper
                        else if 0 < cov then RoleTarget else RoleBystander))"

lemma lowest_highest:
  assumes "m \<in> set ms"
  shows "lowest ms \<le> m_links m" and "m_links m \<le> highest ms"
proof -
  have lo: "foldr (\<lambda>m. min (m_links m)) xs b \<le> b \<and> (\<forall>x \<in> set xs. foldr (\<lambda>m. min (m_links m)) xs b \<le> m_links x)"
    and hi: "b \<le> foldr (\<lambda>m. max (m_links m)) xs b \<and> (\<forall>x \<in> set xs. m_links x \<le> foldr (\<lambda>m. max (m_links m)) xs b)"
    for xs b by (induction xs) (auto simp: min_def max_def)
  show "lowest ms \<le> m_links m" "m_links m \<le> highest ms"
    using assms lo [of "tl ms" "m_links (hd ms)"] hi [of "m_links (hd ms)" "tl ms"]
    by (cases ms; auto simp: lowest_def highest_def)+
qed

lemma build_object_Inr:
  assumes "build_object hash keeper covered aliases = Inr obj" and "aliases \<noteq> []"
    and "hash = gi_hash g" and "aliases = aliases_of (gi_members g) (m_key (hd aliases))"
  shows "object_spec g keeper covered obj \<and> po_key obj = m_key (hd aliases)"
proof -
  from assms(1) have eq: "lowest aliases = highest aliases"
    by (auto simp: build_object_def Let_def result_simps agreed_def split: if_splits)
  have "m_links m = lowest aliases" if "m \<in> set aliases" for m
    using lowest_highest [OF that] eq by simp
  then show ?thesis
    using assms by (auto simp: build_object_def Let_def result_simps object_spec_def split: if_splits)
qed

lemma group_members_aliases:
  "(k, al) \<in> set (group_by (key_order \<circ> m_key) ms) \<Longrightarrow>
     al \<noteq> [] \<and> k = key_order (m_key (hd al)) \<and> al = aliases_of ms (m_key (hd al))"
proof -
  assume "(k, al) \<in> set (group_by (key_order \<circ> m_key) ms)"
  then have al: "al = filter (\<lambda>m. key_order (m_key m) = k) ms" "al \<noteq> []"
    by (auto simp: in_group_by_iff)
  from hd_in_set [OF al(2)] have k: "k = key_order (m_key (hd al))" by (simp add: al(1))
  then have "al = aliases_of ms (m_key (hd al))"
    unfolding aliases_of_def using al(1) by (metis (mono_tags, lifting) filter_cong key_order_eq_iff)
  with k al(2) show ?thesis by blast
qed

lemma push_objects_Inr:
  assumes "push_objects g keeper covered = Inr objs"
  shows "\<forall>obj \<in> set objs. object_spec g keeper covered obj"
    and "distinct (map po_key objs)"
    and "set (map po_key objs) = m_key ` set (gi_members g)"
proof -
  let ?groups = "group_by (key_order \<circ> m_key) (gi_members g)"
  from assms obtain built where b: "list_all2
      (\<lambda>(_, aliases) obj. build_object (gi_hash g) keeper covered aliases = Inr obj) ?groups built"
    and objs: "objs = sort_key po_representative built"
    by (auto simp: push_objects_def result_simps case_prod_beta')
  have each: "object_spec g keeper covered (built ! i) \<and> key_order (po_key (built ! i)) = fst (?groups ! i)"
    if "i < length built" for i
  proof -
    obtain k al where ka: "?groups ! i = (k, al)" by (rule prod.exhaust)
    have "(k, al) \<in> set ?groups" using that b ka by (metis list_all2_lengthD nth_mem)
    from group_members_aliases [OF this] show ?thesis
      using list_all2_nthD2 [OF b that] ka build_object_Inr by fastforce
  qed
  have keys: "map (key_order \<circ> po_key) built = map fst ?groups"
    by (rule nth_equalityI) (use each list_all2_lengthD [OF b] in auto)
  then have "distinct (map (key_order \<circ> po_key) built)" by (simp only: group_by_distinct)
  then have d: "distinct (map po_key built)" by (auto simp: distinct_map inj_on_def)
  show "\<forall>obj \<in> set objs. object_spec g keeper covered obj"
    using each by (auto simp: objs in_set_conv_nth)
  show "distinct (map po_key objs)" using d by (simp add: objs distinct_map)
  have "key_order ` po_key ` set built = key_order ` m_key ` set (gi_members g)"
    using arg_cong [OF keys, of set] by (simp add: group_by_keys image_comp)
  moreover have "inj key_order" by (simp add: inj_def)
  ultimately show "set (map po_key objs) = m_key ` set (gi_members g)"
    by (simp add: objs inj_image_eq_iff)
qed

section \<open>The part of one group\<close>

definition crosses :: "member \<Rightarrow> member \<Rightarrow> bool" where
  "crosses keeper t \<longleftrightarrow>
     action_of t \<noteq> Some Delete \<and> key_device (m_key t) \<noteq> key_device (m_key keeper)"

definition action_for ::
  "nat \<Rightarrow> nat \<Rightarrow> group_input \<Rightarrow> planned_object list \<Rightarrow> member \<Rightarrow> nat \<Rightarrow> member \<Rightarrow> plan_action \<Rightarrow> bool" where
  "action_for group_index first_object g objs keeper keeper_object t a \<longleftrightarrow>
     (\<exists>i < length objs. po_key (objs ! i) = m_key t \<and> pa_target_object a = first_object + i)
     \<and> action_of t = Some (pa_kind a) \<and> pa_target a = m_path t \<and> pa_keeper a = m_path keeper
     \<and> pa_keeper_object a = keeper_object \<and> pa_size a = key_size (m_key (hd (gi_members g)))
     \<and> pa_expected_hash a = gi_hash g \<and> pa_group a = group_index"

lemma index_of_Some:
  "index_of objs n k = Some j \<Longrightarrow> \<exists>i < length objs. po_key (objs ! i) = k \<and> j = n + i"
  by (auto simp: index_of_def position_Some_iff)

lemma index_of_exists: "k \<in> set (map po_key objs) \<Longrightarrow> \<exists>j. index_of objs n k = Some j"
  unfolding index_of_def by (auto dest!: position_exists [where p = "\<lambda>obj. po_key obj = k"])

lemma add_targets_Inr:
  assumes "rfold (add_target gx fo (gi_hash g) (key_size (m_key (hd (gi_members g)))) keeper ko) part ts = Inr part'"
  shows "gp_objects part' = gp_objects part \<and> gp_warnings part' = gp_warnings part
    \<and> (\<exists>cs. gp_crossing part' = gp_crossing part @ cs \<and> length cs = length (filter (crosses keeper) ts))
    \<and> (\<exists>as. gp_actions part' = gp_actions part @ as
         \<and> list_all2 (action_for gx fo g (gp_objects part) keeper ko) (filter (\<lambda>t. \<not> crosses keeper t) ts) as)"
  using assms
proof (induction ts arbitrary: part)
  case (Cons t ts)
  let ?f = "add_target gx fo (gi_hash g) (key_size (m_key (hd (gi_members g)))) keeper ko"
  from Cons.prems obtain p where s: "?f part t = Inr p" and r: "rfold ?f p ts = Inr part'"
    by (auto simp: result_simps)
  from s obtain kind where kind: "action_of t = Some kind"
    by (auto simp: add_target_def result_simps)
  show ?case
  proof (cases "crosses keeper t")
    case True
    with s kind have p: "p = part\<lparr>gp_crossing := gp_crossing part @ [(kind, m_path t, m_path keeper)]\<rparr>"
      by (auto simp: add_target_def crosses_def)
    from Cons.IH [OF r] True show ?thesis by (auto simp: p)
  next
    case False
    with s kind obtain i where i: "index_of (gp_objects part) fo (m_key t) = Some i"
      and p: "p = part\<lparr>gp_actions := gp_actions part @
         [\<lparr>pa_kind = kind, pa_target = m_path t, pa_keeper = m_path keeper,
           pa_target_object = i, pa_keeper_object = ko,
           pa_size = key_size (m_key (hd (gi_members g))), pa_expected_hash = gi_hash g, pa_group = gx\<rparr>]\<rparr>"
      by (auto simp: add_target_def crosses_def result_simps split: if_splits)
    from index_of_Some [OF i] kind have "action_for gx fo g (gp_objects part) keeper ko t
        (last (gp_actions p))"
      by (auto simp: action_for_def p)
    with Cons.IH [OF r] False show ?thesis by (fastforce simp: p)
  qed
qed simp

definition targets_of :: "group_input \<Rightarrow> member list" where
  "targets_of g = filter (\<lambda>m. \<not> is_keeper m \<and> action_of m \<noteq> None) (gi_members g)"

definition same_size :: "group_input \<Rightarrow> bool" where
  "same_size g \<longleftrightarrow>
     (\<forall>m \<in> set (gi_members g). key_size (m_key m) = key_size (m_key (hd (gi_members g))))"

text \<open>What the part of one group is, when no action of it crosses a dataset.\<close>

definition part_spec :: "nat \<Rightarrow> nat \<Rightarrow> group_input \<Rightarrow> group_part \<Rightarrow> bool" where
  "part_spec gx fo g part \<longleftrightarrow>
     gi_members g \<noteq> []
     \<and> same_size g
     \<and> distinct (map po_key (gp_objects part))
     \<and> set (map po_key (gp_objects part)) = m_key ` set (gi_members g)
     \<and> (case filter is_keeper (gi_members g) of
          [] \<Rightarrow> targets_of g = [] \<and> gp_actions part = [] \<and> gp_warnings part = []
                \<and> (\<forall>obj \<in> set (gp_objects part). object_spec g None [] obj)
        | [keeper] \<Rightarrow>
            (\<forall>obj \<in> set (gp_objects part).
               object_spec g (Some keeper) (filter (\<lambda>t. m_key t \<noteq> m_key keeper) (targets_of g)) obj)
            \<and> gp_warnings part = map (\<lambda>t. AlreadyLinkedWithKeeper (m_path t))
                 (filter (\<lambda>t. m_key t = m_key keeper) (targets_of g))
            \<and> (\<forall>t \<in> set (targets_of g). \<not> crosses keeper t)
            \<and> (\<exists>ko < length (gp_objects part). po_key (gp_objects part ! ko) = m_key keeper
                 \<and> list_all2 (action_for gx fo g (gp_objects part) keeper (fo + ko))
                     (filter (\<lambda>t. m_key t \<noteq> m_key keeper) (targets_of g)) (gp_actions part))
        | _ \<Rightarrow> False)"

lemma plan_group_Inr:
  assumes "plan_group gx fo g = Inr part" and "gp_crossing part = []"
  shows "part_spec gx fo g part"
proof -
  let ?sz = "key_size (m_key (hd (gi_members g)))"
  from assms(1) have ne: "\<not> gi_members g = []"
    by (auto simp: plan_group_def)
  have ns: "\<not> (\<exists>m \<in> set (gi_members g). key_size (m_key m) \<noteq> ?sz)"
  proof
    assume b: "\<exists>m \<in> set (gi_members g). key_size (m_key m) \<noteq> ?sz"
    from assms(1) show False
      unfolding plan_group_def Let_def if_not_P [OF ne] if_P [OF b] by simp
  qed
  from ns have sz: "same_size g" unfolding same_size_def by blast
  note pg = assms(1) [unfolded plan_group_def Let_def if_not_P [OF ne] if_not_P [OF ns]]
  show ?thesis
  proof (cases "filter is_keeper (gi_members g)")
    case Nil
    with pg obtain objs where t: "targets_of g = []"
      and o: "push_objects g None [] = Inr objs"
      and p: "part = \<lparr>gp_objects = objs, gp_actions = [], gp_warnings = [], gp_crossing = []\<rparr>"
      by (auto simp: targets_of_def result_simps split: if_splits)
    show ?thesis
      unfolding part_spec_def p group_part.simps Nil list.case
      using push_objects_Inr [OF o] t ne sz by blast
  next
    case (Cons keeper rest)
    let ?cov = "filter (\<lambda>t. m_key t \<noteq> m_key keeper) (targets_of g)"
    from pg Cons have rest: "rest = []" by (cases rest) simp_all
    from pg obtain objs ko where o: "push_objects g (Some keeper) ?cov = Inr objs"
      and ko: "index_of objs fo (m_key keeper) = Some ko"
      and f: "rfold (add_target gx fo (gi_hash g) ?sz keeper ko)
          \<lparr>gp_objects = objs, gp_actions = [],
           gp_warnings = map (\<lambda>t. AlreadyLinkedWithKeeper (m_path t)) (filter (\<lambda>t. m_key t = m_key keeper) (targets_of g)),
           gp_crossing = []\<rparr> ?cov = Inr part"
      unfolding Cons rest list.case targets_of_def [symmetric] by (auto simp: result_simps)
    from add_targets_Inr [OF f] assms(2) have nc: "filter (crosses keeper) ?cov = []"
      and acts: "list_all2 (action_for gx fo g objs keeper ko) (filter (\<lambda>t. \<not> crosses keeper t) ?cov) (gp_actions part)"
      and objs: "gp_objects part = objs"
      and w: "gp_warnings part = map (\<lambda>t. AlreadyLinkedWithKeeper (m_path t)) (filter (\<lambda>t. m_key t = m_key keeper) (targets_of g))"
      by auto
    from nc have nc': "\<forall>t \<in> set (targets_of g). \<not> crosses keeper t"
      by (auto simp: filter_empty_conv crosses_def)
    then have "filter (\<lambda>t. \<not> crosses keeper t) ?cov = ?cov" unfolding filter_filter by (auto intro: filter_cong)
    with acts have acts': "list_all2 (action_for gx fo g objs keeper ko) ?cov (gp_actions part)" by simp
    from index_of_Some [OF ko] obtain i where i: "i < length objs" "po_key (objs ! i) = m_key keeper" "ko = fo + i"
      by blast
    with acts' have ex: "\<exists>ko < length objs. po_key (objs ! ko) = m_key keeper
        \<and> list_all2 (action_for gx fo g objs keeper (fo + ko)) ?cov (gp_actions part)" by blast
    show ?thesis
      unfolding part_spec_def Cons rest list.case objs
      using push_objects_Inr [OF o] ne sz w nc' ex by blast
  qed
qed

section \<open>The walk over the groups\<close>

text \<open>Where the objects of the \<open>j\<close>-th part start in the plan.\<close>

definition start_of :: "group_part list \<Rightarrow> nat \<Rightarrow> nat" where
  "start_of parts j = length (concat (map gp_objects (take j parts)))"

lemma nth_concat_part:
  assumes "j < length xss" and "i < length (xss ! j)"
  shows "concat xss ! (length (concat (take j xss)) + i) = xss ! j ! i"
    and "length (concat (take j xss)) + i < length (concat xss)"
proof -
  have "xss = take j xss @ xss ! j # drop (Suc j) xss" using assms(1) by (simp add: id_take_nth_drop)
  then have c: "concat xss = concat (take j xss) @ xss ! j @ concat (drop (Suc j) xss)"
    by (metis concat.simps(2) concat_append)
  show "concat xss ! (length (concat (take j xss)) + i) = xss ! j ! i"
    using assms(2) unfolding c by (simp add: nth_append)
  show "length (concat (take j xss)) + i < length (concat xss)"
    using assms(2) unfolding c by simp
qed

lemma nth_concat_exists:
  assumes "i < length (concat xss)"
  obtains j l where "j < length xss" "l < length (xss ! j)" "i = length (concat (take j xss)) + l"
  using assms
proof (induction xss arbitrary: i thesis)
  case (Cons xs xss)
  show ?case
  proof (cases "i < length xs")
    case True
    then show ?thesis by (intro Cons.prems(1) [of 0 i]) simp_all
  next
    case False
    then have "i - length xs < length (concat xss)" using Cons.prems(2) by simp
    then obtain j l where "j < length xss" "l < length (xss ! j)"
      "i - length xs = length (concat (take j xss)) + l" using Cons.IH by blast
    then show ?thesis using False by (intro Cons.prems(1) [of "Suc j" l]) simp_all
  qed
qed simp

lemma fold_groups_Inr:
  assumes "rfold fold_group st (enumerate n gs) = Inr st'"
  shows "\<exists>parts. length parts = length gs
    \<and> (\<forall>j < length gs. plan_group (n + j) (length (gp_objects st) + start_of parts j) (gs ! j) = Inr (parts ! j))
    \<and> gp_objects st' = gp_objects st @ concat (map gp_objects parts)
    \<and> gp_actions st' = gp_actions st @ concat (map gp_actions parts)
    \<and> gp_warnings st' = gp_warnings st @ concat (map gp_warnings parts)
    \<and> gp_crossing st' = gp_crossing st @ concat (map gp_crossing parts)"
  using assms
proof (induction gs arbitrary: st n)
  case Nil
  then show ?case by simp
next
  case (Cons g gs)
  have fold1: "fold_group st (n, g) = rbind (plan_group n (length (gp_objects st)) g) (\<lambda>part. Inr (append_part st part))"
    by (simp add: fold_group_def)
  from Cons.prems obtain part where p: "plan_group n (length (gp_objects st)) g = Inr part"
    and r: "rfold fold_group (append_part st part) (enumerate (Suc n) gs) = Inr st'"
    by (auto simp: fold1 result_simps)
  from Cons.IH [OF r] obtain parts where ih: "length parts = length gs"
    "\<forall>j < length gs. plan_group (Suc n + j) (length (gp_objects (append_part st part)) + start_of parts j) (gs ! j) = Inr (parts ! j)"
    "gp_objects st' = gp_objects (append_part st part) @ concat (map gp_objects parts)"
    "gp_actions st' = gp_actions (append_part st part) @ concat (map gp_actions parts)"
    "gp_warnings st' = gp_warnings (append_part st part) @ concat (map gp_warnings parts)"
    "gp_crossing st' = gp_crossing (append_part st part) @ concat (map gp_crossing parts)"
    by blast
  have "\<forall>j < length (g # gs). plan_group (n + j) (length (gp_objects st) + start_of (part # parts) j) ((g # gs) ! j)
      = Inr ((part # parts) ! j)"
  proof (intro allI impI)
    fix j assume "j < length (g # gs)"
    then show "plan_group (n + j) (length (gp_objects st) + start_of (part # parts) j) ((g # gs) ! j)
      = Inr ((part # parts) ! j)"
      using p ih(2) by (cases j) (auto simp: start_of_def append_part_def add.assoc)
  qed
  then show ?case
    using ih(1,3-) by (intro exI [of _ "part # parts"]) (simp add: append_part_def)
qed

section \<open>The plan\<close>

definition plan_spec :: "i64 \<Rightarrow> group_input list \<Rightarrow> group_part list \<Rightarrow> action_plan \<Rightarrow> bool" where
  "plan_spec scan_id gs parts plan \<longleftrightarrow>
     length parts = length gs
     \<and> (\<forall>j < length gs. part_spec j (start_of parts j) (gs ! j) (parts ! j))
     \<and> ap_objects plan = concat (map gp_objects parts)
     \<and> ap_actions plan = concat (map gp_actions parts)
     \<and> ap_actions plan \<noteq> []
     \<and> for_fresh_scan (map object_estimate (ap_objects plan)) = Inr (ps_estimate (ap_summary plan))
     \<and> ps_warnings (ap_summary plan) =
         concat (map gp_warnings parts) @ List.map_filter object_warning (ap_objects plan)
     \<and> ps_actions (ap_summary plan) = length (ap_actions plan)
     \<and> ap_group_marks plan = map marks_of gs
     \<and> map gw_members (pw_groups (ap_witness plan)) = map (map m_path \<circ> gi_members) gs"

lemma try_new_Inr:
  assumes "try_new scan_id input = Inr plan"
  obtains parts where "plan_spec scan_id (normalise input) parts plan"
    and "distinct (all_paths (normalise input))" and "distinct (map group_rank input)"
    and "\<forall>g \<in> set input. gid_scan (gi_id g) = scan_id
          \<and> gid_generation (gi_id g) = gid_generation (gi_id (hd input)) \<and> 0 \<le> group_rank g"
proof -
  let ?gs = "normalise input" and ?gen = "gid_generation (gi_id (hd input))"
  from assms obtain st where ident: "rfold (\<lambda>_. check_identity scan_id ?gen) () input = Inr ()"
    and ev: "check_global_evidence ?gs = Inr ()"
    and st: "rfold fold_group empty_part (enumerate 0 ?gs) = Inr st"
    and fin: "finish_plan scan_id (witness_of scan_id ?gen ?gs) (map marks_of ?gs) st = Inr plan"
    by (cases input) (auto simp: try_new_def Let_def result_simps)
  from ident have i: "\<forall>g \<in> set input. gid_scan (gi_id g) = scan_id
      \<and> gid_generation (gi_id g) = ?gen \<and> 0 \<le> group_rank g"
    by (simp add: rfold_check_identity)
  from check_global_evidence_paths [OF ev] have paths: "distinct (all_paths ?gs)"
    and ids: "check_distinct_ids ?gs = Inr ()" by simp_all
  have "distinct (map group_rank ?gs)"
    by (rule check_distinct_ids_ranks [OF ids, of scan_id ?gen])
      (use i in \<open>auto simp: normalise_ranks set_normalise\<close>)
  then have ranks: "distinct (map group_rank input)" by (simp add: normalise_ranks)
  from fin have cr: "gp_crossing st = []" and acts: "gp_actions st \<noteq> []"
    by (auto simp: finish_plan_def split: list.splits prod.splits if_splits)
  from fold_groups_Inr [OF st] obtain parts where p: "length parts = length ?gs"
    "\<forall>j < length ?gs. plan_group j (start_of parts j) (?gs ! j) = Inr (parts ! j)"
    "gp_objects st = concat (map gp_objects parts)" "gp_actions st = concat (map gp_actions parts)"
    "gp_warnings st = concat (map gp_warnings parts)" "gp_crossing st = concat (map gp_crossing parts)"
    by (auto simp: empty_part_def)
  have "gp_crossing (parts ! j) = []" if "j < length ?gs" for j
    using p(6) cr that p(1) by (metis concat_eq_Nil_conv length_map nth_map nth_mem)
  with p(2) have "\<forall>j < length ?gs. part_spec j (start_of parts j) (?gs ! j) (parts ! j)"
    by (blast intro: plan_group_Inr)
  moreover from fin obtain estimate where
    e: "for_fresh_scan (map object_estimate (gp_objects st)) = Inr estimate"
    and pl: "ap_objects plan = gp_objects st" "ap_actions plan = gp_actions st"
      "ps_estimate (ap_summary plan) = estimate" "ps_actions (ap_summary plan) = length (gp_actions st)"
      "ps_warnings (ap_summary plan) = gp_warnings st @ List.map_filter object_warning (gp_objects st)"
      "ap_group_marks plan = map marks_of ?gs" "ap_witness plan = witness_of scan_id ?gen ?gs"
    unfolding finish_plan_def cr list.case if_not_P [OF acts] by (auto simp: result_simps)
  ultimately have "plan_spec scan_id ?gs parts plan"
    unfolding plan_spec_def pl using acts e p(1,3,4,5) by (simp add: witness_of_def)
  then show thesis using paths ranks i that by blast
qed

end
