(* ===== verification/Plan_Props.thy ===== *)
theory Plan_Props
  imports Plan_Facts
begin

text \<open>
  What every plan \<open>try_new\<close> builds promises, and a sample of evidence the promises are checked on.
\<close>

section \<open>A sample of evidence\<close>

text \<open>
  One group of five paths over four allocations: a keeper with an alias that is marked too, a path to
  delete, a path to link that has another link outside the scan, and an unmarked bystander.
\<close>

definition sample_key :: "u64 \<Rightarrow> plan_object_key" where
  "sample_key inode = \<lparr>key_device = 1, key_inode = inode, key_size = 100, key_mtime = 5,
     key_mtime_nsec = 0, key_ctime_sec = 6, key_ctime_nsec = 0, key_identity_version = 1\<rparr>"

definition sample_member :: "string \<Rightarrow> u64 \<Rightarrow> u64 \<Rightarrow> mark_intent option \<Rightarrow> member" where
  "sample_member name inode links mark =
     \<lparr>m_path = [RootDir, Normal name], m_key = sample_key inode, m_links = links, m_mark = mark\<rparr>"

definition sample_members :: "member list" where
  "sample_members =
     [sample_member ''c'' 10 1 (Some (Act Delete)), sample_member ''a'' 11 3 (Some Keeper),
      sample_member ''b'' 11 3 (Some (Act Hardlink)), sample_member ''d'' 12 2 (Some (Act Hardlink)),
      sample_member ''e'' 13 1 None]"

definition sample_group :: "member list \<Rightarrow> group_input" where
  "sample_group ms =
     \<lparr>gi_id = \<lparr>gid_scan = 7, gid_rank = 0, gid_generation = 3\<rparr>, gi_hash = ''h'', gi_members = ms\<rparr>"

definition sample_input :: "group_input list" where
  "sample_input = [sample_group sample_members]"

definition sample_plan :: action_plan where
  "sample_plan = (case try_new 7 sample_input of Inr plan \<Rightarrow> plan)"

lemma sample_accepted: "try_new 7 sample_input = Inr sample_plan"
  unfolding sample_plan_def by code_simp

lemma sample_actions:
  "map pa_kind (ap_actions sample_plan) = [Delete, Hardlink]"
  "map pa_target (ap_actions sample_plan) = [[RootDir, Normal ''c''], [RootDir, Normal ''d'']]"
  "length (ap_objects sample_plan) = 4"
  unfolding sample_plan_def by code_simp+

section \<open>From the plan to its evidence\<close>

lemma part_actions:
  assumes "part_spec gx fo g part" and "a \<in> set (gp_actions part)"
  obtains keeper t ko where "filter is_keeper (gi_members g) = [keeper]"
    and "t \<in> set (targets_of g)" and "m_key t \<noteq> m_key keeper" and "\<not> crosses keeper t"
    and "ko < length (gp_objects part)" and "po_key (gp_objects part ! ko) = m_key keeper"
    and "action_for gx fo g (gp_objects part) keeper (fo + ko) t a"
proof -
  show thesis
  proof (cases "filter is_keeper (gi_members g)")
    case Nil
    with assms show thesis by (simp add: part_spec_def)
  next
    case (Cons keeper rest)
    with assms(1) have rest: "rest = []" by (cases rest) (simp_all add: part_spec_def)
    from assms(1) obtain ko where k:
      "\<forall>t \<in> set (targets_of g). \<not> crosses keeper t"
      "ko < length (gp_objects part)" "po_key (gp_objects part ! ko) = m_key keeper"
      "list_all2 (action_for gx fo g (gp_objects part) keeper (fo + ko))
         (filter (\<lambda>t. m_key t \<noteq> m_key keeper) (targets_of g)) (gp_actions part)"
      unfolding part_spec_def Cons rest list.case by blast
    from list_all2_right [OF k(4) assms(2)] obtain t where "t \<in> set (targets_of g)"
      "m_key t \<noteq> m_key keeper" "action_for gx fo g (gp_objects part) keeper (fo + ko) t a" by auto
    with k that Cons rest show thesis by blast
  qed
qed

lemma plan_actions:
  assumes "plan_spec scan_id gs parts plan" and "a \<in> set (ap_actions plan)"
  obtains j where "j < length gs" and "a \<in> set (gp_actions (parts ! j))"
    and "part_spec j (start_of parts j) (gs ! j) (parts ! j)"
  using assms by (auto simp: plan_spec_def in_set_conv_nth [of _ parts])

lemma plan_objects:
  assumes "plan_spec scan_id gs parts plan" and "j < length gs" and "i < length (gp_objects (parts ! j))"
  shows "start_of parts j + i < length (ap_objects plan)"
    and "ap_objects plan ! (start_of parts j + i) = gp_objects (parts ! j) ! i"
  using assms nth_concat_part [of j "map gp_objects parts" i]
  by (auto simp: plan_spec_def start_of_def take_map)

lemma targets_of_iff: "t \<in> set (targets_of g) \<longleftrightarrow> t \<in> set (gi_members g) \<and> action_of t \<noteq> None"
  using action_of_not_keeper by (auto simp: targets_of_def)

lemma keeper_of_filter:
  "filter is_keeper ms = [keeper] \<Longrightarrow> keeper \<in> set ms \<and> is_keeper keeper"
  by (metis (mono_tags, lifting) list.set_intros(1) mem_Collect_eq set_filter)

section \<open>Every action is backed by the evidence\<close>

definition action_wf :: "group_input list \<Rightarrow> action_plan \<Rightarrow> plan_action \<Rightarrow> bool" where
  "action_wf gs plan a \<longleftrightarrow>
     pa_group a < length gs
     \<and> (let g = gs ! pa_group a;
            target = ap_objects plan ! pa_target_object a;
            kept = ap_objects plan ! pa_keeper_object a
        in pa_expected_hash a = gi_hash g
         \<and> pa_target_object a < length (ap_objects plan) \<and> pa_keeper_object a < length (ap_objects plan)
         \<and> pa_target a \<in> set (po_members target) \<and> pa_keeper a \<in> set (po_members kept)
         \<and> po_hash target = gi_hash g \<and> po_hash kept = gi_hash g
         \<and> po_key target \<noteq> po_key kept \<and> po_role kept = RoleKeeper
         \<and> key_size (po_key target) = pa_size a \<and> key_size (po_key kept) = pa_size a
         \<and> (pa_kind a \<noteq> Delete \<longrightarrow> key_device (po_key target) = key_device (po_key kept))
         \<and> (\<exists>t \<in> set (gi_members g). m_path t = pa_target a \<and> m_mark t = Some (Act (pa_kind a))
              \<and> m_key t = po_key target)
         \<and> (\<exists>k \<in> set (gi_members g). m_path k = pa_keeper a \<and> m_mark k = Some Keeper
              \<and> m_key k = po_key kept))"

lemma object_spec_member:
  "object_spec g keeper covered obj \<Longrightarrow> m \<in> set (gi_members g) \<Longrightarrow> m_key m = po_key obj \<Longrightarrow>
     m_path m \<in> set (po_members obj)"
  by (auto simp: object_spec_def Let_def aliases_of_def)

lemma action_wf_of_plan:
  assumes "try_new scan_id input = Inr plan" and "a \<in> set (ap_actions plan)"
  shows "action_wf (normalise input) plan a"
proof -
  let ?gs = "normalise input"
  from try_new_Inr [OF assms(1)] obtain parts where sp: "plan_spec scan_id ?gs parts plan" by blast
  from plan_actions [OF sp assms(2)] obtain j where j: "j < length ?gs" "a \<in> set (gp_actions (parts ! j))"
    and ps: "part_spec j (start_of parts j) (?gs ! j) (parts ! j)" by blast
  let ?g = "?gs ! j" and ?objs = "gp_objects (parts ! j)" and ?fo = "start_of parts j"
  from part_actions [OF ps j(2)] obtain keeper t ko where k: "filter is_keeper (gi_members ?g) = [keeper]"
    and t: "t \<in> set (targets_of ?g)" and ne: "m_key t \<noteq> m_key keeper" and nc: "\<not> crosses keeper t"
    and ko: "ko < length ?objs" "po_key (?objs ! ko) = m_key keeper"
    and af: "action_for j ?fo ?g ?objs keeper (?fo + ko) t a" by blast
  from af obtain i where i: "i < length ?objs" "po_key (?objs ! i) = m_key t" "pa_target_object a = ?fo + i"
    by (auto simp: action_for_def)
  have km: "keeper \<in> set (gi_members ?g)" "m_mark keeper = Some Keeper"
    using keeper_of_filter [OF k] by (auto simp: is_keeper_def)
  have tm: "t \<in> set (gi_members ?g)" using t by (simp add: targets_of_iff)
  have objs: "\<forall>obj \<in> set ?objs. object_spec ?g (Some keeper) (filter (\<lambda>t. m_key t \<noteq> m_key keeper) (targets_of ?g)) obj"
    using ps k by (simp add: part_spec_def)
  have same: "same_size ?g" using ps by (simp add: part_spec_def)
  have sz: "key_size (m_key m) = pa_size a" if "m \<in> set (gi_members ?g)" for m
    using same that af unfolding same_size_def action_for_def by metis
  note ot = objs [rule_format, OF nth_mem [OF i(1)]] and okp = objs [rule_format, OF nth_mem [OF ko(1)]]
  have kr: "po_role (?objs ! ko) = RoleKeeper" "po_hash (?objs ! ko) = gi_hash ?g" "po_hash (?objs ! i) = gi_hash ?g"
    using okp ot ko(2) by (simp_all add: object_spec_def Let_def)
  have idx: "pa_target_object a < length (ap_objects plan)" "pa_keeper_object a < length (ap_objects plan)"
    "ap_objects plan ! pa_target_object a = ?objs ! i" "ap_objects plan ! pa_keeper_object a = ?objs ! ko"
    using plan_objects [OF sp j(1) i(1)] plan_objects [OF sp j(1) ko(1)] i(3) af
    by (simp_all add: action_for_def)
  have "pa_kind a \<noteq> Delete \<longrightarrow> key_device (m_key t) = key_device (m_key keeper)"
    using nc af by (auto simp: crosses_def action_for_def)
  then show ?thesis
    unfolding action_wf_def Let_def
    using j(1) af idx kr ne i(2) ko(2) object_spec_member [OF ot tm i(2) [symmetric]]
      object_spec_member [OF okp km(1) ko(2) [symmetric]] sz [OF tm] sz [OF km(1)] km tm
    by (auto simp: action_for_def action_of_Some_iff)
qed

text \<open>
  Claim C1. Every action of a plan is backed by the evidence it was folded from: its group holds a
  member marked with exactly that action at the target path and a member marked keeper at the keeper
  path; the two object indices are valid and name the allocations of these two members, which differ;
  size and digest are the ones of the group; and only a deletion may cross devices.
\<close>

theorem plan_action_backed:
  assumes "try_new scan_id input = Inr plan" and "a \<in> set (ap_actions plan)"
  shows "action_wf (normalise input) plan a"
  using assms by (rule action_wf_of_plan)

theorem plan_action_backed_witness:
  "\<exists>a. a \<in> set (ap_actions sample_plan) \<and> pa_kind a = Hardlink \<and> action_wf (normalise sample_input) sample_plan a"
proof -
  obtain a where "a \<in> set (ap_actions sample_plan)" "pa_kind a = Hardlink"
    using sample_actions(1) by (metis in_set_conv_nth length_map list.set_intros nth_map nth_mem set_map image_iff)
  with plan_action_backed [OF sample_accepted this(1)] show ?thesis by blast
qed

section \<open>No path is both removed and kept\<close>

lemma distinct_subseq: "distinct ys \<Longrightarrow> subseq xs ys \<Longrightarrow> distinct xs"
  by (auto simp: subseq_conv_nths)

lemma subseq_concat:
  "list_all2 subseq xss yss \<Longrightarrow> subseq (concat xss) (concat yss)"
  by (induction rule: list_all2_induct) (auto intro: list_emb_append_mono)

lemma part_targets:
  assumes "part_spec gx fo g part"
  shows "subseq (map pa_target (gp_actions part)) (map m_path (gi_members g))"
proof (cases "gp_actions part = []")
  case False
  then obtain a where "a \<in> set (gp_actions part)" by (meson list.set_sel(1))
  from part_actions [OF assms this] obtain keeper where k: "filter is_keeper (gi_members g) = [keeper]" by blast
  let ?cov = "filter (\<lambda>t. m_key t \<noteq> m_key keeper) (targets_of g)"
  from assms k obtain ko where l: "list_all2 (action_for gx fo g (gp_objects part) keeper (fo + ko)) ?cov (gp_actions part)"
    by (auto simp: part_spec_def)
  have "map pa_target (gp_actions part) = map m_path ?cov"
    using l by (induction rule: list_all2_induct) (auto simp: action_for_def)
  moreover have "subseq ?cov (gi_members g)"
    unfolding targets_of_def filter_filter by (rule subseq_filter_left)
  ultimately show ?thesis by (simp add: subseq_map)
qed simp

lemma plan_targets_subseq:
  assumes "plan_spec scan_id gs parts plan"
  shows "subseq (map pa_target (ap_actions plan)) (all_paths gs)"
proof -
  have "list_all2 subseq (map (map pa_target \<circ> gp_actions) parts) (map (map m_path \<circ> gi_members) gs)"
    using assms by (auto simp: plan_spec_def list_all2_conv_all_nth intro: part_targets)
  from subseq_concat [OF this] show ?thesis
    using assms by (simp add: plan_spec_def all_paths_def map_concat)
qed

lemma all_paths_member:
  assumes "distinct (all_paths gs)" and "g \<in> set gs" "m \<in> set (gi_members g)"
    and "h \<in> set gs" "n \<in> set (gi_members h)" and "m_path m = m_path n"
  shows "m = n"
proof -
  have d: "distinct (map m_path (concat (map gi_members gs)))"
    using assms(1) by (simp add: all_paths_def map_concat comp_def)
  have "m \<in> set (concat (map gi_members gs))" "n \<in> set (concat (map gi_members gs))"
    using assms(2-5) by auto
  with d assms(6) show ?thesis by (metis distinct_map inj_onD)
qed

lemma plan_targets_spec:
  assumes "try_new scan_id input = Inr plan"
  shows "distinct (map pa_target (ap_actions plan))
    \<and> pa_target ` set (ap_actions plan) \<inter> pa_keeper ` set (ap_actions plan) = {}"
proof
  let ?gs = "normalise input"
  from try_new_Inr [OF assms] obtain parts where sp: "plan_spec scan_id ?gs parts plan"
    and d: "distinct (all_paths ?gs)" by blast
  show "distinct (map pa_target (ap_actions plan))"
    using d plan_targets_subseq [OF sp] by (rule distinct_subseq)
  have "pa_target a \<noteq> pa_keeper b" if "a \<in> set (ap_actions plan)" "b \<in> set (ap_actions plan)" for a b
  proof
    assume eq: "pa_target a = pa_keeper b"
    from action_wf_of_plan [OF assms that(1)] obtain t where t: "pa_group a < length ?gs"
      "t \<in> set (gi_members (?gs ! pa_group a))" "m_path t = pa_target a" "m_mark t = Some (Act (pa_kind a))"
      by (auto simp: action_wf_def Let_def)
    from action_wf_of_plan [OF assms that(2)] obtain k where k: "pa_group b < length ?gs"
      "k \<in> set (gi_members (?gs ! pa_group b))" "m_path k = pa_keeper b" "m_mark k = Some Keeper"
      by (auto simp: action_wf_def Let_def)
    have "t = k"
      by (rule all_paths_member [OF d nth_mem [OF t(1)] t(2) nth_mem [OF k(1)] k(2)]) (simp add: t k eq)
    with t k show False by simp
  qed
  then show "pa_target ` set (ap_actions plan) \<inter> pa_keeper ` set (ap_actions plan) = {}" by blast
qed

text \<open>
  Claim C2. No path is acted on twice, and no path that an action keeps is the target of any action:
  a batch that runs every action leaves the keeper of each in place.
\<close>

theorem plan_spares_keepers:
  assumes "try_new scan_id input = Inr plan"
  shows "distinct (map pa_target (ap_actions plan))
    \<and> pa_target ` set (ap_actions plan) \<inter> pa_keeper ` set (ap_actions plan) = {}"
  using assms by (rule plan_targets_spec)

theorem plan_spares_keepers_witness:
  "ap_actions sample_plan \<noteq> [] \<and> distinct (map pa_target (ap_actions sample_plan))
    \<and> pa_target ` set (ap_actions sample_plan) \<inter> pa_keeper ` set (ap_actions sample_plan) = {}"
  using plan_spares_keepers [OF sample_accepted] sample_actions(1) by auto

section \<open>No mark is lost\<close>

lemma plan_group_of:
  assumes "plan_spec scan_id gs parts plan" and "g \<in> set gs"
  obtains j where "j < length gs" and "gs ! j = g" and "part_spec j (start_of parts j) g (parts ! j)"
    and "set (gp_actions (parts ! j)) \<subseteq> set (ap_actions plan)"
    and "set (gp_warnings (parts ! j)) \<subseteq> set (ps_warnings (ap_summary plan))"
proof -
  from assms(2) obtain j where j: "j < length gs" "gs ! j = g" by (auto simp: in_set_conv_nth)
  then have "parts ! j \<in> set parts" using assms(1) by (simp add: plan_spec_def)
  then have "set (gp_actions (parts ! j)) \<subseteq> set (ap_actions plan)"
    "set (gp_warnings (parts ! j)) \<subseteq> set (ps_warnings (ap_summary plan))"
    using assms(1) unfolding plan_spec_def by fastforce+
  moreover have "part_spec j (start_of parts j) (gs ! j) (parts ! j)"
    using j(1) assms(1) by (simp add: plan_spec_def)
  ultimately show thesis using that [OF j] unfolding j(2) by iprover
qed

text \<open>
  Claim C3. Nothing the user asked for is dropped in silence: a member of the evidence that carries an
  acting mark is either the target of an action of exactly that kind, or the plan warns that it is
  already linked with its keeper.
\<close>

theorem plan_keeps_every_mark:
  assumes "try_new scan_id input = Inr plan"
    and "g \<in> set input" and "m \<in> set (gi_members g)" and "m_mark m = Some (Act kind)"
  shows "(\<exists>a \<in> set (ap_actions plan). pa_target a = m_path m \<and> pa_kind a = kind)
    \<or> AlreadyLinkedWithKeeper (m_path m) \<in> set (ps_warnings (ap_summary plan))"
proof -
  let ?g = "sort_members g"
  from try_new_Inr [OF assms(1)] obtain parts where sp: "plan_spec scan_id (normalise input) parts plan" by blast
  have "?g \<in> set (normalise input)" using assms(2) by (simp add: set_normalise)
  from this obtain j where "j < length (normalise input)" "normalise input ! j = ?g" and j:
    "part_spec j (start_of parts j) ?g (parts ! j)"
    "set (gp_actions (parts ! j)) \<subseteq> set (ap_actions plan)"
    "set (gp_warnings (parts ! j)) \<subseteq> set (ps_warnings (ap_summary plan))"
    by (rule plan_group_of [OF sp])
  have t: "m \<in> set (targets_of ?g)" and kind: "action_of m = Some kind"
    using assms(3,4) by (auto simp: targets_of_iff action_of_Some_iff)
  show ?thesis
  proof (cases "filter is_keeper (gi_members ?g)")
    case Nil
    with j(1) t show ?thesis by (simp add: part_spec_def)
  next
    case (Cons keeper rest)
    with j(1) have rest: "rest = []" by (cases rest) (simp_all add: part_spec_def)
    from j(1) obtain ko where k:
      "gp_warnings (parts ! j) = map (\<lambda>t. AlreadyLinkedWithKeeper (m_path t)) (filter (\<lambda>t. m_key t = m_key keeper) (targets_of ?g))"
      "list_all2 (action_for j (start_of parts j) ?g (gp_objects (parts ! j)) keeper (start_of parts j + ko))
         (filter (\<lambda>t. m_key t \<noteq> m_key keeper) (targets_of ?g)) (gp_actions (parts ! j))"
      unfolding part_spec_def Cons rest list.case by blast
    show ?thesis
    proof (cases "m_key m = m_key keeper")
      case True
      then show ?thesis using k(1) j(3) t by auto
    next
      case False
      then have "m \<in> set (filter (\<lambda>t. m_key t \<noteq> m_key keeper) (targets_of ?g))" using t by simp
      from list_all2_left [OF k(2) this] obtain a where "a \<in> set (gp_actions (parts ! j))"
        "pa_target a = m_path m" "pa_kind a = kind" using kind by (auto simp: action_for_def)
      then show ?thesis using j(2) by blast
    qed
  qed
qed

theorem plan_keeps_every_mark_witness:
  "AlreadyLinkedWithKeeper [RootDir, Normal ''b''] \<in> set (ps_warnings (ap_summary sample_plan))"
proof -
  have m: "sample_member ''b'' 11 3 (Some (Act Hardlink)) \<in> set sample_members" by (simp add: sample_members_def)
  have "\<forall>a \<in> set (ap_actions sample_plan). pa_target a \<noteq> [RootDir, Normal ''b'']"
  proof
    fix a assume "a \<in> set (ap_actions sample_plan)"
    then have "pa_target a \<in> set (map pa_target (ap_actions sample_plan))" by simp
    then show "pa_target a \<noteq> [RootDir, Normal ''b'']" unfolding sample_actions(2) by auto
  qed
  with plan_keeps_every_mark [OF sample_accepted, of "sample_group sample_members"
      "sample_member ''b'' 11 3 (Some (Act Hardlink))" Hardlink] m
  show ?thesis by (auto simp: sample_input_def sample_group_def sample_member_def)
qed

section \<open>What an allocation loses\<close>

lemma part_target_range:
  assumes "part_spec gx fo g part" and "a \<in> set (gp_actions part)"
  shows "fo \<le> pa_target_object a \<and> pa_target_object a < fo + length (gp_objects part)"
  by (rule part_actions [OF assms]) (auto simp: action_for_def)

lemma part_covered:
  assumes ps: "part_spec gx fo g part" and i: "i < length (gp_objects part)"
  shows "po_covered_links (gp_objects part ! i) =
    of_nat (length (filter (\<lambda>a. pa_target_object a = fo + i) (gp_actions part)))"
proof (cases "filter is_keeper (gi_members g)")
  case Nil
  with ps have "object_spec g None [] (gp_objects part ! i)" "gp_actions part = []"
    using i by (simp_all add: part_spec_def)
  then show ?thesis by (simp add: object_spec_def Let_def)
next
  case (Cons keeper rest)
  with ps have rest: "rest = []" by (cases rest) (simp_all add: part_spec_def)
  let ?cov = "filter (\<lambda>t. m_key t \<noteq> m_key keeper) (targets_of g)" and ?objs = "gp_objects part"
  from ps i obtain ko where sp: "object_spec g (Some keeper) ?cov (?objs ! i)"
    and l: "list_all2 (action_for gx fo g ?objs keeper (fo + ko)) ?cov (gp_actions part)"
    unfolding part_spec_def Cons rest list.case by (meson nth_mem)
  have d: "distinct (map po_key ?objs)" using ps by (simp add: part_spec_def)
  have same: "m_key t = po_key (?objs ! i) \<longleftrightarrow> pa_target_object a = fo + i"
    if "action_for gx fo g ?objs keeper (fo + ko) t a" for t a
    using that d i nth_eq_iff_index_eq [OF d] by (fastforce simp: action_for_def)
  from l have "length (filter (\<lambda>t. m_key t = po_key (?objs ! i)) ?cov)
      = length (filter (\<lambda>a. pa_target_object a = fo + i) (gp_actions part))"
    by (induction rule: list_all2_induct) (simp_all add: same)
  then show ?thesis using sp by (simp add: object_spec_def Let_def)
qed

lemma filter_concat_one:
  assumes "j < length xss" and "\<And>l x. l < length xss \<Longrightarrow> l \<noteq> j \<Longrightarrow> x \<in> set (xss ! l) \<Longrightarrow> \<not> P x"
  shows "filter P (concat xss) = filter P (xss ! j)"
  using assms
proof (induction xss arbitrary: j)
  case (Cons xs xss)
  show ?case
  proof (cases j)
    case 0
    have "\<not> P x" if "x \<in> set (concat xss)" for x
    proof -
      from that obtain l where "l < length xss" "x \<in> set (xss ! l)"
        by (auto simp: in_set_conv_nth [of _ xss])
      then show ?thesis using Cons.prems(2) [of "Suc l" x] 0 by simp
    qed
    then show ?thesis by (simp add: 0 filter_empty_conv del: filter_concat)
  next
    case (Suc k)
    have "filter P xs = []" using Cons.prems(2) [of 0] Suc by (auto simp: filter_empty_conv)
    moreover have "filter P (concat xss) = filter P (xss ! k)"
    proof (rule Cons.IH)
      show "k < length xss" using Cons.prems(1) Suc by simp
      show "\<not> P x" if "l < length xss" "l \<noteq> k" "x \<in> set (xss ! l)" for l x
        using Cons.prems(2) [of "Suc l" x] that Suc by simp
    qed
    ultimately show ?thesis by (simp add: Suc)
  qed
qed simp

lemma start_of_mono:
  assumes "j < l" and "l < length parts"
  shows "start_of parts j + length (gp_objects (parts ! j)) \<le> start_of parts l"
proof -
  have "take (Suc j) parts = take j parts @ [parts ! j]" using assms by (simp add: take_Suc_conv_app_nth)
  then have "start_of parts (Suc j) = start_of parts j + length (gp_objects (parts ! j))"
    by (simp add: start_of_def)
  moreover have "take l parts = take (Suc j) parts @ take (l - Suc j) (drop (Suc j) parts)"
    using assms(1) by (metis Suc_leI le_add_diff_inverse take_add)
  then have "start_of parts (Suc j) \<le> start_of parts l" by (simp add: start_of_def)
  ultimately show ?thesis by simp
qed

lemma plan_object_of:
  assumes "plan_spec scan_id gs parts plan" and "i < length (ap_objects plan)"
  obtains j l where "j < length gs" and "l < length (gp_objects (parts ! j))"
    and "i = start_of parts j + l" and "ap_objects plan ! i = gp_objects (parts ! j) ! l"
    and "part_spec j (start_of parts j) (gs ! j) (parts ! j)"
proof -
  from assms have len: "length parts = length gs" and i: "i < length (concat (map gp_objects parts))"
    and ps: "\<forall>j < length gs. part_spec j (start_of parts j) (gs ! j) (parts ! j)"
    by (simp_all add: plan_spec_def)
  from nth_concat_exists [OF i] obtain j l where jl: "j < length (map gp_objects parts)"
    "l < length (map gp_objects parts ! j)" "i = length (concat (take j (map gp_objects parts))) + l" by blast
  then have j: "j < length gs" "l < length (gp_objects (parts ! j))" "i = start_of parts j + l"
    using len by (simp_all add: start_of_def take_map)
  with plan_objects [OF assms(1) j(1,2)] ps show thesis by (intro that [of j l]) simp_all
qed

lemma covered_of_plan:
  assumes sp: "plan_spec scan_id gs parts plan" and i: "i < length (ap_objects plan)"
  shows "po_covered_links (ap_objects plan ! i) =
    of_nat (length (filter (\<lambda>a. pa_target_object a = i) (ap_actions plan)))"
proof -
  from plan_object_of [OF sp i] obtain j l where j: "j < length gs" "l < length (gp_objects (parts ! j))"
    "i = start_of parts j + l" "ap_objects plan ! i = gp_objects (parts ! j) ! l"
    "part_spec j (start_of parts j) (gs ! j) (parts ! j)" by blast
  have len: "length parts = length gs"
    and ps: "\<And>j. j < length gs \<Longrightarrow> part_spec j (start_of parts j) (gs ! j) (parts ! j)"
    using sp by (simp_all add: plan_spec_def)
  have "filter (\<lambda>a. pa_target_object a = i) (concat (map gp_actions parts)) =
      filter (\<lambda>a. pa_target_object a = i) (map gp_actions parts ! j)"
  proof (rule filter_concat_one)
    fix k a assume k: "k < length (map gp_actions parts)" "k \<noteq> j" "a \<in> set (map gp_actions parts ! k)"
    then have "start_of parts k \<le> pa_target_object a
        \<and> pa_target_object a < start_of parts k + length (gp_objects (parts ! k))"
      using part_target_range [OF ps] len by simp
    moreover have "k < j \<or> j < k" using k(2) by auto
    ultimately show "pa_target_object a \<noteq> i"
      using start_of_mono [of k j parts] start_of_mono [of j k parts] k(1) j(1-3) len by auto
  qed (use j(1) len in simp)
  moreover have "ap_actions plan = concat (map gp_actions parts)" using sp by (simp add: plan_spec_def)
  ultimately show ?thesis using part_covered [OF j(5,2)] j(1,3,4) len by simp
qed

text \<open>
  The links an allocation is said to lose are the actions aimed at it: for every object of a
  plan, \<open>covered_links\<close> is the number of actions whose target object it is.
\<close>

theorem plan_counts_covered_links:
  assumes "try_new scan_id input = Inr plan" and "i < length (ap_objects plan)"
  shows "po_covered_links (ap_objects plan ! i) =
    of_nat (length (filter (\<lambda>a. pa_target_object a = i) (ap_actions plan)))"
  using try_new_Inr [OF assms(1)] covered_of_plan [OF _ assms(2)] by metis

theorem plan_counts_covered_links_witness:
  "po_covered_links (ap_objects sample_plan ! 1) =
    of_nat (length (filter (\<lambda>a. pa_target_object a = 1) (ap_actions sample_plan)))"
  using plan_counts_covered_links [OF sample_accepted] sample_actions(3) by simp

section \<open>The figure of a plan\<close>

definition released :: "planned_object \<Rightarrow> bool" where
  "released obj \<longleftrightarrow> po_covered_links obj \<noteq> 0 \<and> remaining_inside obj = 0"

definition bytes_of :: "planned_object list \<Rightarrow> nat" where
  "bytes_of objs = sum_list (map (\<lambda>obj. unat (key_size (po_key obj))) objs)"

lemma sum_guaranteed:
  "sum_list (map (unat \<circ> est_guaranteed) (map object_estimate objs)) = bytes_of (filter fully_released objs)"
  by (induction objs) (auto simp: bytes_of_def object_estimate_guaranteed)

lemma sum_ceiling:
  "sum_list (map (unat \<circ> est_ceiling) (map object_estimate objs)) = bytes_of (filter released objs)"
  by (induction objs)
    (auto simp: bytes_of_def object_estimate_def released_def exact_def upper_bound_def word_gt_0)

lemma object_estimate_state:
  "est_state (object_estimate obj) = StUpperBound \<longleftrightarrow> released obj \<and> \<not> fully_released obj"
  by (auto simp: object_estimate_def released_def fully_released_def exact_def upper_bound_def word_gt_0)

lemma plan_bytes_spec:
  assumes "plan_spec scan_id gs parts plan"
  shows "let e = ps_estimate (ap_summary plan); objs = ap_objects plan in
    unat (est_guaranteed e) = bytes_of (filter fully_released objs)
    \<and> unat (est_ceiling e) = bytes_of (filter released objs) \<and> unat (est_ceiling e) < 2 ^ 63
    \<and> est_state e = (if filter released objs = filter fully_released objs then StExact else StUpperBound)"
proof -
  let ?objs = "ap_objects plan"
  have t: "\<forall>e \<in> set (map object_estimate ?objs). est_state e \<noteq> StUnknown"
    by (auto simp: object_estimate_trusted)
  have "for_fresh_scan (map object_estimate ?objs) = Inr (ps_estimate (ap_summary plan))"
    using assms unfolding plan_spec_def by blast
  note f = for_fresh_scan_trusted [OF t, THEN iffD1, OF this, unfolded sum_guaranteed sum_ceiling]
  have sub: "fully_released obj \<Longrightarrow> released obj" for obj by (simp add: fully_released_def released_def)
  have "filter released ?objs = filter fully_released ?objs \<longleftrightarrow>
      (\<forall>obj \<in> set ?objs. released obj \<longrightarrow> fully_released obj)"
    using sub by (metis (mono_tags, lifting) filter_cong mem_Collect_eq set_filter)
  then have "(\<exists>e \<in> set (map object_estimate ?objs). est_state e = StUpperBound) \<longleftrightarrow>
      filter released ?objs \<noteq> filter fully_released ?objs"
    by (auto simp: object_estimate_state)
  with f show ?thesis by (simp add: Let_def)
qed

text \<open>
  Claim C4. The figure of a plan: what it guarantees is the bytes of exactly the allocations every link
  of which is both known and removed, what it may free at most is the bytes of the allocations no
  known path of which is left, the ceiling fits the persisted column, and the figure is called exact
  only when the two sets are the same.
\<close>

theorem plan_figure:
  assumes "try_new scan_id input = Inr plan"
  shows "let e = ps_estimate (ap_summary plan); objs = ap_objects plan in
    unat (est_guaranteed e) = bytes_of (filter fully_released objs)
    \<and> unat (est_ceiling e) = bytes_of (filter released objs) \<and> unat (est_ceiling e) < 2 ^ 63
    \<and> est_state e = (if filter released objs = filter fully_released objs then StExact else StUpperBound)"
  using try_new_Inr [OF assms] plan_bytes_spec by metis

theorem plan_figure_witness:
  "unat (est_guaranteed (ps_estimate (ap_summary sample_plan))) =
    bytes_of (filter fully_released (ap_objects sample_plan))
   \<and> bytes_of (filter fully_released (ap_objects sample_plan)) = 100"
proof -
  have "est_guaranteed (ps_estimate (ap_summary sample_plan)) = 100" unfolding sample_plan_def by code_simp
  with plan_figure [OF sample_accepted] show ?thesis by (simp add: Let_def)
qed

section \<open>The order of the evidence\<close>

text \<open>A group without the order its members were listed in.\<close>

definition unordered :: "group_input \<Rightarrow> group_id \<times> string \<times> member multiset" where
  "unordered g = (gi_id g, gi_hash g, mset (gi_members g))"

lemma sort_key_map: "sort_key f (map c xs) = map c (sort_key (f \<circ> c) xs)"
proof (induction xs)
  case (Cons x xs)
  have "insort_key f (c x) (map c ys) = map c (insort_key (f \<circ> c) x ys)" for ys
    by (induction ys) auto
  then show ?case using Cons by (simp add: comp_def)
qed simp

lemma sort_members_unordered:
  assumes "unordered g = unordered h" and "distinct (map m_path (gi_members g))"
  shows "sort_members g = sort_members h"
  using assms sort_key_permuted [of "gi_members g" "gi_members h" m_path]
  by (simp add: unordered_def sort_members_def)

lemma normalise_unordered:
  assumes eq: "mset (map unordered gs) = mset (map unordered hs)"
    and ranks: "distinct (map group_rank gs)" and paths: "distinct (all_paths (normalise gs))"
  shows "normalise gs = normalise hs"
proof -
  let ?r = "\<lambda>(i, _). sint (gid_rank i)"
  have r: "?r \<circ> unordered = group_rank" by (auto simp: fun_eq_iff unordered_def group_rank_def)
  have "sort_key ?r (map unordered gs) = sort_key ?r (map unordered hs)"
    using eq ranks by (intro sort_key_permuted) (simp_all add: r)
  then have s: "map unordered (sort_key group_rank gs) = map unordered (sort_key group_rank hs)"
    by (simp only: sort_key_map r)
  show ?thesis
    unfolding normalise_def
  proof (rule nth_equalityI)
    show len: "length (map sort_members (sort_key group_rank gs)) = length (map sort_members (sort_key group_rank hs))"
      using arg_cong [OF s, of length] by simp
    fix i assume i: "i < length (map sort_members (sort_key group_rank gs))"
    let ?g = "sort_key group_rank gs ! i"
    have "?g \<in> set gs" using i by (metis length_map nth_mem set_sort)
    then have "sort_members ?g \<in> set (normalise gs)" by (simp add: set_normalise)
    moreover have "distinct (map m_path (gi_members x))" if "x \<in> set (normalise gs)" for x
      using paths that by (auto simp: all_paths_def distinct_concat_iff)
    ultimately have "distinct (map m_path (gi_members (sort_members ?g)))" by blast
    then have "distinct (map m_path (gi_members ?g))"
      by (metis mset_eq_imp_distinct_iff mset_map sort_members_id(5))
    moreover have "unordered ?g = unordered (sort_key group_rank hs ! i)"
      using s i len by (metis length_map nth_map)
    ultimately show "map sort_members (sort_key group_rank gs) ! i = map sort_members (sort_key group_rank hs) ! i"
      using i len sort_members_unordered by simp
  qed
qed

text \<open>
  A plan is a function of the evidence, not of the order it was read in: groups handed over
  in another order, with their members in another order, fold into the very same plan.
\<close>

theorem plan_order_irrelevant:
  assumes "try_new scan_id gs = Inr plan" and "mset (map unordered gs) = mset (map unordered hs)"
  shows "try_new scan_id hs = Inr plan"
proof -
  let ?gen = "gid_generation (gi_id (hd gs))"
  obtain paths: "distinct (all_paths (normalise gs))" and ranks: "distinct (map group_rank gs)"
    and ids: "\<forall>g \<in> set gs. gid_scan (gi_id g) = scan_id \<and> gid_generation (gi_id g) = ?gen \<and> 0 \<le> group_rank g"
    using try_new_Inr [OF assms(1)] by metis
  have n: "normalise gs = normalise hs" by (rule normalise_unordered [OF assms(2) ranks paths])
  have ne: "gs \<noteq> []" using assms(1) by (auto simp: try_new_def)
  then have ne': "hs \<noteq> []" using assms(2) by auto
  have "gi_id ` set hs = gi_id ` set gs"
  proof -
    have "set (map unordered gs) = set (map unordered hs)" using assms(2) by (metis set_mset_mset)
    then have "fst ` set (map unordered gs) = fst ` set (map unordered hs)" by (rule arg_cong)
    then show ?thesis by (simp add: image_image unordered_def)
  qed
  then have ids': "\<forall>g \<in> set hs. gid_scan (gi_id g) = scan_id \<and> gid_generation (gi_id g) = ?gen \<and> 0 \<le> group_rank g"
    using ids unfolding group_rank_def by (metis (no_types, lifting) imageE imageI)
  have gen: "gid_generation (gi_id (hd hs)) = ?gen" using ids' ne' by simp
  have "rfold (\<lambda>_. check_identity scan_id ?gen) () gs = Inr ()"
    "rfold (\<lambda>_. check_identity scan_id ?gen) () hs = Inr ()"
    using ids ids' by (auto simp: rfold_check_identity)
  then show ?thesis
    using assms(1) ne ne' n gen by (cases gs; cases hs) (simp_all add: try_new_def Let_def)
qed

theorem plan_order_irrelevant_witness:
  "try_new 7 [sample_group (rev sample_members)] = Inr sample_plan"
  by (rule plan_order_irrelevant [OF sample_accepted])
    (simp add: sample_input_def sample_group_def unordered_def)

section \<open>What accepted evidence is like\<close>

definition group_accepted :: "group_input \<Rightarrow> bool" where
  "group_accepted g \<longleftrightarrow>
     gi_members g \<noteq> [] \<and> same_size g
     \<and> length (filter is_keeper (gi_members g)) \<le> 1
     \<and> (\<forall>t \<in> set (gi_members g). action_of t \<noteq> None \<longrightarrow>
          (\<exists>keeper \<in> set (gi_members g). is_keeper keeper \<and> \<not> crosses keeper t))
     \<and> (\<forall>m \<in> set (gi_members g). \<forall>n \<in> set (gi_members g). m_key m = m_key n \<longrightarrow> m_links m = m_links n)
     \<and> (\<forall>m \<in> set (gi_members g). len_u64 (aliases_of (gi_members g) (m_key m)) \<le> m_links m)"

lemma part_objects_accepted:
  assumes "\<forall>obj \<in> set objs. object_spec g keeper covered obj"
    and "set (map po_key objs) = m_key ` set (gi_members g)" and "m \<in> set (gi_members g)"
  shows "len_u64 (aliases_of (gi_members g) (m_key m)) \<le> m_links m"
    and "n \<in> set (gi_members g) \<Longrightarrow> m_key m = m_key n \<Longrightarrow> m_links m = m_links n"
proof -
  from assms(2,3) obtain obj where o: "obj \<in> set objs" "po_key obj = m_key m" by (metis image_eqI in_set_conv_nth length_map nth_map nth_mem imageE list.set_map)
  from assms(1) o(1) have "object_spec g keeper covered obj" by blast
  then have l: "\<forall>a \<in> set (aliases_of (gi_members g) (m_key m)). m_links a = po_links obj"
    "len_u64 (aliases_of (gi_members g) (m_key m)) \<le> po_links obj"
    by (auto simp: object_spec_def Let_def o(2))
  then show "len_u64 (aliases_of (gi_members g) (m_key m)) \<le> m_links m"
    using assms(3) by (auto simp: aliases_of_def)
  show "m_links m = m_links n" if "n \<in> set (gi_members g)" "m_key m = m_key n"
    using l(1) that assms(3) by (auto simp: aliases_of_def)
qed

lemma part_accepted:
  assumes "part_spec gx fo g part"
  shows "group_accepted g"
proof (cases "filter is_keeper (gi_members g)")
  case Nil
  with assms have p: "gi_members g \<noteq> []" "same_size g" "targets_of g = []"
    "\<forall>obj \<in> set (gp_objects part). object_spec g None [] obj"
    "set (map po_key (gp_objects part)) = m_key ` set (gi_members g)"
    by (simp_all add: part_spec_def)
  have none: "\<forall>t \<in> set (gi_members g). action_of t \<noteq> None \<longrightarrow>
      (\<exists>keeper \<in> set (gi_members g). is_keeper keeper \<and> \<not> crosses keeper t)"
    using p(3) targets_of_iff by (metis empty_iff empty_set)
  have one: "length (filter is_keeper (gi_members g)) \<le> 1" unfolding Nil by simp
  have links: "\<forall>m \<in> set (gi_members g). \<forall>n \<in> set (gi_members g). m_key m = m_key n \<longrightarrow> m_links m = m_links n"
    using part_objects_accepted(2) [OF p(4,5)] by blast
  have paths: "\<forall>m \<in> set (gi_members g). len_u64 (aliases_of (gi_members g) (m_key m)) \<le> m_links m"
    using part_objects_accepted(1) [OF p(4,5)] by blast
  show ?thesis
    unfolding group_accepted_def by (intro conjI p(1,2) one none links paths)
next
  case (Cons keeper rest)
  with assms have rest: "rest = []" by (cases rest) (simp_all add: part_spec_def)
  from assms have p: "gi_members g \<noteq> []" "same_size g"
    "\<forall>obj \<in> set (gp_objects part). object_spec g (Some keeper) (filter (\<lambda>t. m_key t \<noteq> m_key keeper) (targets_of g)) obj"
    "set (map po_key (gp_objects part)) = m_key ` set (gi_members g)"
    "\<forall>t \<in> set (targets_of g). \<not> crosses keeper t"
    unfolding part_spec_def Cons rest list.case by blast+
  have k: "keeper \<in> set (gi_members g)" "is_keeper keeper"
    using keeper_of_filter [of "gi_members g" keeper] Cons rest by simp_all
  have "length (filter is_keeper (gi_members g)) \<le> 1" unfolding Cons rest by simp
  moreover have "\<forall>t \<in> set (gi_members g). action_of t \<noteq> None \<longrightarrow>
      (\<exists>keeper \<in> set (gi_members g). is_keeper keeper \<and> \<not> crosses keeper t)"
    using p(5) k by (auto simp: targets_of_iff)
  ultimately show ?thesis
    unfolding group_accepted_def using p(1,2) part_objects_accepted [OF p(3,4)] by blast
qed

text \<open>
  What no plan is built from: a group of a plan has members of one size, at most one keeper,
  a keeper on the same device for every linking mark and some keeper for every mark at all, one link
  count for all paths of an allocation, and never more paths of it than links; and across groups no
  path occurs twice and no rank is given twice.
\<close>

theorem plan_evidence_accepted:
  assumes "try_new scan_id input = Inr plan"
  shows "(\<forall>g \<in> set (normalise input). group_accepted g)
    \<and> distinct (all_paths (normalise input)) \<and> distinct (map group_rank input)"
proof -
  from try_new_Inr [OF assms] obtain parts where sp: "plan_spec scan_id (normalise input) parts plan"
    and d: "distinct (all_paths (normalise input))" "distinct (map group_rank input)" by metis
  have "group_accepted g" if "g \<in> set (normalise input)" for g
    by (rule plan_group_of [OF sp that]) (rule part_accepted)
  with d show ?thesis by blast
qed

theorem plan_evidence_accepted_witness:
  "group_accepted (hd (normalise sample_input)) \<and> distinct (all_paths (normalise sample_input))"
  using plan_evidence_accepted [OF sample_accepted] by (simp add: normalise_def sample_input_def)

end
