(* ===== verification/Plan_Total.thy ===== *)
theory Plan_Total
  imports Plan_Props
begin

text \<open>
  \<open>try_new\<close> always answers with a plan or one of its refusals: none of its \<open>expect\<close>s can fail, on
  any evidence.
\<close>

section \<open>No evidence makes it panic\<close>

definition panics :: "plan_refusal \<Rightarrow> bool" where
  "panics e \<longleftrightarrow> (\<exists>why. e = Panicked why)"

lemma check_identity_no_panic: "check_identity s n g = Inl e \<Longrightarrow> \<not> panics e"
  by (auto simp: check_identity_def panics_def split: if_splits)

lemma check_distinct_ids_no_panic: "check_distinct_ids gs = Inl e \<Longrightarrow> \<not> panics e"
  by (induction gs rule: check_distinct_ids.induct) (auto simp: panics_def split: if_splits)

lemma check_member_no_panic: "check_member hash st m = Inl e \<Longrightarrow> \<not> panics e"
  by (cases st) (auto simp: check_member_def panics_def split: if_splits option.splits)

lemma rfold_no_panic:
  "rfold f s xs = Inl e \<Longrightarrow> (\<And>s x. x \<in> set xs \<Longrightarrow> f s x = Inl e \<Longrightarrow> \<not> panics e) \<Longrightarrow> \<not> panics e"
  by (rule rfold_InlE [where I = "\<lambda>_. True"]) auto

lemma check_global_evidence_no_panic: "check_global_evidence gs = Inl e \<Longrightarrow> \<not> panics e"
  by (auto simp: check_global_evidence_def result_simps
      dest: check_distinct_ids_no_panic
      dest!: rfold_no_panic [where f = "\<lambda>st g. rfold (check_member (gi_hash g)) st (gi_members g)"]
        rfold_no_panic [where f = "check_member h" for h] check_member_no_panic)

lemma push_objects_no_panic:
  assumes "push_objects g keeper covered = Inl e"
  shows "\<not> panics e"
proof -
  have "build_object h k c a = Inl e \<Longrightarrow> \<not> panics e" for h k c a
    by (auto simp: build_object_def Let_def result_simps panics_def split: if_splits)
  moreover from assms have "rmap (\<lambda>(_, aliases). build_object (gi_hash g) keeper covered aliases)
      (group_by (key_order \<circ> m_key) (gi_members g)) = Inl e"
    by (auto simp: push_objects_def result_simps)
  ultimately show ?thesis by (auto elim!: rmap_InlE)
qed

lemma add_target_objects:
  "add_target gx fo hash sz keeper ko part t = Inr part' \<Longrightarrow> gp_objects part' = gp_objects part"
  by (auto simp: add_target_def result_simps split: if_splits)

lemma add_target_no_panic:
  assumes "add_target gx fo hash sz keeper ko part t = Inl e"
    and "action_of t \<noteq> None" and "m_key t \<in> set (map po_key (gp_objects part))"
  shows "\<not> panics e"
  using assms index_of_exists [OF assms(3), of fo]
  by (auto simp: add_target_def result_simps split: if_splits)

lemma plan_group_no_panic:
  assumes "plan_group gx fo g = Inl e"
  shows "\<not> panics e"
proof (cases "filter is_keeper (gi_members g)")
  case Nil
  with assms show ?thesis
    by (auto simp: plan_group_def Let_def result_simps panics_def dest: push_objects_no_panic [unfolded panics_def] split: if_splits)
next
  case (Cons keeper rest)
  let ?cov = "filter (\<lambda>t. m_key t \<noteq> m_key keeper) (targets_of g)"
  have kin: "m_key keeper \<in> m_key ` set (gi_members g)"
    using Cons by (metis filter_eq_ConsD image_eqI in_set_conv_decomp)
  show ?thesis
  proof (rule ccontr)
    assume "\<not> \<not> panics e"
    then have p: "panics e" by simp
    have "\<not> gi_members g = []" using Cons by auto
    note un = assms [unfolded plan_group_def Let_def if_not_P [OF this]]
    have ns: "\<not> (\<exists>m \<in> set (gi_members g). key_size (m_key m) \<noteq> key_size (m_key (hd (gi_members g))))"
    proof
      assume "\<exists>m \<in> set (gi_members g). key_size (m_key m) \<noteq> key_size (m_key (hd (gi_members g)))"
      from un [unfolded if_P [OF this]] p show False by (auto simp: panics_def)
    qed
    note un = un [unfolded if_not_P [OF ns] Cons targets_of_def [symmetric]]
    from un p have rest: "rest = []" by (cases rest) (auto simp: panics_def)
    from un [unfolded rest] p obtain objs where o: "push_objects g (Some keeper) ?cov = Inr objs"
      by (auto simp: result_simps dest: push_objects_no_panic)
    from push_objects_Inr(3) [OF o] have keys: "set (map po_key objs) = m_key ` set (gi_members g)" .
    from index_of_exists [of _ objs fo] kin keys obtain ko where ko: "index_of objs fo (m_key keeper) = Some ko"
      by metis
    let ?f = "add_target gx fo (gi_hash g) (key_size (m_key (hd (gi_members g)))) keeper ko"
    from un [unfolded rest] o ko obtain part0 where r: "rfold ?f part0 ?cov = Inl e" and p0: "gp_objects part0 = objs"
      by (auto simp: result_simps)
    from r obtain part t where st: "gp_objects part = objs" "t \<in> set ?cov" "?f part t = Inl e"
      by (rule rfold_InlE [where I = "\<lambda>part. gp_objects part = objs"]) (auto simp: p0 add_target_objects)
    have "\<not> panics e"
      by (rule add_target_no_panic [OF st(3)]) (use st(1,2) keys in \<open>auto simp: targets_of_iff\<close>)
    with p show False by contradiction
  qed
qed


end
