(* ===== verification/Plan_Reading.thy ===== *)
theory Plan_Reading
  imports Plan_Total
begin

text \<open>
  What a finished plan is read for, in \<open>src/src/model/plan.rs\<close>: the reading of the actions that
  cannot run (\<open>Unrunnable\<close>), the digest a confirmation quotes, and the settlement of the marks after
  a batch. A reason is an \<open>obstacle\<close> where the source has its sentence.
\<close>

section \<open>The reading\<close>

definition unrunnable_new :: "obstacle option list \<Rightarrow> unrunnable" where
  "unrunnable_new reasons =
     \<lparr>un_reasons = reasons, un_count = length (filter (\<lambda>r. r \<noteq> None) reasons),
      un_first = position (\<lambda>r. r \<noteq> None) reasons\<rparr>"

definition reason_at :: "unrunnable \<Rightarrow> nat \<Rightarrow> obstacle option" where
  "reason_at u i = (if i < length (un_reasons u) then un_reasons u ! i else None)"

definition with_unrunnable :: "action_plan \<Rightarrow> unrunnable \<Rightarrow> action_plan" where
  "with_unrunnable plan u =
     plan\<lparr>ap_unrunnable := (if length (un_reasons u) = length (ap_actions plan) then u else no_reading)\<rparr>"

definition is_set_aside :: "action_plan \<Rightarrow> nat \<Rightarrow> bool" where
  "is_set_aside plan i \<longleftrightarrow> reason_at (ap_unrunnable plan) i \<noteq> None"

definition unrunnable_head :: "action_plan \<Rightarrow> (nat \<times> path \<times> obstacle) option" where
  "unrunnable_head plan =
     (case un_first (ap_unrunnable plan) of
        None \<Rightarrow> None
      | Some i \<Rightarrow>
          (case reason_at (ap_unrunnable plan) i of
             None \<Rightarrow> None
           | Some reason \<Rightarrow> Some (un_count (ap_unrunnable plan), pa_target (ap_actions plan ! i), reason)))"

section \<open>The figure of what can run\<close>

text \<open>The two flags per object: one of its pathnames is still removed, one of them stays.\<close>

definition flag_action :: "action_plan \<Rightarrow> bool list \<times> bool list \<Rightarrow> nat \<times> plan_action \<Rightarrow> bool list \<times> bool list" where
  "flag_action plan = (\<lambda>(removed, stays) (i, a).
     if is_set_aside plan i then (removed, stays[pa_target_object a := True])
     else (removed[pa_target_object a := True], stays))"

definition object_flags :: "action_plan \<Rightarrow> bool list \<times> bool list" where
  "object_flags plan =
     foldl (flag_action plan)
       (replicate (length (ap_objects plan)) False, replicate (length (ap_objects plan)) False)
       (enumerate 0 (ap_actions plan))"

definition runnable_summary :: "action_plan \<Rightarrow> plan_summary" where
  "runnable_summary plan =
     (if un_count (ap_unrunnable plan) = 0 then ap_summary plan
      else
        let (removed, stays) = object_flags plan;
            figures = map2 (\<lambda>obj stay. if stay then exact 0 else object_estimate obj) (ap_objects plan) stays
        in \<lparr>ps_actions = length (ap_actions plan) - un_count (ap_unrunnable plan),
            ps_covered_objects = length (filter (\<lambda>r. r) removed),
            ps_estimate = (case for_fresh_scan figures of Inl _ \<Rightarrow> unknown | Inr e \<Rightarrow> e),
            ps_warnings = ps_warnings (ap_summary plan)\<rparr>)"

record plan_digest =
  pd_counts :: "(action_kind \<times> nat) list"
  pd_samples :: "(action_kind \<times> path) list"
  pd_hidden :: nat
  pd_covered_objects :: nat
  pd_estimate :: reclaim_estimate
  pd_warnings :: "plan_warning list"
  pd_planned :: nat
  pd_unrunnable :: nat
  pd_first_unrunnable :: "(path \<times> obstacle) option"

definition digest_samples :: nat where
  "digest_samples = 5"

definition runnable_actions :: "action_plan \<Rightarrow> plan_action list" where
  "runnable_actions plan =
     map snd (filter (\<lambda>(i, _). \<not> is_set_aside plan i) (enumerate 0 (ap_actions plan)))"

definition kind_count :: "plan_action list \<Rightarrow> action_kind \<Rightarrow> nat" where
  "kind_count runnable kind = length (filter (\<lambda>a. pa_kind a = kind) runnable)"

definition digest :: "action_plan \<Rightarrow> plan_digest" where
  "digest plan =
     (let runnable = runnable_actions plan;
          samples = map (\<lambda>a. (pa_kind a, pa_target a)) (take digest_samples runnable);
          summary = runnable_summary plan
      in \<lparr>pd_counts = filter (\<lambda>(_, n). 0 < n)
            (map (\<lambda>kind. (kind, kind_count runnable kind)) [Delete, Hardlink, Reflink]),
          pd_samples = samples, pd_hidden = length runnable - length samples,
          pd_covered_objects = ps_covered_objects summary, pd_estimate = ps_estimate summary,
          pd_warnings = ps_warnings summary, pd_planned = length (ap_actions plan),
          pd_unrunnable = length (ap_actions plan) - length runnable,
          pd_first_unrunnable = map_option (\<lambda>(_, target, reason). (target, reason)) (unrunnable_head plan)\<rparr>)"

section \<open>The marks a batch leaves\<close>

record mark_settlement =
  ms_spent :: "path list"
  ms_left_marked :: nat
  ms_left_unmarked :: nat

definition ran_at :: "bool list \<Rightarrow> nat \<Rightarrow> bool" where
  "ran_at went i \<longleftrightarrow> i < length went \<and> went ! i"

definition changed_groups :: "action_plan \<Rightarrow> bool list \<Rightarrow> nat list" where
  "changed_groups plan went =
     sort (remdups (map (\<lambda>(_, a). pa_group a)
       (filter (\<lambda>(i, _). ran_at went i) (enumerate 0 (ap_actions plan)))))"

definition spent_of :: "action_plan \<Rightarrow> nat \<Rightarrow> path list" where
  "spent_of plan grp =
     map (\<lambda>i. gw_members (pw_groups (ap_witness plan) ! grp) ! i) (ap_group_marks plan ! grp)"

definition settle_marks :: "action_plan \<Rightarrow> bool list \<Rightarrow> mark_settlement" where
  "settle_marks plan went =
     (let changed = changed_groups plan went;
          left = filter (\<lambda>(i, _). \<not> ran_at went i) (enumerate 0 (ap_actions plan))
      in \<lparr>ms_spent = concat (map (spent_of plan) changed),
          ms_left_marked = length (filter (\<lambda>(_, a). pa_group a \<notin> set changed) left),
          ms_left_unmarked = length (filter (\<lambda>(_, a). pa_group a \<in> set changed) left)\<rparr>)"

section \<open>What a confirmation shows\<close>

lemma sum_kinds:
  "kind_count as Delete + kind_count as Hardlink + kind_count as Reflink = length as"
proof (induction as)
  case (Cons a as)
  then show ?case by (cases "pa_kind a") (simp_all add: kind_count_def)
qed (simp add: kind_count_def)

lemma digest_counts_total: "sum_list (map snd (pd_counts (digest plan))) = length (runnable_actions plan)"
proof -
  have "sum_list (map snd (filter (\<lambda>(_, n). 0 < n) xs)) = sum_list (map snd xs)" for xs :: "(action_kind \<times> nat) list"
    by (induction xs) auto
  then show ?thesis by (simp add: digest_def Let_def sum_kinds [symmetric] del: filter.simps)
qed

lemma length_filter_fst: "length (filter (\<lambda>(i, _). P i) es) = length (filter P (map fst es))"
  by (induction es) auto

lemma length_runnable:
  fixes as :: "plan_action list"
  assumes "length (un_reasons u) = n" and "n = length as"
  shows "length (filter (\<lambda>(i, _). reason_at u i = None) (enumerate 0 as)) + length (filter (\<lambda>r. r \<noteq> None) (un_reasons u)) = n"
proof -
  have e: "filter (\<lambda>(i, _). reason_at u i = None) (enumerate 0 as)
      = filter (\<lambda>(i, _). un_reasons u ! i = None) (enumerate 0 as)"
    using assms by (intro filter_cong) (auto simp: reason_at_def in_set_enumerate_eq)
  have f: "length (filter (\<lambda>(i, _). rs ! i = None) (enumerate 0 xs)) = length (filter (\<lambda>r. r = None) rs)"
    if "length rs = length xs" for rs :: "obstacle option list" and xs :: "plan_action list"
  proof -
    have "length (filter (\<lambda>(i, _). rs ! i = None) (enumerate 0 xs))
        = length (filter (\<lambda>i. rs ! i = None) (map fst (enumerate 0 xs)))"
      by (rule length_filter_fst)
    also have "\<dots> = length (filter (\<lambda>r. r = None) (map (\<lambda>i. rs ! i) [0..<length rs]))"
      using that by (simp add: filter_map comp_def)
    finally show ?thesis by (simp add: map_nth)
  qed
  from f [of "un_reasons u" as] e assms show ?thesis
    using sum_length_filter_compl [of "\<lambda>r. r = None" "un_reasons u"] by simp
qed

text \<open>
  The numbers of a confirmation add up: the per-kind counts sum to the actions that can run,
  these and the ones set aside are all the plan holds, the quoted samples and the hidden rest are
  exactly the runnable ones, and with a reading taken for this plan the number set aside is the number
  of obstacles it found.
\<close>

theorem digest_adds_up:
  "sum_list (map snd (pd_counts (digest plan))) + pd_unrunnable (digest plan) = pd_planned (digest plan)
   \<and> length (pd_samples (digest plan)) + pd_hidden (digest plan) = sum_list (map snd (pd_counts (digest plan)))
   \<and> pd_unrunnable (digest (with_unrunnable plan (unrunnable_new rs))) =
       (if length rs = length (ap_actions plan) then length (filter (\<lambda>r. r \<noteq> None) rs) else 0)"
proof (intro conjI)
  have le: "length (runnable_actions p) \<le> length (ap_actions p)" for p
    unfolding runnable_actions_def by (simp, rule order.trans [OF length_filter_le]) simp
  then show "sum_list (map snd (pd_counts (digest plan))) + pd_unrunnable (digest plan) = pd_planned (digest plan)"
    unfolding digest_counts_total by (simp add: digest_def Let_def)
  show "length (pd_samples (digest plan)) + pd_hidden (digest plan) = sum_list (map snd (pd_counts (digest plan)))"
    unfolding digest_counts_total by (simp add: digest_def Let_def)
  let ?p = "with_unrunnable plan (unrunnable_new rs)"
  have "pd_unrunnable (digest ?p) = length (ap_actions plan) - length (runnable_actions ?p)"
    by (simp add: digest_def Let_def with_unrunnable_def)
  moreover have "length (runnable_actions ?p) +
      (if length rs = length (ap_actions plan) then length (filter (\<lambda>r. r \<noteq> None) rs) else 0) = length (ap_actions plan)"
    using length_runnable [of "unrunnable_new rs" "length rs" "ap_actions plan"]
    by (auto simp: runnable_actions_def is_set_aside_def with_unrunnable_def unrunnable_new_def
        no_reading_def reason_at_def)
  ultimately show "pd_unrunnable (digest ?p) =
      (if length rs = length (ap_actions plan) then length (filter (\<lambda>r. r \<noteq> None) rs) else 0)" by simp
qed

section \<open>The figure shown\<close>

lemma foldl_flags:
  assumes "length r = n" "length s = n" "\<forall>(_, a) \<in> set es. pa_target_object a < n"
  shows "(case foldl (flag_action plan) (r, s) es of (r', s') \<Rightarrow>
    length r' = n \<and> length s' = n
    \<and> (\<forall>k < n. r' ! k \<longleftrightarrow> r ! k \<or> (\<exists>(i, a) \<in> set es. \<not> is_set_aside plan i \<and> pa_target_object a = k))
    \<and> (\<forall>k < n. s' ! k \<longleftrightarrow> s ! k \<or> (\<exists>(i, a) \<in> set es. is_set_aside plan i \<and> pa_target_object a = k)))"
  using assms
proof (induction es arbitrary: r s)
  case (Cons ia es)
  obtain i a where ia: "ia = (i, a)" by (cases ia)
  have t: "pa_target_object a < n" and es: "\<forall>(_, a) \<in> set es. pa_target_object a < n"
    using Cons.prems(3) by (auto simp: ia)
  show ?case
  proof (cases "is_set_aside plan i")
    case True
    have "length (s[pa_target_object a := True]) = n" using Cons.prems(2) by simp
    from Cons.IH [OF Cons.prems(1) this es] True t Cons.prems(2) show ?thesis
      by (auto simp: ia flag_action_def nth_list_update split: prod.splits)
  next
    case False
    have "length (r[pa_target_object a := True]) = n" using Cons.prems(1) by simp
    from Cons.IH [OF this Cons.prems(2) es] False t Cons.prems(1) show ?thesis
      by (auto simp: ia flag_action_def nth_list_update split: prod.splits)
  qed
qed simp

text \<open>An action of the object is set aside; an action of it still runs.\<close>

definition stays_at :: "action_plan \<Rightarrow> nat \<Rightarrow> bool" where
  "stays_at plan k \<longleftrightarrow>
     (\<exists>i < length (ap_actions plan). is_set_aside plan i \<and> pa_target_object (ap_actions plan ! i) = k)"

definition removed_at :: "action_plan \<Rightarrow> nat \<Rightarrow> bool" where
  "removed_at plan k \<longleftrightarrow>
     (\<exists>i < length (ap_actions plan). \<not> is_set_aside plan i \<and> pa_target_object (ap_actions plan ! i) = k)"

lemma object_flags_spec:
  assumes "\<forall>a \<in> set (ap_actions plan). pa_target_object a < length (ap_objects plan)"
  shows "object_flags plan =
    (map (removed_at plan) [0..<length (ap_objects plan)], map (stays_at plan) [0..<length (ap_objects plan)])"
proof -
  let ?n = "length (ap_objects plan)" and ?es = "enumerate 0 (ap_actions plan)"
  obtain r s where rs: "object_flags plan = (r, s)" by (cases "object_flags plan")
  have e: "(\<exists>(i, a) \<in> set ?es. P i \<and> pa_target_object a = k) \<longleftrightarrow>
      (\<exists>i < length (ap_actions plan). P i \<and> pa_target_object (ap_actions plan ! i) = k)" for P k
    by (auto simp: in_set_enumerate_eq)
  have "\<forall>(_, a) \<in> set ?es. pa_target_object a < ?n"
    using assms by (auto simp: in_set_enumerate_eq)
  from foldl_flags [OF _ _ this, of "replicate ?n False" "replicate ?n False" plan] rs
  have "length r = ?n" "length s = ?n" "\<forall>k < ?n. r ! k = removed_at plan k" "\<forall>k < ?n. s ! k = stays_at plan k"
    by (auto simp: object_flags_def e removed_at_def stays_at_def)
  then show ?thesis unfolding rs by (auto intro: nth_equalityI)
qed

definition bytes_at :: "planned_object list \<Rightarrow> (nat \<Rightarrow> bool) \<Rightarrow> nat" where
  "bytes_at objs P = bytes_of (map ((!) objs) (filter P [0..<length objs]))"

lemma bytes_at_sum: "bytes_at objs P = (\<Sum>k < length objs. if P k then unat (key_size (po_key (objs ! k))) else 0)"
proof -
  have "sum_list (map f (filter P xs)) = sum_list (map (\<lambda>k. if P k then f k else 0) xs)"
    for f :: "nat \<Rightarrow> nat" and xs by (induction xs) auto
  then show ?thesis
    by (simp add: bytes_at_def bytes_of_def comp_def sum_list_distinct_conv_sum_set atLeast0LessThan)
qed

lemma bytes_of_filter: "bytes_of (filter Q objs) = bytes_at objs (\<lambda>k. Q (objs ! k))"
proof -
  have "filter Q objs = map ((!) objs) (filter (\<lambda>k. Q (objs ! k)) [0..<length objs])"
    by (metis filter_map map_nth comp_def filter_cong)
  then show ?thesis by (simp add: bytes_at_def)
qed

lemma bytes_at_mono: "(\<And>k. k < length objs \<Longrightarrow> P k \<Longrightarrow> Q k) \<Longrightarrow> bytes_at objs P \<le> bytes_at objs Q"
  unfolding bytes_at_sum by (rule sum_mono) auto

lemma for_fresh_scan_fits:
  assumes "\<forall>e \<in> set es. est_state e \<noteq> StUnknown"
    and "sum_list (map (unat \<circ> est_ceiling) es) < 2 ^ 63"
    and "sum_list (map (unat \<circ> est_guaranteed) es) < 2 ^ 64"
  shows "\<exists>e. for_fresh_scan es = Inr e"
proof -
  let ?g = "sum_list (map (unat \<circ> est_guaranteed) es)" and ?c = "sum_list (map (unat \<circ> est_ceiling) es)"
  let ?e = "\<lparr>est_state = (if \<exists>e \<in> set es. est_state e = StUpperBound then StUpperBound else StExact),
    est_guaranteed = of_nat ?g, est_ceiling = of_nat ?c\<rparr>"
  have "unat (est_ceiling ?e) = ?c"
    using assms(2) by (simp only: reclaim_estimate.simps) (rule unat_of_nat_u64, simp)
  moreover have "unat (est_guaranteed ?e) = ?g"
    using assms(3) by (simp only: reclaim_estimate.simps) (rule unat_of_nat_u64)
  ultimately have "for_fresh_scan es = Inr ?e"
    using assms(2) by (subst for_fresh_scan_trusted [OF assms(1)]) simp
  then show ?thesis by blast
qed

lemma figures_sums:
  assumes "length stays = length objs"
  shows "sum_list (map (unat \<circ> est_guaranteed) (map2 (\<lambda>obj stay. if stay then exact 0 else object_estimate obj) objs stays))
      = bytes_at objs (\<lambda>k. fully_released (objs ! k) \<and> \<not> stays ! k)"
    and "sum_list (map (unat \<circ> est_ceiling) (map2 (\<lambda>obj stay. if stay then exact 0 else object_estimate obj) objs stays))
      = bytes_at objs (\<lambda>k. released (objs ! k) \<and> \<not> stays ! k)"
proof -
  have s: "sum_list (map f (map2 h objs stays)) = (\<Sum>k < length objs. f (h (objs ! k) (stays ! k)))"
    for f :: "reclaim_estimate \<Rightarrow> nat" and h
    using assms by (simp add: sum_list_sum_nth atLeast0LessThan)
  have c: "unat (est_ceiling (object_estimate obj)) = (if released obj then unat (key_size (po_key obj)) else 0)" for obj
    by (auto simp: object_estimate_def released_def exact_def upper_bound_def word_gt_0)
  show "sum_list (map (unat \<circ> est_guaranteed) (map2 (\<lambda>obj stay. if stay then exact 0 else object_estimate obj) objs stays))
      = bytes_at objs (\<lambda>k. fully_released (objs ! k) \<and> \<not> stays ! k)"
    unfolding s bytes_at_sum by (rule sum.cong) (auto simp: object_estimate_guaranteed exact_def)
  show "sum_list (map (unat \<circ> est_ceiling) (map2 (\<lambda>obj stay. if stay then exact 0 else object_estimate obj) objs stays))
      = bytes_at objs (\<lambda>k. released (objs ! k) \<and> \<not> stays ! k)"
    unfolding s bytes_at_sum by (rule sum.cong) (auto simp: c exact_def)
qed

lemma runnable_figure_spec:
  assumes sp: "plan_spec scan_id gs parts plan"
    and plan': "plan' = with_unrunnable plan (unrunnable_new rs)"
  shows "let e = ps_estimate (runnable_summary plan'); objs = ap_objects plan in
    est_state e \<noteq> StUnknown
    \<and> unat (est_guaranteed e) = bytes_at objs (\<lambda>k. fully_released (objs ! k) \<and> \<not> stays_at plan' k)
    \<and> unat (est_ceiling e) = bytes_at objs (\<lambda>k. released (objs ! k) \<and> \<not> stays_at plan' k)
    \<and> est_guaranteed e \<le> est_guaranteed (ps_estimate (ap_summary plan))"
proof (cases "un_count (ap_unrunnable plan') = 0")
  case True
  have none: "\<not> is_set_aside plan' i" for i
    using True by (auto simp: plan' is_set_aside_def reason_at_def with_unrunnable_def unrunnable_new_def
        no_reading_def filter_empty_conv split: if_splits)
  then have "\<not> stays_at plan' k" for k by (simp add: stays_at_def)
  moreover have "ps_estimate (runnable_summary plan') = ps_estimate (ap_summary plan)"
    using True by (simp add: runnable_summary_def plan' with_unrunnable_def)
  ultimately show ?thesis using plan_bytes_spec [OF sp] by (simp add: Let_def bytes_of_filter)
next
  case False
  let ?objs = "ap_objects plan"
  let ?stays = "map (stays_at plan') [0..<length ?objs]"
  let ?figs = "map2 (\<lambda>obj stay. if stay then exact 0 else object_estimate obj) ?objs ?stays"
  have targets: "\<forall>a \<in> set (ap_actions plan'). pa_target_object a < length (ap_objects plan')"
  proof
    fix a assume "a \<in> set (ap_actions plan')"
    then have "a \<in> set (ap_actions plan)" by (simp add: plan' with_unrunnable_def)
    from plan_actions [OF sp this] obtain j where j: "j < length gs" "a \<in> set (gp_actions (parts ! j))"
      "part_spec j (start_of parts j) (gs ! j) (parts ! j)" by blast
    from part_actions [OF j(3,2)] obtain i where "i < length (gp_objects (parts ! j))"
      "pa_target_object a = start_of parts j + i" by (auto simp: action_for_def)
    with plan_objects(1) [OF sp j(1)] show "pa_target_object a < length (ap_objects plan')"
      by (simp add: plan' with_unrunnable_def)
  qed
  have objs: "ap_objects plan' = ?objs" by (simp add: plan' with_unrunnable_def)
  have est: "ps_estimate (runnable_summary plan') = (case for_fresh_scan ?figs of Inl _ \<Rightarrow> unknown | Inr e \<Rightarrow> e)"
    using False by (simp add: runnable_summary_def object_flags_spec [OF targets] Let_def objs)
  have trusted: "\<forall>e \<in> set ?figs. est_state e \<noteq> StUnknown"
    by (auto simp: object_estimate_trusted exact_def set_zip)
  have len: "length ?stays = length ?objs" by simp
  have g: "sum_list (map (unat \<circ> est_guaranteed) ?figs) = bytes_at ?objs (\<lambda>k. fully_released (?objs ! k) \<and> \<not> stays_at plan' k)"
    unfolding figures_sums(1) [OF len] bytes_at_sum by (rule sum.cong) auto
  have c: "sum_list (map (unat \<circ> est_ceiling) ?figs) = bytes_at ?objs (\<lambda>k. released (?objs ! k) \<and> \<not> stays_at plan' k)"
    unfolding figures_sums(2) [OF len] bytes_at_sum by (rule sum.cong) auto
  have old: "unat (est_guaranteed (ps_estimate (ap_summary plan))) = bytes_at ?objs (\<lambda>k. fully_released (?objs ! k))"
    "bytes_at ?objs (\<lambda>k. released (?objs ! k)) < 2 ^ 63"
    using plan_bytes_spec [OF sp] by (simp_all add: Let_def bytes_of_filter)
  have gle: "bytes_at ?objs (\<lambda>k. fully_released (?objs ! k) \<and> \<not> stays_at plan' k) \<le> bytes_at ?objs (\<lambda>k. fully_released (?objs ! k))"
    and cle: "bytes_at ?objs (\<lambda>k. released (?objs ! k) \<and> \<not> stays_at plan' k) \<le> bytes_at ?objs (\<lambda>k. released (?objs ! k))"
    by (auto intro: bytes_at_mono)
  have "sum_list (map (unat \<circ> est_ceiling) ?figs) < 2 ^ 63"
    unfolding c using cle old(2) by (rule le_less_trans)
  moreover have "sum_list (map (unat \<circ> est_guaranteed) ?figs) < 2 ^ 64"
    unfolding g using gle unat_u64_less unfolding old(1) [symmetric] by (rule le_less_trans)
  ultimately obtain e where e: "for_fresh_scan ?figs = Inr e"
    using for_fresh_scan_fits [OF trusted] by blast
  note f = for_fresh_scan_trusted [OF trusted, THEN iffD1, OF e]
  have "unat (est_guaranteed e) \<le> unat (est_guaranteed (ps_estimate (ap_summary plan)))"
    unfolding old(1) using f g gle by simp
  then have "est_guaranteed e \<le> est_guaranteed (ps_estimate (ap_summary plan))"
    by (simp add: word_le_nat_alt)
  with e est f g c show ?thesis by (simp add: Let_def)
qed

text \<open>
  With actions set aside, the figure a confirmation shows is of what can still run: it
  guarantees the bytes of exactly the fully released allocations none of whose actions is set aside,
  its ceiling is formed the same way, it never falls back to unknown, and it never promises more than
  the plan did.
\<close>

theorem runnable_figure:
  assumes "try_new scan_id input = Inr plan" and "plan' = with_unrunnable plan (unrunnable_new rs)"
  shows "let e = ps_estimate (runnable_summary plan'); objs = ap_objects plan in
    est_state e \<noteq> StUnknown
    \<and> unat (est_guaranteed e) = bytes_at objs (\<lambda>k. fully_released (objs ! k) \<and> \<not> stays_at plan' k)
    \<and> unat (est_ceiling e) = bytes_at objs (\<lambda>k. released (objs ! k) \<and> \<not> stays_at plan' k)
    \<and> est_guaranteed e \<le> est_guaranteed (ps_estimate (ap_summary plan))"
  by (rule try_new_Inr [OF assms(1)]) (rule runnable_figure_spec [OF _ assms(2)])

definition sample_read :: action_plan where
  "sample_read = with_unrunnable sample_plan (unrunnable_new [Some SetAside, None])"

theorem runnable_figure_witness:
  "ps_estimate (runnable_summary sample_read) = \<lparr>est_state = StUpperBound, est_guaranteed = 0, est_ceiling = 100\<rparr>
   \<and> bytes_at (ap_objects sample_plan) (\<lambda>k. fully_released (ap_objects sample_plan ! k) \<and> \<not> stays_at sample_read k) = 0"
proof -
  have e: "ps_estimate (runnable_summary sample_read) = \<lparr>est_state = StUpperBound, est_guaranteed = 0, est_ceiling = 100\<rparr>"
    unfolding sample_read_def sample_plan_def by code_simp
  note f = runnable_figure [OF sample_accepted sample_read_def, unfolded Let_def e reclaim_estimate.simps,
      THEN conjunct2, THEN conjunct1, symmetric]
  show ?thesis
  proof
    show "bytes_at (ap_objects sample_plan) (\<lambda>k. fully_released (ap_objects sample_plan ! k) \<and> \<not> stays_at sample_read k) = 0"
      unfolding f by (rule unsigned_0)
  qed (rule e)
qed

section \<open>The marks left\<close>

lemma marks_of_members:
  "map (\<lambda>i. map m_path (gi_members g) ! i) (marks_of g) = map m_path (filter (\<lambda>m. m_mark m \<noteq> None) (gi_members g))"
proof -
  have "map (\<lambda>i. map m_path (gi_members g) ! i) (marks_of g)
      = map m_path (map snd (filter (\<lambda>(_, m). m_mark m \<noteq> None) (enumerate 0 (gi_members g))))"
    unfolding marks_of_def by (auto simp: in_set_enumerate_eq)
  moreover have "map snd (filter (\<lambda>(_, m). m_mark m \<noteq> None) (enumerate n ms)) = filter (\<lambda>m. m_mark m \<noteq> None) ms"
    for n and ms :: "member list" by (induction ms arbitrary: n) auto
  ultimately show ?thesis by (simp only:)
qed

lemma spent_of_plan:
  assumes "plan_spec scan_id gs parts plan" and "j < length gs"
  shows "spent_of plan j = map m_path (filter (\<lambda>m. m_mark m \<noteq> None) (gi_members (gs ! j)))"
proof -
  have w: "map gw_members (pw_groups (ap_witness plan)) = map (map m_path \<circ> gi_members) gs"
    and m: "ap_group_marks plan = map marks_of gs"
    using assms(1) by (simp_all add: plan_spec_def)
  from arg_cong [OF w, of length] have "j < length (pw_groups (ap_witness plan))" using assms(2) by simp
  then have "gw_members (pw_groups (ap_witness plan) ! j) = map m_path (gi_members (gs ! j))"
    using arg_cong [OF w, of "\<lambda>l. l ! j"] assms(2) by simp
  then show ?thesis
    using assms(2) marks_of_members [of "gs ! j"] by (simp add: spent_of_def m)
qed

text \<open>The groups some action of which ran.\<close>

definition group_changed :: "action_plan \<Rightarrow> bool list \<Rightarrow> nat \<Rightarrow> bool" where
  "group_changed plan went j \<longleftrightarrow>
     (\<exists>i < length (ap_actions plan). ran_at went i \<and> pa_group (ap_actions plan ! i) = j)"

lemma changed_groups_iff: "j \<in> set (changed_groups plan went) \<longleftrightarrow> group_changed plan went j"
  unfolding changed_groups_def group_changed_def by (force simp: in_set_enumerate_eq image_iff)

lemma action_group:
  assumes "plan_spec scan_id gs parts plan" and "a \<in> set (ap_actions plan)"
  shows "pa_group a < length gs"
proof -
  from plan_actions [OF assms] obtain j where "j < length gs" "a \<in> set (gp_actions (parts ! j))"
    "part_spec j (start_of parts j) (gs ! j) (parts ! j)" by blast
  then show ?thesis using part_actions by (metis action_for_def)
qed

lemma distinct_concat_map:
  assumes "distinct js" and "\<And>j. j \<in> set js \<Longrightarrow> distinct (f j)"
    and "\<And>j k. j \<in> set js \<Longrightarrow> k \<in> set js \<Longrightarrow> j \<noteq> k \<Longrightarrow> set (f j) \<inter> set (f k) = {}"
  shows "distinct (concat (map f js))"
  using assms by (induction js) fastforce+

lemma distinct_concat_disjoint:
  assumes "distinct (concat xss)" and "j < length xss" "k < length xss" "j \<noteq> k"
  shows "set (xss ! j) \<inter> set (xss ! k) = {}"
  using assms
proof (induction xss arbitrary: j k)
  case (Cons xs xss)
  have "set xs \<inter> set (xss ! l) = {}" if "l < length xss" for l
    using Cons.prems(1) that nth_mem by fastforce
  then show ?case
    using Cons by (cases j; cases k) auto
qed simp

lemma split_counts:
  "length (filter (\<lambda>(_, a). pa_group a \<notin> S) es) + length (filter (\<lambda>(_, a). pa_group a \<in> S) es) = length es"
  by (induction es) auto

text \<open>
  Claim C7. A batch spends exactly the marks of the groups it changed: a path loses its mark just when
  it was marked and belongs to a group some action of which ran, no path is listed twice, and every
  action is counted once, as one that ran, as left with its mark or as left without it.
\<close>

theorem settle_marks_exact:
  assumes "try_new scan_id input = Inr plan"
  shows "set (ms_spent (settle_marks plan went)) =
      {m_path m | m j. j < length (normalise input) \<and> group_changed plan went j
         \<and> m \<in> set (gi_members (normalise input ! j)) \<and> m_mark m \<noteq> None}
    \<and> distinct (ms_spent (settle_marks plan went))
    \<and> ms_left_marked (settle_marks plan went) + ms_left_unmarked (settle_marks plan went)
      + length (filter (ran_at went) [0..<length (ap_actions plan)]) = length (ap_actions plan)"
proof (intro conjI)
  let ?gs = "normalise input"
  from try_new_Inr [OF assms] obtain parts where sp: "plan_spec scan_id ?gs parts plan"
    and d: "distinct (all_paths ?gs)" by metis
  have lt: "j < length ?gs" if "group_changed plan went j" for j
    using that action_group [OF sp] by (auto simp: group_changed_def)
  show "set (ms_spent (settle_marks plan went)) =
      {m_path m | m j. j < length ?gs \<and> group_changed plan went j
         \<and> m \<in> set (gi_members (?gs ! j)) \<and> m_mark m \<noteq> None}"
    using lt by (force simp: settle_marks_def Let_def changed_groups_iff spent_of_plan [OF sp])
  have ds: "distinct (map m_path (concat (map gi_members ?gs)))"
    using d by (simp add: all_paths_def map_concat comp_def)
  have "distinct (concat (map (spent_of plan) (changed_groups plan went)))"
  proof (rule distinct_concat_map)
    show "distinct (changed_groups plan went)" by (simp add: changed_groups_def)
    fix j assume "j \<in> set (changed_groups plan went)"
    then have j: "j < length ?gs" using lt by (simp add: changed_groups_iff)
    then have sub: "set (spent_of plan k) \<subseteq> set (map (map m_path \<circ> gi_members) ?gs ! k)"
      if "k < length ?gs" for k using that by (auto simp: spent_of_plan [OF sp])
    have "distinct (map m_path (gi_members (?gs ! j)))"
      using d j by (simp add: all_paths_def distinct_concat_iff)
    then show "distinct (spent_of plan j)"
      using j by (simp add: spent_of_plan [OF sp] distinct_map_filter)
    fix k assume "k \<in> set (changed_groups plan went)" "j \<noteq> k"
    then have k: "k < length ?gs" "j \<noteq> k" using lt by (simp_all add: changed_groups_iff)
    from distinct_concat_disjoint [OF d [unfolded all_paths_def], of j k] j k sub [OF j] sub [OF k(1)]
    show "set (spent_of plan j) \<inter> set (spent_of plan k) = {}" by auto
  qed
  then show "distinct (ms_spent (settle_marks plan went))" by (simp add: settle_marks_def Let_def)
  have "ms_left_marked (settle_marks plan went) + ms_left_unmarked (settle_marks plan went)
      = length (filter (\<lambda>(i, _). \<not> ran_at went i) (enumerate 0 (ap_actions plan)))"
    unfolding settle_marks_def Let_def mark_settlement.simps split_counts ..
  also have "\<dots> = length (filter (\<lambda>i. \<not> ran_at went i) [0..<length (ap_actions plan)])"
    by (subst length_filter_fst) simp
  finally show "ms_left_marked (settle_marks plan went) + ms_left_unmarked (settle_marks plan went)
      + length (filter (ran_at went) [0..<length (ap_actions plan)]) = length (ap_actions plan)"
    using sum_length_filter_compl [of "ran_at went" "[0..<length (ap_actions plan)]"] by simp
qed

theorem settle_marks_exact_witness:
  "set (ms_spent (settle_marks sample_plan [True])) =
      {m_path m | m j. j < length (normalise sample_input) \<and> group_changed sample_plan [True] j
         \<and> m \<in> set (gi_members (normalise sample_input ! j)) \<and> m_mark m \<noteq> None}
   \<and> length (ms_spent (settle_marks sample_plan [True])) = 4
   \<and> ms_left_unmarked (settle_marks sample_plan [True]) = 1"
proof -
  have c: "length (ms_spent (settle_marks sample_plan [True])) = 4"
    "ms_left_unmarked (settle_marks sample_plan [True]) = 1"
    unfolding sample_plan_def by code_simp+
  from settle_marks_exact [OF sample_accepted, of "[True]", THEN conjunct1] c show ?thesis by (intro conjI)
qed

end
