(* ===== verification/Ledger.thy ===== *)
theory Ledger
  imports Plan_Reading
begin

text \<open>
  The plan against the disk, in \<open>src/src/model/plan.rs\<close>: \<open>live_identity\<close>, the whole-plan
  \<open>preflight\<close> and the \<open>RuntimeLedger\<close> the batch drives. A disk is what \<open>symlink_metadata\<close>
  answers for each path at one moment; each reading is one application of it, so a later reading of
  the same path may be made on another disk.
\<close>

section \<open>Reading a path\<close>

record file_stat =
  fs_symlink :: bool
  fs_live :: live_identity

type_synonym disk = "path \<Rightarrow> file_stat option"

definition live_identity_of :: "disk \<Rightarrow> path \<Rightarrow> plan_refusal + live_identity" where
  "live_identity_of disk p =
     (case disk p of
        None \<Rightarrow> Inl (Vanished p)
      | Some st \<Rightarrow> if fs_symlink st then Inl (Symlink p) else Inr (fs_live st))"

definition drift_between :: "live_identity \<Rightarrow> live_identity \<Rightarrow> string option" where
  "drift_between expected live = first_failing
     [(''device'', li_device expected = li_device live),
      (''inode'', li_inode expected = li_inode live),
      (''size'', li_size expected = li_size live),
      (''mtime'', li_mtime expected = li_mtime live),
      (''mtime_nsec'', li_mtime_nsec expected = li_mtime_nsec live),
      (''ctime'', li_ctime_sec expected = li_ctime_sec live),
      (''ctime_nsec'', li_ctime_nsec expected = li_ctime_nsec live),
      (''link count'', li_nlink expected = li_nlink live)]"

definition replace_path :: "path list \<Rightarrow> path \<Rightarrow> path \<Rightarrow> path list" where
  "replace_path paths from to =
     (case position (\<lambda>p. p = from) paths of Some i \<Rightarrow> paths[i := to] | None \<Rightarrow> paths @ [to])"

section \<open>The whole-plan preflight\<close>

record object_state =
  os_identity :: live_identity
  os_paths :: "path list"
  os_settled :: bool

definition read_member ::
  "disk \<Rightarrow> planned_object \<Rightarrow> live_identity option \<Rightarrow> path \<Rightarrow> plan_refusal + live_identity option" where
  "read_member disk obj _ p =
     rbind (live_identity_of disk p) (\<lambda>live.
     case first_drift (po_key obj) live (po_links obj) of
       Some field \<Rightarrow> Inl (Drifted p field)
     | None \<Rightarrow> Inr (Some live))"

definition read_object :: "disk \<Rightarrow> planned_object \<Rightarrow> plan_refusal + object_state" where
  "read_object disk obj =
     rbind (rfold (read_member disk obj) None (po_members obj)) (\<lambda>identity.
     rbind (ok_or (MissingKeeper (po_hash obj)) identity) (\<lambda>live.
     if li_nlink live < observed_links obj \<or> observed_links obj < po_covered_links obj
       then Inl (ImpossibleManifest (po_representative obj) (observed_links obj) (li_nlink live))
     else Inr \<lparr>os_identity = live, os_paths = po_members obj, os_settled = True\<rparr>))"

definition same_allocation :: "live_identity \<Rightarrow> live_identity \<Rightarrow> bool" where
  "same_allocation a b \<longleftrightarrow> (li_device a, li_inode a) = (li_device b, li_inode b)"

definition check_not_linked :: "object_state list \<Rightarrow> unit \<Rightarrow> plan_action \<Rightarrow> plan_refusal + unit" where
  "check_not_linked objs _ a =
     (if same_allocation (os_identity (objs ! pa_target_object a)) (os_identity (objs ! pa_keeper_object a))
      then Inl (AlreadyLinkedNow (pa_target a) (pa_keeper a)) else Inr ())"

definition preflight :: "disk \<Rightarrow> action_plan \<Rightarrow> plan_refusal + object_state list" where
  "preflight disk plan =
     rbind (rmap (read_object disk) (ap_objects plan)) (\<lambda>objs.
     rbind (rfold (check_not_linked objs) () (ap_actions plan)) (\<lambda>_.
     Inr objs))"

section \<open>The runtime ledger\<close>

type_synonym ledger = "object_state list"

definition entry :: "ledger \<Rightarrow> nat \<Rightarrow> plan_refusal + object_state" where
  "entry ledger i =
     ok_or (Arithmetic (NoSuchAllocation i)) (if i < length ledger then Some (ledger ! i) else None)"

definition check_path :: "disk \<Rightarrow> live_identity \<Rightarrow> unit \<Rightarrow> path \<Rightarrow> plan_refusal + unit" where
  "check_path disk identity _ p =
     rbind (live_identity_of disk p) (\<lambda>live.
     case drift_between identity live of
       Some field \<Rightarrow> Inl (ExternalChange p field)
     | None \<Rightarrow> Inr ())"

definition check :: "disk \<Rightarrow> ledger \<Rightarrow> nat \<Rightarrow> plan_refusal + unit" where
  "check disk ledger i =
     rbind (entry ledger i) (\<lambda>e.
     if \<not> os_settled e then Inl (UnsettledObject (case os_paths e of [] \<Rightarrow> [] | p # _ \<Rightarrow> p))
     else rfold (check_path disk (os_identity e)) () (os_paths e))"

text \<open>The seven other fields as the ledger has them, \<open>ctime\<close> as the disk has it.\<close>

definition adopt_ctime :: "live_identity \<Rightarrow> live_identity \<Rightarrow> live_identity" where
  "adopt_ctime before live =
     before\<lparr>li_ctime_sec := li_ctime_sec live, li_ctime_nsec := li_ctime_nsec live\<rparr>"

definition quarantined :: "disk \<Rightarrow> ledger \<Rightarrow> nat \<Rightarrow> path \<Rightarrow> path \<Rightarrow> plan_refusal + ledger" where
  "quarantined disk ledger i from to =
     rbind (entry ledger i) (\<lambda>e.
     rbind (live_identity_of disk to) (\<lambda>live.
     case drift_between (adopt_ctime (os_identity e) live) live of
       Some field \<Rightarrow> Inl (ExternalChange to field)
     | None \<Rightarrow> Inr (ledger[i := e\<lparr>os_identity := live, os_paths := replace_path (os_paths e) from to\<rparr>])))"

definition settled :: "disk \<Rightarrow> ledger \<Rightarrow> nat \<Rightarrow> path \<Rightarrow> plan_refusal + ledger" where
  "settled disk ledger i p =
     rbind (entry ledger i) (\<lambda>e.
     rbind (live_identity_of disk p) (\<lambda>live.
     case drift_between (adopt_ctime (os_identity e) live) live of
       Some field \<Rightarrow> Inl (ExternalChange p field)
     | None \<Rightarrow> Inr (ledger[i := e\<lparr>os_identity := live\<rparr>])))"

definition poison :: "ledger \<Rightarrow> nat \<Rightarrow> ledger" where
  "poison ledger i = (if i < length ledger then ledger[i := (ledger ! i)\<lparr>os_settled := False\<rparr>] else ledger)"

definition linked :: "disk \<Rightarrow> ledger \<Rightarrow> nat \<Rightarrow> path \<Rightarrow> path \<Rightarrow> plan_refusal + ledger" where
  "linked disk ledger i keeper_path published =
     rbind (entry ledger i) (\<lambda>e.
     rbind (live_identity_of disk keeper_path) (\<lambda>live.
     case drift_between ((adopt_ctime (os_identity e) live)\<lparr>li_nlink := saturating_add (li_nlink (os_identity e)) 1\<rparr>) live of
       Some field \<Rightarrow> Inl (ExternalChange keeper_path field)
     | None \<Rightarrow>
         rbind (live_identity_of disk published) (\<lambda>landed.
         case drift_between live landed of
           Some field \<Rightarrow> Inl (ExternalChange published field)
         | None \<Rightarrow> Inr (ledger[i := e\<lparr>os_identity := live, os_paths := os_paths e @ [published]\<rparr>]))))"

definition clone_fault :: "live_identity \<Rightarrow> live_identity \<Rightarrow> live_identity \<Rightarrow> string option" where
  "clone_fault keeper original identity = first_failing
     [(''inode'', \<not> (same_allocation identity keeper \<or> same_allocation identity original)),
      (''device'', li_device identity = li_device original),
      (''size'', li_size identity = li_size original),
      (''mtime'', li_mtime identity = li_mtime original),
      (''mtime_nsec'', li_mtime_nsec identity = li_mtime_nsec original),
      (''link count'', li_nlink identity = 1)]"

definition cloned :: "disk \<Rightarrow> ledger \<Rightarrow> nat \<Rightarrow> nat \<Rightarrow> path \<Rightarrow> path \<Rightarrow> plan_refusal + ledger" where
  "cloned disk ledger keeper_object target_object keeper_path published =
     rbind (entry ledger keeper_object) (\<lambda>keeper.
     rbind (entry ledger target_object) (\<lambda>original.
     rbind (live_identity_of disk keeper_path) (\<lambda>live.
     case drift_between (os_identity keeper) live of
       Some field \<Rightarrow> Inl (ExternalChange keeper_path field)
     | None \<Rightarrow>
         rbind (live_identity_of disk published) (\<lambda>identity.
         case clone_fault (os_identity keeper) (os_identity original) identity of
           Some field \<Rightarrow> Inl (ExternalChange published field)
         | None \<Rightarrow> Inr (ledger @ [\<lparr>os_identity = identity, os_paths = [published], os_settled = True\<rparr>])))))"

section \<open>What the readings establish\<close>

text \<open>The path is a file with this identity.\<close>

definition stands :: "disk \<Rightarrow> path \<Rightarrow> live_identity \<Rightarrow> bool" where
  "stands disk p live \<longleftrightarrow> (\<exists>st. disk p = Some st \<and> \<not> fs_symlink st \<and> fs_live st = live)"

lemma live_identity_of_Inr [result_simps]:
  "live_identity_of disk p = Inr live \<longleftrightarrow> stands disk p live"
  by (auto simp: live_identity_of_def stands_def split: option.splits)

lemma stands_unique: "stands disk p a \<Longrightarrow> stands disk p b \<Longrightarrow> a = b"
  by (auto simp: stands_def)

lemma drift_between_None [simp]: "drift_between a b = None \<longleftrightarrow> a = b"
  by (cases a, cases b) (auto simp: drift_between_def)

lemma entry_Inr [result_simps]: "entry ledger i = Inr e \<longleftrightarrow> i < length ledger \<and> e = ledger ! i"
  by (auto simp: entry_def result_simps)

text \<open>The identity a plan's object must still have.\<close>

definition matches_key :: "planned_object \<Rightarrow> live_identity \<Rightarrow> bool" where
  "matches_key obj live \<longleftrightarrow> first_drift (po_key obj) live (po_links obj) = None"

lemma matches_key_unique:
  "matches_key obj a \<Longrightarrow> matches_key obj b \<Longrightarrow> a = b"
  by (cases a, cases b) (auto simp: matches_key_def first_drift_None_iff)

lemma read_members_Inr:
  "rfold (read_member disk obj) i0 ps = Inr i \<longleftrightarrow>
     (if ps = [] then i = i0
      else \<exists>live. i = Some live \<and> matches_key obj live \<and> (\<forall>p \<in> set ps. stands disk p live))"
proof (induction ps arbitrary: i0)
  case (Cons p ps)
  have step: "read_member disk obj i0 p = Inr s \<longleftrightarrow> (\<exists>live. s = Some live \<and> stands disk p live \<and> matches_key obj live)" for s
    by (auto simp: read_member_def result_simps matches_key_def split: option.splits)
  show ?case
    using matches_key_unique by (auto simp: rbind_eq_Inr step Cons.IH)
qed auto

lemma read_object_Inr:
  "read_object disk obj = Inr st \<longleftrightarrow>
     po_members obj \<noteq> [] \<and> matches_key obj (os_identity st)
     \<and> (\<forall>p \<in> set (po_members obj). stands disk p (os_identity st))
     \<and> observed_links obj \<le> po_links obj \<and> po_covered_links obj \<le> observed_links obj
     \<and> os_paths st = po_members obj \<and> os_settled st"
proof -
  have nlink: "matches_key obj live \<Longrightarrow> li_nlink live = po_links obj" for live
    by (simp add: matches_key_def first_drift_None_iff)
  have "read_object disk obj = Inr st \<longleftrightarrow> (\<exists>live. po_members obj \<noteq> [] \<and> matches_key obj live
      \<and> (\<forall>p \<in> set (po_members obj). stands disk p live)
      \<and> observed_links obj \<le> li_nlink live \<and> po_covered_links obj \<le> observed_links obj
      \<and> st = \<lparr>os_identity = live, os_paths = po_members obj, os_settled = True\<rparr>)"
    by (auto simp: read_object_def rbind_eq_Inr ok_or_eq_Inr read_members_Inr not_less split: if_splits)
  also have "\<dots> \<longleftrightarrow> po_members obj \<noteq> [] \<and> matches_key obj (os_identity st)
      \<and> (\<forall>p \<in> set (po_members obj). stands disk p (os_identity st))
      \<and> observed_links obj \<le> po_links obj \<and> po_covered_links obj \<le> observed_links obj
      \<and> os_paths st = po_members obj \<and> os_settled st"
    by (cases st) (auto simp: nlink)
  finally show ?thesis .
qed

lemma check_not_linked_all:
  "rfold (check_not_linked objs) () as = Inr u \<longleftrightarrow>
     (\<forall>a \<in> set as. \<not> same_allocation (os_identity (objs ! pa_target_object a)) (os_identity (objs ! pa_keeper_object a)))"
  by (induction as) (auto simp: rbind_eq_Inr check_not_linked_def split: if_splits)

text \<open>
  Claim C6. What a passed preflight means, exactly: every persisted path of every allocation of the
  plan is a plain file whose eight fields are the recorded ones, the paths the plan removes are no more
  than the paths it knows and these no more than the links, and no action's target is its keeper's
  allocation. Nothing else is refused.
\<close>

theorem preflight_exact:
  "preflight disk plan = Inr ledger \<longleftrightarrow>
     list_all2 (\<lambda>obj st. po_members obj \<noteq> [] \<and> matches_key obj (os_identity st)
        \<and> (\<forall>p \<in> set (po_members obj). stands disk p (os_identity st))
        \<and> observed_links obj \<le> po_links obj \<and> po_covered_links obj \<le> observed_links obj
        \<and> os_paths st = po_members obj \<and> os_settled st) (ap_objects plan) ledger
     \<and> (\<forall>a \<in> set (ap_actions plan).
          \<not> same_allocation (os_identity (ledger ! pa_target_object a)) (os_identity (ledger ! pa_keeper_object a)))"
  by (auto simp: preflight_def rbind_eq_Inr rmap_eq_Inr read_object_Inr check_not_linked_all)

definition sample_stat :: "u64 \<Rightarrow> u64 \<Rightarrow> file_stat" where
  "sample_stat inode links =
     \<lparr>fs_symlink = False,
      fs_live = \<lparr>li_device = 1, li_inode = inode, li_size = 100, li_mtime = 5, li_mtime_nsec = 0,
        li_ctime_sec = 6, li_ctime_nsec = 0, li_nlink = links\<rparr>\<rparr>"

definition sample_disk :: disk where
  "sample_disk = map_of
     (map (\<lambda>m. (m_path m, sample_stat (key_inode (m_key m)) (m_links m))) sample_members)"

definition sample_ledger :: ledger where
  "sample_ledger = (case preflight sample_disk sample_plan of Inr l \<Rightarrow> l)"

lemma sample_preflight: "preflight sample_disk sample_plan = Inr sample_ledger"
  unfolding sample_ledger_def sample_plan_def by code_simp

theorem preflight_exact_witness:
  "list_all2 (\<lambda>obj st. matches_key obj (os_identity st)) (ap_objects sample_plan) sample_ledger"
  using preflight_exact [THEN iffD1, OF sample_preflight] by (auto elim: list_all2_mono)

section \<open>The checks of the ledger\<close>

text \<open>One entry describes the disk.\<close>

definition entry_stands :: "disk \<Rightarrow> object_state \<Rightarrow> bool" where
  "entry_stands disk e \<longleftrightarrow> (\<forall>p \<in> set (os_paths e). stands disk p (os_identity e))"

lemma check_paths_Inr:
  "rfold (check_path disk identity) () ps = Inr () \<longleftrightarrow> (\<forall>p \<in> set ps. stands disk p identity)"
proof (induction ps)
  case (Cons p ps)
  have "check_path disk identity () p = Inr () \<longleftrightarrow> stands disk p identity"
    by (auto simp: check_path_def result_simps split: option.splits)
  then show ?case by (auto simp: rbind_eq_Inr Cons.IH)
qed simp

lemma check_Inr [result_simps]:
  "check disk ledger i = Inr u \<longleftrightarrow>
     i < length ledger \<and> os_settled (ledger ! i) \<and> entry_stands disk (ledger ! i)"
  by (auto simp: check_def result_simps check_paths_Inr entry_stands_def split: if_splits)

lemma preflight_entries:
  "preflight disk plan = Inr ledger \<Longrightarrow> i < length ledger \<Longrightarrow>
     os_settled (ledger ! i) \<and> entry_stands disk (ledger ! i)"
  by (auto simp: preflight_def rbind_eq_Inr rmap_eq_Inr read_object_Inr entry_stands_def
      dest: list_all2_nthD2)

lemma adopt_ctime_eq: "adopt_ctime before live = live \<longleftrightarrow> before = live\<lparr>li_ctime_sec := li_ctime_sec before, li_ctime_nsec := li_ctime_nsec before\<rparr>"
  by (cases before, cases live) (auto simp: adopt_ctime_def)

lemma quarantined_Inr [result_simps]:
  "quarantined disk ledger i from to = Inr ledger' \<longleftrightarrow>
     i < length ledger \<and> (\<exists>live. stands disk to live \<and> adopt_ctime (os_identity (ledger ! i)) live = live
       \<and> ledger' = ledger[i := (ledger ! i)\<lparr>os_identity := live,
            os_paths := replace_path (os_paths (ledger ! i)) from to\<rparr>])"
  by (auto simp: quarantined_def result_simps split: option.splits)

lemma settled_Inr [result_simps]:
  "settled disk ledger i p = Inr ledger' \<longleftrightarrow>
     i < length ledger \<and> (\<exists>live. stands disk p live \<and> adopt_ctime (os_identity (ledger ! i)) live = live
       \<and> ledger' = ledger[i := (ledger ! i)\<lparr>os_identity := live\<rparr>])"
  by (auto simp: settled_def result_simps split: option.splits)

lemma linked_Inr [result_simps]:
  "linked disk ledger i kp pub = Inr ledger' \<longleftrightarrow>
     i < length ledger \<and> (\<exists>live. stands disk kp live \<and> stands disk pub live
       \<and> (adopt_ctime (os_identity (ledger ! i)) live)\<lparr>li_nlink := saturating_add (li_nlink (os_identity (ledger ! i))) 1\<rparr> = live
       \<and> ledger' = ledger[i := (ledger ! i)\<lparr>os_identity := live, os_paths := os_paths (ledger ! i) @ [pub]\<rparr>])"
  by (auto simp: linked_def result_simps split: option.splits)

lemma cloned_Inr [result_simps]:
  "cloned disk ledger ko ti kp pub = Inr ledger' \<longleftrightarrow>
     ko < length ledger \<and> ti < length ledger \<and> stands disk kp (os_identity (ledger ! ko))
     \<and> (\<exists>live. stands disk pub live \<and> clone_fault (os_identity (ledger ! ko)) (os_identity (ledger ! ti)) live = None
          \<and> ledger' = ledger @ [\<lparr>os_identity = live, os_paths = [pub], os_settled = True\<rparr>])"
  by (auto simp: cloned_def result_simps split: option.splits)

end
