(* ===== verification/Filesystem.thy ===== *)
theory Filesystem
  imports Ledger
begin

text \<open>
  The file system the actions run on: names for inodes, and the few system calls
  \<open>src/src/actions\<close> makes. Every call happens at a tick of the run; at each tick outsiders may have
  changed the disk, the call may fail with any error, and the clock gives the \<open>ctime\<close> it leaves. A
  call that fails changes nothing. Directories are not entries of the model: what can be missing, full
  or read-only about them is a failure of the call.
\<close>

section \<open>The disk\<close>

text \<open>A device and an inode number.\<close>

datatype inode_id = Inode u64 u64

datatype file_type = RegularFile | SymbolicLink | OtherFile

record inode =
  in_type :: file_type
  in_live :: live_identity
  in_mode :: "32 word"
  in_data :: string

definition in_symlink :: "inode \<Rightarrow> bool" where
  "in_symlink node \<longleftrightarrow> in_type node = SymbolicLink"

record fs =
  fs_names :: "path \<Rightarrow> inode_id option"
  fs_nodes :: "inode_id \<Rightarrow> inode option"

datatype io_error = Os nat | Own string

definition EPERM :: io_error where "EPERM = Os 1"
definition ENOENT :: io_error where "ENOENT = Os 2"
definition EIO :: io_error where "EIO = Os 5"
definition EACCES :: io_error where "EACCES = Os 13"
definition EEXIST :: io_error where "EEXIST = Os 17"
definition EXDEV :: io_error where "EXDEV = Os 18"
definition ENOSPC :: io_error where "ENOSPC = Os 28"
definition EROFS :: io_error where "EROFS = Os 30"
definition ENAMETOOLONG :: io_error where "ENAMETOOLONG = Os 36"
definition EDQUOT :: io_error where "EDQUOT = Os 122"

lemmas errno_defs = EPERM_def ENOENT_def EIO_def EACCES_def EEXIST_def EXDEV_def ENOSPC_def EROFS_def
  ENAMETOOLONG_def EDQUOT_def

text \<open>
  The surroundings of a run: what outsiders do before tick \<open>n\<close>, which call fails and how, the clock,
  what the program refuses to rename because it is its own open database or lock file, and which
  paths are directories.
\<close>

record env =
  ev_outside :: "nat \<Rightarrow> fs \<Rightarrow> fs"
  ev_fault :: "nat \<Rightarrow> io_error option"
  ev_clock :: "nat \<Rightarrow> i64 \<times> i64"
  ev_protected :: "path \<Rightarrow> string option"
  ev_is_dir :: "path \<Rightarrow> bool"

record world =
  w_tick :: nat
  w_fs :: fs

definition syscall ::
  "env \<Rightarrow> (nat \<Rightarrow> fs \<Rightarrow> io_error + 'a \<times> fs) \<Rightarrow> world \<Rightarrow> (io_error + 'a) \<times> world" where
  "syscall env body w =
     (let n = w_tick w; fs = ev_outside env n (w_fs w)
      in case ev_fault env n of
           Some e \<Rightarrow> (Inl e, \<lparr>w_tick = n + 1, w_fs = fs\<rparr>)
         | None \<Rightarrow>
             (case body n fs of
                Inl e \<Rightarrow> (Inl e, \<lparr>w_tick = n + 1, w_fs = fs\<rparr>)
              | Inr (x, fs') \<Rightarrow> (Inr x, \<lparr>w_tick = n + 1, w_fs = fs'\<rparr>)))"

section \<open>The calls\<close>

definition touch :: "i64 \<times> i64 \<Rightarrow> inode \<Rightarrow> inode" where
  "touch c node = node\<lparr>in_live := (in_live node)\<lparr>li_ctime_sec := fst c, li_ctime_nsec := snd c\<rparr>\<rparr>"

definition relink :: "(u64 \<Rightarrow> u64) \<Rightarrow> i64 \<times> i64 \<Rightarrow> inode \<Rightarrow> inode" where
  "relink f c node = touch c (node\<lparr>in_live := (in_live node)\<lparr>li_nlink := f (li_nlink (in_live node))\<rparr>\<rparr>)"

definition change_node :: "inode_id \<Rightarrow> (inode \<Rightarrow> inode) \<Rightarrow> fs \<Rightarrow> fs" where
  "change_node i f fs = fs\<lparr>fs_nodes := (fs_nodes fs)(i := map_option f (fs_nodes fs i))\<rparr>"

definition set_name :: "path \<Rightarrow> inode_id option \<Rightarrow> fs \<Rightarrow> fs" where
  "set_name p x fs = fs\<lparr>fs_names := (fs_names fs)(p := x)\<rparr>"

text \<open>\<open>renameat2\<close> with \<open>RENAME_NOREPLACE\<close>.\<close>

definition k_rename :: "env \<Rightarrow> path \<Rightarrow> path \<Rightarrow> nat \<Rightarrow> fs \<Rightarrow> io_error + unit \<times> fs" where
  "k_rename env from to n fs =
     (case fs_names fs from of
        None \<Rightarrow> Inl ENOENT
      | Some i \<Rightarrow>
          if fs_names fs to \<noteq> None then Inl EEXIST
          else Inr ((), change_node i (touch (ev_clock env n)) (set_name to (Some i) (set_name from None fs))))"

definition k_link :: "env \<Rightarrow> path \<Rightarrow> path \<Rightarrow> nat \<Rightarrow> fs \<Rightarrow> io_error + unit \<times> fs" where
  "k_link env src dst n fs =
     (case fs_names fs src of
        None \<Rightarrow> Inl ENOENT
      | Some i \<Rightarrow>
          if fs_names fs dst \<noteq> None then Inl EEXIST
          else Inr ((), change_node i (relink (\<lambda>l. l + 1) (ev_clock env n)) (set_name dst (Some i) fs)))"

definition k_unlink :: "env \<Rightarrow> path \<Rightarrow> nat \<Rightarrow> fs \<Rightarrow> io_error + unit \<times> fs" where
  "k_unlink env p n fs =
     (case fs_names fs p of
        None \<Rightarrow> Inl ENOENT
      | Some i \<Rightarrow> Inr ((), change_node i (relink (\<lambda>l. l - 1) (ev_clock env n)) (set_name p None fs)))"

definition k_stat :: "path \<Rightarrow> nat \<Rightarrow> fs \<Rightarrow> io_error + inode \<times> fs" where
  "k_stat p n fs =
     (case fs_names fs p of
        None \<Rightarrow> Inl ENOENT
      | Some i \<Rightarrow> (case fs_nodes fs i of None \<Rightarrow> Inl ENOENT | Some node \<Rightarrow> Inr (node, fs)))"

definition k_read :: "path \<Rightarrow> nat \<Rightarrow> fs \<Rightarrow> io_error + string \<times> fs" where
  "k_read p n fs =
     (case fs_names fs p of
        None \<Rightarrow> Inl ENOENT
      | Some i \<Rightarrow>
          (case fs_nodes fs i of
             None \<Rightarrow> Inl ENOENT
           | Some node \<Rightarrow>
               if in_type node \<noteq> RegularFile then Inl (Own ''not a regular file'') else Inr (in_data node, fs)))"

definition hard_link :: "env \<Rightarrow> path \<Rightarrow> path \<Rightarrow> world \<Rightarrow> (io_error + unit) \<times> world" where
  "hard_link env src dst = syscall env (k_link env src dst)"

definition remove_file :: "env \<Rightarrow> path \<Rightarrow> world \<Rightarrow> (io_error + unit) \<times> world" where
  "remove_file env p = syscall env (k_unlink env p)"

definition symlink_metadata :: "env \<Rightarrow> path \<Rightarrow> world \<Rightarrow> (io_error + inode) \<times> world" where
  "symlink_metadata env p = syscall env (k_stat p)"

definition read_file :: "env \<Rightarrow> path \<Rightarrow> world \<Rightarrow> (io_error + string) \<times> world" where
  "read_file env p = syscall env (k_read p)"

text \<open>Directories are not modelled: creating them can only fail.\<close>

definition create_dir_all :: "env \<Rightarrow> path \<Rightarrow> world \<Rightarrow> (io_error + unit) \<times> world" where
  "create_dir_all env p = syscall env (\<lambda>_ fs. Inr ((), fs))"

text \<open>What \<open>live_identity\<close> reads: the disk as it is at this moment.\<close>

definition disk_of :: "fs \<Rightarrow> disk" where
  "disk_of fs p =
     (case fs_names fs p of
        None \<Rightarrow> None
      | Some i \<Rightarrow> map_option (\<lambda>node. \<lparr>fs_symlink = in_symlink node, fs_live = in_live node\<rparr>) (fs_nodes fs i))"

definition look :: "env \<Rightarrow> world \<Rightarrow> disk \<times> world" where
  "look env w =
     (let fs = ev_outside env (w_tick w) (w_fs w) in (disk_of fs, \<lparr>w_tick = w_tick w + 1, w_fs = fs\<rparr>))"

text \<open>\<open>move_file::rename_noreplace\<close>: a NUL in a name and the program's own files are refused first.\<close>

definition has_nul :: "path \<Rightarrow> bool" where
  "has_nul p \<longleftrightarrow> (\<exists>c \<in> set p. case c of Normal n \<Rightarrow> CHR 0x00 \<in> set n | _ \<Rightarrow> False)"

definition rename_noreplace :: "env \<Rightarrow> path \<Rightarrow> path \<Rightarrow> world \<Rightarrow> (io_error + unit) \<times> world" where
  "rename_noreplace env src dest w =
     (if has_nul src \<or> has_nul dest then (Inl (Own ''nul byte in a name''), w)
      else case ev_protected env src of
             Some why \<Rightarrow> (Inl (Own why), w)
           | None \<Rightarrow> syscall env (k_rename env src dest) w)"

section \<open>Nothing is lost\<close>

text \<open>
  Every file with a name outside the scratch names \<open>T\<close> still has one, and its content is untouched.
\<close>

definition kept :: "path set \<Rightarrow> fs \<Rightarrow> fs \<Rightarrow> bool" where
  "kept T fs fs' \<longleftrightarrow>
     (\<forall>p i. p \<notin> T \<and> fs_names fs p = Some i \<longrightarrow> (\<exists>q. q \<notin> T \<and> fs_names fs' q = Some i))
     \<and> (\<forall>i node. fs_nodes fs i = Some node \<longrightarrow>
          (\<exists>node'. fs_nodes fs' i = Some node' \<and> in_data node' = in_data node \<and> in_type node' = in_type node))"

lemma kept_refl [simp]: "kept T fs fs"
  by (auto simp: kept_def)

lemma kept_trans [trans]: "kept T a b \<Longrightarrow> kept T b c \<Longrightarrow> kept T a c"
  unfolding kept_def by (metis (no_types, lifting))

text \<open>Outsiders that do the same: they may create, rename and link, but destroy nothing.\<close>

definition benign :: "path set \<Rightarrow> env \<Rightarrow> bool" where
  "benign T env \<longleftrightarrow> (\<forall>n fs. kept T fs (ev_outside env n fs))"

text \<open>No outsiders at all.\<close>

definition alone :: "env \<Rightarrow> bool" where
  "alone env \<longleftrightarrow> (\<forall>n fs. ev_outside env n fs = fs)"

lemma alone_benign: "alone env \<Longrightarrow> benign T env"
  by (simp add: alone_def benign_def)

lemma syscall_kept:
  assumes "benign T env" and "\<And>n fs x fs'. body n fs = Inr (x, fs') \<Longrightarrow> kept T fs fs'"
  shows "kept T (w_fs w) (w_fs (snd (syscall env body w)))"
  using assms kept_trans
  by (auto simp: syscall_def Let_def benign_def split: option.splits sum.splits) blast

lemma change_node_data:
  "(\<And>node. in_data (f node) = in_data node \<and> in_type (f node) = in_type node) \<Longrightarrow>
     fs_nodes fs j = Some node \<Longrightarrow>
     \<exists>node'. fs_nodes (change_node i f fs) j = Some node' \<and> in_data node' = in_data node \<and> in_type node' = in_type node"
  by (auto simp: change_node_def)

lemma touch_data [simp]: "in_data (touch c node) = in_data node" "in_type (touch c node) = in_type node"
  "in_data (relink f c node) = in_data node" "in_type (relink f c node) = in_type node"
  by (simp_all add: touch_def relink_def)

lemma set_name_simps [simp]:
  "fs_nodes (set_name p x fs) = fs_nodes fs" "fs_names (set_name p x fs) = (fs_names fs)(p := x)"
  "fs_names (change_node i f fs) = fs_names fs"
  by (simp_all add: set_name_def change_node_def)

lemma k_rename_Inr: "k_rename env from to n fs = Inr (x, fs') \<longleftrightarrow>
    (\<exists>i. fs_names fs from = Some i \<and> fs_names fs to = None
       \<and> fs' = change_node i (touch (ev_clock env n)) (set_name to (Some i) (set_name from None fs)))"
  by (auto simp: k_rename_def split: option.splits if_splits)

lemma k_link_Inr: "k_link env src dst n fs = Inr (x, fs') \<longleftrightarrow>
    (\<exists>i. fs_names fs src = Some i \<and> fs_names fs dst = None
       \<and> fs' = change_node i (relink (\<lambda>l. l + 1) (ev_clock env n)) (set_name dst (Some i) fs))"
  by (auto simp: k_link_def split: option.splits if_splits)

lemma keptI:
  assumes "\<And>p i. p \<notin> T \<Longrightarrow> fs_names fs p = Some i \<Longrightarrow> \<exists>q. q \<notin> T \<and> fs_names fs' q = Some i"
    and "fs_nodes fs' = fs_nodes (change_node i f fs)"
    and "\<And>node. in_data (f node) = in_data node \<and> in_type (f node) = in_type node"
  shows "kept T fs fs'"
  unfolding kept_def assms(2) using assms(1) change_node_data [OF assms(3)] by blast

lemma k_rename_kept:
  assumes "k_rename env from to n fs = Inr (x, fs')" and "to \<notin> T \<or> from \<in> T"
  shows "kept T fs fs'"
proof -
  from assms(1) obtain i where i: "fs_names fs from = Some i" "fs_names fs to = None"
    and fs': "fs' = change_node i (touch (ev_clock env n)) (set_name to (Some i) (set_name from None fs))"
    by (auto simp: k_rename_Inr)
  show ?thesis
  proof (rule keptI [where i = i and f = "touch (ev_clock env n)"])
    fix p k assume p: "p \<notin> T" "fs_names fs p = Some k"
    have "fs_names fs' (if p = from then to else p) = Some k" using p i by (auto simp: fs')
    moreover have "(if p = from then to else p) \<notin> T" using p(1) assms(2) by auto
    ultimately show "\<exists>q. q \<notin> T \<and> fs_names fs' q = Some k" by blast
  qed (simp_all add: fs' change_node_def)
qed

lemma k_link_kept:
  assumes "k_link env src dst n fs = Inr (x, fs')"
  shows "kept T fs fs'"
proof -
  from assms obtain i where i: "fs_names fs src = Some i" "fs_names fs dst = None"
    and fs': "fs' = change_node i (relink (\<lambda>l. l + 1) (ev_clock env n)) (set_name dst (Some i) fs)"
    by (auto simp: k_link_Inr)
  show ?thesis
  proof (rule keptI [where i = i and f = "relink (\<lambda>l. l + 1) (ev_clock env n)"])
    fix p k assume p: "p \<notin> T" "fs_names fs p = Some k"
    then have "fs_names fs' p = Some k" using i by (auto simp: fs')
    with p(1) show "\<exists>q. q \<notin> T \<and> fs_names fs' q = Some k" by blast
  qed (simp_all add: fs' change_node_def)
qed

lemma k_unlink_kept: "k_unlink env p n fs = Inr (x, fs') \<Longrightarrow> p \<in> T \<Longrightarrow> kept T fs fs'"
  unfolding kept_def k_unlink_def
  by (auto split: option.splits if_splits simp: change_node_def)

lemma rename_noreplace_kept:
  "benign T env \<Longrightarrow> to \<notin> T \<or> src \<in> T \<Longrightarrow> kept T (w_fs w) (w_fs (snd (rename_noreplace env src to w)))"
  unfolding rename_noreplace_def
  by (auto split: option.splits intro: syscall_kept [OF _ k_rename_kept])

lemma hard_link_kept: "benign T env \<Longrightarrow> kept T (w_fs w) (w_fs (snd (hard_link env src dst w)))"
  unfolding hard_link_def by (rule syscall_kept [OF _ k_link_kept])

lemma remove_file_kept: "benign T env \<Longrightarrow> p \<in> T \<Longrightarrow> kept T (w_fs w) (w_fs (snd (remove_file env p w)))"
  unfolding remove_file_def by (rule syscall_kept [OF _ k_unlink_kept])

lemma symlink_metadata_kept: "benign T env \<Longrightarrow> kept T (w_fs w) (w_fs (snd (symlink_metadata env p w)))"
  unfolding symlink_metadata_def by (rule syscall_kept) (auto simp: k_stat_def split: option.splits)

lemma create_dir_all_kept: "benign T env \<Longrightarrow> kept T (w_fs w) (w_fs (snd (create_dir_all env p w)))"
  unfolding create_dir_all_def by (rule syscall_kept) auto

lemma read_file_kept: "benign T env \<Longrightarrow> kept T (w_fs w) (w_fs (snd (read_file env p w)))"
  unfolding read_file_def by (rule syscall_kept) (auto simp: k_read_def split: option.splits if_splits)

lemma look_kept: "benign T env \<Longrightarrow> kept T (w_fs w) (w_fs (snd (look env w)))"
  by (simp add: look_def Let_def benign_def)

section \<open>Without outsiders\<close>

lemma look_alone: "alone env \<Longrightarrow> look env w = (disk_of (w_fs w), w\<lparr>w_tick := w_tick w + 1\<rparr>)"
  by (cases w) (simp add: look_def alone_def Let_def)

lemma read_file_alone: "alone env \<Longrightarrow> w_fs (snd (read_file env p w)) = w_fs w"
  by (auto simp: read_file_def syscall_def Let_def alone_def k_read_def split: option.splits sum.splits if_splits)

lemma symlink_metadata_alone: "alone env \<Longrightarrow> w_fs (snd (symlink_metadata env p w)) = w_fs w"
  by (auto simp: symlink_metadata_def syscall_def Let_def alone_def k_stat_def split: option.splits sum.splits)

lemma create_dir_all_alone: "alone env \<Longrightarrow> w_fs (snd (create_dir_all env p w)) = w_fs w"
  by (auto simp: create_dir_all_def syscall_def Let_def alone_def split: option.splits)

lemma rename_alone:
  assumes "alone env"
  shows "case rename_noreplace env src to w of
      (Inl e, w') \<Rightarrow> w_fs w' = w_fs w
    | (Inr _, w') \<Rightarrow> fs_names (w_fs w) src \<noteq> None \<and> fs_names (w_fs w) to = None
        \<and> fs_names (w_fs w') = (fs_names (w_fs w))(src := None, to := fs_names (w_fs w) src)"
  using assms
  by (auto simp: rename_noreplace_def syscall_def Let_def alone_def k_rename_def split: option.splits sum.splits if_splits)

lemma hard_link_alone:
  assumes "alone env"
  shows "case hard_link env src dst w of
      (Inl e, w') \<Rightarrow> w_fs w' = w_fs w
    | (Inr _, w') \<Rightarrow> fs_names (w_fs w) src \<noteq> None \<and> fs_names (w_fs w) dst = None
        \<and> fs_names (w_fs w') = (fs_names (w_fs w))(dst := fs_names (w_fs w) src)"
  using assms
  by (auto simp: hard_link_def syscall_def Let_def alone_def k_link_def split: option.splits sum.splits if_splits)

lemma remove_file_alone:
  assumes "alone env"
  shows "case remove_file env p w of
      (Inl e, w') \<Rightarrow> w_fs w' = w_fs w
    | (Inr _, w') \<Rightarrow> fs_names (w_fs w') = (fs_names (w_fs w))(p := None)"
  using assms
  by (auto simp: remove_file_def syscall_def Let_def alone_def k_unlink_def split: option.splits sum.splits if_splits)

end
