(* ===== verification/Quarantine.thy ===== *)
theory Quarantine
  imports Filesystem
begin

text \<open>
  Claiming a free name without overwriting anything: \<open>src/src/actions/move_file.rs\<close> (\<open>suffixed\<close>,
  \<open>move_to\<close>, \<open>utf8_prefix_len\<close>), \<open>delete.rs\<close> (\<open>delete_to_quarantine\<close>), \<open>move_dir.rs\<close> and
  \<open>quarantine.rs\<close>.
\<close>

section \<open>Candidate names\<close>

fun decimal :: "nat \<Rightarrow> string" where
  "decimal n = (if n < 10 then [char_of (48 + n)] else decimal (n div 10) @ [char_of (48 + n mod 10)])"

declare decimal.simps [simp del]

definition suffixed :: "path \<Rightarrow> nat \<Rightarrow> path" where
  "suffixed base n =
     (if n = 0 then base
      else case file_name base of
             Some name \<Rightarrow> with_file_name base (name @ ''.'' @ decimal n)
           | None \<Rightarrow> base)"

definition quarantine_dir :: "path \<Rightarrow> string \<Rightarrow> path" where
  "quarantine_dir mountpoint timestamp =
     join (join mountpoint [Normal ''.dedcom-quarantine'']) [Normal timestamp]"

definition quarantine_root :: "path \<Rightarrow> path" where
  "quarantine_root mountpoint = join mountpoint [Normal ''.dedcom-quarantine'']"

section \<open>Errors\<close>

text \<open>
  The refusals of the three moves. \<open>CounterExhausted\<close> is the end of the source's \<open>u32\<close> counter.
\<close>

datatype move_error =
    IoFailed io_error
  | SymlinkRefused
  | NotAFile
  | NotADirectory
  | NoParent
  | NoDestination path
  | AlreadyThere
  | IntoItself
  | OutsideDataset path path
  | CrossDevice path path
  | SuffixTooLong path nat io_error
  | NoFileName
  | CounterExhausted

section \<open>The loop\<close>

text \<open>
  Try \<open>base\<close>, \<open>base.1\<close>, \<open>base.2\<close> \<dots>: \<open>attempts\<close> bounds the tries, \<open>skip\<close> names candidates
  passed over unseen, and \<open>on_xdev\<close> is what a rename to another device is reported as.
\<close>

fun claim_name ::
  "env \<Rightarrow> (io_error \<Rightarrow> move_error) \<Rightarrow> (path \<Rightarrow> bool) \<Rightarrow> nat \<Rightarrow> path \<Rightarrow> path \<Rightarrow> nat \<Rightarrow> world
     \<Rightarrow> (move_error + path) \<times> world" where
  "claim_name env on_xdev skip 0 src base n w = (Inl CounterExhausted, w)"
| "claim_name env on_xdev skip (Suc attempts) src base n w =
     (if skip (suffixed base n) then claim_name env on_xdev skip attempts src base (n + 1) w
      else case rename_noreplace env src (suffixed base n) w of
             (Inr _, w') \<Rightarrow> (Inr (suffixed base n), w')
           | (Inl e, w') \<Rightarrow>
               if e = EEXIST then claim_name env on_xdev skip attempts src base (n + 1) w'
               else if e = EXDEV then (Inl (on_xdev e), w')
               else if 0 < n \<and> e = ENAMETOOLONG then (Inl (SuffixTooLong base n e), w')
               else (Inl (IoFailed e), w'))"

definition delete_to_quarantine ::
  "env \<Rightarrow> nat \<Rightarrow> path \<Rightarrow> path \<Rightarrow> path \<Rightarrow> world \<Rightarrow> (move_error + path) \<times> world" where
  "delete_to_quarantine env attempts target mountpoint qdir w =
     (case symlink_metadata env target w of
        (Inl e, w1) \<Rightarrow> (Inl (IoFailed e), w1)
      | (Inr node, w1) \<Rightarrow>
          if in_symlink node then (Inl SymlinkRefused, w1)
          else case strip_prefix target mountpoint of
            None \<Rightarrow> (Inl (OutsideDataset target mountpoint), w1)
          | Some relative \<Rightarrow>
              let base = join qdir relative
              in case (case parent base of
                         None \<Rightarrow> (Inr (), w1)
                       | Some p \<Rightarrow> create_dir_all env p w1) of
                   (Inl e, w2) \<Rightarrow> (Inl (IoFailed e), w2)
                 | (Inr _, w2) \<Rightarrow> claim_name env IoFailed (\<lambda>_. False) attempts target base 0 w2)"

definition move_to :: "env \<Rightarrow> nat \<Rightarrow> path \<Rightarrow> path \<Rightarrow> world \<Rightarrow> (move_error + path) \<times> world" where
  "move_to env attempts src dest w =
     (case symlink_metadata env src w of
        (Inl e, w1) \<Rightarrow> (Inl (IoFailed e), w1)
      | (Inr node, w1) \<Rightarrow>
          if in_symlink node then (Inl SymlinkRefused, w1)
          else if in_type node \<noteq> RegularFile then (Inl NotAFile, w1)
          else case parent dest of
            None \<Rightarrow> (Inl NoParent, w1)
          | Some p \<Rightarrow>
              if \<not> ev_is_dir env p then (Inl (NoDestination p), w1)
              else if parent src = Some p \<and> file_name dest = file_name src then (Inl AlreadyThere, w1)
              else claim_name env (\<lambda>_. CrossDevice src dest) (\<lambda>_. False) attempts src dest 0 w1)"

definition move_into_dir :: "env \<Rightarrow> nat \<Rightarrow> path \<Rightarrow> path \<Rightarrow> world \<Rightarrow> (move_error + path) \<times> world" where
  "move_into_dir env attempts src dir w =
     (case file_name src of
        None \<Rightarrow> (Inl NoFileName, w)
      | Some name \<Rightarrow> move_to env attempts src (join dir [Normal name]) w)"

text \<open>For a directory: \<open>ev_is_dir\<close> is also what \<open>is_dir\<close> of the source's own metadata says.\<close>

definition move_dir_to :: "env \<Rightarrow> nat \<Rightarrow> path \<Rightarrow> path \<Rightarrow> world \<Rightarrow> (move_error + path) \<times> world" where
  "move_dir_to env attempts src dest w =
     (case symlink_metadata env src w of
        (Inl e, w1) \<Rightarrow> (Inl (IoFailed e), w1)
      | (Inr node, w1) \<Rightarrow>
          if in_symlink node \<or> \<not> ev_is_dir env src then (Inl NotADirectory, w1)
          else case parent dest of
            None \<Rightarrow> (Inl NoParent, w1)
          | Some p \<Rightarrow>
              if \<not> ev_is_dir env p then (Inl (NoDestination p), w1)
              else if parent src = Some p \<and> file_name dest = file_name src then (Inl AlreadyThere, w1)
              else if starts_with dest src then (Inl IntoItself, w1)
              else claim_name env (\<lambda>_. CrossDevice src dest) (\<lambda>candidate. starts_with candidate src)
                     attempts src dest 0 w1)"

section \<open>Candidates differ\<close>

definition undecimal :: "string \<Rightarrow> nat" where
  "undecimal s = foldl (\<lambda>acc c. 10 * acc + (of_char c - 48)) 0 s"

lemma undecimal_decimal: "undecimal (decimal n) = n"
proof (induction n rule: decimal.induct)
  case (1 n)
  have d: "of_char (char_of (48 + k) :: char) = (48 + k :: nat)" if "k < 10" for k :: nat
    using that by (simp add: of_char_of)
  show ?case
  proof (cases "n < 10")
    case True
    then show ?thesis by (simp add: decimal.simps [of n] undecimal_def d)
  next
    case False
    have "undecimal (decimal n) = 10 * undecimal (decimal (n div 10)) + n mod 10"
      using False d [of "n mod 10"] by (simp add: decimal.simps [of n] undecimal_def)
    also have "\<dots> = n" using 1 False by simp
    finally show ?thesis .
  qed
qed

lemma decimal_inj [simp]: "decimal m = decimal n \<longleftrightarrow> m = n"
  by (metis undecimal_decimal)

lemma suffixed_inj:
  assumes "file_name base = Some name"
  shows "suffixed base m = suffixed base n \<longleftrightarrow> m = n"
proof -
  have "suffixed base 0 \<noteq> suffixed base (Suc k)" for k
  proof -
    have "base = butlast base @ [Normal name]"
      using assms by (auto simp: file_name_def split: if_splits comp.splits) (metis append_butlast_last_id)
    moreover have "suffixed base (Suc k) = butlast base @ [Normal (name @ CHR ''.'' # decimal (Suc k))]"
      using assms by (simp add: suffixed_def with_file_name_def)
    ultimately show ?thesis
      by (metis append_self_conv comp.inject last_snoc list.distinct(1) suffixed_def)
  qed
  then show ?thesis
    using assms by (cases m; cases n) (auto simp: suffixed_def with_file_name_def eq_commute [of _ base])
qed

lemma suffixed_length: "length (suffixed base n) = length base"
  by (auto simp: suffixed_def with_file_name_def file_name_def split: option.splits if_splits)

lemma decimal_no_nul: "CHR 0x00 \<notin> set (decimal n)"
proof (induction n rule: decimal.induct)
  case (1 n)
  have d: "CHR 0x00 \<noteq> char_of (48 + k)" if "k < 10" for k :: nat
  proof
    assume "CHR 0x00 = (char_of (48 + k) :: char)"
    then have "of_char CHR 0x00 = (of_char (char_of (48 + k) :: char) :: nat)" by simp
    then show False using that by (simp add: of_char_of)
  qed
  show ?case
    using 1 d [of n] d [of "n mod 10"] by (auto simp: decimal.simps [of n])
qed

lemma has_nul_suffixed:
  assumes "\<not> has_nul base"
  shows "\<not> has_nul (suffixed base m)"
proof (cases "m = 0 \<or> file_name base = None")
  case True
  then show ?thesis using assms by (auto simp: suffixed_def)
next
  case False
  then obtain name where f: "file_name base = Some name" by auto
  then have "Normal name \<in> set base"
    by (auto simp: file_name_def split: if_splits comp.splits) (metis last_in_set)
  then have "CHR 0x00 \<notin> set name" using assms by (auto simp: has_nul_def)
  moreover have "\<not> has_nul (butlast base)" using assms by (auto simp: has_nul_def dest: in_set_butlastD)
  moreover have "suffixed base m = butlast base @ [Normal (name @ ''.'' @ decimal m)]"
    using f False by (simp add: suffixed_def with_file_name_def)
  ultimately show ?thesis using decimal_no_nul [of m] by (auto simp: has_nul_def)
qed

section \<open>What a claimed name is\<close>

lemma claim_name_kept:
  assumes "benign T env" and "\<And>m. suffixed base m \<notin> T"
  shows "kept T (w_fs w) (w_fs (snd (claim_name env on_xdev skip attempts src base n w)))"
proof (induction attempts arbitrary: n w)
  case (Suc attempts)
  obtain r w' where rw: "rename_noreplace env src (suffixed base n) w = (r, w')" by fastforce
  have k: "kept T (w_fs w) (w_fs w')"
    using rename_noreplace_kept [OF assms(1), where to = "suffixed base n" and src = src and w = w] assms(2) rw
    by (metis snd_conv)
  show ?case
    using kept_trans [OF k Suc.IH [where n = "n + 1" and w = w']] Suc.IH [where n = "n + 1" and w = w] k rw
    by (auto split: sum.splits)
qed simp

lemma claim_name_path:
  "claim_name env on_xdev skip attempts src base n w = (Inr q, w') \<Longrightarrow>
     \<exists>m \<ge> n. m < n + attempts \<and> q = suffixed base m \<and> \<not> skip q"
proof (induction attempts arbitrary: n w)
  case (Suc attempts)
  obtain r v where rw: "rename_noreplace env src (suffixed base n) w = (r, v)" by fastforce
  consider "\<not> skip (suffixed base n)" "q = suffixed base n"
    | u where "claim_name env on_xdev skip attempts src base (n + 1) u = (Inr q, w')"
    using Suc.prems rw by (auto split: if_splits sum.splits)
  then show ?case
  proof cases
    case 1
    then show ?thesis by (intro exI [of _ n]) simp
  next
    case 2
    from Suc.IH [OF 2] obtain m where "n + 1 \<le> m" "m < n + 1 + attempts" "q = suffixed base m" "\<not> skip q" by blast
    then show ?thesis by (intro exI [of _ m]) simp
  qed
qed simp

lemma claim_name_alone:
  assumes "alone env"
  shows "case claim_name env on_xdev skip attempts src base n w of
      (Inl e, w') \<Rightarrow> w_fs w' = w_fs w
    | (Inr q, w') \<Rightarrow> fs_names (w_fs w) src \<noteq> None \<and> fs_names (w_fs w) q = None
        \<and> fs_names (w_fs w') = (fs_names (w_fs w))(src := None, q := fs_names (w_fs w) src)"
proof (induction attempts arbitrary: n w)
  case (Suc attempts)
  obtain r v where rw: "rename_noreplace env src (suffixed base n) w = (r, v)" by fastforce
  have s: "case r of Inl _ \<Rightarrow> w_fs v = w_fs w | Inr _ \<Rightarrow> fs_names (w_fs w) src \<noteq> None
      \<and> fs_names (w_fs w) (suffixed base n) = None
      \<and> fs_names (w_fs v) = (fs_names (w_fs w))(src := None, suffixed base n := fs_names (w_fs w) src)"
    using rename_alone [OF assms, where to = "suffixed base n" and src = src and w = w] rw
    by (metis (no_types, lifting) case_prod_conv)
  show ?case
  proof (cases r)
    case (Inl e)
    with s have v: "w_fs v = w_fs w" by simp
    show ?thesis
      using Suc.IH [where n = "n + 1" and w = v, unfolded v] Suc.IH [where n = "n + 1" and w = w] v
      by (simp add: rw Inl)
  next
    case (Inr u)
    with s Suc.IH [where n = "n + 1" and w = w] rw show ?thesis by auto
  qed
qed simp

section \<open>The quarantine\<close>

lemma delete_to_quarantine_cases:
  assumes "delete_to_quarantine env attempts target mountpoint qdir w = (r, w')"
  obtains (refused) e w1 where "r = Inl e" and "w' = w1"
      and "w1 = snd (symlink_metadata env target w)
        \<or> (\<exists>p. w1 = snd (create_dir_all env p (snd (symlink_metadata env target w))))"
    | (claimed) relative w2 where "target = mountpoint @ relative"
      and "w2 = snd (symlink_metadata env target w)
        \<or> (\<exists>p. w2 = snd (create_dir_all env p (snd (symlink_metadata env target w))))"
      and "claim_name env IoFailed (\<lambda>_. False) attempts target (join qdir relative) 0 w2 = (r, w')"
proof -
  obtain s w1 where s: "symlink_metadata env target w = (s, w1)" by fastforce
  show thesis
  proof (cases s)
    case (Inl e)
    with s assms show thesis by (intro refused) (auto simp: delete_to_quarantine_def)
  next
    case (Inr node)
    show thesis
    proof (cases "in_symlink node \<or> strip_prefix target mountpoint = None")
      case True
      with s Inr assms have "(\<exists>e. r = Inl e) \<and> w' = w1"
        by (auto simp: delete_to_quarantine_def split: if_splits)
      with s show thesis by (auto intro: refused)
    next
      case False
      then obtain relative where rel: "strip_prefix target mountpoint = Some relative" by auto
      then have t: "target = mountpoint @ relative" by (simp add: strip_prefix_eq_Some)
      obtain d w2 where d: "(case parent (join qdir relative) of None \<Rightarrow> (Inr (), w1) | Some p \<Rightarrow> create_dir_all env p w1) = (d, w2)"
        by fastforce
      have w2: "w2 = w1 \<or> (\<exists>p. w2 = snd (create_dir_all env p w1))"
        using d by (auto split: option.splits) (metis snd_conv)
      show thesis
      proof (cases d)
        case (Inl e)
        with s Inr rel False d w2 assms show thesis
          by (intro refused [of "IoFailed e" w2]) (auto simp: delete_to_quarantine_def Let_def)
      next
        case (Inr u)
        with s \<open>s = Inr node\<close> rel False d w2 assms show thesis
          by (intro claimed [OF t, of w2]) (auto simp: delete_to_quarantine_def Let_def)
      qed
    qed
  qed
qed

lemma pre_quarantine_kept:
  "benign T env \<Longrightarrow> w2 = snd (symlink_metadata env target w)
     \<or> (\<exists>p. w2 = snd (create_dir_all env p (snd (symlink_metadata env target w)))) \<Longrightarrow>
   kept T (w_fs w) (w_fs w2)"
  using symlink_metadata_kept create_dir_all_kept kept_trans by blast

lemma pre_quarantine_alone:
  "alone env \<Longrightarrow> w2 = snd (symlink_metadata env target w)
     \<or> (\<exists>p. w2 = snd (create_dir_all env p (snd (symlink_metadata env target w)))) \<Longrightarrow>
   w_fs w2 = w_fs w"
  using symlink_metadata_alone create_dir_all_alone by fastforce

lemma delete_kept:
  assumes "benign T env"
    and "\<And>relative m. target = mountpoint @ relative \<Longrightarrow> suffixed (join qdir relative) m \<notin> T"
  shows "kept T (w_fs w) (w_fs (snd (delete_to_quarantine env attempts target mountpoint qdir w)))"
proof -
  obtain r w' where d: "delete_to_quarantine env attempts target mountpoint qdir w = (r, w')" by fastforce
  then have "kept T (w_fs w) (w_fs w')"
  proof (cases rule: delete_to_quarantine_cases)
    case (refused e w1)
    then show ?thesis using pre_quarantine_kept [OF assms(1)] by blast
  next
    case (claimed relative w2)
    have "kept T (w_fs w2) (w_fs w')"
      using claim_name_kept [OF assms(1) assms(2) [OF claimed(1)]] claimed(3) by (metis snd_conv)
    with pre_quarantine_kept [OF assms(1) claimed(2)] show ?thesis by (rule kept_trans)
  qed
  with d show ?thesis by simp
qed

text \<open>What the evacuation did, with nobody else at work.\<close>

definition moved_name :: "path \<Rightarrow> path \<Rightarrow> fs \<Rightarrow> fs \<Rightarrow> bool" where
  "moved_name src q fs fs' \<longleftrightarrow>
     fs_names fs src \<noteq> None \<and> fs_names fs q = None
     \<and> fs_names fs' = (fs_names fs)(src := None, q := fs_names fs src)"

lemma delete_alone:
  assumes "alone env" and "delete_to_quarantine env attempts target mountpoint qdir w = (r, w')"
  shows "case r of
      Inl e \<Rightarrow> w_fs w' = w_fs w
    | Inr q \<Rightarrow> moved_name target q (w_fs w) (w_fs w')
        \<and> (\<exists>relative m. target = mountpoint @ relative \<and> q = suffixed (join qdir relative) m)"
  using assms(2)
proof (cases rule: delete_to_quarantine_cases)
  case (refused e w1)
  then show ?thesis using pre_quarantine_alone [OF assms(1)] by simp
next
  case (claimed relative w2)
  note w2 = pre_quarantine_alone [OF assms(1) claimed(2)]
  have "case r of Inl e \<Rightarrow> w_fs w' = w_fs w2 | Inr q \<Rightarrow> moved_name target q (w_fs w2) (w_fs w')"
    using claim_name_alone [OF assms(1), where on_xdev = IoFailed and skip = "\<lambda>_. False" and attempts = attempts
        and src = target and base = "join qdir relative" and n = 0 and w = w2] claimed(3)
    by (simp add: moved_name_def split: sum.splits)
  then show ?thesis
    using claim_name_path [of env IoFailed "\<lambda>_. False" attempts target "join qdir relative" 0 w2 _ w'] claimed w2
    by (cases r) fastforce+
qed

text \<open>
  Deleting is moving: with nobody else at work and whatever call fails, a target either stays
  where it was with nothing changed, or it is the only name that changed, now a name of the quarantine
  that was free, under the path it had below its mountpoint. Nothing is overwritten and nothing is
  removed.
\<close>

theorem delete_moves_only:
  assumes "alone env" and "delete_to_quarantine env attempts target mountpoint qdir w = (r, w')"
  shows "case r of
      Inl e \<Rightarrow> w_fs w' = w_fs w
    | Inr q \<Rightarrow> moved_name target q (w_fs w) (w_fs w')
        \<and> (\<exists>relative m. target = mountpoint @ relative \<and> q = suffixed (join qdir relative) m)"
  using assms by (rule delete_alone)

section \<open>The loop ends\<close>

text \<open>Nobody else at work and no call fails.\<close>

definition quiet :: "env \<Rightarrow> bool" where
  "quiet env \<longleftrightarrow> alone env \<and> (\<forall>n. ev_fault env n = None) \<and> (\<forall>p. ev_protected env p = None)"

lemma rename_quiet:
  assumes "quiet env" and "\<not> has_nul src" and "\<not> has_nul dst" and "fs_names (w_fs w) src \<noteq> None"
  shows "fst (rename_noreplace env src dst w) = (if fs_names (w_fs w) dst = None then Inr () else Inl EEXIST)"
  using assms
  by (auto simp: quiet_def alone_def rename_noreplace_def syscall_def Let_def k_rename_def
      split: option.splits if_splits)

lemma claim_name_returns:
  assumes q: "quiet env" and src: "\<not> has_nul src" "fs_names (w_fs w) src \<noteq> None"
    and nul: "\<And>m. \<not> has_nul (suffixed base m)"
    and free: "j < attempts" "fs_names (w_fs w) (suffixed base (n + j)) = None"
  shows "\<exists>q w'. claim_name env on_xdev (\<lambda>_. False) attempts src base n w = (Inr q, w')"
  using src(2) free
proof (induction attempts arbitrary: n j w)
  case (Suc attempts)
  obtain r v where rw: "rename_noreplace env src (suffixed base n) w = (r, v)" by fastforce
  from rename_quiet [OF q src(1) nul Suc.prems(1), of n] rw
  have r: "r = (if fs_names (w_fs w) (suffixed base n) = None then Inr () else Inl EEXIST)" by simp
  show ?case
  proof (cases "fs_names (w_fs w) (suffixed base n) = None")
    case True
    with r rw show ?thesis by simp
  next
    case False
    with Suc.prems(3) obtain i where i: "j = Suc i" by (cases j) auto
    have v: "w_fs v = w_fs w"
      using rename_alone [of env, where w = w and src = src and to = "suffixed base n"] q rw r False by (auto simp: quiet_def)
    from Suc.IH [of v i "n + 1"] Suc.prems i v obtain q w' where
      "claim_name env on_xdev (\<lambda>_. False) attempts src base (n + 1) v = (Inr q, w')" by auto
    with rw r False show ?thesis by simp
  qed
qed simp

lemma free_candidate:
  assumes "finite {p. fs_names fs p \<noteq> None}" and "card {p. fs_names fs p \<noteq> None} < attempts"
    and "file_name base = Some name"
  shows "\<exists>j < attempts. fs_names fs (suffixed base j) = None"
proof (rule ccontr)
  assume "\<not> ?thesis"
  then have "suffixed base ` {..<attempts} \<subseteq> {p. fs_names fs p \<noteq> None}" by auto
  with assms(1) have "card (suffixed base ` {..<attempts}) \<le> card {p. fs_names fs p \<noteq> None}" by (rule card_mono)
  moreover have "inj_on (suffixed base) {..<attempts}" by (rule inj_onI) (simp add: suffixed_inj [OF assms(3)])
  ultimately show False using assms(2) by (simp add: card_image)
qed

text \<open>
  The search for a free name ends: on a quiet disk with fewer names than tries, moving an
  existing file to a destination claims a candidate, however many of the candidates are taken.
\<close>

theorem free_name_found:
  assumes "quiet env" and "\<not> has_nul src" and "fs_names (w_fs w) src \<noteq> None"
    and "file_name base = Some name" and "\<not> has_nul base"
    and "finite {p. fs_names (w_fs w) p \<noteq> None}" and "card {p. fs_names (w_fs w) p \<noteq> None} < attempts"
  shows "\<exists>q w'. claim_name env on_xdev (\<lambda>_. False) attempts src base 0 w = (Inr q, w')"
proof -
  from free_candidate [OF assms(6,7,4)] obtain j where "j < attempts" "fs_names (w_fs w) (suffixed base (0 + j)) = None"
    by auto
  with claim_name_returns [OF assms(1,2,3) has_nul_suffixed [OF assms(5)]] show ?thesis by blast
qed

section \<open>A sample disk\<close>

definition sample_env :: env where
  "sample_env = \<lparr>ev_outside = (\<lambda>_ fs. fs), ev_fault = (\<lambda>_. None), ev_clock = (\<lambda>_. (9, 0)),
     ev_protected = (\<lambda>_. None), ev_is_dir = (\<lambda>_. True)\<rparr>"

definition sample_names :: "(path \<times> inode_id) list" where
  "sample_names = map (\<lambda>m. (m_path m, Inode 1 (key_inode (m_key m)))) sample_members"

definition sample_fs :: fs where
  "sample_fs =
     \<lparr>fs_names = map_of sample_names,
      fs_nodes = map_of (map (\<lambda>m. (Inode 1 (key_inode (m_key m)),
        \<lparr>in_type = RegularFile, in_live = fs_live (sample_stat (key_inode (m_key m)) (m_links m)),
         in_mode = 420, in_data = ''x''\<rparr>))
        sample_members)\<rparr>"

definition sample_world :: world where
  "sample_world = \<lparr>w_tick = 0, w_fs = sample_fs\<rparr>"

lemma sample_quiet: "quiet sample_env" "alone sample_env"
  by (simp_all add: sample_env_def quiet_def alone_def)

theorem delete_moves_only_witness:
  "moved_name [RootDir, Normal ''c''] [RootDir, Normal ''q'', Normal ''c''] sample_fs
     (w_fs (snd (delete_to_quarantine sample_env 3 [RootDir, Normal ''c''] [RootDir] [RootDir, Normal ''q''] sample_world)))"
proof -
  let ?r = "delete_to_quarantine sample_env 3 [RootDir, Normal ''c''] [RootDir] [RootDir, Normal ''q''] sample_world"
  have "fst ?r = Inr [RootDir, Normal ''q'', Normal ''c'']" by code_simp
  then have "?r = (Inr [RootDir, Normal ''q'', Normal ''c''], snd ?r)" by (metis prod.collapse)
  from delete_moves_only [OF sample_quiet(2) this] show ?thesis
    by (simp add: sample_world_def)
qed

theorem free_name_found_witness:
  "\<exists>q w'. claim_name sample_env IoFailed (\<lambda>_. False) 9 [RootDir, Normal ''c''] [RootDir, Normal ''d''] 0 sample_world = (Inr q, w')"
proof (rule free_name_found [OF sample_quiet(1)])
  have dom: "{p. fs_names (w_fs sample_world) p \<noteq> None} = fst ` set sample_names"
    by (simp add: sample_world_def sample_fs_def map_of_eq_None_iff flip: dom_def dom_map_of_conv_image_fst)
  show "finite {p. fs_names (w_fs sample_world) p \<noteq> None}" unfolding dom by simp
  have "card (fst ` set sample_names) \<le> length sample_names"
    by (metis card_length length_map list.set_map)
  then show "card {p. fs_names (w_fs sample_world) p \<noteq> None} < 9"
    unfolding dom by (simp add: sample_names_def sample_members_def)
  show "fs_names (w_fs sample_world) [RootDir, Normal ''c''] \<noteq> None" by code_simp
qed (simp_all add: has_nul_def file_name_def)

end
