(* ===== verification/Realize.thy ===== *)
theory Realize
  imports Ledger
begin

text \<open>
  What a batch achieved, allocation by allocation, in \<open>src/src/model/plan.rs\<close>: \<open>ActionResult\<close>,
  \<open>object_realization\<close>, \<open>RealizedSummary::fold\<close> and \<open>ActionPlan::realize\<close>.
\<close>

section \<open>Results and realizations\<close>

text \<open>\<open>'d\<close> is the detail a result carries for the operator: a sentence in the source.\<close>

datatype 'd action_result =
    Removed
  | Refused bool
  | Stranded path 'd
  | Unsettled path 'd

datatype zero_reason =
    NotFullyCovered
  | ExternalLinksZero
  | PartialCoverage
  | Cancelled
  | AlreadyLinked
  | RolledBackZero
  | RefusedZero

datatype 'd object_realization =
    Completed u64
  | Zero zero_reason
  | UnknownState 'd "path option"

record realized_summary =
  rs_guaranteed :: u64
  rs_completed :: nat
  rs_zero :: nat
  rs_unknown :: nat

fun realization_bytes :: "'d object_realization \<Rightarrow> u64" where
  "realization_bytes (Completed n) = n"
| "realization_bytes _ = 0"

text \<open>The first result that leaves the allocation's place in doubt.\<close>

fun ambiguous :: "'d action_result option list \<Rightarrow> ('d \<times> path) option" where
  "ambiguous [] = None"
| "ambiguous (Some (Stranded q detail) # _) = Some (detail, q)"
| "ambiguous (Some (Unsettled q detail) # _) = Some (detail, q)"
| "ambiguous (_ # rs) = ambiguous rs"

definition realization_of :: "planned_object \<Rightarrow> 'd action_result option list \<Rightarrow> 'd object_realization" where
  "realization_of obj results =
     (case ambiguous results of
        Some (detail, q) \<Rightarrow> UnknownState detail (Some q)
      | None \<Rightarrow>
          if None \<in> set results then Zero Cancelled
          else if Some (Refused True) \<in> set results then Zero RolledBackZero
          else if \<exists>r \<in> set results. case r of Some (Refused _) \<Rightarrow> True | _ \<Rightarrow> False
            then Zero (if 0 < length (filter (\<lambda>r. r = Some Removed) results) then PartialCoverage else RefusedZero)
          else if 0 < remaining_inside obj then Zero NotFullyCovered
          else if 0 < unobserved_links obj then Zero ExternalLinksZero
          else Completed (key_size (po_key obj)))"

definition fold_realized :: "realized_summary \<Rightarrow> 'd object_realization \<Rightarrow> plan_refusal + realized_summary" where
  "fold_realized out state =
     (case state of
        Completed n \<Rightarrow>
          rbind (ok_or (Arithmetic RealizedTotalOverflow) (checked_add (rs_guaranteed out) n)) (\<lambda>total.
          Inr (out\<lparr>rs_guaranteed := total, rs_completed := rs_completed out + 1\<rparr>))
      | Zero _ \<Rightarrow> Inr (out\<lparr>rs_zero := rs_zero out + 1\<rparr>)
      | UnknownState _ _ \<Rightarrow> Inr (out\<lparr>rs_unknown := rs_unknown out + 1\<rparr>))"

definition realized_start :: realized_summary where
  "realized_start = \<lparr>rs_guaranteed = 0, rs_completed = 0, rs_zero = 0, rs_unknown = 0\<rparr>"

definition summarise :: "'d object_realization list \<Rightarrow> plan_refusal + realized_summary" where
  "summarise states = rfold fold_realized realized_start states"

definition outcome_at :: "'d action_result list \<Rightarrow> nat \<Rightarrow> 'd action_result option" where
  "outcome_at outcomes i = (if i < length outcomes then Some (outcomes ! i) else None)"

definition results_for :: "action_plan \<Rightarrow> 'd action_result list \<Rightarrow> nat \<Rightarrow> 'd action_result option list" where
  "results_for plan outcomes k =
     map (\<lambda>(i, _). outcome_at outcomes i)
       (filter (\<lambda>(_, a). pa_target_object a = k) (enumerate 0 (ap_actions plan)))"

definition realized_objects ::
  "action_plan \<Rightarrow> 'd action_result list \<Rightarrow> (plan_object_key \<times> 'd object_realization) list" where
  "realized_objects plan outcomes =
     map (\<lambda>(k, obj). (po_key obj, realization_of obj (results_for plan outcomes k)))
       (filter (\<lambda>(_, obj). po_covered_links obj \<noteq> 0) (enumerate 0 (ap_objects plan)))"

definition skipped_marks :: "action_plan \<Rightarrow> (plan_object_key \<times> 'd object_realization) list" where
  "skipped_marks plan = List.map_filter
     (\<lambda>w. case w of
        AlreadyLinkedWithKeeper p \<Rightarrow>
          map_option (\<lambda>obj. (po_key obj, Zero AlreadyLinked))
            (find (\<lambda>obj. p \<in> set (po_members obj)) (ap_objects plan))
      | _ \<Rightarrow> None) (ps_warnings (ap_summary plan))"

definition realize ::
  "action_plan \<Rightarrow> 'd action_result list
     \<Rightarrow> plan_refusal + ((plan_object_key \<times> 'd object_realization) list \<times> realized_summary)" where
  "realize plan outcomes =
     (let realized = realized_objects plan outcomes @ skipped_marks plan
      in rbind (summarise (map snd realized)) (\<lambda>summary. Inr (realized, summary)))"

section \<open>What is claimed for one allocation\<close>

lemma ambiguous_None: "ambiguous rs = None \<longleftrightarrow>
    (\<forall>r \<in> set rs. \<forall>q d. r \<noteq> Some (Stranded q d) \<and> r \<noteq> Some (Unsettled q d))"
proof (induction rs)
  case (Cons r rs)
  show ?case
  proof (cases r)
    case (Some x)
    then show ?thesis by (cases x) (auto simp: Cons.IH)
  qed (simp add: Cons.IH)
qed simp

lemma removed_results:
  "set results \<subseteq> {Some Removed} \<longleftrightarrow> ambiguous results = None \<and> None \<notin> set results
     \<and> \<not> (\<exists>r \<in> set results. case r of Some (Refused _) \<Rightarrow> True | _ \<Rightarrow> False)"
proof (induction results)
  case (Cons r rs)
  show ?case
  proof (cases r)
    case (Some x)
    then show ?thesis using Cons.IH by (cases x) auto
  qed auto
qed simp

lemma completed_iff:
  "realization_of obj results = Completed n \<longleftrightarrow>
     set results \<subseteq> {Some Removed} \<and> remaining_inside obj = 0 \<and> unobserved_links obj = 0
     \<and> n = key_size (po_key obj)"
proof -
  have "Some (Refused True) \<in> set results \<Longrightarrow> \<exists>r \<in> set results. case r of Some (Refused _) \<Rightarrow> True | _ \<Rightarrow> False"
    by (rule bexI [of _ "Some (Refused True)"]) simp_all
  then show ?thesis
    unfolding removed_results realization_of_def by (auto simp: word_gt_0 split: option.splits)
qed

text \<open>
  An allocation is reported as released, with its bytes, exactly when it is: the batch reached
  every action on it, each one removed its path, no path of it was left out of the plan and no link of
  it lies outside the scan. In every other case nothing is claimed for it.
\<close>

theorem completed_exactly_when_released:
  "realization_of obj results = Completed n \<longleftrightarrow>
     set results \<subseteq> {Some Removed} \<and> remaining_inside obj = 0 \<and> unobserved_links obj = 0
     \<and> n = key_size (po_key obj)"
  by (rule completed_iff)

section \<open>The total\<close>

lemma summarise_from:
  assumes "unat (rs_guaranteed out) + sum_list (map (unat \<circ> realization_bytes) states) < 2 ^ 64"
  shows "\<exists>s. rfold fold_realized out states = Inr s
    \<and> unat (rs_guaranteed s) = unat (rs_guaranteed out) + sum_list (map (unat \<circ> realization_bytes) states)
    \<and> rs_completed s + rs_zero s + rs_unknown s = rs_completed out + rs_zero out + rs_unknown out + length states"
  using assms
proof (induction states arbitrary: out)
  case (Cons state states)
  let ?n = "realization_bytes state"
  have "unat (rs_guaranteed out) + unat ?n < 2 ^ 64" using Cons.prems by simp
  then obtain c where c: "checked_add (rs_guaranteed out) ?n = Some c" "unat c = unat (rs_guaranteed out) + unat ?n"
    using checked_add_None_iff checked_add_Some_iff by (metis not_less option.exhaust)
  obtain out' where out': "fold_realized out state = Inr out'" "unat (rs_guaranteed out') = unat (rs_guaranteed out) + unat ?n"
    "rs_completed out' + rs_zero out' + rs_unknown out' = rs_completed out + rs_zero out + rs_unknown out + 1"
    using c by (cases state) (auto simp: fold_realized_def)
  have "unat (rs_guaranteed out') + sum_list (map (unat \<circ> realization_bytes) states) < 2 ^ 64"
    using Cons.prems out'(2) by (simp add: comp_def)
  from Cons.IH [OF this] obtain s where "rfold fold_realized out' states = Inr s"
    "unat (rs_guaranteed s) = unat (rs_guaranteed out') + sum_list (map (unat \<circ> realization_bytes) states)"
    "rs_completed s + rs_zero s + rs_unknown s = rs_completed out' + rs_zero out' + rs_unknown out' + length states" by blast
  with out' show ?case by (simp add: comp_def)
qed simp

lemma skipped_bytes: "sum_list (map (unat \<circ> realization_bytes) (map snd (skipped_marks plan))) = 0"
  by (auto simp: skipped_marks_def sum_list_eq_0_iff List.map_filter_def split: plan_warning.splits)

definition claimed :: "action_plan \<Rightarrow> 'd action_result list \<Rightarrow> nat \<Rightarrow> bool" where
  "claimed plan outcomes k \<longleftrightarrow>
     fully_released (ap_objects plan ! k) \<and> set (results_for plan outcomes k) \<subseteq> {Some Removed}"

lemma realized_bytes:
  "sum_list (map (unat \<circ> realization_bytes) (map snd (realized_objects plan outcomes)))
     = bytes_at (ap_objects plan) (claimed plan outcomes)"
proof -
  have b: "unat (realization_bytes (realization_of obj rs)) =
      (if set rs \<subseteq> {Some Removed} \<and> remaining_inside obj = 0 \<and> unobserved_links obj = 0
       then unat (key_size (po_key obj)) else 0)" for obj rs
  proof (cases "realization_of obj rs")
    case (Completed n)
    then show ?thesis using completed_iff [of obj rs n] by simp
  next
    case (Zero z)
    then show ?thesis using completed_iff [of obj rs "key_size (po_key obj)"] by auto
  next
    case (UnknownState d q)
    then show ?thesis using completed_iff [of obj rs "key_size (po_key obj)"] by auto
  qed
  have s: "sum_list (map f (map g (filter P es))) = sum_list (map (\<lambda>x. if P x then f (g x) else 0) es)"
    for f :: "'d object_realization \<Rightarrow> nat" and g P and es :: "(nat \<times> planned_object) list"
    by (induction es) auto
  have m: "map snd (realized_objects plan outcomes) =
      map (\<lambda>(k, obj). realization_of obj (results_for plan outcomes k))
        (filter (\<lambda>(_, obj). po_covered_links obj \<noteq> 0) (enumerate 0 (ap_objects plan)))"
    by (simp add: realized_objects_def comp_def case_prod_beta')
  show ?thesis
    unfolding m s bytes_at_sum
    by (subst sum_list_sum_nth)
      (auto simp: b nth_enumerate_eq atLeast0LessThan claimed_def fully_released_def intro!: sum.cong)
qed

lemma realize_spec:
  assumes "try_new scan_id input = Inr plan"
  shows "\<exists>realized summary. realize plan outcomes = Inr (realized, summary)
    \<and> unat (rs_guaranteed summary) = bytes_at (ap_objects plan) (claimed plan outcomes)
    \<and> rs_guaranteed summary \<le> est_guaranteed (ps_estimate (ap_summary plan))
    \<and> rs_completed summary + rs_zero summary + rs_unknown summary = length realized"
proof -
  let ?r = "realized_objects plan outcomes @ skipped_marks plan"
  obtain parts where sp: "plan_spec scan_id (normalise input) parts plan"
    by (rule try_new_Inr [OF assms])
  have g: "unat (est_guaranteed (ps_estimate (ap_summary plan))) =
      bytes_at (ap_objects plan) (\<lambda>k. fully_released (ap_objects plan ! k))"
    using plan_bytes_spec [OF sp] by (simp add: Let_def bytes_of_filter)
  have le: "bytes_at (ap_objects plan) (claimed plan outcomes) \<le> unat (est_guaranteed (ps_estimate (ap_summary plan)))"
    unfolding g by (rule bytes_at_mono) (simp add: claimed_def)
  have sum: "sum_list (map (unat \<circ> realization_bytes) (map snd ?r)) = bytes_at (ap_objects plan) (claimed plan outcomes)"
    using realized_bytes [of plan outcomes] skipped_bytes [of plan] by simp
  have "sum_list (map (unat \<circ> realization_bytes) (map snd ?r)) < 2 ^ 64"
    unfolding sum using le unat_u64_less by (rule le_less_trans)
  then have "unat (rs_guaranteed realized_start) + sum_list (map (unat \<circ> realization_bytes) (map snd ?r)) < 2 ^ 64"
    by (simp add: realized_start_def)
  from summarise_from [OF this] obtain s where s: "summarise (map snd ?r) = Inr s"
    "unat (rs_guaranteed s) = bytes_at (ap_objects plan) (claimed plan outcomes)"
    "rs_completed s + rs_zero s + rs_unknown s = length ?r"
    unfolding summarise_def sum by (auto simp: realized_start_def)
  then have "realize plan outcomes = Inr (?r, s)" by (simp add: realize_def Let_def)
  moreover have "rs_guaranteed s \<le> est_guaranteed (ps_estimate (ap_summary plan))"
    using s(2) le by (simp add: word_le_nat_alt)
  ultimately show ?thesis using s by blast
qed

text \<open>
  The result of a batch is always computed, whatever its actions returned and wherever it
  stopped: the total never overflows, it is the bytes of exactly the fully released allocations every
  action on which removed its path, so it never exceeds what the plan guaranteed, and every reported
  allocation is counted once, as completed, zero or unknown.
\<close>

theorem realize_total:
  assumes "try_new scan_id input = Inr plan"
  shows "\<exists>realized summary. realize plan outcomes = Inr (realized, summary)
    \<and> unat (rs_guaranteed summary) = bytes_at (ap_objects plan) (claimed plan outcomes)
    \<and> rs_guaranteed summary \<le> est_guaranteed (ps_estimate (ap_summary plan))
    \<and> rs_completed summary + rs_zero summary + rs_unknown summary = length realized"
  using assms by (rule realize_spec)

theorem realize_total_witness:
  "\<exists>realized summary. realize sample_plan ([Removed, Removed] :: string action_result list) = Inr (realized, summary)
    \<and> rs_guaranteed summary = 100
    \<and> rs_guaranteed summary \<le> est_guaranteed (ps_estimate (ap_summary sample_plan))
    \<and> rs_completed summary + rs_zero summary + rs_unknown summary = length realized"
proof -
  from realize_total [OF sample_accepted, of "[Removed, Removed] :: string action_result list"] obtain realized summary where
    r: "realize sample_plan ([Removed, Removed] :: string action_result list) = Inr (realized, summary)"
      "rs_guaranteed summary \<le> est_guaranteed (ps_estimate (ap_summary sample_plan))"
      "rs_completed summary + rs_zero summary + rs_unknown summary = length realized" by blast
  have "map_option (rs_guaranteed \<circ> snd) (ok (realize sample_plan ([Removed, Removed] :: string action_result list))) = Some 100"
    unfolding sample_plan_def by code_simp
  then have "rs_guaranteed summary = 100" by (simp add: r(1) ok_def)
  with r show ?thesis by blast
qed

lemma realize_full_spec:
  assumes "try_new scan_id input = Inr plan"
  shows "\<exists>realized summary. realize plan (replicate (length (ap_actions plan)) Removed :: 'd action_result list) = Inr (realized, summary)
    \<and> rs_guaranteed summary = est_guaranteed (ps_estimate (ap_summary plan))"
proof -
  let ?all = "replicate (length (ap_actions plan)) Removed :: 'd action_result list"
  obtain parts where sp: "plan_spec scan_id (normalise input) parts plan"
    by (rule try_new_Inr [OF assms])
  have "set (results_for plan ?all k) \<subseteq> {Some Removed}" for k
    by (auto simp: results_for_def outcome_at_def in_set_enumerate_eq)
  then have "claimed plan ?all = (\<lambda>k. fully_released (ap_objects plan ! k))"
    by (simp add: claimed_def fun_eq_iff)
  then have "unat (est_guaranteed (ps_estimate (ap_summary plan))) = bytes_at (ap_objects plan) (claimed plan ?all)"
    using plan_bytes_spec [OF sp] by (simp add: Let_def bytes_of_filter)
  with realize_spec [OF assms, of ?all] show ?thesis by (metis word_unat_eq_iff)
qed

text \<open>
  A batch that carried out every action delivers what was promised: with every result
  \<open>Removed\<close>, the realized total is the guarantee of the plan.
\<close>

theorem realize_full_run:
  assumes "try_new scan_id input = Inr plan"
  shows "\<exists>realized summary. realize plan (replicate (length (ap_actions plan)) Removed :: 'd action_result list) = Inr (realized, summary)
    \<and> rs_guaranteed summary = est_guaranteed (ps_estimate (ap_summary plan))"
  using assms by (rule realize_full_spec)

theorem realize_full_run_witness:
  "\<exists>realized summary. realize sample_plan ([Removed, Removed] :: string action_result list) = Inr (realized, summary)
    \<and> rs_guaranteed summary = est_guaranteed (ps_estimate (ap_summary sample_plan))"
proof -
  have "length (ap_actions sample_plan) = 2" using arg_cong [OF sample_actions(1), of length] by simp
  with realize_full_run [OF sample_accepted, where 'd = string] show ?thesis by (simp add: numeral_2_eq_2)
qed

end
