(* ===== verification/Publication.thy ===== *)
theory Publication
  imports Quarantine Realize
begin

text \<open>
  Replacing a file without destroying it: \<open>evacuate_then_publish\<close> of \<open>src/src/actions/mod.rs\<close>, with
  its causes and its typed \<open>Publication\<close>, and \<open>hardlink\<close> and \<open>reflink\<close> on top of it.
\<close>

section \<open>Causes\<close>

datatype step = Publish | PutBack

text \<open>The words of a cause; \<open>None\<close> is the error's own text.\<close>

definition rename_cause :: "step \<Rightarrow> io_error \<Rightarrow> string option" where
  "rename_cause step err =
     (if err = EEXIST then Some ''another file took the path in the meantime''
      else if err = ENOENT then
        (case step of
           Publish \<Rightarrow> Some ''the prepared replacement or its directory disappeared''
         | PutBack \<Rightarrow> Some ''the original or the target's directory disappeared'')
      else if err = ENOSPC then Some ''no space left on the dataset''
      else if err = EDQUOT then Some ''the dataset's quota is exhausted''
      else if err = EROFS then Some ''the filesystem became read-only''
      else if err = EIO then Some ''an I/O error on the pool (check `zpool status`)''
      else if err = EPERM \<or> err = EACCES then
        Some ''permission denied (an immutable or append-only directory?)''
      else None)"

text \<open>
  The detail of a publication that did not happen: what each sentence of the source is built from.
  A leftover is the temporary name that could not be removed, with the error.
\<close>

datatype pub_detail =
    NoParentDetail
  | BuildDetail io_error
  | EvacuateDetail move_error
  | RestoredDetail "string option" io_error "(path \<times> io_error) option"
  | StrandedDetail "string option" io_error "string option" io_error bool path path "(path \<times> io_error) option"

datatype publication =
    PubPublished path
  | PubNotMoved pub_detail
  | PubRolledBack pub_detail
  | PubStranded path pub_detail

fun split_publication :: "publication \<Rightarrow> path option \<times> pub_detail action_result \<times> (pub_detail + unit)" where
  "split_publication (PubPublished q) = (Some q, Removed, Inr ())"
| "split_publication (PubNotMoved d) = (None, Refused False, Inl d)"
| "split_publication (PubRolledBack d) = (None, Refused True, Inl d)"
| "split_publication (PubStranded q d) = (Some q, Stranded q d, Inl d)"

section \<open>The exchange\<close>

definition remove_replacement :: "env \<Rightarrow> path \<Rightarrow> world \<Rightarrow> (path \<times> io_error) option \<times> world" where
  "remove_replacement env temp w =
     (case remove_file env temp w of
        (Inr _, w') \<Rightarrow> (None, w')
      | (Inl e, w') \<Rightarrow> if e = ENOENT then (None, w') else (Some (temp, e), w'))"

type_synonym builder = "path \<Rightarrow> world \<Rightarrow> (io_error + unit) \<times> world"

text \<open>Step 3, once the original is at \<open>evacuated\<close>: publish, or take back what was done.\<close>

definition publish_or_restore :: "env \<Rightarrow> path \<Rightarrow> path \<Rightarrow> path \<Rightarrow> world \<Rightarrow> publication \<times> world" where
  "publish_or_restore env temp evacuated target w =
     (case rename_noreplace env temp target w of
        (Inr _, w1) \<Rightarrow> (PubPublished evacuated, w1)
      | (Inl publish, w1) \<Rightarrow>
          let (leftover, w2) = remove_replacement env temp w1;
              (back, w3) = rename_noreplace env evacuated target w2;
              cause = rename_cause Publish publish
          in case back of
               Inr _ \<Rightarrow> (PubRolledBack (RestoredDetail cause publish leftover), w3)
             | Inl e \<Rightarrow>
                 (PubStranded evacuated
                    (StrandedDetail cause publish (rename_cause PutBack e) e (e = ENOENT) evacuated target leftover), w3))"

definition evacuate_then_publish ::
  "env \<Rightarrow> nat \<Rightarrow> (path \<Rightarrow> string option \<Rightarrow> path) \<Rightarrow> path \<Rightarrow> builder \<Rightarrow> path \<Rightarrow> path \<Rightarrow> world
     \<Rightarrow> publication \<times> world" where
  "evacuate_then_publish env attempts staging target build mountpoint qdir w =
     (case parent target of
        None \<Rightarrow> (PubNotMoved NoParentDetail, w)
      | Some p \<Rightarrow>
          let temp = staging p (file_name target)
          in case build temp w of
               (Inl e, w1) \<Rightarrow> (PubNotMoved (BuildDetail e), snd (remove_file env temp w1))
             | (Inr _, w1) \<Rightarrow>
                 (case delete_to_quarantine env attempts target mountpoint qdir w1 of
                    (Inl e, w2) \<Rightarrow> (PubNotMoved (EvacuateDetail e), snd (remove_file env temp w2))
                  | (Inr evacuated, w2) \<Rightarrow> publish_or_restore env temp evacuated target w2))"

section \<open>The two kinds of replacement\<close>

definition hardlink ::
  "env \<Rightarrow> nat \<Rightarrow> (path \<Rightarrow> string option \<Rightarrow> path) \<Rightarrow> path \<Rightarrow> path \<Rightarrow> path \<Rightarrow> path \<Rightarrow> world \<Rightarrow> publication \<times> world" where
  "hardlink env attempts staging target keeper mountpoint qdir =
     evacuate_then_publish env attempts staging target (\<lambda>temp. hard_link env keeper temp) mountpoint qdir"

text \<open>
  \<open>reflink\<close> and its \<open>publish_clone\<close>: reading the target's metadata may fail, \<open>clone\<close> is the library's
  block clone and \<open>carry\<close> is \<open>meta::apply\<close> on the staged file.
\<close>

definition clone_and_carry :: "(path \<Rightarrow> builder) \<Rightarrow> ('m \<Rightarrow> builder) \<Rightarrow> path \<Rightarrow> 'm \<Rightarrow> builder" where
  "clone_and_carry clone carry keeper meta temp w =
     (case clone keeper temp w of
        (Inl e, w') \<Rightarrow> (Inl e, w')
      | (Inr _, w') \<Rightarrow> carry meta temp w')"

definition reflink ::
  "env \<Rightarrow> nat \<Rightarrow> (path \<Rightarrow> string option \<Rightarrow> path) \<Rightarrow> (path \<Rightarrow> builder)
     \<Rightarrow> (path \<Rightarrow> world \<Rightarrow> (io_error + 'm) \<times> world) \<Rightarrow> ('m \<Rightarrow> builder)
     \<Rightarrow> path \<Rightarrow> path \<Rightarrow> path \<Rightarrow> path \<Rightarrow> world \<Rightarrow> publication \<times> world" where
  "reflink env attempts staging clone read_meta carry target keeper mountpoint qdir w =
     (case read_meta target w of
        (Inl e, w1) \<Rightarrow> (PubNotMoved (BuildDetail e), w1)
      | (Inr meta, w1) \<Rightarrow>
          evacuate_then_publish env attempts staging target (clone_and_carry clone carry keeper meta) mountpoint qdir w1)"

section \<open>What a replacement may touch\<close>

text \<open>
  The contracts between the exchange and the step that builds the replacement. Safe: it destroys
  nothing but what has a staging name. Exact: alone, it changes no name but the staging name, and when
  it succeeds that name was free and is now taken.
\<close>

locale safe_builder =
  fixes env :: env and T :: "path set" and build :: builder
  assumes build_kept: "benign T env \<Longrightarrow> temp \<in> T \<Longrightarrow> kept T (w_fs w) (w_fs (snd (build temp w)))"

locale replacement_builder =
  fixes env :: env and build :: builder
  assumes build_names: "alone env \<Longrightarrow> p \<noteq> temp \<Longrightarrow> fs_names (w_fs (snd (build temp w))) p = fs_names (w_fs w) p"
    and build_fresh: "alone env \<Longrightarrow> fst (build temp w) = Inr () \<Longrightarrow>
          fs_names (w_fs w) temp = None \<and> fs_names (w_fs (snd (build temp w))) temp \<noteq> None"

text \<open>The names an exchange may use are apart from its staging name.\<close>

definition apart :: "path set \<Rightarrow> path \<Rightarrow> path \<Rightarrow> path \<Rightarrow> bool" where
  "apart T target mountpoint qdir \<longleftrightarrow>
     target \<notin> T \<and> (\<forall>relative m. target = mountpoint @ relative \<longrightarrow> suffixed (join qdir relative) m \<notin> T)"

lemma publish_or_restore_kept:
  assumes "benign T env" and "temp \<in> T" and "target \<notin> T"
  shows "kept T (w_fs w) (w_fs (snd (publish_or_restore env temp evacuated target w)))"
proof -
  obtain p w1 where p: "rename_noreplace env temp target w = (p, w1)" by fastforce
  obtain l w2 where l: "remove_file env temp w1 = (l, w2)" by fastforce
  obtain b w3 where b: "rename_noreplace env evacuated target w2 = (b, w3)" by fastforce
  have 1: "kept T (w_fs w) (w_fs w1)"
    using rename_noreplace_kept [OF assms(1), of target temp w] assms(3) p by simp
  have 2: "kept T (w_fs w1) (w_fs w2)"
    using remove_file_kept [OF assms(1,2), of w1] l by simp
  have 3: "kept T (w_fs w2) (w_fs w3)"
    using rename_noreplace_kept [OF assms(1), of target evacuated w2] assms(3) b by simp
  have "snd (publish_or_restore env temp evacuated target w) \<in> {w1, w3}"
    using p l b by (auto simp: publish_or_restore_def remove_replacement_def Let_def split: sum.splits if_splits)
  with 1 2 3 show ?thesis by (auto intro: kept_trans)
qed

context safe_builder
begin

lemma evacuate_kept:
  assumes b: "benign T env" and temps: "\<And>p n. staging p n \<in> T" and a: "apart T target mountpoint qdir"
  shows "kept T (w_fs w) (w_fs (snd (evacuate_then_publish env attempts staging target build mountpoint qdir w)))"
proof (cases "parent target")
  case (Some p)
  let ?temp = "staging p (file_name target)"
  obtain r w1 where r: "build ?temp w = (r, w1)" by fastforce
  obtain d w2 where d: "delete_to_quarantine env attempts target mountpoint qdir w1 = (d, w2)" by fastforce
  have 1: "kept T (w_fs w) (w_fs w1)" using build_kept [OF b temps, of w] r by (metis snd_conv)
  have 2: "kept T (w_fs w1) (w_fs w2)"
    using delete_kept [OF b, of target mountpoint qdir w1] a d by (metis apart_def snd_conv)
  have 3: "kept T (w_fs v) (w_fs (snd (remove_file env ?temp v)))" for v
    by (rule remove_file_kept [OF b temps])
  have 4: "kept T (w_fs w2) (w_fs (snd (publish_or_restore env ?temp q target w2)))" for q
    using a by (intro publish_or_restore_kept [OF b temps]) (simp add: apart_def)
  show ?thesis
    using 1 2 3 4 r d Some unfolding evacuate_then_publish_def
    by (auto simp: Let_def split: sum.splits intro: kept_trans)
qed (simp add: evacuate_then_publish_def)

end

text \<open>What each end of the exchange says about the names, for the original \<open>i\<close> at the target.\<close>

definition exchange_spec ::
  "path \<Rightarrow> path \<Rightarrow> inode_id option \<Rightarrow> fs \<Rightarrow> publication \<Rightarrow> fs \<Rightarrow> bool" where
  "exchange_spec temp target replacement fs pub fs' \<longleftrightarrow>
     (case pub of
        PubPublished q \<Rightarrow>
          q \<noteq> temp \<and> fs_names fs q = None \<and> replacement \<noteq> None
          \<and> fs_names fs' = (fs_names fs)(temp := None, q := fs_names fs target, target := replacement)
      | PubNotMoved _ \<Rightarrow> (\<forall>p. p \<noteq> temp \<longrightarrow> fs_names fs' p = fs_names fs p)
      | PubRolledBack _ \<Rightarrow> (\<forall>p. p \<noteq> temp \<longrightarrow> fs_names fs' p = fs_names fs p)
      | PubStranded q _ \<Rightarrow>
          q \<noteq> temp \<and> fs_names fs q = None \<and> fs_names fs' q = fs_names fs target \<and> fs_names fs' target = None
          \<and> (\<forall>p. p \<notin> {temp, q, target} \<longrightarrow> fs_names fs' p = fs_names fs p))"

lemma remove_replacement_alone:
  assumes "alone env"
  shows "p \<noteq> temp \<Longrightarrow> fs_names (w_fs (snd (remove_replacement env temp w))) p = fs_names (w_fs w) p"
    and "p \<noteq> temp \<Longrightarrow> fs_names (w_fs (snd (remove_file env temp w))) p = fs_names (w_fs w) p"
proof -
  obtain r v where rv: "remove_file env temp w = (r, v)" by fastforce
  have n: "fs_names (w_fs v) p = fs_names (w_fs w) p" if "p \<noteq> temp"
    using remove_file_alone [OF assms, where p = temp and w = w] that by (cases r) (simp_all add: rv)
  then show "p \<noteq> temp \<Longrightarrow> fs_names (w_fs (snd (remove_file env temp w))) p = fs_names (w_fs w) p"
    by (simp add: rv)
  from n show "p \<noteq> temp \<Longrightarrow> fs_names (w_fs (snd (remove_replacement env temp w))) p = fs_names (w_fs w) p"
    by (cases r) (simp_all add: remove_replacement_def rv)
qed

lemma publish_or_restore_alone:
  assumes e: "alone env" and q: "q \<noteq> temp" "q \<noteq> target" "temp \<noteq> target"
    and names: "fs_names (w_fs w2) = (fs_names fs1)(target := None, q := fs_names fs1 target)"
    and free: "fs_names fs1 q = None" and temp: "fs_names fs1 temp \<noteq> None"
  shows "case publish_or_restore env temp q target w2 of (pub, w') \<Rightarrow>
    (case pub of
       PubPublished q' \<Rightarrow> q' = q
         \<and> fs_names (w_fs w') = (fs_names fs1)(temp := None, q := fs_names fs1 target, target := fs_names fs1 temp)
     | PubNotMoved _ \<Rightarrow> False
     | PubRolledBack _ \<Rightarrow> (\<forall>p. p \<noteq> temp \<longrightarrow> fs_names (w_fs w') p = fs_names fs1 p)
     | PubStranded q' _ \<Rightarrow> q' = q \<and> fs_names (w_fs w') q = fs_names fs1 target \<and> fs_names (w_fs w') target = None
         \<and> (\<forall>p. p \<notin> {temp, q, target} \<longrightarrow> fs_names (w_fs w') p = fs_names fs1 p))"
proof -
  obtain p w3 where p: "rename_noreplace env temp target w2 = (p, w3)" by fastforce
  note P = rename_alone [OF e, where src = temp and to = target and w = w2, unfolded p]
  show ?thesis
  proof (cases p)
    case (Inr u)
    with P names q have "fs_names (w_fs w3) = (fs_names fs1)(temp := None, q := fs_names fs1 target, target := fs_names fs1 temp)"
      by (auto simp: fun_eq_iff)
    with Inr p show ?thesis by (simp add: publish_or_restore_def)
  next
    case (Inl err)
    with P have w3: "w_fs w3 = w_fs w2" by simp
    obtain l w4 where l: "remove_replacement env temp w3 = (l, w4)" by fastforce
    have n4: "fs_names (w_fs w4) p = fs_names (w_fs w2) p" if "p \<noteq> temp" for p
      using remove_replacement_alone(1) [OF e that, of w3] l w3 by simp
    obtain b w5 where b: "rename_noreplace env q target w4 = (b, w5)" by fastforce
    note B = rename_alone [OF e, where src = q and to = target and w = w4, unfolded b]
    show ?thesis
    proof (cases b)
      case (Inr u)
      with B have "fs_names (w_fs w5) = (fs_names (w_fs w4))(q := None, target := fs_names (w_fs w4) q)" by simp
      then have "\<forall>p. p \<noteq> temp \<longrightarrow> fs_names (w_fs w5) p = fs_names fs1 p"
        using n4 names q free by auto
      with Inr Inl p l b show ?thesis by (simp add: publish_or_restore_def)
    next
      case b': (Inl e2)
      with B have w5: "w_fs w5 = w_fs w4" by simp
      with n4 names q have "fs_names (w_fs w5) q = fs_names fs1 target \<and> fs_names (w_fs w5) target = None
         \<and> (\<forall>p. p \<notin> {temp, q, target} \<longrightarrow> fs_names (w_fs w5) p = fs_names fs1 p)" by auto
      with b' Inl p l b show ?thesis by (simp add: publish_or_restore_def)
    qed
  qed
qed

context replacement_builder
begin

lemma evacuate_alone:
  assumes e: "alone env" and p: "parent target = Some p" and ne: "staging p (file_name target) \<noteq> target"
    and run: "evacuate_then_publish env attempts staging target build mountpoint qdir w = (pub, w')"
  shows "exchange_spec (staging p (file_name target)) target
    (fs_names (w_fs (snd (build (staging p (file_name target)) w))) (staging p (file_name target)))
    (w_fs w) pub (w_fs w')"
proof -
  let ?temp = "staging p (file_name target)"
  obtain r w1 where r: "build ?temp w = (r, w1)" by fastforce
  have n1: "fs_names (w_fs w1) x = fs_names (w_fs w) x" if "x \<noteq> ?temp" for x
    using build_names [OF e that, of w] r by simp
  show ?thesis
  proof (cases r)
    case (Inl err)
    then have "pub = PubNotMoved (BuildDetail err)" "w' = snd (remove_file env ?temp w1)"
      using run r p by (simp_all add: evacuate_then_publish_def Let_def)
    then show ?thesis
      using n1 remove_replacement_alone(2) [OF e] by (simp add: exchange_spec_def)
  next
    case (Inr u)
    then have "fst (build ?temp w) = Inr ()" using r by simp
    from build_fresh [OF e this] r have t: "fs_names (w_fs w) ?temp = None" "fs_names (w_fs w1) ?temp \<noteq> None"
      by simp_all
    obtain d w2 where d: "delete_to_quarantine env attempts target mountpoint qdir w1 = (d, w2)" by fastforce
    show ?thesis
    proof (cases d)
      case d': (Inl err)
      have "w_fs w2 = w_fs w1" using delete_alone [OF e d] d' by simp
      moreover have "pub = PubNotMoved (EvacuateDetail err)" "w' = snd (remove_file env ?temp w2)"
        using run r p d d' Inr by (simp_all add: evacuate_then_publish_def Let_def)
      ultimately show ?thesis
        using n1 remove_replacement_alone(2) [OF e] by (simp add: exchange_spec_def)
    next
      case d': (Inr q)
      then have m: "moved_name target q (w_fs w1) (w_fs w2)" using delete_alone [OF e d] by simp
      then have free: "fs_names (w_fs w1) q = None" and taken: "fs_names (w_fs w1) target \<noteq> None"
        and names: "fs_names (w_fs w2) = (fs_names (w_fs w1))(target := None, q := fs_names (w_fs w1) target)"
        by (simp_all add: moved_name_def)
      have q: "q \<noteq> ?temp" "q \<noteq> target" using free taken t(2) by auto
      have run': "publish_or_restore env ?temp q target w2 = (pub, w')"
        using run r p d d' Inr by (simp add: evacuate_then_publish_def Let_def)
      note P = publish_or_restore_alone [OF e q ne names free t(2), unfolded run', simplified]
      have nq: "fs_names (w_fs w) q = None" using n1 [OF q(1)] free by simp
      have nt: "fs_names (w_fs w1) target = fs_names (w_fs w) target" using n1 ne by metis
      show ?thesis
      proof (cases pub)
        case (PubPublished q')
        with P have "q' = q"
          "fs_names (w_fs w') = (fs_names (w_fs w1))(?temp := None, q := fs_names (w_fs w1) target, target := fs_names (w_fs w1) ?temp)"
          by simp_all
        then show ?thesis
          using PubPublished nq nt q t r n1 by (auto simp: exchange_spec_def fun_eq_iff)
      next
        case (PubNotMoved d)
        with P show ?thesis by simp
      next
        case (PubRolledBack d)
        with P n1 show ?thesis by (simp add: exchange_spec_def)
      next
        case (PubStranded q' d)
        with P n1 nq nt q show ?thesis by (auto simp: exchange_spec_def)
      qed
    qed
  qed
qed

end

section \<open>Hard links\<close>

interpretation link_safe: safe_builder env T "\<lambda>temp. hard_link env keeper temp" for env T keeper
  by unfold_locales (rule hard_link_kept)

interpretation link_builder: replacement_builder env "\<lambda>temp. hard_link env keeper temp" for env keeper
proof unfold_locales
  fix temp w and p :: path
  assume e: "alone env"
  note l = hard_link_alone [OF e, where src = keeper and dst = temp and w = w]
  show "p \<noteq> temp \<Longrightarrow> fs_names (w_fs (snd (hard_link env keeper temp w))) p = fs_names (w_fs w) p"
    using l by (auto split: prod.splits sum.splits)
  show "fst (hard_link env keeper temp w) = Inr () \<Longrightarrow>
      fs_names (w_fs w) temp = None \<and> fs_names (w_fs (snd (hard_link env keeper temp w))) temp \<noteq> None"
    using l by (auto split: prod.splits sum.splits)
qed

text \<open>
  Linking never costs a file, whatever fails and whoever else is at work: as long as
  outsiders destroy nothing themselves and nobody uses the staging names, every file that had a name
  before the exchange has one after it, its content untouched, whether the exchange was published,
  refused, rolled back or stranded.
\<close>

theorem hardlink_loses_nothing:
  assumes "benign T env" and "\<And>p n. staging p n \<in> T" and "apart T target mountpoint qdir"
  shows "kept T (w_fs w) (w_fs (snd (hardlink env attempts staging target keeper mountpoint qdir w)))"
  unfolding hardlink_def using assms by (rule link_safe.evacuate_kept)

text \<open>
  What a hardlink exchange reports is what happened: published means that the target is now
  a name of the keeper's file and the original is at the reported quarantine path and nothing else
  changed; not moved and rolled back mean that every name but the staging name is as before; stranded
  means that the original is at the reported path and its place is empty.
\<close>

theorem hardlink_reports_truly:
  assumes "alone env" and "parent target = Some p" and "staging p (file_name target) \<notin> {target, keeper}"
    and "hardlink env attempts staging target keeper mountpoint qdir w = (pub, w')"
  shows "exchange_spec (staging p (file_name target)) target
    (if \<exists>q. pub = PubPublished q then fs_names (w_fs w) keeper else None) (w_fs w) pub (w_fs w')"
proof -
  let ?temp = "staging p (file_name target)"
  let ?rep = "fs_names (w_fs (snd (hard_link env keeper ?temp w))) ?temp"
  have ne: "?temp \<noteq> target" using assms(3) by simp
  have spec: "exchange_spec ?temp target ?rep (w_fs w) pub (w_fs w')"
    by (rule link_builder.evacuate_alone [OF assms(1,2) ne assms(4) [unfolded hardlink_def]])
  show ?thesis
  proof (cases "\<exists>q. pub = PubPublished q")
    case True
    then have "fst (hard_link env keeper ?temp w) = Inr ()"
      using assms(2,4) by (auto simp: hardlink_def evacuate_then_publish_def Let_def split: prod.splits sum.splits)
    then have "?rep = fs_names (w_fs w) keeper"
      using hard_link_alone [OF assms(1), where src = keeper and dst = ?temp and w = w] by (auto split: prod.splits sum.splits)
    with spec True show ?thesis by simp
  next
    case False
    with spec show ?thesis by (cases pub) (simp_all add: exchange_spec_def)
  qed
qed

text \<open>A staging name for the sample disk.\<close>

definition sample_staging :: "path \<Rightarrow> string option \<Rightarrow> path" where
  "sample_staging p _ = p @ [Normal ''tmp'']"

definition sample_exchange :: "env \<Rightarrow> publication \<times> world" where
  "sample_exchange env =
     hardlink env 3 sample_staging [RootDir, Normal ''d''] [RootDir, Normal ''a''] [RootDir] [RootDir, Normal ''q''] sample_world"

theorem hardlink_loses_nothing_witness:
  "kept {p. last p = Normal ''tmp''} sample_fs (w_fs (snd (sample_exchange sample_env)))"
proof -
  have l: "last (suffixed b m) \<noteq> Normal ''tmp''" if "b = [RootDir, Normal ''q'', Normal ''d'']" for b m
    using that by (auto simp: suffixed_def with_file_name_def file_name_def)
  have "apart {p. last p = Normal ''tmp''} [RootDir, Normal ''d''] [RootDir] [RootDir, Normal ''q'']"
    using l by (auto simp: apart_def join_def)
  moreover have w: "sample_fs = w_fs sample_world" by (simp add: sample_world_def)
  ultimately show ?thesis
    unfolding sample_exchange_def w
    by (intro hardlink_loses_nothing alone_benign sample_quiet(2)) (simp_all add: sample_staging_def)
qed

text \<open>The publishing rename of the sample fails with an I/O error: tick 4 of the run.\<close>

definition sample_broken :: env where
  "sample_broken = sample_env\<lparr>ev_fault := (\<lambda>n. if n = 4 then Some EIO else None)\<rparr>"

theorem hardlink_reports_truly_witness:
  "fst (sample_exchange sample_env) = PubPublished [RootDir, Normal ''q'', Normal ''d'']
   \<and> fst (sample_exchange sample_broken)
     = PubRolledBack (RestoredDetail (Some ''an I/O error on the pool (check `zpool status`)'') EIO None)
   \<and> fs_names (w_fs (snd (sample_exchange sample_env))) [RootDir, Normal ''d''] = Some (Inode 1 11)
   \<and> fs_names (w_fs (snd (sample_exchange sample_broken))) [RootDir, Normal ''d''] = Some (Inode 1 12)"
proof (intro conjI)
  show e1: "fst (sample_exchange sample_env) = PubPublished [RootDir, Normal ''q'', Normal ''d'']" by code_simp
  show e2: "fst (sample_exchange sample_broken)
     = PubRolledBack (RestoredDetail (Some ''an I/O error on the pool (check `zpool status`)'') EIO None)" by code_simp
  have p: "parent [RootDir, Normal ''d''] = Some [RootDir]" by (simp add: parent_def)
  have n: "fs_names (w_fs sample_world) [RootDir, Normal ''a''] = Some (Inode 1 11)"
    "fs_names (w_fs sample_world) [RootDir, Normal ''d''] = Some (Inode 1 12)" by code_simp+
  have s: "sample_staging [RootDir] n \<notin> {[RootDir, Normal ''d''], [RootDir, Normal ''a'']}" for n
    by (simp add: sample_staging_def)
  have b: "alone sample_broken" using sample_quiet(2) by (simp add: sample_broken_def alone_def)
  from hardlink_reports_truly [OF sample_quiet(2) p s surjective_pairing [of "sample_exchange sample_env", unfolded sample_exchange_def]]
  show "fs_names (w_fs (snd (sample_exchange sample_env))) [RootDir, Normal ''d''] = Some (Inode 1 11)"
    using e1 n by (simp add: sample_exchange_def exchange_spec_def)
  from hardlink_reports_truly [OF b p s surjective_pairing [of "sample_exchange sample_broken", unfolded sample_exchange_def]]
  show "fs_names (w_fs (snd (sample_exchange sample_broken))) [RootDir, Normal ''d''] = Some (Inode 1 12)"
    using e2 n by (simp add: sample_exchange_def exchange_spec_def sample_staging_def)
qed

end
