(* ===== verification/Obstacles.thy ===== *)
theory Obstacles
  imports Publication
begin

text \<open>
  What stands in the way of an action before the first snapshot: \<open>src/src/actions/preflight.rs\<close> and
  the dataset record of \<open>src/src/model/dataset.rs\<close>. What the kernel says about a pathname is the
  parameter \<open>probe\<close>, and which quarantine roots exist is the parameter \<open>root_is_dir\<close>: both are read,
  never changed, in one pass. The pass keeps what it has read of directories.
\<close>

section \<open>Datasets\<close>

record dataset =
  ds_name :: string
  ds_mountpoint :: path
  ds_device :: "u64 option"
  ds_snapdir_visible :: bool
  ds_block_cloning :: "bool option"

definition pool_name :: "dataset \<Rightarrow> string" where
  "pool_name ds = hd (split_slash (ds_name ds))"

definition dataset_by_device :: "dataset list \<Rightarrow> u64 \<Rightarrow> dataset option" where
  "dataset_by_device datasets device = find (\<lambda>ds. ds_device ds = Some device) datasets"

section \<open>What the plan alone decides\<close>

definition target_device :: "action_plan \<Rightarrow> plan_action \<Rightarrow> u64" where
  "target_device plan a = key_device (po_key (ap_objects plan ! pa_target_object a))"

definition keeper_device :: "action_plan \<Rightarrow> plan_action \<Rightarrow> u64" where
  "keeper_device plan a = key_device (po_key (ap_objects plan ! pa_keeper_object a))"

definition place :: "action_plan \<Rightarrow> plan_action \<Rightarrow> dataset list \<Rightarrow> bool \<Rightarrow> obstacle + dataset" where
  "place plan a datasets reflink_safe =
     (let kind = pa_kind a; device = target_device plan a
      in if kind = Reflink \<and> \<not> reflink_safe then Inl CannotCloneOnHost
         else if kind \<noteq> Delete \<and> keeper_device plan a \<noteq> device then Inl (CrossDatasetLink kind)
         else case dataset_by_device datasets device of
                None \<Rightarrow> Inl (DatasetUnknown kind)
              | Some ds \<Rightarrow>
                  if kind = Reflink \<and> ds_block_cloning ds = Some False then Inl (PoolCannotClone (pool_name ds))
                  else Inr ds)"

section \<open>What the filesystem says\<close>

datatype role = FileRole | DirectoryRole

record probe =
  pr_read_only :: bool
  pr_full :: bool
  pr_immutable :: bool
  pr_append_only :: bool
  pr_mount :: "u64 option"

type_synonym probe_fn = "path \<Rightarrow> role \<Rightarrow> probe"

definition no_probe :: probe where
  "no_probe = \<lparr>pr_read_only = False, pr_full = False, pr_immutable = False, pr_append_only = False,
     pr_mount = None\<rparr>"

text \<open>The state of one pass: the directories read and the nests found so far.\<close>

record probes =
  pb_directories :: "(path \<times> probe) list"
  pb_nests :: "(path \<times> path) list"

definition probes_new :: probes where
  "probes_new = \<lparr>pb_directories = [], pb_nests = []\<rparr>"

definition directory :: "probe_fn \<Rightarrow> path \<Rightarrow> probes \<Rightarrow> probe \<times> probes" where
  "directory probe p pb =
     (case map_of (pb_directories pb) p of
        Some pr \<Rightarrow> (pr, pb)
      | None \<Rightarrow> let pr = probe p DirectoryRole in (pr, pb\<lparr>pb_directories := (p, pr) # pb_directories pb\<rparr>))"

definition nest :: "(path \<Rightarrow> bool) \<Rightarrow> path \<Rightarrow> probes \<Rightarrow> path \<times> probes" where
  "nest root_is_dir mountpoint pb =
     (case map_of (pb_nests pb) mountpoint of
        Some q \<Rightarrow> (q, pb)
      | None \<Rightarrow>
          let q = (if root_is_dir (quarantine_root mountpoint) then quarantine_root mountpoint else mountpoint)
          in (q, pb\<lparr>pb_nests := (mountpoint, q) # pb_nests pb\<rparr>))"

definition differ :: "u64 option \<Rightarrow> u64 option \<Rightarrow> bool" where
  "differ one other = (case (one, other) of (Some a, Some b) \<Rightarrow> a \<noteq> b | _ \<Rightarrow> False)"

text \<open>The keeper's side of a hardlink.\<close>

definition keeper_obstacle ::
  "probe_fn \<Rightarrow> plan_action \<Rightarrow> u64 option \<Rightarrow> probes \<Rightarrow> obstacle option \<times> probes" where
  "keeper_obstacle probe a here_mount pb =
     (let (far, pb) = (case parent (pa_keeper a) of
            None \<Rightarrow> (False, pb)
          | Some dir \<Rightarrow> (let (there, pb) = directory probe dir pb in (differ (pr_mount there) here_mount, pb)))
      in if far then (Some KeeperAnotherMount, pb)
         else let source = probe (pa_keeper a) FileRole
              in (if pr_immutable source then Some KeeperImmutable
                  else if pr_append_only source then Some KeeperAppendOnly
                  else None, pb))"

definition obstacle_of ::
  "probe_fn \<Rightarrow> (path \<Rightarrow> bool) \<Rightarrow> action_plan \<Rightarrow> dataset list \<Rightarrow> bool \<Rightarrow> plan_action \<Rightarrow> probes
     \<Rightarrow> obstacle option \<times> probes" where
  "obstacle_of probe root_is_dir plan datasets reflink_safe a pb =
     (case place plan a datasets reflink_safe of
        Inl reason \<Rightarrow> (Some reason, pb)
      | Inr ds \<Rightarrow>
          if strip_prefix (pa_target a) (ds_mountpoint ds) = None
            then (Some (OutsideMountpoint (ds_name ds) (ds_mountpoint ds)), pb)
          else case parent (pa_target a) of
            None \<Rightarrow> (Some NoParentDirectory, pb)
          | Some dir \<Rightarrow>
              let (home, pb) = directory probe (ds_mountpoint ds) pb;
                  (here, pb) = directory probe dir pb
              in if differ (pr_mount here) (pr_mount home) then (Some (AnotherMount (ds_name ds)), pb)
                 else if pr_read_only home \<or> pr_read_only here then (Some (ReadOnlyFilesystem (ds_name ds)), pb)
                 else if pr_full home then (Some (NoSpaceLeft (ds_name ds)), pb)
                 else
                   let (q, pb) = nest root_is_dir (ds_mountpoint ds) pb;
                       (inside, pb) = directory probe q pb
                   in if pr_immutable inside then (Some (QuarantineImmutable q), pb)
                      else if pr_immutable here then (Some DirectoryImmutable, pb)
                      else if pr_append_only here then (Some DirectoryAppendOnly, pb)
                      else
                        let file = probe (pa_target a) FileRole
                        in if pr_immutable file then (Some FileImmutable, pb)
                           else if pr_append_only file then (Some FileAppendOnly, pb)
                           else if pa_kind a \<noteq> Hardlink then (None, pb)
                           else keeper_obstacle probe a (pr_mount here) pb)"

fun obstacles_from ::
  "probe_fn \<Rightarrow> (path \<Rightarrow> bool) \<Rightarrow> action_plan \<Rightarrow> dataset list \<Rightarrow> bool \<Rightarrow> plan_action list \<Rightarrow> probes
     \<Rightarrow> obstacle option list" where
  "obstacles_from probe root_is_dir plan datasets reflink_safe [] pb = []"
| "obstacles_from probe root_is_dir plan datasets reflink_safe (a # as) pb =
     (case obstacle_of probe root_is_dir plan datasets reflink_safe a pb of
        (x, pb') \<Rightarrow> x # obstacles_from probe root_is_dir plan datasets reflink_safe as pb')"

definition obstacles :: "probe_fn \<Rightarrow> (path \<Rightarrow> bool) \<Rightarrow> action_plan \<Rightarrow> dataset list \<Rightarrow> bool \<Rightarrow> obstacle option list" where
  "obstacles probe root_is_dir plan datasets reflink_safe =
     obstacles_from probe root_is_dir plan datasets reflink_safe (ap_actions plan) probes_new"

definition unrunnable_of :: "probe_fn \<Rightarrow> (path \<Rightarrow> bool) \<Rightarrow> action_plan \<Rightarrow> dataset list \<Rightarrow> bool \<Rightarrow> unrunnable" where
  "unrunnable_of probe root_is_dir plan datasets reflink_safe =
     unrunnable_new (obstacles probe root_is_dir plan datasets reflink_safe)"

section \<open>A batch in which nothing can run\<close>

fun first_reason :: "bool \<Rightarrow> (plan_action \<times> obstacle option) list \<Rightarrow> (plan_action \<times> obstacle) option" where
  "first_reason skip_set_aside [] = None"
| "first_reason skip_set_aside ((a, found) # rest) =
     (case found of
        Some reason \<Rightarrow>
          if skip_set_aside \<and> reason = SetAside then first_reason skip_set_aside rest else Some (a, reason)
      | None \<Rightarrow> first_reason skip_set_aside rest)"

text \<open>The line: the number of actions, the reason and the first target.\<close>

definition nothing_can_run :: "action_plan \<Rightarrow> obstacle option list \<Rightarrow> (nat \<times> obstacle \<times> path) option" where
  "nothing_can_run plan found =
     (if length found \<noteq> length (ap_actions plan) \<or> None \<in> set found then None
      else
        let pairs = zip (ap_actions plan) found
        in map_option (\<lambda>(a, reason). (length found, reason, pa_target a))
             (case first_reason True pairs of Some x \<Rightarrow> Some x | None \<Rightarrow> first_reason False pairs))"

text \<open>\<open>reflink_refusal\<close>: the whole host, or the first pool that cannot clone with its count.\<close>

datatype reflink_block = HostCannot nat path | PoolCannot string nat path

definition blocked_pool :: "action_plan \<Rightarrow> dataset list \<Rightarrow> plan_action \<Rightarrow> string option" where
  "blocked_pool plan datasets a =
     (case dataset_by_device datasets (target_device plan a) of
        Some ds \<Rightarrow> if ds_block_cloning ds = Some False then Some (pool_name ds) else None
      | None \<Rightarrow> None)"

definition reflink_refusal :: "action_plan \<Rightarrow> dataset list \<Rightarrow> bool \<Rightarrow> reflink_block option" where
  "reflink_refusal plan datasets reflink_safe =
     (let reflinks = filter (\<lambda>a. pa_kind a = Reflink) (ap_actions plan)
      in case reflinks of
           [] \<Rightarrow> None
         | first # _ \<Rightarrow>
             if \<not> reflink_safe then Some (HostCannot (length reflinks) (pa_target first))
             else case find (\<lambda>a. blocked_pool plan datasets a \<noteq> None) reflinks of
                    None \<Rightarrow> None
                  | Some blocked \<Rightarrow>
                      (case blocked_pool plan datasets blocked of
                         None \<Rightarrow> None
                       | Some pool \<Rightarrow>
                           Some (PoolCannot pool
                             (length (filter (\<lambda>a. blocked_pool plan datasets a = Some pool) reflinks))
                             (pa_target blocked))))"

section \<open>The pass without its memory\<close>

text \<open>The same answer, reading every directory anew.\<close>

definition plain_obstacle ::
  "probe_fn \<Rightarrow> (path \<Rightarrow> bool) \<Rightarrow> action_plan \<Rightarrow> dataset list \<Rightarrow> bool \<Rightarrow> plan_action \<Rightarrow> obstacle option" where
  "plain_obstacle probe root_is_dir plan datasets reflink_safe a =
     (case place plan a datasets reflink_safe of
        Inl reason \<Rightarrow> Some reason
      | Inr ds \<Rightarrow>
          if strip_prefix (pa_target a) (ds_mountpoint ds) = None
            then Some (OutsideMountpoint (ds_name ds) (ds_mountpoint ds))
          else case parent (pa_target a) of
            None \<Rightarrow> Some NoParentDirectory
          | Some dir \<Rightarrow>
              let home = probe (ds_mountpoint ds) DirectoryRole;
                  here = probe dir DirectoryRole;
                  q = (if root_is_dir (quarantine_root (ds_mountpoint ds)) then quarantine_root (ds_mountpoint ds)
                       else ds_mountpoint ds);
                  file = probe (pa_target a) FileRole;
                  source = probe (pa_keeper a) FileRole
              in if differ (pr_mount here) (pr_mount home) then Some (AnotherMount (ds_name ds))
                 else if pr_read_only home \<or> pr_read_only here then Some (ReadOnlyFilesystem (ds_name ds))
                 else if pr_full home then Some (NoSpaceLeft (ds_name ds))
                 else if pr_immutable (probe q DirectoryRole) then Some (QuarantineImmutable q)
                 else if pr_immutable here then Some DirectoryImmutable
                 else if pr_append_only here then Some DirectoryAppendOnly
                 else if pr_immutable file then Some FileImmutable
                 else if pr_append_only file then Some FileAppendOnly
                 else if pa_kind a \<noteq> Hardlink then None
                 else if (case parent (pa_keeper a) of None \<Rightarrow> False
                          | Some kd \<Rightarrow> differ (pr_mount (probe kd DirectoryRole)) (pr_mount here))
                   then Some KeeperAnotherMount
                 else if pr_immutable source then Some KeeperImmutable
                 else if pr_append_only source then Some KeeperAppendOnly
                 else None)"

definition remembers :: "probe_fn \<Rightarrow> (path \<Rightarrow> bool) \<Rightarrow> probes \<Rightarrow> bool" where
  "remembers probe root_is_dir pb \<longleftrightarrow>
     (\<forall>(p, pr) \<in> set (pb_directories pb). pr = probe p DirectoryRole)
     \<and> (\<forall>(m, q) \<in> set (pb_nests pb). q = (if root_is_dir (quarantine_root m) then quarantine_root m else m))"

lemma directory_remembers:
  "remembers probe root_is_dir pb \<Longrightarrow> directory probe p pb = (pr, pb') \<Longrightarrow>
     pr = probe p DirectoryRole \<and> remembers probe root_is_dir pb'"
  by (auto simp: directory_def remembers_def Let_def split: option.splits dest!: map_of_SomeD)

lemma nest_remembers:
  "remembers probe root_is_dir pb \<Longrightarrow> nest root_is_dir m pb = (q, pb') \<Longrightarrow>
     q = (if root_is_dir (quarantine_root m) then quarantine_root m else m) \<and> remembers probe root_is_dir pb'"
  by (fastforce simp: nest_def remembers_def Let_def split: option.splits if_splits dest!: map_of_SomeD)

lemma keeper_obstacle_plain:
  assumes "remembers probe root_is_dir pb" and "keeper_obstacle probe a here_mount pb = (x, pb')"
  shows "x = (if (case parent (pa_keeper a) of None \<Rightarrow> False
                  | Some kd \<Rightarrow> differ (pr_mount (probe kd DirectoryRole)) here_mount)
              then Some KeeperAnotherMount
              else if pr_immutable (probe (pa_keeper a) FileRole) then Some KeeperImmutable
              else if pr_append_only (probe (pa_keeper a) FileRole) then Some KeeperAppendOnly
              else None)
    \<and> remembers probe root_is_dir pb'"
proof (cases "parent (pa_keeper a)")
  case None
  with assms show ?thesis by (auto simp: keeper_obstacle_def Let_def)
next
  case (Some kd)
  obtain there pb1 where d: "directory probe kd pb = (there, pb1)" by fastforce
  from directory_remembers [OF assms(1) d] assms(2) Some d show ?thesis
    by (auto simp: keeper_obstacle_def Let_def split: if_splits)
qed

lemma obstacle_of_plain:
  assumes "remembers probe root_is_dir pb" and "obstacle_of probe root_is_dir plan datasets safe a pb = (x, pb')"
  shows "x = plain_obstacle probe root_is_dir plan datasets safe a \<and> remembers probe root_is_dir pb'"
proof (cases "place plan a datasets safe")
  case (Inl reason)
  with assms show ?thesis by (simp add: obstacle_of_def plain_obstacle_def)
next
  case (Inr ds)
  show ?thesis
  proof (cases "strip_prefix (pa_target a) (ds_mountpoint ds) = None \<or> parent (pa_target a) = None")
    case True
    with assms Inr show ?thesis by (auto simp: obstacle_of_def plain_obstacle_def)
  next
    case False
    then obtain dir where dir: "parent (pa_target a) = Some dir" by auto
    obtain home pb1 where h: "directory probe (ds_mountpoint ds) pb = (home, pb1)" by fastforce
    obtain here pb2 where e: "directory probe dir pb1 = (here, pb2)" by fastforce
    obtain q pb3 where n: "nest root_is_dir (ds_mountpoint ds) pb2 = (q, pb3)" by fastforce
    obtain inside pb4 where i: "directory probe q pb3 = (inside, pb4)" by fastforce
    define q' where "q' = (if root_is_dir (quarantine_root (ds_mountpoint ds)) then quarantine_root (ds_mountpoint ds)
       else ds_mountpoint ds)"
    note H = directory_remembers [OF assms(1) h]
    note E = directory_remembers [OF H [THEN conjunct2] e]
    note N = nest_remembers [OF E [THEN conjunct2] n, folded q'_def]
    note I = directory_remembers [OF N [THEN conjunct2] i]
    obtain y pb5 where k: "keeper_obstacle probe a (pr_mount here) pb4 = (y, pb5)" by fastforce
    note K = keeper_obstacle_plain [OF I [THEN conjunct2] k]
    have r: "remembers probe root_is_dir pb2" "remembers probe root_is_dir pb4" "remembers probe root_is_dir pb5"
      using E I K by blast+
    have v: "home = probe (ds_mountpoint ds) DirectoryRole" "here = probe dir DirectoryRole" "q = q'"
      "inside = probe q DirectoryRole" using H E N I by simp_all
    have s: "\<not> strip_prefix (pa_target a) (ds_mountpoint ds) = None" using False by simp
    have "fst (obstacle_of probe root_is_dir plan datasets safe a pb) = plain_obstacle probe root_is_dir plan datasets safe a
        \<and> remembers probe root_is_dir (snd (obstacle_of probe root_is_dir plan datasets safe a pb))"
      unfolding obstacle_of_def plain_obstacle_def Inr sum.case if_not_P [OF s] dir option.case Let_def h e n i k
        prod.case q'_def [symmetric] K [THEN conjunct1] v [symmetric]
      by (simp only: fst_conv snd_conv r if_distrib [of fst] if_distrib [of snd] if_distrib [of "remembers probe root_is_dir"]
        if_cancel simp_thms)
    with assms(2) show ?thesis by simp
  qed
qed

lemma obstacles_plain:
  "obstacles probe root_is_dir plan datasets safe
     = map (plain_obstacle probe root_is_dir plan datasets safe) (ap_actions plan)"
proof -
  have "obstacles_from probe root_is_dir plan datasets safe as pb = map (plain_obstacle probe root_is_dir plan datasets safe) as"
    if "remembers probe root_is_dir pb" for as pb
    using that
  proof (induction as arbitrary: pb)
    case (Cons a as)
    obtain x pb' where x: "obstacle_of probe root_is_dir plan datasets safe a pb = (x, pb')" by fastforce
    from obstacle_of_plain [OF Cons.prems x] Cons.IH [of pb'] x show ?case by simp
  qed simp
  then show ?thesis by (simp add: obstacles_def probes_new_def remembers_def)
qed

text \<open>
  Remembering what was read of a directory changes no answer: the pass over a plan finds for
  every action what reading everything anew for that action alone would find, in the plan's order.
\<close>

theorem obstacles_memoryless:
  "obstacles probe root_is_dir plan datasets safe
     = map (plain_obstacle probe root_is_dir plan datasets safe) (ap_actions plan)"
  by (rule obstacles_plain)

section \<open>What the answers mean\<close>

text \<open>
  What the kernel does not say refuses nothing: when no probe reports anything, an action is
  refused only for what the plan and the host decide, for lying outside its dataset's mountpoint or
  for having no directory.
\<close>

theorem silence_refuses_nothing:
  "plain_obstacle (\<lambda>_ _. no_probe) root_is_dir plan datasets safe a = None \<longleftrightarrow>
     (case place plan a datasets safe of
        Inl _ \<Rightarrow> False
      | Inr ds \<Rightarrow> prefix (ds_mountpoint ds) (pa_target a) \<and> parent (pa_target a) \<noteq> None)"
  by (auto simp: plain_obstacle_def no_probe_def Let_def differ_def strip_prefix_def
      split: sum.splits option.splits if_splits)

lemma first_reason_None: "first_reason skip ps = None \<longleftrightarrow>
    (\<forall>(a, x) \<in> set ps. x = None \<or> skip \<and> x = Some SetAside)"
  by (induction skip ps rule: first_reason.induct) (auto split: option.splits)

lemma first_reason_Some: "first_reason skip ps = Some (a, r) \<Longrightarrow> (a, Some r) \<in> set ps \<and> (skip \<longrightarrow> r \<noteq> SetAside)"
  by (induction skip ps rule: first_reason.induct) (auto split: option.splits if_splits)

lemma zip_all: "length xs = length ys \<Longrightarrow> (\<forall>(a, x) \<in> set (zip xs ys). P x) \<longleftrightarrow> (\<forall>x \<in> set ys. P x)"
  by (induction xs ys rule: list_induct2) auto

text \<open>
  A batch is refused as a whole exactly when it has actions and every one has an obstacle
  read for this plan; the line counts them all, names the target and the reason of one of them, and
  blames the confirmation's own setting aside only when there is no other reason to name.
\<close>

theorem nothing_can_run_exact:
  "(nothing_can_run plan found \<noteq> None \<longleftrightarrow>
      length found = length (ap_actions plan) \<and> ap_actions plan \<noteq> [] \<and> None \<notin> set found)
   \<and> (nothing_can_run plan found = Some (n, reason, p) \<longrightarrow>
      n = length found
      \<and> (\<exists>i < length found. found ! i = Some reason \<and> pa_target (ap_actions plan ! i) = p)
      \<and> (reason = SetAside \<longrightarrow> set found = {Some SetAside}))"
proof (cases "length found = length (ap_actions plan) \<and> None \<notin> set found")
  case False
  then show ?thesis by (auto simp: nothing_can_run_def)
next
  case True
  let ?ps = "zip (ap_actions plan) found"
  have len: "length (ap_actions plan) = length found" and none: "None \<notin> set found" using True by simp_all
  have f: "first_reason False ?ps = None \<longleftrightarrow> found = []"
    unfolding first_reason_None using none zip_all [OF len, of "\<lambda>x. x = None"] by (cases found) auto
  have t: "first_reason True ?ps = None \<longleftrightarrow> set found \<subseteq> {Some SetAside}"
    unfolding first_reason_None using none zip_all [OF len, of "\<lambda>x. x = None \<or> x = Some SetAside"] by auto
  have inps: "\<exists>i < length found. found ! i = Some r \<and> pa_target (ap_actions plan ! i) = pa_target a"
    if "(a, Some r) \<in> set ?ps" for a r
    using that len by (auto simp: set_zip)
  have un: "nothing_can_run plan found = map_option (\<lambda>(a, reason). (length found, reason, pa_target a))
      (case first_reason True ?ps of Some x \<Rightarrow> Some x | None \<Rightarrow> first_reason False ?ps)"
    using True by (simp add: nothing_can_run_def Let_def)
  have ne: "ap_actions plan \<noteq> [] \<longleftrightarrow> found \<noteq> []" using len by auto
  show ?thesis
  proof (cases "first_reason True ?ps")
    case None
    then have sub: "set found \<subseteq> {Some SetAside}" using t by simp
    show ?thesis
    proof (cases "first_reason False ?ps")
      case None': None
      then show ?thesis using None un f ne by simp
    next
      case (Some x)
      obtain a r where x: "x = (a, r)" by (cases x)
      from Some f have nef: "found \<noteq> []" by auto
      with sub have "set found = {Some SetAside}" by (auto simp: subset_singleton_iff)
      then show ?thesis
        using None Some un ne nef len none inps first_reason_Some [of False ?ps a r] x by auto
    qed
  next
    case (Some x)
    obtain a r where x: "x = (a, r)" by (cases x)
    have "found \<noteq> []" using Some by auto
    then show ?thesis
      using Some un ne len none inps first_reason_Some [of True ?ps a r] x by auto
  qed
qed

theorem nothing_can_run_exact_witness:
  "nothing_can_run sample_plan [Some SetAside, Some DirectoryImmutable]
     = Some (2, DirectoryImmutable, [RootDir, Normal ''d''])
   \<and> nothing_can_run sample_plan [Some SetAside, None] = None"
proof
  show s: "nothing_can_run sample_plan [Some SetAside, Some DirectoryImmutable]
     = Some (2, DirectoryImmutable, [RootDir, Normal ''d''])"
    unfolding sample_plan_def by code_simp
  show "nothing_can_run sample_plan [Some SetAside, None] = None"
    using nothing_can_run_exact [of sample_plan "[Some SetAside, None]", THEN conjunct1] by (metis list.set_intros)
qed

section \<open>Agreement with the plan\<close>

lemma plan_devices:
  assumes "try_new scan_id input = Inr plan" and "a \<in> set (ap_actions plan)" and "pa_kind a \<noteq> Delete"
  shows "keeper_device plan a = target_device plan a"
  using action_wf_of_plan [OF assms(1,2)] assms(3)
  by (simp add: action_wf_def Let_def keeper_device_def target_device_def)

text \<open>
  The batch's own check against links across datasets is never the one an operator meets: no
  action of a plan that was built is refused by it.
\<close>

theorem plan_never_crosses:
  assumes "try_new scan_id input = Inr plan" and "a \<in> set (ap_actions plan)"
  shows "place plan a datasets safe \<noteq> Inl (CrossDatasetLink kind)"
  using plan_devices [OF assms]
  by (auto simp: place_def Let_def split: option.splits if_splits)

theorem plan_never_crosses_witness:
  "place sample_plan (ap_actions sample_plan ! 1) [] True \<noteq> Inl (CrossDatasetLink Hardlink)"
  using sample_actions(1) by (intro plan_never_crosses [OF sample_accepted] nth_mem) (metis length_map length_Cons less_numeral_extra(1) list.size(3) lessI One_nat_def)

lemma blocked_pool_place:
  assumes "pa_kind a = Reflink" and "keeper_device plan a = target_device plan a"
  shows "blocked_pool plan datasets a = Some pool \<longleftrightarrow> place plan a datasets True = Inl (PoolCannotClone pool)"
  using assms by (auto simp: blocked_pool_def place_def Let_def split: option.splits)

lemma find_in: "find p xs = Some x \<Longrightarrow> x \<in> set xs \<and> p x"
  by (induction xs) (auto split: if_splits)

text \<open>
  A confirmation is refused for its reflinks exactly when the batch would refuse one of them
  for the host or its pool, so a plan that may be confirmed meets neither refusal later.
\<close>

theorem reflink_refusal_agrees:
  assumes "try_new scan_id input = Inr plan"
  shows "reflink_refusal plan datasets safe \<noteq> None \<longleftrightarrow>
    (\<exists>a \<in> set (ap_actions plan). place plan a datasets safe = Inl CannotCloneOnHost
       \<or> (\<exists>pool. place plan a datasets safe = Inl (PoolCannotClone pool)))"
proof -
  let ?r = "filter (\<lambda>a. pa_kind a = Reflink) (ap_actions plan)"
  have host: "place plan a datasets safe = Inl CannotCloneOnHost \<longleftrightarrow> pa_kind a = Reflink \<and> \<not> safe" for a
    by (auto simp: place_def Let_def split: option.splits if_splits)
  have pool: "(\<exists>pool. place plan a datasets True = Inl (PoolCannotClone pool)) \<longleftrightarrow>
      pa_kind a = Reflink \<and> blocked_pool plan datasets a \<noteq> None" if "a \<in> set (ap_actions plan)" for a
  proof (cases "pa_kind a = Reflink")
    case True
    from blocked_pool_place [OF True plan_devices [OF assms that]] True show ?thesis by auto
  next
    case False
    then show ?thesis by (auto simp: place_def Let_def split: option.splits if_splits)
  qed
  show ?thesis
  proof (cases safe)
    case False
    have "place plan a datasets False \<noteq> Inl (PoolCannotClone p)" for a p
      by (auto simp: place_def Let_def split: option.splits if_splits)
    moreover have "reflink_refusal plan datasets safe \<noteq> None \<longleftrightarrow> ?r \<noteq> []"
      using False by (cases ?r) (simp_all add: reflink_refusal_def Let_def)
    ultimately show ?thesis using False host by (auto simp: filter_empty_conv)
  next
    case True
    have "reflink_refusal plan datasets safe \<noteq> None \<longleftrightarrow> (\<exists>a \<in> set ?r. blocked_pool plan datasets a \<noteq> None)"
    proof (cases "find (\<lambda>a. blocked_pool plan datasets a \<noteq> None) ?r")
      case None
      then have "reflink_refusal plan datasets safe = None"
        using True by (simp only: reflink_refusal_def Let_def split: list.split) simp
      with None show ?thesis by (auto simp: find_None_iff)
    next
      case (Some b)
      have "b \<in> set ?r" "blocked_pool plan datasets b \<noteq> None"
        by (rule find_in [OF Some, THEN conjunct1], rule find_in [OF Some, THEN conjunct2])
      moreover have "reflink_refusal plan datasets safe \<noteq> None"
      proof (cases ?r)
        case (Cons f fs)
        with Some True calculation(2) show ?thesis
          unfolding reflink_refusal_def Let_def Cons list.case by auto
      qed (use Some in simp)
      ultimately show ?thesis by blast
    qed
    then show ?thesis using True host pool by auto
  qed
qed

theorem reflink_refusal_agrees_witness:
  "reflink_refusal sample_plan [] False = None"
proof -
  have "\<not> (\<exists>a \<in> set (ap_actions sample_plan). pa_kind a = Reflink)"
  proof -
    have "pa_kind ` set (ap_actions sample_plan) = {Delete, Hardlink}"
      using arg_cong [OF sample_actions(1), of set] by simp
    then show ?thesis by (metis action_kind.distinct(3,5) empty_iff image_eqI insert_iff)
  qed
  then show ?thesis
    using reflink_refusal_agrees [OF sample_accepted, of "[]" False]
    by (auto simp: place_def Let_def dataset_by_device_def split: if_splits)
qed

end
