(* ===== verification/Batch.thy ===== *)
theory Batch
  imports Obstacles
begin

text \<open>
  The batch: \<open>run_batch\<close>, \<open>aborted_batch\<close>, the methods of \<open>Batch\<close>, \<open>revalidate\<close> and
  \<open>verify_file\<close> of \<open>src/src/actions/mod.rs\<close>. What the batch is run with is the record \<open>run\<close>: the
  surroundings of the file system, the snapshot command, the digest and the block clone are
  parameters of the model. A detail is the value the source's sentence is built from.
\<close>

section \<open>What a batch is run with\<close>

datatype revalidation_mode = Strict | Hybrid | Fast

record run =
  rn_env :: env
  rn_attempts :: nat
  rn_staging :: "path \<Rightarrow> string option \<Rightarrow> path"
  rn_clone :: "path \<Rightarrow> builder"
  rn_read_meta :: "path \<Rightarrow> world \<Rightarrow> (io_error + string) \<times> world"
  rn_carry :: "string \<Rightarrow> builder"
  rn_digest :: "string \<Rightarrow> string"
  rn_probe :: probe_fn
  rn_root_is_dir :: "path \<Rightarrow> bool"
  rn_snapshot :: "string \<Rightarrow> string \<Rightarrow> string + string"
  rn_cancelled :: "nat \<Rightarrow> bool"
  rn_plan :: action_plan
  rn_datasets :: "dataset list"
  rn_reflink_safe :: bool
  rn_mode :: revalidation_mode
  rn_timestamp :: string

record file_identity =
  fi_dev :: u64
  fi_ino :: u64
  fi_size :: u64
  fi_mtime_sec :: i64
  fi_mtime_nsec :: i64
  fi_ctime_sec :: i64
  fi_ctime_nsec :: i64
  fi_mode :: "32 word"

definition from_metadata :: "inode \<Rightarrow> file_identity" where
  "from_metadata node = (let l = in_live node in
     \<lparr>fi_dev = li_device l, fi_ino = li_inode l, fi_size = li_size l, fi_mtime_sec = li_mtime l,
      fi_mtime_nsec = li_mtime_nsec l, fi_ctime_sec = li_ctime_sec l, fi_ctime_nsec = li_ctime_nsec l,
      fi_mode = in_mode node\<rparr>)"

datatype verify_error =
    VStat path io_error
  | VSymlink path
  | VSize path
  | VRead path io_error
  | VContent path

datatype (plugins only: code size) detail =
    DObstacle obstacle
  | DNoSnapshot string
  | DPlan plan_refusal
  | DVerify verify_error
  | DMove move_error
  | DPub pub_detail "plan_refusal list"
  | DSnapshot string string

record action_outcome =
  ao_kind :: action_kind
  ao_target :: path
  ao_quarantine :: "path option"
  ao_result :: "detail + unit"

type_synonym step_result = "action_outcome \<times> detail action_result"

record batch =
  bt_obstacles :: "obstacle option list"
  bt_guarded :: "string list"
  bt_verified :: "(path \<times> file_identity) list"
  bt_dirs :: "path list"
  bt_ledger :: ledger
  bt_bytes :: u64
  bt_world :: world

section \<open>The content once more\<close>

definition verify_file :: "run \<Rightarrow> path \<Rightarrow> u64 \<Rightarrow> string \<Rightarrow> batch \<Rightarrow> (verify_error + unit) \<times> batch" where
  "verify_file rn p expected_size expected_hash b =
     (case symlink_metadata (rn_env rn) p (bt_world b) of
        (Inl e, w) \<Rightarrow> (Inl (VStat p e), b\<lparr>bt_world := w\<rparr>)
      | (Inr node, w) \<Rightarrow>
          let b = b\<lparr>bt_world := w\<rparr>; current = from_metadata node
          in if in_symlink node then (Inl (VSymlink p), b)
             else if li_size (in_live node) \<noteq> expected_size then (Inl (VSize p), b)
             else if rn_mode rn \<noteq> Strict \<and> map_of (bt_verified b) p = Some current then (Inr (), b)
             else
               case read_file (rn_env rn) p w of
                 (Inl e, w) \<Rightarrow> (Inl (VRead p e), b\<lparr>bt_world := w\<rparr>)
               | (Inr data, w) \<Rightarrow>
                   let b = b\<lparr>bt_world := w, bt_bytes := bt_bytes b + of_nat (length data)\<rparr>
                   in if rn_digest rn data \<noteq> expected_hash then (Inl (VContent p), b)
                      else (Inr (), if rn_mode rn \<noteq> Strict then b\<lparr>bt_verified := (p, current) # bt_verified b\<rparr> else b))"

definition revalidate :: "run \<Rightarrow> plan_action \<Rightarrow> batch \<Rightarrow> (verify_error + unit) \<times> batch" where
  "revalidate rn a b =
     (case verify_file rn (pa_target a) (pa_size a) (pa_expected_hash a) b of
        (Inl e, b) \<Rightarrow> (Inl e, b)
      | (Inr _, b) \<Rightarrow> verify_file rn (pa_keeper a) (pa_size a) (pa_expected_hash a) b)"

text \<open>\<open>verify_bytes_total\<close>: the volume the progress bar expects. The sums wrap.\<close>

fun unique_keepers :: "path list \<Rightarrow> plan_action list \<Rightarrow> plan_action list" where
  "unique_keepers seen [] = []"
| "unique_keepers seen (a # as) =
     (if pa_keeper a \<in> set seen then unique_keepers seen as
      else a # unique_keepers (pa_keeper a # seen) as)"

definition verify_bytes_total :: "action_plan \<Rightarrow> revalidation_mode \<Rightarrow> u64" where
  "verify_bytes_total plan mode =
     (if mode = Strict then sum_list (map (\<lambda>a. saturating_mul (pa_size a) 2) (ap_actions plan))
      else saturating_add (sum_list (map pa_size (ap_actions plan)))
             (sum_list (map pa_size (unique_keepers [] (ap_actions plan)))))"

section \<open>One action\<close>

definition refused :: "plan_action \<Rightarrow> detail \<Rightarrow> step_result" where
  "refused a d =
     (\<lparr>ao_kind = pa_kind a, ao_target = pa_target a, ao_quarantine = None, ao_result = Inl d\<rparr>, Refused False)"

definition note_quarantine :: "path \<Rightarrow> batch \<Rightarrow> batch" where
  "note_quarantine dir b = (if dir \<in> set (bt_dirs b) then b else b\<lparr>bt_dirs := bt_dirs b @ [dir]\<rparr>)"

datatype linkage = HardlinkLinkage | ReflinkLinkage

text \<open>The two readings of a transition; \<open>Inl\<close> keeps the ledger as far as it got.\<close>

definition transition ::
  "run \<Rightarrow> plan_action \<Rightarrow> path \<Rightarrow> linkage option \<Rightarrow> ledger \<Rightarrow> world \<Rightarrow> (plan_refusal option \<times> ledger) \<times> world" where
  "transition rn a moved linkage ledger w =
     (let (disk, w) = look (rn_env rn) w
      in case quarantined disk ledger (pa_target_object a) (pa_target a) moved of
           Inl r \<Rightarrow> ((Some r, ledger), w)
         | Inr ledger \<Rightarrow>
             (case linkage of
                None \<Rightarrow> ((None, ledger), w)
              | Some l \<Rightarrow>
                  let (disk, w) = look (rn_env rn) w
                  in case (case l of
                             HardlinkLinkage \<Rightarrow> linked disk ledger (pa_keeper_object a) (pa_keeper a) (pa_target a)
                           | ReflinkLinkage \<Rightarrow>
                               cloned disk ledger (pa_keeper_object a) (pa_target_object a) (pa_keeper a) (pa_target a)) of
                       Inl r \<Rightarrow> ((Some r, ledger), w)
                     | Inr ledger \<Rightarrow> ((None, ledger), w)))"

definition after_move :: "run \<Rightarrow> plan_action \<Rightarrow> path \<Rightarrow> linkage option \<Rightarrow> batch \<Rightarrow> step_result \<times> batch" where
  "after_move rn a moved linkage b =
     (case transition rn a moved linkage (bt_ledger b) (bt_world b) of
        ((None, ledger), w) \<Rightarrow>
          ((\<lparr>ao_kind = pa_kind a, ao_target = pa_target a, ao_quarantine = Some moved, ao_result = Inr ()\<rparr>, Removed),
           b\<lparr>bt_ledger := ledger, bt_world := w\<rparr>)
      | ((Some r, ledger), w) \<Rightarrow>
          ((\<lparr>ao_kind = pa_kind a, ao_target = pa_target a, ao_quarantine = Some moved, ao_result = Inl (DPlan r)\<rparr>,
            Unsettled moved (DPlan r)),
           b\<lparr>bt_ledger := poison (poison ledger (pa_target_object a)) (pa_keeper_object a), bt_world := w\<rparr>))"

definition settle_or_poison :: "nat \<Rightarrow> plan_refusal + ledger \<Rightarrow> ledger \<Rightarrow> plan_refusal list \<times> ledger" where
  "settle_or_poison obj outcome ledger =
     (case outcome of Inr _ \<Rightarrow> ([], ledger) | Inl r \<Rightarrow> ([r], poison ledger obj))"

text \<open>The ledger after a settle: changed only when it succeeded.\<close>

definition after_settle :: "plan_refusal + ledger \<Rightarrow> ledger \<Rightarrow> ledger" where
  "after_settle outcome ledger = (case outcome of Inr ledger' \<Rightarrow> ledger' | Inl _ \<Rightarrow> ledger)"

text \<open>
  The tail of a publication that did not happen: both allocations are settled, target first, and then
  each one whose settle failed is poisoned.
\<close>

definition after_failure :: "run \<Rightarrow> plan_action \<Rightarrow> publication \<Rightarrow> batch \<Rightarrow> plan_refusal list \<times> batch" where
  "after_failure rn a published b =
     (let (disk, w) = look (rn_env rn) (bt_world b);
          target_settle = (case published of
              PubStranded q _ \<Rightarrow> quarantined disk (bt_ledger b) (pa_target_object a) (pa_target a) q
            | _ \<Rightarrow> settled disk (bt_ledger b) (pa_target_object a) (pa_target a));
          ledger = after_settle target_settle (bt_ledger b);
          (disk, w) = look (rn_env rn) w;
          keeper_settle = settled disk ledger (pa_keeper_object a) (pa_keeper a);
          ledger = after_settle keeper_settle ledger;
          (why1, ledger) = settle_or_poison (pa_target_object a) target_settle ledger;
          (why2, ledger) = settle_or_poison (pa_keeper_object a) keeper_settle ledger
      in (why1 @ why2, b\<lparr>bt_ledger := ledger, bt_world := w\<rparr>))"

definition publication_place :: "publication \<Rightarrow> path option" where
  "publication_place published =
     (case published of PubPublished q \<Rightarrow> Some q | PubStranded q _ \<Rightarrow> Some q | _ \<Rightarrow> None)"

fun with_detail :: "('d \<Rightarrow> 'e) \<Rightarrow> 'd action_result \<Rightarrow> 'e action_result" where
  "with_detail f Removed = Removed"
| "with_detail f (Refused r) = Refused r"
| "with_detail f (Stranded q d) = Stranded q (f d)"
| "with_detail f (Unsettled q d) = Unsettled q (f d)"

definition finish_publication ::
  "run \<Rightarrow> plan_action \<Rightarrow> path \<Rightarrow> publication \<Rightarrow> linkage \<Rightarrow> batch \<Rightarrow> step_result \<times> batch" where
  "finish_publication rn a dir published linkage b =
     (let b = (if publication_place published = None then b else note_quarantine dir b)
      in case published of
           PubPublished moved \<Rightarrow> after_move rn a moved (Some linkage) b
         | _ \<Rightarrow>
             let (unaccounted, b) = after_failure rn a published b;
                 (quarantine, result, outcome) = split_publication published
             in ((\<lparr>ao_kind = pa_kind a, ao_target = pa_target a, ao_quarantine = quarantine,
                   ao_result = (case outcome of Inl d \<Rightarrow> Inl (DPub d unaccounted) | Inr _ \<Rightarrow> Inr ())\<rparr>,
                  with_detail (\<lambda>d. DPub d []) result), b))"

definition apply_delete :: "run \<Rightarrow> plan_action \<Rightarrow> dataset \<Rightarrow> batch \<Rightarrow> step_result \<times> batch" where
  "apply_delete rn a ds b =
     (let dir = quarantine_dir (ds_mountpoint ds) (rn_timestamp rn)
      in case delete_to_quarantine (rn_env rn) (rn_attempts rn) (pa_target a) (ds_mountpoint ds) dir (bt_world b) of
           (Inl e, w) \<Rightarrow> (refused a (DMove e), b\<lparr>bt_world := w\<rparr>)
         | (Inr moved, w) \<Rightarrow> after_move rn a moved None (note_quarantine dir (b\<lparr>bt_world := w\<rparr>)))"

definition apply_hardlink :: "run \<Rightarrow> plan_action \<Rightarrow> dataset \<Rightarrow> batch \<Rightarrow> step_result \<times> batch" where
  "apply_hardlink rn a ds b =
     (let dir = quarantine_dir (ds_mountpoint ds) (rn_timestamp rn)
      in case hardlink (rn_env rn) (rn_attempts rn) (rn_staging rn) (pa_target a) (pa_keeper a) (ds_mountpoint ds) dir (bt_world b) of
           (published, w) \<Rightarrow> finish_publication rn a dir published HardlinkLinkage (b\<lparr>bt_world := w\<rparr>))"

definition apply_reflink :: "run \<Rightarrow> plan_action \<Rightarrow> dataset \<Rightarrow> batch \<Rightarrow> step_result \<times> batch" where
  "apply_reflink rn a ds b =
     (let dir = quarantine_dir (ds_mountpoint ds) (rn_timestamp rn)
      in case reflink (rn_env rn) (rn_attempts rn) (rn_staging rn) (rn_clone rn) (rn_read_meta rn) (rn_carry rn)
                (pa_target a) (pa_keeper a) (ds_mountpoint ds) dir (bt_world b) of
           (published, w) \<Rightarrow> finish_publication rn a dir published ReflinkLinkage (b\<lparr>bt_world := w\<rparr>))"

definition guarded_place :: "run \<Rightarrow> plan_action \<Rightarrow> batch \<Rightarrow> detail + dataset" where
  "guarded_place rn a b =
     rbind (map_err DObstacle (place (rn_plan rn) a (rn_datasets rn) (rn_reflink_safe rn))) (\<lambda>ds.
     if ds_name ds \<in> set (bt_guarded b) then Inr ds else Inl (DNoSnapshot (ds_name ds)))"

definition check_both :: "run \<Rightarrow> plan_action \<Rightarrow> batch \<Rightarrow> (plan_refusal + unit) \<times> batch" where
  "check_both rn a b =
     (let (disk, w) = look (rn_env rn) (bt_world b); b = b\<lparr>bt_world := w\<rparr>
      in case check disk (bt_ledger b) (pa_target_object a) of
           Inl r \<Rightarrow> (Inl r, b)
         | Inr _ \<Rightarrow>
             let (disk, w) = look (rn_env rn) (bt_world b); b = b\<lparr>bt_world := w\<rparr>
             in (check disk (bt_ledger b) (pa_keeper_object a), b))"

definition apply_one :: "run \<Rightarrow> nat \<Rightarrow> batch \<Rightarrow> step_result \<times> batch" where
  "apply_one rn i b =
     (let a = ap_actions (rn_plan rn) ! i
      in case bt_obstacles b ! i of
           Some found \<Rightarrow> (refused a (DObstacle found), b)
         | None \<Rightarrow>
             (case guarded_place rn a b of
                Inl reason \<Rightarrow> (refused a reason, b)
              | Inr ds \<Rightarrow>
                  (case check_both rn a b of
                     (Inl r, b) \<Rightarrow> (refused a (DPlan r), b)
                   | (Inr _, b) \<Rightarrow>
                       (case revalidate rn a b of
                          (Inl e, b) \<Rightarrow> (refused a (DVerify e), b)
                        | (Inr _, b) \<Rightarrow>
                            (case pa_kind a of
                               Delete \<Rightarrow> apply_delete rn a ds b
                             | Hardlink \<Rightarrow> apply_hardlink rn a ds b
                             | Reflink \<Rightarrow> apply_reflink rn a ds b)))))"

section \<open>The batch\<close>

fun apply_all :: "run \<Rightarrow> nat list \<Rightarrow> batch \<Rightarrow> (step_result list \<times> bool) \<times> batch" where
  "apply_all rn [] b = (([], False), b)"
| "apply_all rn (i # is) b =
     (if rn_cancelled rn i then (([], True), b)
      else case apply_one rn i b of
             (r, b1) \<Rightarrow> (case apply_all rn is b1 of ((rs, cancelled), b2) \<Rightarrow> ((r # rs, cancelled), b2)))"

record batch_result =
  br_outcomes :: "action_outcome list"
  br_snapshots :: "string list"
  br_dirs :: "path list"
  br_planned :: nat
  br_cancelled :: bool
  br_aborted :: "detail option"
  br_plan :: plan_summary
  br_realized :: "(plan_object_key \<times> detail object_realization) list"
  br_realized_summary :: realized_summary
  br_bytes_read :: u64
  br_settlement :: mark_settlement

datatype begun = Ran batch_result | NothingCanRun "nat \<times> obstacle \<times> path"

definition aborted_batch :: "action_plan \<Rightarrow> string list \<Rightarrow> detail \<Rightarrow> detail + batch_result" where
  "aborted_batch plan snapshots why =
     rbind (map_err DPlan (realize plan ([] :: detail action_result list))) (\<lambda>(realized, summary).
     Inr \<lparr>br_outcomes = [], br_snapshots = snapshots, br_dirs = [], br_planned = length (ap_actions plan),
          br_cancelled = False, br_aborted = Some why, br_plan = runnable_summary plan,
          br_realized = realized, br_realized_summary = summary, br_bytes_read = 0,
          br_settlement = settle_marks plan []\<rparr>)"

text \<open>What stays out: an obstacle found now, or the confirmation's own setting aside.\<close>

definition standing_obstacles :: "run \<Rightarrow> obstacle option list" where
  "standing_obstacles rn =
     map (\<lambda>(i, found). case found of
            Some x \<Rightarrow> Some x
          | None \<Rightarrow> if is_set_aside (rn_plan rn) i then Some SetAside else None)
       (enumerate 0 (obstacles (rn_probe rn) (rn_root_is_dir rn) (rn_plan rn) (rn_datasets rn) (rn_reflink_safe rn)))"

definition add_affected :: "run \<Rightarrow> dataset list \<Rightarrow> plan_action \<times> obstacle option \<Rightarrow> dataset list" where
  "add_affected rn known = (\<lambda>(a, found).
     case (found, dataset_by_device (rn_datasets rn) (target_device (rn_plan rn) a)) of
       (None, Some ds) \<Rightarrow> if ds_name ds \<in> set (map ds_name known) then known else known @ [ds]
     | _ \<Rightarrow> known)"

definition affected_datasets :: "run \<Rightarrow> obstacle option list \<Rightarrow> dataset list" where
  "affected_datasets rn found = foldl (add_affected rn) [] (zip (ap_actions (rn_plan rn)) found)"

text \<open>The snapshots made, and the first one that failed.\<close>

fun make_snapshots :: "run \<Rightarrow> string list \<Rightarrow> string list \<Rightarrow> string list \<times> (string \<times> string) option" where
  "make_snapshots rn made [] = (made, None)"
| "make_snapshots rn made (name # names) =
     (case rn_snapshot rn name (rn_timestamp rn) of
        Inr snapshot \<Rightarrow> make_snapshots rn (made @ [snapshot]) names
      | Inl err \<Rightarrow> (made, Some (name, err)))"

definition open_batch :: "run \<Rightarrow> obstacle option list \<Rightarrow> dataset list \<Rightarrow> ledger \<Rightarrow> world \<Rightarrow> batch" where
  "open_batch rn found affected live w =
     \<lparr>bt_obstacles = found, bt_guarded = map ds_name affected, bt_verified = [], bt_dirs = [],
      bt_ledger = live, bt_bytes = 0, bt_world = w\<rparr>"

definition finish_batch ::
  "run \<Rightarrow> string list \<Rightarrow> step_result list \<Rightarrow> bool \<Rightarrow> batch \<Rightarrow> detail + batch_result" where
  "finish_batch rn snapshots steps cancelled b =
     rbind (map_err DPlan (realize (rn_plan rn) (map snd steps))) (\<lambda>(realized, summary).
     Inr \<lparr>br_outcomes = map fst steps, br_snapshots = snapshots, br_dirs = bt_dirs b,
          br_planned = length (ap_actions (rn_plan rn)), br_cancelled = cancelled, br_aborted = None,
          br_plan = runnable_summary (rn_plan rn), br_realized = realized,
          br_realized_summary = summary, br_bytes_read = bt_bytes b,
          br_settlement = settle_marks (rn_plan rn)
            (map (\<lambda>i. i < length steps \<and> bt_obstacles b ! i = None) [0..<length (ap_actions (rn_plan rn))])\<rparr>)"

definition run_batch :: "run \<Rightarrow> world \<Rightarrow> (detail + begun) \<times> world" where
  "run_batch rn w =
     (let plan = rn_plan rn; (disk, w) = look (rn_env rn) w
      in case preflight disk plan of
           Inl r \<Rightarrow> (Inl (DPlan r), w)
         | Inr _ \<Rightarrow>
             let found = standing_obstacles rn
             in case nothing_can_run plan found of
                  Some line \<Rightarrow> (Inr (NothingCanRun line), w)
                | None \<Rightarrow>
                    let affected = affected_datasets rn found;
                        (snapshots, failed) = make_snapshots rn [] (map ds_name affected)
                    in case failed of
                         Some (name, err) \<Rightarrow>
                           (if snapshots = [] then (Inl (DSnapshot name err), w)
                            else (map_sum id Ran (aborted_batch plan snapshots (DSnapshot name err)), w))
                       | None \<Rightarrow>
                           let (disk, w) = look (rn_env rn) w
                           in case preflight disk plan of
                                Inl r \<Rightarrow> (map_sum id Ran (aborted_batch plan snapshots (DPlan r)), w)
                              | Inr live \<Rightarrow>
                                  let ((steps, cancelled), b) =
                                        apply_all rn [0..<length (ap_actions plan)] (open_batch rn found affected live w)
                                  in (map_sum id Ran (finish_batch rn snapshots steps cancelled b), bt_world b))"

end
