(* ===== verification/Batch_Safety.thy ===== *)
theory Batch_Safety
  imports Batch
begin

text \<open>
  What a batch may do to the disk. A relation between disks that every call of an action respects is
  respected by the whole batch: the locale \<open>batch_relation\<close> states the calls' laws and proves it
  once, and its two instances are that nothing is lost and that only targets lose their names.
\<close>

section \<open>From the calls to the batch\<close>

locale batch_relation =
  fixes ok :: "run \<Rightarrow> bool" and R :: "fs \<Rightarrow> fs \<Rightarrow> bool"
  assumes R_refl: "R fs fs"
    and R_trans: "R x y \<Longrightarrow> R y z \<Longrightarrow> R x z"
    and look_R: "ok rn \<Longrightarrow> R (w_fs w) (w_fs (snd (look (rn_env rn) w)))"
    and stat_R: "ok rn \<Longrightarrow> R (w_fs w) (w_fs (snd (symlink_metadata (rn_env rn) p w)))"
    and read_R: "ok rn \<Longrightarrow> R (w_fs w) (w_fs (snd (read_file (rn_env rn) p w)))"
    and delete_R: "ok rn \<Longrightarrow> a \<in> set (ap_actions (rn_plan rn)) \<Longrightarrow> ds \<in> set (rn_datasets rn) \<Longrightarrow>
          R (w_fs w) (w_fs (snd (delete_to_quarantine (rn_env rn) (rn_attempts rn) (pa_target a) (ds_mountpoint ds)
               (quarantine_dir (ds_mountpoint ds) (rn_timestamp rn)) w)))"
    and hardlink_R: "ok rn \<Longrightarrow> a \<in> set (ap_actions (rn_plan rn)) \<Longrightarrow> ds \<in> set (rn_datasets rn) \<Longrightarrow>
          R (w_fs w) (w_fs (snd (hardlink (rn_env rn) (rn_attempts rn) (rn_staging rn) (pa_target a) (pa_keeper a)
               (ds_mountpoint ds) (quarantine_dir (ds_mountpoint ds) (rn_timestamp rn)) w)))"
    and reflink_R: "ok rn \<Longrightarrow> a \<in> set (ap_actions (rn_plan rn)) \<Longrightarrow> ds \<in> set (rn_datasets rn) \<Longrightarrow>
          R (w_fs w) (w_fs (snd (reflink (rn_env rn) (rn_attempts rn) (rn_staging rn) (rn_clone rn) (rn_read_meta rn)
               (rn_carry rn) (pa_target a) (pa_keeper a)
               (ds_mountpoint ds) (quarantine_dir (ds_mountpoint ds) (rn_timestamp rn)) w)))"

text \<open>The dataset of an action is one of the batch's.\<close>

lemma place_dataset: "place plan a datasets safe = Inr ds \<Longrightarrow> ds \<in> set datasets"
  by (auto simp: place_def Let_def dataset_by_device_def split: if_splits option.splits dest: find_in [THEN conjunct1])

lemma guarded_place_Inr: "guarded_place rn a b = Inr ds \<longleftrightarrow>
    place (rn_plan rn) a (rn_datasets rn) (rn_reflink_safe rn) = Inr ds \<and> ds_name ds \<in> set (bt_guarded b)"
  by (auto simp: guarded_place_def rbind_eq_Inr map_err_def split: sum.splits if_splits)

lemma note_quarantine_world [simp]: "bt_world (note_quarantine dir b) = bt_world b"
  by (simp add: note_quarantine_def)

text \<open>How a batch ends: stopped before the first action, or after the last one it reached.\<close>

definition stopped_early :: "detail + begun \<Rightarrow> bool" where
  "stopped_early r \<longleftrightarrow>
     (case r of Inl _ \<Rightarrow> True | Inr (NothingCanRun _) \<Rightarrow> True | Inr (Ran br) \<Rightarrow> br_aborted br \<noteq> None)"

lemma aborted_batch_stopped: "stopped_early (map_sum id Ran (aborted_batch plan snapshots why))"
  by (auto simp: aborted_batch_def rbind_def stopped_early_def split: sum.splits prod.splits)

lemma run_batch_cases:
  assumes run: "run_batch rn w = (r, w')"
    and l1: "look (rn_env rn) w = (d1, w1)" and l2: "look (rn_env rn) w1 = (d2, w2)"
  obtains (stopped) "stopped_early r" and "w' \<in> {w1, w2}"
    | (ran) live0 snapshots live steps cancelled b where
        "preflight d1 (rn_plan rn) = Inr live0" and "preflight d2 (rn_plan rn) = Inr live"
        "nothing_can_run (rn_plan rn) (standing_obstacles rn) = None"
        "make_snapshots rn [] (map ds_name (affected_datasets rn (standing_obstacles rn))) = (snapshots, None)"
        "apply_all rn [0..<length (ap_actions (rn_plan rn))]
           (open_batch rn (standing_obstacles rn) (affected_datasets rn (standing_obstacles rn)) live w2) = ((steps, cancelled), b)"
        "w' = bt_world b" and "r = map_sum id Ran (finish_batch rn snapshots steps cancelled b)"
proof (cases "preflight d1 (rn_plan rn)")
  case (Inl e)
  with run l1 show thesis by (intro stopped) (auto simp: run_batch_def stopped_early_def)
next
  case (Inr live0)
  show thesis
  proof (cases "nothing_can_run (rn_plan rn) (standing_obstacles rn)")
    case (Some line)
    with run l1 Inr show thesis by (intro stopped) (auto simp: run_batch_def stopped_early_def)
  next
    case None
    obtain snapshots failed where s: "make_snapshots rn [] (map ds_name (affected_datasets rn (standing_obstacles rn))) = (snapshots, failed)"
      by fastforce
    show thesis
    proof (cases failed)
      case (Some f)
      obtain name err where f: "f = (name, err)" by (cases f)
      have e: "run_batch rn w = (if snapshots = [] then (Inl (DSnapshot name err), w1)
          else (map_sum id Ran (aborted_batch (rn_plan rn) snapshots (DSnapshot name err)), w1))"
        by (simp add: run_batch_def l1 Inr None s Some f Let_def)
      show thesis
      proof (rule stopped)
        show "stopped_early r"
          using run e aborted_batch_stopped by (auto simp: stopped_early_def split: if_splits)
        show "w' \<in> {w1, w2}" using run e by (simp split: if_splits)
      qed
    next
      case f: None
      show thesis
      proof (cases "preflight d2 (rn_plan rn)")
        case (Inl why)
        then have "run_batch rn w = (map_sum id Ran (aborted_batch (rn_plan rn) snapshots (DPlan why)), w2)"
          by (simp add: run_batch_def l1 l2 Inr None s f Let_def)
        with run aborted_batch_stopped show thesis by (intro stopped) auto
      next
        case live: (Inr live)
        obtain steps cancelled b where a: "apply_all rn [0..<length (ap_actions (rn_plan rn))]
           (open_batch rn (standing_obstacles rn) (affected_datasets rn (standing_obstacles rn)) live w2) = ((steps, cancelled), b)"
          by (metis prod.exhaust)
        have "run_batch rn w = (map_sum id Ran (finish_batch rn snapshots steps cancelled b), bt_world b)"
          by (simp add: run_batch_def l1 l2 Inr None s f live a Let_def)
        with run show thesis by (intro ran [OF Inr live None _ a]) (auto simp: s f)
      qed
    qed
  qed
qed

context batch_relation
begin

lemma look_step: "ok rn \<Longrightarrow> look (rn_env rn) w = (d, w') \<Longrightarrow> R (w_fs w) (w_fs w')"
  using look_R [of rn w] by simp

lemma verify_file_R:
  assumes "ok rn"
  shows "R (w_fs (bt_world b)) (w_fs (bt_world (snd (verify_file rn p len hash b))))"
proof -
  obtain s w1 where s: "symlink_metadata (rn_env rn) p (bt_world b) = (s, w1)" by fastforce
  obtain d w2 where d: "read_file (rn_env rn) p w1 = (d, w2)" by fastforce
  have 1: "R (w_fs (bt_world b)) (w_fs w1)" using stat_R [OF assms, of "bt_world b" p] s by simp
  have 2: "R (w_fs w1) (w_fs w2)" using read_R [OF assms, of w1 p] d by simp
  have "bt_world (snd (verify_file rn p len hash b)) \<in> {w1, w2}"
    by (auto simp: verify_file_def s d Let_def split: sum.splits)
  with 1 R_trans [OF 1 2] show ?thesis by auto
qed

lemma revalidate_R:
  assumes "ok rn"
  shows "R (w_fs (bt_world b)) (w_fs (bt_world (snd (revalidate rn a b))))"
proof -
  obtain r b1 where r: "verify_file rn (pa_target a) (pa_size a) (pa_expected_hash a) b = (r, b1)" by fastforce
  have 1: "R (w_fs (bt_world b)) (w_fs (bt_world b1))"
    using verify_file_R [OF assms, of b "pa_target a"] r by (metis snd_conv)
  show ?thesis
    using 1 verify_file_R [OF assms, of b1] R_trans r by (auto simp: revalidate_def split: sum.splits)
qed

lemma check_both_R:
  assumes "ok rn"
  shows "R (w_fs (bt_world b)) (w_fs (bt_world (snd (check_both rn a b))))"
proof -
  obtain d w1 where 1: "look (rn_env rn) (bt_world b) = (d, w1)" by fastforce
  obtain d2 w2 where 2: "look (rn_env rn) w1 = (d2, w2)" by fastforce
  show ?thesis
    using look_step [OF assms 1] R_trans [OF look_step [OF assms 1] look_step [OF assms 2]]
    by (auto simp: check_both_def 1 2 Let_def split: sum.splits)
qed

lemma transition_R:
  assumes "ok rn"
  shows "R (w_fs w) (w_fs (snd (transition rn a moved linkage ledger w)))"
proof -
  obtain d w1 where 1: "look (rn_env rn) w = (d, w1)" by fastforce
  obtain d2 w2 where 2: "look (rn_env rn) w1 = (d2, w2)" by fastforce
  have "snd (transition rn a moved linkage ledger w) \<in> {w1, w2}"
    by (auto simp: transition_def 1 2 Let_def split: sum.splits option.splits)
  then show ?thesis
    using look_step [OF assms 1] R_trans [OF look_step [OF assms 1] look_step [OF assms 2]] by auto
qed

lemma after_move_R:
  assumes "ok rn"
  shows "R (w_fs (bt_world b)) (w_fs (bt_world (snd (after_move rn a moved linkage b))))"
  using transition_R [OF assms, of "bt_world b" a moved linkage "bt_ledger b"]
  by (auto simp: after_move_def split: prod.splits option.splits)

lemma after_failure_R:
  assumes "ok rn"
  shows "R (w_fs (bt_world b)) (w_fs (bt_world (snd (after_failure rn a published b))))"
proof -
  obtain d w1 where 1: "look (rn_env rn) (bt_world b) = (d, w1)" by fastforce
  obtain d2 w2 where 2: "look (rn_env rn) w1 = (d2, w2)" by fastforce
  show ?thesis
    using R_trans [OF look_step [OF assms 1] look_step [OF assms 2]]
    by (simp add: after_failure_def 1 2 Let_def split: prod.splits)
qed

lemma finish_publication_R:
  assumes "ok rn"
  shows "R (w_fs (bt_world b)) (w_fs (bt_world (snd (finish_publication rn a dir published linkage b))))"
proof -
  define b1 where "b1 = (if publication_place published = None then b else note_quarantine dir b)"
  have w: "bt_world b1 = bt_world b" by (simp add: b1_def)
  show ?thesis
    using after_move_R [OF assms, of b1 a] after_failure_R [OF assms, of b1 a published]
    unfolding w finish_publication_def Let_def b1_def [symmetric]
    by (cases published) (auto split: prod.splits)
qed

lemma apply_one_R:
  assumes "ok rn" and "i < length (ap_actions (rn_plan rn))"
  shows "R (w_fs (bt_world b)) (w_fs (bt_world (snd (apply_one rn i b))))"
proof (cases "bt_obstacles b ! i")
  case None
  let ?a = "ap_actions (rn_plan rn) ! i"
  have a: "?a \<in> set (ap_actions (rn_plan rn))" using assms(2) by simp
  show ?thesis
  proof (cases "guarded_place rn ?a b")
    case (Inl reason)
    with None show ?thesis by (simp add: apply_one_def Let_def R_refl)
  next
    case (Inr ds)
    then have ds: "ds \<in> set (rn_datasets rn)" by (auto simp: guarded_place_Inr dest: place_dataset)
    let ?dir = "quarantine_dir (ds_mountpoint ds) (rn_timestamp rn)"
    obtain c b1 where c: "check_both rn ?a b = (c, b1)" by fastforce
    obtain v b2 where v: "revalidate rn ?a b1 = (v, b2)" by fastforce
    have 1: "R (w_fs (bt_world b)) (w_fs (bt_world b1))" using check_both_R [OF assms(1), of b ?a] c by simp
    have 2: "R (w_fs (bt_world b)) (w_fs (bt_world b2))"
      using R_trans [OF 1] revalidate_R [OF assms(1), of b1 ?a] v by simp
    have del: "R (w_fs (bt_world b2)) (w_fs (bt_world (snd (apply_delete rn ?a ds b2))))"
    proof -
      obtain m w3 where m: "delete_to_quarantine (rn_env rn) (rn_attempts rn) (pa_target ?a) (ds_mountpoint ds) ?dir (bt_world b2) = (m, w3)"
        by fastforce
      have 3: "R (w_fs (bt_world b2)) (w_fs w3)" using delete_R [OF assms(1) a ds, of "bt_world b2"] m by simp
      show ?thesis
        using 3 R_trans [OF 3] after_move_R [OF assms(1), of "note_quarantine ?dir (b2\<lparr>bt_world := w3\<rparr>)" ?a]
        by (cases m) (simp_all add: apply_delete_def m)
    qed
    have hard: "R (w_fs (bt_world b2)) (w_fs (bt_world (snd (apply_hardlink rn ?a ds b2))))"
    proof -
      obtain m w3 where m: "hardlink (rn_env rn) (rn_attempts rn) (rn_staging rn) (pa_target ?a) (pa_keeper ?a) (ds_mountpoint ds) ?dir (bt_world b2) = (m, w3)"
        by fastforce
      have 3: "R (w_fs (bt_world b2)) (w_fs w3)" using hardlink_R [OF assms(1) a ds, of "bt_world b2"] m by simp
      show ?thesis
        using R_trans [OF 3] finish_publication_R [OF assms(1), of "b2\<lparr>bt_world := w3\<rparr>" ?a]
        by (simp add: apply_hardlink_def m)
    qed
    have ref: "R (w_fs (bt_world b2)) (w_fs (bt_world (snd (apply_reflink rn ?a ds b2))))"
    proof -
      obtain m w3 where m: "reflink (rn_env rn) (rn_attempts rn) (rn_staging rn) (rn_clone rn) (rn_read_meta rn) (rn_carry rn)
          (pa_target ?a) (pa_keeper ?a) (ds_mountpoint ds) ?dir (bt_world b2) = (m, w3)"
        by fastforce
      have 3: "R (w_fs (bt_world b2)) (w_fs w3)" using reflink_R [OF assms(1) a ds, of "bt_world b2"] m by simp
      show ?thesis
        using R_trans [OF 3] finish_publication_R [OF assms(1), of "b2\<lparr>bt_world := w3\<rparr>" ?a]
        by (simp add: apply_reflink_def m)
    qed
    show ?thesis
      using None Inr c v 1 2 R_trans [OF 2 del] R_trans [OF 2 hard] R_trans [OF 2 ref]
      by (auto simp: apply_one_def Let_def split: sum.splits action_kind.splits)
  qed
qed (simp add: apply_one_def Let_def R_refl)

lemma apply_all_R:
  assumes "ok rn" and "set is \<subseteq> {..<length (ap_actions (rn_plan rn))}"
  shows "R (w_fs (bt_world b)) (w_fs (bt_world (snd (apply_all rn is b))))"
  using assms(2)
proof (induction "is" arbitrary: b)
  case (Cons i "is")
  obtain r b1 where r: "apply_one rn i b = (r, b1)" by fastforce
  have 1: "R (w_fs (bt_world b)) (w_fs (bt_world b1))"
    using apply_one_R [OF assms(1), of i b] Cons.prems r by simp
  show ?case
    using R_trans [OF 1 Cons.IH [of b1]] Cons.prems by (auto simp: r R_refl split: prod.splits)
qed (simp add: R_refl)

lemma run_batch_R:
  assumes "ok rn"
  shows "R (w_fs w) (w_fs (snd (run_batch rn w)))"
proof -
  obtain d1 w1 where 1: "look (rn_env rn) w = (d1, w1)" by fastforce
  obtain d2 w2 where 2: "look (rn_env rn) w1 = (d2, w2)" by fastforce
  have R1: "R (w_fs w) (w_fs w1)" by (rule look_step [OF assms 1])
  have R2: "R (w_fs w) (w_fs w2)" by (rule R_trans [OF R1 look_step [OF assms 2]])
  obtain r w' where run: "run_batch rn w = (r, w')" by fastforce
  from run 1 2 have "R (w_fs w) (w_fs w')"
  proof (cases rule: run_batch_cases)
    case stopped
    with R1 R2 show ?thesis by auto
  next
    case (ran live0 snapshots live steps cancelled b)
    let ?n = "length (ap_actions (rn_plan rn))"
    have "set [0..<?n] \<subseteq> {..<?n}" by auto
    from apply_all_R [OF assms this, of "open_batch rn (standing_obstacles rn) (affected_datasets rn (standing_obstacles rn)) live w2"]
    have "R (w_fs w2) (w_fs (bt_world b))" using ran(5) by (simp add: open_batch_def)
    with ran(6) R_trans [OF R2] show ?thesis by simp
  qed
  with run show ?thesis by simp
qed

end

section \<open>Nothing is lost\<close>

text \<open>
  The surroundings in which a batch destroys nothing: outsiders that destroy nothing, scratch names
  \<open>T\<close> nobody else uses, and a block clone and a metadata copy that write only there.
\<close>

definition careful :: "path set \<Rightarrow> run \<Rightarrow> bool" where
  "careful T rn \<longleftrightarrow>
     benign T (rn_env rn) \<and> (\<forall>p name. rn_staging rn p name \<in> T)
     \<and> (\<forall>a \<in> set (ap_actions (rn_plan rn)). \<forall>ds \<in> set (rn_datasets rn).
          apart T (pa_target a) (ds_mountpoint ds) (quarantine_dir (ds_mountpoint ds) (rn_timestamp rn)))
     \<and> (\<forall>keeper. \<forall>temp \<in> T. \<forall>w. kept T (w_fs w) (w_fs (snd (rn_clone rn keeper temp w))))
     \<and> (\<forall>p w. kept T (w_fs w) (w_fs (snd (rn_read_meta rn p w))))
     \<and> (\<forall>meta. \<forall>temp \<in> T. \<forall>w. kept T (w_fs w) (w_fs (snd (rn_carry rn meta temp w))))"

lemma reflink_kept:
  assumes "careful T rn" and "apart T target mountpoint qdir"
  shows "kept T (w_fs w) (w_fs (snd (reflink (rn_env rn) attempts (rn_staging rn) (rn_clone rn) (rn_read_meta rn)
           (rn_carry rn) target keeper mountpoint qdir w)))"
proof -
  let ?build = "clone_and_carry (rn_clone rn) (rn_carry rn) keeper"
  have "kept T (w_fs w) (w_fs (snd (?build meta temp w)))" if "temp \<in> T" for meta temp w
  proof -
    obtain c w1 where c: "rn_clone rn keeper temp w = (c, w1)" by fastforce
    have 1: "kept T (w_fs w) (w_fs w1)" using assms(1) that c unfolding careful_def by (metis snd_conv)
    have 2: "kept T (w_fs w1) (w_fs (snd (rn_carry rn meta temp w1)))"
      using assms(1) that unfolding careful_def by blast
    show ?thesis using 1 kept_trans [OF 1 2] by (cases c) (simp_all add: clone_and_carry_def c)
  qed
  then have safe: "safe_builder (rn_env rn) T (?build meta)" for meta by unfold_locales
  have env: "benign T (rn_env rn)" and stage: "\<And>p name. rn_staging rn p name \<in> T"
    using assms(1) by (simp_all add: careful_def)
  obtain m w1 where m: "rn_read_meta rn target w = (m, w1)" by fastforce
  have 1: "kept T (w_fs w) (w_fs w1)" using assms(1) m unfolding careful_def by (metis snd_conv)
  show ?thesis
    using 1 kept_trans [OF 1 safe_builder.evacuate_kept [OF safe env stage assms(2)]]
    by (cases m) (simp_all add: reflink_def m)
qed

interpretation keeping: batch_relation "careful T" "kept T" for T
proof unfold_locales
  fix rn w p a ds and x y z :: fs
  assume ok: "careful T rn"
  then have env: "benign T (rn_env rn)" by (simp add: careful_def)
  show "kept T (w_fs w) (w_fs (snd (look (rn_env rn) w)))" by (rule look_kept [OF env])
  show "kept T (w_fs w) (w_fs (snd (symlink_metadata (rn_env rn) p w)))" by (rule symlink_metadata_kept [OF env])
  show "kept T (w_fs w) (w_fs (snd (read_file (rn_env rn) p w)))" by (rule read_file_kept [OF env])
  assume in_batch: "a \<in> set (ap_actions (rn_plan rn))" "ds \<in> set (rn_datasets rn)"
  let ?dir = "quarantine_dir (ds_mountpoint ds) (rn_timestamp rn)"
  from ok in_batch have ap: "apart T (pa_target a) (ds_mountpoint ds) ?dir" by (simp add: careful_def)
  show "kept T (w_fs w) (w_fs (snd (delete_to_quarantine (rn_env rn) (rn_attempts rn) (pa_target a) (ds_mountpoint ds) ?dir w)))"
    using ap by (intro delete_kept [OF env]) (auto simp: apart_def)
  show "kept T (w_fs w) (w_fs (snd (hardlink (rn_env rn) (rn_attempts rn) (rn_staging rn) (pa_target a) (pa_keeper a)
      (ds_mountpoint ds) ?dir w)))"
    unfolding hardlink_def using ok by (intro link_safe.evacuate_kept [OF env _ ap]) (simp add: careful_def)
  show "kept T (w_fs w) (w_fs (snd (reflink (rn_env rn) (rn_attempts rn) (rn_staging rn) (rn_clone rn) (rn_read_meta rn)
      (rn_carry rn) (pa_target a) (pa_keeper a) (ds_mountpoint ds) ?dir w)))"
    by (rule reflink_kept [OF ok ap])
qed (rule kept_refl, rule kept_trans)

text \<open>
  Claim C8. A batch destroys nothing. Whatever it is asked to do, whichever of its calls fail, wherever
  it stops and whoever else is at work: as long as outsiders destroy nothing themselves and the staging
  names are its own, every file that had a name before the batch has a name after it, and no content
  has changed.
\<close>

theorem batch_loses_nothing:
  assumes "careful T rn"
  shows "kept T (w_fs w) (w_fs (snd (run_batch rn w)))"
  using assms by (rule keeping.run_batch_R)

section \<open>Only targets lose their names\<close>

text \<open>Every name outside \<open>X\<close> stays what it was.\<close>

definition spares :: "path set \<Rightarrow> fs \<Rightarrow> fs \<Rightarrow> bool" where
  "spares X fs fs' \<longleftrightarrow> (\<forall>p. p \<notin> X \<and> fs_names fs p \<noteq> None \<longrightarrow> fs_names fs' p = fs_names fs p)"

text \<open>
  Nobody else at work, \<open>X\<close> holds the targets and the staging names, these are two things, and the
  block clone writes only the staging name, which it finds free.
\<close>

definition confined :: "path set \<Rightarrow> run \<Rightarrow> bool" where
  "confined X rn \<longleftrightarrow>
     alone (rn_env rn)
     \<and> (\<forall>a \<in> set (ap_actions (rn_plan rn)). pa_target a \<in> X \<and> (\<forall>p name. rn_staging rn p name \<noteq> pa_target a))
     \<and> (\<forall>p name. rn_staging rn p name \<in> X)
     \<and> (\<forall>p w. fs_names (w_fs (snd (rn_read_meta rn p w))) = fs_names (w_fs w))
     \<and> (\<forall>keeper meta. replacement_builder (rn_env rn) (clone_and_carry (rn_clone rn) (rn_carry rn) keeper meta))"

lemma exchange_spares:
  "exchange_spec temp target replacement fs pub fs' \<Longrightarrow> temp \<in> X \<Longrightarrow> target \<in> X \<Longrightarrow> spares X fs fs'"
  by (cases pub) (auto simp: exchange_spec_def spares_def)

lemma spares_trans: "spares X x y \<Longrightarrow> spares X y z \<Longrightarrow> spares X x z"
  by (auto simp: spares_def)

context replacement_builder
begin

lemma evacuate_spares:
  assumes "alone env" and "\<And>p name. staging p name \<in> X \<and> staging p name \<noteq> target" and "target \<in> X"
  shows "spares X (w_fs w) (w_fs (snd (evacuate_then_publish env attempts staging target build mountpoint qdir w)))"
proof (cases "parent target")
  case None
  then show ?thesis by (simp add: evacuate_then_publish_def spares_def)
next
  case (Some p)
  obtain pub w' where e: "evacuate_then_publish env attempts staging target build mountpoint qdir w = (pub, w')"
    by fastforce
  from evacuate_alone [OF assms(1) Some _ e] exchange_spares assms(2,3) show ?thesis
    unfolding e by auto
qed

end

interpretation sparing: batch_relation "confined X" "spares X" for X
proof unfold_locales
  fix rn w p a ds and x y z :: fs
  assume ok: "confined X rn"
  then have env: "alone (rn_env rn)" by (simp add: confined_def)
  show "spares X (w_fs w) (w_fs (snd (look (rn_env rn) w)))" by (simp add: spares_def look_alone [OF env])
  show "spares X (w_fs w) (w_fs (snd (symlink_metadata (rn_env rn) p w)))"
    by (simp add: spares_def symlink_metadata_alone [OF env])
  show "spares X (w_fs w) (w_fs (snd (read_file (rn_env rn) p w)))" by (simp add: spares_def read_file_alone [OF env])
  assume in_batch: "a \<in> set (ap_actions (rn_plan rn))" "ds \<in> set (rn_datasets rn)"
  let ?dir = "quarantine_dir (ds_mountpoint ds) (rn_timestamp rn)"
  from ok in_batch have t: "pa_target a \<in> X" and s: "\<And>p name. rn_staging rn p name \<in> X \<and> rn_staging rn p name \<noteq> pa_target a"
    by (simp_all add: confined_def)
  obtain r w' where d: "delete_to_quarantine (rn_env rn) (rn_attempts rn) (pa_target a) (ds_mountpoint ds) ?dir w = (r, w')"
    by fastforce
  show "spares X (w_fs w) (w_fs (snd (delete_to_quarantine (rn_env rn) (rn_attempts rn) (pa_target a) (ds_mountpoint ds) ?dir w)))"
    using delete_alone [OF env d] t unfolding d by (cases r) (auto simp: spares_def moved_name_def)
  show "spares X (w_fs w) (w_fs (snd (hardlink (rn_env rn) (rn_attempts rn) (rn_staging rn) (pa_target a) (pa_keeper a)
      (ds_mountpoint ds) ?dir w)))"
    unfolding hardlink_def by (rule link_builder.evacuate_spares [OF env s t])
  obtain m w1 where m: "rn_read_meta rn (pa_target a) w = (m, w1)" by fastforce
  have n: "fs_names (w_fs w1) = fs_names (w_fs w)" using ok m unfolding confined_def by (metis snd_conv)
  have b: "replacement_builder (rn_env rn) (clone_and_carry (rn_clone rn) (rn_carry rn) (pa_keeper a) meta)" for meta
    using ok by (simp add: confined_def)
  show "spares X (w_fs w) (w_fs (snd (reflink (rn_env rn) (rn_attempts rn) (rn_staging rn) (rn_clone rn) (rn_read_meta rn)
      (rn_carry rn) (pa_target a) (pa_keeper a) (ds_mountpoint ds) ?dir w)))"
    using replacement_builder.evacuate_spares [OF b env s t] n
    by (cases m) (auto simp: reflink_def m spares_def)
qed (simp add: spares_def, rule spares_trans)

text \<open>
  Claim C9. A batch takes a name from nothing but its targets: with nobody else at work, whatever calls
  fail and wherever it stops, every other path that named a file before names the same file after. No
  keeper, no unmarked path and nothing in the quarantine is moved or overwritten.
\<close>

theorem batch_touches_only_targets:
  assumes "confined X rn"
  shows "spares X (w_fs w) (w_fs (snd (run_batch rn w)))"
  using assms by (rule sparing.run_batch_R)

section \<open>A sample batch\<close>

definition sample_dataset :: dataset where
  "sample_dataset = \<lparr>ds_name = ''tank'', ds_mountpoint = [RootDir], ds_device = Some 1,
     ds_snapdir_visible = False, ds_block_cloning = None\<rparr>"

text \<open>The sample plan on the sample disk; the block clone of the sample always fails.\<close>

definition sample_run :: run where
  "sample_run =
     \<lparr>rn_env = sample_env, rn_attempts = 3, rn_staging = sample_staging,
      rn_clone = (\<lambda>_ _ w. (Inl EPERM, w)), rn_read_meta = (\<lambda>_ w. (Inr [], w)),
      rn_carry = (\<lambda>_ _ w. (Inr (), w)), rn_digest = (\<lambda>_. ''h''), rn_probe = (\<lambda>_ _. no_probe),
      rn_root_is_dir = (\<lambda>_. False), rn_snapshot = (\<lambda>name suffix. Inr (name @ ''@'' @ suffix)),
      rn_cancelled = (\<lambda>_. False), rn_plan = sample_plan, rn_datasets = [sample_dataset],
      rn_reflink_safe = False, rn_mode = Strict, rn_timestamp = ''now''\<rparr>"

lemma sample_run_simps [simp]:
  "rn_env sample_run = sample_env" "rn_plan sample_run = sample_plan" "rn_datasets sample_run = [sample_dataset]"
  "rn_staging sample_run = sample_staging"
  by (simp_all add: sample_run_def)

lemma sample_targets: "pa_target ` set (ap_actions sample_plan) = {[RootDir, Normal ''c''], [RootDir, Normal ''d'']}"
  using arg_cong [OF sample_actions(2), of set] by simp

lemma sample_actions_in:
  assumes "a \<in> set (ap_actions sample_plan)"
  shows "pa_kind a \<noteq> Reflink" and "pa_target a \<in> {[RootDir, Normal ''c''], [RootDir, Normal ''d'']}"
    and "p @ [Normal ''tmp''] \<noteq> pa_target a"
proof -
  have "pa_kind ` set (ap_actions sample_plan) = {Delete, Hardlink}"
    using arg_cong [OF sample_actions(1), of set] by simp
  with assms show "pa_kind a \<noteq> Reflink" by (metis action_kind.distinct(3,5) empty_iff image_eqI insert_iff)
  show t: "pa_target a \<in> {[RootDir, Normal ''c''], [RootDir, Normal ''d'']}"
    using assms sample_targets by blast
  have "last (p @ [Normal ''tmp'']) \<noteq> last (pa_target a)" using t by auto
  then show "p @ [Normal ''tmp''] \<noteq> pa_target a" by metis
qed

lemma sample_careful: "careful {p. last p = Normal ''tmp''} sample_run"
proof -
  let ?T = "{p. last p = Normal ''tmp''}"
  have l: "last (suffixed b m) \<noteq> Normal ''tmp''"
    if "b = [RootDir, Normal ''.dedcom-quarantine'', Normal ''now'', Normal n]" "n \<in> {''c'', ''d''}" for b m n
    using that by (auto simp: suffixed_def with_file_name_def file_name_def)
  have "apart ?T t [RootDir] [RootDir, Normal ''.dedcom-quarantine'', Normal ''now'']"
    if "t \<in> {[RootDir, Normal ''c''], [RootDir, Normal ''d'']}" for t
    using that l by (auto simp: apart_def join_def)
  moreover have "quarantine_dir [RootDir] ''now'' = [RootDir, Normal ''.dedcom-quarantine'', Normal ''now'']"
    by (simp add: quarantine_dir_def join_def)
  ultimately show ?thesis
    using sample_actions_in alone_benign [OF sample_quiet(2)]
    by (auto simp: careful_def sample_run_def sample_staging_def sample_dataset_def)
qed

text \<open>What the sample batch gives.\<close>

definition sample_result :: "detail + begun" where
  "sample_result = fst (run_batch sample_run sample_world)"

definition sample_after :: fs where
  "sample_after = w_fs (snd (run_batch sample_run sample_world))"

theorem batch_loses_nothing_witness:
  "kept {p. last p = Normal ''tmp''} sample_fs sample_after
   \<and> fs_names sample_after [RootDir, Normal ''c''] = None"
proof
  show "kept {p. last p = Normal ''tmp''} sample_fs sample_after"
    using batch_loses_nothing [OF sample_careful, of sample_world] by (simp add: sample_after_def sample_world_def)
  show "fs_names sample_after [RootDir, Normal ''c''] = None"
    unfolding sample_after_def sample_run_def sample_plan_def by code_simp
qed

lemma sample_confined: "confined {p. last p = Normal ''tmp'' \<or> p \<in> pa_target ` set (ap_actions sample_plan)} sample_run"
proof -
  have "clone_and_carry (rn_clone sample_run) (rn_carry sample_run) keeper meta = (\<lambda>_ w. (Inl EPERM, w))" for keeper meta
    by (simp add: clone_and_carry_def sample_run_def fun_eq_iff)
  moreover have "replacement_builder sample_env (\<lambda>_ w. (Inl EPERM, w))" by unfold_locales simp_all
  ultimately show ?thesis
    using sample_quiet(2) sample_actions_in
    by (auto simp: confined_def sample_staging_def) (auto simp: sample_run_def)
qed

theorem batch_touches_only_targets_witness:
  "fs_names sample_after [RootDir, Normal ''a''] = Some (Inode 1 11)
   \<and> fs_names sample_after [RootDir, Normal ''e''] = Some (Inode 1 13)"
proof -
  have "[RootDir, Normal n] \<notin> pa_target ` set (ap_actions sample_plan)" if "n \<in> {''a'', ''e''}" for n
    using that by (auto simp: sample_targets)
  moreover have "fs_names sample_fs [RootDir, Normal ''a''] = Some (Inode 1 11)"
    "fs_names sample_fs [RootDir, Normal ''e''] = Some (Inode 1 13)" by code_simp+
  ultimately show ?thesis
    using batch_touches_only_targets [OF sample_confined, of sample_world]
    by (simp add: spares_def sample_after_def sample_world_def)
qed

end
