(* ===== verification/Batch_Report.thy ===== *)
theory Batch_Report
  imports Batch_Safety
begin

text \<open>
  What a batch reports against what it did: the two records of one action agree, nothing changes
  without the checks before it, a batch that did not run changed nothing, and the report of one that
  did covers the plan.
\<close>

section \<open>One action, two records\<close>

text \<open>The operator's record and the accounting's record of one action tell the same.\<close>

fun truthful :: "plan_action \<Rightarrow> step_result \<Rightarrow> bool" where
  "truthful a (out, r) \<longleftrightarrow>
     ao_kind out = pa_kind a \<and> ao_target out = pa_target a
     \<and> (case r of
          Removed \<Rightarrow> ao_result out = Inr () \<and> ao_quarantine out \<noteq> None
        | Refused _ \<Rightarrow> (\<exists>d. ao_result out = Inl d) \<and> ao_quarantine out = None
        | Stranded q _ \<Rightarrow> (\<exists>d. ao_result out = Inl d) \<and> ao_quarantine out = Some q
        | Unsettled q _ \<Rightarrow> (\<exists>d. ao_result out = Inl d) \<and> ao_quarantine out = Some q)"

lemma refused_truthful: "truthful a (refused a d)"
  by (simp add: refused_def)

lemma after_move_truthful: "truthful a (fst (after_move rn a moved linkage b))"
  by (auto simp: after_move_def split: prod.splits option.splits)

lemma finish_publication_truthful: "truthful a (fst (finish_publication rn a dir published linkage b))"
  by (cases published)
    (auto simp: finish_publication_def Let_def after_move_truthful split: prod.splits)

lemma outcome_spec:
  "truthful (ap_actions (rn_plan rn) ! i) (fst (apply_one rn i b))"
proof -
  let ?a = "ap_actions (rn_plan rn) ! i"
  have "truthful ?a (fst (apply_delete rn ?a ds b))" for ds b
    by (auto simp: apply_delete_def Let_def refused_truthful after_move_truthful split: prod.splits sum.splits)
  moreover have "truthful ?a (fst (apply_hardlink rn ?a ds b))" "truthful ?a (fst (apply_reflink rn ?a ds b))" for ds b
    by (auto simp: apply_hardlink_def apply_reflink_def Let_def finish_publication_truthful split: prod.splits)
  ultimately show ?thesis
    by (auto simp: apply_one_def Let_def refused_truthful split: option.splits sum.splits prod.splits action_kind.splits)
qed

text \<open>
  The two records of an action always agree: the operator is told of success exactly when
  the accounting counts the path as removed, of a quarantine path exactly when the original was left
  there, and always with the kind and the path of the planned action.
\<close>

theorem outcome_tells_result:
  "truthful (ap_actions (rn_plan rn) ! i) (fst (apply_one rn i b))"
  by (rule outcome_spec)

section \<open>Nothing changes unchecked\<close>

text \<open>The path holds a plain file of this size whose content was digested, now or earlier in the batch.\<close>

definition vouched :: "run \<Rightarrow> batch \<Rightarrow> path \<Rightarrow> u64 \<Rightarrow> string \<Rightarrow> bool" where
  "vouched rn b p len hash \<longleftrightarrow>
     (\<exists>i node. fs_names (w_fs (bt_world b)) p = Some i \<and> fs_nodes (w_fs (bt_world b)) i = Some node
        \<and> \<not> in_symlink node \<and> li_size (in_live node) = len
        \<and> (in_type node = RegularFile \<and> rn_digest rn (in_data node) = hash
           \<or> rn_mode rn \<noteq> Strict \<and> map_of (bt_verified b) p = Some (from_metadata node)))"

lemma symlink_metadata_Inr:
  "alone env \<Longrightarrow> symlink_metadata env p w = (Inr node, w') \<Longrightarrow>
     (\<exists>i. fs_names (w_fs w) p = Some i \<and> fs_nodes (w_fs w) i = Some node) \<and> w_fs w' = w_fs w"
  by (auto simp: symlink_metadata_def syscall_def Let_def alone_def k_stat_def split: option.splits sum.splits)

lemma read_file_Inr:
  "alone env \<Longrightarrow> read_file env p w = (Inr data, w') \<Longrightarrow>
     (\<exists>i node. fs_names (w_fs w) p = Some i \<and> fs_nodes (w_fs w) i = Some node \<and> in_type node = RegularFile
        \<and> in_data node = data) \<and> w_fs w' = w_fs w"
  by (auto simp: read_file_def syscall_def Let_def alone_def k_read_def split: option.splits sum.splits if_splits)

lemma verify_file_alone:
  assumes e: "alone (rn_env rn)" and v: "verify_file rn p len hash b = (r, b')"
  shows "w_fs (bt_world b') = w_fs (bt_world b)"
    and "r = Inr () \<Longrightarrow> vouched rn b p len hash"
    and "bt_verified b' = bt_verified b \<or> vouched rn b p len hash \<and> (\<exists>x. bt_verified b' = (p, x) # bt_verified b)"
proof -
  obtain s w1 where s: "symlink_metadata (rn_env rn) p (bt_world b) = (s, w1)" by fastforce
  obtain d w2 where d: "read_file (rn_env rn) p w1 = (d, w2)" by fastforce
  have w: "w_fs w1 = w_fs (bt_world b)" "w_fs w2 = w_fs (bt_world b)"
    using symlink_metadata_alone [OF e, of p "bt_world b"] read_file_alone [OF e, of p w1] s d by simp_all
  have b': "bt_world b' \<in> {w1, w2}"
    using v by (auto simp: verify_file_def s d Let_def split: sum.splits if_splits)
  with w show "w_fs (bt_world b') = w_fs (bt_world b)" by auto
  have cached: "vouched rn b p len hash"
    if "s = Inr node" "\<not> in_symlink node" "li_size (in_live node) = len" "rn_mode rn \<noteq> Strict"
      "map_of (bt_verified b) p = Some (from_metadata node)" for node
    using symlink_metadata_Inr [OF e s [unfolded that(1)]] that by (auto simp: vouched_def)
  have digested: "vouched rn b p len hash"
    if "s = Inr node" "\<not> in_symlink node" "li_size (in_live node) = len" "d = Inr data" "rn_digest rn data = hash" for node data
    using symlink_metadata_Inr [OF e s [unfolded that(1)]] read_file_Inr [OF e d [unfolded that(4)]] that w
    by (auto simp: vouched_def)
  show "vouched rn b p len hash" if "r = Inr ()"
    using v that cached digested by (auto simp: verify_file_def s d Let_def split: sum.splits if_splits)
  show "bt_verified b' = bt_verified b \<or> vouched rn b p len hash \<and> (\<exists>x. bt_verified b' = (p, x) # bt_verified b)"
    using v digested by (auto simp: verify_file_def s d Let_def split: sum.splits if_splits)
qed

lemma revalidate_alone:
  assumes e: "alone (rn_env rn)" and ne: "pa_target a \<noteq> pa_keeper a" and v: "revalidate rn a b = (r, b')"
  shows "w_fs (bt_world b') = w_fs (bt_world b)"
    and "r = Inr () \<Longrightarrow> vouched rn b (pa_target a) (pa_size a) (pa_expected_hash a)
           \<and> vouched rn b (pa_keeper a) (pa_size a) (pa_expected_hash a)"
proof -
  obtain r1 b1 where 1: "verify_file rn (pa_target a) (pa_size a) (pa_expected_hash a) b = (r1, b1)" by fastforce
  obtain r2 b2 where 2: "verify_file rn (pa_keeper a) (pa_size a) (pa_expected_hash a) b1 = (r2, b2)" by fastforce
  have b': "b' \<in> {b1, b2}" and r: "r = Inr () \<Longrightarrow> r1 = Inr () \<and> r2 = Inr ()"
    using v by (auto simp: revalidate_def 1 2 split: sum.splits)
  note v1 = verify_file_alone [OF e 1] and v2 = verify_file_alone [OF e 2]
  from b' v1(1) v2(1) show "w_fs (bt_world b') = w_fs (bt_world b)" by auto
  assume "r = Inr ()"
  then have "r1 = Inr ()" "r2 = Inr ()" using r by simp_all
  with v1 v2 ne show "vouched rn b (pa_target a) (pa_size a) (pa_expected_hash a)
      \<and> vouched rn b (pa_keeper a) (pa_size a) (pa_expected_hash a)"
    by (auto simp: vouched_def)
qed

lemma check_both_alone:
  assumes e: "alone (rn_env rn)" and c: "check_both rn a b = (r, b')"
  shows "w_fs (bt_world b') = w_fs (bt_world b)" and "bt_verified b' = bt_verified b"
    and "bt_ledger b' = bt_ledger b" and "bt_guarded b' = bt_guarded b" and "bt_dirs b' = bt_dirs b"
    and "r = Inr () \<longleftrightarrow>
       check (disk_of (w_fs (bt_world b))) (bt_ledger b) (pa_target_object a) = Inr ()
       \<and> check (disk_of (w_fs (bt_world b))) (bt_ledger b) (pa_keeper_object a) = Inr ()"
  using c by (auto simp: check_both_def look_alone [OF e] Let_def split: sum.splits)

text \<open>Both allocations of an action are the ones the batch has been driving.\<close>

definition accounted :: "batch \<Rightarrow> plan_action \<Rightarrow> bool" where
  "accounted b a \<longleftrightarrow>
     (\<forall>i \<in> {pa_target_object a, pa_keeper_object a}.
        i < length (bt_ledger b) \<and> os_settled (bt_ledger b ! i)
        \<and> entry_stands (disk_of (w_fs (bt_world b))) (bt_ledger b ! i))"

lemma vouched_world:
  "w_fs (bt_world b1) = w_fs (bt_world b) \<Longrightarrow> bt_verified b1 = bt_verified b \<Longrightarrow>
     vouched rn b1 p len hash = vouched rn b p len hash"
  by (simp add: vouched_def)

text \<open>What an action got past when it was not refused before it began.\<close>

lemma apply_one_begins:
  assumes e: "alone (rn_env rn)" and a: "a = ap_actions (rn_plan rn) ! i" and ne: "pa_target a \<noteq> pa_keeper a"
  obtains (not_begun) d where "fst (apply_one rn i b) = refused a d" and "w_fs (bt_world (snd (apply_one rn i b))) = w_fs (bt_world b)"
    and "bt_ledger (snd (apply_one rn i b)) = bt_ledger b"
    | (begun) ds b2 where "bt_obstacles b ! i = None" and "guarded_place rn a b = Inr ds" and "accounted b a"
        and "vouched rn b (pa_target a) (pa_size a) (pa_expected_hash a)"
        and "vouched rn b (pa_keeper a) (pa_size a) (pa_expected_hash a)"
        and "w_fs (bt_world b2) = w_fs (bt_world b)" and "bt_ledger b2 = bt_ledger b"
        and "apply_one rn i b = (case pa_kind a of Delete \<Rightarrow> apply_delete rn a ds b2
               | Hardlink \<Rightarrow> apply_hardlink rn a ds b2 | Reflink \<Rightarrow> apply_reflink rn a ds b2)"
proof (cases "bt_obstacles b ! i")
  case (Some found)
  then show thesis using a by (intro not_begun) (simp_all add: apply_one_def Let_def)
next
  case None
  show thesis
  proof (cases "guarded_place rn a b")
    case (Inl reason)
    with None show thesis using a by (intro not_begun) (simp_all add: apply_one_def Let_def)
  next
    case (Inr ds)
    obtain c b1 where c: "check_both rn a b = (c, b1)" by fastforce
    note C = check_both_alone [OF e c]
    show thesis
    proof (cases c)
      case (Inl r)
      with None \<open>guarded_place rn a b = Inr ds\<close> c C show thesis
        using a by (intro not_begun) (simp_all add: apply_one_def Let_def)
    next
      case c': (Inr u)
      then have acc: "accounted b a" using C(6) by (simp add: accounted_def check_Inr)
      obtain v b2 where v: "revalidate rn a b1 = (v, b2)" by fastforce
      note V = revalidate_alone [OF e ne v]
      have l: "bt_ledger b2 = bt_ledger b1"
        using v by (auto simp: revalidate_def verify_file_def Let_def split: sum.splits prod.splits if_splits)
      show thesis
      proof (cases v)
        case (Inl err)
        with None \<open>guarded_place rn a b = Inr ds\<close> c c' C v V(1) l show thesis
          using a by (intro not_begun) (simp_all add: apply_one_def Let_def)
      next
        case v': (Inr u)
        then have "vouched rn b1 (pa_target a) (pa_size a) (pa_expected_hash a)"
          "vouched rn b1 (pa_keeper a) (pa_size a) (pa_expected_hash a)" using V(2) by simp_all
        with None Inr c c' C v v' V(1) l acc show thesis
          by (intro begun [of ds b2]) (simp_all add: apply_one_def Let_def a [symmetric] vouched_world [OF C(1,2)])
      qed
    qed
  qed
qed

text \<open>
  Claim C10. Nothing changes unchecked: with nobody else at work, an action after which the disk is not
  what it was had no obstacle, ran on a dataset this batch took a snapshot of, found both allocations
  as the ledger has them, and found at target and keeper plain files of the planned size whose content
  has the planned digest, read for this action or earlier in the batch and unchanged since.
\<close>

theorem change_needs_verification:
  assumes "alone (rn_env rn)" and "a = ap_actions (rn_plan rn) ! i" and "pa_target a \<noteq> pa_keeper a"
    and "w_fs (bt_world (snd (apply_one rn i b))) \<noteq> w_fs (bt_world b)"
  shows "bt_obstacles b ! i = None
    \<and> (\<exists>ds. place (rn_plan rn) a (rn_datasets rn) (rn_reflink_safe rn) = Inr ds \<and> ds_name ds \<in> set (bt_guarded b))
    \<and> accounted b a
    \<and> vouched rn b (pa_target a) (pa_size a) (pa_expected_hash a)
    \<and> vouched rn b (pa_keeper a) (pa_size a) (pa_expected_hash a)"
  using assms(1-3)
proof (cases rule: apply_one_begins [where b = b])
  case not_begun
  with assms(4) show ?thesis by simp
next
  case (begun ds b2)
  then show ?thesis by (auto simp: guarded_place_Inr)
qed

section \<open>The actions of a batch\<close>

text \<open>What an action never changes of the batch: the obstacles read before it and the snapshots taken.\<close>

definition at_start :: "batch \<Rightarrow> obstacle option list \<times> string list" where
  "at_start b = (bt_obstacles b, bt_guarded b)"

lemma frame_steps:
  "at_start (snd (verify_file rn p len hash b)) = at_start b"
  "at_start (snd (check_both rn a b)) = at_start b"
  "at_start (snd (after_move rn a moved linkage b)) = at_start b"
  "at_start (snd (after_failure rn a published b)) = at_start b"
  "at_start (note_quarantine dir b) = at_start b"
  "at_start (b\<lparr>bt_world := w\<rparr>) = at_start b"
  by (auto simp: at_start_def verify_file_def check_both_def after_move_def after_failure_def note_quarantine_def Let_def
      split: sum.splits prod.splits option.splits)

lemma frame_revalidate: "at_start (snd (revalidate rn a b)) = at_start b"
  using frame_steps(1) [of rn "pa_target a" "pa_size a" "pa_expected_hash a" b]
    frame_steps(1) [of rn "pa_keeper a" "pa_size a" "pa_expected_hash a"]
  by (auto simp: revalidate_def split: sum.splits prod.splits)

lemma frame_finish: "at_start (snd (finish_publication rn a dir published linkage b)) = at_start b"
proof -
  define b1 where "b1 = (if publication_place published = None then b else note_quarantine dir b)"
  have "at_start b1 = at_start b" by (simp add: b1_def frame_steps)
  then show ?thesis
    using frame_steps(3) [of rn a _ _ b1] frame_steps(4) [of rn a published b1]
    unfolding finish_publication_def Let_def b1_def [symmetric]
    by (cases published) (auto split: prod.splits)
qed

lemma frame_apply:
  "at_start (snd (apply_delete rn a ds b)) = at_start b"
  "at_start (snd (apply_hardlink rn a ds b)) = at_start b"
  "at_start (snd (apply_reflink rn a ds b)) = at_start b"
  by (auto simp: apply_delete_def apply_hardlink_def apply_reflink_def Let_def frame_steps frame_finish
      split: prod.splits sum.splits)

lemma frame_apply_one: "at_start (snd (apply_one rn i b)) = at_start b"
proof (cases "bt_obstacles b ! i")
  case None
  let ?a = "ap_actions (rn_plan rn) ! i"
  obtain c b1 where c: "check_both rn ?a b = (c, b1)" by fastforce
  moreover obtain v b2 where v: "revalidate rn ?a b1 = (v, b2)" by fastforce
  moreover have "at_start b1 = at_start b" "at_start b2 = at_start b1"
    using frame_steps(2) [of rn ?a b] frame_revalidate [of rn ?a b1] c v by simp_all
  ultimately show ?thesis
    using None by (auto simp: apply_one_def Let_def frame_apply split: sum.splits action_kind.splits)
qed (simp add: apply_one_def Let_def)

lemma apply_all_steps:
  assumes "apply_all rn is b = ((steps, cancelled), b')"
  shows "bt_obstacles b' = bt_obstacles b \<and> length steps \<le> length is
    \<and> (cancelled \<longleftrightarrow> length steps \<noteq> length is)
    \<and> (\<forall>j < length steps. \<exists>b0. bt_obstacles b0 = bt_obstacles b \<and> steps ! j = fst (apply_one rn (is ! j) b0))"
  using assms
proof (induction "is" arbitrary: b steps)
  case (Cons i "is")
  show ?case
  proof (cases "rn_cancelled rn i")
    case True
    with Cons.prems show ?thesis by auto
  next
    case False
    obtain r b1 where r: "apply_one rn i b = (r, b1)" by fastforce
    from False Cons.prems r obtain rs where rs: "steps = r # rs" "apply_all rn is b1 = ((rs, cancelled), b')"
      by (auto split: prod.splits)
    have ob: "bt_obstacles b1 = bt_obstacles b" using frame_apply_one [of rn i b] r by (simp add: at_start_def)
    have "\<exists>b0. bt_obstacles b0 = bt_obstacles b \<and> steps ! j = fst (apply_one rn ((i # is) ! j) b0)"
      if "j < length steps" for j
    proof (cases j)
      case 0
      then show ?thesis using r rs(1) by (intro exI [of _ b]) simp
    next
      case (Suc k)
      then show ?thesis using Cons.IH [OF rs(2)] that rs(1) ob by simp
    qed
    with Cons.IH [OF rs(2)] rs(1) ob show ?thesis by simp
  qed
qed auto

section \<open>The report\<close>

lemma realize_unrunnable: "realize (with_unrunnable plan u) outcomes = realize plan outcomes"
  by (simp add: with_unrunnable_def realize_def realized_objects_def skipped_marks_def results_for_def Let_def)

lemma claimed_unrunnable: "claimed (with_unrunnable plan u) = claimed plan"
  by (simp add: with_unrunnable_def claimed_def results_for_def fun_eq_iff)

lemma standing_length: "length (standing_obstacles rn) = length (ap_actions (rn_plan rn))"
proof -
  have "length (obstacles_from probe root plan ds safe as pb) = length as" for probe root plan ds safe as pb
    by (induction as arbitrary: pb) (auto split: prod.splits)
  then show ?thesis by (simp add: standing_obstacles_def obstacles_def)
qed

lemma standing_set_aside:
  assumes "i < length (ap_actions (rn_plan rn))" and "is_set_aside (rn_plan rn) i"
  shows "standing_obstacles rn ! i \<noteq> None"
  using assms standing_length [of rn]
  by (auto simp: standing_obstacles_def nth_enumerate_eq split: option.splits)

lemma finish_batch_Inr:
  assumes "try_new scan_id input = Inr plan" and "rn_plan rn = with_unrunnable plan u"
  shows "\<exists>br. finish_batch rn snapshots steps cancelled b = Inr br
    \<and> br_outcomes br = map fst steps \<and> br_planned br = length (ap_actions plan) \<and> br_cancelled br = cancelled
    \<and> br_aborted br = None \<and> br_plan br = runnable_summary (rn_plan rn)
    \<and> unat (rs_guaranteed (br_realized_summary br)) = bytes_at (ap_objects plan) (claimed plan (map snd steps))
    \<and> br_snapshots br = snapshots"
proof -
  from realize_spec [OF assms(1), of "map snd steps"] obtain realized summary where
    "realize plan (map snd steps) = Inr (realized, summary)"
    "unat (rs_guaranteed summary) = bytes_at (ap_objects plan) (claimed plan (map snd steps))" by blast
  moreover have "ap_actions (rn_plan rn) = ap_actions plan" by (simp add: assms(2) with_unrunnable_def)
  ultimately show ?thesis
    by (simp add: finish_batch_def assms(2) realize_unrunnable)
qed

text \<open>
  A batch that did not run changed nothing: with nobody else at work, when the plan no longer
  describes the disk, nothing can run, a snapshot fails or the second reading disagrees, the disk is as
  it was. No error is ever returned once an action has begun.
\<close>

theorem batch_stops_clean:
  assumes "try_new scan_id input = Inr plan" and "rn_plan rn = with_unrunnable plan u"
    and "alone (rn_env rn)" and "run_batch rn w = (r, w')" and "stopped_early r"
  shows "w_fs w' = w_fs w"
proof -
  let ?w1 = "w\<lparr>w_tick := w_tick w + 1\<rparr>"
  note l1 = look_alone [OF assms(3), of w] and l2 = look_alone [OF assms(3), of ?w1]
  from assms(4) l1 l2 show ?thesis
  proof (cases rule: run_batch_cases)
    case stopped
    then show ?thesis by auto
  next
    case (ran live0 snapshots live steps cancelled b)
    from finish_batch_Inr [OF assms(1,2)] obtain br where
      "finish_batch rn snapshots steps cancelled b = Inr br" "br_aborted br = None" by blast
    with ran(7) assms(5) show ?thesis by (simp add: stopped_early_def)
  qed
qed

text \<open>The snapshots of a batch, in order, and what they leave.\<close>

lemma make_snapshots_Some:
  "make_snapshots rn made names = (all, None) \<Longrightarrow>
     \<exists>fresh. all = made @ fresh \<and> list_all2 (\<lambda>name s. rn_snapshot rn name (rn_timestamp rn) = Inr s) names fresh"
  by (induction names arbitrary: made) (fastforce split: sum.splits)+

text \<open>
  What a batch that ran reports: as many outcomes as actions, or fewer exactly when it was
  cancelled; each with the kind and the path of its action, in the plan's order; and never more freed
  bytes than the confirmation showed for what could still run.
\<close>

theorem batch_report:
  assumes "try_new scan_id input = Inr plan" and "rn_plan rn = with_unrunnable plan (unrunnable_new rs)"
    and "run_batch rn w = (Inr (Ran br), w')" and "br_aborted br = None"
  shows "br_planned br = length (ap_actions plan)
    \<and> length (br_outcomes br) \<le> br_planned br
    \<and> (br_cancelled br \<longleftrightarrow> length (br_outcomes br) \<noteq> br_planned br)
    \<and> map ao_kind (br_outcomes br) = take (length (br_outcomes br)) (map pa_kind (ap_actions plan))
    \<and> map ao_target (br_outcomes br) = take (length (br_outcomes br)) (map pa_target (ap_actions plan))
    \<and> rs_guaranteed (br_realized_summary br) \<le> est_guaranteed (ps_estimate (br_plan br))"
proof -
  let ?n = "length (ap_actions plan)"
  have acts: "ap_actions (rn_plan rn) = ap_actions plan" by (simp add: assms(2) with_unrunnable_def)
  obtain d1 w1 where l1: "look (rn_env rn) w = (d1, w1)" by fastforce
  obtain d2 w2 where l2: "look (rn_env rn) w1 = (d2, w2)" by fastforce
  from assms(3) l1 l2 obtain snapshots live steps cancelled b where
    all: "apply_all rn [0..<?n] (open_batch rn (standing_obstacles rn)
        (affected_datasets rn (standing_obstacles rn)) live w2) = ((steps, cancelled), b)"
    and fin: "Inr (Ran br) = map_sum id Ran (finish_batch rn snapshots steps cancelled b)"
    using assms(4) unfolding acts [symmetric]
    by (cases rule: run_batch_cases) (auto simp: stopped_early_def)
  from finish_batch_Inr [OF assms(1,2)] fin have br: "br_outcomes br = map fst steps" "br_planned br = ?n"
    "br_cancelled br = cancelled" "br_plan br = runnable_summary (rn_plan rn)"
    "unat (rs_guaranteed (br_realized_summary br)) = bytes_at (ap_objects plan) (claimed plan (map snd steps))"
    by (metis map_sum.simps(2) begun.inject(1) sum.inject(2))+
  note A = apply_all_steps [OF all]
  have len: "length steps \<le> ?n" using A by simp
  have step: "\<exists>b0. bt_obstacles b0 = standing_obstacles rn \<and> steps ! j = fst (apply_one rn j b0)" if "j < length steps" for j
  proof -
    have j: "[0..<?n] ! j = j" using that len by simp
    show ?thesis
      using A [THEN conjunct2, THEN conjunct2, THEN conjunct2, rule_format, OF that, unfolded j]
      by (simp add: open_batch_def)
  qed
  have truth: "truthful (ap_actions plan ! j) (steps ! j)" if "j < length steps" for j
    using step [OF that] outcome_spec [of rn j] acts by metis
  have kinds: "map (\<lambda>s. ao_kind (fst s)) steps = take (length steps) (map pa_kind (ap_actions plan))"
    "map (\<lambda>s. ao_target (fst s)) steps = take (length steps) (map pa_target (ap_actions plan))"
    using truth len by (auto intro!: nth_equalityI simp: truthful.simps split: prod.splits)
      (metis prod.collapse truthful.simps)+
  have aside: "\<not> stays_at (rn_plan rn) k" if "claimed plan (map snd steps) k" for k
  proof
    assume "stays_at (rn_plan rn) k"
    then obtain i where i: "i < ?n" "is_set_aside (rn_plan rn) i" "pa_target_object (ap_actions plan ! i) = k"
      by (auto simp: stays_at_def acts)
    then have "outcome_at (map snd steps) i \<in> set (results_for plan (map snd steps) k)"
      by (auto simp: results_for_def in_set_enumerate_eq image_iff)
    with that have "outcome_at (map snd steps) i = Some Removed" by (auto simp: claimed_def)
    then have j: "i < length steps" "snd (steps ! i) = Removed"
      by (auto simp: outcome_at_def split: if_splits)
    from step [OF j(1)] obtain b0 where "bt_obstacles b0 = standing_obstacles rn" "steps ! i = fst (apply_one rn i b0)" by blast
    with standing_set_aside [of i rn] i(1,2) j(2) show False
      by (auto simp: acts apply_one_def Let_def refused_def)
  qed
  from try_new_Inr [OF assms(1)] obtain parts where sp: "plan_spec scan_id (normalise input) parts plan" by blast
  have fig: "unat (est_guaranteed (ps_estimate (runnable_summary (rn_plan rn))))
      = bytes_at (ap_objects plan) (\<lambda>k. fully_released (ap_objects plan ! k) \<and> \<not> stays_at (rn_plan rn) k)"
    using runnable_figure_spec [OF sp assms(2)] by (simp add: Let_def)
  have "bytes_at (ap_objects plan) (claimed plan (map snd steps))
      \<le> unat (est_guaranteed (ps_estimate (runnable_summary (rn_plan rn))))"
    unfolding fig using aside by (intro bytes_at_mono) (simp add: claimed_def)
  then have "rs_guaranteed (br_realized_summary br) \<le> est_guaranteed (ps_estimate (br_plan br))"
    unfolding br(4) by (simp add: word_le_nat_alt br(5))
  with br kinds len A show ?thesis by (simp add: comp_def)
qed

section \<open>The sample batch\<close>

lemma sample_built: "rn_plan sample_run = with_unrunnable sample_plan (unrunnable_new [])"
  by (simp add: with_unrunnable_def unrunnable_new_def) (simp add: sample_plan_def, code_simp)

text \<open>The state the first action of the sample batch meets.\<close>

definition sample_open :: batch where
  "sample_open = open_batch sample_run (standing_obstacles sample_run) [sample_dataset] sample_ledger sample_world"

theorem change_needs_verification_witness:
  "fs_names (w_fs (bt_world (snd (apply_one sample_run 0 sample_open)))) [RootDir, Normal ''c''] = None
   \<and> accounted sample_open (ap_actions sample_plan ! 0)"
proof -
  have n: "fs_names (w_fs (bt_world (snd (apply_one sample_run 0 sample_open)))) [RootDir, Normal ''c''] = None"
    unfolding sample_open_def sample_ledger_def sample_run_def sample_plan_def by code_simp
  have "fs_names (w_fs (bt_world sample_open)) [RootDir, Normal ''c''] = Some (Inode 1 10)"
    by (simp add: sample_open_def open_batch_def sample_world_def) code_simp
  with n have "w_fs (bt_world (snd (apply_one sample_run 0 sample_open))) \<noteq> w_fs (bt_world sample_open)" by auto
  moreover have "pa_target (ap_actions sample_plan ! 0) \<noteq> pa_keeper (ap_actions sample_plan ! 0)"
    unfolding sample_plan_def by code_simp
  ultimately show ?thesis
    using change_needs_verification [of sample_run "ap_actions sample_plan ! 0" 0 sample_open] sample_quiet(2) n by simp
qed

text \<open>The sample batch when the plan's first action is set aside and the second finds no dataset.\<close>

theorem batch_stops_clean_witness:
  "w_fs (snd (run_batch (sample_run\<lparr>rn_datasets := []\<rparr>) sample_world)) = sample_fs"
proof -
  let ?r = "run_batch (sample_run\<lparr>rn_datasets := []\<rparr>) sample_world"
  have "stopped_early (fst ?r)"
    unfolding sample_run_def sample_plan_def by code_simp
  moreover have "?r = (fst ?r, snd ?r)" by simp
  ultimately have "w_fs (snd ?r) = w_fs sample_world"
    by (intro batch_stops_clean [OF sample_accepted, of "sample_run\<lparr>rn_datasets := []\<rparr>"])
      (use sample_built sample_quiet(2) in simp_all)
  then show ?thesis by (simp add: sample_world_def)
qed

theorem batch_report_witness:
  "\<exists>br. sample_result = Inr (Ran br) \<and> length (br_outcomes br) = 2 \<and> br_planned br = 2
     \<and> rs_guaranteed (br_realized_summary br) = 100
     \<and> rs_guaranteed (br_realized_summary br) \<le> est_guaranteed (ps_estimate (br_plan br))"
proof -
  let ?p = "case sample_result of Inr (Ran br) \<Rightarrow>
      (br_aborted br = None, length (br_outcomes br), rs_guaranteed (br_realized_summary br)) | _ \<Rightarrow> (False, 0, 0)"
  have v: "?p = (True, 2, 100)"
    unfolding sample_result_def sample_run_def sample_plan_def by code_simp
  then obtain br where br: "sample_result = Inr (Ran br)" "br_aborted br = None" "length (br_outcomes br) = 2"
    "rs_guaranteed (br_realized_summary br) = 100"
    by (auto split: sum.splits begun.splits)
  then have "run_batch sample_run sample_world = (Inr (Ran br), snd (run_batch sample_run sample_world))"
    by (metis sample_result_def prod.collapse)
  from batch_report [OF sample_accepted sample_built this br(2)] br show ?thesis
    using arg_cong [OF sample_actions(1), of length] by auto
qed

end
