(* ===== verification/Exact.thy ===== *)
theory Exact
  imports Publication
begin

text \<open>
  With nobody else at work, what each call does to names and inodes exactly. \<open>ctime\<close> is the one field
  a call may set to anything, so inodes are compared up to it: \<open>aged I\<close> says that only the inodes of
  \<open>I\<close> may have a new \<open>ctime\<close> and that nothing else has changed.
\<close>

section \<open>Up to the change time\<close>

definition timeless :: "inode option \<Rightarrow> inode option" where
  "timeless x = map_option (touch (0, 0)) x"

definition aged :: "inode_id set \<Rightarrow> fs \<Rightarrow> fs \<Rightarrow> bool" where
  "aged I fs fs' \<longleftrightarrow>
     (\<forall>j. timeless (fs_nodes fs' j) = timeless (fs_nodes fs j))
     \<and> (\<forall>j. j \<notin> I \<longrightarrow> fs_nodes fs' j = fs_nodes fs j)"

text \<open>One more link on an inode, and one less.\<close>

definition bump :: "(u64 \<Rightarrow> u64) \<Rightarrow> inode_id \<Rightarrow> fs \<Rightarrow> fs" where
  "bump f k fs = change_node k (relink f (0, 0)) fs"

lemma touch_touch [simp]: "touch c (touch d node) = touch c node"
  by (simp add: touch_def)

lemma touch_relink [simp]: "touch c (relink f d node) = relink f c node" "relink f c (touch d node) = relink f c node"
  by (simp_all add: touch_def relink_def)

lemma relink_relink [simp]: "relink f c (relink g d node) = relink (f \<circ> g) c node"
  by (simp add: touch_def relink_def)

lemma relink_id [simp]: "relink (\<lambda>l. l) c node = touch c node" "relink id c node = touch c node"
  by (simp_all add: touch_def relink_def)

lemma aged_refl [simp]: "aged I fs fs"
  by (simp add: aged_def)

lemma aged_trans: "aged I x y \<Longrightarrow> aged I y z \<Longrightarrow> aged I x z"
  by (auto simp: aged_def)

lemma aged_mono: "aged I x y \<Longrightarrow> I \<subseteq> J \<Longrightarrow> aged J x y"
  by (auto simp: aged_def)

lemma aged_nodes: "fs_nodes fs' = fs_nodes fs \<Longrightarrow> aged I fs fs'"
  by (simp add: aged_def)

lemma aged_touch: "fs_nodes fs' = fs_nodes (change_node i (touch c) fs) \<Longrightarrow> i \<in> I \<Longrightarrow> aged I fs fs'"
  by (auto simp: aged_def change_node_def timeless_def option.map_comp comp_def)

lemma bump_nodes: "fs_nodes (bump f k fs) = (fs_nodes fs)(k := map_option (relink f (0, 0)) (fs_nodes fs k))"
  by (simp add: bump_def change_node_def)

lemma aged_relink: "fs_nodes fs' = fs_nodes (change_node k (relink f c) fs) \<Longrightarrow> k \<in> I \<Longrightarrow> aged I (bump f k fs) fs'"
  by (auto simp: aged_def change_node_def bump_nodes timeless_def option.map_comp comp_def)

lemma timeless_relink:
  "timeless x = timeless y \<Longrightarrow> timeless (map_option (relink f c) x) = timeless (map_option (relink f d) y)"
proof -
  assume "timeless x = timeless y"
  then have "map_option (relink f (0, 0)) (timeless x) = map_option (relink f (0, 0)) (timeless y)" by simp
  then show ?thesis by (simp add: timeless_def option.map_comp comp_def)
qed

lemma aged_bump: "aged I x y \<Longrightarrow> k \<in> I \<Longrightarrow> aged I (bump f k x) (bump f k y)"
  by (auto simp: aged_def bump_nodes intro: timeless_relink)

lemma bump_bump: "k \<in> I \<Longrightarrow> aged I fs (bump (\<lambda>l. l - 1) k (bump (\<lambda>l. l + 1) k fs))"
  by (auto simp: aged_def bump_nodes timeless_def option.map_comp comp_def)

section \<open>The calls\<close>

lemma aged_renamed [simp]: "aged {i} fs (change_node i (touch c) (set_name p x (set_name q y fs)))"
  by (rule aged_touch [of _ i c]) (simp_all add: change_node_def)

lemma aged_relinked [simp]: "aged {k} (bump f k fs) (change_node k (relink f c) (set_name p x fs))"
  by (rule aged_relink [of _ k f c]) (simp_all add: change_node_def)

lemma rename_exact:
  assumes "alone env" and "rename_noreplace env src to w = (r, w')"
  shows "case r of
      Inl e \<Rightarrow> w_fs w' = w_fs w
    | Inr _ \<Rightarrow> \<exists>i. fs_names (w_fs w) src = Some i \<and> fs_names (w_fs w) to = None
        \<and> fs_names (w_fs w') = (fs_names (w_fs w))(src := None, to := Some i) \<and> aged {i} (w_fs w) (w_fs w')"
  using assms
  by (auto simp: rename_noreplace_def syscall_def Let_def alone_def k_rename_Inr
      split: option.splits sum.splits if_splits)

lemma hard_link_exact:
  assumes "alone env" and "hard_link env src dst w = (r, w')"
  shows "case r of
      Inl e \<Rightarrow> w_fs w' = w_fs w
    | Inr _ \<Rightarrow> \<exists>k. fs_names (w_fs w) src = Some k \<and> fs_names (w_fs w) dst = None
        \<and> fs_names (w_fs w') = (fs_names (w_fs w))(dst := Some k)
        \<and> aged {k} (bump (\<lambda>l. l + 1) k (w_fs w)) (w_fs w')"
  using assms
  by (auto simp: hard_link_def syscall_def Let_def alone_def k_link_Inr split: option.splits sum.splits if_splits)

lemma remove_file_exact:
  assumes "alone env" and "remove_file env p w = (r, w')"
  shows "case r of
      Inl e \<Rightarrow> w_fs w' = w_fs w
    | Inr _ \<Rightarrow> \<exists>k. fs_names (w_fs w) p = Some k
        \<and> fs_names (w_fs w') = (fs_names (w_fs w))(p := None)
        \<and> aged {k} (bump (\<lambda>l. l - 1) k (w_fs w)) (w_fs w')"
  using assms
  by (auto simp: remove_file_def syscall_def Let_def alone_def k_unlink_def split: option.splits sum.splits if_splits)

lemma claim_name_exact:
  assumes "alone env" and "claim_name env on_xdev skip attempts src base n w = (Inr q, w')"
    and "fs_names (w_fs w) src = Some i"
  shows "aged {i} (w_fs w) (w_fs w')"
  using assms(2,3)
proof (induction attempts arbitrary: n w)
  case (Suc attempts)
  obtain r v where rw: "rename_noreplace env src (suffixed base n) w = (r, v)" by fastforce
  note R = rename_exact [OF assms(1) rw]
  show ?case
  proof (cases "skip (suffixed base n)")
    case True
    with Suc show ?thesis by simp
  next
    case False
    show ?thesis
    proof (cases r)
      case (Inl e)
      with R Suc.prems rw False Suc.IH [of "n + 1" v] show ?thesis by (auto split: if_splits)
    next
      case (Inr u)
      with R Suc.prems rw False show ?thesis by auto
    qed
  qed
qed simp

lemma delete_exact:
  assumes "alone env" and "delete_to_quarantine env attempts target mountpoint qdir w = (Inr q, w')"
    and "fs_names (w_fs w) target = Some i"
  shows "moved_name target q (w_fs w) (w_fs w')" and "aged {i} (w_fs w) (w_fs w')"
proof -
  show "moved_name target q (w_fs w) (w_fs w')"
    using delete_alone [OF assms(1,2)] by simp
  from assms(2) show "aged {i} (w_fs w) (w_fs w')"
  proof (cases rule: delete_to_quarantine_cases)
    case (claimed relative w2)
    note w2 = pre_quarantine_alone [OF assms(1) claimed(2)]
    show ?thesis
      using claim_name_exact [OF assms(1) claimed(3)] assms(3) w2 by simp
  qed simp
qed

section \<open>The exchange\<close>

text \<open>What is left of the staging link: nothing at all, or the link itself and one more on the keeper.\<close>

definition residue :: "path \<Rightarrow> inode_id \<Rightarrow> inode_id set \<Rightarrow> fs \<Rightarrow> fs \<Rightarrow> bool" where
  "residue temp k I fs fs' \<longleftrightarrow>
     fs_names fs' temp = None \<and> aged I fs fs' \<or> aged I (bump (\<lambda>l. l + 1) k fs) fs'"

lemma unstage:
  assumes e: "alone env" and r: "remove_file env temp w = (r, w')"
    and t: "fs_names (w_fs w) temp = Some k" and a: "aged I (bump (\<lambda>l. l + 1) k fs) (w_fs w)" and k: "k \<in> I"
  shows "residue temp k I fs (w_fs w')" and "p \<noteq> temp \<Longrightarrow> fs_names (w_fs w') p = fs_names (w_fs w) p"
proof -
  note R = remove_file_exact [OF e r]
  show "p \<noteq> temp \<Longrightarrow> fs_names (w_fs w') p = fs_names (w_fs w) p" using R by (cases r) auto
  show "residue temp k I fs (w_fs w')"
  proof (cases r)
    case (Inl err)
    with R a show ?thesis by (simp add: residue_def)
  next
    case (Inr u)
    with R t have n: "fs_names (w_fs w') temp = None" "aged {k} (bump (\<lambda>l. l - 1) k (w_fs w)) (w_fs w')" by auto
    have "aged I fs (bump (\<lambda>l. l - 1) k (w_fs w))"
      using bump_bump [OF k] aged_bump [OF a k] by (rule aged_trans)
    with n aged_mono [OF n(2)] k show ?thesis unfolding residue_def by (blast intro: aged_trans)
  qed
qed

definition exact_exchange ::
  "path \<Rightarrow> path \<Rightarrow> inode_id \<Rightarrow> inode_id \<Rightarrow> fs \<Rightarrow> publication \<Rightarrow> fs \<Rightarrow> bool" where
  "exact_exchange temp target i k fs pub fs' \<longleftrightarrow>
     (case pub of
        PubPublished q \<Rightarrow>
          fs_names fs q = None \<and> q \<noteq> temp \<and> fs_names fs' = (fs_names fs)(q := Some i, target := Some k)
          \<and> aged {i, k} (bump (\<lambda>l. l + 1) k fs) fs'
      | PubStranded q _ \<Rightarrow>
          fs_names fs q = None \<and> q \<noteq> temp
          \<and> (\<forall>p. p \<noteq> temp \<longrightarrow> fs_names fs' p = ((fs_names fs)(target := None, q := Some i)) p)
          \<and> residue temp k {i, k} fs fs'
      | _ \<Rightarrow> (\<forall>p. p \<noteq> temp \<longrightarrow> fs_names fs' p = fs_names fs p) \<and> residue temp k {i, k} fs fs')"

lemma remove_replacement_snd: "snd (remove_replacement env temp w) = snd (remove_file env temp w)"
  by (auto simp: remove_replacement_def split: prod.splits sum.splits)

lemma publish_or_restore_exact:
  assumes e: "alone env" and run: "publish_or_restore env temp q target w = (pub, w')"
    and names: "fs_names (w_fs w) = (fs_names fs)(temp := Some k, target := None, q := Some i)"
    and free: "fs_names fs q = None" "q \<noteq> temp" "q \<noteq> target" "temp \<noteq> target" "fs_names fs temp = None"
      "fs_names fs target = Some i"
    and a: "aged {i, k} (bump (\<lambda>l. l + 1) k fs) (w_fs w)"
  shows "exact_exchange temp target i k fs pub (w_fs w')"
proof -
  obtain p w1 where p: "rename_noreplace env temp target w = (p, w1)" by fastforce
  note P = rename_exact [OF e p]
  show ?thesis
  proof (cases p)
    case (Inr u)
    with run p have "pub = PubPublished q" "w' = w1" by (simp_all add: publish_or_restore_def)
    moreover have "fs_names (w_fs w1) = (fs_names fs)(q := Some i, target := Some k)"
      using P Inr names free by (auto simp: fun_eq_iff)
    moreover have "aged {i, k} (w_fs w) (w_fs w1)"
    proof -
      have "fs_names (w_fs w) temp = Some k" using names free by simp
      with P Inr have "aged {k} (w_fs w) (w_fs w1)" by auto
      then show ?thesis by (rule aged_mono) simp
    qed
    ultimately show ?thesis using free aged_trans [OF a] by (simp add: exact_exchange_def)
  next
    case (Inl err)
    with P have w1: "w_fs w1 = w_fs w" by simp
    obtain l w2 where l: "remove_replacement env temp w1 = (l, w2)" by fastforce
    obtain rr w2' where rr: "remove_file env temp w1 = (rr, w2')" by fastforce
    have w2: "w2' = w2" using remove_replacement_snd [of env temp w1] l rr by simp
    have t1: "fs_names (w_fs w1) temp = Some k" using names free w1 by simp
    note U = unstage [OF e rr t1 a [folded w1], simplified, unfolded w2 w1]
    obtain b w3 where b: "rename_noreplace env q target w2 = (b, w3)" by fastforce
    note B = rename_exact [OF e b]
    show ?thesis
    proof (cases b)
      case (Inl e2)
      with run p l b \<open>p = Inl err\<close> obtain d where "pub = PubStranded q d" "w' = w3"
        by (auto simp: publish_or_restore_def)
      with B Inl U free names show ?thesis by (simp add: exact_exchange_def)
    next
      case (Inr u)
      with run p l b \<open>p = Inl err\<close> obtain d where pub: "pub = PubRolledBack d" "w' = w3"
        by (auto simp: publish_or_restore_def)
      have q2: "fs_names (w_fs w2) q = Some i" using U(2) names free by simp
      with B Inr have n3: "fs_names (w_fs w3) = (fs_names (w_fs w2))(q := None, target := Some i)"
        and a3: "aged {i} (w_fs w2) (w_fs w3)" by auto
      have "fs_names (w_fs w3) p = fs_names fs p" if "p \<noteq> temp" for p
        using that U(2) names free n3 by auto
      moreover have "residue temp k {i, k} fs (w_fs w3)"
        using U(1) n3 free aged_mono [OF a3, of "{i, k}"] by (auto simp: residue_def intro: aged_trans)
      ultimately show ?thesis using pub by (simp add: exact_exchange_def)
    qed
  qed
qed

lemma hardlink_exact:
  assumes e: "alone env" and p: "parent target = Some p" and temp: "temp = staging p (file_name target)"
    and ne: "temp \<noteq> target" and free: "fs_names (w_fs w) temp = None"
    and keeper: "fs_names (w_fs w) keeper = Some k" and target: "fs_names (w_fs w) target = Some i"
    and run: "hardlink env attempts staging target keeper mountpoint qdir w = (pub, w')"
  shows "exact_exchange temp target i k (w_fs w) pub (w_fs w')"
proof -
  obtain r w1 where r: "hard_link env keeper temp w = (r, w1)" by fastforce
  note H = hard_link_exact [OF e r]
  show ?thesis
  proof (cases r)
    case (Inl err)
    with H have w1: "w_fs w1 = w_fs w" by simp
    obtain rr w2 where rr: "remove_file env temp w1 = (rr, w2)" by fastforce
    have "w_fs w2 = w_fs w1"
      using remove_file_exact [OF e rr] free w1 by (cases rr) auto
    moreover have "pub = PubNotMoved (BuildDetail err)" "w' = w2"
      using run r rr p Inl by (simp_all add: hardlink_def evacuate_then_publish_def Let_def flip: temp)
    ultimately show ?thesis using w1 free by (simp add: exact_exchange_def residue_def)
  next
    case (Inr u)
    with H keeper have n1: "fs_names (w_fs w1) = (fs_names (w_fs w))(temp := Some k)"
      and a1: "aged {k} (bump (\<lambda>l. l + 1) k (w_fs w)) (w_fs w1)" by auto
    have a1': "aged {i, k} (bump (\<lambda>l. l + 1) k (w_fs w)) (w_fs w1)" by (rule aged_mono [OF a1]) simp
    obtain d w2 where d: "delete_to_quarantine env attempts target mountpoint qdir w1 = (d, w2)" by fastforce
    show ?thesis
    proof (cases d)
      case d': (Inl err)
      have w2: "w_fs w2 = w_fs w1" using delete_alone [OF e d] d' by simp
      obtain rr w3 where rr: "remove_file env temp w2 = (rr, w3)" by fastforce
      have "fs_names (w_fs w2) temp = Some k" using n1 w2 by simp
      note U = unstage [OF e rr this a1' [folded w2], simplified]
      have "pub = PubNotMoved (EvacuateDetail err)" "w' = w3"
        using run r rr p d d' Inr by (simp_all add: hardlink_def evacuate_then_publish_def Let_def flip: temp)
      with U n1 w2 show ?thesis by (simp add: exact_exchange_def)
    next
      case d': (Inr q)
      have t1: "fs_names (w_fs w1) target = Some i" using n1 ne target by simp
      from delete_exact [OF e d [unfolded d'] t1]
      have m: "moved_name target q (w_fs w1) (w_fs w2)" and a2: "aged {i} (w_fs w1) (w_fs w2)" by simp_all
      have q: "fs_names (w_fs w1) q = None" using m by (simp add: moved_name_def)
      then have q': "q \<noteq> temp" "q \<noteq> target" "fs_names (w_fs w) q = None" using n1 t1 by (auto split: if_splits)
      have n2: "fs_names (w_fs w2) = (fs_names (w_fs w))(temp := Some k, target := None, q := Some i)"
        using m n1 t1 by (simp add: moved_name_def)
      have a: "aged {i, k} (bump (\<lambda>l. l + 1) k (w_fs w)) (w_fs w2)"
        using a1' aged_mono [OF a2] by (blast intro: aged_trans)
      have "publish_or_restore env temp q target w2 = (pub, w')"
        using run r p d d' Inr by (simp add: hardlink_def evacuate_then_publish_def Let_def flip: temp)
      from publish_or_restore_exact [OF e this n2 q'(3,1,2) ne free target a] show ?thesis .
    qed
  qed
qed

end
