(* ===== verification/Batch_Ledger.thy ===== *)
theory Batch_Ledger
  imports Batch_Report Exact
begin

text \<open>
  The ledger follows the disk: with nobody else at work, every deletion and every hardlink, failed or
  not, leaves each entry it still trusts true of the disk, and none of them is reported as unsettled.
\<close>

section \<open>Inodes and what is read of them\<close>

definition inode_of :: "live_identity \<Rightarrow> inode_id" where
  "inode_of live = Inode (li_device live) (li_inode live)"

definition untime :: "live_identity \<Rightarrow> live_identity" where
  "untime live = live\<lparr>li_ctime_sec := 0, li_ctime_nsec := 0\<rparr>"

text \<open>An inode knows its own number.\<close>

definition wf_fs :: "fs \<Rightarrow> bool" where
  "wf_fs fs \<longleftrightarrow> (\<forall>i node. fs_nodes fs i = Some node \<longrightarrow> i = inode_of (in_live node))"

definition node_at :: "fs \<Rightarrow> inode_id \<Rightarrow> live_identity \<Rightarrow> bool" where
  "node_at fs i live \<longleftrightarrow> (\<exists>node. fs_nodes fs i = Some node \<and> \<not> in_symlink node \<and> in_live node = live)"

lemma stands_iff:
  "stands (disk_of fs) p live \<longleftrightarrow> (\<exists>i. fs_names fs p = Some i \<and> node_at fs i live)"
  by (auto simp: stands_def disk_of_def node_at_def split: option.splits)

lemma node_at_inode: "wf_fs fs \<Longrightarrow> node_at fs i live \<Longrightarrow> i = inode_of live"
  by (auto simp: wf_fs_def node_at_def)

lemma node_at_unique: "node_at fs i a \<Longrightarrow> node_at fs i b \<Longrightarrow> a = b"
  by (auto simp: node_at_def)

lemma inode_of_untime: "untime a = untime b \<Longrightarrow> inode_of a = inode_of b"
  by (cases a, cases b) (simp add: untime_def inode_of_def)

lemma adopt_untime: "adopt_ctime before live = live \<longleftrightarrow> untime before = untime live"
  by (cases before, cases live) (auto simp: adopt_ctime_def untime_def)

lemma in_live_touch [simp]: "untime (in_live (touch c node)) = untime (in_live node)"
  "in_symlink (touch c node) = in_symlink node"
  by (simp_all add: touch_def untime_def in_symlink_def)

lemma touch_eq: "touch (0, 0) a = touch (0, 0) b \<Longrightarrow>
    untime (in_live a) = untime (in_live b) \<and> in_symlink a = in_symlink b"
  by (metis in_live_touch)

lemma inode_of_touch: "touch (0, 0) a = touch (0, 0) b \<Longrightarrow> inode_of (in_live a) = inode_of (in_live b)"
  using touch_eq inode_of_untime by blast

lemma aged_some:
  assumes "aged I fs fs'" and "fs_nodes fs j = Some node"
  shows "\<exists>node'. fs_nodes fs' j = Some node' \<and> touch (0, 0) node' = touch (0, 0) node"
proof -
  have "timeless (fs_nodes fs' j) = timeless (fs_nodes fs j)" using assms(1) by (simp add: aged_def)
  with assms(2) show ?thesis by (cases "fs_nodes fs' j") (simp_all add: timeless_def)
qed

lemma aged_some':
  assumes "aged I fs fs'" and "fs_nodes fs' j = Some node'"
  shows "\<exists>node. fs_nodes fs j = Some node \<and> touch (0, 0) node' = touch (0, 0) node"
proof -
  have "timeless (fs_nodes fs' j) = timeless (fs_nodes fs j)" using assms(1) by (simp add: aged_def)
  with assms(2) show ?thesis by (cases "fs_nodes fs j") (simp_all add: timeless_def)
qed

lemma wf_aged:
  assumes "wf_fs fs" and "aged I fs fs'"
  shows "wf_fs fs'"
  unfolding wf_fs_def
proof (intro allI impI)
  fix i node' assume "fs_nodes fs' i = Some node'"
  from aged_some' [OF assms(2) this] obtain node where
    node: "fs_nodes fs i = Some node" "touch (0, 0) node' = touch (0, 0) node" by blast
  then have "i = inode_of (in_live node)" using assms(1) by (simp add: wf_fs_def)
  then show "i = inode_of (in_live node')" unfolding inode_of_touch [OF node(2)] .
qed

lemma wf_bump: "wf_fs fs \<Longrightarrow> wf_fs (bump f k fs)"
  by (auto simp: wf_fs_def bump_nodes relink_def touch_def inode_of_def)

lemma node_at_aged:
  assumes "aged I fs fs'" and "node_at fs i live"
  shows "\<exists>live'. node_at fs' i live' \<and> untime live' = untime live"
proof -
  from assms(2) obtain node where n: "fs_nodes fs i = Some node" "\<not> in_symlink node" "in_live node = live"
    by (auto simp: node_at_def)
  from aged_some [OF assms(1) n(1)] obtain node' where
    n': "fs_nodes fs' i = Some node'" "touch (0, 0) node' = touch (0, 0) node" by blast
  from touch_eq [OF n'(2)] n n'(1) show ?thesis by (auto simp: node_at_def)
qed

lemma node_at_bump:
  "node_at fs k live \<Longrightarrow> \<exists>live'. node_at (bump f k fs) k live'
     \<and> untime live' = (untime live)\<lparr>li_nlink := f (li_nlink live)\<rparr>"
  by (auto simp: node_at_def bump_nodes relink_def touch_def untime_def in_symlink_def)

lemma node_at_bump_other: "i \<noteq> k \<Longrightarrow> node_at (bump f k fs) i live = node_at fs i live"
  by (simp add: node_at_def bump_nodes)

section \<open>What an action leaves alone\<close>

text \<open>Nothing but the inodes of \<open>I\<close> and their names has changed.\<close>

definition minds :: "inode_id set \<Rightarrow> fs \<Rightarrow> fs \<Rightarrow> bool" where
  "minds I fs fs' \<longleftrightarrow>
     (\<forall>p x. fs_names fs p = Some x \<and> x \<notin> I \<longrightarrow> fs_names fs' p = Some x)
     \<and> (\<forall>x. x \<notin> I \<longrightarrow> fs_nodes fs' x = fs_nodes fs x)"

lemma minds_stands:
  assumes "minds I fs fs'" and "wf_fs fs" and "inode_of live \<notin> I" and "stands (disk_of fs) p live"
  shows "stands (disk_of fs') p live"
proof -
  from assms(4) obtain x where x: "fs_names fs p = Some x" "node_at fs x live" by (auto simp: stands_iff)
  with node_at_inode [OF assms(2)] assms(1,3) show ?thesis
    by (auto simp: stands_iff minds_def node_at_def)
qed

lemma residue_nodes:
  assumes "residue temp k I fs fs'" and "x \<notin> I" and "k \<in> I"
  shows "fs_nodes fs' x = fs_nodes fs x"
  using assms by (auto simp: residue_def aged_def bump_nodes split: if_splits)

lemma exact_exchange_minds:
  assumes x: "exact_exchange temp target i k fs pub fs'" and t: "fs_names fs temp = None" "fs_names fs target = Some i"
  shows "minds {i, k} fs fs'"
  unfolding minds_def
proof (intro conjI allI impI)
  fix p j assume p: "fs_names fs p = Some j \<and> j \<notin> {i, k}"
  then have "p \<noteq> temp" "p \<noteq> target" using t by auto
  with p x show "fs_names fs' p = Some j" by (cases pub) (auto simp: exact_exchange_def)
next
  fix j assume "j \<notin> {i, k}"
  then show "fs_nodes fs' j = fs_nodes fs j"
    using x residue_nodes [of temp k "{i, k}" fs fs' j]
    by (cases pub) (auto simp: exact_exchange_def aged_def bump_nodes)
qed

lemma moved_minds:
  assumes "moved_name target q fs fs'" and "aged {i} fs fs'" and "fs_names fs target = Some i"
  shows "minds {i} fs fs'"
  using assms by (auto simp: moved_name_def minds_def aged_def)

section \<open>A ledger that is true\<close>

definition ledger_ok :: "fs \<Rightarrow> ledger \<Rightarrow> bool" where
  "ledger_ok fs ledger \<longleftrightarrow>
     wf_fs fs
     \<and> (\<forall>j < length ledger. os_settled (ledger ! j) \<longrightarrow> entry_stands (disk_of fs) (ledger ! j))
     \<and> (\<forall>j < length ledger. distinct (os_paths (ledger ! j)))
     \<and> distinct (map (inode_of \<circ> os_identity) ledger)"

text \<open>The entry is about this allocation, and true of the disk if it is still trusted.\<close>

definition entry_ok :: "fs \<Rightarrow> inode_id \<Rightarrow> object_state \<Rightarrow> bool" where
  "entry_ok fs i e \<longleftrightarrow>
     inode_of (os_identity e) = i \<and> distinct (os_paths e)
     \<and> (os_settled e \<longrightarrow> entry_stands (disk_of fs) e)"

lemma ledger_ok_entries:
  "ledger_ok fs ledger \<longleftrightarrow>
     wf_fs fs \<and> distinct (map (inode_of \<circ> os_identity) ledger)
     \<and> (\<forall>j < length ledger. entry_ok fs (inode_of (os_identity (ledger ! j))) (ledger ! j))"
  by (auto simp: ledger_ok_def entry_ok_def)

lemma same_inodes:
  "length ledger' = length ledger \<Longrightarrow>
     (\<And>j. j < length ledger \<Longrightarrow> inode_of (os_identity (ledger' ! j)) = inode_of (os_identity (ledger ! j))) \<Longrightarrow>
     map (inode_of \<circ> os_identity) ledger' = map (inode_of \<circ> os_identity) ledger"
  by (rule nth_equalityI) simp_all

text \<open>The ledger after an action on the allocations \<open>t\<close> and \<open>k\<close>: the two entries are the action's.\<close>

lemma ledger_ok_step:
  assumes ok: "ledger_ok fs ledger" and t: "t < length ledger" and k: "k < length ledger"
    and m: "minds {inode_of (os_identity (ledger ! t)), inode_of (os_identity (ledger ! k))} fs fs'" and wf: "wf_fs fs'"
    and len: "length ledger' = length ledger"
    and others: "\<And>j. j \<noteq> t \<Longrightarrow> j \<noteq> k \<Longrightarrow> ledger' ! j = ledger ! j"
    and et: "entry_ok fs' (inode_of (os_identity (ledger ! t))) (ledger' ! t)"
    and ek: "entry_ok fs' (inode_of (os_identity (ledger ! k))) (ledger' ! k)"
  shows "ledger_ok fs' ledger'"
proof -
  have d: "distinct (map (inode_of \<circ> os_identity) ledger)" using ok by (simp add: ledger_ok_entries)
  have e: "entry_ok fs' (inode_of (os_identity (ledger ! j))) (ledger' ! j)" if j: "j < length ledger" for j
  proof (cases "j = t \<or> j = k")
    case True
    with et ek show ?thesis by blast
  next
    case False
    then have l: "ledger' ! j = ledger ! j" using others by blast
    have "inode_of (os_identity (ledger ! j)) \<noteq> inode_of (os_identity (ledger ! t))"
      "inode_of (os_identity (ledger ! j)) \<noteq> inode_of (os_identity (ledger ! k))"
      using False d j t k by (auto simp: distinct_conv_nth)
    then show ?thesis
      using ok j minds_stands [OF m] by (auto simp: l ledger_ok_def entry_ok_def entry_stands_def)
  qed
  then have "map (inode_of \<circ> os_identity) ledger' = map (inode_of \<circ> os_identity) ledger"
    by (intro same_inodes [OF len]) (simp add: entry_ok_def)
  with e d wf len show ?thesis by (simp add: ledger_ok_entries entry_ok_def)
qed

section \<open>The entries of one action\<close>

text \<open>The entry of an allocation once all its paths are known to name its inode.\<close>

lemma entry_okI:
  assumes "\<And>p. p \<in> set (os_paths e) \<Longrightarrow> fs_names fs p = Some i" and "node_at fs i (os_identity e)"
    and "inode_of (os_identity e) = i" and "distinct (os_paths e)"
  shows "entry_ok fs i e"
  using assms by (auto simp: entry_ok_def entry_stands_def stands_iff)

lemma entry_paths:
  assumes "wf_fs fs" and "entry_stands (disk_of fs) e" and "p \<in> set (os_paths e)"
  shows "fs_names fs p = Some (inode_of (os_identity e))" and "node_at fs (inode_of (os_identity e)) (os_identity e)"
proof -
  from assms(2,3) obtain i where i: "fs_names fs p = Some i" "node_at fs i (os_identity e)"
    by (auto simp: entry_stands_def stands_iff)
  with node_at_inode [OF assms(1) i(2)] show "fs_names fs p = Some (inode_of (os_identity e))"
    and "node_at fs (inode_of (os_identity e)) (os_identity e)" by simp_all
qed

lemma replace_path_spec:
  assumes "distinct ps" and "from \<in> set ps" and "to \<notin> set ps"
  shows "set (replace_path ps from to) = insert to (set ps - {from})" and "distinct (replace_path ps from to)"
proof -
  from position_exists [of "from" ps "\<lambda>p. p = from"] assms(2) obtain i where
    i: "position (\<lambda>p. p = from) ps = Some i" by auto
  then have n: "i < length ps" "ps ! i = from" by (simp_all add: position_Some_iff)
  have r: "replace_path ps from to = ps[i := to]" by (simp add: replace_path_def i)
  have "set (ps[i := to]) = insert to (set ps - {ps ! i})"
    using assms(1) n(1) by (rule set_update_distinct)
  then show "set (replace_path ps from to) = insert to (set ps - {from})" by (simp add: r n)
  show "distinct (replace_path ps from to)"
    unfolding r using assms(1,3) by (intro distinct_list_update) auto
qed

text \<open>The quarantined original: its inode has only aged, and the path has moved with it.\<close>

lemma quarantined_follows:
  assumes wf: "wf_fs fs'" and e: "e = ledger ! t" "t < length ledger" "distinct (os_paths e)" "entry_stands (disk_of fs) e"
    and i: "i = inode_of (os_identity e)" and target: "target \<in> set (os_paths e)" and q: "q \<notin> set (os_paths e)"
    and node: "node_at fs' i live" "untime live = untime (os_identity e)"
    and names: "fs_names fs' q = Some i" "\<And>p. p \<in> set (os_paths e) \<Longrightarrow> p \<noteq> target \<Longrightarrow> fs_names fs' p = Some i"
  obtains e' where "quarantined (disk_of fs') ledger t target q = Inr (ledger[t := e'])" and "entry_ok fs' i e'"
    and "os_settled e' = os_settled e" and "os_identity e' = live" and "set (os_paths e') = insert q (set (os_paths e) - {target})"
proof
  let ?e = "e\<lparr>os_identity := live, os_paths := replace_path (os_paths e) target q\<rparr>"
  note r = replace_path_spec [OF e(3) target q]
  show "quarantined (disk_of fs') ledger t target q = Inr (ledger[t := ?e])"
    using e(2) names(1) node by (auto simp: quarantined_Inr stands_iff adopt_untime e(1) [symmetric])
  have "inode_of live = i" using inode_of_untime [OF node(2)] i by simp
  with r names node(1) show "entry_ok fs' i ?e" by (intro entry_okI) auto
qed (use replace_path_spec [OF e(3) target q] in simp_all)

lemma saturating_add_one:
  assumes "a \<noteq> - 1"
  shows "saturating_add a 1 = a + 1"
proof -
  have "unat a \<noteq> unat (- 1 :: u64)" using assms by (simp add: word_unat_eq_iff)
  then show ?thesis
    using unat_u64_less [of a] by (simp add: saturating_add_def unat_u64_max)
qed

text \<open>The keeper's allocation with one more path and one more link.\<close>

lemma linked_follows:
  assumes e: "e = ledger ! k" "k < length ledger" "distinct (os_paths e)"
    and i: "i = inode_of (os_identity e)" and new: "target \<notin> set (os_paths e)"
    and node: "node_at fs' i live" "untime live = (untime (os_identity e))\<lparr>li_nlink := li_nlink (os_identity e) + 1\<rparr>"
    and room: "li_nlink (os_identity e) \<noteq> - 1"
    and names: "fs_names fs' keeper = Some i" "fs_names fs' target = Some i"
      "\<And>p. p \<in> set (os_paths e) \<Longrightarrow> fs_names fs' p = Some i"
  obtains e' where "linked (disk_of fs') ledger k keeper target = Inr (ledger[k := e'])" and "entry_ok fs' i e'"
    and "os_settled e' = os_settled e" and "os_identity e' = live" and "set (os_paths e') = insert target (set (os_paths e))"
proof
  let ?e = "e\<lparr>os_identity := live, os_paths := os_paths e @ [target]\<rparr>"
  have s: "saturating_add (li_nlink (os_identity e)) 1 = li_nlink (os_identity e) + 1"
    by (rule saturating_add_one [OF room])
  have n: "li_nlink live = li_nlink (os_identity e) + 1"
    using arg_cong [OF node(2), of li_nlink] by (simp add: untime_def)
  have live: "(adopt_ctime (os_identity e) live)\<lparr>li_nlink := li_nlink (os_identity e) + 1\<rparr> = live"
    using node(2) by (cases live, cases "os_identity e") (simp add: adopt_ctime_def untime_def)
  show "linked (disk_of fs') ledger k keeper target = Inr (ledger[k := ?e])"
    using e(2) names node(1) live by (auto simp: linked_Inr stands_iff e(1) [symmetric] s)
  have "inode_of live = i"
    using node(2) i by (cases live, cases "os_identity e") (simp add: untime_def inode_of_def)
  with names node(1) e(3) new show "entry_ok fs' i ?e" by (intro entry_okI) auto
qed simp_all

section \<open>One action\<close>

text \<open>
  What the ledger must know of an action before it runs: its two allocations are trusted, differ and
  hold the two paths, and the staging name is free.
\<close>

definition drives :: "ledger \<Rightarrow> plan_action \<Rightarrow> bool" where
  "drives ledger a \<longleftrightarrow>
     pa_target_object a \<noteq> pa_keeper_object a
     \<and> pa_target a \<in> set (os_paths (ledger ! pa_target_object a))
     \<and> pa_keeper a \<in> set (os_paths (ledger ! pa_keeper_object a))"

lemma drives_facts:
  assumes ok: "ledger_ok (w_fs (bt_world b)) (bt_ledger b)" and acc: "accounted b a" and d: "drives (bt_ledger b) a"
  defines "fs \<equiv> w_fs (bt_world b)" and "et \<equiv> bt_ledger b ! pa_target_object a" and "ek \<equiv> bt_ledger b ! pa_keeper_object a"
  shows "fs_names fs (pa_target a) = Some (inode_of (os_identity et))" "node_at fs (inode_of (os_identity et)) (os_identity et)"
    "fs_names fs (pa_keeper a) = Some (inode_of (os_identity ek))" "node_at fs (inode_of (os_identity ek)) (os_identity ek)"
    "\<And>p. p \<in> set (os_paths et) \<Longrightarrow> fs_names fs p = Some (inode_of (os_identity et))"
    "\<And>p. p \<in> set (os_paths ek) \<Longrightarrow> fs_names fs p = Some (inode_of (os_identity ek))"
    "inode_of (os_identity et) \<noteq> inode_of (os_identity ek)"
    "pa_target_object a < length (bt_ledger b)" "pa_keeper_object a < length (bt_ledger b)"
    "distinct (os_paths et)" "distinct (os_paths ek)" "wf_fs fs" "os_settled et" "os_settled ek"
    "entry_stands (disk_of fs) et" "entry_stands (disk_of fs) ek"
proof -
  show len: "pa_target_object a < length (bt_ledger b)" "pa_keeper_object a < length (bt_ledger b)"
    and "os_settled et" "os_settled ek"
    and s: "entry_stands (disk_of fs) et" "entry_stands (disk_of fs) ek"
    using acc by (auto simp: accounted_def fs_def et_def ek_def)
  show wf: "wf_fs fs" and "distinct (os_paths et)" "distinct (os_paths ek)"
    using ok len by (simp_all add: ledger_ok_def fs_def et_def ek_def)
  show t: "\<And>p. p \<in> set (os_paths et) \<Longrightarrow> fs_names fs p = Some (inode_of (os_identity et))"
    and k: "\<And>p. p \<in> set (os_paths ek) \<Longrightarrow> fs_names fs p = Some (inode_of (os_identity ek))"
    using entry_paths [OF wf] s by blast+
  have mem: "pa_target a \<in> set (os_paths et)" "pa_keeper a \<in> set (os_paths ek)"
    using d by (simp_all add: drives_def et_def ek_def)
  then show "fs_names fs (pa_target a) = Some (inode_of (os_identity et))" "node_at fs (inode_of (os_identity et)) (os_identity et)"
    "fs_names fs (pa_keeper a) = Some (inode_of (os_identity ek))" "node_at fs (inode_of (os_identity ek)) (os_identity ek)"
    using t k entry_paths [OF wf] s by blast+
  show "inode_of (os_identity et) \<noteq> inode_of (os_identity ek)"
    using ok len d by (auto simp: ledger_ok_def distinct_conv_nth drives_def et_def ek_def)
qed

lemma after_move_delete:
  assumes e: "alone (rn_env rn)" and ok: "ledger_ok (w_fs (bt_world b)) (bt_ledger b)"
    and acc: "accounted b a" and d: "drives (bt_ledger b) a"
    and led: "bt_ledger b1 = bt_ledger b"
    and mv: "moved_name (pa_target a) q (w_fs (bt_world b)) (w_fs (bt_world b1))"
    and aged: "aged {inode_of (os_identity (bt_ledger b ! pa_target_object a))} (w_fs (bt_world b)) (w_fs (bt_world b1))"
  obtains e' where "after_move rn a q None b1 =
      ((\<lparr>ao_kind = pa_kind a, ao_target = pa_target a, ao_quarantine = Some q, ao_result = Inr ()\<rparr>, Removed),
       b1\<lparr>bt_ledger := (bt_ledger b)[pa_target_object a := e'], bt_world := (bt_world b1)\<lparr>w_tick := w_tick (bt_world b1) + 1\<rparr>\<rparr>)"
    and "ledger_ok (w_fs (bt_world b1)) ((bt_ledger b)[pa_target_object a := e'])"
    and "os_settled e'" and "set (os_paths e') = insert q (set (os_paths (bt_ledger b ! pa_target_object a)) - {pa_target a})"
    and "untime (os_identity e') = untime (os_identity (bt_ledger b ! pa_target_object a))"
proof -
  note F = drives_facts [OF ok acc d]
  let ?fs = "w_fs (bt_world b)" and ?fs' = "w_fs (bt_world b1)"
  let ?t = "pa_target_object a" and ?et = "bt_ledger b ! pa_target_object a"
  let ?i = "inode_of (os_identity ?et)"
  have free: "fs_names ?fs q = None" using mv by (simp add: moved_name_def)
  then have q: "q \<notin> set (os_paths ?et)" using F(5) by auto
  have qt: "pa_target a \<noteq> q" using F(1) free by auto
  from node_at_aged [OF aged F(2)] obtain live where live: "node_at ?fs' ?i live" "untime live = untime (os_identity ?et)" by blast
  have wf: "wf_fs ?fs'" using F(12) aged by (rule wf_aged)
  have names: "fs_names ?fs' q = Some ?i" "\<And>p. p \<in> set (os_paths ?et) \<Longrightarrow> p \<noteq> pa_target a \<Longrightarrow> fs_names ?fs' p = Some ?i"
    using mv F(1,5) q by (auto simp: moved_name_def)
  have t: "pa_target a \<in> set (os_paths ?et)" using d by (simp add: drives_def)
  obtain e' where e': "quarantined (disk_of ?fs') (bt_ledger b) ?t (pa_target a) q = Inr ((bt_ledger b)[?t := e'])"
    "entry_ok ?fs' ?i e'" "os_settled e' = os_settled ?et" "os_identity e' = live"
    "set (os_paths e') = insert q (set (os_paths ?et) - {pa_target a})"
    by (rule quarantined_follows [OF wf refl F(8,10,15) refl t q live names])
  have m: "minds {?i} ?fs ?fs'" by (rule moved_minds [OF mv aged F(1)])
  have "ledger_ok ?fs' ((bt_ledger b)[?t := e'])"
    using m e'(2) F(8) by (intro ledger_ok_step [OF ok F(8,8) _ wf]) auto
  then show thesis
    using e' live F(13)
    by (intro that [of e']) (simp_all add: after_move_def transition_def look_alone [OF e] led Let_def)
qed

lemma apply_delete_follows:
  assumes e: "alone (rn_env rn)" and ok: "ledger_ok (w_fs (bt_world b)) (bt_ledger b)"
    and acc: "accounted b a" and d: "drives (bt_ledger b) a"
    and b2: "w_fs (bt_world b2) = w_fs (bt_world b)" "bt_ledger b2 = bt_ledger b"
    and run: "apply_delete rn a ds b2 = ((out, r), b')"
  shows "ledger_ok (w_fs (bt_world b')) (bt_ledger b') \<and> (\<forall>q d. r \<noteq> Unsettled q d)"
proof -
  let ?dir = "quarantine_dir (ds_mountpoint ds) (rn_timestamp rn)"
  obtain m w3 where m: "delete_to_quarantine (rn_env rn) (rn_attempts rn) (pa_target a) (ds_mountpoint ds) ?dir (bt_world b2) = (m, w3)"
    by fastforce
  show ?thesis
  proof (cases m)
    case (Inl err)
    with delete_alone [OF e m] run m ok b2 show ?thesis by (auto simp: apply_delete_def refused_def)
  next
    case (Inr q)
    let ?b1 = "note_quarantine ?dir (b2\<lparr>bt_world := w3\<rparr>)"
    note F = drives_facts [OF ok acc d]
    have t: "fs_names (w_fs (bt_world b2)) (pa_target a) = Some (inode_of (os_identity (bt_ledger b ! pa_target_object a)))"
      using F(1) b2 by simp
    from delete_exact [OF e m [unfolded Inr] t] b2
    have mv: "moved_name (pa_target a) q (w_fs (bt_world b)) (w_fs (bt_world ?b1))"
      and aged: "aged {inode_of (os_identity (bt_ledger b ! pa_target_object a))} (w_fs (bt_world b)) (w_fs (bt_world ?b1))"
      by simp_all
    have led: "bt_ledger ?b1 = bt_ledger b" using b2 by (simp add: note_quarantine_def)
    from after_move_delete [OF e ok acc d led mv aged] obtain e' where
      "after_move rn a q None ?b1 =
      ((\<lparr>ao_kind = pa_kind a, ao_target = pa_target a, ao_quarantine = Some q, ao_result = Inr ()\<rparr>, Removed),
       ?b1\<lparr>bt_ledger := (bt_ledger b)[pa_target_object a := e'], bt_world := (bt_world ?b1)\<lparr>w_tick := w_tick (bt_world ?b1) + 1\<rparr>\<rparr>)"
      "ledger_ok (w_fs (bt_world ?b1)) ((bt_ledger b)[pa_target_object a := e'])" by blast
    with run m Inr show ?thesis by (auto simp: apply_delete_def)
  qed
qed

section \<open>Hardlinks\<close>

text \<open>The nodes after an exchange: the original has only aged, the keeper may have one more link.\<close>

lemma exchange_nodes:
  assumes "aged {i, k} fs fs' \<or> aged {i, k} (bump (\<lambda>l. l + 1) k fs) fs'" and "wf_fs fs"
    and "node_at fs i li" "node_at fs k lk" and "i \<noteq> k"
  shows "wf_fs fs'" and "\<exists>live. node_at fs' i live \<and> untime live = untime li"
    and "\<exists>live. node_at fs' k live \<and> inode_of live = inode_of lk"
proof -
  show "wf_fs fs'" using assms(1,2) wf_aged wf_bump by blast
  show "\<exists>live. node_at fs' i live \<and> untime live = untime li"
    using assms(1,3,5) node_at_aged node_at_bump_other by blast
  show "\<exists>live. node_at fs' k live \<and> inode_of live = inode_of lk"
  proof -
    from node_at_bump [OF assms(4), of "\<lambda>l. l + 1"] obtain lk' where
      lk': "node_at (bump (\<lambda>l. l + 1) k fs) k lk'" "untime lk' = (untime lk)\<lparr>li_nlink := li_nlink lk + 1\<rparr>" by blast
    have "inode_of lk' = inode_of lk"
      using lk'(2) by (cases lk, cases lk') (simp add: untime_def inode_of_def)
    with assms(1,4) lk'(1) show ?thesis using node_at_aged inode_of_untime by metis
  qed
qed

lemma after_move_hardlink:
  assumes e: "alone (rn_env rn)" and ok: "ledger_ok (w_fs (bt_world b)) (bt_ledger b)"
    and acc: "accounted b a" and d: "drives (bt_ledger b) a"
    and led: "bt_ledger b1 = bt_ledger b"
    and room: "li_nlink (os_identity (bt_ledger b ! pa_keeper_object a)) \<noteq> - 1"
    and temp: "fs_names (w_fs (bt_world b)) temp = None"
    and x: "exact_exchange temp (pa_target a) (inode_of (os_identity (bt_ledger b ! pa_target_object a)))
       (inode_of (os_identity (bt_ledger b ! pa_keeper_object a))) (w_fs (bt_world b)) (PubPublished q) (w_fs (bt_world b1))"
  obtains et' ek' where "after_move rn a q (Some HardlinkLinkage) b1 =
      ((\<lparr>ao_kind = pa_kind a, ao_target = pa_target a, ao_quarantine = Some q, ao_result = Inr ()\<rparr>, Removed),
       b1\<lparr>bt_ledger := (bt_ledger b)[pa_target_object a := et', pa_keeper_object a := ek'],
          bt_world := (bt_world b1)\<lparr>w_tick := w_tick (bt_world b1) + 2\<rparr>\<rparr>)"
    and "ledger_ok (w_fs (bt_world b1)) ((bt_ledger b)[pa_target_object a := et', pa_keeper_object a := ek'])"
    and "os_settled et'" and "set (os_paths et') = insert q (set (os_paths (bt_ledger b ! pa_target_object a)) - {pa_target a})"
    and "os_settled ek'" and "set (os_paths ek') = insert (pa_target a) (set (os_paths (bt_ledger b ! pa_keeper_object a)))"
    and "untime (os_identity et') = untime (os_identity (bt_ledger b ! pa_target_object a))"
    and "untime (os_identity ek') = (untime (os_identity (bt_ledger b ! pa_keeper_object a)))
           \<lparr>li_nlink := li_nlink (os_identity (bt_ledger b ! pa_keeper_object a)) + 1\<rparr>"
proof -
  note F = drives_facts [OF ok acc d]
  let ?fs = "w_fs (bt_world b)" and ?fs' = "w_fs (bt_world b1)"
  let ?t = "pa_target_object a" and ?k = "pa_keeper_object a"
  let ?et = "bt_ledger b ! ?t" and ?ek = "bt_ledger b ! ?k"
  let ?i = "inode_of (os_identity ?et)" and ?j = "inode_of (os_identity ?ek)"
  from x have free: "fs_names ?fs q = None" and names: "fs_names ?fs' = (fs_names ?fs)(q := Some ?i, pa_target a := Some ?j)"
    and aged: "aged {?i, ?j} (bump (\<lambda>l. l + 1) ?j ?fs) ?fs'" by (simp_all add: exact_exchange_def)
  note N = exchange_nodes [OF disjI2 [OF aged] F(12,2,4,7)]
  from N(2) obtain live where live: "node_at ?fs' ?i live" "untime live = untime (os_identity ?et)" by blast
  from node_at_bump [OF F(4), of "\<lambda>l. l + 1"] node_at_aged [OF aged] obtain livek where
    livek: "node_at ?fs' ?j livek" "untime livek = (untime (os_identity ?ek))\<lparr>li_nlink := li_nlink (os_identity ?ek) + 1\<rparr>"
    by metis
  have q: "q \<notin> set (os_paths ?et)" using F(5) free by auto
  have qk: "q \<notin> set (os_paths ?ek)" "pa_target a \<notin> set (os_paths ?ek)" using F(1,6,7) free by auto
  have qt: "q \<noteq> pa_target a" using F(1) free by auto
  have nt: "fs_names ?fs' q = Some ?i" "\<And>p. p \<in> set (os_paths ?et) \<Longrightarrow> p \<noteq> pa_target a \<Longrightarrow> fs_names ?fs' p = Some ?i"
    using names qt F(5) q by auto
  have t: "pa_target a \<in> set (os_paths ?et)" and tk: "?t \<noteq> ?k" and kk: "pa_keeper a \<in> set (os_paths ?ek)"
    using d by (simp_all add: drives_def)
  obtain et' where et': "quarantined (disk_of ?fs') (bt_ledger b) ?t (pa_target a) q = Inr ((bt_ledger b)[?t := et'])"
    "entry_ok ?fs' ?i et'" "os_settled et' = os_settled ?et" "os_identity et' = live"
    "set (os_paths et') = insert q (set (os_paths ?et) - {pa_target a})"
    by (rule quarantined_follows [OF N(1) refl F(8,10,15) refl t q live nt])
  have nk: "fs_names ?fs' (pa_keeper a) = Some ?j" "fs_names ?fs' (pa_target a) = Some ?j"
    "\<And>p. p \<in> set (os_paths ?ek) \<Longrightarrow> fs_names ?fs' p = Some ?j"
    using names F(6) qk kk by auto
  have lk: "?ek = (bt_ledger b)[?t := et'] ! ?k" "?k < length ((bt_ledger b)[?t := et'])" using tk F(9) by simp_all
  obtain ek' where ek': "linked (disk_of ?fs') ((bt_ledger b)[?t := et']) ?k (pa_keeper a) (pa_target a)
      = Inr ((bt_ledger b)[?t := et', ?k := ek'])"
    "entry_ok ?fs' ?j ek'" "os_settled ek' = os_settled ?ek" "os_identity ek' = livek"
    "set (os_paths ek') = insert (pa_target a) (set (os_paths ?ek))"
    by (rule linked_follows [OF lk F(11) refl qk(2) livek room nk])
  have m: "minds {?i, ?j} ?fs ?fs'" by (rule exact_exchange_minds [OF x temp F(1)])
  have "ledger_ok ?fs' ((bt_ledger b)[?t := et', ?k := ek'])"
    using m et'(2) ek'(2) F(8,9) tk by (intro ledger_ok_step [OF ok F(8,9) _ N(1)]) auto
  then show thesis
    using et' ek' live livek F(13,14)
    by (intro that [of et' ek']) (simp_all add: after_move_def transition_def look_alone [OF e] led Let_def numeral_2_eq_2)
qed

text \<open>A settle that succeeds is right, and one that fails makes the entry untrusted.\<close>

definition followed :: "plan_refusal + ledger \<Rightarrow> nat \<Rightarrow> fs \<Rightarrow> inode_id \<Rightarrow> ledger \<Rightarrow> bool" where
  "followed outcome n fs i ledger \<longleftrightarrow>
     (case outcome of Inl _ \<Rightarrow> True | Inr ledger' \<Rightarrow> \<exists>e'. ledger' = ledger[n := e'] \<and> entry_ok fs i e')"

lemma settled_followed:
  assumes "wf_fs fs'" and "distinct (os_paths (ledger ! n))" and "i = inode_of (os_identity (ledger ! n))"
    and "fs_names fs' p = Some i" and "\<And>p. p \<in> set (os_paths (ledger ! n)) \<Longrightarrow> fs_names fs' p = Some i"
  shows "followed (settled (disk_of fs') ledger n p) n fs' i ledger"
proof (cases "settled (disk_of fs') ledger n p")
  case (Inr ledger')
  then obtain live where live: "stands (disk_of fs') p live"
    "adopt_ctime (os_identity (ledger ! n)) live = live" "ledger' = ledger[n := (ledger ! n)\<lparr>os_identity := live\<rparr>]"
    by (auto simp: settled_Inr)
  have node: "node_at fs' i live" using live(1) assms(4) by (auto simp: stands_iff)
  have "inode_of live = i" using node_at_inode [OF assms(1) node] by simp
  with node assms have "entry_ok fs' i ((ledger ! n)\<lparr>os_identity := live\<rparr>)" by (intro entry_okI) auto
  with Inr live(3) show ?thesis by (auto simp: followed_def)
qed (simp add: followed_def)

lemma after_settles:
  assumes ok: "ledger_ok fs ledger" and t: "t < length ledger" and k: "k < length ledger" and tk: "t \<noteq> k"
    and m: "minds {inode_of (os_identity (ledger ! t)), inode_of (os_identity (ledger ! k))} fs fs'" and wf: "wf_fs fs'"
    and ts: "followed ts t fs' (inode_of (os_identity (ledger ! t))) ledger"
    and ks: "followed ks k fs' (inode_of (os_identity (ledger ! k))) (after_settle ts ledger)"
    and dt: "distinct (os_paths (ledger ! t))" "distinct (os_paths (ledger ! k))"
  shows "ledger_ok fs' (snd (settle_or_poison k ks (snd (settle_or_poison t ts (after_settle ks (after_settle ts ledger))))))"
proof -
  let ?i = "inode_of (os_identity (ledger ! t))" and ?j = "inode_of (os_identity (ledger ! k))"
  obtain et where et: "entry_ok fs' ?i et" "snd (settle_or_poison t ts (after_settle ts ledger)) = ledger[t := et]"
    "after_settle ts ledger = ledger[t := (case ts of Inl _ \<Rightarrow> ledger ! t | Inr _ \<Rightarrow> et)]"
  proof (cases ts)
    case (Inl r)
    then show thesis using t dt
      by (intro that [of "(ledger ! t)\<lparr>os_settled := False\<rparr>"]) (simp_all add: settle_or_poison_def after_settle_def poison_def entry_ok_def)
  next
    case (Inr l)
    with ts obtain e' where "l = ledger[t := e']" "entry_ok fs' ?i e'" by (auto simp: followed_def)
    with Inr show thesis by (intro that [of e']) (simp_all add: settle_or_poison_def after_settle_def)
  qed
  define l1 where "l1 = after_settle ts ledger"
  have l1: "length l1 = length ledger" "l1 ! k = ledger ! k" "l1[t := et] = ledger[t := et]" "l1 ! t = (case ts of Inl _ \<Rightarrow> ledger ! t | Inr _ \<Rightarrow> et)"
    using et(3) tk t by (auto simp: l1_def split: sum.splits)
  have etl: "et = (ledger ! t)\<lparr>os_settled := False\<rparr>" if "ts = Inl r" for r
    using arg_cong [OF et(2), of "\<lambda>l. l ! t"] that t by (simp add: settle_or_poison_def after_settle_def poison_def)
  have pt: "snd (settle_or_poison t ts (l1[k := e])) = ledger[t := et, k := e]" for e
    using etl et(3) tk t by (cases ts) (auto simp: settle_or_poison_def poison_def l1_def after_settle_def list_update_swap)
  obtain ek where ek: "entry_ok fs' ?j ek"
    "snd (settle_or_poison k ks (snd (settle_or_poison t ts (after_settle ks l1)))) = ledger[t := et, k := ek]"
  proof (cases ks)
    case (Inl r)
    have same: "l1 = l1[k := ledger ! k]" using l1(2) by (metis list_update_id)
    have "snd (settle_or_poison t ts l1) = ledger[t := et, k := ledger ! k]" using pt [of "ledger ! k"] same by simp
    with Inl show thesis using k dt tk
      by (intro that [of "(ledger ! k)\<lparr>os_settled := False\<rparr>"]) (simp_all add: settle_or_poison_def after_settle_def poison_def entry_ok_def)
  next
    case (Inr l)
    with ks obtain e' where "l = l1[k := e']" "entry_ok fs' ?j e'" by (auto simp: followed_def l1_def)
    with Inr pt show thesis by (intro that [of e']) (simp_all add: settle_or_poison_def after_settle_def)
  qed
  have "ledger_ok fs' (ledger[t := et, k := ek])"
    using m et(1) ek(1) t k tk by (intro ledger_ok_step [OF ok t k _ wf]) auto
  with ek(2) show ?thesis by (simp add: l1_def)
qed

lemma after_failure_follows:
  assumes e: "alone (rn_env rn)" and ok: "ledger_ok (w_fs (bt_world b)) (bt_ledger b)"
    and acc: "accounted b a" and d: "drives (bt_ledger b) a"
    and led: "bt_ledger b1 = bt_ledger b"
    and temp: "fs_names (w_fs (bt_world b)) temp = None"
    and x: "exact_exchange temp (pa_target a) (inode_of (os_identity (bt_ledger b ! pa_target_object a)))
       (inode_of (os_identity (bt_ledger b ! pa_keeper_object a))) (w_fs (bt_world b)) pub (w_fs (bt_world b1))"
    and np: "\<not> (\<exists>q. pub = PubPublished q)"
    and run: "after_failure rn a pub b1 = (why, b')"
  shows "ledger_ok (w_fs (bt_world b')) (bt_ledger b')"
proof -
  note F = drives_facts [OF ok acc d]
  let ?fs = "w_fs (bt_world b)" and ?fs' = "w_fs (bt_world b1)" and ?l = "bt_ledger b"
  let ?t = "pa_target_object a" and ?k = "pa_keeper_object a"
  let ?et = "?l ! ?t" and ?ek = "?l ! ?k"
  let ?i = "inode_of (os_identity ?et)" and ?j = "inode_of (os_identity ?ek)"
  define ts where "ts = (case pub of
      PubStranded q _ \<Rightarrow> quarantined (disk_of ?fs') (bt_ledger b1) ?t (pa_target a) q
    | _ \<Rightarrow> settled (disk_of ?fs') (bt_ledger b1) ?t (pa_target a))"
  note ts_def' = ts_def [unfolded led]
  define ks where "ks = settled (disk_of ?fs') (after_settle ts ?l) ?k (pa_keeper a)"
  have m: "minds {?i, ?j} ?fs ?fs'" by (rule exact_exchange_minds [OF x temp F(1)])
  have aged: "aged {?i, ?j} ?fs ?fs' \<or> aged {?i, ?j} (bump (\<lambda>l. l + 1) ?j ?fs) ?fs'"
    using x np by (cases pub) (auto simp: exact_exchange_def residue_def)
  note N = exchange_nodes [OF aged F(12,2,4,7)]
  have tk: "?t \<noteq> ?k" and t: "pa_target a \<in> set (os_paths ?et)" and kk: "pa_keeper a \<in> set (os_paths ?ek)"
    using d by (simp_all add: drives_def)
  have kpaths: "fs_names ?fs' p = Some ?j" if "p \<in> set (os_paths ?ek)" for p
  proof -
    have "p \<noteq> temp" "p \<noteq> pa_target a" "fs_names ?fs p = Some ?j" using F(1,6,7) that temp by auto
    then show ?thesis using x np by (cases pub) (auto simp: exact_exchange_def)
  qed
  have tpaths: "fs_names ?fs' p = Some ?i" if "p \<in> set (os_paths ?et)" "p \<noteq> pa_target a \<or> \<not> (\<exists>q d. pub = PubStranded q d)" for p
  proof -
    have "p \<noteq> temp" "fs_names ?fs p = Some ?i" using F(5) that temp by auto
    then show ?thesis using x np that by (cases pub) (auto simp: exact_exchange_def)
  qed
  have ts: "followed ts ?t ?fs' ?i ?l"
  proof (cases "\<exists>q d. pub = PubStranded q d")
    case True
    then obtain q d where q: "pub = PubStranded q d" by blast
    from N(2) obtain live where live: "node_at ?fs' ?i live" "untime live = untime (os_identity ?et)" by blast
    have free: "fs_names ?fs q = None" "fs_names ?fs' q = Some ?i"
      using x q by (auto simp: exact_exchange_def)
    then have "q \<notin> set (os_paths ?et)" using F(5) by auto
    moreover have "fs_names ?fs' p = Some ?i" if "p \<in> set (os_paths ?et)" "p \<noteq> pa_target a" for p
      using tpaths that by blast
    ultimately obtain e' where
      "quarantined (disk_of ?fs') ?l ?t (pa_target a) q = Inr (?l[?t := e'])" "entry_ok ?fs' ?i e'"
      by (rule quarantined_follows [OF N(1) refl F(8,10,15) refl t _ live free(2)])
    with q show ?thesis by (auto simp: followed_def ts_def')
  next
    case False
    then have "ts = settled (disk_of ?fs') ?l ?t (pa_target a)" by (auto simp: ts_def' split: publication.splits)
    moreover have "followed (settled (disk_of ?fs') ?l ?t (pa_target a)) ?t ?fs' ?i ?l"
      using False tpaths t by (intro settled_followed [OF N(1) F(10) refl]) auto
    ultimately show ?thesis by simp
  qed
  have lk: "after_settle ts ?l ! ?k = ?ek"
    using ts tk by (auto simp: followed_def after_settle_def split: sum.splits)
  have ks: "followed ks ?k ?fs' ?j (after_settle ts ?l)"
    unfolding ks_def using kpaths kk F(11) by (intro settled_followed [OF N(1)]) (simp_all add: lk)
  have "ledger_ok ?fs' (snd (settle_or_poison ?k ks (snd (settle_or_poison ?t ts (after_settle ks (after_settle ts ?l))))))"
    by (rule after_settles [OF ok F(8,9) tk m N(1) ts ks F(10,11)])
  moreover have "bt_ledger b' = snd (settle_or_poison ?k ks (snd (settle_or_poison ?t ts (after_settle ks (after_settle ts ?l)))))"
  proof -
    have "bt_ledger (snd (after_failure rn a pub b1)) = snd (settle_or_poison ?k ks (snd (settle_or_poison ?t ts (after_settle ks (after_settle ts ?l)))))"
      unfolding after_failure_def look_alone [OF e] Let_def prod.case ts_def [symmetric]
      by (simp add: look_alone [OF e] led ks_def [symmetric] case_prod_beta')
    with run show ?thesis by simp
  qed
  moreover have "w_fs (bt_world b') = ?fs'"
    using run by (auto simp: after_failure_def look_alone [OF e] Let_def split: prod.splits)
  ultimately show ?thesis by simp
qed

lemma apply_hardlink_follows:
  assumes e: "alone (rn_env rn)" and ok: "ledger_ok (w_fs (bt_world b)) (bt_ledger b)"
    and acc: "accounted b a" and d: "drives (bt_ledger b) a"
    and b2: "w_fs (bt_world b2) = w_fs (bt_world b)" "bt_ledger b2 = bt_ledger b"
    and room: "li_nlink (os_identity (bt_ledger b ! pa_keeper_object a)) \<noteq> - 1"
    and temp: "\<And>p name. fs_names (w_fs (bt_world b)) (rn_staging rn p name) = None"
    and run: "apply_hardlink rn a ds b2 = ((out, r), b')"
  shows "ledger_ok (w_fs (bt_world b')) (bt_ledger b') \<and> (\<forall>q d. r \<noteq> Unsettled q d)"
proof (cases "parent (pa_target a)")
  case None
  let ?b1 = "b2"
  have "hardlink (rn_env rn) (rn_attempts rn) (rn_staging rn) (pa_target a) (pa_keeper a) (ds_mountpoint ds)
      (quarantine_dir (ds_mountpoint ds) (rn_timestamp rn)) (bt_world b2) = (PubNotMoved NoParentDetail, bt_world b2)"
    by (simp add: hardlink_def evacuate_then_publish_def None)
  moreover have temp': "fs_names (w_fs (bt_world b)) (rn_staging rn [] None) = None" by (rule temp)
  moreover have "ledger_ok (w_fs (bt_world b')) (bt_ledger b')"
    if "after_failure rn a (PubNotMoved NoParentDetail) b2 = (why, b')" for why
    by (rule after_failure_follows [OF e ok acc d b2(2) temp' _ _ that])
      (simp_all add: exact_exchange_def residue_def b2 temp)
  ultimately show ?thesis
    using run by (auto simp: apply_hardlink_def finish_publication_def publication_place_def Let_def split: prod.splits)
next
  case (Some p)
  let ?dir = "quarantine_dir (ds_mountpoint ds) (rn_timestamp rn)"
  define staged where "staged = rn_staging rn p (file_name (pa_target a))"
  note F = drives_facts [OF ok acc d]
  let ?i = "inode_of (os_identity (bt_ledger b ! pa_target_object a))"
    and ?j = "inode_of (os_identity (bt_ledger b ! pa_keeper_object a))"
  obtain pub w3 where h: "hardlink (rn_env rn) (rn_attempts rn) (rn_staging rn) (pa_target a) (pa_keeper a)
      (ds_mountpoint ds) ?dir (bt_world b2) = (pub, w3)" by fastforce
  have free: "fs_names (w_fs (bt_world b)) staged = None" by (simp add: staged_def temp)
  have ne: "staged \<noteq> pa_target a" using free F(1) by auto
  have x: "exact_exchange staged (pa_target a) ?i ?j (w_fs (bt_world b)) pub (w_fs w3)"
    using hardlink_exact [OF e Some staged_def ne _ _ _ h] free F(1,3) b2 by simp
  define b1 where "b1 = (if publication_place pub = None then b2\<lparr>bt_world := w3\<rparr> else note_quarantine ?dir (b2\<lparr>bt_world := w3\<rparr>))"
  have b1: "bt_ledger b1 = bt_ledger b" "bt_world b1 = w3" by (simp_all add: b1_def b2 note_quarantine_def)
  show ?thesis
  proof (cases "\<exists>q. pub = PubPublished q")
    case True
    then obtain q where q: "pub = PubPublished q" by blast
    have x': "exact_exchange staged (pa_target a) ?i ?j (w_fs (bt_world b)) (PubPublished q) (w_fs (bt_world b1))"
      using x q b1 by simp
    from after_move_hardlink [OF e ok acc d b1(1) room free x'] obtain et' ek' where
      "after_move rn a q (Some HardlinkLinkage) b1 =
      ((\<lparr>ao_kind = pa_kind a, ao_target = pa_target a, ao_quarantine = Some q, ao_result = Inr ()\<rparr>, Removed),
       b1\<lparr>bt_ledger := (bt_ledger b)[pa_target_object a := et', pa_keeper_object a := ek'],
          bt_world := (bt_world b1)\<lparr>w_tick := w_tick (bt_world b1) + 2\<rparr>\<rparr>)"
      "ledger_ok (w_fs (bt_world b1)) ((bt_ledger b)[pa_target_object a := et', pa_keeper_object a := ek'])" by metis
    with run h q show ?thesis
      by (auto simp: apply_hardlink_def finish_publication_def b1_def Let_def publication_place_def)
  next
    case False
    obtain why b4 where f: "after_failure rn a pub b1 = (why, b4)" by fastforce
    have "ledger_ok (w_fs (bt_world b4)) (bt_ledger b4)"
      by (rule after_failure_follows [OF e ok acc d b1(1) free _ False f]) (simp add: b1 x)
    with run h f False show ?thesis
      by (cases pub) (auto simp: apply_hardlink_def finish_publication_def Let_def publication_place_def b1_def)
  qed
qed


section \<open>The sample ledger\<close>

lemma sample_nodes_wf: "wf_fs sample_fs"
  by (auto simp: wf_fs_def sample_fs_def sample_members_def sample_member_def sample_key_def sample_stat_def inode_of_def
      split: if_splits)

lemma sample_disk_of: "disk_of sample_fs = sample_disk"
  by (auto simp: fun_eq_iff disk_of_def sample_fs_def sample_disk_def sample_names_def sample_members_def
      sample_member_def sample_key_def sample_stat_def in_symlink_def)

lemma sample_ledger_ok: "ledger_ok sample_fs sample_ledger"
proof -
  have "os_settled (sample_ledger ! i) \<and> entry_stands (disk_of sample_fs) (sample_ledger ! i)"
    if "i < length sample_ledger" for i
    unfolding sample_disk_of by (rule preflight_entries [OF sample_preflight that])
  moreover have "list_all (\<lambda>e. distinct (os_paths e)) sample_ledger"
    "distinct (map (inode_of \<circ> os_identity) sample_ledger)"
    unfolding sample_ledger_def sample_plan_def by code_simp+
  ultimately show ?thesis by (simp add: ledger_ok_def sample_nodes_wf list_all_length)
qed

lemma sample_staging_free: "fs_names (w_fs (bt_world sample_open)) (rn_staging sample_run p name) = None"
  by (auto simp: sample_open_def open_batch_def sample_world_def sample_fs_def sample_names_def sample_members_def
      sample_member_def sample_staging_def)


end
