(* ===== verification/Batch_Quiet.thy ===== *)
theory Batch_Quiet
  imports Batch_Ledger
begin

text \<open>
  Nothing stands in the way: on a quiet disk that the plan describes, a batch carries out every action
  and delivers what was promised.
\<close>

section \<open>Calls that cannot fail\<close>

lemma quiet_alone: "quiet env \<Longrightarrow> alone env"
  by (simp add: quiet_def)

lemma symlink_metadata_quiet:
  assumes "quiet env" and "fs_names (w_fs w) p = Some i" and "fs_nodes (w_fs w) i = Some node"
  shows "fst (symlink_metadata env p w) = Inr node"
  using assms by (simp add: symlink_metadata_def syscall_def Let_def quiet_def alone_def k_stat_def)

lemma read_file_quiet:
  assumes "quiet env" and "fs_names (w_fs w) p = Some i" and "fs_nodes (w_fs w) i = Some node" and "in_type node = RegularFile"
  shows "fst (read_file env p w) = Inr (in_data node)"
  using assms by (simp add: read_file_def syscall_def Let_def quiet_def alone_def k_read_def)

lemma create_dir_all_quiet: "quiet env \<Longrightarrow> fst (create_dir_all env p w) = Inr ()"
  by (simp add: create_dir_all_def syscall_def Let_def quiet_def)

lemma hard_link_quiet:
  assumes "quiet env" and "fs_names (w_fs w) src \<noteq> None" and "fs_names (w_fs w) dst = None"
  shows "fst (hard_link env src dst w) = Inr ()"
  using assms by (auto simp: hard_link_def syscall_def Let_def quiet_def alone_def k_link_def)

lemma rename_quiet_free:
  assumes "quiet env" and "\<not> has_nul src" and "\<not> has_nul dst" and "fs_names (w_fs w) src \<noteq> None"
    and "fs_names (w_fs w) dst = None"
  shows "fst (rename_noreplace env src dst w) = Inr ()"
  using rename_quiet [OF assms(1-4)] assms(5) by simp

text \<open>The names of a disk that a search for a free one may meet.\<close>

definition few_names :: "nat \<Rightarrow> fs \<Rightarrow> bool" where
  "few_names n fs \<longleftrightarrow> finite {p. fs_names fs p \<noteq> None} \<and> card {p. fs_names fs p \<noteq> None} < n"

lemma few_names_insert:
  assumes "few_names n fs" and "{p. fs_names fs' p \<noteq> None} \<subseteq> insert q {p. fs_names fs p \<noteq> None}"
  shows "few_names (Suc n) fs'"
proof -
  have f: "finite (insert q {p. fs_names fs p \<noteq> None})" using assms(1) by (simp add: few_names_def)
  have "card {p. fs_names fs' p \<noteq> None} \<le> card (insert q {p. fs_names fs p \<noteq> None})"
    by (rule card_mono [OF f assms(2)])
  also have "\<dots> \<le> Suc (card {p. fs_names fs p \<noteq> None})" by (rule card_insert_le_m1) simp_all
  finally show ?thesis using assms(1) finite_subset [OF assms(2) f] by (simp add: few_names_def)
qed

lemma few_names_subset:
  assumes "few_names n fs" and "{p. fs_names fs' p \<noteq> None} \<subseteq> insert q ({p. fs_names fs p \<noteq> None} - {r})"
    and "fs_names fs r \<noteq> None"
  shows "few_names n fs'"
proof -
  let ?S = "{p. fs_names fs p \<noteq> None}"
  have fin: "finite ?S" using assms(1) by (simp add: few_names_def)
  then have f: "finite (insert q (?S - {r}))" by simp
  have "card {p. fs_names fs' p \<noteq> None} \<le> card (insert q (?S - {r}))" by (rule card_mono [OF f assms(2)])
  also have "\<dots> \<le> Suc (card (?S - {r}))" using fin by (simp add: card_insert_if)
  also have "\<dots> = card ?S" using assms(3) fin by (intro card_Suc_Diff1) simp_all
  finally show ?thesis using assms(1) finite_subset [OF assms(2) f] by (simp add: few_names_def)
qed

text \<open>What the search needs of a target and its quarantine.\<close>

definition movable :: "path \<Rightarrow> path \<Rightarrow> path \<Rightarrow> bool" where
  "movable target mountpoint qdir \<longleftrightarrow>
     \<not> has_nul target \<and> prefix mountpoint target
     \<and> (\<forall>relative. target = mountpoint @ relative \<longrightarrow>
          \<not> has_nul (join qdir relative) \<and> file_name (join qdir relative) \<noteq> None)"

lemma delete_quiet:
  assumes q: "quiet env" and m: "movable target mountpoint qdir" and few: "few_names attempts (w_fs w)"
    and node: "fs_names (w_fs w) target = Some i" "fs_nodes (w_fs w) i = Some node" "\<not> in_symlink node"
  shows "\<exists>r. fst (delete_to_quarantine env attempts target mountpoint qdir w) = Inr r"
proof -
  obtain s w1 where s: "symlink_metadata env target w = (s, w1)" by fastforce
  have s': "s = Inr node" using symlink_metadata_quiet [OF q node(1,2)] s by simp
  from m obtain relative where rel: "target = mountpoint @ relative" by (auto simp: movable_def prefix_def)
  then have strip: "strip_prefix target mountpoint = Some relative" by (simp add: strip_prefix_eq_Some)
  let ?base = "join qdir relative"
  obtain d w2 where d: "(case parent ?base of None \<Rightarrow> (Inr (), w1) | Some p \<Rightarrow> create_dir_all env p w1) = (d, w2)"
    by fastforce
  have d': "d = Inr ()"
    using d create_dir_all_quiet [OF q] by (auto split: option.splits) (metis fst_conv)
  have w2: "w_fs w2 = w_fs w"
    using d symlink_metadata_alone [OF quiet_alone [OF q], of target w] create_dir_all_alone [OF quiet_alone [OF q]] s
    by (auto split: option.splits) (metis snd_conv)
  from m rel obtain name where base: "\<not> has_nul ?base" "file_name ?base = Some name" by (auto simp: movable_def)
  from free_candidate [OF _ _ base(2), of "w_fs w" attempts] few obtain j where
    j: "j < attempts" "fs_names (w_fs w2) (suffixed ?base (0 + j)) = None" by (auto simp: few_names_def w2)
  have src: "fs_names (w_fs w2) target \<noteq> None" "\<not> has_nul target" using node(1) w2 m by (simp_all add: movable_def)
  from claim_name_returns [OF q src(2,1) has_nul_suffixed [OF base(1)] j, of IoFailed]
  obtain r w3 where "claim_name env IoFailed (\<lambda>_. False) attempts target ?base 0 w2 = (Inr r, w3)" by blast
  then show ?thesis using s s' node(3) strip d d' by (simp add: delete_to_quarantine_def Let_def)
qed

lemma hardlink_quiet:
  assumes q: "quiet env" and m: "movable target mountpoint qdir" and few: "few_names attempts (w_fs w)"
    and room: "Suc (card {p. fs_names (w_fs w) p \<noteq> None}) < attempts"
    and p: "parent target = Some p" and temp: "temp = staging p (file_name target)" "\<not> has_nul temp"
      "fs_names (w_fs w) temp = None" "temp \<noteq> target"
    and target: "fs_names (w_fs w) target = Some i" "fs_nodes (w_fs w) i = Some node" "\<not> in_symlink node"
    and keeper: "fs_names (w_fs w) keeper = Some k" "k \<noteq> i"
  shows "\<exists>r. fst (hardlink env attempts staging target keeper mountpoint qdir w) = PubPublished r"
proof -
  note e = quiet_alone [OF q]
  obtain r w1 where r: "hard_link env keeper temp w = (r, w1)" by fastforce
  have r': "r = Inr ()" using hard_link_quiet [OF q _ temp(3)] keeper r by (metis fst_conv option.distinct(1))
  with hard_link_exact [OF e r] keeper have n1: "fs_names (w_fs w1) = (fs_names (w_fs w))(temp := Some k)"
    and a1: "aged {k} (bump (\<lambda>l. l + 1) k (w_fs w)) (w_fs w1)" by auto
  have t1: "fs_names (w_fs w1) target = Some i" "fs_nodes (w_fs w1) i = Some node"
    using n1 a1 target keeper(2) temp(4) by (auto simp: aged_def bump_nodes)
  have few1: "few_names attempts (w_fs w1)"
  proof -
    have "few_names (attempts - 1) (w_fs w)" using few room by (auto simp: few_names_def)
    then have "few_names (Suc (attempts - 1)) (w_fs w1)" by (rule few_names_insert) (auto simp: n1)
    then show ?thesis using room by simp
  qed
  obtain d w2 where d: "delete_to_quarantine env attempts target mountpoint qdir w1 = (d, w2)" by fastforce
  from delete_quiet [OF q m few1 t1 target(3)] d obtain evacuated where d': "d = Inr evacuated" by auto
  with delete_alone [OF e d] have mv: "moved_name target evacuated (w_fs w1) (w_fs w2)" by simp
  have "evacuated \<noteq> temp" using mv n1 by (auto simp: moved_name_def)
  then have n2: "fs_names (w_fs w2) temp \<noteq> None" "fs_names (w_fs w2) target = None"
    using mv n1 t1 temp(4) by (auto simp: moved_name_def)
  have "fst (rename_noreplace env temp target w2) = Inr ()"
    using m by (intro rename_quiet_free [OF q temp(2) _ n2]) (simp add: movable_def)
  then show ?thesis
    using r r' d d' p
    by (auto simp: hardlink_def evacuate_then_publish_def Let_def publish_or_restore_def simp flip: temp(1) split: prod.splits)
qed

section \<open>Checks that cannot fail\<close>

text \<open>The path holds a plain file of this size with this digest.\<close>

definition holds_file :: "run \<Rightarrow> fs \<Rightarrow> path \<Rightarrow> u64 \<Rightarrow> string \<Rightarrow> bool" where
  "holds_file rn fs p len hash \<longleftrightarrow>
     (\<exists>i node. fs_names fs p = Some i \<and> fs_nodes fs i = Some node \<and> in_type node = RegularFile
        \<and> li_size (in_live node) = len \<and> rn_digest rn (in_data node) = hash)"

lemma verify_file_quiet:
  assumes q: "quiet (rn_env rn)" and h: "holds_file rn (w_fs (bt_world b)) p len hash"
  shows "fst (verify_file rn p len hash b) = Inr ()"
proof -
  from h obtain i node where n: "fs_names (w_fs (bt_world b)) p = Some i" "fs_nodes (w_fs (bt_world b)) i = Some node"
    "in_type node = RegularFile" "li_size (in_live node) = len" "rn_digest rn (in_data node) = hash"
    by (auto simp: holds_file_def)
  obtain s w1 where s: "symlink_metadata (rn_env rn) p (bt_world b) = (s, w1)" by fastforce
  have s': "s = Inr node" using symlink_metadata_quiet [OF q n(1,2)] s by simp
  have w1: "w_fs w1 = w_fs (bt_world b)" using symlink_metadata_alone [OF quiet_alone [OF q], of p "bt_world b"] s by simp
  obtain d w2 where d: "read_file (rn_env rn) p w1 = (d, w2)" by fastforce
  have "d = Inr (in_data node)" using read_file_quiet [OF q, of w1 p i node] n w1 d by simp
  then show ?thesis using s s' d n by (simp add: verify_file_def Let_def in_symlink_def)
qed

lemma revalidate_quiet:
  assumes q: "quiet (rn_env rn)" and "holds_file rn (w_fs (bt_world b)) (pa_target a) (pa_size a) (pa_expected_hash a)"
    and "holds_file rn (w_fs (bt_world b)) (pa_keeper a) (pa_size a) (pa_expected_hash a)"
  shows "fst (revalidate rn a b) = Inr ()"
proof -
  obtain r b1 where r: "verify_file rn (pa_target a) (pa_size a) (pa_expected_hash a) b = (r, b1)" by fastforce
  have "r = Inr ()" using verify_file_quiet [OF q assms(2)] r by simp
  moreover have "w_fs (bt_world b1) = w_fs (bt_world b)" by (rule verify_file_alone(1) [OF quiet_alone [OF q] r])
  ultimately show ?thesis
    using verify_file_quiet [OF q, of b1 "pa_keeper a"] assms(3) r by (simp add: revalidate_def)
qed

text \<open>An action that is not refused before it begins.\<close>

lemma apply_one_goes:
  assumes q: "quiet (rn_env rn)" and a: "a = ap_actions (rn_plan rn) ! i" and "bt_obstacles b ! i = None"
    and "guarded_place rn a b = Inr ds" and acc: "accounted b a"
    and h: "holds_file rn (w_fs (bt_world b)) (pa_target a) (pa_size a) (pa_expected_hash a)"
      "holds_file rn (w_fs (bt_world b)) (pa_keeper a) (pa_size a) (pa_expected_hash a)"
  obtains b2 where "w_fs (bt_world b2) = w_fs (bt_world b)" and "bt_ledger b2 = bt_ledger b"
    and "apply_one rn i b = (case pa_kind a of Delete \<Rightarrow> apply_delete rn a ds b2
           | Hardlink \<Rightarrow> apply_hardlink rn a ds b2 | Reflink \<Rightarrow> apply_reflink rn a ds b2)"
proof -
  note e = quiet_alone [OF q]
  obtain c b1 where c: "check_both rn a b = (c, b1)" by fastforce
  note C = check_both_alone [OF e c]
  have c': "c = Inr ()" unfolding C(6) using acc by (simp add: accounted_def check_Inr)
  obtain v b2 where v: "revalidate rn a b1 = (v, b2)" by fastforce
  have v': "v = Inr ()" using revalidate_quiet [OF q, of b1 a] h C(1) v by simp
  have w: "w_fs (bt_world b2) = w_fs (bt_world b1)"
  proof -
    obtain r1 b' where 1: "verify_file rn (pa_target a) (pa_size a) (pa_expected_hash a) b1 = (r1, b')" by fastforce
    obtain r2 b'' where 2: "verify_file rn (pa_keeper a) (pa_size a) (pa_expected_hash a) b' = (r2, b'')" by fastforce
    show ?thesis
      using v verify_file_alone(1) [OF e 1] verify_file_alone(1) [OF e 2]
      by (auto simp: revalidate_def 1 2 split: sum.splits)
  qed
  have l: "bt_ledger b2 = bt_ledger b1"
    using v by (auto simp: revalidate_def verify_file_def Let_def split: sum.splits prod.splits if_splits)
  show thesis
    using assms(3,4) c c' v v' w l C(1,3)
    by (intro that [of b2]) (simp_all add: apply_one_def Let_def a [symmetric])
qed

section \<open>Every action in turn\<close>

text \<open>
  What the actions still to come need: \<open>n\<close> of them at most. Their allocations are trusted, hold their
  paths and have room for their links, their files have the planned size and content, and there are
  enough tries to find a free name.
\<close>

definition awaits :: "run \<Rightarrow> fs \<Rightarrow> ledger \<Rightarrow> plan_action \<Rightarrow> bool" where
  "awaits rn fs ledger a \<longleftrightarrow>
     pa_kind a \<noteq> Reflink \<and> drives ledger a
     \<and> pa_target_object a < length ledger \<and> pa_keeper_object a < length ledger
     \<and> holds_file rn fs (pa_target a) (pa_size a) (pa_expected_hash a)
     \<and> holds_file rn fs (pa_keeper a) (pa_size a) (pa_expected_hash a)"

definition ready :: "run \<Rightarrow> fs \<Rightarrow> ledger \<Rightarrow> plan_action list \<Rightarrow> bool" where
  "ready rn fs ledger as \<longleftrightarrow>
     ledger_ok fs ledger \<and> (\<forall>j < length ledger. os_settled (ledger ! j))
     \<and> (\<forall>a \<in> set as. awaits rn fs ledger a)
     \<and> distinct (map pa_target as) \<and> pa_target ` set as \<inter> pa_keeper ` set as = {}
     \<and> (\<forall>j < length ledger. unat (li_nlink (os_identity (ledger ! j))) + length as < 2 ^ 64)
     \<and> few_names (rn_attempts rn - length as) fs
     \<and> (\<forall>p name. fs_names fs (rn_staging rn p name) = None)"

text \<open>What stays the same for the actions to come when one has run.\<close>

definition entry_carries :: "plan_action \<Rightarrow> object_state \<Rightarrow> object_state \<Rightarrow> bool" where
  "entry_carries a e e' \<longleftrightarrow>
     os_settled e' \<and> set (os_paths e) - {pa_target a} \<subseteq> set (os_paths e')
     \<and> unat (li_nlink (os_identity e')) \<le> unat (li_nlink (os_identity e)) + 1"

definition carries_over :: "plan_action \<Rightarrow> fs \<Rightarrow> ledger \<Rightarrow> fs \<Rightarrow> ledger \<Rightarrow> bool" where
  "carries_over a fs ledger fs' ledger' \<longleftrightarrow>
     length ledger' = length ledger
     \<and> (\<forall>j < length ledger. entry_carries a (ledger ! j) (ledger' ! j))
     \<and> (\<forall>p. p \<noteq> pa_target a \<and> fs_names fs p \<noteq> None \<longrightarrow> fs_names fs' p = fs_names fs p)
     \<and> (\<forall>i node. fs_nodes fs i = Some node \<longrightarrow>
          (\<exists>node'. fs_nodes fs' i = Some node' \<and> in_type node' = in_type node \<and> in_data node' = in_data node
             \<and> li_size (in_live node') = li_size (in_live node)))"

lemma holds_file_carries:
  assumes "carries_over a fs ledger fs' ledger'" and "holds_file rn fs p len hash" and "p \<noteq> pa_target a"
  shows "holds_file rn fs' p len hash"
  using assms unfolding carries_over_def holds_file_def by (metis option.distinct(1))

lemma ready_step:
  assumes r: "ready rn fs ledger (a # as)" and c: "carries_over a fs ledger fs' ledger'"
    and ok: "ledger_ok fs' ledger'" and few: "few_names (rn_attempts rn - length as) fs'"
    and temps: "\<And>p name. fs_names fs' (rn_staging rn p name) = None"
  shows "ready rn fs' ledger' as"
proof -
  have len: "length ledger' = length ledger" using c by (simp add: carries_over_def)
  have aw: "awaits rn fs' ledger' b" if b: "b \<in> set as" for b
  proof -
    have w: "awaits rn fs ledger b" and ne: "pa_target b \<noteq> pa_target a" "pa_keeper b \<noteq> pa_target a"
      using r b by (auto simp: ready_def) (metis image_eqI)+
    have d: "drives ledger' b"
      using w c ne by (auto simp: awaits_def drives_def carries_over_def entry_carries_def)
    show ?thesis
      using w d len holds_file_carries [OF c _ ne(1)] holds_file_carries [OF c _ ne(2)] by (simp add: awaits_def)
  qed
  have links: "unat (li_nlink (os_identity (ledger' ! j))) + length as < 2 ^ 64" if "j < length ledger'" for j
  proof -
    have "unat (li_nlink (os_identity (ledger' ! j))) \<le> unat (li_nlink (os_identity (ledger ! j))) + 1"
      using c that len by (simp add: carries_over_def entry_carries_def)
    moreover have "unat (li_nlink (os_identity (ledger ! j))) + length (a # as) < 2 ^ 64"
      using r that len by (simp only: ready_def)
    ultimately show ?thesis by simp
  qed
  show ?thesis
    unfolding ready_def using ok c len aw links few temps r
    by (auto simp: carries_over_def entry_carries_def ready_def)
qed

section \<open>One action on a quiet disk\<close>

lemma touch_eq_data:
  "touch (0, 0) a = touch (0, 0) b \<Longrightarrow>
     in_type a = in_type b \<and> in_data a = in_data b \<and> li_size (in_live a) = li_size (in_live b)"
proof -
  assume eq: "touch (0, 0) a = touch (0, 0) b"
  have s: "li_size (in_live (touch c x)) = li_size (in_live x)" for c x by (simp add: touch_def)
  show ?thesis using eq arg_cong [OF eq, of "\<lambda>x. li_size (in_live x)"] by (metis s touch_data(1,2))
qed

lemma aged_keeps_files:
  assumes "aged I fs fs'" and "fs_nodes fs i = Some node"
  shows "\<exists>node'. fs_nodes fs' i = Some node' \<and> in_type node' = in_type node \<and> in_data node' = in_data node
     \<and> li_size (in_live node') = li_size (in_live node)"
  using aged_some [OF assms] touch_eq_data by blast

lemma bump_keeps_files:
  assumes "aged I (bump f k fs) fs'" and "fs_nodes fs i = Some node"
  shows "\<exists>node'. fs_nodes fs' i = Some node' \<and> in_type node' = in_type node \<and> in_data node' = in_data node
     \<and> li_size (in_live node') = li_size (in_live node)"
proof -
  have "\<exists>node1. fs_nodes (bump f k fs) i = Some node1 \<and> in_type node1 = in_type node \<and> in_data node1 = in_data node
     \<and> li_size (in_live node1) = li_size (in_live node)"
    using assms(2) by (auto simp: bump_nodes relink_def touch_def)
  with aged_keeps_files [OF assms(1)] show ?thesis by (metis (no_types, lifting))
qed

lemma few_names_mono: "few_names m fs \<Longrightarrow> m \<le> n \<Longrightarrow> few_names n fs"
  by (auto simp: few_names_def)

lemma evacuated_path:
  assumes "delete_to_quarantine env attempts target mountpoint qdir w = (Inr q, w')"
  shows "\<exists>relative m. target = mountpoint @ relative \<and> q = suffixed (join qdir relative) m"
  using assms
proof (cases rule: delete_to_quarantine_cases)
  case (claimed relative w2)
  from claim_name_path [OF claimed(3)] claimed(1) show ?thesis by blast
qed simp

lemma published_path:
  assumes "hardlink env attempts staging target keeper mountpoint qdir w = (PubPublished q, w')"
  shows "\<exists>relative m. target = mountpoint @ relative \<and> q = suffixed (join qdir relative) m"
proof -
  have p: "publish_or_restore env temp evacuated target w = (PubPublished q, w') \<Longrightarrow> evacuated = q" for temp evacuated w
    by (auto simp: publish_or_restore_def Let_def split: prod.splits sum.splits)
  from assms obtain w1 w2 evacuated where
    "delete_to_quarantine env attempts target mountpoint qdir w1 = (Inr evacuated, w2)" "evacuated = q"
    by (auto simp: hardlink_def evacuate_then_publish_def Let_def split: option.splits prod.splits sum.splits dest: p)
  with evacuated_path show ?thesis by blast
qed

text \<open>The static part: the names an action uses are usable and apart from the staging names.\<close>

definition serviceable :: "run \<Rightarrow> plan_action \<Rightarrow> dataset \<Rightarrow> bool" where
  "serviceable rn a ds \<longleftrightarrow>
     (let dir = quarantine_dir (ds_mountpoint ds) (rn_timestamp rn)
      in movable (pa_target a) (ds_mountpoint ds) dir
         \<and> apart {rn_staging rn p name | p name. True} (pa_target a) (ds_mountpoint ds) dir
         \<and> (\<exists>p. parent (pa_target a) = Some p \<and> \<not> has_nul (rn_staging rn p (file_name (pa_target a)))))"

lemma ready_accounted:
  assumes "ready rn (w_fs (bt_world b)) (bt_ledger b) (a # as)"
  shows "ledger_ok (w_fs (bt_world b)) (bt_ledger b)" and "accounted b a" and "drives (bt_ledger b) a"
    and "holds_file rn (w_fs (bt_world b)) (pa_target a) (pa_size a) (pa_expected_hash a)"
    and "holds_file rn (w_fs (bt_world b)) (pa_keeper a) (pa_size a) (pa_expected_hash a)"
  using assms by (auto simp: ready_def awaits_def accounted_def ledger_ok_def)

lemma untime_nlink: "untime a = untime b \<Longrightarrow> li_nlink a = li_nlink b"
  by (cases a, cases b) (simp add: untime_def)

lemma delete_step:
  fixes b :: batch
  assumes q: "quiet (rn_env rn)" and r: "ready rn (w_fs (bt_world b)) (bt_ledger b) (a # as)"
    and s: "serviceable rn a ds"
    and b2: "w_fs (bt_world b2) = w_fs (bt_world b)" "bt_ledger b2 = bt_ledger b"
    and run: "apply_delete rn a ds b2 = (step, b')"
  shows "snd step = Removed" and "ready rn (w_fs (bt_world b')) (bt_ledger b') as"
proof -
  note e = quiet_alone [OF q] and R = ready_accounted [OF r]
  note F = drives_facts [OF R(1-3)]
  let ?fs = "w_fs (bt_world b)" and ?dir = "quarantine_dir (ds_mountpoint ds) (rn_timestamp rn)"
  let ?t = "pa_target_object a"
  have few: "few_names (rn_attempts rn - Suc (length as)) ?fs" using r by (simp add: ready_def)
  from F(2) obtain node where node: "fs_nodes ?fs (inode_of (os_identity (bt_ledger b ! ?t))) = Some node" "\<not> in_symlink node"
    by (auto simp: node_at_def)
  obtain m w3 where m: "delete_to_quarantine (rn_env rn) (rn_attempts rn) (pa_target a) (ds_mountpoint ds) ?dir (bt_world b2) = (m, w3)"
    by fastforce
  have mov: "movable (pa_target a) (ds_mountpoint ds) ?dir" using s by (simp add: serviceable_def Let_def)
  have few2: "few_names (rn_attempts rn) (w_fs (bt_world b2))"
    unfolding b2(1) using few by (rule few_names_mono) simp
  from delete_quiet [OF q mov few2 _ _ node(2)] F(1) node(1) b2(1) m obtain p where p: "m = Inr p" by auto
  let ?b1 = "note_quarantine ?dir (b2\<lparr>bt_world := w3\<rparr>)"
  have t: "fs_names (w_fs (bt_world b2)) (pa_target a) = Some (inode_of (os_identity (bt_ledger b ! ?t)))"
    using F(1) b2 by simp
  from delete_exact [OF e m [unfolded p] t] b2
  have mv: "moved_name (pa_target a) p ?fs (w_fs (bt_world ?b1))"
    and aged: "aged {inode_of (os_identity (bt_ledger b ! ?t))} ?fs (w_fs (bt_world ?b1))"
    by simp_all
  have led: "bt_ledger ?b1 = bt_ledger b" using b2 by (simp add: note_quarantine_def)
  from after_move_delete [OF e R(1-3) led mv aged] obtain e' where
    am: "after_move rn a p None ?b1 =
      ((\<lparr>ao_kind = pa_kind a, ao_target = pa_target a, ao_quarantine = Some p, ao_result = Inr ()\<rparr>, Removed),
       ?b1\<lparr>bt_ledger := (bt_ledger b)[?t := e'], bt_world := (bt_world ?b1)\<lparr>w_tick := w_tick (bt_world ?b1) + 1\<rparr>\<rparr>)"
    and ok: "ledger_ok (w_fs (bt_world ?b1)) ((bt_ledger b)[?t := e'])"
    and e': "os_settled e'" "set (os_paths e') = insert p (set (os_paths (bt_ledger b ! ?t)) - {pa_target a})"
      "untime (os_identity e') = untime (os_identity (bt_ledger b ! ?t))" by blast
  show "snd step = Removed" using run m p am by (auto simp: apply_delete_def)
  have b': "w_fs (bt_world b') = w_fs (bt_world ?b1)" "bt_ledger b' = (bt_ledger b)[?t := e']"
    using run m p am by (auto simp: apply_delete_def)
  have fin: "fs_names (w_fs (bt_world ?b1)) = (fs_names ?fs)(pa_target a := None, p := fs_names ?fs (pa_target a))"
    and free: "fs_names ?fs p = None" using mv by (simp_all add: moved_name_def)
  have "entry_carries a (bt_ledger b ! j) ((bt_ledger b)[?t := e'] ! j)" if "j < length (bt_ledger b)" for j
    using r that e' untime_nlink [OF e'(3)] by (cases "j = ?t") (auto simp: entry_carries_def ready_def)
  then have "carries_over a ?fs (bt_ledger b) (w_fs (bt_world ?b1)) ((bt_ledger b)[?t := e'])"
    unfolding carries_over_def using fin free aged_keeps_files [OF aged] by auto
  moreover have "few_names (rn_attempts rn - length as) (w_fs (bt_world ?b1))"
  proof -
    have "few_names (rn_attempts rn - length as) ?fs" using few by (rule few_names_mono) simp
    then show ?thesis
      by (rule few_names_subset [of _ _ _ p "pa_target a"]) (use fin F(1) in \<open>auto split: if_splits\<close>)
  qed
  moreover have "fs_names (w_fs (bt_world ?b1)) (rn_staging rn x name) = None" for x name
  proof -
    from evacuated_path [OF m [unfolded p]] s have "p \<noteq> rn_staging rn x name"
      by (auto simp: serviceable_def apart_def Let_def)
    moreover have "fs_names ?fs (rn_staging rn x name) = None" using r by (simp add: ready_def)
    ultimately show ?thesis using fin by auto
  qed
  ultimately show "ready rn (w_fs (bt_world b')) (bt_ledger b') as"
    unfolding b' by (rule ready_step [OF r _ ok])
qed

lemma hardlink_step:
  fixes b :: batch
  assumes q: "quiet (rn_env rn)" and r: "ready rn (w_fs (bt_world b)) (bt_ledger b) (a # as)"
    and s: "serviceable rn a ds"
    and b2: "w_fs (bt_world b2) = w_fs (bt_world b)" "bt_ledger b2 = bt_ledger b"
    and run: "apply_hardlink rn a ds b2 = (step, b')"
  shows "snd step = Removed" and "ready rn (w_fs (bt_world b')) (bt_ledger b') as"
proof -
  note e = quiet_alone [OF q] and R = ready_accounted [OF r]
  note F = drives_facts [OF R(1-3)]
  let ?fs = "w_fs (bt_world b)" and ?dir = "quarantine_dir (ds_mountpoint ds) (rn_timestamp rn)"
  let ?t = "pa_target_object a" and ?k = "pa_keeper_object a"
  let ?i = "inode_of (os_identity (bt_ledger b ! ?t))" and ?j = "inode_of (os_identity (bt_ledger b ! ?k))"
  have few: "few_names (rn_attempts rn - Suc (length as)) ?fs" using r by (simp add: ready_def)
  from F(2) obtain node where node: "fs_nodes ?fs ?i = Some node" "\<not> in_symlink node" by (auto simp: node_at_def)
  obtain x where x: "parent (pa_target a) = Some x" "\<not> has_nul (rn_staging rn x (file_name (pa_target a)))"
    using s by (auto simp: serviceable_def Let_def)
  define staged where "staged = rn_staging rn x (file_name (pa_target a))"
  have staged: "\<not> has_nul staged" "fs_names ?fs staged = None"
    using x(2) r by (simp_all add: ready_def staged_def)
  have ne: "staged \<noteq> pa_target a" using staged(2) F(1) by auto
  obtain pub w3 where h: "hardlink (rn_env rn) (rn_attempts rn) (rn_staging rn) (pa_target a) (pa_keeper a)
      (ds_mountpoint ds) ?dir (bt_world b2) = (pub, w3)" by fastforce
  have "\<exists>p. fst (hardlink (rn_env rn) (rn_attempts rn) (rn_staging rn) (pa_target a) (pa_keeper a)
      (ds_mountpoint ds) ?dir (bt_world b2)) = PubPublished p"
  proof (rule hardlink_quiet [where staging = "rn_staging rn" and temp = staged and i = ?i and k = ?j, OF q _ _ _ x(1) staged_def staged(1) _ ne _ _ node(2)])
    show "movable (pa_target a) (ds_mountpoint ds) ?dir" using s by (simp add: serviceable_def Let_def)
    show "few_names (rn_attempts rn) (w_fs (bt_world b2))" using few b2 by (auto intro: few_names_mono)
    show "Suc (card {p. fs_names (w_fs (bt_world b2)) p \<noteq> None}) < rn_attempts rn"
      using few unfolding few_names_def b2(1) by arith
  qed (use F(1,3,7) staged b2 node in auto)
  with h obtain p where p: "pub = PubPublished p" by auto
  have xx: "exact_exchange staged (pa_target a) ?i ?j ?fs pub (w_fs w3)"
    using hardlink_exact [OF e x(1) staged_def ne _ _ _ h] staged(2) F(1,3) b2 by simp
  let ?b1 = "note_quarantine ?dir (b2\<lparr>bt_world := w3\<rparr>)"
  have b1: "bt_ledger ?b1 = bt_ledger b" "bt_world ?b1 = w3" using b2 by (simp_all add: note_quarantine_def)
  have links: "unat (li_nlink (os_identity (bt_ledger b ! ?k))) + Suc (length as) < 2 ^ 64"
    using r F(9) by (simp add: ready_def)
  have room: "li_nlink (os_identity (bt_ledger b ! ?k)) \<noteq> - 1"
  proof
    assume "li_nlink (os_identity (bt_ledger b ! ?k)) = - 1"
    then have "unat (li_nlink (os_identity (bt_ledger b ! ?k))) = 2 ^ 64 - 1" by (simp only: unat_u64_max)
    with links show False by simp
  qed
  have xx': "exact_exchange staged (pa_target a) ?i ?j ?fs (PubPublished p) (w_fs (bt_world ?b1))"
    using xx p b1 by simp
  obtain et' ek' where am: "after_move rn a p (Some HardlinkLinkage) ?b1 =
      ((\<lparr>ao_kind = pa_kind a, ao_target = pa_target a, ao_quarantine = Some p, ao_result = Inr ()\<rparr>, Removed),
       ?b1\<lparr>bt_ledger := (bt_ledger b)[?t := et', ?k := ek'],
          bt_world := (bt_world ?b1)\<lparr>w_tick := w_tick (bt_world ?b1) + 2\<rparr>\<rparr>)"
    and ok: "ledger_ok (w_fs (bt_world ?b1)) ((bt_ledger b)[?t := et', ?k := ek'])"
    and et': "os_settled et'" "set (os_paths et') = insert p (set (os_paths (bt_ledger b ! ?t)) - {pa_target a})"
      "untime (os_identity et') = untime (os_identity (bt_ledger b ! ?t))"
    and ek': "os_settled ek'" "set (os_paths ek') = insert (pa_target a) (set (os_paths (bt_ledger b ! ?k)))"
      "untime (os_identity ek') = (untime (os_identity (bt_ledger b ! ?k)))\<lparr>li_nlink := li_nlink (os_identity (bt_ledger b ! ?k)) + 1\<rparr>"
    by (rule after_move_hardlink [OF e R(1-3) b1(1) room staged(2) xx'])
  show "snd step = Removed"
    using run h p am by (auto simp: apply_hardlink_def finish_publication_def publication_place_def Let_def)
  have b': "w_fs (bt_world b') = w_fs w3" "bt_ledger b' = (bt_ledger b)[?t := et', ?k := ek']"
    using run h p am b1(2) by (auto simp: apply_hardlink_def finish_publication_def publication_place_def Let_def)
  from xx p have fin: "fs_names (w_fs w3) = (fs_names ?fs)(p := Some ?i, pa_target a := Some ?j)"
    and free: "fs_names ?fs p = None" and aged: "aged {?i, ?j} (bump (\<lambda>l. l + 1) ?j ?fs) (w_fs w3)"
    by (simp_all add: exact_exchange_def)
  have nk: "unat (li_nlink (os_identity ek')) \<le> unat (li_nlink (os_identity (bt_ledger b ! ?k))) + 1"
  proof -
    have "li_nlink (os_identity ek') = li_nlink (os_identity (bt_ledger b ! ?k)) + 1"
      using arg_cong [OF ek'(3), of li_nlink] by (simp add: untime_def)
    then show ?thesis using links by (simp add: unat_add_u64)
  qed
  have tk: "?t \<noteq> ?k" using R(3) by (simp add: drives_def)
  have "entry_carries a (bt_ledger b ! j) ((bt_ledger b)[?t := et', ?k := ek'] ! j)" if "j < length (bt_ledger b)" for j
    using r that et' ek' untime_nlink [OF et'(3)] nk tk
    by (cases "j = ?t"; cases "j = ?k") (auto simp: entry_carries_def ready_def)
  then have "carries_over a ?fs (bt_ledger b) (w_fs w3) ((bt_ledger b)[?t := et', ?k := ek'])"
    unfolding carries_over_def using fin free bump_keeps_files [OF aged] by auto
  moreover have "few_names (rn_attempts rn - length as) (w_fs w3)"
  proof -
    have "few_names (Suc (rn_attempts rn - Suc (length as))) (w_fs w3)"
      by (rule few_names_insert [OF few, of _ p]) (auto simp: fin F(1))
    moreover have "Suc (length as) < rn_attempts rn" using few unfolding few_names_def by arith
    ultimately show ?thesis by (simp add: Suc_diff_Suc)
  qed
  moreover have "fs_names (w_fs w3) (rn_staging rn y name) = None" for y name
  proof -
    from published_path [OF h [unfolded p]] s have "p \<noteq> rn_staging rn y name" "pa_target a \<noteq> rn_staging rn y name"
      by (auto simp: serviceable_def apart_def Let_def)
    moreover have "fs_names ?fs (rn_staging rn y name) = None" using r by (simp add: ready_def)
    ultimately show ?thesis by (simp add: fin)
  qed
  ultimately show "ready rn (w_fs (bt_world b')) (bt_ledger b') as"
    unfolding b' using ok [unfolded b1(2)] by (intro ready_step [OF r]) blast+
qed

section \<open>The whole batch\<close>

lemma apply_one_quiet:
  fixes b :: batch
  assumes q: "quiet (rn_env rn)" and a: "a = ap_actions (rn_plan rn) ! i" and "bt_obstacles b ! i = None"
    and g: "guarded_place rn a b = Inr ds" and s: "serviceable rn a ds"
    and r: "ready rn (w_fs (bt_world b)) (bt_ledger b) (a # as)" and run: "apply_one rn i b = (step, b')"
  shows "snd step = Removed" and "ready rn (w_fs (bt_world b')) (bt_ledger b') as"
proof -
  note R = ready_accounted [OF r]
  from apply_one_goes [OF q a assms(3) g R(2,4,5)] obtain b2 where
    b2: "w_fs (bt_world b2) = w_fs (bt_world b)" "bt_ledger b2 = bt_ledger b"
    and one: "apply_one rn i b = (case pa_kind a of Delete \<Rightarrow> apply_delete rn a ds b2
           | Hardlink \<Rightarrow> apply_hardlink rn a ds b2 | Reflink \<Rightarrow> apply_reflink rn a ds b2)" by blast
  have k: "pa_kind a \<noteq> Reflink" using r by (simp add: ready_def awaits_def)
  have "snd step = Removed \<and> ready rn (w_fs (bt_world b')) (bt_ledger b') as"
  proof (cases "pa_kind a")
    case Delete
    with one run have "apply_delete rn a ds b2 = (step, b')" by simp
    from delete_step [OF q r s b2 this] show ?thesis by simp
  next
    case Hardlink
    with one run have "apply_hardlink rn a ds b2 = (step, b')" by simp
    from hardlink_step [OF q r s b2 this] show ?thesis by simp
  qed (use k in simp)
  then show "snd step = Removed" and "ready rn (w_fs (bt_world b')) (bt_ledger b') as" by simp_all
qed

text \<open>The actions from \<open>n\<close> on have no obstacle, a snapshotted dataset and usable names.\<close>

definition clear_from :: "run \<Rightarrow> nat \<Rightarrow> batch \<Rightarrow> bool" where
  "clear_from rn n b \<longleftrightarrow>
     (\<forall>i. n \<le> i \<and> i < length (ap_actions (rn_plan rn)) \<longrightarrow>
        bt_obstacles b ! i = None
        \<and> (\<exists>ds. guarded_place rn (ap_actions (rn_plan rn) ! i) b = Inr ds
              \<and> serviceable rn (ap_actions (rn_plan rn) ! i) ds))"

lemma apply_all_quiet:
  fixes b :: batch
  assumes q: "quiet (rn_env rn)" and nc: "\<And>i. \<not> rn_cancelled rn i"
    and "clear_from rn n b" and "ready rn (w_fs (bt_world b)) (bt_ledger b) (drop n (ap_actions (rn_plan rn)))"
    and "n \<le> length (ap_actions (rn_plan rn))"
  shows "\<exists>steps b'. apply_all rn [n..<length (ap_actions (rn_plan rn))] b = ((steps, False), b')
    \<and> map snd steps = replicate (length (ap_actions (rn_plan rn)) - n) Removed"
  using assms(3-)
proof (induction "length (ap_actions (rn_plan rn)) - n" arbitrary: n b)
  case (Suc m)
  let ?as = "ap_actions (rn_plan rn)" and ?a = "ap_actions (rn_plan rn) ! n"
  have n: "n < length ?as" using Suc.hyps(2) by simp
  obtain step b1 where one: "apply_one rn n b = (step, b1)" by fastforce
  from Suc.prems(1) n obtain ds where g: "bt_obstacles b ! n = None" "guarded_place rn ?a b = Inr ds" "serviceable rn ?a ds"
    by (auto simp: clear_from_def)
  have r: "ready rn (w_fs (bt_world b)) (bt_ledger b) (?a # drop (Suc n) ?as)"
    using Suc.prems(2) n by (simp add: Cons_nth_drop_Suc)
  note step = apply_one_quiet [OF q refl g r one]
  have "at_start b1 = at_start b" using frame_apply_one [of rn n b] one by simp
  then have c: "clear_from rn (Suc n) b1"
    using Suc.prems(1) by (auto simp: clear_from_def at_start_def guarded_place_def)
  have m: "m = length ?as - Suc n" using Suc.hyps(2) by simp
  from Suc.hyps(1) [OF m c step(2)] n obtain steps b' where
    "apply_all rn [Suc n..<length ?as] b1 = ((steps, False), b')"
    "map snd steps = replicate (length ?as - Suc n) Removed" by auto
  with one nc step(1) n show ?case
    by (auto simp: upt_conv_Cons m simp flip: replicate_Suc Suc.hyps(2))
qed simp

lemma obstacle_None:
  assumes "plain_obstacle probe root plan datasets safe a = None"
  shows "\<exists>ds. place plan a datasets safe = Inr ds"
  using assms by (cases "place plan a datasets safe") (auto simp: plain_obstacle_def)

lemma place_device:
  "place plan a datasets safe = Inr ds \<Longrightarrow> dataset_by_device datasets (target_device plan a) = Some ds"
  by (auto simp: place_def Let_def split: if_splits option.splits)

lemma affected_names:
  assumes "(a, None) \<in> set (zip (ap_actions (rn_plan rn)) found)"
    and "dataset_by_device (rn_datasets rn) (target_device (rn_plan rn) a) = Some ds"
  shows "ds_name ds \<in> set (map ds_name (affected_datasets rn found))"
proof -
  have grow: "set (map ds_name known) \<subseteq> set (map ds_name (foldl (add_affected rn) known ps))" for known ps
  proof (induction ps arbitrary: known)
    case (Cons p ps)
    have "set (map ds_name known) \<subseteq> set (map ds_name (add_affected rn known p))"
      by (cases p; cases "snd p"; cases "dataset_by_device (rn_datasets rn) (target_device (rn_plan rn) (fst p))")
        (auto simp: add_affected_def)
    then show ?case using Cons.IH [of "add_affected rn known p"] by simp
  qed simp
  have "ds_name ds \<in> set (map ds_name (foldl (add_affected rn) known ps))" if "(a, None) \<in> set ps" for known ps
    using that
  proof (induction ps arbitrary: known)
    case (Cons p ps)
    show ?case
    proof (cases "p = (a, None)")
      case True
      have "ds_name ds \<in> set (map ds_name (add_affected rn known p))"
        using assms(2) by (auto simp: True add_affected_def)
      with grow [of "add_affected rn known p" ps] show ?thesis by (simp only: foldl.simps) blast
    qed (use Cons in auto)
  qed simp
  with assms(1) show ?thesis by (simp only: affected_datasets_def)
qed

lemma make_snapshots_all:
  assumes "\<And>name. \<exists>s. rn_snapshot rn name (rn_timestamp rn) = Inr s"
  shows "snd (make_snapshots rn made names) = None"
proof (induction names arbitrary: made)
  case (Cons name names)
  from assms obtain s where "rn_snapshot rn name (rn_timestamp rn) = Inr s" by blast
  with Cons show ?case by simp
qed simp

section \<open>From the plan to the first action\<close>

lemma object_paths_distinct:
  assumes "try_new scan_id input = Inr plan" and "obj \<in> set (ap_objects plan)"
  shows "distinct (po_members obj)"
proof -
  let ?gs = "normalise input"
  from try_new_Inr [OF assms(1)] obtain parts where sp: "plan_spec scan_id ?gs parts plan"
    and d: "distinct (all_paths ?gs)" by blast
  from assms(2) sp obtain j where j: "j < length ?gs" "obj \<in> set (gp_objects (parts ! j))"
    by (auto simp: plan_spec_def in_set_conv_nth [of _ parts])
  from sp j(1) have ps: "part_spec j (start_of parts j) (?gs ! j) (parts ! j)" by (simp add: plan_spec_def)
  obtain keeper covered where os: "object_spec (?gs ! j) keeper covered obj"
    using ps j(2) unfolding part_spec_def by (auto split: list.splits)
  have "map m_path (gi_members (?gs ! j)) \<in> set (map (map m_path \<circ> gi_members) ?gs)"
    using j(1) by (simp add: comp_def image_iff) (metis nth_mem)
  with d have "distinct (map m_path (gi_members (?gs ! j)))"
    unfolding all_paths_def by (metis distinct_concat_iff map_concat list.map_comp comp_def)
  with os show ?thesis
    by (simp add: object_spec_def Let_def aliases_of_def distinct_map_filter)
qed

lemma preflight_unrunnable: "preflight disk (with_unrunnable plan u) = preflight disk plan"
  by (simp add: preflight_def with_unrunnable_def)

text \<open>Two objects of the plan never share a device and inode.\<close>

definition allocations_differ :: "action_plan \<Rightarrow> bool" where
  "allocations_differ plan \<longleftrightarrow> distinct (map (\<lambda>obj. (key_device (po_key obj), key_inode (po_key obj))) (ap_objects plan))"

text \<open>
  The surroundings in which nothing can go wrong: nobody else at work, no call fails, nobody cancels,
  every snapshot is made, the staging names are free, no file has anywhere near the largest number of
  links, and there are more tries than names.
\<close>

definition undisturbed :: "run \<Rightarrow> fs \<Rightarrow> bool" where
  "undisturbed rn fs \<longleftrightarrow>
     quiet (rn_env rn) \<and> wf_fs fs \<and> (\<forall>i. \<not> rn_cancelled rn i)
     \<and> (\<forall>name. \<exists>s. rn_snapshot rn name (rn_timestamp rn) = Inr s)
     \<and> (\<forall>p name. fs_names fs (rn_staging rn p name) = None)
     \<and> (\<forall>obj \<in> set (ap_objects (rn_plan rn)). unat (po_links obj) + length (ap_actions (rn_plan rn)) < 2 ^ 64)
     \<and> few_names (rn_attempts rn - length (ap_actions (rn_plan rn))) fs"

text \<open>An action of the plan can run: no reflink, nothing in its way, and its files have the planned content.\<close>

definition runnable_now :: "run \<Rightarrow> fs \<Rightarrow> plan_action \<Rightarrow> bool" where
  "runnable_now rn fs a \<longleftrightarrow>
     pa_kind a \<noteq> Reflink
     \<and> plain_obstacle (rn_probe rn) (rn_root_is_dir rn) (rn_plan rn) (rn_datasets rn) (rn_reflink_safe rn) a = None
     \<and> (\<forall>ds. place (rn_plan rn) a (rn_datasets rn) (rn_reflink_safe rn) = Inr ds \<longrightarrow> serviceable rn a ds)
     \<and> holds_file rn fs (pa_target a) (pa_size a) (pa_expected_hash a)
     \<and> holds_file rn fs (pa_keeper a) (pa_size a) (pa_expected_hash a)"

lemma preflight_ready:
  assumes acc: "try_new scan_id input = Inr plan" and plan: "rn_plan rn = with_unrunnable plan u"
    and pre: "preflight (disk_of fs) plan = Inr live" and un: "undisturbed rn fs" and ad: "allocations_differ plan"
    and run: "\<forall>a \<in> set (ap_actions plan). runnable_now rn fs a"
  shows "ready rn fs live (ap_actions plan)"
proof -
  have same: "ap_actions (rn_plan rn) = ap_actions plan" "ap_objects (rn_plan rn) = ap_objects plan"
    by (simp_all add: plan with_unrunnable_def)
  from pre have all: "list_all2 (\<lambda>obj st. read_object (disk_of fs) obj = Inr st) (ap_objects plan) live"
    by (auto simp: preflight_def rbind_eq_Inr rmap_eq_Inr)
  have len: "length live = length (ap_objects plan)" using all by (simp add: list_all2_lengthD)
  have key: "li_device (os_identity (live ! j)) = key_device (po_key (ap_objects plan ! j))"
    "li_inode (os_identity (live ! j)) = key_inode (po_key (ap_objects plan ! j))"
    "li_nlink (os_identity (live ! j)) = po_links (ap_objects plan ! j)"
    "os_paths (live ! j) = po_members (ap_objects plan ! j)"
    "entry_stands (disk_of fs) (live ! j)" "os_settled (live ! j)" if "j < length live" for j
    using list_all2_nthD2 [OF all that]
    by (auto simp: read_object_Inr matches_key_def first_drift_None_iff entry_stands_def)
  have "map (inode_of \<circ> os_identity) live
      = map (\<lambda>(d, i). Inode d i) (map (\<lambda>obj. (key_device (po_key obj), key_inode (po_key obj))) (ap_objects plan))"
    by (rule nth_equalityI) (simp_all add: len key inode_of_def)
  moreover have "distinct (map (\<lambda>(d, i). Inode d i) xs)" if "distinct xs" for xs
    using that by (induction xs) auto
  ultimately have "distinct (map (inode_of \<circ> os_identity) live)"
    using ad by (simp only: allocations_differ_def)
  moreover have "distinct (os_paths (live ! j))" if "j < length live" for j
    using object_paths_distinct [OF acc, of "ap_objects plan ! j"] that len key(4) [OF that] by simp
  ultimately have ok: "ledger_ok fs live"
    using un key(5) by (auto simp: ledger_ok_def undisturbed_def)
  have aw: "awaits rn fs live a" if a: "a \<in> set (ap_actions plan)" for a
  proof -
    note wf = action_wf_of_plan [OF acc a]
    then have "pa_target_object a < length live" "pa_keeper_object a < length live"
      "pa_target_object a \<noteq> pa_keeper_object a"
      by (auto simp: action_wf_def Let_def len)
    moreover have "pa_target a \<in> set (po_members (ap_objects plan ! pa_target_object a))"
      "pa_keeper a \<in> set (po_members (ap_objects plan ! pa_keeper_object a))"
      using wf by (auto simp: action_wf_def Let_def)
    ultimately show ?thesis
      using run a by (simp add: awaits_def drives_def key runnable_now_def)
  qed
  have "unat (li_nlink (os_identity (live ! j))) + length (ap_actions plan) < 2 ^ 64" if "j < length live" for j
    using un that len by (simp add: undisturbed_def same key(3) [OF that])
  then show ?thesis
    using ok aw key(6) plan_targets_spec [OF acc] un
    by (simp add: ready_def undisturbed_def same)
qed

lemma nothing_stands:
  assumes "try_new scan_id input = Inr plan" and "rn_plan rn = with_unrunnable plan (unrunnable_new rs)" and "set rs \<subseteq> {None}"
    and "\<forall>a \<in> set (ap_actions plan). runnable_now rn fs a"
  shows "standing_obstacles rn = replicate (length (ap_actions plan)) None"
proof -
  have acts: "ap_actions (rn_plan rn) = ap_actions plan" by (simp add: assms(2) with_unrunnable_def)
  have "obstacles (rn_probe rn) (rn_root_is_dir rn) (rn_plan rn) (rn_datasets rn) (rn_reflink_safe rn)
      = map (\<lambda>_. None) (ap_actions plan)"
  proof -
    have "obstacles (rn_probe rn) (rn_root_is_dir rn) (rn_plan rn) (rn_datasets rn) (rn_reflink_safe rn)
        = map (plain_obstacle (rn_probe rn) (rn_root_is_dir rn) (rn_plan rn) (rn_datasets rn) (rn_reflink_safe rn)) (ap_actions plan)"
      unfolding acts [symmetric] by (rule obstacles_plain)
    also have "\<dots> = map (\<lambda>_. None) (ap_actions plan)"
      using assms(4) by (simp add: runnable_now_def)
    finally show ?thesis .
  qed
  moreover have "\<not> is_set_aside (rn_plan rn) i" for i
  proof -
    have "rs ! i = None" if "i < length rs" using assms(3) nth_mem [OF that] by blast
    then show ?thesis
      by (simp add: assms(2) is_set_aside_def reason_at_def with_unrunnable_def unrunnable_new_def no_reading_def)
  qed
  ultimately show ?thesis
    by (auto simp: standing_obstacles_def map_replicate_const intro!: nth_equalityI simp: nth_enumerate_eq)
qed


section \<open>The sample once more\<close>

definition sample_calm :: run where
  "sample_calm = sample_run\<lparr>rn_attempts := 20\<rparr>"

lemma sample_file:
  assumes "x \<in> {(''a'', 11), (''b'', 11), (''c'', 10), (''d'', 12)}"
  shows "holds_file sample_calm sample_fs [RootDir, Normal (fst x)] 100 ''h''"
  using assms
  by (auto simp: holds_file_def sample_fs_def sample_names_def sample_members_def sample_member_def sample_key_def
      sample_stat_def sample_calm_def sample_run_def)

lemma sample_undisturbed: "undisturbed sample_calm sample_fs"
proof -
  have dom: "{p. fs_names sample_fs p \<noteq> None} = fst ` set sample_names"
    by (simp add: sample_fs_def map_of_eq_None_iff flip: dom_def dom_map_of_conv_image_fst)
  have "card (fst ` set sample_names) \<le> length sample_names" by (metis card_length length_map list.set_map)
  moreover have n: "length (ap_actions sample_plan) = 2" using arg_cong [OF sample_actions(1), of length] by simp
  ultimately have few: "few_names (20 - length (ap_actions sample_plan)) sample_fs"
    unfolding few_names_def dom by (simp add: sample_names_def sample_members_def)
  have "list_all (\<lambda>obj. po_links obj < 100) (ap_objects sample_plan)"
    unfolding sample_plan_def by code_simp
  then have links: "list_all (\<lambda>obj. unat (po_links obj) + 2 < 2 ^ 64) (ap_objects sample_plan)"
    by (rule list.pred_mono_strong) (simp add: word_less_nat_alt)
  have free: "fs_names sample_fs (sample_staging p name) = None" for p name
    using sample_staging_free [of p name] by (simp add: sample_open_def open_batch_def sample_world_def)
  have f: "rn_env sample_calm = sample_env" "rn_plan sample_calm = sample_plan" "rn_staging sample_calm = sample_staging"
    "rn_attempts sample_calm = 20" "rn_cancelled sample_calm i = False"
    "rn_snapshot sample_calm name (rn_timestamp sample_calm) = Inr (name @ ''@now'')" for i name
    by (simp_all add: sample_calm_def sample_run_def)
  show ?thesis
    unfolding undisturbed_def f using sample_quiet(1) sample_nodes_wf few [unfolded n] links free
    by (auto simp: n list_all_iff)
qed

lemma sample_service:
  assumes "pa_target a \<in> {[RootDir, Normal ''c''], [RootDir, Normal ''d'']}"
  shows "serviceable sample_calm a sample_dataset"
proof -
  let ?dir = "[RootDir, Normal ''.dedcom-quarantine'', Normal ''now'']"
  have dir: "quarantine_dir [RootDir] ''now'' = ?dir" by (simp add: quarantine_dir_def join_def)
  have l: "suffixed (?dir @ [Normal n]) m \<noteq> p @ [Normal ''tmp'']" if "n \<in> {''c'', ''d''}" for n m p
  proof -
    have "last (suffixed (?dir @ [Normal n]) m) \<noteq> Normal ''tmp''"
      using that by (auto simp: suffixed_def with_file_name_def file_name_def)
    then show ?thesis by (metis last_snoc)
  qed
  show ?thesis
    using assms l
    by (auto simp: serviceable_def Let_def sample_calm_def sample_run_def sample_dataset_def dir movable_def apart_def
        has_nul_def join_def file_name_def parent_def sample_staging_def prefix_def)
qed

lemma sample_runnable:
  assumes "a \<in> set (ap_actions sample_plan)"
  shows "runnable_now sample_calm sample_fs a"
proof -
  have v: "map (\<lambda>a. (pa_target a, pa_keeper a, pa_size a, pa_expected_hash a)) (ap_actions sample_plan) =
      [([RootDir, Normal ''c''], [RootDir, Normal ''a''], 100, ''h''), ([RootDir, Normal ''d''], [RootDir, Normal ''a''], 100, ''h'')]"
    unfolding sample_plan_def by code_simp
  have a: "(pa_target a, pa_keeper a, pa_size a, pa_expected_hash a) \<in>
      {([RootDir, Normal ''c''], [RootDir, Normal ''a''], 100, ''h''), ([RootDir, Normal ''d''], [RootDir, Normal ''a''], 100, ''h'')}"
    using imageI [OF assms, of "\<lambda>a. (pa_target a, pa_keeper a, pa_size a, pa_expected_hash a)"] arg_cong [OF v, of set]
    by (simp only: set_map list.set)
  have places: "list_all (\<lambda>a. place sample_plan a [sample_dataset] False = Inr sample_dataset) (ap_actions sample_plan)"
    "list_all (\<lambda>a. plain_obstacle (\<lambda>_ _. no_probe) (\<lambda>_. False) sample_plan [sample_dataset] False a = None) (ap_actions sample_plan)"
    unfolding sample_plan_def by code_simp+
  have f: "rn_plan sample_calm = sample_plan" "rn_probe sample_calm = (\<lambda>_ _. no_probe)" "rn_root_is_dir sample_calm = (\<lambda>_. False)"
    "rn_datasets sample_calm = [sample_dataset]" "rn_reflink_safe sample_calm = False"
    by (simp_all add: sample_calm_def sample_run_def)
  have "pa_target a \<in> {[RootDir, Normal ''c''], [RootDir, Normal ''d'']}" using a by auto
  note s = sample_service [OF this]
  have h: "holds_file sample_calm sample_fs (pa_target a) (pa_size a) (pa_expected_hash a)"
    "holds_file sample_calm sample_fs (pa_keeper a) (pa_size a) (pa_expected_hash a)"
    using a sample_file [of "(''c'', 10)"] sample_file [of "(''d'', 12)"] sample_file [of "(''a'', 11)"] by auto
  show ?thesis
    using sample_actions_in(1) [OF assms] places assms s h
    by (simp add: runnable_now_def f list_all_iff)
qed


end
