(* ===== verification/Batch_Rereads.thy ===== *)
theory Batch_Rereads
  imports Batch_Safety
begin

text \<open>
  The Hybrid re-check reads a keeper again after every hardlink onto it. \<open>verify_file\<close> remembers the
  identity of what it has read, the time of the last status change included, and \<open>link(2)\<close> changes that
  time; the volume announced by \<open>verify_bytes_total\<close> counts each keeper once.
\<close>

definition linking_members :: "member list" where
  "linking_members =
     [sample_member ''c'' 10 1 (Some (Act Hardlink)), sample_member ''a'' 11 3 (Some Keeper),
      sample_member ''d'' 12 2 (Some (Act Hardlink))]"

definition linking_plan :: action_plan where
  "linking_plan = (case try_new 7 [sample_group linking_members] of Inr plan \<Rightarrow> plan)"

definition linking_world :: world where
  "linking_world = \<lparr>w_tick = 0, w_fs = sample_fs\<lparr>fs_nodes :=
     (\<lambda>i. map_option (\<lambda>node. node\<lparr>in_data := replicate 100 (CHR ''x'')\<rparr>) (fs_nodes sample_fs i))\<rparr>\<rparr>"

definition linking_run :: run where
  "linking_run = sample_run\<lparr>rn_plan := linking_plan, rn_mode := Hybrid\<rparr>"

lemma keeper_read_once_per_link:
  "(case fst (run_batch linking_run linking_world) of
      Inr (Ran br) \<Rightarrow> br_aborted br = None \<and> map ao_result (br_outcomes br) = [Inr (), Inr ()] \<and> br_bytes_read br = 400
    | _ \<Rightarrow> False)
   \<and> verify_bytes_total linking_plan Hybrid = 300"
  unfolding linking_run_def sample_run_def linking_plan_def by code_simp

end
