(* ===== verification/Path_Keys.thy ===== *)
theory Path_Keys
  imports Paths Codec Ordered_Map
begin

text \<open>
  \<open>model/omission.rs\<close>, first part: \<open>PathKey\<close>, the one storage representation of a scan root and of
  an affected directory. A key is the string the checkpoint holds; containment and the range a query
  asks for are operations on that string. The facts below say what they mean on the components.
\<close>

type_synonym path_key = string

fun push_components :: "string \<Rightarrow> path \<Rightarrow> string option" where
  "push_components key [] = Some key"
| "push_components key (Normal name # cs) =
     (case to_str name of None \<Rightarrow> None | Some s \<Rightarrow> push_components (key @ ''/'' @ s) cs)"
| "push_components key (_ # cs) = None"

definition path_key_new :: "path \<Rightarrow> path_key option" where
  "path_key_new p =
     (case p of
        RootDir # cs \<Rightarrow>
          (case push_components [] cs of
             None \<Rightarrow> None
           | Some key \<Rightarrow> Some (if key = [] then ''/'' else key))
      | _ \<Rightarrow> None)"

text \<open>What reading the completeness part of the checkpoint can refuse.\<close>

datatype ledger_error =
    MalformedKey string
  | CorruptGeneration i64
  | OutsideRoot path_key path_key
  | UnknownReason string
  | CorruptCount i64
  | ZeroEvents
  | CountTooLarge u64
  | CountsOverflow

definition from_stored :: "string \<Rightarrow> ledger_error + path_key" where
  "from_stored raw =
     (case path_key_new (components raw) of
        Some key \<Rightarrow> if key = raw then Inr key else Inl (MalformedKey raw)
      | None \<Rightarrow> Inl (MalformedKey raw))"

definition is_at_or_under :: "path_key \<Rightarrow> path_key \<Rightarrow> bool" where
  "is_at_or_under key other \<longleftrightarrow> key = other \<or> other = ''/'' \<or> prefix (other @ ''/'') key"

definition subtree_bounds :: "path_key \<Rightarrow> string \<times> string" where
  "subtree_bounds key = (if key = ''/'' then (''/'', ''0'') else (key @ ''/'', key @ ''0''))"

text \<open>The keys: what the constructor can return.\<close>

definition key_ok :: "path_key \<Rightarrow> bool" where
  "key_ok key \<longleftrightarrow> path_key_new (components key) = Some key"

section \<open>The spelling of a key\<close>

definition spell :: "string list \<Rightarrow> string" where
  "spell names = concat (map (\<lambda>n. CHR ''/'' # n) names)"

lemma spell_Nil [simp]: "spell [] = []"
  by (simp add: spell_def)

lemma spell_Cons [simp]: "spell (n # ns) = CHR ''/'' # n @ spell ns"
  by (simp add: spell_def)

lemma spell_append: "spell (ms @ ns) = spell ms @ spell ns"
  by (simp add: spell_def)

lemma spell_eq_Nil [simp]: "spell ns = [] \<longleftrightarrow> ns = []"
  by (cases ns) auto

lemma push_components_Some_iff:
  "push_components key cs = Some k \<longleftrightarrow>
     (\<exists>names. cs = map Normal names \<and> (\<forall>n \<in> set names. to_str n \<noteq> None) \<and> k = key @ spell names)"
proof (induction key cs rule: push_components.induct)
  case (2 key name cs)
  have "to_str name = None \<or> to_str name = Some name" by (simp add: to_str_def)
  then show ?case
  proof
    assume "to_str name = None"
    then show ?thesis by (auto simp: Cons_eq_map_conv)
  next
    assume s: "to_str name = Some name"
    show ?thesis
    proof
      assume "push_components key (Normal name # cs) = Some k"
      then obtain names where "cs = map Normal names" "\<forall>n \<in> set names. to_str n \<noteq> None"
          "k = (key @ ''/'' @ name) @ spell names"
        using 2 [OF s] s by auto
      then show "\<exists>names. Normal name # cs = map Normal names \<and> (\<forall>n \<in> set names. to_str n \<noteq> None) \<and> k = key @ spell names"
        using s by (intro exI [of _ "name # names"]) auto
    next
      assume "\<exists>names. Normal name # cs = map Normal names \<and> (\<forall>n \<in> set names. to_str n \<noteq> None) \<and> k = key @ spell names"
      then obtain ns where "cs = map Normal ns" "\<forall>n \<in> set ns. to_str n \<noteq> None" "k = (key @ ''/'' @ name) @ spell ns"
        by (auto simp: Cons_eq_map_conv)
      then show "push_components key (Normal name # cs) = Some k"
        using 2 [OF s] s by auto
    qed
  qed
qed (auto simp: Cons_eq_map_conv)

definition names_ok :: "string list \<Rightarrow> bool" where
  "names_ok names \<longleftrightarrow> (\<forall>n \<in> set names. name_ok n \<and> to_str n \<noteq> None)"

lemma split_spell: "names_ok names \<Longrightarrow> names \<noteq> [] \<Longrightarrow> split_slash (tl (spell names)) = names"
proof (induction names)
  case (Cons n ns)
  have n: "CHR ''/'' \<notin> set n" using Cons.prems(1) by (simp add: names_ok_def name_ok_def)
  show ?case
  proof (cases ns)
    case Nil
    then show ?thesis using n by (simp add: split_slash_no_sep)
  next
    case (Cons m ms)
    have "split_slash (tl (spell ns)) = ns"
      using Cons.IH Cons.prems(1) Cons by (simp add: names_ok_def)
    then show ?thesis using n by (simp add: Cons split_slash_append)
  qed
qed simp

lemma components_spell:
  assumes "names_ok names"
  shows "components (if names = [] then ''/'' else spell names) = RootDir # map Normal names"
proof (cases names)
  case (Cons n ns)
  have seg: "concat (map comp_of_segment ms) = map Normal ms" if "names_ok ms" for ms
    using that by (induction ms) (auto simp: names_ok_def)
  have "split_slash (tl (spell names)) = names" using split_spell [OF assms] Cons by simp
  then have "split_slash (spell names) = [] # names"
    by (simp add: Cons)
  then show ?thesis
    using Cons seg [OF assms] by (simp add: components_def)
qed (simp add: components_def)

text \<open>Every key spells a list of names, and only keys do.\<close>

lemma path_key_new_names:
  assumes "path_key_new (components s) = Some key"
  obtains names where "names_ok names" "components s = RootDir # map Normal names"
    "key = (if names = [] then ''/'' else spell names)"
proof -
  obtain cs k where cs: "components s = RootDir # cs" "push_components [] cs = Some k" "key = (if k = [] then ''/'' else k)"
    using assms by (auto simp: path_key_new_def split: list.splits comp.splits option.splits if_splits)
  then obtain names where n: "cs = map Normal names" "\<forall>n \<in> set names. to_str n \<noteq> None" "k = spell names"
    by (auto simp: push_components_Some_iff)
  have "names_ok names"
    using n(2) cs(1) components_names [of _ s] by (auto simp: names_ok_def n(1))
  then show thesis
    by (rule that) (auto simp: cs n)
qed

lemma path_key_new_spell:
  "names_ok names \<Longrightarrow> path_key_new (RootDir # map Normal names) = Some (if names = [] then ''/'' else spell names)"
  using push_components_Some_iff [of "[]" "map Normal names" "spell names"]
  by (auto simp: path_key_new_def names_ok_def)

lemma key_ok_names:
  assumes "key_ok key"
  obtains names where "names_ok names" "components key = RootDir # map Normal names"
    "key = (if names = [] then ''/'' else spell names)"
  using assms path_key_new_names unfolding key_ok_def by blast

lemma path_key_new_ok: "path_key_new (components s) = Some key \<Longrightarrow> key_ok key \<and> components key = components s"
  by (elim path_key_new_names) (simp only: key_ok_def components_spell path_key_new_spell simp_thms)

lemma from_stored_Inr_iff: "from_stored raw = Inr key \<longleftrightarrow> key = raw \<and> key_ok key"
  by (auto simp: from_stored_def key_ok_def split: option.splits if_splits)

lemma key_eq_iff: "key_ok a \<Longrightarrow> key_ok b \<Longrightarrow> a = b \<longleftrightarrow> components a = components b"
  by (metis key_ok_def option.inject)

text \<open>
  A key survives storage: whatever spelling it was built from, the stored key is read back
  unchanged and names the same components, and a stored string that no spelling yields is refused.
\<close>
theorem path_key_roundtrip:
  "(path_key_new (components s) = Some key \<longrightarrow> from_stored key = Inr key \<and> components key = components s)
   \<and> (from_stored raw = Inr key' \<longleftrightarrow> key' = raw \<and> (\<exists>t. path_key_new (components t) = Some raw))"
  using path_key_new_ok from_stored_Inr_iff key_ok_def by metis

theorem path_key_roundtrip_witness:
  "from_stored ''/tank/a'' = Inr ''/tank/a'' \<and> components ''/tank/a'' = components ''/tank//./a/''"
proof -
  have "path_key_new (components ''/tank//./a/'') = Some ''/tank/a''" by code_simp
  with path_key_roundtrip [of "''/tank//./a/''" "''/tank/a''" "[]" "[]"] show ?thesis by blast
qed

section \<open>Containment\<close>

lemma segment_prefix:
  assumes "CHR ''/'' \<notin> set m" "CHR ''/'' \<notin> set n" "y = [] \<or> hd y = CHR ''/''"
  shows "prefix (m @ CHR ''/'' # x) (n @ y) \<longleftrightarrow> m = n \<and> prefix (CHR ''/'' # x) y"
proof
  assume "prefix (m @ CHR ''/'' # x) (n @ y)"
  then obtain z where z: "n @ y = (m @ CHR ''/'' # x) @ z" by (auto simp: prefix_def)
  have "takeWhile (\<lambda>c. c \<noteq> CHR ''/'') (n @ y) = n"
    using assms(2,3) by (cases y) (auto simp: takeWhile_append)
  moreover have "takeWhile (\<lambda>c. c \<noteq> CHR ''/'') ((m @ CHR ''/'' # x) @ z) = m"
    using assms(1) by (auto simp: takeWhile_append)
  ultimately have "m = n" using z by metis
  with z show "m = n \<and> prefix (CHR ''/'' # x) y" by auto
qed auto

lemma spell_slash_prefix:
  "names_ok ms \<Longrightarrow> names_ok ns \<Longrightarrow> prefix (spell ms @ ''/'') (spell ns) \<longleftrightarrow> strict_prefix ms ns"
proof (induction ms arbitrary: ns)
  case Nil
  then show ?case by (cases ns) (auto simp: strict_prefix_def)
next
  case (Cons m ms)
  have m: "CHR ''/'' \<notin> set m" using Cons.prems(1) by (simp add: names_ok_def name_ok_def)
  have s: "\<exists>x. spell ms @ ''/'' = CHR ''/'' # x" by (cases ms) auto
  show ?case
  proof (cases ns)
    case (Cons n ns')
    have n: "CHR ''/'' \<notin> set n" "names_ok ns'" "names_ok ms"
      using Cons.prems Cons by (simp_all add: names_ok_def name_ok_def)
    have h: "spell ns' = [] \<or> hd (spell ns') = CHR ''/''" by (cases ns') auto
    from s obtain x where x: "spell ms @ ''/'' = CHR ''/'' # x" by blast
    show ?thesis
      using segment_prefix [OF m n(1) h, of x] Cons.IH [OF n(3,2)] x
      by (auto simp: Cons strict_prefix_def)
  qed simp
qed

lemma map_Normal_eq: "map Normal ms = map Normal ns \<longleftrightarrow> ms = ns"
  by (rule inj_map_eq_map) (simp add: inj_def)

lemma spell_inj: "names_ok ms \<Longrightarrow> names_ok ns \<Longrightarrow> spell ms = spell ns \<longleftrightarrow> ms = ns"
proof -
  assume ok: "names_ok ms" "names_ok ns"
  have "ms = ns" if s: "spell ms = spell ns"
  proof -
    have "(ms = []) = (ns = [])" using s spell_eq_Nil [of ms] spell_eq_Nil [of ns] by simp
    then have "RootDir # map Normal ms = RootDir # map Normal ns"
      using components_spell [OF ok(1)] components_spell [OF ok(2)] s by (cases "ns = []") simp_all
    then show ?thesis by (simp add: map_Normal_eq)
  qed
  then show ?thesis by blast
qed

lemma spell_not_slash: "names_ok ns \<Longrightarrow> spell ns \<noteq> ''/''"
  by (cases ns) (auto simp: names_ok_def name_ok_def)

lemma map_Normal_prefix [simp]: "prefix (map Normal ms) (map Normal ns) \<longleftrightarrow> prefix ms ns"
  by (induction ms ns rule: list_induct2') auto

lemma is_at_or_under_iff:
  assumes "key_ok key" "key_ok other"
  shows "is_at_or_under key other \<longleftrightarrow> prefix (components other) (components key)"
proof -
  obtain ns where n: "names_ok ns" "components key = RootDir # map Normal ns" "key = (if ns = [] then ''/'' else spell ns)"
    using assms(1) by (rule key_ok_names)
  obtain ms where m: "names_ok ms" "components other = RootDir # map Normal ms" "other = (if ms = [] then ''/'' else spell ms)"
    using assms(2) by (rule key_ok_names)
  have "prefix ms ns \<longleftrightarrow> is_at_or_under key other"
  proof (cases "ms = []")
    case True
    then show ?thesis by (simp add: is_at_or_under_def m(3))
  next
    case False
    have p: "prefix (other @ ''/'') key \<longleftrightarrow> strict_prefix ms ns"
    proof (cases "ns = []")
      case True
      then show ?thesis using False m(3) n(3) by (cases ms) (auto simp: prefix_Cons)
    next
      case ns: False
      then show ?thesis using spell_slash_prefix [OF m(1) n(1)] False m(3) n(3) by simp
    qed
    have e: "key = other \<longleftrightarrow> ns = ms"
      unfolding key_eq_iff [OF assms] n(2) m(2) by (simp add: map_Normal_eq)
    have "other \<noteq> ''/''" using False m(3) spell_not_slash [OF m(1)] by simp
    then show ?thesis unfolding is_at_or_under_def e p by (auto simp: strict_prefix_def)
  qed
  then show ?thesis by (simp add: n(2) m(2))
qed

lemma between_slash_and_0: "CHR ''/'' \<le> c \<and> c < CHR ''0'' \<longleftrightarrow> c = CHR ''/''"
proof -
  have n: "47 \<le> n \<and> n < 48 \<longleftrightarrow> n = 47" for n :: nat by auto
  have v: "of_char (CHR ''/'') = (47 :: nat)" "of_char (CHR ''0'') = (48 :: nat)" by simp_all
  have "CHR ''/'' \<le> c \<and> c < CHR ''0'' \<longleftrightarrow> of_char c = (of_char (CHR ''/'') :: nat)"
    unfolding less_eq_char_def less_char_def v n ..
  then show ?thesis by (simp only: of_char_eq_iff)
qed

lemma range_is_prefix:
  "k @ ''/'' \<le> s \<and> s < k @ ''0'' \<longleftrightarrow> prefix (k @ ''/'') s"
proof (induction k arbitrary: s)
  case Nil
  show ?case
  proof (cases s)
    case (Cons c r)
    have "[CHR ''/''] \<le> c # r \<longleftrightarrow> CHR ''/'' \<le> c" by (auto simp: less_le)
    moreover have "c # r < [CHR ''0''] \<longleftrightarrow> c < CHR ''0''" by simp
    ultimately show ?thesis by (simp only: Cons append_Nil between_slash_and_0) (auto simp: prefix_Cons)
  qed simp
next
  case (Cons c k)
  show ?case
  proof (cases s)
    case s: (Cons a r)
    have "(c # k) @ ''/'' \<le> a # r \<longleftrightarrow> c < a \<or> c = a \<and> k @ ''/'' \<le> r"
      "a # r < (c # k) @ ''0'' \<longleftrightarrow> a < c \<or> a = c \<and> r < k @ ''0''"
      "prefix ((c # k) @ ''/'') (a # r) \<longleftrightarrow> c = a \<and> prefix (k @ ''/'') r" by simp_all
    then show ?thesis unfolding s using Cons.IH [of r] less_asym [of a c] by blast
  qed simp
qed

lemma subtree_range:
  assumes "key_ok key" "key_ok d"
  shows "fst (subtree_bounds key) \<le> d \<and> d < snd (subtree_bounds key) \<longleftrightarrow>
     is_at_or_under d key \<and> (d \<noteq> key \<or> key = ''/'')"
proof (cases "key = ''/''")
  case True
  have "prefix ''/'' d" using assms(2) by (elim key_ok_names) (auto simp: neq_Nil_conv)
  then show ?thesis using True range_is_prefix [of "[]" d] by (simp add: subtree_bounds_def is_at_or_under_def)
next
  case False
  have "\<not> prefix (key @ ''/'') key" by (auto simp: prefix_def)
  then show ?thesis using False range_is_prefix [of key d] by (auto simp: subtree_bounds_def is_at_or_under_def)
qed

text \<open>
  Containment of stored keys is containment of the directories they name: one key is at or
  under another exactly when its components extend the other's, so \<open>/tank/ab\<close> is not under \<open>/tank/a\<close>;
  and the string range of a key covers exactly the keys below it, whatever other names sort nearby
  (and, for the file-system root alone, the root itself).
\<close>
theorem key_containment:
  assumes "key_ok key" "key_ok d"
  shows "(is_at_or_under d key \<longleftrightarrow> prefix (components key) (components d)) \<and>
    (fst (subtree_bounds key) \<le> d \<and> d < snd (subtree_bounds key) \<longleftrightarrow>
       (if key = ''/'' then True else strict_prefix (components key) (components d)))"
proof -
  have "is_at_or_under d ''/''" by (simp add: is_at_or_under_def)
  then show ?thesis
    unfolding subtree_range [OF assms]
    using is_at_or_under_iff [OF assms(2,1)] key_eq_iff [OF assms] by (auto simp: strict_prefix_def)
qed

theorem key_containment_witness:
  "\<not> is_at_or_under ''/tank/ab'' ''/tank/a''
   \<and> \<not> (fst (subtree_bounds ''/tank/a'') \<le> ''/tank/a-old'' \<and> ''/tank/a-old'' < snd (subtree_bounds ''/tank/a''))"
proof -
  have k: "key_ok ''/tank/a''" "key_ok ''/tank/ab''" "key_ok ''/tank/a-old''" by code_simp+
  have p: "\<not> prefix (components ''/tank/a'') (components ''/tank/ab'')"
    "\<not> prefix (components ''/tank/a'') (components ''/tank/a-old'')" by code_simp+
  show ?thesis
    using key_containment [OF k(1,2)] key_containment [OF k(1,3)] p
    by (simp add: strict_prefix_def)
qed

end
