(* ===== verification/Completeness.thy ===== *)
theory Completeness
  imports Path_Keys
begin

text \<open>
  \<open>model/omission.rs\<close>, second part: why an entry of a scanned directory never became a manifest row,
  how such events are counted per directory and reason, and the snapshot that answers for any path
  whether the scan saw all of it. A \<open>BTreeMap\<close> is the ordered association list of \<open>Ordered_Map\<close>.
\<close>

section \<open>Reasons and counts\<close>

datatype event_kind = OmittedFile | UnsupportedEntryKind | UnknownCardinality

datatype omission_reason =
  MinSize | MaxSize | ExtensionFiltered | NonUtf8 | WalkError | MetadataError | UnsupportedEntry

definition reason_all :: "omission_reason list" where
  "reason_all = [MinSize, MaxSize, ExtensionFiltered, NonUtf8, WalkError, MetadataError, UnsupportedEntry]"

fun reason_as_str :: "omission_reason \<Rightarrow> string" where
  "reason_as_str MinSize = ''min_size''"
| "reason_as_str MaxSize = ''max_size''"
| "reason_as_str ExtensionFiltered = ''extension_filtered''"
| "reason_as_str NonUtf8 = ''non_utf8''"
| "reason_as_str WalkError = ''walk_error''"
| "reason_as_str MetadataError = ''metadata_error''"
| "reason_as_str UnsupportedEntry = ''unsupported_entry''"

definition reason_parse :: "string \<Rightarrow> omission_reason option" where
  "reason_parse text = find (\<lambda>r. reason_as_str r = text) reason_all"

fun reason_event_kind :: "omission_reason \<Rightarrow> event_kind" where
  "reason_event_kind UnsupportedEntry = UnsupportedEntryKind"
| "reason_event_kind WalkError = UnknownCardinality"
| "reason_event_kind _ = OmittedFile"

definition one_event_is_one_file :: "omission_reason \<Rightarrow> bool" where
  "one_event_is_one_file r \<longleftrightarrow> reason_event_kind r = OmittedFile"

definition is_intentional_filter :: "omission_reason \<Rightarrow> bool" where
  "is_intentional_filter r \<longleftrightarrow> r = MinSize \<or> r = MaxSize \<or> r = ExtensionFiltered"

text \<open>The derived order: the order of the variants.\<close>

fun reason_rank :: "omission_reason \<Rightarrow> nat" where
  "reason_rank MinSize = 0" | "reason_rank MaxSize = 1" | "reason_rank ExtensionFiltered = 2"
| "reason_rank NonUtf8 = 3" | "reason_rank WalkError = 4" | "reason_rank MetadataError = 5"
| "reason_rank UnsupportedEntry = 6"

lemma reason_rank_eq_iff [simp]: "reason_rank a = reason_rank b \<longleftrightarrow> a = b"
  by (cases a; cases b) simp_all

instantiation omission_reason :: linorder
begin

definition less_eq_omission_reason :: "omission_reason \<Rightarrow> omission_reason \<Rightarrow> bool" where
  "less_eq_omission_reason a b \<longleftrightarrow> reason_rank a \<le> reason_rank b"

definition less_omission_reason :: "omission_reason \<Rightarrow> omission_reason \<Rightarrow> bool" where
  "less_omission_reason a b \<longleftrightarrow> reason_rank a < reason_rank b"

instance
  by standard (auto simp: less_eq_omission_reason_def less_omission_reason_def simp flip: reason_rank_eq_iff)

end

interpretation reason_code: wire_code reason_as_str reason_parse
proof
  fix x show "reason_parse (reason_as_str x) = Some x"
    by (cases x) (simp_all add: reason_parse_def reason_all_def)
next
  fix c x assume "reason_parse c = Some x"
  then show "c = reason_as_str x" by (auto simp: reason_parse_def find_Some_iff)
qed

text \<open>\<open>EventCount\<close>: a count that is never zero.\<close>

type_synonym event_count = u64

definition count_ONE :: event_count where
  "count_ONE = 1"

definition count_new :: "u64 \<Rightarrow> ledger_error + event_count" where
  "count_new n = (if n = 0 then Inl ZeroEvents else Inr n)"

definition count_from_i64 :: "i64 \<Rightarrow> ledger_error + event_count" where
  "count_from_i64 raw = (if 0 < sint raw then Inr raw else Inl (CorruptCount raw))"

definition count_to_i64 :: "event_count \<Rightarrow> ledger_error + i64" where
  "count_to_i64 c = ok_or (CountTooLarge c) (i64_try_from c)"

definition count_checked_add :: "event_count \<Rightarrow> event_count \<Rightarrow> ledger_error + event_count" where
  "count_checked_add a b = ok_or CountsOverflow (checked_add a b)"

section \<open>Accumulating\<close>

text \<open>\<open>OmissionCounts\<close>: one root's cells, as the walk fills them.\<close>

type_synonym omission_counts = "((path_key \<times> omission_reason) \<times> event_count) list"

definition counts_new :: omission_counts where
  "counts_new = []"

definition counts_add :: "path_key \<Rightarrow> omission_reason \<Rightarrow> event_count \<Rightarrow> omission_counts
    \<Rightarrow> ledger_error + omission_counts" where
  "counts_add directory reason n m =
     (let cell = (directory, reason) in
      rbind (case bt_get m cell of Some existing \<Rightarrow> count_checked_add existing n | None \<Rightarrow> Inr n)
        (\<lambda>total. Inr (bt_insert cell total m)))"

definition counts_bump :: "path_key \<Rightarrow> omission_reason \<Rightarrow> omission_counts \<Rightarrow> ledger_error + omission_counts" where
  "counts_bump directory reason m = counts_add directory reason count_ONE m"

definition counts_is_empty :: "omission_counts \<Rightarrow> bool" where
  "counts_is_empty m \<longleftrightarrow> m = []"

definition counts_len :: "omission_counts \<Rightarrow> nat" where
  "counts_len m = length m"

definition counts_iter :: "omission_counts \<Rightarrow> (path_key \<times> omission_reason \<times> event_count) list" where
  "counts_iter m = map (\<lambda>((directory, reason), n). (directory, reason, n)) m"

text \<open>\<open>OmissionSummary\<close>: per reason, for one directory.\<close>

type_synonym omission_summary = "(omission_reason \<times> event_count) list"

definition summary_add :: "omission_reason \<Rightarrow> event_count \<Rightarrow> omission_summary \<Rightarrow> ledger_error + omission_summary" where
  "summary_add reason n s =
     (case bt_get s reason of
        Some existing \<Rightarrow> rbind (count_checked_add existing n) (\<lambda>total. Inr (bt_insert reason total s))
      | None \<Rightarrow> Inr (bt_insert reason n s))"

definition summary_is_empty :: "omission_summary \<Rightarrow> bool" where
  "summary_is_empty s \<longleftrightarrow> s = []"

definition summary_total_of :: "event_kind \<Rightarrow> omission_summary \<Rightarrow> ledger_error + u64" where
  "summary_total_of kind s =
     rfold (\<lambda>total (reason, n).
         if reason_event_kind reason = kind then ok_or CountsOverflow (checked_add total n) else Inr total) 0 s"

definition known_omitted_files :: "omission_summary \<Rightarrow> ledger_error + u64" where
  "known_omitted_files = summary_total_of OmittedFile"

definition unsupported_entries :: "omission_summary \<Rightarrow> ledger_error + u64" where
  "unsupported_entries = summary_total_of UnsupportedEntryKind"

definition unknown_cardinality_events :: "omission_summary \<Rightarrow> u64" where
  "unknown_cardinality_events s =
     sum_list (map snd (filter (\<lambda>(reason, _). reason_event_kind reason = UnknownCardinality) s))"

definition has_unknown_cardinality :: "omission_summary \<Rightarrow> bool" where
  "has_unknown_cardinality s \<longleftrightarrow> 0 < unknown_cardinality_events s"

section \<open>Verdicts\<close>

datatype dir_completeness = Complete | Incomplete omission_summary | Unknown

datatype authority_unavailable =
    UnkeyableRoot path
  | AmbiguousRoots path_key path_key
  | NoRoots

datatype dir_disposition = Trusted | Suppressed | Untrusted

fun disposition_of :: "dir_completeness \<Rightarrow> dir_disposition" where
  "disposition_of Complete = Trusted"
| "disposition_of (Incomplete _) = Suppressed"
| "disposition_of Unknown = Untrusted"

datatype dir_scope = ScopeRoot path_key | Unbounded | Outside

text \<open>The trait \<open>SignatureContext\<close>: what a signature build asks.\<close>

record signature_context =
  ctx_scope :: "path \<Rightarrow> dir_scope"
  ctx_disposition :: "path \<Rightarrow> dir_disposition"

definition legacy_context :: signature_context where
  "legacy_context = \<lparr>ctx_scope = (\<lambda>_. Unbounded), ctx_disposition = (\<lambda>_. Untrusted)\<rparr>"

section \<open>The snapshot\<close>

record stored_omission =
  so_root_key :: string
  so_dir_key :: string
  so_reason :: string
  so_event_count :: i64
  so_generation :: i64

record completeness_snapshot =
  sn_configured :: "path_key list"
  sn_registered :: "(path_key \<times> i64) list"
  sn_rows :: "(string \<times> path_key \<times> omission_summary) list"
  sn_sentinels :: "(path_key \<times> event_count) list"
  sn_agrees :: bool

datatype snapshot_outcome = Bounded completeness_snapshot | Unavailable authority_unavailable

datatype accounting = ExactAccounting omission_summary | AccountingUnavailable

definition keyed_roots :: "path list \<Rightarrow> authority_unavailable + path_key list" where
  "keyed_roots roots = rmap (\<lambda>root. ok_or (UnkeyableRoot root) (path_key_new root)) roots"

text \<open>The first pair of roots, in the given order, one of which contains the other.\<close>

fun overlapping :: "path_key list \<Rightarrow> (path_key \<times> path_key) option" where
  "overlapping [] = None"
| "overlapping (outer # rest) =
     (case find (\<lambda>inner. is_at_or_under inner outer \<or> is_at_or_under outer inner) rest of
        Some inner \<Rightarrow> Some (if is_at_or_under inner outer then (outer, inner) else (inner, outer))
      | None \<Rightarrow> overlapping rest)"

definition read_generation :: "(path_key \<times> i64) list \<Rightarrow> string \<times> i64 \<Rightarrow> ledger_error + (path_key \<times> i64) list" where
  "read_generation m = (\<lambda>(raw, generation).
     if sint generation < 0 then Inl (CorruptGeneration generation)
     else rbind (from_stored raw) (\<lambda>key. Inr (bt_insert key generation m)))"

definition roots_agree :: "path_key list \<Rightarrow> (path_key \<times> i64) list \<Rightarrow> bool" where
  "roots_agree configured generations \<longleftrightarrow>
     length generations = length configured \<and> list_all (\<lambda>root. bt_get generations root \<noteq> None) configured"

type_synonym row_state = "(path_key \<times> event_count) list \<times> (string \<times> path_key \<times> omission_summary) list"

definition is_current :: "(path_key \<times> i64) list \<Rightarrow> path_key \<Rightarrow> i64 \<Rightarrow> bool" where
  "is_current generations root generation \<longleftrightarrow>
     (case bt_get generations root of Some current \<Rightarrow> 0 < sint current \<and> current = generation | None \<Rightarrow> False)"

definition fold_cell :: "path_key \<Rightarrow> path_key \<Rightarrow> omission_reason \<Rightarrow> event_count \<Rightarrow> row_state \<Rightarrow> ledger_error + row_state" where
  "fold_cell root directory reason n = (\<lambda>(sentinels, summaries).
     rbind
       (if reason = WalkError \<and> directory = root then
          rbind (case bt_get sentinels root of Some existing \<Rightarrow> count_checked_add existing n | None \<Rightarrow> Inr n)
            (\<lambda>total. Inr (bt_insert root total sentinels))
        else Inr sentinels)
       (\<lambda>sentinels'.
         let slot = (case bt_get summaries directory of None \<Rightarrow> (root, []) | Some slot \<Rightarrow> slot) in
         rbind (summary_add reason n (snd slot))
           (\<lambda>s. Inr (sentinels', bt_insert directory (fst slot, s) summaries))))"

definition read_row :: "(path_key \<times> i64) list \<Rightarrow> row_state \<Rightarrow> stored_omission \<Rightarrow> ledger_error + row_state" where
  "read_row generations st row =
     rbind (from_stored (so_root_key row)) (\<lambda>root.
     if \<not> is_current generations root (so_generation row) then Inr st
     else
       rbind (from_stored (so_dir_key row)) (\<lambda>directory.
       if \<not> is_at_or_under directory root then Inl (OutsideRoot directory root)
       else
         rbind (ok_or (UnknownReason (so_reason row)) (reason_parse (so_reason row))) (\<lambda>reason.
         rbind (count_from_i64 (so_event_count row)) (\<lambda>n.
         fold_cell root directory reason n st))))"

definition snapshot_build :: "path list \<Rightarrow> (string \<times> i64) list \<Rightarrow> stored_omission list
    \<Rightarrow> ledger_error + snapshot_outcome" where
  "snapshot_build configured_roots registered rows =
     (if configured_roots = [] then Inr (Unavailable NoRoots)
      else case keyed_roots configured_roots of
        Inl why \<Rightarrow> Inr (Unavailable why)
      | Inr keys \<Rightarrow>
          (case overlapping keys of
             Some (outer, inner) \<Rightarrow> Inr (Unavailable (AmbiguousRoots outer inner))
           | None \<Rightarrow>
               rbind (rfold read_generation [] registered) (\<lambda>generations.
               rbind (rfold (read_row generations) ([], []) rows) (\<lambda>(sentinels, summaries).
               Inr (Bounded \<lparr>sn_configured = sort keys, sn_registered = generations, sn_rows = summaries,
                 sn_sentinels = sentinels, sn_agrees = roots_agree (sort keys) generations\<rparr>)))))"

definition owning_root :: "completeness_snapshot \<Rightarrow> path \<Rightarrow> path_key option" where
  "owning_root sn p = find (\<lambda>root. starts_with p (components root)) (sn_configured sn)"

definition trusted_root :: "completeness_snapshot \<Rightarrow> path_key \<Rightarrow> bool" where
  "trusted_root sn root \<longleftrightarrow>
     sn_agrees sn \<and> 0 < sint (case bt_get (sn_registered sn) root of None \<Rightarrow> 0 | Some g \<Rightarrow> g)"

definition rows_below :: "completeness_snapshot \<Rightarrow> path_key \<Rightarrow> (string \<times> path_key \<times> omission_summary) list" where
  "rows_below sn key = (case subtree_bounds key of (lo, hi) \<Rightarrow> bt_range lo hi (sn_rows sn))"

definition omitted_at_or_under :: "completeness_snapshot \<Rightarrow> path_key \<Rightarrow> path_key \<Rightarrow> bool" where
  "omitted_at_or_under sn root key \<longleftrightarrow>
     bt_get (sn_sentinels sn) root \<noteq> None
     \<or> (case bt_get (sn_rows sn) key of Some (stored, _) \<Rightarrow> stored = root | None \<Rightarrow> False)
     \<or> list_ex (\<lambda>(_, stored, _). stored = root) (rows_below sn key)"

definition add_all :: "omission_summary \<Rightarrow> omission_summary \<Rightarrow> ledger_error + omission_summary" where
  "add_all summary found = rfold (\<lambda>s (reason, n). summary_add reason n s) summary found"

definition fold_found :: "path_key \<Rightarrow> omission_summary \<Rightarrow> path_key \<times> omission_summary \<Rightarrow> ledger_error + omission_summary" where
  "fold_found root summary = (\<lambda>(stored, found). if stored \<noteq> root then Inr summary else add_all summary found)"

definition verdict :: "completeness_snapshot \<Rightarrow> path \<Rightarrow> ledger_error + dir_completeness" where
  "verdict sn p =
     (case path_key_new p of None \<Rightarrow> Inr Unknown | Some key \<Rightarrow>
      case owning_root sn p of None \<Rightarrow> Inr Unknown | Some root \<Rightarrow>
      if \<not> trusted_root sn root then Inr Unknown
      else
        rbind (case bt_get (sn_rows sn) key of None \<Rightarrow> Inr [] | Some slot \<Rightarrow> fold_found root [] slot) (\<lambda>own.
        rbind (rfold (fold_found root) own (map snd (rows_below sn key))) (\<lambda>below.
        rbind
          (if key \<noteq> root then
             (case bt_get (sn_sentinels sn) root of Some n \<Rightarrow> summary_add WalkError n below | None \<Rightarrow> Inr below)
           else Inr below) (\<lambda>summary.
        Inr (if summary_is_empty summary then Complete else Incomplete summary)))))"

definition fully_authoritative :: "completeness_snapshot \<Rightarrow> bool" where
  "fully_authoritative sn \<longleftrightarrow> sn_agrees sn \<and> list_all (\<lambda>(_, generation). 0 < sint generation) (sn_registered sn)"

definition fold_totals :: "completeness_snapshot \<Rightarrow> ledger_error + omission_summary" where
  "fold_totals sn = rfold add_all [] (map (snd \<circ> snd) (sn_rows sn))"

definition scan_accounting :: "completeness_snapshot \<Rightarrow> ledger_error + accounting" where
  "scan_accounting sn =
     (if \<not> fully_authoritative sn then Inr AccountingUnavailable
      else rbind (fold_totals sn) (\<lambda>totals. Inr (ExactAccounting totals)))"

definition snapshot_scope :: "completeness_snapshot \<Rightarrow> path \<Rightarrow> dir_scope" where
  "snapshot_scope sn p = (case owning_root sn p of Some root \<Rightarrow> ScopeRoot root | None \<Rightarrow> Outside)"

definition snapshot_disposition :: "completeness_snapshot \<Rightarrow> path \<Rightarrow> dir_disposition" where
  "snapshot_disposition sn p =
     (case path_key_new p of None \<Rightarrow> Untrusted | Some key \<Rightarrow>
      case owning_root sn p of None \<Rightarrow> Untrusted | Some root \<Rightarrow>
      if \<not> trusted_root sn root then Untrusted
      else if omitted_at_or_under sn root key then Suppressed else Trusted)"

definition snapshot_context :: "completeness_snapshot \<Rightarrow> signature_context" where
  "snapshot_context sn = \<lparr>ctx_scope = snapshot_scope sn, ctx_disposition = snapshot_disposition sn\<rparr>"

end
