(* ===== verification/Completeness_Props.thy ===== *)
theory Completeness_Props
  imports Completeness
begin

text \<open>
  What a snapshot of the completeness ledger answers, in terms of the rows it was built from: the
  counts of a verdict, the agreement of the two classifiers, the totals of the scan.
\<close>

section \<open>Checked counters\<close>

text \<open>
  The three accumulators of the program (cells of a walk, summaries, sentinels) are one operation at
  three key types; a count that is absent reads as zero.
\<close>

definition counter_add :: "'k::linorder \<Rightarrow> event_count \<Rightarrow> ('k \<times> event_count) list \<Rightarrow> ledger_error + ('k \<times> event_count) list" where
  "counter_add k n m =
     rbind (case bt_get m k of Some existing \<Rightarrow> count_checked_add existing n | None \<Rightarrow> Inr n)
       (\<lambda>total. Inr (bt_insert k total m))"

definition count_of :: "('k::linorder \<times> event_count) list \<Rightarrow> 'k \<Rightarrow> nat" where
  "count_of m k = (case bt_get m k of None \<Rightarrow> 0 | Some n \<Rightarrow> unat n)"

definition weight :: "('k \<times> event_count) list \<Rightarrow> 'k \<Rightarrow> nat" where
  "weight xs k = sum_list (map (unat \<circ> snd) (filter (\<lambda>x. fst x = k) xs))"

lemma summary_add_counter: "summary_add r n s = counter_add r n s"
  by (simp add: summary_add_def counter_add_def split: option.split)

lemma counts_add_counter: "counts_add d r n m = counter_add (d, r) n m"
  by (simp add: counts_add_def counter_add_def Let_def)

lemma count_checked_add_Inr [result_simps]: "count_checked_add a b = Inr c \<longleftrightarrow> unat c = unat a + unat b"
  by (simp add: count_checked_add_def result_simps arith_simps)

lemma count_checked_add_Inl [result_simps]:
  "count_checked_add a b = Inl e \<longleftrightarrow> e = CountsOverflow \<and> 2 ^ 64 \<le> unat a + unat b"
  by (auto simp: count_checked_add_def result_simps arith_simps)

lemma weight_Nil [simp]: "weight [] k = 0"
  by (simp add: weight_def)

lemma weight_Cons [simp]: "weight ((a, n) # xs) k = (if a = k then unat n else 0) + weight xs k"
  by (simp add: weight_def)

lemma weight_append: "weight (xs @ ys) k = weight xs k + weight ys k"
  by (simp add: weight_def)

lemma unat_u64_bound [simp]: "unat (w :: u64) < 18446744073709551616"
  using unat_u64_less [of w] by simp

lemma count_of_less: "count_of m k < 2 ^ 64"
  by (simp add: count_of_def split: option.split)

lemma count_of_bt: "bt_wf m \<Longrightarrow> count_of m k = weight m k"
proof (induction m)
  case (Cons x m)
  obtain a n where x: "x = (a, n)" by force
  have "bt_wf m" using Cons.prems by (simp add: bt_wf_def)
  moreover have "weight m a = 0" if "a \<notin> fst ` set m" using that by (induction m) auto
  moreover have "a \<notin> fst ` set m" using Cons.prems bt_wf_distinct [of "x # m"] by (simp add: x)
  ultimately show ?case using Cons.IH by (auto simp: x count_of_def bt_get_def)
qed (simp add: count_of_def)

lemma counter_add_Inr:
  assumes "counter_add k n m = Inr m'" "bt_wf m"
  shows "bt_wf m' \<and> count_of m' k' = count_of m k' + (if k' = k then unat n else 0)
    \<and> (bt_get m' k' \<noteq> None \<longleftrightarrow> k' = k \<or> bt_get m k' \<noteq> None)"
proof -
  obtain t where t: "(case bt_get m k of Some e \<Rightarrow> count_checked_add e n | None \<Rightarrow> Inr n) = Inr t" "m' = bt_insert k t m"
    using assms(1) by (auto simp: counter_add_def result_simps)
  have "unat t = count_of m k + unat n"
    using t(1) by (auto simp: count_of_def result_simps split: option.splits)
  then show ?thesis using assms(2) by (simp add: t(2) bt.wf_put bt.get_put count_of_def)
qed

lemma counter_add_Inl: "counter_add k n m = Inl e \<longleftrightarrow> e = CountsOverflow \<and> 2 ^ 64 \<le> count_of m k + unat n"
  by (auto simp: counter_add_def count_of_def result_simps not_le split: option.splits)

text \<open>A loop of additions: the sums, and the only way to fail.\<close>

lemma counter_loop_Inr:
  assumes "rfold (\<lambda>m (k, n). counter_add k n m) m xs = Inr m'" "bt_wf m"
  shows "bt_wf m' \<and> count_of m' k = count_of m k + weight xs k \<and> (bt_get m' k \<noteq> None \<longleftrightarrow> k \<in> fst ` set xs \<or> bt_get m k \<noteq> None)"
  using assms
proof (induction xs arbitrary: m)
  case (Cons x xs)
  obtain a n where x: "x = (a, n)" by force
  obtain m1 where m1: "counter_add a n m = Inr m1" "rfold (\<lambda>m (k, n). counter_add k n m) m1 xs = Inr m'"
    using Cons.prems(1) by (auto simp: x result_simps)
  note s = counter_add_Inr [OF m1(1) Cons.prems(2), of k]
  have "bt_wf m1" using s by blast
  from Cons.IH [OF m1(2) this] s show ?case by (auto simp: x)
qed simp

lemma counter_loop_Inl:
  assumes "rfold (\<lambda>m (k, n). counter_add k n m) m xs = Inl e" "bt_wf m"
  shows "e = CountsOverflow \<and> (\<exists>k. 2 ^ 64 \<le> count_of m k + weight xs k)"
  using assms
proof (induction xs arbitrary: m)
  case (Cons x xs)
  obtain a n where x: "x = (a, n)" by force
  show ?case
  proof (cases "counter_add a n m")
    case (Inl d)
    then have "e = CountsOverflow" "2 ^ 64 \<le> count_of m a + unat n"
      using Cons.prems(1) Inl by (simp_all add: x) (simp_all add: counter_add_Inl)
    then show ?thesis by (auto simp: x intro!: exI [of _ a])
  next
    case (Inr m1)
    have w: "bt_wf m1" using counter_add_Inr [OF Inr Cons.prems(2)] by blast
    have r: "rfold (\<lambda>m (k, n). counter_add k n m) m1 xs = Inl e" using Cons.prems(1) Inr by (simp add: x)
    from Cons.IH [OF r w] obtain k where k: "e = CountsOverflow" "2 ^ 64 \<le> count_of m1 k + weight xs k" by blast
    then have "2 ^ 64 \<le> count_of m k + weight (x # xs) k"
      using counter_add_Inr [OF Inr Cons.prems(2), of k] by (auto simp: x split: if_splits)
    with k(1) show ?thesis by blast
  qed
qed simp

lemma add_all_counter: "add_all s xs = rfold (\<lambda>m (k, n). counter_add k n m) s xs"
  by (simp add: add_all_def summary_add_counter)

section \<open>The cells that count\<close>

text \<open>
  The rows of the ledger a snapshot speaks from: those of the current generation of a registered
  root, decoded.
\<close>

type_synonym cell = "path_key \<times> path_key \<times> omission_reason \<times> event_count"

definition live_cell :: "(path_key \<times> i64) list \<Rightarrow> stored_omission \<Rightarrow> cell option" where
  "live_cell generations row =
     (if is_current generations (so_root_key row) (so_generation row)
      then map_option (\<lambda>r. (so_root_key row, so_dir_key row, r, so_event_count row)) (reason_parse (so_reason row))
      else None)"

definition live_cells :: "(path_key \<times> i64) list \<Rightarrow> stored_omission list \<Rightarrow> cell list" where
  "live_cells generations rows = List.map_filter (live_cell generations) rows"

definition tally :: "(path_key \<Rightarrow> path_key \<Rightarrow> omission_reason \<Rightarrow> bool) \<Rightarrow> cell list \<Rightarrow> nat" where
  "tally P cells = sum_list (map (\<lambda>(_, _, _, n). unat n) (filter (\<lambda>(root, d, r, _). P root d r) cells))"

definition cell_ok :: "(path_key \<times> i64) list \<Rightarrow> cell \<Rightarrow> bool" where
  "cell_ok generations = (\<lambda>(root, d, r, n).
     key_ok root \<and> key_ok d \<and> is_at_or_under d root \<and> 0 < unat n \<and> bt_get generations root \<noteq> None)"

lemma tally_Nil [simp]: "tally P [] = 0"
  by (simp add: tally_def)

lemma tally_Cons [simp]: "tally P ((root, d, r, n) # cs) = (if P root d r then unat n else 0) + tally P cs"
  by (simp add: tally_def)

lemma tally_append: "tally P (as @ bs) = tally P as + tally P bs"
  by (simp add: tally_def)

lemma tally_cong:
  "(\<And>root d r n. (root, d, r, n) \<in> set cs \<Longrightarrow> P root d r = Q root d r) \<Longrightarrow> tally P cs = tally Q cs"
  unfolding tally_def by (intro arg_cong [where f = sum_list] arg_cong2 [where f = map] filter_cong) auto

lemma tally_disjoint:
  "(\<And>root d r n. (root, d, r, n) \<in> set cs \<Longrightarrow> \<not> (P root d r \<and> Q root d r)) \<Longrightarrow>
     tally P cs + tally Q cs = tally (\<lambda>root d r. P root d r \<or> Q root d r) cs"
proof (induction cs)
  case (Cons c cs)
  obtain root d r n where c: "c = (root, d, r, n)" by (cases c) auto
  have "tally P cs + tally Q cs = tally (\<lambda>root d r. P root d r \<or> Q root d r) cs"
    using Cons.prems by (intro Cons.IH) (meson list.set_intros(2))
  then show ?case using Cons.prems [of root d r n] by (auto simp: c)
qed simp

lemma tally_pos_iff:
  "(\<And>c. c \<in> set cs \<Longrightarrow> cell_ok g c) \<Longrightarrow>
     0 < tally P cs \<longleftrightarrow> (\<exists>root d r n. (root, d, r, n) \<in> set cs \<and> P root d r)"
proof (induction cs)
  case (Cons c cs)
  obtain root d r n where c: "c = (root, d, r, n)" by (cases c) auto
  have "0 < unat n" using Cons.prems [of c] by (simp add: c cell_ok_def)
  with Cons show ?case by (auto simp: c)
qed simp

definition fold_cells :: "row_state \<Rightarrow> cell list \<Rightarrow> ledger_error + row_state" where
  "fold_cells = rfold (\<lambda>st (root, d, r, n). fold_cell root d r n st)"

lemma count_from_i64_Inr [result_simps]: "count_from_i64 raw = Inr n \<longleftrightarrow> n = raw \<and> 0 < sint raw"
  by (auto simp: count_from_i64_def)

lemma read_row_Inr:
  assumes "read_row g st row = Inr st'"
  shows "fold_cells st (live_cells g [row]) = Inr st' \<and> (\<forall>c \<in> set (live_cells g [row]). cell_ok g c)"
proof (cases "is_current g (so_root_key row) (so_generation row)")
  case False
  then show ?thesis
    using assms by (auto simp: read_row_def result_simps from_stored_Inr_iff live_cells_def live_cell_def List.map_filter_simps fold_cells_def)
next
  case True
  obtain r n where r: "key_ok (so_root_key row)" "key_ok (so_dir_key row)" "is_at_or_under (so_dir_key row) (so_root_key row)"
    "reason_parse (so_reason row) = Some r" "n = so_event_count row" "0 < sint n"
    "fold_cell (so_root_key row) (so_dir_key row) r n st = Inr st'"
    using assms True by (auto simp: read_row_def result_simps from_stored_Inr_iff split: if_splits)
  have "bt_get g (so_root_key row) \<noteq> None" using True by (auto simp: is_current_def split: option.splits)
  moreover have "n \<noteq> 0" using r(6) by auto
  ultimately show ?thesis
    using r True by (auto simp: live_cells_def live_cell_def List.map_filter_simps fold_cells_def cell_ok_def unat_gt_0)
qed

lemma live_cells_Cons: "live_cells g (row # rows) = live_cells g [row] @ live_cells g rows"
  by (simp add: live_cells_def List.map_filter_simps split: option.split)

lemma read_rows_Inr:
  "rfold (read_row g) st rows = Inr st' \<Longrightarrow>
     fold_cells st (live_cells g rows) = Inr st' \<and> (\<forall>c \<in> set (live_cells g rows). cell_ok g c)"
proof (induction rows arbitrary: st)
  case Nil
  then show ?case by (simp add: live_cells_def List.map_filter_simps fold_cells_def)
next
  case (Cons row rows)
  then obtain st1 where s: "read_row g st row = Inr st1" "rfold (read_row g) st1 rows = Inr st'"
    by (auto simp: result_simps)
  show ?case
    unfolding live_cells_Cons [of g row rows]
    using read_row_Inr [OF s(1)] Cons.IH [OF s(2)] by (auto simp: fold_cells_def rfold_append)
qed

section \<open>What the fold of the rows holds\<close>

definition holds_sentinels :: "cell list \<Rightarrow> (path_key \<times> event_count) list \<Rightarrow> bool" where
  "holds_sentinels L sentinels \<longleftrightarrow>
     bt_wf sentinels
     \<and> (\<forall>R. (bt_get sentinels R \<noteq> None \<longleftrightarrow> (\<exists>n. (R, R, WalkError, n) \<in> set L))
           \<and> count_of sentinels R = tally (\<lambda>root d r. root = R \<and> d = R \<and> r = WalkError) L)"

definition holds_summary :: "cell list \<Rightarrow> path_key \<Rightarrow> omission_summary \<Rightarrow> bool" where
  "holds_summary L d s \<longleftrightarrow>
     bt_wf s \<and> (\<forall>r. count_of s r = tally (\<lambda>_ d' r'. d' = d \<and> r' = r) L
                   \<and> (bt_get s r \<noteq> None \<longleftrightarrow> (\<exists>root n. (root, d, r, n) \<in> set L)))"

definition holds_summaries :: "cell list \<Rightarrow> (string \<times> path_key \<times> omission_summary) list \<Rightarrow> bool" where
  "holds_summaries L summaries \<longleftrightarrow>
     bt_wf summaries
     \<and> (\<forall>d. bt_get summaries d = None \<longleftrightarrow> d \<notin> (\<lambda>c. fst (snd c)) ` set L)
     \<and> (\<forall>d R s. bt_get summaries d = Some (R, s) \<longrightarrow> (\<exists>r n. (R, d, r, n) \<in> set L) \<and> holds_summary L d s)"

lemma sentinel_step:
  assumes "holds_sentinels L sentinels"
    and "(if r = WalkError \<and> d = root then counter_add root n sentinels else Inr sentinels) = Inr sentinels'"
  shows "holds_sentinels (L @ [(root, d, r, n)]) sentinels'"
proof (cases "r = WalkError \<and> d = root")
  case True
  then have add: "counter_add root n sentinels = Inr sentinels'" using assms(2) by simp
  have w: "bt_wf sentinels" using assms(1) by (simp add: holds_sentinels_def)
  show ?thesis
    unfolding holds_sentinels_def
  proof (intro conjI allI)
    show "bt_wf sentinels'" using counter_add_Inr [OF add w] by blast
    fix R
    show "bt_get sentinels' R \<noteq> None \<longleftrightarrow> (\<exists>m. (R, R, WalkError, m) \<in> set (L @ [(root, d, r, n)]))"
      using counter_add_Inr [OF add w, of R] assms(1) True unfolding holds_sentinels_def by auto
    show "count_of sentinels' R = tally (\<lambda>root' d' r'. root' = R \<and> d' = R \<and> r' = WalkError) (L @ [(root, d, r, n)])"
      using counter_add_Inr [OF add w, of R] assms(1) True unfolding holds_sentinels_def by (auto simp: tally_append)
  qed
next
  case False
  then show ?thesis using assms by (auto simp: holds_sentinels_def tally_append)
qed

lemma holds_summary_fresh: "d \<notin> (\<lambda>c. fst (snd c)) ` set L \<Longrightarrow> holds_summary L d []"
proof -
  assume none: "d \<notin> (\<lambda>c. fst (snd c)) ` set L"
  have "tally (\<lambda>_ d' r'. d' = d \<and> r' = r) L = 0" for r
  proof -
    have "tally (\<lambda>_ d' r'. d' = d \<and> r' = r) L = tally (\<lambda>_ _ _. False) L" using none by (intro tally_cong) force
    then show ?thesis by (simp add: tally_def case_prod_unfold)
  qed
  then show ?thesis using none by (force simp: holds_summary_def count_of_def)
qed

lemma summary_step:
  assumes "holds_summary L d s" "counter_add r n s = Inr s'"
  shows "holds_summary (L @ [(root, d, r, n)]) d s'"
proof -
  have w: "bt_wf s" using assms(1) by (simp add: holds_summary_def)
  show ?thesis
    unfolding holds_summary_def
  proof (intro conjI allI)
    show "bt_wf s'" using counter_add_Inr [OF assms(2) w] by blast
    fix r'
    show "count_of s' r' = tally (\<lambda>_ d' r''. d' = d \<and> r'' = r') (L @ [(root, d, r, n)])"
      using counter_add_Inr [OF assms(2) w, of r'] assms(1) unfolding holds_summary_def by (auto simp: tally_append)
    show "bt_get s' r' \<noteq> None \<longleftrightarrow> (\<exists>root' n'. (root', d, r', n') \<in> set (L @ [(root, d, r, n)]))"
      using counter_add_Inr [OF assms(2) w, of r'] assms(1) unfolding holds_summary_def by auto
  qed
qed

lemma holds_summary_other: "holds_summary L d' s \<Longrightarrow> d' \<noteq> d \<Longrightarrow> holds_summary (L @ [(root, d, r, n)]) d' s"
  by (auto simp: holds_summary_def tally_append)

definition slot_of :: "path_key \<Rightarrow> path_key \<Rightarrow> (string \<times> path_key \<times> omission_summary) list \<Rightarrow> path_key \<times> omission_summary" where
  "slot_of root d summaries = (case bt_get summaries d of None \<Rightarrow> (root, []) | Some slot \<Rightarrow> slot)"

lemma slot_holds:
  assumes "holds_summaries L summaries"
  shows "holds_summary L d (snd (slot_of root d summaries)) \<and>
      (\<exists>r' n'. (fst (slot_of root d summaries), d, r', n') \<in> set (L @ [(root, d, r, n)]))"
proof (cases "bt_get summaries d")
  case None
  then have "d \<notin> (\<lambda>c. fst (snd c)) ` set L" using assms unfolding holds_summaries_def by blast
  from holds_summary_fresh [OF this] show ?thesis by (auto simp: slot_of_def None)
next
  case (Some x)
  obtain R s0 where x: "x = (R, s0)" by force
  then have "(\<exists>r n. (R, d, r, n) \<in> set L) \<and> holds_summary L d s0"
    using assms Some by (simp add: holds_summaries_def)
  then show ?thesis using Some x by (auto simp: slot_of_def)
qed

lemma summaries_step:
  assumes "holds_summaries L summaries" "counter_add r n (snd (slot_of root d summaries)) = Inr s"
  shows "holds_summaries (L @ [(root, d, r, n)]) (bt_insert d (fst (slot_of root d summaries), s) summaries)"
proof -
  have w: "bt_wf summaries" using assms(1) by (simp add: holds_summaries_def)
  note slot = slot_holds [OF assms(1), of d root r n]
  show ?thesis
    unfolding holds_summaries_def
  proof (intro conjI allI impI)
    show "bt_wf (bt_insert d (fst (slot_of root d summaries), s) summaries)" using w by (rule bt.wf_put)
    fix d'
    show "bt_get (bt_insert d (fst (slot_of root d summaries), s) summaries) d' = None
        \<longleftrightarrow> d' \<notin> (\<lambda>c. fst (snd c)) ` set (L @ [(root, d, r, n)])"
      using assms(1) w by (auto simp: bt.get_put holds_summaries_def)
    fix R s'
    assume g: "bt_get (bt_insert d (fst (slot_of root d summaries), s) summaries) d' = Some (R, s')"
    show "\<exists>r' n'. (R, d', r', n') \<in> set (L @ [(root, d, r, n)])"
      using g slot assms(1) w by (cases "d' = d") (auto simp: bt.get_put holds_summaries_def)
    show "holds_summary (L @ [(root, d, r, n)]) d' s'"
      using g assms(1) w summary_step [OF conjunct1 [OF slot] assms(2)] holds_summary_other
      by (cases "d' = d") (auto simp: bt.get_put holds_summaries_def)
  qed
qed

definition holds_cells :: "cell list \<Rightarrow> row_state \<Rightarrow> bool" where
  "holds_cells L st \<longleftrightarrow> holds_sentinels L (fst st) \<and> holds_summaries L (snd st)"

lemma holds_cells_Nil [simp]: "holds_cells [] ([], [])"
  by (simp add: holds_cells_def holds_sentinels_def holds_summaries_def count_of_def)

lemma fold_cell_holds:
  assumes "holds_cells L st" and step: "fold_cell root d r n st = Inr st'"
  shows "holds_cells (L @ [(root, d, r, n)]) st'"
proof -
  obtain sentinels summaries where st: "st = (sentinels, summaries)" by force
  have e: "fold_cell root d r n st =
      rbind (if r = WalkError \<and> d = root then counter_add root n sentinels else Inr sentinels)
        (\<lambda>sentinels'. rbind (counter_add r n (snd (slot_of root d summaries)))
          (\<lambda>s. Inr (sentinels', bt_insert d (fst (slot_of root d summaries), s) summaries)))"
    by (simp add: fold_cell_def st counter_add_def [of root] summary_add_counter slot_of_def Let_def)
  obtain sentinels' s where
    "(if r = WalkError \<and> d = root then counter_add root n sentinels else Inr sentinels) = Inr sentinels'"
    "counter_add r n (snd (slot_of root d summaries)) = Inr s"
    "st' = (sentinels', bt_insert d (fst (slot_of root d summaries), s) summaries)"
    using step unfolding e rbind_eq_Inr sum.inject by metis
  then show ?thesis
    using assms(1) sentinel_step summaries_step by (auto simp: holds_cells_def st)
qed

lemma fold_cells_holds:
  "fold_cells st L = Inr st' \<Longrightarrow> holds_cells L0 st \<Longrightarrow> holds_cells (L0 @ L) st'"
proof (induction L arbitrary: st L0)
  case (Cons c L)
  obtain root d r n where c: "c = (root, d, r, n)" by (cases c) auto
  obtain st1 where s: "fold_cell root d r n st = Inr st1" "fold_cells st1 L = Inr st'"
    using Cons.prems(1) by (auto simp: fold_cells_def c result_simps)
  have "holds_cells (L0 @ [c]) st1" using fold_cell_holds [OF Cons.prems(2) s(1)] by (simp add: c)
  from Cons.IH [OF s(2) this] show ?case by simp
qed (simp add: fold_cells_def)

section \<open>Roots\<close>

lemma overlapping_None: "overlapping ks = None \<Longrightarrow> sorted_wrt (\<lambda>a b. \<not> is_at_or_under b a \<and> \<not> is_at_or_under a b) ks"
  by (induction ks) (auto simp: find_None_iff split: option.splits)

lemma is_at_or_under_refl [simp]: "is_at_or_under k k"
  by (simp add: is_at_or_under_def)

lemma overlapping_None_disjoint:
  assumes "overlapping ks = None"
  shows "distinct ks" and "a \<in> set ks \<Longrightarrow> b \<in> set ks \<Longrightarrow> is_at_or_under a b \<Longrightarrow> a = b"
proof -
  note s = overlapping_None [OF assms]
  show "distinct ks" using s by (induction ks) auto
  show "a \<in> set ks \<Longrightarrow> b \<in> set ks \<Longrightarrow> is_at_or_under a b \<Longrightarrow> a = b"
    using s by (induction ks) auto
qed

lemma keyed_roots_ok: "keyed_roots (map components rs) = Inr ks \<Longrightarrow> k \<in> set ks \<Longrightarrow> key_ok k"
  unfolding keyed_roots_def rmap_eq_Inr
  by (drule list_all2_right, assumption) (auto simp: result_simps dest: path_key_new_ok)

text \<open>Two keys above one directory are comparable.\<close>

lemma keys_above_comparable:
  assumes "key_ok a" "key_ok b" "key_ok d" "is_at_or_under d a" "is_at_or_under d b"
  shows "is_at_or_under a b \<or> is_at_or_under b a"
  using assms prefix_same_cases by (simp add: is_at_or_under_iff) blast

lemma generations_wf: "rfold read_generation [] registered = Inr g \<Longrightarrow> bt_wf g"
  by (erule rfold_invariant [where I = bt_wf])
     (auto simp: read_generation_def result_simps bt.wf_put split: if_splits)

lemma roots_agree_keys:
  assumes "roots_agree ks g" "distinct ks" "bt_wf g"
  shows "fst ` set g = set ks"
proof -
  have "set ks \<subseteq> fst ` set g" using assms(1) by (auto simp: roots_agree_def list_all_iff bt_get_None_iff)
  moreover have "card (fst ` set g) = card (set ks)"
    using assms bt_wf_distinct [OF assms(3)] by (metis distinct_card length_map list.set_map roots_agree_def)
  ultimately show ?thesis by (metis card_subset_eq finite_imageI finite_set)
qed

text \<open>What a snapshot was built from.\<close>

definition built_from :: "path list \<Rightarrow> (string \<times> i64) list \<Rightarrow> stored_omission list \<Rightarrow> completeness_snapshot \<Rightarrow> bool" where
  "built_from roots registered rows sn \<longleftrightarrow> snapshot_build roots registered rows = Inr (Bounded sn)"

definition cells_of :: "completeness_snapshot \<Rightarrow> stored_omission list \<Rightarrow> cell list" where
  "cells_of sn rows = live_cells (sn_registered sn) rows"

lemma built_facts:
  assumes "built_from (map components rs) registered rows sn"
  shows "bt_wf (sn_registered sn)" "\<And>k. k \<in> set (sn_configured sn) \<Longrightarrow> key_ok k"
    "distinct (sn_configured sn)"
    "\<And>a b. a \<in> set (sn_configured sn) \<Longrightarrow> b \<in> set (sn_configured sn) \<Longrightarrow> is_at_or_under a b \<Longrightarrow> a = b"
    "sn_agrees sn \<Longrightarrow> fst ` set (sn_registered sn) = set (sn_configured sn)"
    "holds_cells (cells_of sn rows) (sn_sentinels sn, sn_rows sn)"
    "\<And>c. c \<in> set (cells_of sn rows) \<Longrightarrow> cell_ok (sn_registered sn) c"
proof -
  obtain ks g where b: "keyed_roots (map components rs) = Inr ks" "overlapping ks = None"
    "rfold read_generation [] registered = Inr g"
    "rfold (read_row g) ([], []) rows = Inr (sn_sentinels sn, sn_rows sn)"
    "sn_configured sn = sort ks" "sn_registered sn = g" "sn_agrees sn = roots_agree (sort ks) g"
    using assms
    by (auto simp: built_from_def snapshot_build_def result_simps split: if_splits sum.splits option.splits)
  note d = overlapping_None_disjoint [OF b(2)]
  show "bt_wf (sn_registered sn)" using generations_wf [OF b(3)] by (simp add: b)
  show "\<And>k. k \<in> set (sn_configured sn) \<Longrightarrow> key_ok k" using keyed_roots_ok [OF b(1)] by (simp add: b)
  show dist: "distinct (sn_configured sn)" using d(1) by (simp add: b)
  show "\<And>a b. a \<in> set (sn_configured sn) \<Longrightarrow> b \<in> set (sn_configured sn) \<Longrightarrow> is_at_or_under a b \<Longrightarrow> a = b"
    using d(2) by (simp add: b)
  show "sn_agrees sn \<Longrightarrow> fst ` set (sn_registered sn) = set (sn_configured sn)"
    using roots_agree_keys [of "sn_configured sn" g] dist generations_wf [OF b(3)] by (simp add: b)
  note r = read_rows_Inr [OF b(4)]
  show "\<And>c. c \<in> set (cells_of sn rows) \<Longrightarrow> cell_ok (sn_registered sn) c"
    using r by (simp add: cells_of_def b)
  show "holds_cells (cells_of sn rows) (sn_sentinels sn, sn_rows sn)"
    using fold_cells_holds [OF conjunct1 [OF r] holds_cells_Nil] by (simp add: cells_of_def b)
qed

text \<open>Under an agreed configuration, a directory belongs to one root.\<close>

lemma one_root:
  assumes b: "built_from (map components rs) registered rows sn" and "sn_agrees sn"
    and "(R, d, r, n) \<in> set (cells_of sn rows)" "(R', d, r', n') \<in> set (cells_of sn rows)"
  shows "R = R'"
proof -
  have c: "cell_ok (sn_registered sn) (R, d, r, n)" "cell_ok (sn_registered sn) (R', d, r', n')"
    using built_facts(7) [OF b] assms(3,4) by blast+
  then have "R \<in> set (sn_configured sn)" "R' \<in> set (sn_configured sn)"
    using built_facts(5) [OF b assms(2)] by (auto simp: cell_ok_def bt_get_None_iff)
  then show ?thesis
    using c built_facts(4) [OF b] keys_above_comparable [of R R' d] by (auto simp: cell_ok_def)
qed

lemma owning_root_Some:
  assumes b: "built_from (map components rs) registered rows sn"
    and o: "owning_root sn (components s) = Some R" and k: "path_key_new (components s) = Some key"
  shows "R \<in> set (sn_configured sn)" "key_ok R" "key_ok key" "is_at_or_under key R"
proof -
  have "R \<in> set (sn_configured sn) \<and> prefix (components R) (components s)"
    using o by (auto simp: owning_root_def find_Some_iff starts_with_def in_set_conv_nth)
  then show "R \<in> set (sn_configured sn)" "key_ok R" "key_ok key" "is_at_or_under key R"
    using built_facts(2) [OF b] path_key_new_ok [OF k] by (auto simp: is_at_or_under_iff)
qed

section \<open>Verdicts\<close>

text \<open>Everything a verdict folds, in the order it folds it.\<close>

definition own_items :: "path_key \<Rightarrow> path_key \<times> omission_summary \<Rightarrow> omission_summary" where
  "own_items root = (\<lambda>(stored, found). if stored = root then found else [])"

definition verdict_items :: "completeness_snapshot \<Rightarrow> path_key \<Rightarrow> path_key \<Rightarrow> omission_summary" where
  "verdict_items sn root key =
     (case bt_get (sn_rows sn) key of None \<Rightarrow> [] | Some slot \<Rightarrow> own_items root slot)
     @ concat (map (own_items root) (map snd (rows_below sn key)))
     @ (if key \<noteq> root then (case bt_get (sn_sentinels sn) root of Some n \<Rightarrow> [(WalkError, n)] | None \<Rightarrow> []) else [])"

lemma add_all_append: "add_all s (xs @ ys) = rbind (add_all s xs) (\<lambda>s'. add_all s' ys)"
  by (simp add: add_all_def rfold_append)

lemma add_all_Nil [simp]: "add_all s [] = Inr s"
  by (simp add: add_all_def)

lemma fold_found_items: "fold_found root s slot = add_all s (own_items root slot)"
  by (simp add: fold_found_def own_items_def split: prod.split)

lemma fold_found_concat: "rfold (fold_found root) s slots = add_all s (concat (map (own_items root) slots))"
  by (induction slots arbitrary: s) (simp_all add: fold_found_items add_all_append)

lemma rbind_assoc: "rbind (rbind r f) g = rbind r (\<lambda>x. rbind (f x) g)"
  by (cases r) simp_all

lemma verdict_trusted:
  assumes "path_key_new p = Some key" "owning_root sn p = Some root" "trusted_root sn root"
  shows "verdict sn p = rbind (add_all [] (verdict_items sn root key))
    (\<lambda>summary. Inr (if summary_is_empty summary then Complete else Incomplete summary))"
proof -
  have one: "add_all s [(WalkError, n)] = summary_add WalkError n s" for s n
    by (cases "summary_add WalkError n s") (simp_all add: add_all_def)
  have own: "(case bt_get (sn_rows sn) key of None \<Rightarrow> Inr [] | Some slot \<Rightarrow> fold_found root [] slot) =
      add_all [] (case bt_get (sn_rows sn) key of None \<Rightarrow> [] | Some slot \<Rightarrow> own_items root slot)"
    by (simp add: fold_found_items split: option.split)
  have sent: "(if key \<noteq> root then (case bt_get (sn_sentinels sn) root of Some n \<Rightarrow> summary_add WalkError n s | None \<Rightarrow> Inr s) else Inr s) =
      add_all s (if key \<noteq> root then (case bt_get (sn_sentinels sn) root of Some n \<Rightarrow> [(WalkError, n)] | None \<Rightarrow> []) else [])" for s
    by (simp add: one split: option.split)
  show ?thesis
    unfolding verdict_def assms(1,2) option.case verdict_items_def add_all_append rbind_assoc own fold_found_concat sent
    using assms(3) by simp
qed

text \<open>A summary is a nonempty table of positive counts.\<close>

lemma summary_weight: "holds_summary L d f \<Longrightarrow> weight f r = tally (\<lambda>_ d' r'. d' = d \<and> r' = r) L"
  using count_of_bt [of f r] by (simp add: holds_summary_def)

lemma stored_summary:
  assumes b: "built_from (map components rs) registered rows sn" and g: "bt_get (sn_rows sn) d = Some (R, f)"
  shows "holds_summary (cells_of sn rows) d f" "\<exists>r n. (R, d, r, n) \<in> set (cells_of sn rows)" "f \<noteq> []"
    "\<And>r n. (r, n) \<in> set f \<Longrightarrow> 0 < unat n"
proof -
  show h: "holds_summary (cells_of sn rows) d f" and c: "\<exists>r n. (R, d, r, n) \<in> set (cells_of sn rows)"
    using built_facts(6) [OF b] g by (simp_all add: holds_cells_def holds_summaries_def)
  from c obtain r0 n0 where c0: "(R, d, r0, n0) \<in> set (cells_of sn rows)" by blast
  then have "bt_get f r0 \<noteq> None" using h unfolding holds_summary_def by blast
  then show "f \<noteq> []" by auto
  fix r n assume "(r, n) \<in> set f"
  then have g: "bt_get f r = Some n" using h by (simp add: bt_get_Some_iff holds_summary_def)
  then have "\<exists>root n. (root, d, r, n) \<in> set (cells_of sn rows)" using h unfolding holds_summary_def by blast
  then have "0 < tally (\<lambda>_ d' r'. d' = d \<and> r' = r) (cells_of sn rows)"
    using tally_pos_iff [OF built_facts(7) [OF b]] by blast
  then show "0 < unat n" using h g by (simp add: holds_summary_def count_of_def split: option.splits)
qed

lemma sentinel_facts:
  assumes b: "built_from (map components rs) registered rows sn"
  shows "bt_get (sn_sentinels sn) R \<noteq> None \<longleftrightarrow> (\<exists>n. (R, R, WalkError, n) \<in> set (cells_of sn rows))"
    "bt_get (sn_sentinels sn) R = Some n \<Longrightarrow>
       unat n = tally (\<lambda>root d r. root = R \<and> d = R \<and> r = WalkError) (cells_of sn rows)"
  using built_facts(6) [OF b] by (auto simp: holds_cells_def holds_sentinels_def count_of_def split: option.splits)

lemma row_None_iff:
  assumes "built_from (map components rs) registered rows sn"
  shows "bt_get (sn_rows sn) d = None \<longleftrightarrow> d \<notin> (\<lambda>c. fst (snd c)) ` set (cells_of sn rows)"
  using built_facts(6) [OF assms] by (simp add: holds_cells_def holds_summaries_def)

lemma concat_nothing:
  "(\<And>x. x \<in> set xs \<Longrightarrow> f (snd x) = [] \<longleftrightarrow> fst (snd x) \<noteq> root) \<Longrightarrow>
     concat (map f (map snd xs)) = [] \<longleftrightarrow> \<not> list_ex (\<lambda>(_, stored, _). stored = root) xs"
  by (induction xs) auto

text \<open>The two classifiers fold the same rows.\<close>

lemma items_Nil_iff:
  assumes b: "built_from (map components rs) registered rows sn" and agree: "sn_agrees sn"
  shows "verdict_items sn root key = [] \<longleftrightarrow> \<not> omitted_at_or_under sn root key"
proof -
  have w: "bt_wf (sn_rows sn)" using built_facts(6) [OF b] by (simp add: holds_cells_def holds_summaries_def)
  have own: "own_items root slot = [] \<longleftrightarrow> fst slot \<noteq> root" if "bt_get (sn_rows sn) d = Some slot" for d slot
    using stored_summary(3) [OF b, of d "fst slot" "snd slot"] that by (auto simp: own_items_def split: prod.split)
  have below: "concat (map (own_items root) (map snd (rows_below sn key))) = [] \<longleftrightarrow> \<not> list_ex (\<lambda>(_, stored, _). stored = root) (rows_below sn key)"
  proof -
    have "own_items root (snd x) = [] \<longleftrightarrow> fst (snd x) \<noteq> root" if "x \<in> set (rows_below sn key)" for x
    proof -
      have "x \<in> set (sn_rows sn)" using that by (simp add: rows_below_def bt_range_def case_prod_unfold)
      then have "bt_get (sn_rows sn) (fst x) = Some (snd x)" using w by (simp add: bt_get_Some_iff)
      then show ?thesis by (rule own)
    qed
    then show ?thesis by (rule concat_nothing)
  qed
  have root_row: "\<exists>f. bt_get (sn_rows sn) root = Some (root, f)" if sentinel: "bt_get (sn_sentinels sn) root \<noteq> None"
  proof -
    obtain n where n: "(root, root, WalkError, n) \<in> set (cells_of sn rows)"
      using sentinel sentinel_facts(1) [OF b, of root] by blast
    then have "root \<in> (\<lambda>c. fst (snd c)) ` set (cells_of sn rows)" by force
    then have "bt_get (sn_rows sn) root \<noteq> None" using row_None_iff [OF b, of root] by blast
    then obtain R f where g: "bt_get (sn_rows sn) root = Some (R, f)" by force
    with stored_summary(2) [OF b this] n one_root [OF b agree] have "R = root" by blast
    with g show ?thesis by blast
  qed
  have row: "(case bt_get (sn_rows sn) key of None \<Rightarrow> [] | Some slot \<Rightarrow> own_items root slot) = [] \<longleftrightarrow>
      \<not> (case bt_get (sn_rows sn) key of Some (stored, _) \<Rightarrow> stored = root | None \<Rightarrow> False)"
    using own [of key] by (cases "bt_get (sn_rows sn) key") (simp_all add: case_prod_unfold)
  have sent: "(case bt_get (sn_sentinels sn) root of Some n \<Rightarrow> [(WalkError, n)] | None \<Rightarrow> []) = [] \<longleftrightarrow>
      bt_get (sn_sentinels sn) root = None"
    by (cases "bt_get (sn_sentinels sn) root") simp_all
  show ?thesis
  proof (cases "key = root")
    case True
    have "bt_get (sn_sentinels sn) root \<noteq> None \<Longrightarrow>
        (case bt_get (sn_rows sn) key of Some (stored, _) \<Rightarrow> stored = root | None \<Rightarrow> False)"
      using root_row True by fastforce
    then show ?thesis
      unfolding verdict_items_def omitted_at_or_under_def append_is_Nil_conv below row using True by (simp only: simp_thms if_False) blast
  next
    case False
    then show ?thesis
      unfolding verdict_items_def omitted_at_or_under_def append_is_Nil_conv below row by (simp add: sent) blast
  qed
qed

section \<open>Sums over the rows\<close>

lemma weight_concat: "weight (concat xss) r = sum_list (map (\<lambda>xs. weight xs r) xss)"
  by (induction xss) (simp_all add: weight_append)

lemma tally_none: "(\<And>root d r n. (root, d, r, n) \<in> set cs \<Longrightarrow> \<not> P root d r) \<Longrightarrow> tally P cs = 0"
  using tally_cong [of cs P "\<lambda>_ _ _. False"] by (simp add: tally_def case_prod_unfold)

text \<open>Distinct directories partition the cells.\<close>

lemma tally_partition:
  "distinct ds \<Longrightarrow>
     sum_list (map (\<lambda>d. tally (\<lambda>root d' r. d' = d \<and> P root d r) cs) ds) = tally (\<lambda>root d r. d \<in> set ds \<and> P root d r) cs"
proof (induction ds)
  case Nil
  then show ?case by (simp add: tally_none)
next
  case (Cons d ds)
  have "tally (\<lambda>root d' r. d' = d \<and> P root d r) cs + tally (\<lambda>root d r. d \<in> set ds \<and> P root d r) cs =
      tally (\<lambda>root d' r. d' = d \<and> P root d r \<or> d' \<in> set ds \<and> P root d' r) cs"
    using Cons.prems by (intro tally_disjoint) auto
  also have "\<dots> = tally (\<lambda>root d' r. d' \<in> set (d # ds) \<and> P root d' r) cs" by (intro tally_cong) auto
  finally show ?case using Cons by simp
qed

text \<open>What a verdict counts: the recorded events at or under the directory, and the root-wide walk errors.\<close>

definition missed :: "completeness_snapshot \<Rightarrow> stored_omission list \<Rightarrow> path_key \<Rightarrow> path_key \<Rightarrow> omission_reason \<Rightarrow> nat" where
  "missed sn rows root key reason =
     tally (\<lambda>R d r. R = root \<and> r = reason \<and> (is_at_or_under d key \<or> r = WalkError \<and> d = root)) (cells_of sn rows)"

lemma own_items_weight:
  assumes b: "built_from (map components rs) registered rows sn" and agree: "sn_agrees sn"
    and g: "bt_get (sn_rows sn) d = Some slot"
  shows "weight (own_items root slot) r = tally (\<lambda>R d' r'. d' = d \<and> R = root \<and> r' = r) (cells_of sn rows)"
proof -
  obtain R f where slot: "slot = (R, f)" by force
  note st = stored_summary [OF b g [unfolded slot]]
  from st(2) obtain r0 n0 where c: "(R, d, r0, n0) \<in> set (cells_of sn rows)" by blast
  show ?thesis
  proof (cases "R = root")
    case True
    have "weight f r = tally (\<lambda>_ d' r'. d' = d \<and> r' = r) (cells_of sn rows)" using st(1) by (rule summary_weight)
    also have "\<dots> = tally (\<lambda>R d' r'. d' = d \<and> R = root \<and> r' = r) (cells_of sn rows)"
      using one_root [OF b agree _ c] True by (intro tally_cong) auto
    finally show ?thesis by (simp add: slot own_items_def True)
  next
    case False
    then have "tally (\<lambda>R d' r'. d' = d \<and> R = root \<and> r' = r) (cells_of sn rows) = 0"
      using one_root [OF b agree _ c] by (intro tally_none) auto
    then show ?thesis using False by (simp add: slot own_items_def)
  qed
qed

lemma own_row_weight:
  assumes b: "built_from (map components rs) registered rows sn" and agree: "sn_agrees sn"
  shows "weight (case bt_get (sn_rows sn) key of None \<Rightarrow> [] | Some slot \<Rightarrow> own_items root slot) r =
    tally (\<lambda>R d r'. d = key \<and> R = root \<and> r' = r) (cells_of sn rows)"
proof (cases "bt_get (sn_rows sn) key")
  case None
  then have "key \<notin> (\<lambda>c. fst (snd c)) ` set (cells_of sn rows)" by (simp add: row_None_iff [OF b])
  then have "tally (\<lambda>R d r'. d = key \<and> R = root \<and> r' = r) (cells_of sn rows) = 0" by (intro tally_none) force
  then show ?thesis by (simp add: None)
qed (simp add: own_items_weight [OF b agree])

lemma rows_below_weight:
  assumes b: "built_from (map components rs) registered rows sn" and agree: "sn_agrees sn" and key: "key_ok key"
  shows "weight (concat (map (own_items root) (map snd (rows_below sn key)))) r =
    tally (\<lambda>R d r'. (is_at_or_under d key \<and> (d \<noteq> key \<or> key = ''/'')) \<and> R = root \<and> r' = r) (cells_of sn rows)"
proof -
  let ?L = "cells_of sn rows"
  have w: "bt_wf (sn_rows sn)" and dom: "d \<in> fst ` set (sn_rows sn) \<longleftrightarrow> d \<in> (\<lambda>c. fst (snd c)) ` set ?L" for d
    using built_facts(6) [OF b] bt_get_None_iff [of "sn_rows sn" d] by (auto simp: holds_cells_def holds_summaries_def)
  let ?in = "\<lambda>d. fst (subtree_bounds key) \<le> d \<and> d < snd (subtree_bounds key)"
  have below: "rows_below sn key = filter (\<lambda>x. ?in (fst x)) (sn_rows sn)"
    by (simp add: rows_below_def bt_range_def case_prod_unfold)
  have "weight (own_items root (snd x)) r = tally (\<lambda>R d r'. d = fst x \<and> R = root \<and> r' = r) ?L"
    if "x \<in> set (rows_below sn key)" for x
  proof -
    have "bt_get (sn_rows sn) (fst x) = Some (snd x)" using that w by (simp add: below bt_get_Some_iff)
    then show ?thesis by (rule own_items_weight [OF b agree])
  qed
  then have "weight (concat (map (own_items root) (map snd (rows_below sn key)))) r =
      sum_list (map (\<lambda>d. tally (\<lambda>R d' r'. d' = d \<and> R = root \<and> r' = r) ?L) (map fst (rows_below sn key)))"
    by (simp add: weight_concat comp_def cong: map_cong)
  also have "\<dots> = tally (\<lambda>R d r'. d \<in> set (map fst (rows_below sn key)) \<and> R = root \<and> r' = r) ?L"
    by (rule tally_partition) (use bt_wf_distinct [OF w] in \<open>simp add: below distinct_map_filter\<close>)
  also have "\<dots> = tally (\<lambda>R d r'. (is_at_or_under d key \<and> (d \<noteq> key \<or> key = ''/'')) \<and> R = root \<and> r' = r) ?L"
  proof (rule tally_cong)
    fix R d r' n assume c: "(R, d, r', n) \<in> set ?L"
    then have "key_ok d" using built_facts(7) [OF b] by (force simp: cell_ok_def)
    moreover have "d \<in> set (map fst (rows_below sn key)) \<longleftrightarrow> ?in d"
      using c dom [of d] by (force simp: below)
    ultimately show "(d \<in> set (map fst (rows_below sn key)) \<and> R = root \<and> r' = r) =
        ((is_at_or_under d key \<and> (d \<noteq> key \<or> key = ''/'')) \<and> R = root \<and> r' = r)"
      by (simp add: subtree_range [OF key])
  qed
  finally show ?thesis .
qed

lemma items_weight:
  assumes b: "built_from (map components rs) registered rows sn" and agree: "sn_agrees sn"
    and o: "owning_root sn (components s) = Some root" and k: "path_key_new (components s) = Some key"
    and nr: "root \<noteq> ''/''"
  shows "weight (verdict_items sn root key) r = missed sn rows root key r"
proof -
  let ?L = "cells_of sn rows"
  note ow = owning_root_Some [OF b o k]
  have slash: "key \<noteq> ''/''"
  proof
    assume "key = ''/''"
    then have "prefix (components root) [RootDir]"
      using is_at_or_under_iff [OF ow(3,2)] ow(4) by (simp add: components_def)
    moreover have "components root \<noteq> []" using ow(2) by (auto elim: key_ok_names)
    ultimately have "components root = components ''/''" by (auto simp: components_def prefix_Cons)
    then show False using key_eq_iff [OF ow(2,3)] nr \<open>key = ''/''\<close> by blast
  qed
  have sent: "weight (if key \<noteq> root then (case bt_get (sn_sentinels sn) root of Some n \<Rightarrow> [(WalkError, n)] | None \<Rightarrow> []) else []) r =
      tally (\<lambda>R d r'. key \<noteq> root \<and> R = root \<and> d = root \<and> r' = WalkError \<and> r' = r) ?L"
  proof (cases "key \<noteq> root \<and> r = WalkError")
    case True
    then show ?thesis
      using sentinel_facts [OF b, of root] tally_none [of ?L "\<lambda>R d r'. R = root \<and> d = root \<and> r' = WalkError"]
      by (auto split: option.split intro!: tally_cong)
  next
    case False
    then have "tally (\<lambda>R d r'. key \<noteq> root \<and> R = root \<and> d = root \<and> r' = WalkError \<and> r' = r) ?L = 0"
      by (intro tally_none) auto
    then show ?thesis using False by (auto split: option.split)
  qed
  have not_under: "key \<noteq> root \<Longrightarrow> \<not> is_at_or_under root key"
    using ow key_eq_iff [OF ow(3,2)] by (simp add: is_at_or_under_iff prefix_order.antisym)
  have "weight (verdict_items sn root key) r =
      tally (\<lambda>R d r'. is_at_or_under d key \<and> R = root \<and> r' = r) ?L +
      tally (\<lambda>R d r'. key \<noteq> root \<and> R = root \<and> d = root \<and> r' = WalkError \<and> r' = r) ?L"
  proof -
    have "tally (\<lambda>R d r'. d = key \<and> R = root \<and> r' = r) ?L +
        tally (\<lambda>R d r'. (is_at_or_under d key \<and> (d \<noteq> key \<or> key = ''/'')) \<and> R = root \<and> r' = r) ?L =
        tally (\<lambda>R d r'. d = key \<and> R = root \<and> r' = r \<or> (is_at_or_under d key \<and> (d \<noteq> key \<or> key = ''/'')) \<and> R = root \<and> r' = r) ?L"
      using slash by (intro tally_disjoint) auto
    also have "\<dots> = tally (\<lambda>R d r'. is_at_or_under d key \<and> R = root \<and> r' = r) ?L"
      using slash by (intro tally_cong) auto
    finally show ?thesis
      unfolding verdict_items_def weight_append own_row_weight [OF b agree] rows_below_weight [OF b agree ow(3)] sent
      by simp
  qed
  also have "\<dots> = tally (\<lambda>R d r'. is_at_or_under d key \<and> R = root \<and> r' = r \<or>
      key \<noteq> root \<and> R = root \<and> d = root \<and> r' = WalkError \<and> r' = r) ?L"
    using not_under by (intro tally_disjoint) auto
  also have "\<dots> = missed sn rows root key r"
    unfolding missed_def by (intro tally_cong) auto
  finally show ?thesis .
qed

section \<open>The properties\<close>

lemma items_positive:
  assumes b: "built_from (map components rs) registered rows sn" and "(r, n) \<in> set (verdict_items sn root key)"
  shows "0 < unat n"
proof -
  have w: "bt_wf (sn_rows sn)" using built_facts(6) [OF b] by (simp add: holds_cells_def holds_summaries_def)
  have own: "0 < unat n" if "bt_get (sn_rows sn) d = Some slot" "(r, n) \<in> set (own_items root slot)" for d slot
    using stored_summary(4) [OF b, of d "fst slot" "snd slot" r n] that
    by (auto simp: own_items_def split: prod.splits if_splits)
  have below: "bt_get (sn_rows sn) (fst x) = Some (snd x)" if "x \<in> set (rows_below sn key)" for x
    using that w by (simp add: rows_below_def bt_range_def case_prod_unfold bt_get_Some_iff)
  have sent: "0 < unat n" if sentinel: "bt_get (sn_sentinels sn) root = Some n"
  proof -
    obtain m where "(root, root, WalkError, m) \<in> set (cells_of sn rows)"
      using sentinel_facts(1) [OF b, of root] sentinel by auto
    then have "0 < tally (\<lambda>R d r. R = root \<and> d = root \<and> r = WalkError) (cells_of sn rows)"
      by (intro iffD2 [OF tally_pos_iff [OF built_facts(7) [OF b]]]) blast+
    then show ?thesis using sentinel_facts(2) [OF b sentinel] by simp
  qed
  consider "(r, n) \<in> set (case bt_get (sn_rows sn) key of None \<Rightarrow> [] | Some slot \<Rightarrow> own_items root slot)"
    | "(r, n) \<in> set (concat (map (own_items root) (map snd (rows_below sn key))))"
    | "key \<noteq> root" "(r, n) \<in> set (case bt_get (sn_sentinels sn) root of Some n \<Rightarrow> [(WalkError, n)] | None \<Rightarrow> [])"
    using assms(2) unfolding verdict_items_def set_append by (cases "key = root") auto
  then show ?thesis
  proof cases
    case 1
    then show ?thesis using own by (cases "bt_get (sn_rows sn) key") simp_all
  next
    case 2
    then obtain x where x: "x \<in> set (rows_below sn key)" "(r, n) \<in> set (own_items root (snd x))" by auto
    show ?thesis by (rule own [OF below [OF x(1)] x(2)])
  next
    case 3
    then show ?thesis using sent by (cases "bt_get (sn_sentinels sn) root") simp_all
  qed
qed

lemma weight_pos: "(\<And>r n. (r, n) \<in> set xs \<Longrightarrow> 0 < unat n) \<Longrightarrow> 0 < weight xs r \<longleftrightarrow> r \<in> fst ` set xs"
proof (induction xs)
  case (Cons x xs)
  obtain a n where x: "x = (a, n)" by force
  have "0 < unat n" using Cons.prems [of a n] by (simp add: x)
  moreover have "0 < weight xs r \<longleftrightarrow> r \<in> fst ` set xs"
    using Cons.prems by (intro Cons.IH) (meson list.set_intros(2))
  ultimately show ?case by (auto simp: x)
qed simp

lemma summary_empty_iff:
  assumes "add_all [] items = Inr s" "\<And>r n. (r, n) \<in> set items \<Longrightarrow> 0 < unat n"
  shows "(\<forall>r. count_of s r = weight items r) \<and> (s = [] \<longleftrightarrow> items = []) \<and> bt_wf s
    \<and> (\<forall>r. r \<in> fst ` set s \<longleftrightarrow> 0 < weight items r)"
proof -
  note c = counter_loop_Inr [OF assms(1) [unfolded add_all_counter] bt_wf_Nil]
  have wf: "bt_wf s" and n: "count_of s r = weight items r" for r
    using c [of r] by (simp_all add: count_of_def)
  have d: "r \<in> fst ` set s \<longleftrightarrow> r \<in> fst ` set items" for r
    using c [of r] bt_get_None_iff [of s r] by simp
  have p: "r \<in> fst ` set s \<longleftrightarrow> 0 < weight items r" for r
    unfolding d by (rule weight_pos [OF assms(2), symmetric])
  have "fst ` set s = fst ` set items" using d by (rule set_eqI)
  then have "s = [] \<longleftrightarrow> items = []" by (metis image_is_empty set_empty)
  then show ?thesis using wf n p by simp
qed

lemma verdict_reads_the_ledger:
  assumes b: "built_from (map components rs) registered rows sn"
    and k: "path_key_new (components s) = Some key" and o: "owning_root sn (components s) = Some root"
    and t: "trusted_root sn root" and nr: "root \<noteq> ''/''"
  shows "case verdict sn (components s) of
      Inl e \<Rightarrow> e = CountsOverflow \<and> (\<exists>r. 2 ^ 64 \<le> missed sn rows root key r)
    | Inr Complete \<Rightarrow> \<forall>r. missed sn rows root key r = 0
    | Inr (Incomplete found) \<Rightarrow> found \<noteq> [] \<and> (\<forall>r. count_of found r = missed sn rows root key r
        \<and> (r \<in> fst ` set found \<longleftrightarrow> missed sn rows root key r \<noteq> 0))
    | Inr Unknown \<Rightarrow> False"
proof -
  have agree: "sn_agrees sn" using t by (simp add: trusted_root_def)
  have w: "weight (verdict_items sn root key) = missed sn rows root key"
    by (rule ext) (rule items_weight [OF b agree o k nr])
  note v = verdict_trusted [OF k o t]
  show ?thesis
  proof (cases "add_all [] (verdict_items sn root key)")
    case (Inl e)
    then show ?thesis
      using counter_loop_Inl [of "[]" "verdict_items sn root key" e] by (simp add: v add_all_counter w count_of_def)
  next
    case (Inr found)
    from summary_empty_iff [OF Inr items_positive [OF b]]
    show ?thesis unfolding v Inr by (auto simp: w summary_is_empty_def)
  qed
qed


text \<open>
  The two classifiers cannot disagree: whenever the detailed verdict of a path is computed,
  a signature build asking for the path's disposition gets the very same answer, for every spelling of
  the path and under every root.
\<close>
theorem disposition_agrees:
  assumes "built_from (map components rs) registered rows sn" "verdict sn p = Inr v"
  shows "snapshot_disposition sn p = disposition_of v"
proof (cases "\<exists>key root. path_key_new p = Some key \<and> owning_root sn p = Some root \<and> trusted_root sn root")
  case True
  then obtain key root where t: "path_key_new p = Some key" "owning_root sn p = Some root" "trusted_root sn root" by blast
  have agree: "sn_agrees sn" using t(3) by (simp add: trusted_root_def)
  obtain found where f: "add_all [] (verdict_items sn root key) = Inr found"
      "v = (if summary_is_empty found then Complete else Incomplete found)"
    using assms(2) unfolding verdict_trusted [OF t] by (auto simp: result_simps)
  have "found = [] \<longleftrightarrow> \<not> omitted_at_or_under sn root key"
    using conjunct1 [OF conjunct2 [OF summary_empty_iff [OF f(1) items_positive [OF assms(1)]]]]
      items_Nil_iff [OF assms(1) agree, of root key] by simp
  then show ?thesis using t f(2) by (simp add: snapshot_disposition_def summary_is_empty_def)
next
  case False
  then show ?thesis
    using assms(2) by (auto simp: verdict_def snapshot_disposition_def split: option.splits if_splits)
qed

lemma fold_totals_concat: "fold_totals sn = add_all [] (concat (map (snd \<circ> snd) (sn_rows sn)))"
proof -
  have "rfold add_all s fs = add_all s (concat fs)" for s fs
    by (induction fs arbitrary: s) (simp_all add: add_all_append)
  then show ?thesis by (simp add: fold_totals_def)
qed

lemma totals_weight:
  assumes b: "built_from (map components rs) registered rows sn"
  shows "weight (concat (map (snd \<circ> snd) (sn_rows sn))) r = tally (\<lambda>_ _ r'. r' = r) (cells_of sn rows)"
proof -
  let ?L = "cells_of sn rows"
  have w: "bt_wf (sn_rows sn)" using built_facts(6) [OF b] by (simp add: holds_cells_def holds_summaries_def)
  have one: "weight (snd (snd x)) r = tally (\<lambda>_ d r'. d = fst x \<and> r' = r) ?L" if "x \<in> set (sn_rows sn)" for x
  proof -
    have "bt_get (sn_rows sn) (fst x) = Some (fst (snd x), snd (snd x))" using that w by (simp add: bt_get_Some_iff)
    from summary_weight [OF stored_summary(1) [OF b this]] show ?thesis .
  qed
  have "weight (concat (map (snd \<circ> snd) (sn_rows sn))) r =
      sum_list (map (\<lambda>d. tally (\<lambda>_ d' r'. d' = d \<and> r' = r) ?L) (map fst (sn_rows sn)))"
    by (simp add: weight_concat comp_def one cong: map_cong)
  also have "\<dots> = tally (\<lambda>_ d r'. d \<in> set (map fst (sn_rows sn)) \<and> r' = r) ?L"
    using tally_partition [OF bt_wf_distinct [OF w], of "\<lambda>_ _ r'. r' = r"] by simp
  also have "\<dots> = tally (\<lambda>_ _ r'. r' = r) ?L"
  proof (rule tally_cong)
    fix R d r' n assume "(R, d, r', n) \<in> set ?L"
    then have "d \<in> (\<lambda>c. fst (snd c)) ` set ?L" by force
    then have "d \<in> set (map fst (sn_rows sn))" using row_None_iff [OF b, of d] bt_get_None_iff [of "sn_rows sn" d] by simp
    then show "(d \<in> set (map fst (sn_rows sn)) \<and> r' = r) = (r' = r)" by simp
  qed
  finally show ?thesis .
qed


section \<open>From the walk to the verdict\<close>

text \<open>The rows the checkpoint stores for one root's counts.\<close>

definition stored_rows :: "path_key \<Rightarrow> i64 \<Rightarrow> omission_counts \<Rightarrow> stored_omission list" where
  "stored_rows root generation counts =
     map (\<lambda>(d, r, n). \<lparr>so_root_key = root, so_dir_key = d, so_reason = reason_as_str r,
       so_event_count = n, so_generation = generation\<rparr>) (counts_iter counts)"

definition walk_counts :: "(path_key \<times> omission_reason) list \<Rightarrow> ledger_error + omission_counts" where
  "walk_counts events = rfold (\<lambda>m (d, r). counts_bump d r m) counts_new events"

lemma walk_counts_loop:
  "rfold (\<lambda>m (d, r). counts_bump d r m) m events = rfold (\<lambda>m (k, n). counter_add k n m) m (map (\<lambda>e. (e, count_ONE)) events)"
  by (induction events arbitrary: m) (auto simp: counts_bump_def counts_add_counter)

lemma walk_counts_length:
  assumes "walk_counts events = Inr counts"
  shows "bt_wf counts" "count_of counts cell = length (filter ((=) cell) events)"
proof -
  have "weight (map (\<lambda>e. (e, count_ONE)) events) cell = length (filter ((=) cell) events)"
    by (induction events) (auto simp: count_ONE_def)
  then show "bt_wf counts" "count_of counts cell = length (filter ((=) cell) events)"
    using counter_loop_Inr [of "[]" "map (\<lambda>e. (e, count_ONE)) events" counts cell] assms
    by (simp_all add: walk_counts_def walk_counts_loop counts_new_def count_of_def)
qed

definition total :: "('k \<Rightarrow> bool) \<Rightarrow> ('k \<times> event_count) list \<Rightarrow> nat" where
  "total P m = sum_list (map (unat \<circ> snd) (filter (P \<circ> fst) m))"

lemma total_insert:
  "bt_wf m \<Longrightarrow>
     total P (bt_insert k t m) + (if P k then count_of m k else 0) = total P m + (if P k then unat t else 0)"
proof (induction k t m rule: bt_insert.induct)
  case (1 k v)
  then show ?case by (simp add: total_def count_of_def)
next
  case (2 k v k' v' m)
  have w: "bt_wf m" using "2.prems" by (simp add: bt_wf_def)
  show ?case
  proof (cases "k < k'")
    case True
    then have "bt_get ((k', v') # m) k = None"
      using "2.prems" by (fastforce simp: bt_get_None_iff bt_wf_def)
    then show ?thesis using True by (simp add: total_def count_of_def)
  next
    case False
    then show ?thesis
      using "2.IH" [OF False _ w] by (cases "k = k'") (auto simp: total_def count_of_def bt_get_def)
  qed
qed

lemma total_counter_add:
  assumes "counter_add k n m = Inr m'" "bt_wf m"
  shows "total P m' = total P m + (if P k then unat n else 0)"
proof -
  obtain t where "m' = bt_insert k t m" using assms(1) by (auto simp: counter_add_def result_simps)
  moreover from this have "unat t = count_of m k + unat n"
    using counter_add_Inr [OF assms, of k] bt.get_put [OF assms(2), of k t k] by (simp add: count_of_def)
  ultimately show ?thesis using total_insert [OF assms(2), of P k t] by (auto split: if_splits)
qed

lemma walk_counts_total:
  assumes "walk_counts events = Inr counts"
  shows "total P counts = length (filter P events)"
proof -
  have "total P m' = total P m + length (filter P es) \<and> bt_wf m'"
    if "rfold (\<lambda>m (k, n). counter_add k n m) m (map (\<lambda>e. (e, count_ONE)) es) = Inr m'" "bt_wf m" for m m' es
    using that
  proof (induction es arbitrary: m)
    case (Cons e es)
    obtain m1 where m1: "counter_add e count_ONE m = Inr m1"
      "rfold (\<lambda>m (k, n). counter_add k n m) m1 (map (\<lambda>e. (e, count_ONE)) es) = Inr m'"
      using Cons.prems(1) by (auto simp: result_simps)
    have "bt_wf m1" using counter_add_Inr [OF m1(1) Cons.prems(2)] by blast
    from Cons.IH [OF m1(2) this] total_counter_add [OF m1(1) Cons.prems(2), of P]
    show ?case by (simp add: count_ONE_def)
  qed simp
  from this [of "[]" events counts] assms show ?thesis
    by (simp add: walk_counts_def walk_counts_loop counts_new_def total_def)
qed

lemma tally_mono: "(\<And>root d r. P root d r \<Longrightarrow> Q root d r) \<Longrightarrow> tally P cs \<le> tally Q cs"
  by (induction cs) (auto intro: add_mono trans_le_add2)

lemma fold_cell_Inl:
  assumes "holds_cells L st" "fold_cell root d r n st = Inl e"
  shows "2 ^ 64 \<le> tally (\<lambda>_ _ _. True) (L @ [(root, d, r, n)])"
proof -
  obtain sentinels summaries where st: "st = (sentinels, summaries)" by force
  have le: "tally P L + unat n \<le> tally (\<lambda>_ _ _. True) (L @ [(root, d, r, n)])" for P
    using tally_mono [of P "\<lambda>_ _ _. True" L] by (simp add: tally_append)
  have slot: "holds_summary L d (snd (slot_of root d summaries))"
    using slot_holds [of L summaries d] assms(1) by (simp add: st holds_cells_def)
  have "counter_add root n sentinels = Inl e \<or> counter_add r n (snd (slot_of root d summaries)) = Inl e"
    using assms(2)
    by (auto simp: fold_cell_def st counter_add_def [of root] summary_add_counter slot_of_def Let_def rbind_eq_Inl split: if_splits)
  then show ?thesis
  proof
    assume "counter_add root n sentinels = Inl e"
    then show ?thesis using assms(1) le unfolding counter_add_Inl by (auto simp: holds_cells_def holds_sentinels_def st intro: order_trans)
  next
    assume "counter_add r n (snd (slot_of root d summaries)) = Inl e"
    then show ?thesis using slot le unfolding counter_add_Inl by (auto simp: holds_summary_def intro: order_trans)
  qed
qed

lemma fold_cells_Inl:
  "fold_cells st L = Inl e \<Longrightarrow> holds_cells L0 st \<Longrightarrow> 2 ^ 64 \<le> tally (\<lambda>_ _ _. True) (L0 @ L)"
proof (induction L arbitrary: st L0)
  case (Cons c L)
  obtain root d r n where c: "c = (root, d, r, n)" by (cases c) auto
  show ?case
  proof (cases "fold_cell root d r n st")
    case (Inl e')
    from fold_cell_Inl [OF Cons.prems(2) this] show ?thesis by (simp add: c tally_append)
  next
    case (Inr st1)
    have "holds_cells (L0 @ [c]) st1" using fold_cell_holds [OF Cons.prems(2) Inr] by (simp add: c)
    moreover have "fold_cells st1 L = Inl e" using Cons.prems(1) Inr by (simp add: fold_cells_def c)
    ultimately show ?thesis using Cons.IH [of st1 "L0 @ [c]"] by simp
  qed
qed (simp add: fold_cells_def)

lemma walk_counts_succeeds:
  assumes "length events < 2 ^ 63"
  obtains counts where "walk_counts events = Inr counts"
proof (cases "walk_counts events")
  case (Inl e)
  have "weight (map (\<lambda>e. (e, count_ONE)) es) k \<le> length es" for es :: "(path_key \<times> omission_reason) list" and k
    by (induction es) (auto simp: count_ONE_def)
  moreover obtain k where "2 ^ 64 \<le> weight (map (\<lambda>e. (e, count_ONE)) events) k"
    using counter_loop_Inl [of "[]" "map (\<lambda>e. (e, count_ONE)) events" e] Inl
    by (auto simp: walk_counts_def walk_counts_loop counts_new_def count_of_def)
  ultimately have "2 ^ 64 \<le> length events" by (meson order_trans)
  then show thesis using assms by simp
qed (rule that)

lemma walk_count_entry:
  assumes "walk_counts events = Inr counts" "length events < 2 ^ 63" "((d, r), n) \<in> set counts"
  shows "(d, r) \<in> set events" "0 < sint n"
proof -
  have g: "bt_get counts (d, r) = Some n"
    using assms(3) walk_counts_length(1) [OF assms(1)] by (simp add: bt_get_Some_iff)
  then show m: "(d, r) \<in> set events"
    using counter_loop_Inr [of "[]" "map (\<lambda>e. (e, count_ONE)) events" counts "(d, r)"] assms(1)
    by (auto simp: walk_counts_def walk_counts_loop counts_new_def)
  have n: "unat n = length (filter ((=) (d, r)) events)"
    using walk_counts_length(2) [OF assms(1), of "(d, r)"] g by (simp add: count_of_def)
  have "unat n \<noteq> 0" using n m by (auto simp: filter_empty_conv)
  moreover have "unat n < 2 ^ 63" using n assms(2) by (metis le_less_trans length_filter_le)
  ultimately have "sint n \<noteq> 0" "0 \<le> sint n" unfolding sint_eq_0_u64 sint_nonneg_iff by auto
  then show "0 < sint n" by linarith
qed

lemma stored_rows_cells:
  assumes "is_current g root gen"
  shows "live_cells g (stored_rows root gen counts) = map (\<lambda>((d, r), n). (root, d, r, n)) counts"
  using assms
  by (induction counts)
     (auto simp: stored_rows_def counts_iter_def live_cells_def live_cell_def List.map_filter_simps reason_code.dec_enc)

lemma tally_stored: "tally P (map (\<lambda>((d, r), n). (root, d, r, n)) counts) = total (\<lambda>(d, r). P root d r) counts"
  by (induction counts) (simp_all add: total_def case_prod_unfold tally_def)

lemma read_rows_stored:
  assumes "is_current g root gen" "key_ok root"
    and "\<And>d r n. ((d, r), n) \<in> set counts \<Longrightarrow> key_ok d \<and> is_at_or_under d root \<and> 0 < sint n"
  shows "rfold (read_row g) st (stored_rows root gen counts) =
     fold_cells st (map (\<lambda>((d, r), n). (root, d, r, n)) counts)"
  using assms(3)
proof (induction counts arbitrary: st)
  case (Cons c counts)
  obtain d r n where c: "c = ((d, r), n)" by (cases c) auto
  have d: "key_ok d" "is_at_or_under d root" "0 < sint n" using Cons.prems [of d r n] by (simp_all add: c)
  let ?row = "\<lparr>so_root_key = root, so_dir_key = d, so_reason = reason_as_str r, so_event_count = n, so_generation = gen\<rparr>"
  have "from_stored root = Inr root" "from_stored d = Inr d" using assms(2) d(1) by (simp_all add: from_stored_Inr_iff)
  then have "read_row g st ?row = fold_cell root d r n st"
    using assms(1) d by (simp add: read_row_def reason_code.dec_enc count_from_i64_def)
  moreover have "stored_rows root gen (c # counts) = ?row # stored_rows root gen counts"
    by (simp add: stored_rows_def counts_iter_def c)
  moreover have "rfold (read_row g) st' (stored_rows root gen counts) =
      fold_cells st' (map (\<lambda>((d, r), n). (root, d, r, n)) counts)" for st'
    using Cons.prems by (intro Cons.IH) (meson list.set_intros(2))
  ultimately show ?case by (simp add: c fold_cells_def)
qed (simp add: stored_rows_def counts_iter_def fold_cells_def)

lemma omissions_are_read_back:
  assumes root: "path_key_new (components rs) = Some root" and gen: "0 < sint g"
    and events: "\<forall>(d, r) \<in> set events. key_ok d \<and> is_at_or_under d root" and few: "length events < 2 ^ 63"
  shows "\<exists>counts sn. walk_counts events = Inr counts
    \<and> built_from [components rs] [(root, g)] (stored_rows root g counts) sn \<and> trusted_root sn root
    \<and> (\<forall>key r. missed sn (stored_rows root g counts) root key r =
          length (filter (\<lambda>(d, r'). r' = r \<and> (is_at_or_under d key \<or> r' = WalkError \<and> d = root)) events))"
proof -
  obtain counts where counts: "walk_counts events = Inr counts" using walk_counts_succeeds [OF few] .
  let ?g = "[(root, g)]" and ?rows = "stored_rows root g counts" and ?cells = "map (\<lambda>((d, r), n). (root, d, r, n)) counts"
  have ok: "key_ok root" using path_key_new_ok [OF root] by blast
  have cur: "is_current ?g root g" using gen by (simp add: is_current_def bt_get_def)
  have gens: "read_generation [] (root, g) = Inr ?g"
    using ok gen by (simp add: read_generation_def from_stored_Inr_iff [THEN iffD2])
  have read: "rfold (read_row ?g) st ?rows = fold_cells st ?cells" for st
    using events walk_count_entry [OF counts few] by (intro read_rows_stored [OF cur ok]) fastforce
  have "tally (\<lambda>_ _ _. True) ?cells = length events"
    using walk_counts_total [OF counts, of "\<lambda>(d, r). True"] by (simp only: tally_stored) simp
  then obtain st where st: "fold_cells ([], []) ?cells = Inr st"
    using fold_cells_Inl [OF _ holds_cells_Nil] few by (cases "fold_cells ([], []) ?cells") force+
  define sn where "sn = \<lparr>sn_configured = [root], sn_registered = ?g, sn_rows = snd st, sn_sentinels = fst st, sn_agrees = True\<rparr>"
  have "snapshot_build [components rs] [(root, g)] ?rows = Inr (Bounded sn)"
    using root by (simp add: snapshot_build_def keyed_roots_def gens read st sn_def roots_agree_def bt_get_def split: prod.split)
  moreover have "trusted_root sn root" using gen by (simp add: trusted_root_def sn_def bt_get_def)
  moreover have "missed sn ?rows root key r =
      length (filter (\<lambda>(d, r'). r' = r \<and> (is_at_or_under d key \<or> r' = WalkError \<and> d = root)) events)" for key r
    unfolding missed_def cells_of_def
    using walk_counts_total [OF counts, of "\<lambda>(d, r'). r' = r \<and> (is_at_or_under d key \<or> r' = WalkError \<and> d = root)"]
    by (simp add: sn_def stored_rows_cells [OF cur] tally_stored)
  ultimately show ?thesis using counts by (auto simp: built_from_def)
qed

text \<open>
  Nothing a walk left out is lost on the way to the reader. Whatever events a walk of a root
  recorded, counting them, storing one row per cell and building a snapshot from the rows succeeds,
  the root is trusted, and what a verdict counts for a directory is exactly the number of events at
  or below it, per reason, plus the walk errors at the root.
\<close>
theorem omissions_reach_the_verdict:
  assumes root: "path_key_new (components rs) = Some root" and gen: "0 < sint g"
    and events: "\<forall>(d, r) \<in> set events. key_ok d \<and> is_at_or_under d root" and few: "length events < 2 ^ 63"
  shows "\<exists>counts sn. walk_counts events = Inr counts
    \<and> built_from [components rs] [(root, g)] (stored_rows root g counts) sn \<and> trusted_root sn root
    \<and> (\<forall>key r. missed sn (stored_rows root g counts) root key r =
          length (filter (\<lambda>(d, r'). r' = r \<and> (is_at_or_under d key \<or> r' = WalkError \<and> d = root)) events))"
  by (rule omissions_are_read_back [OF assms])

section \<open>Concrete snapshots\<close>

definition sample_row :: "string \<Rightarrow> string \<Rightarrow> omission_reason \<Rightarrow> i64 \<Rightarrow> i64 \<Rightarrow> stored_omission" where
  "sample_row root d r n generation =
     \<lparr>so_root_key = root, so_dir_key = d, so_reason = reason_as_str r, so_event_count = n, so_generation = generation\<rparr>"

definition sample_rows :: "stored_omission list" where
  "sample_rows =
     [sample_row ''/tank'' ''/tank/a'' MinSize 3 2, sample_row ''/tank'' ''/tank/a-old'' MinSize 5 2,
      sample_row ''/tank'' ''/tank/a/b'' NonUtf8 4 2, sample_row ''/tank'' ''/tank'' WalkError 1 2,
      sample_row ''/tank'' ''/tank/a'' MaxSize 7 1]"

definition sample_snapshot :: completeness_snapshot where
  "sample_snapshot = \<lparr>sn_configured = [''/tank''], sn_registered = [(''/tank'', 2)],
     sn_rows = [(''/tank'', ''/tank'', [(WalkError, 1)]), (''/tank/a'', ''/tank'', [(MinSize, 3)]),
       (''/tank/a-old'', ''/tank'', [(MinSize, 5)]), (''/tank/a/b'', ''/tank'', [(NonUtf8, 4)])],
     sn_sentinels = [(''/tank'', 1)], sn_agrees = True\<rparr>"

lemma sample_snapshot_built: "built_from (map components [''/tank/'']) [(''/tank'', 2)] sample_rows sample_snapshot"
  unfolding built_from_def by code_simp


theorem disposition_agrees_witness:
  "snapshot_disposition sample_snapshot (components ''/tank/c'') = Suppressed"
proof -
  have "verdict sample_snapshot (components ''/tank/c'') = Inr (Incomplete [(WalkError, 1)])" by code_simp
  from disposition_agrees [OF sample_snapshot_built this] show ?thesis by simp
qed


theorem omissions_reach_the_verdict_witness:
  "\<exists>counts sn. walk_counts [(''/tank/a'', MinSize), (''/tank/a'', MinSize)] = Inr counts
    \<and> built_from [components ''/tank''] [(''/tank'', 1)] (stored_rows ''/tank'' 1 counts) sn
    \<and> missed sn (stored_rows ''/tank'' 1 counts) ''/tank'' ''/tank'' MinSize = 2"
proof -
  have k: "path_key_new (components ''/tank'') = Some ''/tank''" by code_simp
  have e: "\<forall>(d, r) \<in> set [(''/tank/a'', MinSize), (''/tank/a'', MinSize)]. key_ok d \<and> is_at_or_under d ''/tank''"
    by code_simp
  have n: "length (filter (\<lambda>(d, r'). r' = MinSize \<and> (is_at_or_under d ''/tank'' \<or> r' = WalkError \<and> d = ''/tank''))
      [(''/tank/a'', MinSize), (''/tank/a'', MinSize)]) = 2" by code_simp
  have g: "0 < sint (1 :: i64)" and few: "length [(''/tank/a'', MinSize), (''/tank/a'', MinSize)] < 2 ^ 63" by simp_all
  from omissions_reach_the_verdict [OF k g e few] obtain counts sn where
    "walk_counts [(''/tank/a'', MinSize), (''/tank/a'', MinSize)] = Inr counts"
    "built_from [components ''/tank''] [(''/tank'', 1)] (stored_rows ''/tank'' 1 counts) sn"
    and m: "\<And>key r. missed sn (stored_rows ''/tank'' 1 counts) ''/tank'' key r =
      length (filter (\<lambda>(d, r'). r' = r \<and> (is_at_or_under d key \<or> r' = WalkError \<and> d = ''/tank''))
        [(''/tank/a'', MinSize), (''/tank/a'', MinSize)])"
    by blast
  then show ?thesis using m [of "''/tank''" MinSize, unfolded n] by blast
qed

text \<open>
  Scanning the file system's own root, one recorded event is counted twice in the verdict of the root:
  its range of strict descendants \<open>["/", "0")\<close> holds the key \<open>"/"\<close> itself, whose row was already folded.
\<close>

definition root_snapshot :: completeness_snapshot where
  "root_snapshot = \<lparr>sn_configured = [''/''], sn_registered = [(''/'', 1)], sn_rows = [(''/'', ''/'', [(MinSize, 1)])],
     sn_sentinels = [], sn_agrees = True\<rparr>"

lemma root_verdict_counts_twice:
  "built_from [components ''/''] [(''/'', 1)] [sample_row ''/'' ''/'' MinSize 1 1] root_snapshot
   \<and> verdict root_snapshot (components ''/'') = Inr (Incomplete [(MinSize, 2)])"
  unfolding built_from_def by code_simp

end
