(* ===== verification/Scan_Roots.thy ===== *)
theory Scan_Roots
  imports Completeness_Props
begin

text \<open>
  \<open>pipeline/roots.rs\<close>: the roots of a scan. A set of roots that would make one directory tree visible
  twice is refused before the scan starts (\<open>validate\<close>), an alias met during the walk stops it
  (\<open>DirAliasGuard\<close>), and a root the walk could not enter is refused before either (\<open>look_at\<close>).
  What the file system answers is a parameter; a path compares by its components, as \<open>PathBuf\<close> does.
\<close>

datatype root_conflict = DuplicateSpelling | CanonicalAlias | ParentChild | SameObject

fun conflict_label :: "root_conflict \<Rightarrow> string" where
  "conflict_label DuplicateSpelling = ''duplicate spelling''"
| "conflict_label CanonicalAlias = ''canonical alias''"
| "conflict_label ParentChild = ''nested roots''"
| "conflict_label SameObject = ''same directory object''"

record resolved_root =
  rr_canonical :: path
  rr_device :: u64
  rr_inode :: u64

record root_descriptor =
  rd_given :: path
  rd_resolved :: "resolved_root option"

datatype reach = Walkable | Missing | Dangling | Unreachable nat | Unlistable nat | NotWalkable

datatype file_kind = IsDir | IsFile | IsOther

datatype roots_error =
    Conflict path path root_conflict
  | AliasSeen path path u64 u64
  | NotEntered path reach

definition describe :: "(path \<Rightarrow> path option) \<Rightarrow> (path \<Rightarrow> (u64 \<times> u64) option) \<Rightarrow> path list \<Rightarrow> root_descriptor list" where
  "describe canonicalize stat paths =
     map (\<lambda>given. \<lparr>rd_given = given,
       rd_resolved = Option.bind (canonicalize given) (\<lambda>canonical.
         map_option (\<lambda>(dev, ino). \<lparr>rr_canonical = canonical, rr_device = dev, rr_inode = ino\<rparr>) (stat canonical))\<rparr>) paths"

definition pair_conflict :: "root_descriptor \<Rightarrow> root_descriptor \<Rightarrow> root_conflict option" where
  "pair_conflict first second =
     (if rd_given first = rd_given second then Some DuplicateSpelling
      else case (rd_resolved first, rd_resolved second) of
        (Some one, Some other) \<Rightarrow>
          if rr_canonical one = rr_canonical other then Some CanonicalAlias
          else if (rr_device one, rr_inode one) = (rr_device other, rr_inode other) then Some SameObject
          else if starts_with (rr_canonical one) (rr_canonical other) \<or> starts_with (rr_canonical other) (rr_canonical one)
            then Some ParentChild
          else None
      | _ \<Rightarrow> None)"

fun against_rest :: "root_descriptor \<Rightarrow> root_descriptor list \<Rightarrow> roots_error + unit" where
  "against_rest first [] = Inr ()"
| "against_rest first (second # rest) =
     (case pair_conflict first second of
        Some class \<Rightarrow> Inl (Conflict (rd_given first) (rd_given second) class)
      | None \<Rightarrow> against_rest first rest)"

fun validate :: "root_descriptor list \<Rightarrow> roots_error + unit" where
  "validate [] = Inr ()"
| "validate (first # rest) = rbind (against_rest first rest) (\<lambda>_. validate rest)"

definition ensure_disjoint :: "(path \<Rightarrow> path option) \<Rightarrow> (path \<Rightarrow> (u64 \<times> u64) option) \<Rightarrow> path list \<Rightarrow> roots_error + unit" where
  "ensure_disjoint canonicalize stat paths = validate (describe canonicalize stat paths)"

text \<open>
  \<open>metadata\<close> follows links and answers the kind or an error number (2 is \<open>ENOENT\<close>),
  \<open>symlink_metadata\<close> whether the name exists at all, \<open>list\<close> whether the directory can be read.
\<close>

record root_view =
  rv_metadata :: "path \<Rightarrow> nat + file_kind"
  rv_symlink_metadata :: "path \<Rightarrow> bool"
  rv_list :: "path \<Rightarrow> nat + unit"

definition look_at :: "root_view \<Rightarrow> path \<Rightarrow> reach" where
  "look_at v p =
     (case rv_metadata v p of
        Inl err \<Rightarrow> if err \<noteq> 2 then Unreachable err else if rv_symlink_metadata v p then Dangling else Missing
      | Inr IsDir \<Rightarrow> (case rv_list v p of Inr _ \<Rightarrow> Walkable | Inl err \<Rightarrow> Unlistable err)
      | Inr IsFile \<Rightarrow> Walkable
      | Inr IsOther \<Rightarrow> NotWalkable)"

definition refusal :: "path \<Rightarrow> reach \<Rightarrow> roots_error option" where
  "refusal p r = (if r = Walkable then None else Some (NotEntered p r))"

fun ensure_reachable :: "root_view \<Rightarrow> path list \<Rightarrow> roots_error + unit" where
  "ensure_reachable v [] = Inr ()"
| "ensure_reachable v (p # ps) =
     (case refusal p (look_at v p) of Some e \<Rightarrow> Inl e | None \<Rightarrow> ensure_reachable v ps)"

text \<open>\<open>DirAliasGuard\<close>: the directories the walk has seen, by physical identity.\<close>

type_synonym alias_guard = "(u64 \<times> u64) \<Rightarrow> path option"

definition note_dir :: "alias_guard \<Rightarrow> path \<Rightarrow> u64 \<Rightarrow> u64 \<Rightarrow> roots_error + alias_guard" where
  "note_dir g p device inode =
     (case g (device, inode) of
        None \<Rightarrow> Inr (g((device, inode) \<mapsto> p))
      | Some q \<Rightarrow> if q = p then Inr g else Inl (AliasSeen q p device inode))"

section \<open>What an accepted set of roots is\<close>

text \<open>Two roots can be told apart: the specification of one accepted pair.\<close>

definition apart_roots :: "root_descriptor \<Rightarrow> root_descriptor \<Rightarrow> bool" where
  "apart_roots a b \<longleftrightarrow>
     rd_given a \<noteq> rd_given b \<and>
     (\<forall>ra rb. rd_resolved a = Some ra \<longrightarrow> rd_resolved b = Some rb \<longrightarrow>
        (rr_device ra, rr_inode ra) \<noteq> (rr_device rb, rr_inode rb)
        \<and> \<not> prefix (rr_canonical ra) (rr_canonical rb) \<and> \<not> prefix (rr_canonical rb) (rr_canonical ra))"

lemma pair_conflict_None_iff: "pair_conflict a b = None \<longleftrightarrow> apart_roots a b"
  by (auto simp: pair_conflict_def apart_roots_def starts_with_def split: option.splits)

lemma apart_roots_sym: "apart_roots a b \<longleftrightarrow> apart_roots b a"
  by (auto simp: apart_roots_def)

lemma against_rest_Inr: "against_rest a rest = Inr u \<longleftrightarrow> (\<forall>b \<in> set rest. apart_roots a b)"
  by (induction rest) (auto simp: pair_conflict_None_iff [symmetric] split: option.splits)

lemma against_rest_Inl:
  "against_rest a rest = Inl e \<Longrightarrow> \<exists>b \<in> set rest. \<exists>c. pair_conflict a b = Some c \<and> e = Conflict (rd_given a) (rd_given b) c"
  by (induction rest) (auto split: option.splits)

lemma validate_Inr: "validate roots = Inr u \<longleftrightarrow> sorted_wrt apart_roots roots"
  by (induction roots) (auto simp: result_simps against_rest_Inr)

lemma validate_Inl:
  "validate roots = Inl e \<Longrightarrow>
     \<exists>i j c. i < j \<and> j < length roots \<and> pair_conflict (roots ! i) (roots ! j) = Some c
       \<and> e = Conflict (rd_given (roots ! i)) (rd_given (roots ! j)) c"
proof (induction roots)
  case (Cons a rest)
  show ?case
  proof (cases "against_rest a rest")
    case (Inl e')
    then obtain b c where b: "b \<in> set rest" "pair_conflict a b = Some c" "e = Conflict (rd_given a) (rd_given b) c"
      using Cons.prems against_rest_Inl [OF Inl] by auto
    then obtain j where "j < length rest" "rest ! j = b" by (auto simp: in_set_conv_nth)
    then show ?thesis using b by (intro exI [of _ 0] exI [of _ "Suc j"]) auto
  next
    case (Inr u)
    then obtain i j c where "i < j" "j < length rest" "pair_conflict (rest ! i) (rest ! j) = Some c"
      "e = Conflict (rd_given (rest ! i)) (rd_given (rest ! j)) c"
      using Cons by auto
    then show ?thesis by (intro exI [of _ "Suc i"] exI [of _ "Suc j"]) auto
  qed
qed simp

lemma sorted_apart_permuted:
  assumes "mset xs = mset ys" "sorted_wrt apart_roots xs"
  shows "sorted_wrt apart_roots ys"
proof -
  have irr: "\<not> apart_roots a a" for a by (simp add: apart_roots_def)
  have dx: "distinct xs" using assms(2) irr by (induction xs) auto
  then have "distinct ys" using assms(1) by (metis mset_eq_imp_distinct_iff)
  have set: "set xs = set ys" using assms(1) by (metis set_mset_mset)
  have "apart_roots a b" if "a \<in> set xs" "b \<in> set xs" "a \<noteq> b" for a b
    using that assms(2) apart_roots_sym by (induction xs) auto
  then show ?thesis
    using \<open>distinct ys\<close> unfolding set by (induction ys) auto
qed

text \<open>
  What a scan accepts as its roots: no two given alike, and of any two that resolve, neither
  the same directory under two names nor one inside the other; a refusal names two of the given roots
  and a conflict they really have. The order in which the roots were selected decides nothing.
\<close>
theorem accepted_roots:
  assumes "mset roots = mset roots'"
  shows "(validate roots = Inr () \<longleftrightarrow> sorted_wrt apart_roots roots)
    \<and> (validate roots = Inr () \<longleftrightarrow> validate roots' = Inr ())
    \<and> (case validate roots of Inr _ \<Rightarrow> True
       | Inl e \<Rightarrow> \<exists>i j c. i < j \<and> j < length roots \<and> pair_conflict (roots ! i) (roots ! j) = Some c
           \<and> e = Conflict (rd_given (roots ! i)) (rd_given (roots ! j)) c)"
  using sorted_apart_permuted [OF assms] sorted_apart_permuted [OF assms [symmetric]] validate_Inl [of roots]
  unfolding validate_Inr by (auto split: sum.split)

definition sample_roots :: "root_descriptor list" where
  "sample_roots = [\<lparr>rd_given = components ''/tank/a'', rd_resolved = Some \<lparr>rr_canonical = components ''/tank/a'', rr_device = 1, rr_inode = 5\<rparr>\<rparr>,
     \<lparr>rd_given = components ''/tank/ab'', rd_resolved = Some \<lparr>rr_canonical = components ''/tank/ab'', rr_device = 1, rr_inode = 6\<rparr>\<rparr>]"

theorem accepted_roots_witness:
  "validate (rev sample_roots) = Inr () \<and> validate sample_roots = Inr ()"
proof -
  have "validate sample_roots = Inr ()" by code_simp
  moreover have "mset sample_roots = mset (rev sample_roots)" by simp
  ultimately show ?thesis using accepted_roots [of sample_roots "rev sample_roots"] by blast
qed

text \<open>
  The comparison of the given spellings is by components, so a trailing slash is reported as a
  duplicate spelling.
\<close>

lemma trailing_slash_is_duplicate_spelling:
  "pair_conflict \<lparr>rd_given = components ''/tank/'', rd_resolved = r\<rparr> \<lparr>rd_given = components ''/tank'', rd_resolved = r'\<rparr> =
     Some DuplicateSpelling"
  by (simp add: pair_conflict_def) code_simp

section \<open>Roots and the completeness ledger\<close>

lemma overlapping_NoneI: "sorted_wrt (\<lambda>a b. \<not> is_at_or_under b a \<and> \<not> is_at_or_under a b) ks \<Longrightarrow> overlapping ks = None"
  by (induction ks) (auto simp: find_None_iff split: option.splits)

text \<open>
  An accepted set of roots can be spoken for: when every selected root is spelled as its own
  canonical path and the set was accepted, no two of their keys overlap, so the snapshot of the
  completeness ledger never has to say that its roots are ambiguous.
\<close>
theorem accepted_roots_unambiguous:
  assumes "ensure_disjoint canonicalize stat (map components rs) = Inr ()"
    and "\<forall>s \<in> set rs. canonicalize (components s) = Some (components s) \<and> stat (components s) \<noteq> None"
  shows "\<forall>outer inner. snapshot_build (map components rs) registered rows \<noteq> Inr (Unavailable (AmbiguousRoots outer inner))"
proof (cases "keyed_roots (map components rs)")
  case (Inl why)
  then obtain r where "why = UnkeyableRoot r" by (auto simp: keyed_roots_def result_simps elim!: rmap_InlE)
  then show ?thesis using Inl by (simp add: snapshot_build_def)
next
  case (Inr ks)
  then have ks: "list_all2 (\<lambda>s k. path_key_new (components s) = Some k) rs ks"
    by (simp add: keyed_roots_def result_simps list_all2_map1)
  have "overlapping ks = None"
  proof (rule overlapping_NoneI, unfold sorted_wrt_iff_nth_less, intro allI impI)
    fix i j assume ij: "i < j" "j < length ks"
    then have len: "i < length rs" "j < length rs" using ks by (auto dest: list_all2_lengthD)
    have k: "key_ok (ks ! i) \<and> components (ks ! i) = components (rs ! i)"
      "key_ok (ks ! j) \<and> components (ks ! j) = components (rs ! j)"
      using path_key_new_ok list_all2_nthD [OF ks] len by blast+
    obtain a b where r: "canonicalize (components (rs ! i)) = Some (components (rs ! i))" "stat (components (rs ! i)) = Some a"
      "canonicalize (components (rs ! j)) = Some (components (rs ! j))" "stat (components (rs ! j)) = Some b"
      using assms(2) len by (meson not_None_eq nth_mem)
    have "apart_roots (describe canonicalize stat (map components rs) ! i) (describe canonicalize stat (map components rs) ! j)"
      using assms(1) ij len by (simp add: ensure_disjoint_def validate_Inr sorted_wrt_iff_nth_less describe_def)
    then have "\<not> prefix (components (rs ! i)) (components (rs ! j))" "\<not> prefix (components (rs ! j)) (components (rs ! i))"
      using len r by (auto simp: describe_def apart_roots_def case_prod_unfold)
    then show "\<not> is_at_or_under (ks ! j) (ks ! i) \<and> \<not> is_at_or_under (ks ! i) (ks ! j)"
      using k by (simp add: is_at_or_under_iff)
  qed
  then show ?thesis
    using Inr by (auto simp: snapshot_build_def result_simps split: if_splits prod.splits)
qed

theorem accepted_roots_unambiguous_witness:
  "snapshot_build (map components [''/tank/a'', ''/tank/ab'']) [] [] \<noteq> Inr (Unavailable (AmbiguousRoots ''/tank/a'' ''/tank/ab''))"
proof -
  define stat where "stat = (\<lambda>p. if p = components ''/tank/a'' then Some (1 :: u64, 5 :: u64) else Some (1, 6))"
  have "ensure_disjoint Some stat (map components [''/tank/a'', ''/tank/ab'']) = Inr ()"
    unfolding stat_def by code_simp
  from accepted_roots_unambiguous [OF this] show ?thesis by (simp add: stat_def)
qed

section \<open>Aliases met by the walk\<close>

definition note_all :: "(path \<times> u64 \<times> u64) list \<Rightarrow> roots_error + alias_guard" where
  "note_all dirs = rfold (\<lambda>g (p, dev, ino). note_dir g p dev ino) (\<lambda>_. None) dirs"

lemma note_all_Inr:
  assumes "rfold (\<lambda>g (p, dev, ino). note_dir g p dev ino) g dirs = Inr g'"
  shows "(\<forall>k q. g k = Some q \<longrightarrow> g' k = Some q) \<and> (\<forall>(p, dev, ino) \<in> set dirs. g' (dev, ino) = Some p)"
  using assms
proof (induction dirs arbitrary: g)
  case (Cons d dirs)
  obtain p dev ino where d: "d = (p, dev, ino)" by (cases d) auto
  obtain g1 where g1: "note_dir g p dev ino = Inr g1" "rfold (\<lambda>g (p, dev, ino). note_dir g p dev ino) g1 dirs = Inr g'"
    using Cons.prems by (auto simp: d result_simps)
  have "g1 (dev, ino) = Some p" "g k = Some q \<Longrightarrow> g1 k = Some q" for k q
    using g1(1) by (auto simp: note_dir_def split: option.splits if_splits)
  then show ?case using Cons.IH [OF g1(2)] by (auto simp: d)
qed simp

lemma note_all_Inl:
  assumes "rfold (\<lambda>g (p, dev, ino). note_dir g p dev ino) g dirs = Inl e" and "\<forall>k q. g k = Some q \<longrightarrow> (q, k) \<in> set seen"
  shows "\<exists>p q dev ino. e = AliasSeen q p dev ino \<and> p \<noteq> q \<and> (p, dev, ino) \<in> set dirs \<and> (q, dev, ino) \<in> set (seen @ dirs)"
  using assms
proof (induction dirs arbitrary: g seen)
  case (Cons d dirs)
  obtain p dev ino where d: "d = (p, dev, ino)" by (cases d) auto
  show ?case
  proof (cases "note_dir g p dev ino")
    case (Inl e')
    then show ?thesis
      using Cons.prems by (fastforce simp: d note_dir_def split: option.splits if_splits)
  next
    case (Inr g1)
    then have "\<forall>k q. g1 k = Some q \<longrightarrow> (q, k) \<in> set (seen @ [d])"
      using Cons.prems(2) by (auto simp: d note_dir_def split: option.splits if_splits)
    moreover have "rfold (\<lambda>g (p, dev, ino). note_dir g p dev ino) g1 dirs = Inl e" using Cons.prems(1) Inr by (simp add: d)
    ultimately show ?thesis using Cons.IH [of g1 "seen @ [d]"] by (auto simp: d)
  qed
qed simp

text \<open>
  The walk never sees one directory under two names: it goes on exactly as long as no
  directory object it entered has two pathnames, and when it stops it names two different pathnames it
  really met for one object. Meeting the same pathname again is no reason to stop.
\<close>
theorem walk_sees_each_directory_once:
  "case note_all dirs of
     Inr _ \<Rightarrow> \<forall>p q dev ino. (p, dev, ino) \<in> set dirs \<longrightarrow> (q, dev, ino) \<in> set dirs \<longrightarrow> p = q
   | Inl e \<Rightarrow> \<exists>p q dev ino. e = AliasSeen q p dev ino \<and> p \<noteq> q \<and> (p, dev, ino) \<in> set dirs \<and> (q, dev, ino) \<in> set dirs"
proof (cases "note_all dirs")
  case (Inl e)
  then show ?thesis using note_all_Inl [of "\<lambda>_. None" dirs e "[]"] by (simp add: note_all_def)
next
  case (Inr g)
  then have g: "g (dev, ino) = Some p" if "(p, dev, ino) \<in> set dirs" for p dev ino
    using note_all_Inr [of "\<lambda>_. None" dirs g] that by (auto simp: note_all_def)
  show ?thesis
    unfolding Inr sum.case
  proof (intro allI impI)
    fix p q dev ino assume "(p, dev, ino) \<in> set dirs" "(q, dev, ino) \<in> set dirs"
    from g [OF this(1)] g [OF this(2)] show "p = q" by simp
  qed
qed

theorem walk_sees_each_directory_once_witness:
  "isl (note_all [(components ''/tank/a'', 1, 5), (components ''/tank/b'', 1, 5)])"
proof (cases "note_all [(components ''/tank/a'', 1, 5), (components ''/tank/b'', 1, 5)]")
  case (Inr g)
  moreover have "components ''/tank/a'' \<noteq> components ''/tank/b''" by code_simp
  ultimately show ?thesis
    using walk_sees_each_directory_once [of "[(components ''/tank/a'', 1, 5), (components ''/tank/b'', 1, 5)]"] by auto
qed simp

end
