(* ===== verification/Duplicates.thy ===== *)
theory Duplicates
  imports Actions Reclaim Ordered_Map
begin

text \<open>
  \<open>model/duplicate.rs\<close>, first part: a file of a duplicate group, the group, and what the pathnames of
  a group say about the allocations behind them. The hash map of the source is the ordered map of
  \<open>Ordered_Map\<close>: its contents are sorted by representative before anything is judged, so its
  iteration order never shows.
\<close>

record file_entry =
  fe_path :: path
  fe_size :: u64
  fe_mtime :: i64
  fe_mtime_nsec :: i64
  fe_ctime_sec :: i64
  fe_ctime_nsec :: i64
  fe_device :: u64
  fe_inode :: u64
  fe_nlink :: u64
  fe_is_keeper :: bool
  fe_action :: "action_kind option"

definition same_physical :: "file_entry \<Rightarrow> file_entry \<Rightarrow> bool" where
  "same_physical a b \<longleftrightarrow> fe_device a = fe_device b \<and> fe_inode a = fe_inode b"

type_synonym object_key = "u64 \<times> u64 \<times> u64 \<times> i64 \<times> i64 \<times> i64 \<times> i64"

definition object_key :: "file_entry \<Rightarrow> object_key" where
  "object_key f = (fe_device f, fe_inode f, fe_size f, fe_mtime f, fe_mtime_nsec f, fe_ctime_sec f, fe_ctime_nsec f)"

record duplicate_group =
  dg_id :: nat
  dg_size_bytes :: u64
  dg_hash :: string
  dg_files :: "file_entry list"

record object_evidence =
  oe_representative :: path
  oe_observed :: u64
  oe_low :: link_count
  oe_high :: link_count

datatype duplicate_error = TooManyPathnames | ReclaimRefused reclaim_error

definition note_alias :: "object_evidence \<Rightarrow> file_entry \<Rightarrow> duplicate_error + object_evidence" where
  "note_alias seen f =
     (let links = links_from_u64 (fe_nlink f) in
      rbind (ok_or TooManyPathnames (checked_add (oe_observed seen) 1)) (\<lambda>observed.
      Inr \<lparr>oe_representative = (if fe_path f < oe_representative seen then fe_path f else oe_representative seen),
           oe_observed = observed,
           oe_low = (if links_to_u64 links < links_to_u64 (oe_low seen) then links else oe_low seen),
           oe_high = (if links_to_u64 links > links_to_u64 (oe_high seen) then links else oe_high seen)\<rparr>))"

definition note_file :: "(object_key \<times> object_evidence) list \<Rightarrow> file_entry
    \<Rightarrow> duplicate_error + (object_key \<times> object_evidence) list" where
  "note_file objs f =
     (case bt_get objs (object_key f) of
        Some seen \<Rightarrow> rbind (note_alias seen f) (\<lambda>e. Inr (bt_insert (object_key f) e objs))
      | None \<Rightarrow>
          let links = links_from_u64 (fe_nlink f) in
          Inr (bt_insert (object_key f)
            \<lparr>oe_representative = fe_path f, oe_observed = 1, oe_low = links, oe_high = links\<rparr> objs))"

definition physical_reclaim :: "duplicate_group \<Rightarrow> duplicate_error + group_reclaim" where
  "physical_reclaim g =
     rbind (rfold note_file [] (dg_files g)) (\<lambda>objs.
     let evidence = sort_key oe_representative (map snd objs);
         named = (case evidence of [] \<Rightarrow> [] | first # _ \<Rightarrow> oe_representative first) in
     rbind (rmap (\<lambda>obj. map_err ReclaimRefused
               (rbind (agreed (oe_low obj) (oe_high obj) (oe_representative obj))
                 (\<lambda>links. Inr \<lparr>ol_observed = oe_observed obj, ol_links = links\<rparr>))) evidence) (\<lambda>links.
     map_err ReclaimRefused (of_objects (dg_size_bytes g) links named)))"

section \<open>What the fold holds\<close>

definition evidence_of :: "file_entry list \<Rightarrow> object_evidence" where
  "evidence_of fs = \<lparr>oe_representative = Min (fe_path ` set fs), oe_observed = of_nat (length fs),
     oe_low = links_from_u64 (Min (fe_nlink ` set fs)), oe_high = links_from_u64 (Max (fe_nlink ` set fs))\<rparr>"

lemma links_to_from_u64 [simp]: "links_to_u64 (links_from_u64 v) = v"
  by (simp add: links_from_u64_def)

lemma if_less_min: "(if a < b then F a else F b) = F (min a b)" for a b :: "'a::linorder"
  by (auto simp: min_def)

lemma if_greater_max: "(if b < a then F a else F b) = F (max a b)" for a b :: "'a::linorder"
  by (auto simp: max_def)

lemma note_alias_evidence:
  assumes "fs \<noteq> []" "length fs + 1 < 2 ^ 64"
  shows "note_alias (evidence_of fs) f = Inr (evidence_of (fs @ [f]))"
proof -
  have m: "Min (fe_path ` set (fs @ [f])) = min (fe_path f) (Min (fe_path ` set fs))"
    "Min (fe_nlink ` set (fs @ [f])) = min (fe_nlink f) (Min (fe_nlink ` set fs))"
    "Max (fe_nlink ` set (fs @ [f])) = max (fe_nlink f) (Max (fe_nlink ` set fs))"
    using assms(1) by simp_all
  have n: "unat (of_nat (length fs) :: u64) = length fs" using assms(2) by (intro unat_of_nat_u64) simp
  have n': "unat (of_nat (length fs + 1) :: u64) = length fs + 1" using assms(2) by (rule unat_of_nat_u64)
  have c: "checked_add (of_nat (length fs)) 1 = Some (of_nat (length fs + 1))"
    unfolding checked_add_Some_iff n n' by simp
  show ?thesis
    by (simp only: note_alias_def evidence_of_def Let_def c ok_or_simps rbind_Inr m links_to_from_u64
        object_evidence.simps if_less_min [of _ _ "\<lambda>x. x"] if_less_min [of _ _ links_from_u64]
        if_greater_max [of _ _ links_from_u64] length_append list.size One_nat_def add_0)
qed

definition aliases :: "file_entry list \<Rightarrow> object_key \<Rightarrow> file_entry list" where
  "aliases fs k = filter (\<lambda>f. object_key f = k) fs"

definition held :: "file_entry list \<Rightarrow> object_key \<Rightarrow> object_evidence option" where
  "held fs k = (if aliases fs k = [] then None else Some (evidence_of (aliases fs k)))"

definition objects_of :: "file_entry list \<Rightarrow> (object_key \<times> object_evidence) list \<Rightarrow> bool" where
  "objects_of fs objs \<longleftrightarrow> bt_wf objs \<and> bt_get objs = held fs"

lemma objects_of_wf: "objects_of fs objs \<Longrightarrow> bt_wf objs"
  by (simp add: objects_of_def)

lemma objects_of_get: "objects_of fs objs \<Longrightarrow> bt_get objs k = held fs k"
  by (simp add: objects_of_def)

lemma aliases_snoc: "aliases (fs @ [f]) k = (if object_key f = k then aliases fs k @ [f] else aliases fs k)"
  by (simp add: aliases_def)

lemma note_file_objects:
  assumes o: "objects_of fs objs" and few: "length fs + 1 < 2 ^ 64"
  obtains objs' where "note_file objs f = Inr objs'" "objects_of (fs @ [f]) objs'"
proof -
  have "length (aliases fs (object_key f)) \<le> length fs" by (simp add: aliases_def)
  with few have len: "length (aliases fs (object_key f)) + 1 < 2 ^ 64" by linarith
  have "note_file objs f = Inr (bt_insert (object_key f) (evidence_of (aliases fs (object_key f) @ [f])) objs)"
    by (cases "aliases fs (object_key f) = []")
       (simp_all add: note_file_def objects_of_get [OF o] held_def Let_def note_alias_evidence [OF _ len], simp add: evidence_of_def)
  moreover have "objects_of (fs @ [f]) (bt_insert (object_key f) (evidence_of (aliases fs (object_key f) @ [f])) objs)"
    unfolding objects_of_def
  proof
    show "bt_wf (bt_insert (object_key f) (evidence_of (aliases fs (object_key f) @ [f])) objs)"
      using objects_of_wf [OF o] by (rule bt.wf_put)
    show "bt_get (bt_insert (object_key f) (evidence_of (aliases fs (object_key f) @ [f])) objs) = held (fs @ [f])"
      by (rule ext) (simp add: bt.get_put [OF objects_of_wf [OF o]] held_def aliases_snoc objects_of_get [OF o])
  qed
  ultimately show thesis by (rule that)
qed

lemma note_files_objects:
  "objects_of gs objs \<Longrightarrow> length gs + length fs < 2 ^ 64 \<Longrightarrow>
     \<exists>objs'. rfold note_file objs fs = Inr objs' \<and> objects_of (gs @ fs) objs'"
proof (induction fs arbitrary: gs objs)
  case (Cons f fs)
  obtain objs1 where o: "note_file objs f = Inr objs1" "objects_of (gs @ [f]) objs1"
    using note_file_objects [OF Cons.prems(1)] Cons.prems(2) by auto
  show ?case using Cons.IH [OF o(2)] Cons.prems(2) by (simp add: o(1))
qed simp

lemma sum_list_of_nat: "sum_list (map (\<lambda>x. of_nat (f x)) xs) = (of_nat (sum_list (map f xs)) :: u64)"
  by (induction xs) simp_all

lemma sum_length_filter:
  "distinct ks \<Longrightarrow> key ` set xs \<subseteq> set ks \<Longrightarrow> sum_list (map (\<lambda>k. length (filter (\<lambda>x. key x = k) xs)) ks) = length xs"
proof (induction xs)
  case (Cons x xs)
  have "sum_list (map (\<lambda>k. length (filter (\<lambda>y. key y = k) (x # xs))) ks) =
      sum_list (map (\<lambda>k. (if k = key x then 1 else 0) + length (filter (\<lambda>y. key y = k) xs)) ks)"
    by (intro arg_cong [where f = sum_list] map_cong) auto
  also have "\<dots> = sum_list (map (\<lambda>k. if k = key x then 1 else 0) ks) + length xs"
    using Cons by (simp add: sum_list_addf)
  also have "sum_list (map (\<lambda>k. if k = key x then (1::nat) else 0) ks) = 1"
  proof -
    have "sum_list (map (\<lambda>k. if k = key x then (1::nat) else 0) ks) = (\<Sum>k\<in>set ks. if k = key x then 1 else 0)"
      using Cons.prems(1) by (rule sum_list_distinct_conv_sum_set)
    then show ?thesis using Cons.prems(2) by simp
  qed
  finally show ?case by simp
qed simp

lemma objects_read:
  assumes "length fs < 2 ^ 64"
  obtains objs where "rfold note_file [] fs = Inr objs" "objects_of fs objs"
proof -
  have "bt_get [] = held []" by (rule ext) (simp add: held_def aliases_def)
  then have "objects_of [] []" by (simp add: objects_of_def)
  from note_files_objects [OF this] assms that show thesis by auto
qed

lemma aliases_Nil_iff: "aliases fs k = [] \<longleftrightarrow> k \<notin> object_key ` set fs"
  unfolding aliases_def filter_empty_conv image_iff by blast

lemma objects_of_member:
  assumes o: "objects_of fs objs" and "(k, e) \<in> set objs"
  shows "e = evidence_of (aliases fs k) \<and> k \<in> object_key ` set fs"
proof -
  have "bt_get objs k = Some e" using assms(2) objects_of_wf [OF o] by (simp only: bt_get_Some_iff)
  then show ?thesis
    unfolding objects_of_get [OF o] held_def aliases_Nil_iff by (simp only: split: if_splits) simp_all
qed

lemma objects_of_keys:
  assumes o: "objects_of fs objs"
  shows "set (map fst objs) = object_key ` set fs"
proof (rule set_eqI)
  fix k
  have "k \<notin> fst ` set objs \<longleftrightarrow> k \<notin> object_key ` set fs"
    unfolding bt_get_None_iff [symmetric] objects_of_get [OF o] held_def aliases_Nil_iff by (simp only: split: if_splits) simp
  then show "k \<in> set (map fst objs) \<longleftrightarrow> k \<in> object_key ` set fs" by (simp only: set_map) blast
qed

lemma evidence_of_permuted: "mset fs = mset gs \<Longrightarrow> evidence_of fs = evidence_of gs"
  using mset_eq_setD [of fs gs] mset_eq_length [of fs gs] by (simp add: evidence_of_def)

lemma objects_of_permuted:
  assumes o: "objects_of fs objs" "objects_of gs objs'" and "mset fs = mset gs"
  shows "objs = objs'"
proof (rule bt_wf_eqI)
  show "bt_wf objs" "bt_wf objs'" using o by (simp_all add: objects_of_def)
  fix k
  have m: "mset (aliases fs k) = mset (aliases gs k)" using assms(3) by (simp add: aliases_def mset_filter)
  then have "aliases fs k = [] \<longleftrightarrow> aliases gs k = []" by (metis mset_zero_iff)
  then show "bt_get objs k = bt_get objs' k"
    unfolding objects_of_get [OF o(1)] objects_of_get [OF o(2)] held_def evidence_of_permuted [OF m] by simp
qed

lemma physical_reclaim_Inr:
  assumes "physical_reclaim g = Inr r" "objects_of (dg_files g) objs" "rfold note_file [] (dg_files g) = Inr objs"
  shows "gr_object_count r = len_u64 objs"
    "gr_observed_paths r = sum_list (map (oe_observed \<circ> snd) objs)"
    "(k, e) \<in> set objs \<Longrightarrow> oe_low e = oe_high e"
proof -
  define evidence where "evidence = sort_key oe_representative (map snd objs)"
  obtain links named where l: "rmap (\<lambda>obj. map_err ReclaimRefused
               (rbind (agreed (oe_low obj) (oe_high obj) (oe_representative obj))
                 (\<lambda>links. Inr \<lparr>ol_observed = oe_observed obj, ol_links = links\<rparr>))) evidence = Inr links"
    "of_objects (dg_size_bytes g) links named = Inr r"
    using assms(1,3) by (auto simp: physical_reclaim_def evidence_def Let_def result_simps)
  have l2: "list_all2 (\<lambda>obj l. oe_low obj = oe_high obj \<and> ol_observed l = oe_observed obj) evidence links"
    using l(1) by (auto simp: result_simps agreed_def split: if_splits elim!: list_all2_mono)
  have len: "length links = length objs" using list_all2_lengthD [OF l2] by (simp add: evidence_def)
  have obs: "map ol_observed links = map oe_observed evidence" using l2 by (induction rule: list_all2_induct) auto
  show "gr_object_count r = len_u64 objs"
    using l(2) by (auto simp: of_objects_def result_simps len_u64_def len)
  have "mset (map oe_observed evidence) = mset (map (oe_observed \<circ> snd) objs)"
    by (simp add: evidence_def multiset.map_comp)
  then have "sum_list (map oe_observed evidence) = sum_list (map (oe_observed \<circ> snd) objs)"
    by (metis sum_mset_sum_list)
  then show "gr_observed_paths r = sum_list (map (oe_observed \<circ> snd) objs)"
    using l(2) by (auto simp: of_objects_def result_simps obs)
  show "oe_low e = oe_high e" if "(k, e) \<in> set objs"
    using list_all2_left [OF l2, of e] that by (force simp: evidence_def)
qed

lemma Min_eq_Max_all:
  fixes S :: "'a::linorder set"
  assumes "finite S" "Min S = Max S" "x \<in> S" "y \<in> S"
  shows "x = y"
proof -
  have "Min S \<le> x" "x \<le> Max S" "Min S \<le> y" "y \<le> Max S"
    using Min_le [OF assms(1,3)] Max_ge [OF assms(1,3)] Min_le [OF assms(1,4)] Max_ge [OF assms(1,4)] by blast+
  then show ?thesis using assms(2) by order
qed

lemma physical_reclaim_counts:
  assumes few: "length (dg_files g) < 2 ^ 64" and r: "physical_reclaim g = Inr r"
  shows "unat (gr_object_count r) = card (object_key ` set (dg_files g))"
    and "unat (gr_observed_paths r) = length (dg_files g)"
    and "a \<in> set (dg_files g) \<Longrightarrow> b \<in> set (dg_files g) \<Longrightarrow> object_key a = object_key b \<Longrightarrow> fe_nlink a = fe_nlink b"
proof -
  obtain objs where o: "rfold note_file [] (dg_files g) = Inr objs" "objects_of (dg_files g) objs"
    using objects_read [OF few] .
  note p = physical_reclaim_Inr [OF r o(2,1)]
  have dist: "distinct (map fst objs)" using o(2) bt_wf_distinct by (auto simp: objects_of_def)
  have card: "card (object_key ` set (dg_files g)) = length objs"
    using objects_of_keys [OF o(2)] dist by (metis distinct_card length_map)
  then have "length objs < 2 ^ 64" using few card_image_le [of "set (dg_files g)" object_key] card_length [of "dg_files g"] by simp
  then show "unat (gr_object_count r) = card (object_key ` set (dg_files g))" by (simp only: p(1) card unat_len_u64)
  have "oe_observed (snd x) = of_nat (length (aliases (dg_files g) (fst x)))" if "x \<in> set objs" for x
    using objects_of_member [OF o(2), of "fst x" "snd x"] that by (simp add: evidence_of_def)
  then have "gr_observed_paths r = sum_list (map (\<lambda>x. of_nat (length (aliases (dg_files g) (fst x)))) objs)"
    unfolding p(2) by (intro arg_cong [where f = sum_list] map_cong) auto
  also have "\<dots> = of_nat (sum_list (map (\<lambda>k. length (filter (\<lambda>f. object_key f = k) (dg_files g))) (map fst objs)))"
    by (simp add: sum_list_of_nat comp_def aliases_def)
  also have "\<dots> = of_nat (length (dg_files g))"
    using objects_of_keys [OF o(2)] by (simp only: sum_length_filter [OF dist])
  finally show "unat (gr_observed_paths r) = length (dg_files g)" using few by (simp only: unat_of_nat_u64)
  show "fe_nlink a = fe_nlink b"
    if ab: "a \<in> set (dg_files g)" "b \<in> set (dg_files g)" "object_key a = object_key b" for a b
  proof -
    let ?fs = "aliases (dg_files g) (object_key a)"
    have "object_key a \<in> set (map fst objs)" using ab(1) objects_of_keys [OF o(2)] by simp
    then obtain e where e: "(object_key a, e) \<in> set objs" by auto
    then have "e = evidence_of ?fs" using objects_of_member [OF o(2)] by blast
    with p(3) [OF e] have m: "Min (fe_nlink ` set ?fs) = Max (fe_nlink ` set ?fs)"
      by (simp add: evidence_of_def) (metis links_to_from_u64)
    have "fe_nlink a \<in> fe_nlink ` set ?fs" "fe_nlink b \<in> fe_nlink ` set ?fs" 
      using ab by (auto simp: aliases_def)
    then show ?thesis by (intro Min_eq_Max_all [OF _ m]) auto
  qed
qed

text \<open>
  The figure of a group is a figure of its allocations: it does not depend on the order its
  files came in, and where it is given, the object count is the number of distinct physical
  identities (not of pathnames), every pathname is observed once, and all names of one allocation
  reported the same link count. Names that disagree about their allocation are refused.
\<close>
theorem group_reclaim_by_allocation:
  assumes few: "length (dg_files g) < 2 ^ 64" and perm: "mset fs = mset (dg_files g)"
  shows "physical_reclaim (g\<lparr>dg_files := fs\<rparr>) = physical_reclaim g \<and>
    (\<forall>r. physical_reclaim g = Inr r \<longrightarrow>
      unat (gr_object_count r) = card (object_key ` set (dg_files g)) \<and> unat (gr_observed_paths r) = length (dg_files g)
      \<and> (\<forall>a \<in> set (dg_files g). \<forall>b \<in> set (dg_files g). object_key a = object_key b \<longrightarrow> fe_nlink a = fe_nlink b))"
proof -
  obtain objs where o: "rfold note_file [] (dg_files g) = Inr objs" "objects_of (dg_files g) objs"
    using objects_read [OF few] .
  obtain objs' where o': "rfold note_file [] fs = Inr objs'" "objects_of fs objs'"
    using objects_read [of fs] few mset_eq_length [OF perm] by auto
  have "objs' = objs" using objects_of_permuted [OF o'(2) o(2) perm] .
  then have "physical_reclaim (g\<lparr>dg_files := fs\<rparr>) = physical_reclaim g"
    using o(1) o'(1) by (simp add: physical_reclaim_def)
  then show ?thesis using physical_reclaim_counts [OF few] by metis
qed

definition sample_entry :: "string \<Rightarrow> u64 \<Rightarrow> u64 \<Rightarrow> file_entry" where
  "sample_entry name inode nlink = \<lparr>fe_path = [RootDir, Normal name], fe_size = 10, fe_mtime = 1, fe_mtime_nsec = 0,
     fe_ctime_sec = 1, fe_ctime_nsec = 0, fe_device = 1, fe_inode = inode, fe_nlink = nlink, fe_is_keeper = False, fe_action = None\<rparr>"

definition sample_twins :: duplicate_group where
  "sample_twins = \<lparr>dg_id = 0, dg_size_bytes = 10, dg_hash = ''h'',
     dg_files = [sample_entry ''b'' 7 2, sample_entry ''c'' 8 1, sample_entry ''a'' 7 2]\<rparr>"

theorem group_reclaim_by_allocation_witness:
  "\<exists>r. physical_reclaim (sample_twins\<lparr>dg_files := rev (dg_files sample_twins)\<rparr>) = Inr r
     \<and> unat (gr_object_count r) = card (object_key ` set (dg_files sample_twins)) \<and> unat (gr_observed_paths r) = 3"
proof -
  have n: "length (dg_files sample_twins) = 3" by (simp add: sample_twins_def)
  have "case physical_reclaim sample_twins of Inr _ \<Rightarrow> True | Inl _ \<Rightarrow> False" by code_simp
  then obtain r where r: "physical_reclaim sample_twins = Inr r" by (auto split: sum.splits)
  show ?thesis
    using group_reclaim_by_allocation [of sample_twins "rev (dg_files sample_twins)"] r n by auto
qed

end
