(* ===== verification/Content.thy ===== *)
theory Content
  imports Duplicates
begin

text \<open>
  \<open>pipeline/verify.rs\<close> and \<open>pipeline/hash.rs\<close>: reading file contents. A reader answers every call with
  an error or with at most as many bytes as it has at hand, as \<open>Read::read\<close> may; nothing below relies
  on a call filling its buffer. The digest function and what opening a path answers are parameters.
\<close>

type_synonym bytes = "nat list"
type_synonym io_fault = nat

section \<open>A reader\<close>

text \<open>
  The rest of the file and what the next calls do: fail, or deliver at most so many bytes (one more
  than the number, so that a call never ends the file early); after the listed calls, all that is asked.
\<close>

record reader =
  rd_rest :: bytes
  rd_calls :: "(io_fault + nat) list"

definition read :: "reader \<Rightarrow> nat \<Rightarrow> io_fault + bytes \<times> reader" where
  "read r room =
     (case rd_calls r of
        [] \<Rightarrow> Inr (take room (rd_rest r), r\<lparr>rd_rest := drop room (rd_rest r)\<rparr>)
      | Inl e # _ \<Rightarrow> Inl e
      | Inr k # calls \<Rightarrow>
          let n = min room (Suc k) in
          Inr (take n (rd_rest r), \<lparr>rd_rest = drop n (rd_rest r), rd_calls = calls\<rparr>))"

lemma read_Inr:
  "read r room = Inr (bs, r') \<Longrightarrow> rd_rest r = bs @ rd_rest r' \<and> length bs \<le> room \<and> (bs = [] \<longrightarrow> room = 0 \<or> rd_rest r = [])"
  by (auto simp: read_def Let_def min_def split: list.splits sum.splits if_splits)

text \<open>\<open>read_chunk\<close>: until the buffer is full or the file ends.\<close>

function read_chunk :: "reader \<Rightarrow> nat \<Rightarrow> io_fault + bytes \<times> reader" where
  "read_chunk r room =
     (if room = 0 then Inr ([], r)
      else rbind (read r room) (\<lambda>(bs, r').
        if bs = [] then Inr ([], r')
        else rbind (read_chunk r' (room - length bs)) (\<lambda>(cs, r''). Inr (bs @ cs, r''))))"
  by pat_completeness auto
termination
  by (relation "measure snd") auto

declare read_chunk.simps [simp del]

text \<open>A chunk is the next bytes of the file, as many as fit, and it is short only at the end.\<close>

lemma read_chunk_Inr:
  "read_chunk r room = Inr (bs, r') \<Longrightarrow> bs = take room (rd_rest r) \<and> rd_rest r' = drop room (rd_rest r)"
proof (induction r room arbitrary: bs r' rule: read_chunk.induct)
  case (1 r room)
  show ?case
  proof (cases "room = 0")
    case True
    then show ?thesis using "1.prems" by (simp add: read_chunk.simps)
  next
    case False
    then obtain b r1 where b: "read r room = Inr (b, r1)"
      "(if b = [] then Inr ([], r1) else rbind (read_chunk r1 (room - length b)) (\<lambda>(cs, r''). Inr (b @ cs, r''))) = Inr (bs, r')"
      using "1.prems" by (subst (asm) read_chunk.simps) (auto simp: result_simps)
    note rd = read_Inr [OF b(1)]
    show ?thesis
    proof (cases "b = []")
      case True
      then show ?thesis using b rd False by auto
    next
      case nb: False
      then obtain cs where cs: "read_chunk r1 (room - length b) = Inr (cs, r')" "bs = b @ cs"
        using b(2) by (auto simp: result_simps)
      from "1.IH" [OF False b(1) refl nb cs(1)] rd show ?thesis by (simp add: cs(2))
    qed
  qed
qed

section \<open>Comparing two files\<close>

definition VERIFY_BUFFER :: nat where
  "VERIFY_BUFFER = 64 * 1024"

function compare_readers :: "nat \<Rightarrow> reader \<Rightarrow> reader \<Rightarrow> io_fault + bool" where
  "compare_readers room ra rb =
     (case read_chunk ra (Suc room) of Inl e \<Rightarrow> Inl e | Inr (as, ra') \<Rightarrow>
      case read_chunk rb (Suc room) of Inl e \<Rightarrow> Inl e | Inr (bs, rb') \<Rightarrow>
        if length as \<noteq> length bs then Inr False
        else if as = [] then Inr True
        else if as \<noteq> bs then Inr False
        else compare_readers room ra' rb')"
  by pat_completeness auto
termination
proof (relation "measure (\<lambda>(_, ra, _). length (rd_rest ra))")
  fix room ra rb x as ra' y bs rb'
  assume "read_chunk ra (Suc room) = Inr x" "(as, ra') = x" "as \<noteq> []"
  then show "((room, ra', rb'), room, ra, rb) \<in> measure (\<lambda>(_, ra, _). length (rd_rest ra))"
    using read_chunk_Inr [of ra "Suc room" as ra'] by (cases "rd_rest ra") auto
qed auto

declare compare_readers.simps [simp del]

text \<open>The source's loop, with its buffer of \<open>BUFFER_SIZE\<close> bytes.\<close>

definition files_equal :: "(path \<Rightarrow> io_fault + reader) \<Rightarrow> path \<Rightarrow> path \<Rightarrow> io_fault + bool" where
  "files_equal opens a b =
     rbind (opens a) (\<lambda>ra. rbind (opens b) (\<lambda>rb. compare_readers (VERIFY_BUFFER - 1) ra rb))"

lemma compare_readers_Inr:
  "compare_readers room ra rb = Inr e \<Longrightarrow> e \<longleftrightarrow> rd_rest ra = rd_rest rb"
proof (induction room ra rb rule: compare_readers.induct)
  case (1 room ra rb)
  obtain as ra' bs rb' where c: "read_chunk ra (Suc room) = Inr (as, ra')" "read_chunk rb (Suc room) = Inr (bs, rb')"
    "(if length as \<noteq> length bs then Inr False else if as = [] then Inr True
      else if as \<noteq> bs then Inr False else compare_readers room ra' rb') = Inr e"
    using "1.prems" by (subst (asm) compare_readers.simps) (auto split: sum.splits)
  note a = read_chunk_Inr [OF c(1)] and b = read_chunk_Inr [OF c(2)]
  consider "as \<noteq> bs" | "as = bs" "as = []" | "as = bs" "as \<noteq> []" by blast
  then show ?case
  proof cases
    case 1
    then have "rd_rest ra \<noteq> rd_rest rb" using a b by auto
    moreover have "\<not> e" using 1 c(3) by (auto split: if_splits)
    ultimately show ?thesis by blast
  next
    case 2
    then show ?thesis using a b c(3) by (auto simp: take_eq_Nil)
  next
    case 3
    then have "compare_readers room ra' rb' = Inr e" using c(3) by simp
    then have "e \<longleftrightarrow> rd_rest ra' = rd_rest rb'" using "1.IH" c(1,2) 3 by auto
    then show ?thesis using a b 3 by (metis append_take_drop_id)
  qed
qed

section \<open>Byte-for-byte verification of the groups\<close>

datatype comparison_error = ComparisonFailed path path io_fault

text \<open>The first population, in order, whose representative has the same bytes.\<close>

fun placed_in :: "(path \<Rightarrow> path \<Rightarrow> io_fault + bool) \<Rightarrow> file_entry list list \<Rightarrow> file_entry \<Rightarrow> comparison_error + nat option" where
  "placed_in eq [] f = Inr None"
| "placed_in eq (population # rest) f =
     (case eq (fe_path (hd population)) (fe_path f) of
        Inl source \<Rightarrow> Inl (ComparisonFailed (fe_path (hd population)) (fe_path f) source)
      | Inr True \<Rightarrow> Inr (Some 0)
      | Inr False \<Rightarrow> rbind (placed_in eq rest f) (\<lambda>i. Inr (map_option Suc i)))"

definition place_file :: "(path \<Rightarrow> path \<Rightarrow> io_fault + bool) \<Rightarrow> file_entry list list \<Rightarrow> file_entry
    \<Rightarrow> comparison_error + file_entry list list" where
  "place_file eq populations f =
     rbind (placed_in eq populations f) (\<lambda>placed. Inr (case placed of
         Some i \<Rightarrow> populations[i := populations ! i @ [f]]
       | None \<Rightarrow> populations @ [[f]]))"

definition surviving :: "duplicate_group \<Rightarrow> file_entry list list \<Rightarrow> duplicate_group list" where
  "surviving g populations =
     map (\<lambda>population. \<lparr>dg_id = 0, dg_size_bytes = fe_size (hd population), dg_hash = dg_hash g, dg_files = population\<rparr>)
       (filter (\<lambda>population. 2 \<le> length population) populations)"

fun verify_each :: "(path \<Rightarrow> path \<Rightarrow> io_fault + bool) \<Rightarrow> duplicate_group list \<Rightarrow> duplicate_group list
    \<Rightarrow> comparison_error + duplicate_group list" where
  "verify_each eq verified [] = Inr verified"
| "verify_each eq verified (g # groups) =
     rbind (rfold (place_file eq) [] (dg_files g)) (\<lambda>populations.
     verify_each eq (verified @ surviving g populations) groups)"

definition verify_groups :: "(path \<Rightarrow> io_fault + reader) \<Rightarrow> duplicate_group list \<Rightarrow> comparison_error + duplicate_group list" where
  "verify_groups opens groups =
     rbind (verify_each (files_equal opens) [] groups) (\<lambda>verified.
     Inr (map (\<lambda>(i, g). g\<lparr>dg_id := i\<rparr>) (enumerate 0 verified)))"

section \<open>What verification proves\<close>

text \<open>
  The reference: partition a group by content, keeping the order of members and of first members.
\<close>

fun by_content :: "(file_entry \<Rightarrow> bytes) \<Rightarrow> file_entry list \<Rightarrow> file_entry list list" where
  "by_content c [] = []"
| "by_content c (f # fs) = (f # filter (\<lambda>g. c g = c f) fs) # by_content c (filter (\<lambda>g. c g \<noteq> c f) fs)"

lemma by_content_snoc:
  "by_content c (fs @ [f]) =
     (case position (\<lambda>p. c (hd p) = c f) (by_content c fs) of
        Some i \<Rightarrow> (by_content c fs)[i := by_content c fs ! i @ [f]]
      | None \<Rightarrow> by_content c fs @ [[f]])"
proof (induction c fs rule: by_content.induct)
  case (2 c g fs)
  then show ?case by (cases "c f = c g") (auto split: option.splits)
qed simp

lemma by_content_nonempty: "p \<in> set (by_content c fs) \<Longrightarrow> p \<noteq> []"
  by (induction c fs rule: by_content.induct) auto

lemma by_content_members: "\<Union> (set ` set (by_content c fs)) = set fs"
  by (induction c fs rule: by_content.induct) auto

text \<open>The bytes a path would yield.\<close>

definition content_of :: "(path \<Rightarrow> io_fault + reader) \<Rightarrow> file_entry \<Rightarrow> bytes" where
  "content_of opens f = (case opens (fe_path f) of Inr r \<Rightarrow> rd_rest r | Inl _ \<Rightarrow> [])"

lemma files_equal_Inr: "files_equal opens (fe_path a) (fe_path b) = Inr e \<Longrightarrow> e \<longleftrightarrow> content_of opens a = content_of opens b"
  by (auto simp: files_equal_def content_of_def result_simps dest: compare_readers_Inr)

lemma placed_in_Inr:
  "placed_in (files_equal opens) ps f = Inr r \<Longrightarrow> r = position (\<lambda>p. content_of opens (hd p) = content_of opens f) ps"
proof (induction ps arbitrary: r)
  case (Cons p ps)
  then show ?case using files_equal_Inr [of opens "hd p" f] by (auto simp: result_simps split: sum.splits bool.splits)
qed simp

lemma placed_in_Inl:
  "placed_in eq ps f = Inl e \<Longrightarrow> \<exists>p \<in> set ps. \<exists>source. e = ComparisonFailed (fe_path (hd p)) (fe_path f) source
     \<and> eq (fe_path (hd p)) (fe_path f) = Inl source"
  by (induction ps) (auto simp: result_simps split: sum.splits bool.splits)

lemma place_files:
  "rfold (place_file (files_equal opens)) (by_content (content_of opens) gs) fs = Inr ps \<Longrightarrow> ps = by_content (content_of opens) (gs @ fs)"
proof (induction fs arbitrary: gs)
  case (Cons f fs)
  obtain ps1 where p: "place_file (files_equal opens) (by_content (content_of opens) gs) f = Inr ps1"
    "rfold (place_file (files_equal opens)) ps1 fs = Inr ps"
    using Cons.prems by (auto simp: result_simps)
  have "ps1 = by_content (content_of opens) (gs @ [f])"
    using p(1) unfolding by_content_snoc by (auto simp: place_file_def result_simps dest: placed_in_Inr)
  with Cons.IH [of "gs @ [f]"] p(2) show ?case by simp
qed simp

lemma place_files_Inl:
  assumes "rfold (place_file eq) ps fs = Inl e" "\<forall>p \<in> set ps. p \<noteq> [] \<and> set p \<subseteq> F" "set fs \<subseteq> F"
  shows "\<exists>a \<in> F. \<exists>b \<in> F. \<exists>source. e = ComparisonFailed (fe_path a) (fe_path b) source \<and> eq (fe_path a) (fe_path b) = Inl source"
proof -
  let ?I = "\<lambda>ps. \<forall>p \<in> set ps. p \<noteq> [] \<and> set p \<subseteq> F"
  have keep: "?I ps'" if h: "?I qs" "f \<in> set fs" "place_file eq qs f = Inr ps'" for qs f ps'
  proof -
    obtain placed where pl: "ps' = (case placed of Some i \<Rightarrow> qs[i := qs ! i @ [f]] | None \<Rightarrow> qs @ [[f]])"
      using h(3) by (auto simp: place_file_def result_simps)
    have "f \<in> F" using h(2) assms(3) by blast
    show ?thesis
    proof (cases placed)
      case None
      then show ?thesis using h(1) pl \<open>f \<in> F\<close> by auto
    next
      case (Some i)
      show ?thesis
      proof (cases "i < length qs")
        case True
        then have i: "qs ! i \<noteq> [] \<and> set (qs ! i) \<subseteq> F" using h(1) nth_mem by blast
        have "set ps' \<subseteq> insert (qs ! i @ [f]) (set qs)"
          using set_update_subset_insert [of qs i "qs ! i @ [f]"] pl Some by simp
        show ?thesis
        proof
          fix p assume "p \<in> set ps'"
          then have "p = qs ! i @ [f] \<or> p \<in> set qs" using \<open>set ps' \<subseteq> _\<close> by blast
          then show "p \<noteq> [] \<and> set p \<subseteq> F" using h(1) i \<open>f \<in> F\<close> by auto
        qed
      next
        case False
        then show ?thesis using h(1) pl Some by (simp add: list_update_beyond)
      qed
    qed
  qed
  have "\<exists>qs f. ?I qs \<and> f \<in> set fs \<and> place_file eq qs f = Inl e"
  proof (rule rfold_InlE [OF assms(1), of ?I])
    show "?I ps" by (rule assms(2))
    show "?I ps'" if "?I qs" "f \<in> set fs" "place_file eq qs f = Inr ps'" for qs f ps'
      using that by (rule keep)
    show "\<exists>qs f. ?I qs \<and> f \<in> set fs \<and> place_file eq qs f = Inl e"
      if "?I qs" "f \<in> set fs" "place_file eq qs f = Inl e" for qs f
      using that by (intro exI conjI)
  qed
  then obtain qs f where q: "?I qs" "f \<in> set fs" "place_file eq qs f = Inl e" by (elim exE conjE)
  then obtain p source where "p \<in> set qs" "e = ComparisonFailed (fe_path (hd p)) (fe_path f) source"
    "eq (fe_path (hd p)) (fe_path f) = Inl source"
    using placed_in_Inl [of eq qs f e] by (auto simp: place_file_def result_simps)
  moreover have "hd p \<in> F" using q(1) \<open>p \<in> set qs\<close> by (meson hd_in_set subsetD)
  moreover have "f \<in> F" using q(2) assms(3) by blast
  ultimately show ?thesis by blast
qed

definition verified_reference :: "(path \<Rightarrow> io_fault + reader) \<Rightarrow> duplicate_group list \<Rightarrow> duplicate_group list" where
  "verified_reference opens groups = concat (map (\<lambda>g. surviving g (by_content (content_of opens) (dg_files g))) groups)"

lemma verify_each_Inr:
  "verify_each (files_equal opens) verified groups = Inr out \<Longrightarrow> out = verified @ verified_reference opens groups"
proof (induction groups arbitrary: verified)
  case (Cons g groups)
  then obtain ps where p: "rfold (place_file (files_equal opens)) [] (dg_files g) = Inr ps"
    "verify_each (files_equal opens) (verified @ surviving g ps) groups = Inr out"
    by (auto simp: result_simps)
  have "ps = by_content (content_of opens) (dg_files g)" using place_files [of opens "[]"] p(1) by simp
  then show ?case using Cons.IH [OF p(2)] by (simp add: verified_reference_def)
qed (simp add: verified_reference_def)

lemma verify_each_Inl:
  "verify_each eq verified groups = Inl e \<Longrightarrow> \<exists>g \<in> set groups. \<exists>a \<in> set (dg_files g). \<exists>b \<in> set (dg_files g). \<exists>source.
     e = ComparisonFailed (fe_path a) (fe_path b) source \<and> eq (fe_path a) (fe_path b) = Inl source"
proof (induction groups arbitrary: verified)
  case (Cons g groups)
  show ?case
  proof (cases "rfold (place_file eq) [] (dg_files g)")
    case (Inl e')
    then show ?thesis using Cons.prems place_files_Inl [OF Inl, of "set (dg_files g)"] by auto
  next
    case (Inr ps)
    then show ?thesis using Cons by auto
  qed
qed simp

text \<open>
  Claim C15. Verification proves what it returns: each input group is split by content, so the files of
  a returned group are byte for byte equal, no two returned groups of one input group could be joined,
  and the order of members, of groups and of first members is that of the input; groups of one are
  dropped, sizes and consecutive ids are set. It fails only with a comparison of two files of one
  group that really failed, and never silently returns less.
\<close>
theorem verification_partitions:
  "case verify_groups opens groups of
     Inr out \<Rightarrow> out = map (\<lambda>(i, g). g\<lparr>dg_id := i\<rparr>) (enumerate 0 (verified_reference opens groups))
   | Inl e \<Rightarrow> \<exists>g \<in> set groups. \<exists>a \<in> set (dg_files g). \<exists>b \<in> set (dg_files g). \<exists>source.
       e = ComparisonFailed (fe_path a) (fe_path b) source \<and> files_equal opens (fe_path a) (fe_path b) = Inl source"
proof (cases "verify_each (files_equal opens) [] groups")
  case (Inl e)
  then show ?thesis using verify_each_Inl [OF Inl] by (simp add: verify_groups_def)
next
  case (Inr out)
  then show ?thesis using verify_each_Inr [OF Inr] by (simp add: verify_groups_def)
qed

theorem verification_partitions_witness:
  "verify_groups (\<lambda>_. Inl 13) [sample_twins] = Inl (ComparisonFailed [RootDir, Normal ''b''] [RootDir, Normal ''c''] 13)
   \<and> files_equal (\<lambda>_. Inl 13) [RootDir, Normal ''b''] [RootDir, Normal ''c''] = Inl 13"
proof -
  have v: "verify_groups (\<lambda>_. Inl 13) [sample_twins] = Inl (ComparisonFailed [RootDir, Normal ''b''] [RootDir, Normal ''c''] 13)"
    by (simp add: verify_groups_def sample_twins_def sample_entry_def place_file_def files_equal_def)
  from verification_partitions [where opens = "\<lambda>_. Inl 13" and groups = "[sample_twins]", unfolded v sum.case]
  obtain a b :: file_entry and source where
    "ComparisonFailed [RootDir, Normal ''b''] [RootDir, Normal ''c''] 13 = ComparisonFailed (fe_path a) (fe_path b) source"
    "files_equal (\<lambda>_. Inl 13) (fe_path a) (fe_path b) = Inl source" by blast
  then have "files_equal (\<lambda>_. Inl 13) [RootDir, Normal ''b''] [RootDir, Normal ''c''] = Inl 13"
    unfolding comparison_error.inject by metis
  with v show ?thesis ..
qed

text \<open>A reader whose calls all succeed is always read to the end.\<close>

definition healthy :: "reader \<Rightarrow> bool" where
  "healthy r \<longleftrightarrow> list_all (\<lambda>c. case c of Inr _ \<Rightarrow> True | Inl _ \<Rightarrow> False) (rd_calls r)"

lemma read_healthy: "healthy r \<Longrightarrow> \<exists>bs r'. read r room = Inr (bs, r') \<and> healthy r'"
  by (cases "rd_calls r") (auto simp: read_def healthy_def Let_def split: sum.splits)

lemma read_chunk_healthy: "healthy r \<Longrightarrow> \<exists>bs r'. read_chunk r room = Inr (bs, r') \<and> healthy r'"
proof (induction r room rule: read_chunk.induct)
  case (1 r room)
  obtain bs r' where b: "read r room = Inr (bs, r')" "healthy r'" using read_healthy [OF "1.prems"] by blast
  show ?case
  proof (cases "room = 0 \<or> bs = []")
    case True
    then show ?thesis using b "1.prems" by (subst read_chunk.simps) auto
  next
    case False
    then obtain cs r'' where "read_chunk r' (room - length bs) = Inr (cs, r'')" "healthy r''"
      using "1.IH" [OF _ b(1) refl _ b(2)] by auto
    then show ?thesis using b False by (subst read_chunk.simps) auto
  qed
qed

lemma compare_readers_healthy: "healthy ra \<Longrightarrow> healthy rb \<Longrightarrow> \<exists>e. compare_readers room ra rb = Inr e"
proof (induction room ra rb rule: compare_readers.induct)
  case (1 room ra rb)
  obtain as ra' bs rb' where c: "read_chunk ra (Suc room) = Inr (as, ra')" "healthy ra'"
    "read_chunk rb (Suc room) = Inr (bs, rb')" "healthy rb'"
    using read_chunk_healthy "1.prems" by metis
  show ?case
  proof (cases "as = bs \<and> as \<noteq> []")
    case True
    then obtain e where "compare_readers room ra' rb' = Inr e"
      using "1.IH" [OF c(1) refl c(3) refl _ _ _ c(2,4)] by auto
    then show ?thesis using c True by (subst compare_readers.simps) auto
  next
    case False
    then show ?thesis using c by (subst compare_readers.simps) auto
  qed
qed

lemma files_equal_healthy:
  "opens a = Inr ra \<Longrightarrow> opens b = Inr rb \<Longrightarrow> healthy ra \<Longrightarrow> healthy rb \<Longrightarrow>
     files_equal opens a b = Inr (rd_rest ra = rd_rest rb)"
  using compare_readers_healthy [of ra rb "VERIFY_BUFFER - 1"] compare_readers_Inr [of "VERIFY_BUFFER - 1" ra rb]
  by (auto simp: files_equal_def)

section \<open>Hashing a file on the scan path\<close>

datatype ('d, 'i) hashed = Whole 'd 'i | Stopped

datatype hash_error = HashIo io_fault | ChangedDuringHashing | SwappedDuringHashing

definition HASH_BUFFER :: nat where
  "HASH_BUFFER = 256 * 1024"

text \<open>
  What the environment answers: the stop flag at each look (the first one before the open), the open,
  the identity by descriptor before and after, the object the path leads to at the end.
\<close>

record 'i hash_env =
  he_stop :: "nat \<Rightarrow> bool"
  he_open :: "io_fault + reader"
  he_before :: "io_fault + 'i"
  he_after :: "io_fault + 'i"
  he_lstat :: "io_fault + u64 \<times> u64"

function hash_loop :: "(nat \<Rightarrow> bool) \<Rightarrow> nat \<Rightarrow> nat \<Rightarrow> reader \<Rightarrow> bytes \<Rightarrow> u64 \<Rightarrow> io_fault + bytes option \<times> u64" where
  "hash_loop stop room i r acc progress =
     (if stop i then Inr (None, progress)
      else case read r (Suc room) of Inl e \<Rightarrow> Inl e | Inr (bs, r') \<Rightarrow>
        if bs = [] then Inr (Some acc, progress)
        else hash_loop stop room (Suc i) r' (acc @ bs) (progress + of_nat (length bs)))"
  by pat_completeness auto
termination
proof (relation "measure (\<lambda>(_, _, _, r, _). length (rd_rest r))")
  fix stop :: "nat \<Rightarrow> bool" and room i r acc progress x bs r'
  assume "read r (Suc room) = Inr x" "(bs, r') = x" "bs \<noteq> []"
  then show "((stop, room, Suc i, r', acc @ bs, progress + of_nat (length bs)), stop, room, i, r, acc, progress)
      \<in> measure (\<lambda>(_, _, _, r, _). length (rd_rest r))"
    using read_Inr [of r "Suc room" bs r'] by auto
qed auto

declare hash_loop.simps [simp del]

definition identity_stable :: "'i \<Rightarrow> 'i \<Rightarrow> hash_error + unit" where
  "identity_stable before after = (if before = after then Inr () else Inl ChangedDuringHashing)"

definition path_object_matches :: "io_fault + u64 \<times> u64 \<Rightarrow> u64 \<times> u64 \<Rightarrow> hash_error + unit" where
  "path_object_matches lstat obj =
     rbind (map_err HashIo lstat) (\<lambda>found. if found = obj then Inr () else Inl SwappedDuringHashing)"

definition hash_file_verified :: "(bytes \<Rightarrow> 'd) \<Rightarrow> ('i \<Rightarrow> u64 \<times> u64) \<Rightarrow> 'i hash_env \<Rightarrow> hash_error + ('d, 'i) hashed" where
  "hash_file_verified digest object env =
     (if he_stop env 0 then Inr Stopped
      else
        rbind (map_err HashIo (he_open env)) (\<lambda>r.
        rbind (map_err HashIo (he_before env)) (\<lambda>before.
        rbind (map_err HashIo (hash_loop (he_stop env) (HASH_BUFFER - 1) 1 r [] 0)) (\<lambda>(whole, _).
        case whole of None \<Rightarrow> Inr Stopped | Some bs \<Rightarrow>
        rbind (map_err HashIo (he_after env)) (\<lambda>after.
        rbind (identity_stable before after) (\<lambda>_.
        rbind (path_object_matches (he_lstat env) (object before)) (\<lambda>_.
        Inr (Whole (digest bs) after))))))))"

definition hash_file :: "(bytes \<Rightarrow> 'd) \<Rightarrow> io_fault + reader \<Rightarrow> u64 \<Rightarrow> io_fault + 'd \<times> u64" where
  "hash_file digest opened progress =
     rbind opened (\<lambda>r.
     rbind (hash_loop (\<lambda>_. False) (HASH_BUFFER - 1) 0 r [] progress) (\<lambda>(whole, progress').
     case whole of None \<Rightarrow> Inr (digest [], progress') | Some bs \<Rightarrow> Inr (digest bs, progress')))"

lemma hash_loop_Inr:
  "hash_loop stop room i r acc progress = Inr (whole, progress') \<Longrightarrow>
     case whole of
       Some bs \<Rightarrow> bs = acc @ rd_rest r \<and> progress' = progress + of_nat (length (rd_rest r))
     | None \<Rightarrow> \<exists>j. i \<le> j \<and> stop j"
proof (induction stop room i r acc progress rule: hash_loop.induct)
  case (1 stop room i r acc progress)
  show ?case
  proof (cases "stop i")
    case True
    then show ?thesis using "1.prems" by (subst (asm) hash_loop.simps) auto
  next
    case False
    then obtain bs r' where b: "read r (Suc room) = Inr (bs, r')"
      "(if bs = [] then Inr (Some acc, progress) else hash_loop stop room (Suc i) r' (acc @ bs) (progress + of_nat (length bs))) = Inr (whole, progress')"
      using "1.prems" by (subst (asm) hash_loop.simps) (auto split: sum.splits)
    note rd = read_Inr [OF b(1)]
    show ?thesis
    proof (cases "bs = []")
      case True
      then show ?thesis using b rd by auto
    next
      case nb: False
      then have "hash_loop stop room (Suc i) r' (acc @ bs) (progress + of_nat (length bs)) = Inr (whole, progress')" using b(2) by simp
      from "1.IH" [OF False b(1) refl nb this] rd show ?thesis
        by (auto split: option.splits dest: Suc_leD)
    qed
  qed
qed

text \<open>
  Claim C16. A digest the scan records is the digest of the whole file: it is produced only when every
  byte up to the end was hashed, the identity taken by descriptor before the read is the one taken
  after it, and the path still leads to the object that was read; and a hash reported as stopped means
  that the stop flag was seen, so part of a file never passes for the file.
\<close>
theorem digest_of_whole_file:
  "case hash_file_verified digest object env of
     Inr (Whole d after) \<Rightarrow> \<exists>r. he_open env = Inr r \<and> d = digest (rd_rest r) \<and> he_before env = Inr after
       \<and> he_after env = Inr after \<and> he_lstat env = Inr (object after)
   | Inr Stopped \<Rightarrow> \<exists>i. he_stop env i
   | Inl _ \<Rightarrow> True"
proof (cases "hash_file_verified digest object env")
  case (Inr h)
  show ?thesis
  proof (cases h)
    case (Whole d after)
    obtain r before bs p where s: "he_open env = Inr r" "he_before env = Inr before"
      "hash_loop (he_stop env) (HASH_BUFFER - 1) 1 r [] 0 = Inr (Some bs, p)"
      "he_after env = Inr after" "before = after" "he_lstat env = Inr (object before)" "d = digest bs"
      using Inr Whole
      by (auto simp: hash_file_verified_def result_simps identity_stable_def path_object_matches_def
          split: if_splits option.splits)
    then show ?thesis using Inr Whole hash_loop_Inr [OF s(3)] by simp
  next
    case Stopped
    then have "\<exists>i. he_stop env i"
      using Inr by (auto simp: hash_file_verified_def result_simps split: if_splits option.splits dest!: hash_loop_Inr)
    then show ?thesis using Inr Stopped by simp
  qed
qed simp

theorem digest_of_whole_file_witness:
  "\<exists>d. hash_file_verified length (\<lambda>i. (1, i)) \<lparr>he_stop = (\<lambda>_. False), he_open = Inr \<lparr>rd_rest = [5, 6, 7], rd_calls = [Inr 0, Inr 0]\<rparr>,
       he_before = Inr 7, he_after = Inr 7, he_lstat = Inr (1, 7)\<rparr> = Inr (Whole d 7) \<and> d = 3"
  (is "\<exists>d. ?h = Inr (Whole d 7) \<and> d = 3")
proof -
  have r: "read \<lparr>rd_rest = [5, 6, 7], rd_calls = [Inr 0, Inr 0]\<rparr> (Suc n) = Inr ([5], \<lparr>rd_rest = [6, 7], rd_calls = [Inr 0]\<rparr>)"
    "read \<lparr>rd_rest = [6, 7], rd_calls = [Inr 0]\<rparr> (Suc n) = Inr ([6], \<lparr>rd_rest = [7], rd_calls = []\<rparr>)"
    "read \<lparr>rd_rest = [7], rd_calls = []\<rparr> (Suc n) = Inr ([7], \<lparr>rd_rest = [], rd_calls = []\<rparr>)"
    "read \<lparr>rd_rest = [], rd_calls = []\<rparr> (Suc n) = Inr ([], \<lparr>rd_rest = [], rd_calls = []\<rparr>)" for n
    by (simp_all add: read_def)
  have "hash_loop (\<lambda>_. False) n 1 \<lparr>rd_rest = [5, 6, 7], rd_calls = [Inr 0, Inr 0]\<rparr> [] 0 = Inr (Some [5, 6, 7], 3)" for n
    by (subst hash_loop.simps, simp add: r)+
  then have "\<exists>d. ?h = Inr (Whole d 7)"
    by (simp add: hash_file_verified_def identity_stable_def path_object_matches_def)
  then obtain d where "?h = Inr (Whole d 7)" by blast
  with digest_of_whole_file [where digest = length and object = "\<lambda>i. (1, i)" and env = "\<lparr>he_stop = (\<lambda>_. False), he_open = Inr \<lparr>rd_rest = [5, 6, 7], rd_calls = [Inr 0, Inr 0]\<rparr>,
       he_before = Inr 7, he_after = Inr 7, he_lstat = Inr (1, 7)\<rparr>"]
  show ?thesis by auto
qed

end
