(* ===== verification/Text_Safety.thy ===== *)
theory Text_Safety
  imports Quarantine
begin

text \<open>
  \<open>textsan.rs\<close> and the staging names of \<open>actions/move_file.rs\<close>. A Rust \<open>String\<close> is the list of its
  Unicode scalar values (\<open>chars\<close>), a file name the list of its bytes (\<open>string\<close>); \<open>to_string_lossy\<close> leads
  from one to the other. A name may hold anything but a slash and NUL, so what reaches a terminal, a
  script or a directory entry of bounded length is what the functions here let through.
\<close>

type_synonym chars = "nat list"

definition lit :: "string \<Rightarrow> chars" where
  "lit s = map of_char s"

section \<open>From bytes to characters\<close>

text \<open>
  \<open>String::from_utf8_lossy\<close> cuts the bytes into characters and maximal ill-formed parts; each of the
  latter becomes one replacement character.
\<close>

definition second3 :: "nat \<Rightarrow> nat \<Rightarrow> bool" where
  "second3 b0 b1 \<longleftrightarrow> cont b1 \<and> (b0 = 0xE0 \<longrightarrow> 0xA0 \<le> b1) \<and> (b0 = 0xED \<longrightarrow> b1 \<le> 0x9F)"

definition second4 :: "nat \<Rightarrow> nat \<Rightarrow> bool" where
  "second4 b0 b1 \<longleftrightarrow> cont b1 \<and> (b0 = 0xF0 \<longrightarrow> 0x90 \<le> b1) \<and> (b0 = 0xF4 \<longrightarrow> b1 \<le> 0x8F)"

fun utf8_chunks :: "nat list \<Rightarrow> nat list option list" where
  "utf8_chunks [] = []"
| "utf8_chunks (b0 # bs) =
     (if b0 < 0x80 then Some [b0] # utf8_chunks bs
      else if 0xC2 \<le> b0 \<and> b0 \<le> 0xDF then
        (case bs of b1 # r \<Rightarrow> if cont b1 then Some [b0, b1] # utf8_chunks r else None # utf8_chunks bs
         | [] \<Rightarrow> [None])
      else if 0xE0 \<le> b0 \<and> b0 \<le> 0xEF then
        (case bs of
           b1 # r1 \<Rightarrow>
             if \<not> second3 b0 b1 then None # utf8_chunks bs
             else (case r1 of
                 b2 # r2 \<Rightarrow> if cont b2 then Some [b0, b1, b2] # utf8_chunks r2 else None # utf8_chunks r1
               | [] \<Rightarrow> [None])
         | [] \<Rightarrow> [None])
      else if 0xF0 \<le> b0 \<and> b0 \<le> 0xF4 then
        (case bs of
           b1 # r1 \<Rightarrow>
             if \<not> second4 b0 b1 then None # utf8_chunks bs
             else (case r1 of
                 b2 # r2 \<Rightarrow>
                   if \<not> cont b2 then None # utf8_chunks r1
                   else (case r2 of
                       b3 # r3 \<Rightarrow> if cont b3 then Some [b0, b1, b2, b3] # utf8_chunks r3 else None # utf8_chunks r2
                     | [] \<Rightarrow> [None])
               | [] \<Rightarrow> [None])
         | [] \<Rightarrow> [None])
      else None # utf8_chunks bs)"

text \<open>The scalar value of one character.\<close>

fun scalar :: "nat list \<Rightarrow> nat" where
  "scalar [b0, b1] = (b0 - 0xC0) * 64 + (b1 - 0x80)"
| "scalar [b0, b1, b2] = (b0 - 0xE0) * 4096 + (b1 - 0x80) * 64 + (b2 - 0x80)"
| "scalar [b0, b1, b2, b3] = (b0 - 0xF0) * 262144 + (b1 - 0x80) * 4096 + (b2 - 0x80) * 64 + (b3 - 0x80)"
| "scalar (b0 # _) = b0"
| "scalar [] = 0"

text \<open>The result as scalar values and as the bytes that spell it.\<close>

definition to_string_lossy :: "string \<Rightarrow> chars" where
  "to_string_lossy n = map (\<lambda>chunk. case chunk of Some c \<Rightarrow> scalar c | None \<Rightarrow> 0xFFFD) (utf8_chunks (map of_char n))"

definition lossy :: "string \<Rightarrow> string" where
  "lossy n = map char_of (concat (map (\<lambda>chunk. case chunk of Some c \<Rightarrow> c | None \<Rightarrow> [0xEF, 0xBF, 0xBD]) (utf8_chunks (map of_char n))))"

section \<open>What may be shown\<close>

text \<open>\<open>char::is_control\<close>: the category Cc.\<close>

definition is_control :: "nat \<Rightarrow> bool" where
  "is_control c \<longleftrightarrow> c < 0x20 \<or> (0x7F \<le> c \<and> c \<le> 0x9F)"

definition hex_digit :: "nat \<Rightarrow> nat" where
  "hex_digit d = (if d < 10 then 48 + d else 87 + d)"

fun hex :: "nat \<Rightarrow> chars" where
  "hex n = (if n < 16 then [hex_digit n] else hex (n div 16) @ [hex_digit (n mod 16)])"

declare hex.simps [simp del]

text \<open>\<open>char::escape_default\<close>.\<close>

definition escape_default :: "nat \<Rightarrow> chars" where
  "escape_default c =
     (if c = 9 then [92, 116] else if c = 13 then [92, 114] else if c = 10 then [92, 110]
      else if c = 39 \<or> c = 34 \<or> c = 92 then [92, c]
      else if 0x20 \<le> c \<and> c \<le> 0x7E then [c]
      else [92, 117, 123] @ hex c @ [125])"

definition shell_label :: "chars \<Rightarrow> chars" where
  "shell_label s = map (\<lambda>c. if is_control c \<or> c = 39 then 63 else c) s"

definition terminal :: "chars \<Rightarrow> chars" where
  "terminal s = concat (map (\<lambda>c. if is_control c then escape_default c else [c]) s)"

definition show_text :: "chars \<Rightarrow> chars" where
  "show_text raw = (if list_ex is_control raw then terminal raw else raw)"

text \<open>\<open>OsStr\<close>, as the interface shows it.\<close>

definition show_os_str :: "string \<Rightarrow> chars" where
  "show_os_str n = show_text (to_string_lossy n)"

section \<open>Names of temporary files\<close>

definition STAGING_NAME_KEPT :: nat where
  "STAGING_NAME_KEPT = 64"

text \<open>The loop of \<open>utf8_prefix_len\<close>: back over continuation bytes, three steps at most.\<close>

fun cut_back :: "string \<Rightarrow> nat \<Rightarrow> nat \<Rightarrow> nat" where
  "cut_back bytes room 0 = 0"
| "cut_back bytes room (Suc k) =
     (if room - Suc k < 3 \<and> and (of_char (bytes ! Suc k)) 0xC0 = (0x80 :: nat) then cut_back bytes room k else Suc k)"

definition utf8_prefix_len :: "string \<Rightarrow> nat \<Rightarrow> nat" where
  "utf8_prefix_len bytes room = (if length bytes \<le> room then length bytes else cut_back bytes room room)"

text \<open>The process id, the clock and the counter of the process are read at the call.\<close>

definition staging_prefix :: "nat \<Rightarrow> nat \<Rightarrow> nat \<Rightarrow> string" where
  "staging_prefix pid nanos seq = ''.dedcom-tmp-'' @ decimal pid @ ''-'' @ decimal nanos @ ''-'' @ decimal seq @ ''-''"

definition staging_path :: "nat \<Rightarrow> nat \<Rightarrow> nat \<Rightarrow> path \<Rightarrow> string option \<Rightarrow> path" where
  "staging_path pid nanos seq dir name =
     (let base = (case name of Some n \<Rightarrow> n | None \<Rightarrow> ''item'') in
      join dir [Normal (staging_prefix pid nanos seq @ take (utf8_prefix_len base STAGING_NAME_KEPT) base)])"

section \<open>Inert text\<close>

lemma hex_inert: "c \<in> set (hex n) \<Longrightarrow> \<not> is_control c"
proof (induction n rule: hex.induct)
  case (1 n)
  have d: "\<not> is_control (hex_digit d)" if "d < 16" for d
    using that by (auto simp: hex_digit_def is_control_def)
  show ?case using "1" d by (subst (asm) (2) hex.simps) (auto split: if_splits)
qed

lemma escape_inert: "is_control c \<Longrightarrow> d \<in> set (escape_default c) \<Longrightarrow> \<not> is_control d"
  using hex_inert by (auto simp: escape_default_def is_control_def split: if_splits)

lemma terminal_inert: "c \<in> set (terminal s) \<Longrightarrow> \<not> is_control c"
  using escape_inert by (auto simp: terminal_def split: if_splits)

lemma terminal_clean: "(\<And>c. c \<in> set s \<Longrightarrow> \<not> is_control c) \<Longrightarrow> terminal s = s"
  by (induction s) (auto simp: terminal_def)

lemma hex_length: "c < 256 \<Longrightarrow> length (hex c) \<le> 2"
  by (subst hex.simps, subst hex.simps) auto

lemma escape_length: "is_control c \<Longrightarrow> length (escape_default c) \<le> 6"
  using hex_length [of c] by (auto simp: escape_default_def is_control_def)

lemma terminal_length: "length (terminal s) \<le> 6 * length s"
proof (induction s)
  case (Cons c s)
  then show ?case using escape_length [of c] by (auto simp: terminal_def)
qed (simp add: terminal_def)

text \<open>
  Nothing that is shown can act. Whatever bytes a name is made of, what the interface, the
  log and the terminal get of it holds no control character and is at most six times as long; text
  without control characters is shown as it is; and a label in the script holds neither a control
  character, so it cannot end its line, nor an apostrophe, so it cannot leave its quotes, and is as
  long as what it labels.
\<close>
theorem shown_text_is_inert:
  "list_all (\<lambda>c. \<not> is_control c) (terminal s) \<and> length (terminal s) \<le> 6 * length s
   \<and> (terminal s = s \<longleftrightarrow> list_all (\<lambda>c. \<not> is_control c) s)
   \<and> show_text s = terminal s \<and> list_all (\<lambda>c. \<not> is_control c) (show_os_str n)
   \<and> list_all (\<lambda>c. \<not> is_control c \<and> c \<noteq> 39) (shell_label s) \<and> length (shell_label s) = length s"
proof -
  have inert: "list_all (\<lambda>c. \<not> is_control c) (terminal r)" for r using terminal_inert by (auto simp: list_all_iff)
  have id: "terminal r = r" if "list_all (\<lambda>c. \<not> is_control c) r" for r
    using that terminal_clean by (auto simp: list_all_iff)
  have shown: "show_text r = terminal r" for r
    using id [of r] by (auto simp: show_text_def list_ex_iff list_all_iff)
  have "list_all (\<lambda>c. \<not> is_control c \<and> c \<noteq> 39) (shell_label s)"
    by (auto simp: shell_label_def list_all_iff is_control_def)
  moreover have "terminal s = s \<longleftrightarrow> list_all (\<lambda>c. \<not> is_control c) s" using id [of s] inert [of s] by metis
  ultimately show ?thesis
    using inert terminal_length [of s] by (simp add: shown show_os_str_def) (simp add: shell_label_def)
qed

section \<open>Short names\<close>

lemma and_push_bit: "and n (push_bit k m) = (push_bit k (and (drop_bit k n) m) :: nat)"
  by (rule bit_eqI) (auto simp: bit_and_iff bit_push_bit_iff bit_drop_bit_eq)

lemma and_high_bits: "and n 0xC0 = (64 * (n div 64 mod 4) :: nat)"
proof -
  have "and n 0xC0 = push_bit 6 (and (drop_bit 6 n) 3)"
    unfolding and_push_bit [symmetric] by (simp add: push_bit_eq_mult)
  moreover have "and (drop_bit 6 n) 3 = take_bit 2 (drop_bit 6 n)"
    by (simp add: take_bit_eq_mask mask_eq_exp_minus_1)
  ultimately show ?thesis by (simp add: push_bit_eq_mult drop_bit_eq_div take_bit_eq_mod)
qed

lemma cont_iff:
  assumes "n < 256"
  shows "and n 0xC0 = (0x80 :: nat) \<longleftrightarrow> cont n"
proof -
  have "n div 64 < 4" using assms by (simp add: less_mult_imp_div_less)
  then have "and n 0xC0 = (0x80 :: nat) \<longleftrightarrow> n div 64 = 2" by (simp add: and_high_bits)
  also have "\<dots> \<longleftrightarrow> 128 \<le> n \<and> n < 192"
    using div_nat_eqI [of 64 2 n] div_mult_mod_eq [of n 64] mod_less_divisor [of 64 n] by linarith
  finally show ?thesis by (auto simp: cont_def)
qed

lemma of_char_256: "of_char c < (256 :: nat)"
  by (rule nat_of_char_less_256)

lemma cut_back_le: "cut_back b room k \<le> k"
  by (induction k) (auto intro: le_SucI)

lemma cut_back_near: "k \<le> room \<Longrightarrow> room - k \<le> 3 \<Longrightarrow> room - cut_back b room k \<le> 3"
  by (induction k) auto

lemma cut_back_stops:
  "k \<le> room \<Longrightarrow> cut_back b room k = 0 \<or> room - cut_back b room k \<ge> 3 \<or> \<not> cont (of_char (b ! cut_back b room k))"
  by (induction k) (auto simp: cont_iff [OF of_char_256])

lemma cut_back_skips: "cut_back b room k < j \<Longrightarrow> j \<le> k \<Longrightarrow> cont (of_char (b ! j))"
  by (induction k) (auto simp: cont_iff [OF of_char_256] le_Suc_eq split: if_splits)

text \<open>The first character of a well-formed sequence.\<close>

definition utf8_char :: "nat list \<Rightarrow> bool" where
  "utf8_char c \<longleftrightarrow> c \<noteq> [] \<and> length c \<le> 4 \<and> \<not> cont (hd c) \<and> (\<forall>b \<in> set (tl c). cont b)
     \<and> (\<forall>r. utf8_ok r \<longrightarrow> utf8_ok (c @ r)) \<and> (\<forall>k. 0 < k \<longrightarrow> k < length c \<longrightarrow> \<not> utf8_ok (take k c))"

lemma lead_not_cont: "b < 0x80 \<or> 0xC0 \<le> b \<Longrightarrow> \<not> cont b"
  by (auto simp: cont_def)

lemma utf8_char1: "b0 < 0x80 \<Longrightarrow> utf8_char [b0]"
  by (simp add: utf8_char_def lead_not_cont)

lemma utf8_char2: "0xC2 \<le> b0 \<Longrightarrow> b0 \<le> 0xDF \<Longrightarrow> cont b1 \<Longrightarrow> utf8_char [b0, b1]"
  by (auto simp: utf8_char_def lead_not_cont less_Suc_eq take_Suc)

lemma utf8_char3: "0xE0 \<le> b0 \<Longrightarrow> b0 \<le> 0xEF \<Longrightarrow> second3 b0 b1 \<Longrightarrow> cont b2 \<Longrightarrow> utf8_char [b0, b1, b2]"
  by (auto simp: utf8_char_def second3_def lead_not_cont less_Suc_eq take_Suc numeral_2_eq_2)

lemma utf8_char4: "0xF0 \<le> b0 \<Longrightarrow> b0 \<le> 0xF4 \<Longrightarrow> second4 b0 b1 \<Longrightarrow> cont b2 \<Longrightarrow> cont b3 \<Longrightarrow> utf8_char [b0, b1, b2, b3]"
  by (auto simp: utf8_char_def second4_def lead_not_cont less_Suc_eq take_Suc numeral_2_eq_2 numeral_3_eq_3)

lemma utf8_head:
  assumes "utf8_ok b" "b \<noteq> []"
  obtains c r where "b = c @ r" "utf8_char c" "utf8_ok r" "utf8_chunks b = Some c # utf8_chunks r"
proof -
  obtain b0 bs where b: "b = b0 # bs" using assms(2) by (cases b) auto
  have ok: "utf8_ok (b0 # bs)" using assms(1) b by simp
  consider "b0 < 0x80" | "0xC2 \<le> b0 \<and> b0 \<le> 0xDF" | "0xE0 \<le> b0 \<and> b0 \<le> 0xEF" | "0xF0 \<le> b0 \<and> b0 \<le> 0xF4"
    using ok by (auto split: if_splits)
  then show thesis
  proof cases
    case 1
    then show thesis using that [of "[b0]" bs] utf8_char1 ok b by simp
  next
    case 2
    then obtain b1 r where "bs = b1 # r" "cont b1" "utf8_ok r" using ok by (auto split: list.splits)
    then show thesis using that [of "[b0, b1]" r] utf8_char2 2 b by simp
  next
    case 3
    then obtain b1 b2 r where "bs = b1 # b2 # r" "second3 b0 b1" "cont b2" "utf8_ok r"
      using ok by (auto simp: second3_def split: list.splits)
    then show thesis using that [of "[b0, b1, b2]" r] utf8_char3 3 b by simp
  next
    case 4
    then obtain b1 b2 b3 r where "bs = b1 # b2 # b3 # r" "second4 b0 b1" "cont b2" "cont b3" "utf8_ok r"
      using ok by (auto simp: second4_def split: list.splits)
    then show thesis using that [of "[b0, b1, b2, b3]" r] utf8_char4 4 b by simp
  qed
qed

lemma utf8_char_ok: "utf8_char c \<Longrightarrow> utf8_ok c"
  unfolding utf8_char_def by (metis append_Nil2 utf8_ok.simps(1))

lemma utf8_char_prefix: "utf8_char c \<Longrightarrow> utf8_char c' \<Longrightarrow> c = c' @ us \<Longrightarrow> c = c'"
proof -
  assume c: "utf8_char c" "utf8_char c'" "c = c' @ us"
  have "take (length c') c = c'" using c(3) by simp
  then have "utf8_ok (take (length c') c)" using utf8_char_ok [OF c(2)] by simp
  moreover have "0 < length c'" using c(2) by (simp add: utf8_char_def)
  ultimately have "\<not> length c' < length c" using c(1) by (auto simp: utf8_char_def)
  with c(3) show "c = c'" by simp
qed

lemma utf8_char_unique: "utf8_char c \<Longrightarrow> utf8_char c' \<Longrightarrow> c @ r = c' @ r' \<Longrightarrow> c = c'"
  by (auto simp: append_eq_append_conv2 dest: utf8_char_prefix)

lemma utf8_chunks_ok:
  "utf8_ok b \<Longrightarrow> concat (map (\<lambda>chunk. case chunk of Some c \<Rightarrow> c | None \<Rightarrow> [0xEF, 0xBF, 0xBD]) (utf8_chunks b)) = b"
proof (induction b rule: length_induct)
  case (1 b)
  show ?case
  proof (cases "b = []")
    case False
    then obtain c r where b: "b = c @ r" "utf8_char c" "utf8_ok r" "utf8_chunks b = Some c # utf8_chunks r"
      using utf8_head [OF "1.prems"] by blast
    then have "length r < length b" by (simp add: utf8_char_def)
    then show ?thesis using "1.IH" b by simp
  qed simp
qed

lemma lossy_utf8: "utf8_ok (map of_char n) \<Longrightarrow> lossy n = n"
  by (simp add: lossy_def utf8_chunks_ok comp_def)

text \<open>A well-formed sequence may be cut exactly before the bytes that do not continue a character.\<close>

lemma utf8_cut:
  "utf8_ok b \<Longrightarrow> i < length b \<Longrightarrow>
     (utf8_ok (take i b) \<longleftrightarrow> \<not> cont (b ! i)) \<and> (\<exists>j. j \<le> i \<and> i \<le> j + 3 \<and> \<not> cont (b ! j))"
proof (induction b arbitrary: i rule: length_induct)
  case (1 b)
  obtain c r where b: "b = c @ r" and c: "utf8_char c" and r: "utf8_ok r"
  proof -
    have "b \<noteq> []" using "1.prems"(2) by auto
    with utf8_head [OF "1.prems"(1)] that show thesis by blast
  qed
  have c0: "c \<noteq> []" "length c \<le> 4" "\<not> cont (c ! 0)" using c by (auto simp: utf8_char_def hd_conv_nth)
  show ?case
  proof (cases "i < length c")
    case True
    have j: "\<exists>j. j \<le> i \<and> i \<le> j + 3 \<and> \<not> cont (b ! j)" using True c0 by (intro exI [of _ 0]) (auto simp: b nth_append)
    show ?thesis
    proof (cases "i = 0")
      case True
      then show ?thesis using c0 j by (simp add: b nth_append)
    next
      case False
      then obtain k where k: "i = Suc k" by (cases i) auto
      then have "tl c ! k = c ! i" "k < length (tl c)" using True by (simp_all add: nth_tl)
      then have "c ! i \<in> set (tl c)" by (metis nth_mem)
      then have "cont (b ! i)" using c True by (simp add: utf8_char_def b nth_append)
      moreover have "\<not> utf8_ok (take i b)" using c True False by (simp add: utf8_char_def b)
      ultimately show ?thesis using j by blast
    qed
  next
    case False
    let ?i = "i - length c"
    have i: "?i < length r" "length r < length b" using False "1.prems"(2) c0(1) by (auto simp: b)
    have ih: "(utf8_ok (take ?i r) \<longleftrightarrow> \<not> cont (r ! ?i)) \<and> (\<exists>j. j \<le> ?i \<and> ?i \<le> j + 3 \<and> \<not> cont (r ! j))"
      using "1.IH" i r by blast
    obtain j where j: "j \<le> ?i" "?i \<le> j + 3" "\<not> cont (r ! j)" using ih by blast
    have "utf8_ok (take i b) \<longleftrightarrow> utf8_ok (take ?i r)"
    proof
      assume t: "utf8_ok (take i b)"
      have "take i b = c @ take ?i r" using False by (simp add: b)
      with t c0(1) obtain c' r' where e: "c @ take ?i r = c' @ r'" "utf8_char c'" "utf8_ok r'"
        using utf8_head by (metis append_is_Nil_conv)
      have "c' = c" using utf8_char_unique [OF c e(2,1)] by simp
      then show "utf8_ok (take ?i r)" using e(1,3) by simp
    next
      assume "utf8_ok (take ?i r)"
      then show "utf8_ok (take i b)" using c False by (simp add: utf8_char_def b)
    qed
    moreover have "b ! i = r ! ?i" using False by (simp add: b nth_append)
    moreover have "\<exists>j. j \<le> i \<and> i \<le> j + 3 \<and> \<not> cont (b ! j)"
      using j False by (intro exI [of _ "length c + j"]) (auto simp: b nth_append)
    ultimately show ?thesis using ih by simp
  qed
qed

lemma decimal_length: "n < 10 ^ k \<Longrightarrow> 0 < k \<Longrightarrow> length (decimal n) \<le> k"
proof (induction n arbitrary: k rule: decimal.induct)
  case (1 n)
  show ?case
  proof (cases "n < 10")
    case True
    then show ?thesis using "1.prems" by (subst decimal.simps) simp
  next
    case False
    obtain j where j: "k = Suc j" using "1.prems"(2) by (cases k) auto
    have "0 < j" using False "1.prems"(1) j by (cases j) auto
    moreover have "n div 10 < 10 ^ j" using "1.prems"(1) by (simp add: j less_mult_imp_div_less)
    ultimately have "length (decimal (n div 10)) \<le> j" using "1.IH" False by blast
    then show ?thesis using False j by (subst decimal.simps) simp
  qed
qed

lemma prefix_len_bounds:
  "utf8_prefix_len n room \<le> room \<and> utf8_prefix_len n room \<le> length n
   \<and> (length n \<le> room \<longrightarrow> utf8_prefix_len n room = length n) \<and> (room < length n \<longrightarrow> room \<le> utf8_prefix_len n room + 3)"
  using cut_back_le [of n room room] cut_back_near [of room room n] by (auto simp: utf8_prefix_len_def)

lemma prefix_len_cut:
  assumes ok: "utf8_ok (map of_char n)" and long: "room < length n"
  shows "utf8_ok (map of_char (take (utf8_prefix_len n room) n))"
    and "j \<le> room \<Longrightarrow> utf8_ok (map of_char (take j n)) \<Longrightarrow> j \<le> utf8_prefix_len n room"
proof -
  let ?k = "cut_back n room room"
  have k: "utf8_prefix_len n room = ?k" using long by (simp add: utf8_prefix_len_def)
  have le: "?k < length n" using cut_back_le [of n room room] long by simp
  note cut = utf8_cut [OF ok]
  obtain j where j: "j \<le> room" "room \<le> j + 3" "\<not> cont (of_char (n ! j))"
    using cut [of room] long by (auto simp: nth_map)
  have "\<not> cont (of_char (n ! ?k))"
  proof (cases "?k < j")
    case True
    then show ?thesis using cut_back_skips [of n room room j] j by blast
  next
    case False
    then consider "?k = j" | "room - ?k < 3" using j by linarith
    then show ?thesis
    proof cases
      case 1
      then show ?thesis using j by simp
    next
      case 2
      moreover have "\<not> cont (of_char (n ! 0))" using cut [of 0] long by (cases n) auto
      ultimately show ?thesis using cut_back_stops [of room room n] by fastforce
    qed
  qed
  then show "utf8_ok (map of_char (take (utf8_prefix_len n room) n))"
    using cut [of ?k] le by (simp add: k take_map nth_map)
  show "j \<le> utf8_prefix_len n room" if h: "j \<le> room" "utf8_ok (map of_char (take j n))" for j
  proof (rule ccontr)
    assume "\<not> j \<le> utf8_prefix_len n room"
    then have "cont (of_char (n ! j))" using cut_back_skips [of n room room j] h k by simp
    moreover have "\<not> cont (of_char (n ! j))" using cut [of j] h long by (simp add: take_map nth_map)
    ultimately show False by blast
  qed
qed

text \<open>
  Claim C17. A temporary name always fits. With a process id of seven digits, a clock of twenty and any
  64-bit counter it is at most 126 bytes, and even when every kept byte of the target's name grows into
  three it stays within the 255 a file system allows. What is kept of a UTF-8 name is its longest start
  within the limit that is UTF-8 again; of any other name nothing but the last three bytes below the
  limit can be lost.
\<close>
theorem staging_name_fits:
  assumes "pid < 10 ^ 7" "nanos < 10 ^ 20" "seq < 2 ^ 64"
    and name: "staging_path pid nanos seq dir (Some n) = dir @ [Normal staged]" and dir: "dir \<noteq> []"
  shows "length staged \<le> 126 \<and> length (staging_prefix pid nanos seq) + 3 * STAGING_NAME_KEPT \<le> 255
    \<and> (\<exists>kept. staged = staging_prefix pid nanos seq @ kept \<and> prefix kept n
        \<and> (length n \<le> STAGING_NAME_KEPT \<longrightarrow> kept = n) \<and> (STAGING_NAME_KEPT < length n \<longrightarrow> STAGING_NAME_KEPT \<le> length kept + 3)
        \<and> (utf8_ok (map of_char n) \<longrightarrow> utf8_ok (map of_char kept)
            \<and> (\<forall>j \<le> STAGING_NAME_KEPT. utf8_ok (map of_char (take j n)) \<longrightarrow> length (take j n) \<le> length kept)))"
proof -
  define kept where "kept = take (utf8_prefix_len n STAGING_NAME_KEPT) n"
  have "(2::nat) ^ 64 < 10 ^ 20" by simp
  then have "seq < 10 ^ 20" using assms(3) by (rule less_trans [rotated])
  then have p: "length (staging_prefix pid nanos seq) \<le> 62"
    using decimal_length [of pid 7] decimal_length [of nanos 20] decimal_length [of seq 20] assms(1,2)
    by (simp add: staging_prefix_def)
  have s: "staged = staging_prefix pid nanos seq @ kept"
    using name by (simp add: staging_path_def join_def kept_def)
  note b = prefix_len_bounds [of n STAGING_NAME_KEPT]
  have l: "length kept = utf8_prefix_len n STAGING_NAME_KEPT" using b by (simp add: kept_def)
  have u: "utf8_ok (map of_char kept) \<and> (\<forall>j \<le> STAGING_NAME_KEPT. utf8_ok (map of_char (take j n)) \<longrightarrow> length (take j n) \<le> length kept)"
    if ok: "utf8_ok (map of_char n)"
  proof (cases "length n \<le> STAGING_NAME_KEPT")
    case True
    then show ?thesis using ok b by (simp add: kept_def)
  next
    case False
    then show ?thesis using prefix_len_cut [OF ok, of STAGING_NAME_KEPT] unfolding l by (auto simp: kept_def)
  qed
  have "length staged \<le> 126" using s p l b by (simp add: STAGING_NAME_KEPT_def)
  moreover have "length (staging_prefix pid nanos seq) + 3 * STAGING_NAME_KEPT \<le> 255" using p by (simp add: STAGING_NAME_KEPT_def)
  moreover have "length n \<le> STAGING_NAME_KEPT \<longrightarrow> kept = n" "STAGING_NAME_KEPT < length n \<longrightarrow> STAGING_NAME_KEPT \<le> length kept + 3"
    using b l by (auto simp: kept_def)
  ultimately show ?thesis using s u take_is_prefix [of _ n] by (auto simp: kept_def)
qed

definition long_name :: string where
  "long_name = replicate 63 CHR ''a'' @ [CHR 0xD0, CHR 0x96, CHR ''b'']"

theorem staging_name_fits_witness:
  "\<exists>kept. staging_path 4242 1700000000 5 [RootDir] (Some long_name) = [RootDir, Normal (staging_prefix 4242 1700000000 5 @ kept)]
     \<and> utf8_ok (map of_char kept) \<and> length kept = 63"
proof -
  have step: "cut_back b room k = (if k = 0 then 0 else if room - k < 3 \<and> and (of_char (b ! k)) 0xC0 = (0x80 :: nat)
      then cut_back b room (k - 1) else k)" for b room k by (cases k) simp_all
  have "cut_back long_name 64 64 = cut_back long_name 64 63"
    by (subst step) (simp add: long_name_def nth_append and_high_bits)
  also have "\<dots> = 63" by (subst step) (simp add: long_name_def nth_append and_high_bits)
  finally have "utf8_prefix_len long_name STAGING_NAME_KEPT = 63"
    by (simp add: utf8_prefix_len_def STAGING_NAME_KEPT_def long_name_def)
  then obtain staged where s: "staging_path 4242 1700000000 5 [RootDir] (Some long_name) = [RootDir] @ [Normal staged]"
    "staged = staging_prefix 4242 1700000000 5 @ take 63 long_name"
    by (simp add: staging_path_def join_def)
  have "utf8_ok (replicate k 97 @ [208, 150, 98])" for k by (induction k) (simp_all add: cont_def)
  then have "utf8_ok (map of_char long_name)" by (simp add: long_name_def map_replicate)
  then show ?thesis
    using staging_name_fits [of 4242 1700000000 5 "[RootDir]" long_name staged] s by (auto simp: long_name_def)
qed

end
