(* ===== verification/Dir_Groups.thy ===== *)
theory Dir_Groups
  imports Completeness_Props Text_Safety
begin

text \<open>
  \<open>model/duplicate.rs\<close>, second part: directories with the same scanned contents. \<open>build_dir_groups\<close>
  (the default, "Old") signs every directory with the digest of its sorted (relative path, file hash)
  list; \<open>build_dir_signatures_streaming\<close> ("Merkle") signs it with the digest of its children's
  signatures in one pass over sorted input. The digest is a parameter. The hash maps of the source are
  ordered maps here: what is read from them is sorted afterwards. A path is spelled by joining its
  components, as the walk that produced the manifest joined them.
\<close>

type_synonym u32 = "32 word"
type_synonym hasher = "string \<Rightarrow> string"

datatype dir_trust = TrustedDir | UntrustedDir

record dir_group =
  gd_id :: u32
  gd_signature :: string
  gd_paths :: "path list"
  gd_file_count :: u32
  gd_size_per_dir :: u64

record attributed_group =
  ag_group :: dir_group
  ag_member_trust :: "dir_trust list"
  ag_trust :: dir_trust

definition reclaimable_bytes :: "dir_group \<Rightarrow> u64" where
  "reclaimable_bytes g = saturating_mul (gd_size_per_dir g) (of_nat (length (gd_paths g) - 1))"

text \<open>\<open>by_benefit\<close> as a key: most reclaimable first, then by signature.\<close>

definition benefit_key :: "attributed_group \<Rightarrow> int \<times> string" where
  "benefit_key a = (- uint (reclaimable_bytes (ag_group a)), gd_signature (ag_group a))"

definition sort_attributed_by_benefit :: "attributed_group list \<Rightarrow> attributed_group list" where
  "sort_attributed_by_benefit groups =
     map (\<lambda>(i, a). a\<lparr>ag_group := (ag_group a)\<lparr>gd_id := of_nat i\<rparr>\<rparr>) (enumerate 0 (sort_key benefit_key groups))"

fun spell_comp :: "comp \<Rightarrow> string" where
  "spell_comp RootDir = ''/''"
| "spell_comp CurDir = ''.''"
| "spell_comp ParentDir = ''..''"
| "spell_comp (Normal n) = n"

fun spell_rel :: "path \<Rightarrow> string" where
  "spell_rel [] = []"
| "spell_rel [c] = spell_comp c"
| "spell_rel (c # cs) = spell_comp c @ ''/'' @ spell_rel cs"

definition accountable_ancestors :: "path \<Rightarrow> dir_scope \<Rightarrow> path list" where
  "accountable_ancestors p scope =
     (case scope of
        Outside \<Rightarrow> []
      | Unbounded \<Rightarrow> tl (ancestors p)
      | ScopeRoot root \<Rightarrow> takeWhile (\<lambda>dir. starts_with dir (components root)) (tl (ancestors p)))"

datatype dir_error = OutsideEveryRoot path

type_synonym manifest_file = "path \<times> u64 \<times> string option"

section \<open>The default build\<close>

record dir_accum =
  da_entries :: "(string \<times> string) list"
  da_total :: u64
  da_count :: u32
  da_incomplete :: bool

definition empty_accum :: dir_accum where
  "empty_accum = \<lparr>da_entries = [], da_total = 0, da_count = 0, da_incomplete = False\<rparr>"

definition add_to_dir :: "string \<Rightarrow> u64 \<Rightarrow> string option \<Rightarrow> dir_accum \<Rightarrow> dir_accum" where
  "add_to_dir rel sz hash a =
     (case hash of
        Some h \<Rightarrow> a\<lparr>da_entries := da_entries a @ [(rel, h)], da_total := da_total a + sz, da_count := da_count a + 1\<rparr>
      | None \<Rightarrow> a\<lparr>da_incomplete := True\<rparr>)"

definition account_dir :: "manifest_file \<Rightarrow> path \<Rightarrow> (path \<times> dir_accum) list \<Rightarrow> (path \<times> dir_accum) list" where
  "account_dir = (\<lambda>(p, sz, hash) dir by_dir.
     case strip_prefix p dir of
       None \<Rightarrow> by_dir
     | Some rel \<Rightarrow>
         bt_update dir (\<lambda>old. add_to_dir (lossy (spell_rel rel)) sz hash (case old of None \<Rightarrow> empty_accum | Some a \<Rightarrow> a)) by_dir)"

definition account_file :: "signature_context \<Rightarrow> (path \<times> dir_accum) list \<Rightarrow> manifest_file \<Rightarrow> dir_error + (path \<times> dir_accum) list" where
  "account_file ctx by_dir file =
     (let scope = ctx_scope ctx (fst file) in
      if scope = Outside then Inl (OutsideEveryRoot (fst file))
      else Inr (fold (account_dir file) (accountable_ancestors (fst file) scope) by_dir))"

definition NUL :: char where
  "NUL = CHR 0x00"

definition signature_of :: "hasher \<Rightarrow> (string \<times> string) list \<Rightarrow> string" where
  "signature_of blake3 entries = blake3 (concat (map (\<lambda>(rel, hash). rel @ [NUL] @ hash @ [NUL]) (sort entries)))"

fun trust_of :: "dir_disposition \<Rightarrow> dir_trust option" where
  "trust_of Suppressed = None"
| "trust_of Trusted = Some TrustedDir"
| "trust_of Untrusted = Some UntrustedDir"

type_synonym dir_row = "string \<times> path \<times> u64 \<times> u32 \<times> dir_trust"

definition dir_row :: "hasher \<Rightarrow> signature_context \<Rightarrow> path \<times> dir_accum \<Rightarrow> dir_row option" where
  "dir_row blake3 ctx = (\<lambda>(dir, a).
     if da_incomplete a then None
     else map_option (\<lambda>trust. (signature_of blake3 (da_entries a), dir, da_total a, da_count a, trust))
       (trust_of (ctx_disposition ctx dir)))"

definition group_of_rows :: "string \<times> dir_row list \<Rightarrow> attributed_group" where
  "group_of_rows = (\<lambda>(sig, dirs).
     let members = sort_key fst (map (\<lambda>(_, dir, _, _, trust). (dir, trust)) dirs);
         (sz, files) = (case dirs of (_, _, sz, files, _) # _ \<Rightarrow> (sz, files) | [] \<Rightarrow> (0, 0)) in
     \<lparr>ag_group = \<lparr>gd_id = 0, gd_signature = sig, gd_paths = map fst members, gd_file_count = files, gd_size_per_dir = sz\<rparr>,
      ag_member_trust = map snd members,
      ag_trust = (if list_all (\<lambda>(_, trust). trust = TrustedDir) members then TrustedDir else UntrustedDir)\<rparr>)"

definition build_dir_groups_in_context :: "hasher \<Rightarrow> manifest_file list \<Rightarrow> signature_context \<Rightarrow> dir_error + attributed_group list" where
  "build_dir_groups_in_context blake3 files ctx =
     rbind (rfold (account_file ctx) [] files) (\<lambda>by_dir.
     let by_sig = group_by fst (List.map_filter (dir_row blake3 ctx) by_dir) in
     Inr (sort_attributed_by_benefit (map group_of_rows (filter (\<lambda>(_, dirs). 2 \<le> length dirs) by_sig))))"

section \<open>The streaming build\<close>

record frame =
  fr_path :: path
  fr_entries :: "(string \<times> string) list"
  fr_size :: u64
  fr_count :: u32
  fr_incomplete :: bool

record dir_signature =
  ds_path :: path
  ds_signature :: string
  ds_size :: u64
  ds_file_count :: u32
  ds_trust :: dir_trust

text \<open>
  The stack is kept with its top first; what was emitted so far is carried along, oldest first (the
  source hands each to a callback, whose failure would end the build).
\<close>

type_synonym stream_state = "frame list \<times> dir_signature list"

definition base_name :: "path \<Rightarrow> string" where
  "base_name p = (case file_name p of Some n \<Rightarrow> lossy n | None \<Rightarrow> [])"

definition on_top :: "(frame \<Rightarrow> frame) \<Rightarrow> frame list \<Rightarrow> frame list" where
  "on_top f stack = (case stack of [] \<Rightarrow> [] | head # rest \<Rightarrow> f head # rest)"

definition close_frame :: "hasher \<Rightarrow> signature_context \<Rightarrow> frame \<Rightarrow> stream_state \<Rightarrow> stream_state" where
  "close_frame blake3 ctx popped = (\<lambda>(stack, out).
     case (if fr_incomplete popped then None else trust_of (ctx_disposition ctx (fr_path popped))) of
       None \<Rightarrow> (on_top (\<lambda>parent. parent\<lparr>fr_incomplete := True\<rparr>) stack, out)
     | Some trust \<Rightarrow>
         let sig = signature_of blake3 (fr_entries popped) in
         (on_top (\<lambda>parent. parent\<lparr>fr_entries := fr_entries parent @ [(base_name (fr_path popped), sig)],
             fr_size := fr_size parent + fr_size popped, fr_count := fr_count parent + fr_count popped\<rparr>) stack,
          out @ [\<lparr>ds_path = fr_path popped, ds_signature = sig, ds_size = fr_size popped,
             ds_file_count = fr_count popped, ds_trust = trust\<rparr>]))"

text \<open>Closing from the top while a condition holds of the top frame.\<close>

lemma on_top_length [simp]: "length (on_top f stack) = length stack"
  by (simp add: on_top_def split: list.split)

function close_while :: "hasher \<Rightarrow> signature_context \<Rightarrow> (frame \<Rightarrow> bool) \<Rightarrow> stream_state \<Rightarrow> stream_state" where
  "close_while blake3 ctx P (stack, out) =
     (case stack of
        [] \<Rightarrow> (stack, out)
      | head # rest \<Rightarrow> if P head then close_while blake3 ctx P (close_frame blake3 ctx head (rest, out)) else (stack, out))"
  by pat_completeness auto
termination
  by (relation "measure (\<lambda>(_, _, _, stack, _). length stack)")
     (auto simp: close_frame_def Let_def split: option.splits)

declare close_while.simps [simp del]

definition open_frames :: "path list \<Rightarrow> frame list \<Rightarrow> frame list" where
  "open_frames dirs stack =
     fold (\<lambda>dir stack. if list_ex (\<lambda>frame. fr_path frame = dir) stack then stack
       else \<lparr>fr_path = dir, fr_entries = [], fr_size = 0, fr_count = 0, fr_incomplete = False\<rparr> # stack) dirs stack"

definition add_child :: "manifest_file \<Rightarrow> frame \<Rightarrow> frame" where
  "add_child = (\<lambda>(p, sz, hash) head.
     case hash of
       Some h \<Rightarrow> head\<lparr>fr_entries := fr_entries head @ [(base_name p, h)], fr_size := fr_size head + sz, fr_count := fr_count head + 1\<rparr>
     | None \<Rightarrow> head\<lparr>fr_incomplete := True\<rparr>)"

text \<open>The bound of the open frames: unset, unbounded or a root.\<close>

definition bound_of :: "dir_scope \<Rightarrow> path option" where
  "bound_of scope = (case scope of ScopeRoot root \<Rightarrow> Some (components root) | _ \<Rightarrow> None)"

definition stream_file :: "hasher \<Rightarrow> signature_context \<Rightarrow> path option option \<times> stream_state \<Rightarrow> manifest_file
    \<Rightarrow> dir_error + path option option \<times> stream_state" where
  "stream_file blake3 ctx = (\<lambda>(bound, st) file.
     let p = fst file; scope = ctx_scope ctx p in
     if scope = Outside then Inl (OutsideEveryRoot p)
     else
       let file_bound = bound_of scope;
           st = (if bound \<noteq> None \<and> bound \<noteq> Some file_bound then close_while blake3 ctx (\<lambda>_. True) st else st);
           (stack, out) = close_while blake3 ctx (\<lambda>head. \<not> starts_with p (fr_path head)) st;
           stack = open_frames (rev (accountable_ancestors p scope)) stack in
       Inr (Some file_bound, on_top (add_child file) stack, out))"

definition build_dir_signatures_streaming_in_context :: "hasher \<Rightarrow> manifest_file list \<Rightarrow> signature_context
    \<Rightarrow> dir_error + dir_signature list" where
  "build_dir_signatures_streaming_in_context blake3 files ctx =
     rbind (rfold (stream_file blake3 ctx) (None, [], []) files) (\<lambda>(_, st).
     Inr (snd (close_while blake3 ctx (\<lambda>_. True) st)))"

end
