(* ===== verification/Dir_Groups_Props.thy ===== *)
theory Dir_Groups_Props
  imports Dir_Groups
begin

text \<open>
  What the groups of directories are: the classes of signed directories with the same scanned contents,
  each with the trust of its members.
\<close>

section \<open>Text without separators\<close>

lemma utf8_append: "utf8_ok a \<Longrightarrow> utf8_ok b \<Longrightarrow> utf8_ok (a @ b)"
proof (induction a rule: length_induct)
  case (1 a)
  show ?case
  proof (cases "a = []")
    case False
    then obtain c r where a: "a = c @ r" "utf8_char c" "utf8_ok r" using utf8_head [OF "1.prems"(1)] by blast
    then have "length r < length a" by (simp add: utf8_char_def)
    then have "utf8_ok (r @ b)" using "1.IH" a(3) "1.prems"(2) by blast
    then show ?thesis using a by (simp add: utf8_char_def)
  qed (use "1.prems" in simp)
qed

definition clean_path :: "path \<Rightarrow> bool" where
  "clean_path p \<longleftrightarrow> (\<forall>n. Normal n \<in> set p \<longrightarrow> utf8_ok (map of_char n) \<and> NUL \<notin> set n)"

lemma spell_rel_clean: "clean_path p \<Longrightarrow> utf8_ok (map of_char (spell_rel p)) \<and> NUL \<notin> set (spell_rel p)"
proof (induction p rule: spell_rel.induct)
  case (2 c)
  then show ?case by (cases c) (auto simp: clean_path_def NUL_def)
next
  case (3 c d cs)
  have "clean_path (d # cs)" using "3.prems" by (auto simp: clean_path_def)
  moreover have "utf8_ok (map of_char (spell_comp c)) \<and> NUL \<notin> set (spell_comp c)"
    using "3.prems" by (cases c) (auto simp: clean_path_def NUL_def)
  ultimately show ?case using "3.IH" by (auto simp: NUL_def utf8_append)
qed simp

text \<open>A list of NUL-free pairs is read back from its encoding.\<close>

definition encode_entries :: "(string \<times> string) list \<Rightarrow> string" where
  "encode_entries es = concat (map (\<lambda>(rel, hash). rel @ [NUL] @ hash @ [NUL]) es)"

lemma nul_split:
  assumes "NUL \<notin> set a" "NUL \<notin> set b" "a @ NUL # x = b @ NUL # y"
  shows "a = b \<and> x = y"
proof -
  have "takeWhile (\<lambda>c. c \<noteq> NUL) (a @ NUL # x) = a" "takeWhile (\<lambda>c. c \<noteq> NUL) (b @ NUL # y) = b"
    using assms(1,2) by (auto simp: takeWhile_append)
  with assms(3) show ?thesis by auto
qed

definition nul_free :: "(string \<times> string) list \<Rightarrow> bool" where
  "nul_free es \<longleftrightarrow> (\<forall>(rel, hash) \<in> set es. NUL \<notin> set rel \<and> NUL \<notin> set hash)"

lemma encode_entries_inj: "nul_free es \<Longrightarrow> nul_free fs \<Longrightarrow> encode_entries es = encode_entries fs \<Longrightarrow> es = fs"
proof (induction es arbitrary: fs)
  case Nil
  then show ?case by (cases fs) (auto simp: encode_entries_def)
next
  case (Cons e es)
  obtain r h where e: "e = (r, h)" by force
  obtain f fs' where f: "fs = f # fs'" using Cons.prems(3) by (cases fs) (auto simp: encode_entries_def e)
  obtain r' h' where f': "f = (r', h')" by force
  have eq: "r @ NUL # h @ NUL # encode_entries es = r' @ NUL # h' @ NUL # encode_entries fs'"
    using Cons.prems(3) by (simp add: encode_entries_def e f f')
  have "NUL \<notin> set r" "NUL \<notin> set r'" "NUL \<notin> set h" "NUL \<notin> set h'"
    using Cons.prems(1,2) by (auto simp: nul_free_def e f f')
  note n = this
  have rh: "r = r' \<and> h @ NUL # encode_entries es = h' @ NUL # encode_entries fs'" by (rule nul_split [OF n(1,2) eq])
  have he: "h = h' \<and> encode_entries es = encode_entries fs'" by (rule nul_split [OF n(3,4) conjunct2 [OF rh]])
  have "nul_free es" "nul_free fs'" using Cons.prems(1,2) by (simp_all add: nul_free_def f)
  then have "es = fs'" using conjunct2 [OF he] by (rule Cons.IH)
  then show ?case using rh he by (simp add: e f f')
qed

lemma signature_of_eq_iff:
  assumes "inj blake3" "nul_free es" "nul_free fs"
  shows "signature_of blake3 es = signature_of blake3 fs \<longleftrightarrow> mset es = mset fs"
proof -
  have "signature_of blake3 es = signature_of blake3 fs \<longleftrightarrow> encode_entries (sort es) = encode_entries (sort fs)"
    using assms(1) by (simp add: signature_of_def encode_entries_def inj_eq)
  also have "\<dots> \<longleftrightarrow> sort es = sort fs"
    using encode_entries_inj [of "sort es" "sort fs"] assms(2,3) by (auto simp: nul_free_def)
  also have "\<dots> \<longleftrightarrow> mset es = mset fs" by (metis mset_sort properties_for_sort sorted_sort)
  finally show ?thesis .
qed

section \<open>The accumulated directories\<close>

lemma ancestors_prefix: "q \<in> set (ancestors p) \<Longrightarrow> prefix q p"
proof (induction p rule: ancestors.induct)
  case (1 p)
  show ?case
  proof (cases "parent p")
    case None
    then show ?thesis using "1.prems" by (simp add: ancestors.simps [of p])
  next
    case (Some r)
    then show ?thesis
      using "1.prems" "1.IH" [OF Some] parent_prefix [OF Some]
      by (auto simp: ancestors.simps [of p] intro: prefix_order.trans)
  qed
qed

lemma ancestors_shorter: "parent p = Some r \<Longrightarrow> q \<in> set (ancestors r) \<Longrightarrow> length q < length p"
  using ancestors_prefix [of q r] parent_prefix [of p r] by (metis prefix_length_le prefix_length_less strict_prefixI le_less_trans)

lemma ancestors_distinct: "distinct (ancestors p)"
proof (induction p rule: ancestors.induct)
  case (1 p)
  show ?case
  proof (cases "parent p")
    case None
    then show ?thesis by (simp add: ancestors.simps [of p])
  next
    case (Some r)
    then have "distinct (ancestors r)" "p \<notin> set (ancestors r)"
      using "1.IH" [OF Some] ancestors_shorter [OF Some, of p] by auto
    then show ?thesis using Some by (simp add: ancestors.simps [of p])
  qed
qed

lemma ancestors_distinct_tl: "distinct (tl (ancestors p))"
  using ancestors_distinct by (metis distinct_tl)

lemma accountable_distinct: "distinct (accountable_ancestors p scope)"
  by (simp add: accountable_ancestors_def ancestors_distinct_tl distinct_takeWhile split: dir_scope.split)

lemma accountable_prefix: "d \<in> set (accountable_ancestors p scope) \<Longrightarrow> prefix d p"
proof -
  assume "d \<in> set (accountable_ancestors p scope)"
  then have "d \<in> set (tl (ancestors p))"
    by (auto simp: accountable_ancestors_def dest: set_takeWhileD split: dir_scope.splits)
  then have "d \<in> set (ancestors p)" by (cases "ancestors p") auto
  then show "prefix d p" by (rule ancestors_prefix)
qed

definition covers :: "signature_context \<Rightarrow> path \<Rightarrow> manifest_file \<Rightarrow> bool" where
  "covers ctx d mf \<longleftrightarrow> d \<in> set (accountable_ancestors (fst mf) (ctx_scope ctx (fst mf)))"

definition covered :: "signature_context \<Rightarrow> manifest_file list \<Rightarrow> path \<Rightarrow> manifest_file list" where
  "covered ctx files d = filter (covers ctx d) files"

definition rel_of :: "path \<Rightarrow> manifest_file \<Rightarrow> string" where
  "rel_of d mf = lossy (spell_rel (drop (length d) (fst mf)))"

definition accum_of :: "path \<Rightarrow> manifest_file list \<Rightarrow> dir_accum" where
  "accum_of d files = fold (\<lambda>mf. add_to_dir (rel_of d mf) (fst (snd mf)) (snd (snd mf))) files empty_accum"

lemma account_dir_get:
  assumes "bt_wf m" "prefix dir (fst mf)"
  shows "bt_wf (account_dir mf dir m) \<and> bt_get (account_dir mf dir m) d =
    (if d = dir then Some (add_to_dir (rel_of dir mf) (fst (snd mf)) (snd (snd mf))
        (case bt_get m dir of None \<Rightarrow> empty_accum | Some a \<Rightarrow> a))
     else bt_get m d)"
  using assms by (cases mf) (simp add: account_dir_def strip_prefix_def rel_of_def bt_wf_update bt_get_update)

lemma account_dirs_get:
  assumes "bt_wf m" "distinct dirs" "\<forall>dir \<in> set dirs. prefix dir (fst mf)"
  shows "bt_wf (fold (account_dir mf) dirs m) \<and> bt_get (fold (account_dir mf) dirs m) d =
    (if d \<in> set dirs then Some (add_to_dir (rel_of d mf) (fst (snd mf)) (snd (snd mf))
        (case bt_get m d of None \<Rightarrow> empty_accum | Some a \<Rightarrow> a))
     else bt_get m d)"
  using assms
proof (induction dirs arbitrary: m)
  case (Cons dir dirs)
  have p: "prefix dir (fst mf)" using Cons.prems(3) by simp
  note step = account_dir_get [OF Cons.prems(1) p]
  from Cons.IH [of "account_dir mf dir m"] step [of d] step [of dir] Cons.prems show ?case by auto
qed simp

definition holds_dirs :: "signature_context \<Rightarrow> manifest_file list \<Rightarrow> (path \<times> dir_accum) list \<Rightarrow> bool" where
  "holds_dirs ctx files m \<longleftrightarrow> bt_wf m \<and>
     (\<forall>d. bt_get m d = (if covered ctx files d = [] then None else Some (accum_of d (covered ctx files d))))"

lemma account_files:
  "rfold (account_file ctx) m files = Inr m' \<Longrightarrow> holds_dirs ctx done m \<Longrightarrow>
     holds_dirs ctx (done @ files) m' \<and> (\<forall>mf \<in> set files. ctx_scope ctx (fst mf) \<noteq> Outside)"
proof (induction files arbitrary: m "done")
  case (Cons mf files)
  let ?dirs = "accountable_ancestors (fst mf) (ctx_scope ctx (fst mf))"
  have o: "ctx_scope ctx (fst mf) \<noteq> Outside" and r: "rfold (account_file ctx) (fold (account_dir mf) ?dirs m) files = Inr m'"
    using Cons.prems(1) by (auto simp: account_file_def [of ctx m mf] Let_def result_simps split: if_splits)
  have w: "bt_wf m" using Cons.prems(2) by (simp add: holds_dirs_def)
  have p: "\<forall>dir \<in> set ?dirs. prefix dir (fst mf)" using accountable_prefix by blast
  note get = account_dirs_get [OF w accountable_distinct p]
  have "holds_dirs ctx (done @ [mf]) (fold (account_dir mf) ?dirs m)"
    unfolding holds_dirs_def
  proof (intro conjI allI)
    show "bt_wf (fold (account_dir mf) ?dirs m)" using get by blast
    fix d
    have c: "covers ctx d mf \<longleftrightarrow> d \<in> set ?dirs" by (simp add: covers_def)
    have "covered ctx (done @ [mf]) d = covered ctx done d @ (if d \<in> set ?dirs then [mf] else [])"
      by (simp add: covered_def c)
    then show "bt_get (fold (account_dir mf) ?dirs m) d =
        (if covered ctx (done @ [mf]) d = [] then None else Some (accum_of d (covered ctx (done @ [mf]) d)))"
      using get [of d] Cons.prems(2) by (auto simp: holds_dirs_def accum_of_def)
  qed
  from Cons.IH [OF r this] o show ?case by simp
qed simp

definition entries_of :: "path \<Rightarrow> manifest_file list \<Rightarrow> (string \<times> string) list" where
  "entries_of d files = List.map_filter (\<lambda>mf. map_option (\<lambda>h. (rel_of d mf, h)) (snd (snd mf))) files"

lemma accum_of_fields:
  "da_entries (accum_of d files) = entries_of d files \<and> (da_incomplete (accum_of d files) \<longleftrightarrow> (\<exists>mf \<in> set files. snd (snd mf) = None))"
proof (induction files rule: rev_induct)
  case Nil
  show ?case by (simp add: accum_of_def empty_accum_def entries_of_def List.map_filter_simps)
next
  case (snoc mf files)
  have "entries_of d (files @ [mf]) = entries_of d files @ (case snd (snd mf) of None \<Rightarrow> [] | Some h \<Rightarrow> [(rel_of d mf, h)])"
    by (simp add: entries_of_def List.map_filter_def split: option.split)
  with snoc.IH show ?case by (simp add: accum_of_def add_to_dir_def split: option.split)
qed

section \<open>The rows and the groups\<close>

text \<open>A directory is signed when the scan holds a file of it, all of them hashed, and nothing suppresses it.\<close>

definition is_signed :: "signature_context \<Rightarrow> manifest_file list \<Rightarrow> path \<Rightarrow> bool" where
  "is_signed ctx files d \<longleftrightarrow> covered ctx files d \<noteq> [] \<and> (\<forall>mf \<in> set (covered ctx files d). snd (snd mf) \<noteq> None)
     \<and> ctx_disposition ctx d \<noteq> Suppressed"

definition dir_content :: "signature_context \<Rightarrow> manifest_file list \<Rightarrow> path \<Rightarrow> (string \<times> string) multiset" where
  "dir_content ctx files d = mset (entries_of d (covered ctx files d))"

definition dir_sig :: "hasher \<Rightarrow> signature_context \<Rightarrow> manifest_file list \<Rightarrow> path \<Rightarrow> string" where
  "dir_sig blake3 ctx files d = signature_of blake3 (entries_of d (covered ctx files d))"

definition row_dir :: "dir_row \<Rightarrow> path" where
  "row_dir row = fst (snd row)"

definition row_trust :: "dir_row \<Rightarrow> dir_trust" where
  "row_trust row = snd (snd (snd (snd row)))"

lemma trust_of_Some: "trust_of disp = Some t \<longleftrightarrow> disp \<noteq> Suppressed \<and> t = (if disp = Trusted then TrustedDir else UntrustedDir)"
  by (cases disp) auto

lemma set_map_filter: "set (List.map_filter f xs) = {y. \<exists>x \<in> set xs. f x = Some y}"
  by (induction xs) (auto simp: List.map_filter_simps split: option.splits)

definition rows_of :: "hasher \<Rightarrow> signature_context \<Rightarrow> manifest_file list \<Rightarrow> dir_row list \<Rightarrow> bool" where
  "rows_of blake3 ctx files rows \<longleftrightarrow> distinct (map row_dir rows)
     \<and> row_dir ` set rows = {d. is_signed ctx files d}
     \<and> (\<forall>row \<in> set rows. fst row = dir_sig blake3 ctx files (row_dir row)
          \<and> row_trust row = (if ctx_disposition ctx (row_dir row) = Trusted then TrustedDir else UntrustedDir))"

lemma dir_row_Some:
  assumes "holds_dirs ctx files m" "(d, a) \<in> set m"
  shows "case dir_row blake3 ctx (d, a) of
      None \<Rightarrow> \<not> is_signed ctx files d
    | Some row \<Rightarrow> is_signed ctx files d \<and> row_dir row = d \<and> fst row = dir_sig blake3 ctx files d
        \<and> row_trust row = (if ctx_disposition ctx d = Trusted then TrustedDir else UntrustedDir)"
proof -
  have "bt_wf m" using assms(1) by (simp add: holds_dirs_def)
  then have g: "bt_get m d = Some a" using assms(2) by (simp add: bt_get_Some_iff)
  have e: "bt_get m d = (if covered ctx files d = [] then None else Some (accum_of d (covered ctx files d)))"
    using assms(1) unfolding holds_dirs_def by blast
  have a: "covered ctx files d \<noteq> []" "a = accum_of d (covered ctx files d)" using g unfolding e by (auto split: if_splits)
  show ?thesis
    using accum_of_fields [of d "covered ctx files d"] a(1)
    by (cases "ctx_disposition ctx d")
       (auto simp: dir_row_def a(2) is_signed_def row_dir_def row_trust_def dir_sig_def)
qed

lemma rows_distinct:
  "distinct (map fst m) \<Longrightarrow> (\<And>x row. x \<in> set m \<Longrightarrow> f x = Some row \<Longrightarrow> row_dir row = fst x) \<Longrightarrow>
     distinct (map row_dir (List.map_filter f m))"
proof (induction m)
  case (Cons x m)
  have ih: "distinct (map row_dir (List.map_filter f m))" using Cons.prems by (intro Cons.IH) auto
  show ?case
  proof (cases "f x")
    case (Some row)
    have "row_dir row \<notin> row_dir ` set (List.map_filter f m)"
    proof
      assume "row_dir row \<in> row_dir ` set (List.map_filter f m)"
      then obtain x' row' where x': "x' \<in> set m" "f x' = Some row'" "row_dir row = row_dir row'" by (auto simp: set_map_filter)
      have "row_dir row = fst x" by (rule Cons.prems(2) [OF _ Some]) simp
      moreover have "row_dir row' = fst x'" by (rule Cons.prems(2) [OF _ x'(2)]) (simp add: x'(1))
      ultimately have "fst x = fst x'" using x'(3) by simp
      then show False using Cons.prems(1) x'(1) by (metis distinct.simps(2) image_eqI list.simps(9) set_map)
    qed
    then show ?thesis using ih Some by (simp add: List.map_filter_simps)
  qed (use ih in \<open>simp add: List.map_filter_simps\<close>)
qed (simp add: List.map_filter_simps)

lemma rows_of_dirs:
  assumes h: "holds_dirs ctx files m"
  shows "rows_of blake3 ctx files (List.map_filter (dir_row blake3 ctx) m)"
  unfolding rows_of_def
proof (intro conjI)
  have w: "bt_wf m" using h by (simp add: holds_dirs_def)
  note row = dir_row_Some [OF h, of _ _ blake3]
  show "distinct (map row_dir (List.map_filter (dir_row blake3 ctx) m))"
  proof (rule rows_distinct [OF bt_wf_distinct [OF w]])
    fix x r assume "x \<in> set m" "dir_row blake3 ctx x = Some r"
    then show "row_dir r = fst x" using row [of "fst x" "snd x"] by simp
  qed
  show "\<forall>r \<in> set (List.map_filter (dir_row blake3 ctx) m). fst r = dir_sig blake3 ctx files (row_dir r)
      \<and> row_trust r = (if ctx_disposition ctx (row_dir r) = Trusted then TrustedDir else UntrustedDir)"
    using row by (fastforce simp: set_map_filter)
  show "row_dir ` set (List.map_filter (dir_row blake3 ctx) m) = {d. is_signed ctx files d}"
  proof (intro set_eqI iffI)
    fix d assume "d \<in> row_dir ` set (List.map_filter (dir_row blake3 ctx) m)"
    then obtain x r where "x \<in> set m" "dir_row blake3 ctx x = Some r" "d = row_dir r" by (auto simp: set_map_filter)
    then show "d \<in> {d. is_signed ctx files d}" using row [of "fst x" "snd x"] by simp
  next
    fix d assume "d \<in> {d. is_signed ctx files d}"
    then have s: "is_signed ctx files d" by simp
    then have "bt_get m d = Some (accum_of d (covered ctx files d))" using h by (simp add: holds_dirs_def is_signed_def)
    then have m: "(d, accum_of d (covered ctx files d)) \<in> set m" using w by (simp add: bt_get_Some_iff)
    then obtain r where "dir_row blake3 ctx (d, accum_of d (covered ctx files d)) = Some r" "row_dir r = d"
      using row [OF m] s by (cases "dir_row blake3 ctx (d, accum_of d (covered ctx files d))") auto
    with m show "d \<in> row_dir ` set (List.map_filter (dir_row blake3 ctx) m)" by (force simp: set_map_filter)
  qed
qed

text \<open>A group is made from the rows of one signature.\<close>

definition group_made :: "dir_row list \<Rightarrow> attributed_group \<Rightarrow> string \<Rightarrow> bool" where
  "group_made rows a sig \<longleftrightarrow>
     gd_signature (ag_group a) = sig \<and> set (gd_paths (ag_group a)) = row_dir ` {row \<in> set rows. fst row = sig}
     \<and> sorted (gd_paths (ag_group a)) \<and> distinct (gd_paths (ag_group a)) \<and> 2 \<le> length (gd_paths (ag_group a))
     \<and> length (ag_member_trust a) = length (gd_paths (ag_group a))
     \<and> (ag_trust a = TrustedDir \<longleftrightarrow> (\<forall>row \<in> set rows. fst row = sig \<longrightarrow> row_trust row = TrustedDir))"

lemma group_of_rows_made:
  assumes "distinct (map row_dir rows)" "ys = filter (\<lambda>row. fst row = sig) rows" "2 \<le> length ys"
  shows "group_made rows (group_of_rows (sig, ys)) sig"
proof -
  define members where "members = sort_key fst (map (\<lambda>row. (row_dir row, row_trust row)) ys)"
  have m: "map (\<lambda>(_, dir, _, _, trust). (dir, trust)) ys = map (\<lambda>row. (row_dir row, row_trust row)) ys"
    by (simp add: row_dir_def row_trust_def case_prod_unfold)
  have g: "gd_signature (ag_group (group_of_rows (sig, ys))) = sig" "gd_paths (ag_group (group_of_rows (sig, ys))) = map fst members"
    "ag_member_trust (group_of_rows (sig, ys)) = map snd members"
    "ag_trust (group_of_rows (sig, ys)) = (if list_all (\<lambda>(_, trust). trust = TrustedDir) members then TrustedDir else UntrustedDir)"
    by (simp_all add: group_of_rows_def Let_def m members_def split: prod.split)
  have ys: "distinct (map row_dir ys)" using assms(1,2) by (simp add: distinct_map_filter)
  have ms: "mset (map fst members) = mset (map row_dir ys)" by (simp add: members_def multiset.map_comp comp_def)
  have d: "distinct (map fst members)" using ys mset_eq_imp_distinct_iff [OF ms] by simp
  have s: "set (map fst members) = row_dir ` {row \<in> set rows. fst row = sig}"
    using mset_eq_setD [OF ms] by (auto simp: assms(2))
  have l: "length (map fst members) = length ys" by (simp add: members_def)
  have t: "list_all (\<lambda>(_, trust). trust = TrustedDir) members \<longleftrightarrow> (\<forall>row \<in> set rows. fst row = sig \<longrightarrow> row_trust row = TrustedDir)"
    by (auto simp: members_def list_all_iff assms(2))
  show ?thesis
    unfolding group_made_def g s
    using d l t assms(3) by (auto simp: members_def)
qed

lemma sort_attributed_made:
  assumes "a \<in> set (sort_attributed_by_benefit groups)"
  shows "\<exists>b \<in> set groups. \<forall>rows sig. group_made rows b sig \<longrightarrow> group_made rows a sig"
proof -
  obtain i b where b: "(i, b) \<in> set (enumerate 0 (sort_key benefit_key groups))"
    "a = b\<lparr>ag_group := (ag_group b)\<lparr>gd_id := of_nat i\<rparr>\<rparr>"
    using assms by (auto simp: sort_attributed_by_benefit_def)
  have "b \<in> snd ` set (enumerate 0 (sort_key benefit_key groups))" using b(1) by force
  then have "b \<in> set groups" by (simp flip: set_map)
  then show ?thesis by (rule bexI [rotated]) (simp add: group_made_def b(2))
qed

lemma sort_attributed_keeps:
  assumes "b \<in> set groups"
  shows "\<exists>a \<in> set (sort_attributed_by_benefit groups). gd_paths (ag_group a) = gd_paths (ag_group b)"
proof -
  have "b \<in> snd ` set (enumerate 0 (sort_key benefit_key groups))" using assms by (simp flip: set_map)
  then show ?thesis by (force simp: sort_attributed_by_benefit_def)
qed

lemma groups_made:
  assumes b: "build_dir_groups_in_context blake3 files ctx = Inr groups"
  obtains rows where "rows_of blake3 ctx files rows"
    "\<And>a. a \<in> set groups \<Longrightarrow> \<exists>sig. group_made rows a sig"
    "\<And>d e. d \<noteq> e \<Longrightarrow> (\<exists>a \<in> set groups. d \<in> set (gd_paths (ag_group a)) \<and> e \<in> set (gd_paths (ag_group a))) \<longleftrightarrow>
        is_signed ctx files d \<and> is_signed ctx files e \<and> dir_sig blake3 ctx files d = dir_sig blake3 ctx files e"
proof -
  obtain m where m: "rfold (account_file ctx) [] files = Inr m"
    "groups = sort_attributed_by_benefit (map group_of_rows (filter (\<lambda>(_, dirs). 2 \<le> length dirs)
       (group_by fst (List.map_filter (dir_row blake3 ctx) m))))"
    using b by (auto simp: build_dir_groups_in_context_def Let_def result_simps)
  define rows where "rows = List.map_filter (dir_row blake3 ctx) m"
  define made where "made = map group_of_rows (filter (\<lambda>(_, dirs). 2 \<le> length dirs) (group_by fst rows))"
  have h: "holds_dirs ctx [] []" by (simp add: holds_dirs_def covered_def)
  have "holds_dirs ctx files m" using account_files [OF m(1) h] by simp
  then have r: "rows_of blake3 ctx files rows" unfolding rows_def by (rule rows_of_dirs)
  then have dr: "distinct (map row_dir rows)" by (simp add: rows_of_def)
  have each: "\<exists>sig. group_made rows a sig" if h: "a \<in> set made" for a
  proof -
    obtain sig ys where ys: "(sig, ys) \<in> set (group_by fst rows)" "2 \<le> length ys" "a = group_of_rows (sig, ys)"
      using h by (auto simp: made_def)
    then have "ys = filter (\<lambda>row. fst row = sig) rows" using in_group_by_iff [of sig ys fst rows] by blast
    then show ?thesis using group_of_rows_made [OF dr _ ys(2)] ys(3) by blast
  qed
  have made: "\<exists>sig. group_made rows a sig" if h: "a \<in> set groups" for a
  proof -
    have "a \<in> set (sort_attributed_by_benefit made)" using h by (simp add: m(2) rows_def made_def)
    then obtain b where "b \<in> set made" "\<forall>rows sig. group_made rows b sig \<longrightarrow> group_made rows a sig"
      using sort_attributed_made by blast
    then show ?thesis using each by blast
  qed
  have row_at: "\<exists>row \<in> set rows. row_dir row = d" if h: "is_signed ctx files d" for d
    using r h unfolding rows_of_def by (metis (mono_tags, lifting) imageE mem_Collect_eq)
  have row_sig: "is_signed ctx files (row_dir row) \<and> fst row = dir_sig blake3 ctx files (row_dir row)" if h: "row \<in> set rows" for row
    using r h unfolding rows_of_def by (metis (mono_tags, lifting) image_eqI mem_Collect_eq)
  show thesis
  proof (rule that [OF r made])
    fix d e :: path
    assume ne: "d \<noteq> e"
    show "(\<exists>a \<in> set groups. d \<in> set (gd_paths (ag_group a)) \<and> e \<in> set (gd_paths (ag_group a))) \<longleftrightarrow>
        is_signed ctx files d \<and> is_signed ctx files e \<and> dir_sig blake3 ctx files d = dir_sig blake3 ctx files e" (is "?l \<longleftrightarrow> ?r")
    proof
      assume ?l
      then obtain a where a: "a \<in> set groups" "d \<in> set (gd_paths (ag_group a))" "e \<in> set (gd_paths (ag_group a))" by blast
      obtain sig where "group_made rows a sig" using made [OF a(1)] by blast
      then have "set (gd_paths (ag_group a)) = row_dir ` {row \<in> set rows. fst row = sig}" by (simp add: group_made_def)
      with a(2,3) obtain x y where "x \<in> set rows \<and> fst x = sig" "row_dir x = d" "y \<in> set rows \<and> fst y = sig" "row_dir y = e"
        by (auto simp: image_def)
      then show ?r using row_sig [of x] row_sig [of y] by simp
    next
      assume ?r
      then obtain x y where xy: "x \<in> set rows" "row_dir x = d" "y \<in> set rows" "row_dir y = e" "fst x = fst y"
        using row_at row_sig by metis
      define ys where "ys = filter (\<lambda>row. fst row = fst x) rows"
      have in_ys: "x \<in> set ys" "y \<in> set ys" using xy by (auto simp: ys_def)
      then have "card {x, y} \<le> card (set ys)" by (intro card_mono) auto
      moreover have "x \<noteq> y" using ne xy by auto
      ultimately have l: "2 \<le> length ys" using card_length [of ys] by simp
      have "(fst x, ys) \<in> set (group_by fst rows)" using in_ys(1) ys_def in_group_by_iff [of "fst x" ys fst rows] by (metis empty_iff list.set(1))
      then have "group_of_rows (fst x, ys) \<in> set made" using l by (force simp: made_def)
      then obtain a where a: "a \<in> set groups" "gd_paths (ag_group a) = gd_paths (ag_group (group_of_rows (fst x, ys)))"
        using sort_attributed_keeps [of "group_of_rows (fst x, ys)" made] by (auto simp: m(2) rows_def made_def)
      have "set (gd_paths (ag_group a)) = row_dir ` {row \<in> set rows. fst row = fst x}"
        using group_of_rows_made [OF dr ys_def l] by (simp add: a(2) group_made_def)
      then show ?l using a(1) xy by force
    qed
  qed
qed

definition manifest_clean :: "manifest_file list \<Rightarrow> bool" where
  "manifest_clean files \<longleftrightarrow> (\<forall>(p, sz, hash) \<in> set files. clean_path p \<and> NUL \<notin> set (the hash))"

lemma entries_nul_free:
  assumes "manifest_clean files"
  shows "nul_free (entries_of d (covered ctx files d))"
proof -
  have "NUL \<notin> set (rel_of d mf) \<and> NUL \<notin> set (the (snd (snd mf)))" if h: "mf \<in> set files" for mf
  proof -
    have "clean_path (fst mf)" "NUL \<notin> set (the (snd (snd mf)))" using assms h by (auto simp: manifest_clean_def)
    then have "clean_path (drop (length d) (fst mf))" by (auto simp: clean_path_def dest: in_set_dropD)
    from spell_rel_clean [OF this] show ?thesis
      using \<open>NUL \<notin> set (the (snd (snd mf)))\<close> by (simp add: rel_of_def lossy_utf8)
  qed
  then show ?thesis by (force simp: nul_free_def entries_of_def covered_def set_map_filter)
qed

lemma group_made_trust:
  assumes "rows_of blake3 ctx files rows" "group_made rows a sig"
  shows "ag_trust a = TrustedDir \<longleftrightarrow> (\<forall>d \<in> set (gd_paths (ag_group a)). ctx_disposition ctx d = Trusted)"
proof -
  have "row_trust row = TrustedDir \<longleftrightarrow> ctx_disposition ctx (row_dir row) = Trusted" if h: "row \<in> set rows" for row
    using assms(1) h by (simp add: rows_of_def)
  then show ?thesis using assms(2) by (auto simp: group_made_def)
qed


text \<open>Two directories, one file of the same name and hash in each.\<close>

definition sample_manifest :: "manifest_file list" where
  "sample_manifest = [([RootDir, Normal ''r'', Normal ''a'', Normal ''f''], 5, Some ''h''),
     ([RootDir, Normal ''r'', Normal ''b'', Normal ''f''], 5, Some ''h'')]"

definition sample_ctx :: signature_context where
  "sample_ctx = \<lparr>ctx_scope = (\<lambda>_. ScopeRoot ''/r''), ctx_disposition = (\<lambda>_. Trusted)\<rparr>"

lemma sample_groups:
  "map_sum (\<lambda>_. ()) length (build_dir_groups_in_context (\<lambda>s. s) sample_manifest sample_ctx) = Inr 1"
  by code_simp


section \<open>The two builds do not have the same classes\<close>

text \<open>
  A file whose contents are the encoding of a directory's listing has that directory's signature as its
  hash, so the streaming build cannot tell the directory from the file. \<open>escaped\<close> is an injective digest
  whose values hold no NUL.
\<close>

definition escaped :: hasher where
  "escaped s = concat (map (\<lambda>c. if c = NUL then ''%0'' else if c = CHR ''%'' then ''%%'' else [c]) s)"

lemma escaped_inj: "inj escaped"
proof (rule injI)
  fix s t :: string
  assume "escaped s = escaped t"
  then show "s = t"
  proof (induction s arbitrary: t)
    case Nil
    then show ?case by (cases t) (auto simp: escaped_def split: if_splits)
  next
    case (Cons c s)
    then obtain d t' where t: "t = d # t'" by (cases t) (auto simp: escaped_def split: if_splits)
    have "c = d \<and> escaped s = escaped t'"
      using Cons.prems by (auto simp: escaped_def t NUL_def split: if_splits)
    then show ?case using Cons.IH t by simp
  qed
qed

definition crafted_manifest :: "manifest_file list" where
  "crafted_manifest = [([RootDir, Normal ''r'', Normal ''a'', Normal ''k'', Normal ''f''], 5, Some ''h''),
     ([RootDir, Normal ''r'', Normal ''b'', Normal ''k''], 5, Some (escaped (''f'' @ [NUL] @ ''h'' @ [NUL])))]"

lemma merkle_merges_a_file_with_a_listing:
  "(case build_dir_signatures_streaming_in_context escaped crafted_manifest sample_ctx of
      Inl _ \<Rightarrow> False
    | Inr sigs \<Rightarrow> map ds_path sigs = [[RootDir, Normal ''r'', Normal ''a'', Normal ''k''], [RootDir, Normal ''r'', Normal ''a''],
          [RootDir, Normal ''r'', Normal ''b''], [RootDir, Normal ''r'']]
        \<and> ds_signature (sigs ! 1) = ds_signature (sigs ! 2))
   \<and> build_dir_groups_in_context escaped crafted_manifest sample_ctx = Inr []"
  by code_simp

end
