(* ===== verification/Script.thy ===== *)
theory Script
  imports Dir_Groups Obstacles
begin

text \<open>
  \<open>actions/script_preview.rs\<close>: the plan as a shell script, a second way to carry it out. The fixed texts are
  those of the source, line by line; \<open>render_script\<close> puts them together with what the plan holds. The
  clock's text and the sentence about the figure (floating-point formatting) are arguments.
\<close>

section \<open>The fixed texts\<close>

definition em_dash :: nat where
  "em_dash = 0x2014"

definition unlines :: "chars list \<Rightarrow> chars" where
  "unlines ls = concat (map (\<lambda>l. l @ [10]) ls)"

definition SCRIPT_HEADER :: chars where
  \<open>SCRIPT_HEADER = unlines
     [lit ''# Before anything moves, the script checks the STRUCTURE of every file of the plan: device,'',
      lit ''# inode, size, link count and the SECONDS of mtime/ctime. Before each action it compares the'',
      lit ''# file with its keeper byte for byte (cmp) '' @ [em_dash] @ lit '' for a file it acts on, that reads both in full,'',
      lit ''# as `dedcom --strict-verify` does '' @ [em_dash] @ lit '' and leaves alone a file that differs or has become a'',
      lit ''# symbolic link. A replacement is made beside the file first; the file goes to the quarantine'',
      lit ''# only when that worked and comes back if publishing fails. A reflink copy gets the owner,'',
      lit ''# mode, times, extended attributes and ACL of the file it replaces. An action that fails is'',
      lit ''# named and does not stop the others; the run then ends with exit status 1. Between a check'',
      lit ''# and its command there is still a window (TOCTOU); recovery is from the quarantine and the'',
      lit ''# safety snapshot.'']\<close>

definition SHELL_COMMON :: chars where
  \<open>SHELL_COMMON = unlines
     [lit ''dedcom_note() { echo "dedcom: $*" >&2; }'',
      lit ''dedcom_id() { stat -c \'%d %i\' -- "$1" 2>/dev/null; }'',
      lit ''dedcom_mount() { findmnt -n -o ID -T "$1"; }'',
      lit ''dedcom_same() {'',
      lit ''  if [ -L "$1" ] || [ -L "$2" ]; then'',
      lit ''    dedcom_note "skip $3: it or its keeper is a symbolic link"'',
      lit ''    return 1'',
      lit ''  fi'',
      lit ''  cmp -s -- "$2" "$1"'',
      lit ''  case $? in'',
      lit ''    0) return 0 ;;'',
      lit ''    1) dedcom_note "skip $3: its content is no longer the keeper\'s" ;;'',
      lit ''    *) dedcom_note "skip $3: it could not be compared with its keeper" ;;'',
      lit ''  esac'',
      lit ''  return 1'',
      lit ''}'',
      lit ''dedcom_evacuate() {'',
      lit ''  local here there'',
      lit ''  mkdir -p -- "${3%/*}" && here=$(dedcom_mount "$1") && there=$(dedcom_mount "${3%/*}") &&'',
      lit ''    [ -n "$here" ] || return 1'',
      lit ''  if [ "$there" != "$here" ]; then'',
      lit ''    dedcom_note "$4: the quarantine is on another mount than the file (a bind mount?)"'',
      lit ''    return 1'',
      lit ''  fi'',
      lit ''  mv -n -- "$1" "$3" && [ "$(dedcom_id "$3")" = "$2" ]'',
      lit ''}'']\<close>

definition SHELL_DELETE :: chars where
  \<open>SHELL_DELETE = unlines
     [lit ''dedcom_delete() {'',
      lit ''  local id'',
      lit ''  dedcom_same "$1" "$2" "$4" || return 1'',
      lit ''  if id=$(dedcom_id "$1") && dedcom_evacuate "$1" "$id" "$3" "$4"; then'',
      lit ''    return 0'',
      lit ''  fi'',
      lit ''  dedcom_note "not moved to the quarantine: $4"'',
      lit ''  return 1'',
      lit ''}'']\<close>

definition SHELL_REPLACE :: chars where
  \<open>SHELL_REPLACE = unlines
     [lit ''dedcom_drop() {'',
      lit ''  if [ "$(dedcom_id "$1")" = "$2" ] && rm -f -- "$1"; then'',
      lit ''    return 0'',
      lit ''  fi'',
      lit ''  [ -e "$1" ] || [ -L "$1" ] || return 0'',
      lit ''  dedcom_note "$3: the temporary file ${1##*/} beside it is left behind '' @ [em_dash] @ lit '' delete it by hand"'',
      lit ''}'',
      lit ''dedcom_publish() {'',
      lit ''  if ! dedcom_evacuate "$1" "$2" "$3" "$6"; then'',
      lit ''    dedcom_drop "$4" "$5" "$6"'',
      lit ''    dedcom_note "not replaced: $6 '' @ [em_dash] @ lit '' it could not be moved to the quarantine"'',
      lit ''    return 1'',
      lit ''  fi'',
      lit ''  mv -n -- "$4" "$1"'',
      lit ''  if [ "$(dedcom_id "$1")" = "$5" ] && ! [ -e "$4" ]; then'',
      lit ''    return 0'',
      lit ''  fi'',
      lit ''  dedcom_drop "$4" "$5" "$6"'',
      lit ''  mv -n -- "$3" "$1"'',
      lit ''  if [ "$(dedcom_id "$1")" = "$2" ]; then'',
      lit ''    dedcom_note "not replaced: $6 '' @ [em_dash] @ lit '' the replacement could not be published; the original is back in its place"'',
      lit ''  else'',
      lit ''    dedcom_note "not replaced: $6 '' @ [em_dash] @ lit '' the replacement could not be published; the original stays in the quarantine: $7"'',
      lit ''  fi'',
      lit ''  return 1'',
      lit ''}'']\<close>

definition SHELL_HARDLINK :: chars where
  \<open>SHELL_HARDLINK = unlines
     [lit ''dedcom_hardlink() {'',
      lit ''  local id stage'',
      lit ''  dedcom_same "$1" "$2" "$4" || return 1'',
      lit ''  if id=$(dedcom_id "$1") && stage=$(mktemp -u -p "$6" --suffix=.tmp .dedcom-XXXXXXXXXX) &&'',
      lit ''    ln -- "$2" "$stage"; then'',
      lit ''    dedcom_publish "$1" "$id" "$3" "$stage" "$(dedcom_id "$stage")" "$4" "$5"'',
      lit ''    return'',
      lit ''  fi'',
      lit ''  dedcom_note "not replaced: $4 '' @ [em_dash] @ lit '' the link could not be made beside it"'',
      lit ''  return 1'',
      lit ''}'']\<close>

definition SHELL_REFLINK :: chars where
  \<open>SHELL_REFLINK = unlines
     [lit ''dedcom_reflink() {'',
      lit ''  local id stage made'',
      lit ''  dedcom_same "$1" "$2" "$4" || return 1'',
      lit ''  if ! id=$(dedcom_id "$1") || ! stage=$(mktemp -p "$6" --suffix=.tmp .dedcom-XXXXXXXXXX); then'',
      lit ''    dedcom_note "not replaced: $4 '' @ [em_dash] @ lit '' the clone could not be made beside it"'',
      lit ''    return 1'',
      lit ''  fi'',
      lit ''  made=$(dedcom_id "$stage")'',
      lit ''  if ! cp --reflink=always -- "$2" "$stage" ||'',
      lit ''    [ "$(stat -c %s -- "$stage")" != "$(stat -c %s -- "$2")" ]; then'',
      lit ''    dedcom_drop "$stage" "$made" "$4"'',
      lit ''    dedcom_note "not replaced: $4 '' @ [em_dash] @ lit '' the clone could not be made beside it"'',
      lit ''    return 1'',
      lit ''  fi'',
      lit ''  if ! cp --attributes-only --preserve=mode,ownership,timestamps,xattr -- "$1" "$stage" ||'',
      lit ''    [ "$(stat -c \'%u %g %a\' -- "$stage")" != "$(stat -c \'%u %g %a\' -- "$1")" ]; then'',
      lit ''    dedcom_drop "$stage" "$made" "$4"'',
      lit ''    dedcom_note "not replaced: $4 '' @ [em_dash] @ lit '' its owner, mode, times or extended attributes could not be carried over"'',
      lit ''    return 1'',
      lit ''  fi'',
      lit ''  dedcom_publish "$1" "$id" "$3" "$stage" "$made" "$4" "$5"'',
      lit ''}'']\<close>


section \<open>Words\<close>

text \<open>\<open>sh_quote\<close>: an apostrophe leaves the quotes, is escaped, and they open again.\<close>

definition sh_quote :: "chars \<Rightarrow> chars" where
  "sh_quote text = [39] @ concat (map (\<lambda>c. if c = 39 then [39, 92, 39, 39] else [c]) text) @ [39]"

text \<open>A path is spelled with one slash between its components.\<close>

definition spell_path :: "path \<Rightarrow> string" where
  "spell_path p = (case p of RootDir # cs \<Rightarrow> ''/'' @ spell_rel cs | _ \<Rightarrow> spell_rel p)"

definition shown :: "path \<Rightarrow> chars" where
  "shown p = to_string_lossy (spell_path p)"

definition num :: "nat \<Rightarrow> chars" where
  "num n = lit (decimal n)"

definition integer :: "i64 \<Rightarrow> chars" where
  "integer i = (if sint i < 0 then lit ''-'' @ num (nat (- sint i)) else num (nat (sint i)))"

section \<open>Where things go\<close>

definition quarantine_dest :: "plan_action \<Rightarrow> u64 \<Rightarrow> dataset list \<Rightarrow> string \<Rightarrow> path option" where
  "quarantine_dest a device datasets ts =
     map_option (\<lambda>ds.
       let rel = (case strip_prefix (pa_target a) (ds_mountpoint ds) of
             Some rel \<Rightarrow> rel
           | None \<Rightarrow> (case file_name (pa_target a) of Some n \<Rightarrow> [Normal n] | None \<Rightarrow> pa_target a)) in
       join (join (join (ds_mountpoint ds) [Normal ''.dedcom-quarantine'']) [Normal ts]) rel)
     (dataset_by_device datasets device)"

definition snap_targets :: "action_plan \<Rightarrow> dataset list \<Rightarrow> string list" where
  "snap_targets plan datasets =
     fold (\<lambda>a names.
       case dataset_by_device datasets (target_device plan a) of
         Some ds \<Rightarrow> if ds_name ds \<in> set names then names else names @ [ds_name ds]
       | None \<Rightarrow> names) (ap_actions plan) []"

definition warning_message :: "plan_warning \<Rightarrow> chars" where
  \<open>warning_message w =
     (case w of
        AlreadyLinkedWithKeeper p \<Rightarrow>
          lit ''already linked '' @ [em_dash] @ lit '' 0 payoff: '' @ shown p @ lit '' is the keeper\'s own allocation''
      | UncoveredAlias p remaining \<Rightarrow>
          lit ''zero guaranteed reclaim '' @ [em_dash] @ lit '' '' @ shown p @ lit '': '' @ num (unat remaining)
            @ lit '' pathname(s) of this allocation stay outside the plan''
      | ExternalLinks p outside \<Rightarrow>
          lit ''zero guaranteed reclaim '' @ [em_dash] @ lit '' '' @ shown p @ lit '': '' @ num (unat outside)
            @ lit '' link(s) outside this scan keep this allocation alive'')\<close>

section \<open>The preflight of the script\<close>

definition expected_fields :: "planned_object \<Rightarrow> chars" where
  "expected_fields object =
     (let key = po_key object in
      num (unat (key_device key)) @ lit '' '' @ num (unat (key_inode key)) @ lit '' '' @ num (unat (key_size key)) @ lit '' ''
        @ num (unat (po_links object)) @ lit '' '' @ integer (key_mtime key) @ lit '' '' @ integer (key_ctime_sec key))"

definition expect_line :: "planned_object \<Rightarrow> path \<Rightarrow> chars" where
  "expect_line object p = lit ''  dedcom_expect '' @ sh_quote (shown p) @ lit '' '' @ sh_quote (expected_fields object) @ [10]"

definition same_message :: "plan_action \<Rightarrow> chars" where
  "same_message a = lit ''target and keeper are the same allocation: '' @ shell_label (shown (pa_target a))"

definition id_text :: "plan_object_key \<Rightarrow> chars" where
  "id_text key = num (unat (key_device key)) @ lit '' '' @ num (unat (key_inode key))"

definition distinct_line :: "action_plan \<Rightarrow> plan_action \<Rightarrow> chars" where
  \<open>distinct_line plan a =
     lit ''  [ '' @ [39] @ id_text (po_key (ap_objects plan ! pa_target_object a)) @ [39] @ lit '' != '' @ [39]
       @ id_text (po_key (ap_objects plan ! pa_keeper_object a)) @ [39] @ lit '' ] || dedcom_fail '' @ sh_quote (same_message a) @ [10]\<close>

definition PREFLIGHT_HEAD :: chars where
  \<open>PREFLIGHT_HEAD = unlines
     [lit ''# 0. Structural preflight. The whole plan is refused if anything moved.'',
      lit ''dedcom_fail() { echo "dedcom: $1" >&2; exit 1; }'',
      lit ''dedcom_expect() {'',
      lit ''  got=$(stat -c \'%d %i %s %h %Y %Z\' -- "$1" 2>/dev/null) || dedcom_fail "missing since the plan: $1"'',
      lit ''  [ "$got" = "$2" ] || dedcom_fail "changed since the plan: $1 (expected $2, got $got)"'',
      lit ''}'',
      lit ''dedcom_preflight() {'']\<close>

definition preflight_definition :: "action_plan \<Rightarrow> chars" where
  "preflight_definition plan =
     PREFLIGHT_HEAD
       @ concat (map (\<lambda>object. concat (map (expect_line object) (po_members object))) (ap_objects plan))
       @ concat (map (distinct_line plan) (ap_actions plan)) @ lit ''}'' @ [10, 10]"

section \<open>The steps of the script\<close>

definition acting_kinds :: "action_plan \<Rightarrow> dataset list \<Rightarrow> action_kind list" where
  "acting_kinds plan datasets =
     fold (\<lambda>a kinds.
       if dataset_by_device datasets (target_device plan a) \<noteq> None \<and> pa_kind a \<notin> set kinds then kinds @ [pa_kind a] else kinds)
     (ap_actions plan) []"

definition action_definitions :: "action_plan \<Rightarrow> dataset list \<Rightarrow> chars" where
  "action_definitions plan datasets =
     (let kinds = acting_kinds plan datasets in
      if kinds = [] then []
      else lit ''# 0b. Each action, step by step as applying with [Y] takes it.'' @ [10] @ SHELL_COMMON
        @ (if Delete \<in> set kinds then SHELL_DELETE else [])
        @ (if Hardlink \<in> set kinds \<or> Reflink \<in> set kinds then SHELL_REPLACE else [])
        @ (if Hardlink \<in> set kinds then SHELL_HARDLINK else [])
        @ (if Reflink \<in> set kinds then SHELL_REFLINK else []) @ [10])"

fun step_name :: "action_kind \<Rightarrow> chars" where
  "step_name Delete = lit ''dedcom_delete''"
| "step_name Hardlink = lit ''dedcom_hardlink''"
| "step_name Reflink = lit ''dedcom_reflink''"

fun step_text :: "action_kind \<Rightarrow> chars" where
  "step_text Delete = lit ''delete (move to quarantine)''"
| "step_text Hardlink = lit ''hardlink to keeper (link beside it, then the file to quarantine)''"
| "step_text Reflink = lit ''reflink (clone beside it, then the file to quarantine)''"

definition count_failure :: chars where
  "count_failure = lit ''dedcom_failed=$((dedcom_failed + 1))''"

definition skip_message :: "chars \<Rightarrow> chars" where
  "skip_message label = lit ''dedcom: skip '' @ label @ lit '': its dataset was not determined''"

definition call_line :: "plan_action \<Rightarrow> chars \<Rightarrow> path \<Rightarrow> chars" where
  "call_line a label dest =
     step_name (pa_kind a) @ lit '' '' @ sh_quote (shown (pa_target a)) @ lit '' '' @ sh_quote (shown (pa_keeper a))
       @ lit '' '' @ sh_quote (shown dest) @ lit '' '' @ sh_quote label
       @ (if pa_kind a = Delete then []
          else lit '' '' @ sh_quote (shell_label (shown dest)) @ lit '' ''
            @ sh_quote (shown (case parent (pa_target a) of Some dir \<Rightarrow> dir | None \<Rightarrow> [RootDir])))
       @ lit '' || '' @ count_failure @ [10]"

definition action_text :: "action_plan \<Rightarrow> dataset list \<Rightarrow> string \<Rightarrow> plan_action \<Rightarrow> chars" where
  "action_text plan datasets ts a =
     (let label = shell_label (shown (pa_target a)) in
      lit ''# '' @ step_text (pa_kind a) @ lit '': '' @ label @ [10]
        @ (case quarantine_dest a (target_device plan a) datasets ts of
             None \<Rightarrow> lit ''#    SKIP: dataset for '' @ label @ lit '' not determined'' @ [10]
                 @ lit ''echo '' @ sh_quote (skip_message label) @ lit '' >&2'' @ [10] @ count_failure @ [10]
           | Some dest \<Rightarrow> call_line a label dest))"

section \<open>The script\<close>

definition REFUSAL :: chars where
  \<open>REFUSAL = unlines
     [lit ''# REFUSAL: trusted absolute path to `zfs` not found.'',
      lit ''# The snapshot safety cannot be generated, and we don\'t emit destructive ops without it.'',
      lit ''echo \'dedcom: trusted zfs not found '' @ [em_dash] @ lit '' plan not generated (fail-closed)\' >&2'',
      lit ''exit 1'']\<close>

definition preamble :: "action_plan \<Rightarrow> chars \<Rightarrow> string \<Rightarrow> chars" where
  "preamble plan phrase ts =
     lit ''#!/usr/bin/env bash'' @ [10]
       @ lit ''# dedcom '' @ [em_dash] @ lit '' the action plan as a shell script.'' @ [10]
       @ lit ''# Plan snapshot from '' @ lit ts @ lit ''.'' @ [10]
       @ lit ''# '' @ num (ps_actions (ap_summary plan)) @ lit '' action(s) over '' @ num (ps_covered_objects (ap_summary plan))
       @ lit '' allocation(s). '' @ phrase @ [10]
       @ concat (map (\<lambda>w. lit ''# '' @ shell_label (warning_message w) @ [10]) (ps_warnings (ap_summary plan)))
       @ SCRIPT_HEADER @ lit ''set -euo pipefail'' @ [10, 10]"

definition snapshot_line :: "string \<Rightarrow> string \<Rightarrow> string \<Rightarrow> chars" where
  "snapshot_line zfs ts name =
     lit zfs @ lit '' snapshot '' @ sh_quote (to_string_lossy name @ lit ''@dedcom-'' @ lit ts) @ [10]"

definition snapshot_section :: "action_plan \<Rightarrow> dataset list \<Rightarrow> string option \<Rightarrow> string \<Rightarrow> chars" where
  "snapshot_section plan datasets zfs ts =
     lit ''# 2. Safety ZFS snapshots (rollback: zfs rollback <snapshot>):'' @ [10]
       @ (if snap_targets plan datasets = [] then lit ''#    (datasets not determined '' @ [em_dash] @ lit '' snapshots skipped)'' @ [10]
          else concat (map (snapshot_line (the zfs) ts) (snap_targets plan datasets)))
       @ [10]"

definition closing :: "nat \<Rightarrow> chars" where
  \<open>closing n = [10] @ lit ''if [ "$dedcom_failed" -ne 0 ]; then'' @ [10]
     @ lit ''  echo "dedcom: $dedcom_failed of '' @ num n @ lit '' '' @ lit (if n = 1 then ''action'' else ''actions'')
     @ lit '' not carried out '' @ [em_dash] @ lit '' each is named above" >&2'' @ [10] @ lit ''  exit 1'' @ [10] @ lit ''fi'' @ [10]
     @ lit ''echo \'dedcom: plan executed.'' @ [39, 10]\<close>

definition render_script :: "action_plan \<Rightarrow> dataset list \<Rightarrow> string option \<Rightarrow> chars \<Rightarrow> string \<Rightarrow> chars" where
  "render_script plan datasets zfs phrase ts =
     preamble plan phrase ts
       @ (if snap_targets plan datasets \<noteq> [] \<and> zfs = None then REFUSAL
          else
            preflight_definition plan @ action_definitions plan datasets
            @ lit ''# 1. Structural preflight, before anything exists.'' @ [10] @ lit ''dedcom_preflight'' @ [10, 10]
            @ snapshot_section plan datasets zfs ts
            @ lit ''# 3. The same preflight again, immediately before the first change.'' @ [10] @ lit ''dedcom_preflight'' @ [10, 10]
            @ lit ''# 4. Actions: '' @ num (length (ap_actions plan)) @ lit '' total.'' @ [10] @ lit ''dedcom_failed=0'' @ [10]
            @ concat (map (action_text plan datasets ts) (ap_actions plan))
            @ closing (length (ap_actions plan)))"

end
