(* ===== verification/Script_Props.thy ===== *)
theory Script_Props
  imports Script
begin

text \<open>
  What a shell reads in the script. The reader below splits a text into commands of words the way the
  shell does with the quoting the script uses; every character of a word carries whether a quote
  protects it, so that a name can be told from a piece of the script. Operators are left as characters
  of their words, unprotected.
\<close>

section \<open>The reader\<close>

datatype quoting = Bare | InSingle | InDouble | Escaped | EscapedInDouble | InComment

type_synonym word = "(bool \<times> nat) list"
type_synonym reading = "quoting \<times> word option \<times> word list \<times> word list list"

definition extend_word :: "word option \<Rightarrow> word \<Rightarrow> word option" where
  "extend_word w cs = Some ((case w of None \<Rightarrow> [] | Some v \<Rightarrow> v) @ cs)"

definition end_word :: "word option \<Rightarrow> word list \<Rightarrow> word list" where
  "end_word w ws = (case w of None \<Rightarrow> ws | Some v \<Rightarrow> ws @ [v])"

definition end_command :: "word list \<Rightarrow> word list list \<Rightarrow> word list list" where
  "end_command ws cmds = (if ws = [] then cmds else cmds @ [ws])"

definition lex_step :: "nat \<Rightarrow> reading \<Rightarrow> reading" where
  "lex_step c = (\<lambda>(m, w, ws, cmds).
     case m of
       Bare \<Rightarrow>
         if c = 10 then (Bare, None, [], end_command (end_word w ws) cmds)
         else if c = 32 \<or> c = 9 then (Bare, None, end_word w ws, cmds)
         else if c = 39 then (InSingle, extend_word w [], ws, cmds)
         else if c = 34 then (InDouble, extend_word w [], ws, cmds)
         else if c = 92 then (Escaped, w, ws, cmds)
         else if c = 35 \<and> w = None then (InComment, w, ws, cmds)
         else (Bare, extend_word w [(False, c)], ws, cmds)
     | InSingle \<Rightarrow> if c = 39 then (Bare, w, ws, cmds) else (InSingle, extend_word w [(True, c)], ws, cmds)
     | InDouble \<Rightarrow>
         if c = 34 then (Bare, w, ws, cmds) else if c = 92 then (EscapedInDouble, w, ws, cmds)
         else (InDouble, extend_word w [(c \<noteq> 36 \<and> c \<noteq> 96, c)], ws, cmds)
     | Escaped \<Rightarrow> if c = 10 then (Bare, w, ws, cmds) else (Bare, extend_word w [(True, c)], ws, cmds)
     | EscapedInDouble \<Rightarrow>
         if c = 10 then (InDouble, w, ws, cmds)
         else (InDouble, extend_word w (if c = 34 \<or> c = 36 \<or> c = 92 \<or> c = 96 then [(True, c)] else [(True, 92), (True, c)]), ws, cmds)
     | InComment \<Rightarrow> if c = 10 then (Bare, None, [], end_command (end_word w ws) cmds) else (InComment, w, ws, cmds))"

definition commands :: "chars \<Rightarrow> word list list" where
  "commands text = snd (snd (snd (fold lex_step text (Bare, None, [], []))))"

abbreviation quoted :: "chars \<Rightarrow> word" where
  "quoted \<equiv> map (Pair True)"

abbreviation plain :: "chars \<Rightarrow> word" where
  "plain \<equiv> map (Pair False)"

section \<open>Reading piece by piece\<close>

text \<open>A piece that starts and ends between commands and reads as \<open>cmds\<close>.\<close>

definition reads :: "chars \<Rightarrow> word list list \<Rightarrow> bool" where
  "reads text cmds \<longleftrightarrow> (\<forall>done. fold lex_step text (Bare, None, [], done) = (Bare, None, [], done @ cmds))"

named_theorems reading

lemma reads_commands: "reads text cmds \<Longrightarrow> commands text = cmds"
  by (simp add: reads_def commands_def)

lemma reads_Nil [reading]: "reads [] []"
  by (simp add: reads_def)

lemma reads_append [reading]: "reads s a \<Longrightarrow> reads t b \<Longrightarrow> reads (s @ t) (a @ b)"
  by (simp add: reads_def)

lemma reads_concat [reading]: "(\<And>x. x \<in> set xs \<Longrightarrow> reads (f x) (g x)) \<Longrightarrow> reads (concat (map f xs)) (concat (map g xs))"
  by (induction xs) (simp_all add: reads_Nil reads_append)

lemma reads_each: "(\<And>x. x \<in> set xs \<Longrightarrow> reads (f x) [g x]) \<Longrightarrow> reads (concat (map f xs)) (map g xs)"
  using reads_concat [of xs f "\<lambda>x. [g x]"] by (simp add: concat_map_singleton)

lemma reads_silent: "(\<And>x. x \<in> set xs \<Longrightarrow> reads (f x) []) \<Longrightarrow> reads (concat (map f xs)) []"
  using reads_append [of "f _" "[]" _ "[]"] by (induction xs) (auto simp: reads_Nil)

lemma reads_newline [reading]: "reads [10] []"
  by (simp add: reads_def lex_step_def end_word_def end_command_def)

text \<open>The commands read so far only grow.\<close>

lemma lex_step_done:
  "\<exists>m' w' ws' cmds. \<forall>done. lex_step c (m, w, ws, done) = (m', w', ws', done @ cmds)"
proof -
  have "\<forall>done. lex_step c (m, w, ws, done) = (let (m', w', ws', cmds) = lex_step c (m, w, ws, []) in (m', w', ws', done @ cmds))"
    by (cases m) (simp_all add: lex_step_def end_command_def)
  then show ?thesis by (cases "lex_step c (m, w, ws, [])") auto
qed

lemma lex_done:
  "\<exists>m' w' ws' cmds. \<forall>done. fold lex_step tx (m, w, ws, done) = (m', w', ws', done @ cmds)"
proof (induction tx arbitrary: m w ws)
  case (Cons c tx)
  obtain m1 w1 ws1 c1 where s: "\<And>done. lex_step c (m, w, ws, done) = (m1, w1, ws1, done @ c1)"
    using lex_step_done [of c m w ws] by blast
  obtain m2 w2 ws2 c2 where r: "\<And>done. fold lex_step tx (m1, w1, ws1, done) = (m2, w2, ws2, done @ c2)"
    using Cons.IH by blast
  show ?case by (intro exI [of _ m2] exI [of _ w2] exI [of _ ws2] exI [of _ "c1 @ c2"]) (simp add: s r)
qed simp

definition neutral :: "chars \<Rightarrow> bool" where
  "neutral text \<longleftrightarrow> (case fold lex_step text (Bare, None, [], []) of (m, w, ws, _) \<Rightarrow> m = Bare \<and> w = None \<and> ws = [])"

lemma neutral_reads:
  assumes "neutral tx"
  shows "reads tx (commands tx)"
proof -
  obtain m w ws cmds where s: "\<And>done. fold lex_step tx (Bare, None, [], done) = (m, w, ws, done @ cmds)"
    using lex_done [of tx Bare None "[]"] by blast
  then show ?thesis using assms by (simp add: reads_def neutral_def commands_def)
qed

text \<open>To see that a text leaves nothing open it is enough to follow the mode.\<close>

fun light_step :: "nat \<Rightarrow> quoting \<times> bool \<times> bool \<Rightarrow> quoting \<times> bool \<times> bool" where
  "light_step c (Bare, w, ws) =
     (if c = 10 then (Bare, False, False) else if c = 32 \<or> c = 9 then (Bare, False, w \<or> ws)
      else if c = 39 then (InSingle, True, ws) else if c = 34 then (InDouble, True, ws)
      else if c = 92 then (Escaped, w, ws) else if c = 35 \<and> \<not> w then (InComment, w, ws) else (Bare, True, ws))"
| "light_step c (InSingle, w, ws) = (if c = 39 then (Bare, w, ws) else (InSingle, True, ws))"
| "light_step c (InDouble, w, ws) =
     (if c = 34 then (Bare, w, ws) else if c = 92 then (EscapedInDouble, w, ws) else (InDouble, True, ws))"
| "light_step c (Escaped, w, ws) = (if c = 10 then (Bare, w, ws) else (Bare, True, ws))"
| "light_step c (EscapedInDouble, w, ws) = (if c = 10 then (InDouble, w, ws) else (InDouble, True, ws))"
| "light_step c (InComment, w, ws) = (if c = 10 then (Bare, False, False) else (InComment, w, ws))"

definition lighten :: "reading \<Rightarrow> quoting \<times> bool \<times> bool" where
  "lighten = (\<lambda>(m, w, ws, _). (m, w \<noteq> None, ws \<noteq> []))"

lemma lighten_step: "lighten (lex_step c r) = light_step c (lighten r)"
proof -
  obtain m w ws cmds where r: "r = (m, w, ws, cmds)" by (cases r)
  show ?thesis by (cases m) (auto simp: r lighten_def lex_step_def extend_word_def end_word_def split: option.split)
qed

lemma lighten_fold: "lighten (fold lex_step tx r) = fold light_step tx (lighten r)"
  by (induction tx arbitrary: r) (simp_all add: lighten_step)

lemma light_neutral: "fold light_step tx (Bare, False, False) = (Bare, False, False) \<Longrightarrow> neutral tx"
  using lighten_fold [of tx "(Bare, None, [], [])"] by (auto simp: lighten_def neutral_def split: prod.splits)

section \<open>Comments, names and arguments\<close>

lemma comment_body: "10 \<notin> set t \<Longrightarrow> fold lex_step t (InComment, None, [], done) = (InComment, None, [], done)"
  by (induction t) (auto simp: lex_step_def)

lemma reads_comment: "10 \<notin> set t \<Longrightarrow> reads (35 # t @ [10]) []"
  by (simp add: reads_def lex_step_def [of 35] comment_body) (simp add: lex_step_def end_word_def end_command_def)

lemma quote_body:
  "fold lex_step (concat (map (\<lambda>c. if c = 39 then [39, 92, 39, 39] else [c]) t)) (InSingle, Some v, ws, done) = (InSingle, Some (v @ quoted t), ws, done)"
  by (induction t arbitrary: v) (simp_all add: lex_step_def extend_word_def)

lemma lex_quote: "fold lex_step (sh_quote t) (Bare, None, ws, done) = (Bare, Some (quoted t), ws, done)"
  by (simp add: sh_quote_def quote_body lex_step_def extend_word_def)

definition plain_char :: "nat \<Rightarrow> bool" where
  "plain_char c \<longleftrightarrow> c \<notin> {9, 10, 32, 34, 35, 39, 92}"

lemma lex_plain: "list_all plain_char t \<Longrightarrow> fold lex_step t (Bare, Some v, ws, done) = (Bare, Some (v @ plain t), ws, done)"
  by (induction t arbitrary: v) (simp_all add: lex_step_def plain_char_def extend_word_def)

lemma lex_word: "list_all plain_char t \<Longrightarrow> t \<noteq> [] \<Longrightarrow> fold lex_step t (Bare, None, ws, done) = (Bare, Some (plain t), ws, done)"
  by (cases t) (simp_all add: lex_step_def plain_char_def extend_word_def lex_plain)

text \<open>A line of words, each written bare or in quotes, with a blank between them.\<close>

datatype argument = Bareword chars | Quoted chars

fun written :: "argument \<Rightarrow> chars" where
  "written (Bareword t) = t"
| "written (Quoted t) = sh_quote t"

fun word_of :: "argument \<Rightarrow> word" where
  "word_of (Bareword t) = plain t"
| "word_of (Quoted t) = quoted t"

fun good :: "argument \<Rightarrow> bool" where
  "good (Bareword t) \<longleftrightarrow> t \<noteq> [] \<and> list_all plain_char t"
| "good (Quoted t) \<longleftrightarrow> True"

fun line :: "argument list \<Rightarrow> chars" where
  "line [] = []"
| "line [a] = written a @ [10]"
| "line (a # as) = written a @ [32] @ line as"

lemma lex_written: "good a \<Longrightarrow> fold lex_step (written a) (Bare, None, ws, done) = (Bare, Some (word_of a), ws, done)"
  by (cases a) (simp_all add: lex_quote lex_word)

lemma lex_line:
  "list_all good as \<Longrightarrow> as \<noteq> [] \<Longrightarrow> fold lex_step (line as) (Bare, None, ws, done) = (Bare, None, [], done @ [ws @ map word_of as])"
proof (induction as arbitrary: ws rule: line.induct)
  case (2 a)
  then show ?case by (simp add: lex_written) (simp add: lex_step_def end_word_def end_command_def)
next
  case (3 a b as)
  then show ?case by (simp add: lex_written) (simp add: lex_step_def end_word_def 3)
qed simp

lemma reads_line: "list_all good as \<Longrightarrow> as \<noteq> [] \<Longrightarrow> reads (line as) [map word_of as]"
  by (simp add: reads_def lex_line)

lemma reads_indented: "list_all good as \<Longrightarrow> as \<noteq> [] \<Longrightarrow> reads (32 # 32 # line as) [map word_of as]"
  by (simp add: reads_def lex_step_def end_word_def lex_line)

section \<open>The pieces of the script\<close>

text \<open>The fixed texts leave nothing open.\<close>

lemma reads_SHELL_COMMON: "reads SHELL_COMMON (commands SHELL_COMMON)"
  by (rule neutral_reads, rule light_neutral) code_simp

lemma reads_SHELL_DELETE: "reads SHELL_DELETE (commands SHELL_DELETE)"
  by (rule neutral_reads, rule light_neutral) code_simp

lemma reads_SHELL_REPLACE: "reads SHELL_REPLACE (commands SHELL_REPLACE)"
  by (rule neutral_reads, rule light_neutral) code_simp

lemma reads_SHELL_HARDLINK: "reads SHELL_HARDLINK (commands SHELL_HARDLINK)"
  by (rule neutral_reads, rule light_neutral) code_simp

lemma reads_SHELL_REFLINK: "reads SHELL_REFLINK (commands SHELL_REFLINK)"
  by (rule neutral_reads, rule light_neutral) code_simp

lemma reads_PREFLIGHT_HEAD: "reads PREFLIGHT_HEAD (commands PREFLIGHT_HEAD)"
  by (rule neutral_reads, rule light_neutral) code_simp

lemmas fixed_texts = reads_SHELL_COMMON reads_SHELL_DELETE reads_SHELL_REPLACE reads_SHELL_HARDLINK reads_SHELL_REFLINK reads_PREFLIGHT_HEAD

definition bare :: "string \<Rightarrow> argument" where
  "bare s = Bareword (lit s)"

definition expect_command :: "planned_object \<Rightarrow> path \<Rightarrow> word list" where
  "expect_command object p = [plain (lit ''dedcom_expect''), quoted (shown p), quoted (expected_fields object)]"

lemma reads_expect: "reads (expect_line object p) [expect_command object p]"
proof -
  have "expect_line object p = 32 # 32 # line [bare ''dedcom_expect'', Quoted (shown p), Quoted (expected_fields object)]"
    by (simp add: expect_line_def bare_def lit_def)
  then show ?thesis
    using reads_indented [of "[bare ''dedcom_expect'', Quoted (shown p), Quoted (expected_fields object)]"]
    by (simp add: bare_def lit_def plain_char_def expect_command_def)
qed

lemma decimal_digits: "c \<in> set (decimal n) \<Longrightarrow> 48 \<le> (of_char c :: nat) \<and> (of_char c :: nat) \<le> 57"
proof (induction n rule: decimal.induct)
  case (1 n)
  have "n mod 10 < 10" by simp
  then show ?case
    using 1 by (cases "n < 10") (auto simp: decimal.simps [of n])
qed

lemma num_chars: "c \<in> set (num n) \<Longrightarrow> 48 \<le> c \<and> c \<le> 57"
  using decimal_digits by (auto simp: num_def lit_def)

lemma num_no [simp]: "10 \<notin> set (num n)" "39 \<notin> set (num n)"
  using num_chars [of 10 n] num_chars [of 39 n] by auto

lemma sh_quote_clean: "39 \<notin> set t \<Longrightarrow> sh_quote t = [39] @ t @ [39]"
proof -
  assume "39 \<notin> set t"
  then have "concat (map (\<lambda>c. if c = 39 then [39, 92, 39, 39] else [c]) t) = t" by (induction t) auto
  then show ?thesis by (simp add: sh_quote_def)
qed

definition distinct_command :: "action_plan \<Rightarrow> plan_action \<Rightarrow> word list" where
  "distinct_command plan a =
     [plain (lit ''[''), quoted (id_text (po_key (ap_objects plan ! pa_target_object a))), plain (lit ''!=''),
      quoted (id_text (po_key (ap_objects plan ! pa_keeper_object a))), plain (lit '']''), plain (lit ''||''),
      plain (lit ''dedcom_fail''), quoted (same_message a)]"

lemma reads_distinct: "reads (distinct_line plan a) [distinct_command plan a]"
proof -
  have q: "sh_quote (id_text k) = [39] @ id_text k @ [39]" for k
    by (rule sh_quote_clean) (simp add: id_text_def lit_def)
  let ?as = "[bare ''['', Quoted (id_text (po_key (ap_objects plan ! pa_target_object a))), bare ''!='',
      Quoted (id_text (po_key (ap_objects plan ! pa_keeper_object a))), bare '']'', bare ''||'',
      bare ''dedcom_fail'', Quoted (same_message a)]"
  have "distinct_line plan a = 32 # 32 # line ?as"
    by (simp add: distinct_line_def bare_def q) (simp add: lit_def)
  then show ?thesis
    using reads_indented [of ?as] by (simp add: bare_def lit_def plain_char_def distinct_command_def)
qed

definition preflight_commands :: "action_plan \<Rightarrow> word list list" where
  "preflight_commands plan =
     commands PREFLIGHT_HEAD
       @ concat (map (\<lambda>object. map (expect_command object) (po_members object)) (ap_objects plan))
       @ map (distinct_command plan) (ap_actions plan) @ [[plain (lit ''}'')]]"

lemma reads_bare: "list_all plain_char (lit s) \<Longrightarrow> s \<noteq> [] \<Longrightarrow> reads (lit s @ [10]) [[plain (lit s)]]"
  using reads_line [of "[bare s]"] by (simp add: bare_def lit_def)

lemma reads_preflight: "reads (preflight_definition plan) (preflight_commands plan)"
proof -
  have "reads (lit ''}'' @ [10]) [[plain (lit ''}'')]]" by (rule reads_bare) (simp_all add: lit_def plain_char_def)
  from reads_append [OF this reads_newline]
  have e: "reads (lit ''}'' @ [10, 10]) [[plain (lit ''}'')]]" by simp
  show ?thesis
    unfolding preflight_definition_def preflight_commands_def
    by (intro reads_append fixed_texts reads_concat reads_each reads_expect reads_distinct e)
qed

section \<open>Snapshots, actions and the rest\<close>

definition comment :: "chars \<Rightarrow> bool" where
  "comment l \<longleftrightarrow> (case l of [] \<Rightarrow> False | c # cs \<Rightarrow> c = 35 \<and> list_all (\<lambda>c. c \<noteq> 10) cs)"

lemma reads_comment_line: "comment l \<Longrightarrow> reads (l @ [10]) []"
  using reads_comment [of "tl l"] by (cases l) (auto simp: comment_def list_all_iff)

lemma reads_comments: "list_all comment ls \<Longrightarrow> reads (unlines ls) []"
proof (induction ls)
  case (Cons l ls)
  then have "reads (l @ [10]) []" "reads (unlines ls) []" using reads_comment_line by simp_all
  from reads_append [OF this] show ?case by (simp add: unlines_def)
qed (simp add: unlines_def reads_Nil)

lemma reads_SCRIPT_HEADER: "reads SCRIPT_HEADER []"
  unfolding SCRIPT_HEADER_def by (rule reads_comments) code_simp

lemma label_no_newline [simp]: "10 \<notin> set (shell_label t)"
  by (auto simp: shell_label_def is_control_def)

definition snapshot_command :: "string \<Rightarrow> string \<Rightarrow> string \<Rightarrow> word list" where
  "snapshot_command zfs ts name = [plain (lit zfs), plain (lit ''snapshot''), quoted (to_string_lossy name @ lit ''@dedcom-'' @ lit ts)]"

definition plain_text :: "string \<Rightarrow> bool" where
  "plain_text s \<longleftrightarrow> s \<noteq> [] \<and> list_all plain_char (lit s)"

lemma reads_snapshot: "plain_text zfs \<Longrightarrow> reads (snapshot_line zfs ts name) [snapshot_command zfs ts name]"
proof -
  assume z: "plain_text zfs"
  let ?as = "[bare zfs, bare ''snapshot'', Quoted (to_string_lossy name @ lit ''@dedcom-'' @ lit ts)]"
  have "snapshot_line zfs ts name = line ?as" by (simp add: snapshot_line_def bare_def) (simp add: lit_def)
  then show ?thesis
    using reads_line [of ?as] z by (simp add: bare_def lit_def plain_char_def plain_text_def snapshot_command_def)
qed

definition failure_words :: "word list" where
  "failure_words = map plain [lit ''dedcom_failed=$((dedcom_failed'', lit ''+'', lit ''1))'']"

definition failure_arguments :: "argument list" where
  "failure_arguments = [bare ''dedcom_failed=$((dedcom_failed'', bare ''+'', bare ''1))'']"

lemma failure_line: "count_failure @ [10] = line failure_arguments"
  by (simp add: count_failure_def failure_arguments_def bare_def lit_def)

lemma failure_good: "list_all good failure_arguments" "failure_arguments \<noteq> []" "map word_of failure_arguments = failure_words"
  by (simp_all add: failure_arguments_def failure_words_def bare_def lit_def plain_char_def)

lemma reads_failure: "reads (count_failure @ [10]) [failure_words]"
  using reads_line [OF failure_good(1,2)] by (simp add: failure_line failure_good(3))

definition call_arguments :: "plan_action \<Rightarrow> chars \<Rightarrow> path \<Rightarrow> chars list" where
  "call_arguments a label dest =
     [shown (pa_target a), shown (pa_keeper a), shown dest, label]
       @ (if pa_kind a = Delete then []
          else [shell_label (shown dest), shown (case parent (pa_target a) of Some dir \<Rightarrow> dir | None \<Rightarrow> [RootDir])])"

definition call_command :: "plan_action \<Rightarrow> chars \<Rightarrow> path \<Rightarrow> word list" where
  "call_command a label dest =
     plain (step_name (pa_kind a)) # map quoted (call_arguments a label dest) @ plain (lit ''||'') # failure_words"

lemma line_append: "ys \<noteq> [] \<Longrightarrow> xs \<noteq> [] \<Longrightarrow> line (xs @ ys) = concat (map (\<lambda>a. written a @ [32]) xs) @ line ys"
  by (induction xs rule: line.induct) (auto simp: neq_Nil_conv)

lemma reads_call: "reads (call_line a label dest) [call_command a label dest]"
proof -
  let ?as = "Bareword (step_name (pa_kind a)) # map Quoted (call_arguments a label dest) @ bare ''||'' # failure_arguments"
  have tail: "lit '' || '' @ count_failure @ [10] = 32 # line (bare ''||'' # failure_arguments)"
    by (simp add: failure_line failure_arguments_def bare_def) (simp add: lit_def)
  have "call_line a label dest = line ?as"
    unfolding call_line_def tail call_arguments_def
    by (cases "pa_kind a") (simp_all add: lit_def failure_arguments_def)
  moreover have "good (Bareword (step_name (pa_kind a)))" "good (bare ''||'')"
    by (cases "pa_kind a"; simp add: lit_def plain_char_def) (simp add: bare_def lit_def plain_char_def)
  then have "list_all good ?as" using failure_good(1) by (auto simp: list_all_iff)
  ultimately show ?thesis
    using reads_line [of ?as] failure_good(3) by (simp add: call_command_def bare_def comp_def)
qed

definition action_commands :: "action_plan \<Rightarrow> dataset list \<Rightarrow> string \<Rightarrow> plan_action \<Rightarrow> word list list" where
  "action_commands plan datasets ts a =
     (let label = shell_label (shown (pa_target a)) in
      case quarantine_dest a (target_device plan a) datasets ts of
        None \<Rightarrow> [[plain (lit ''echo''), quoted (skip_message label), plain (lit ''>&2'')], failure_words]
      | Some dest \<Rightarrow> [call_command a label dest])"

lemma reads_hash: "10 \<notin> set t \<Longrightarrow> reads (lit ''# '' @ t @ [10]) []"
  using reads_comment [of "32 # t"] by (simp add: lit_def)

lemma reads_action: "reads (action_text plan datasets ts a) (action_commands plan datasets ts a)"
proof -
  let ?label = "shell_label (shown (pa_target a))"
  have c: "reads (lit ''# '' @ step_text (pa_kind a) @ lit '': '' @ ?label @ [10]) []"
    using reads_hash [of "step_text (pa_kind a) @ lit '': '' @ ?label"] by (cases "pa_kind a") (simp_all add: lit_def)
  have s: "reads (lit ''#    SKIP: dataset for '' @ ?label @ lit '' not determined'' @ [10]) []"
    using reads_comment [of "lit ''    SKIP: dataset for '' @ ?label @ lit '' not determined''"] by (simp add: lit_def)
  let ?as = "[bare ''echo'', Quoted (skip_message ?label), bare ''>&2'']"
  have "lit ''echo '' @ sh_quote (skip_message ?label) @ lit '' >&2'' @ [10] = line ?as"
    by (simp add: bare_def) (simp add: lit_def)
  then have e: "reads (lit ''echo '' @ sh_quote (skip_message ?label) @ lit '' >&2'' @ [10])
      [[plain (lit ''echo''), quoted (skip_message ?label), plain (lit ''>&2'')]]"
    using reads_line [of ?as] by (simp add: bare_def lit_def plain_char_def)
  show ?thesis
  proof (cases "quarantine_dest a (target_device plan a) datasets ts")
    case None
    from reads_append [OF c reads_append [OF s reads_append [OF e reads_failure]]] show ?thesis
      by (simp add: action_text_def action_commands_def Let_def None)
  next
    case (Some dest)
    from reads_append [OF c reads_call] show ?thesis
      by (simp add: action_text_def action_commands_def Let_def Some)
  qed
qed

section \<open>The whole script\<close>

definition refusal_commands :: "word list list" where
  "refusal_commands =
     [[plain (lit ''echo''), quoted (lit ''dedcom: trusted zfs not found '' @ [em_dash] @ lit '' plan not generated (fail-closed)''), plain (lit ''>&2'')],
      [plain (lit ''exit''), plain (lit ''1'')]]"

lemma reads_REFUSAL: "reads REFUSAL refusal_commands"
proof -
  let ?m = "lit ''dedcom: trusted zfs not found '' @ [em_dash] @ lit '' plan not generated (fail-closed)''"
  let ?as = "[bare ''echo'', Quoted ?m, bare ''>&2'']"
  have "39 \<notin> set ?m" by (simp add: lit_def em_dash_def)
  from sh_quote_clean [OF this]
  have r: "REFUSAL = unlines [lit ''# REFUSAL: trusted absolute path to `zfs` not found.'',
      lit ''# The snapshot safety cannot be generated, and we don'' @ [39] @ lit ''t emit destructive ops without it.'']
      @ line ?as @ line [bare ''exit'', bare ''1'']"
    by (simp add: REFUSAL_def unlines_def bare_def) (simp add: lit_def)
  have c: "reads (unlines [lit ''# REFUSAL: trusted absolute path to `zfs` not found.'',
      lit ''# The snapshot safety cannot be generated, and we don'' @ [39] @ lit ''t emit destructive ops without it.'']) []"
    by (rule reads_comments) code_simp
  have "reads (line ?as) [map word_of ?as]" "reads (line [bare ''exit'', bare ''1'']) [map word_of [bare ''exit'', bare ''1'']]"
    by (rule reads_line; simp add: bare_def lit_def plain_char_def)+
  from reads_append [OF c reads_append [OF this]] show ?thesis by (simp add: r refusal_commands_def bare_def)
qed

definition options :: "word list" where
  "options = [plain (lit ''set''), plain (lit ''-euo''), plain (lit ''pipefail'')]"

lemma reads_preamble:
  assumes "10 \<notin> set (lit ts)" "10 \<notin> set phrase"
  shows "reads (preamble plan phrase ts) [options]"
proof -
  have h1: "reads (lit ''#!/usr/bin/env bash'' @ [10]) []" by (rule reads_comment_line) code_simp
  have h2: "reads (lit ''# dedcom '' @ [em_dash] @ lit '' the action plan as a shell script.'' @ [10]) []"
    using reads_hash [of "lit ''dedcom '' @ [em_dash] @ lit '' the action plan as a shell script.''"]
    by (simp add: lit_def em_dash_def)
  have h3: "reads (lit ''# Plan snapshot from '' @ lit ts @ lit ''.'' @ [10]) []"
    using reads_hash [of "lit ''Plan snapshot from '' @ lit ts @ lit ''.''"] assms(1) by (simp add: lit_def)
  have h4: "reads (lit ''# '' @ num a @ lit '' action(s) over '' @ num b @ lit '' allocation(s). '' @ phrase @ [10]) []" for a b
    using reads_hash [of "num a @ lit '' action(s) over '' @ num b @ lit '' allocation(s). '' @ phrase"] assms(2) by (simp add: lit_def)
  have h5: "reads (concat (map (\<lambda>w. lit ''# '' @ shell_label (warning_message w) @ [10]) ws)) []" for ws
    by (rule reads_silent) (rule reads_hash, simp)
  let ?as = "[bare ''set'', bare ''-euo'', bare ''pipefail'']"
  have "reads (line ?as) [map word_of ?as]" by (rule reads_line) (simp_all add: bare_def lit_def plain_char_def)
  then have h6: "reads (lit ''set -euo pipefail'' @ [10, 10]) [options]"
    using reads_append [OF _ reads_newline, of "line ?as" "[map word_of ?as]"]
    by (simp add: bare_def options_def) (simp add: lit_def)
  from reads_append [OF h1 reads_append [OF h2 reads_append [OF h3 reads_append [OF h4 [of "ps_actions (ap_summary plan)" "ps_covered_objects (ap_summary plan)"]
      reads_append [OF h5 [of "ps_warnings (ap_summary plan)"] reads_append [OF reads_SCRIPT_HEADER h6]]]]]]
  show ?thesis by (simp add: preamble_def)
qed

lemma light_in_double:
  "34 \<notin> set t \<Longrightarrow> 92 \<notin> set t \<Longrightarrow> fold light_step t (InDouble, True, ws) = (InDouble, True, ws)"
  by (induction t) simp_all

lemma reads_closing: "reads (closing n) (commands (closing n))"
proof (rule neutral_reads, rule light_neutral)
  have a: \<open>fold light_step ([10] @ lit ''if [ "$dedcom_failed" -ne 0 ]; then'' @ [10] @ lit ''  echo "dedcom: $dedcom_failed of '')
      (Bare, False, False) = (InDouble, True, True)\<close> by code_simp
  have b: "fold light_step (num n) (InDouble, True, True) = (InDouble, True, True)"
    by (rule light_in_double) (use num_chars [of 34 n] num_chars [of 92 n] in auto)
  have c: "fold light_step (lit '' '' @ lit (if n = 1 then ''action'' else ''actions'')) (InDouble, True, True) = (InDouble, True, True)"
    by (cases "n = 1") (simp_all, code_simp+)
  have d: \<open>fold light_step (lit '' not carried out '' @ [em_dash] @ lit '' each is named above" >&2'' @ [10] @ lit ''  exit 1'' @ [10] @ lit ''fi'' @ [10]
     @ lit ''echo \'dedcom: plan executed.'' @ [39, 10]) (InDouble, True, True) = (Bare, False, False)\<close> by code_simp
  show "fold light_step (closing n) (Bare, False, False) = (Bare, False, False)"
    using a b c d by (simp add: closing_def del: light_step.simps)
qed

definition start_counting :: "word list" where
  "start_counting = [plain (lit ''dedcom_failed=0'')]"

definition check_again :: "word list" where
  "check_again = [plain (lit ''dedcom_preflight'')]"

definition definition_commands :: "action_plan \<Rightarrow> dataset list \<Rightarrow> word list list" where
  "definition_commands plan datasets =
     (let kinds = acting_kinds plan datasets in
      if kinds = [] then []
      else commands SHELL_COMMON @ (if Delete \<in> set kinds then commands SHELL_DELETE else [])
        @ (if Hardlink \<in> set kinds \<or> Reflink \<in> set kinds then commands SHELL_REPLACE else [])
        @ (if Hardlink \<in> set kinds then commands SHELL_HARDLINK else [])
        @ (if Reflink \<in> set kinds then commands SHELL_REFLINK else []))"

lemma reads_if: "(b \<Longrightarrow> reads s a) \<Longrightarrow> reads (if b then s else []) (if b then a else [])"
  by (simp add: reads_Nil)

lemma reads_definitions: "reads (action_definitions plan datasets) (definition_commands plan datasets)"
proof (cases "acting_kinds plan datasets = []")
  case False
  have c: "reads (lit ''# 0b. Each action, step by step as applying with [Y] takes it.'' @ [10]) []"
    by (rule reads_comment_line) code_simp
  note parts = reads_if [OF reads_SHELL_DELETE] reads_if [OF reads_SHELL_REPLACE] reads_if [OF reads_SHELL_HARDLINK] reads_if [OF reads_SHELL_REFLINK]
  from reads_append [OF c reads_append [OF reads_SHELL_COMMON reads_append [OF parts(1) reads_append [OF parts(2)
      reads_append [OF parts(3) reads_append [OF parts(4) reads_newline]]]]]] False
  show ?thesis by (simp add: action_definitions_def definition_commands_def Let_def)
qed (simp add: action_definitions_def definition_commands_def reads_Nil)

lemma reads_word_line: "list_all plain_char (lit s) \<Longrightarrow> s \<noteq> [] \<Longrightarrow> reads (lit s @ [10, 10]) [[plain (lit s)]]"
  using reads_append [OF reads_bare reads_newline, of s] by simp

lemma reads_snapshots:
  assumes "snap_targets plan datasets \<noteq> [] \<longrightarrow> plain_text (the zfs)"
  shows "reads (snapshot_section plan datasets zfs ts) (map (snapshot_command (the zfs) ts) (snap_targets plan datasets))"
proof -
  have c: "reads (lit ''# 2. Safety ZFS snapshots (rollback: zfs rollback <snapshot>):'' @ [10]) []"
    by (rule reads_comment_line) code_simp
  have e: "reads (lit ''#    (datasets not determined '' @ [em_dash] @ lit '' snapshots skipped)'' @ [10]) []"
    using reads_comment_line [of "lit ''#    (datasets not determined '' @ [em_dash] @ lit '' snapshots skipped)''"]
    by (simp add: comment_def lit_def em_dash_def)
  have "reads (if snap_targets plan datasets = [] then lit ''#    (datasets not determined '' @ [em_dash] @ lit '' snapshots skipped)'' @ [10]
      else concat (map (snapshot_line (the zfs) ts) (snap_targets plan datasets)))
      (map (snapshot_command (the zfs) ts) (snap_targets plan datasets))"
    using e assms reads_each [of "snap_targets plan datasets" "snapshot_line (the zfs) ts" "snapshot_command (the zfs) ts"] reads_snapshot
    by auto
  from reads_append [OF c reads_append [OF this reads_newline]] show ?thesis by (simp add: snapshot_section_def)
qed

definition script_commands :: "action_plan \<Rightarrow> dataset list \<Rightarrow> string option \<Rightarrow> string \<Rightarrow> word list list" where
  "script_commands plan datasets zfs ts =
     [options] @ preflight_commands plan @ definition_commands plan datasets @ [check_again]
       @ map (snapshot_command (the zfs) ts) (snap_targets plan datasets) @ [check_again, start_counting]
       @ concat (map (action_commands plan datasets ts) (ap_actions plan)) @ commands (closing (length (ap_actions plan)))"

lemma reads_script:
  assumes "10 \<notin> set (lit ts)" "10 \<notin> set phrase" "snap_targets plan datasets \<noteq> [] \<longrightarrow> (\<exists>z. zfs = Some z \<and> plain_text z)"
  shows "reads (render_script plan datasets zfs phrase ts) (script_commands plan datasets zfs ts)"
proof -
  have c1: "reads (lit ''# 1. Structural preflight, before anything exists.'' @ [10]) []" by (rule reads_comment_line) code_simp
  have c3: "reads (lit ''# 3. The same preflight again, immediately before the first change.'' @ [10]) []" by (rule reads_comment_line) code_simp
  have c4: "reads (lit ''# 4. Actions: '' @ num n @ lit '' total.'' @ [10]) []" for n
    using reads_hash [of "lit ''4. Actions: '' @ num n @ lit '' total.''"] by (simp add: lit_def)
  have p: "reads (lit ''dedcom_preflight'' @ [10, 10]) [check_again]"
    unfolding check_again_def by (rule reads_word_line) (simp_all add: lit_def plain_char_def)
  have s: "reads (lit ''dedcom_failed=0'' @ [10]) [start_counting]"
    unfolding start_counting_def by (rule reads_bare) (simp_all add: lit_def plain_char_def)
  have z: "snap_targets plan datasets \<noteq> [] \<longrightarrow> plain_text (the zfs)" "\<not> (snap_targets plan datasets \<noteq> [] \<and> zfs = None)"
    using assms(3) by auto
  have "reads (preamble plan phrase ts @ preflight_definition plan @ action_definitions plan datasets
      @ (lit ''# 1. Structural preflight, before anything exists.'' @ [10]) @ (lit ''dedcom_preflight'' @ [10, 10])
      @ snapshot_section plan datasets zfs ts
      @ (lit ''# 3. The same preflight again, immediately before the first change.'' @ [10]) @ (lit ''dedcom_preflight'' @ [10, 10])
      @ (lit ''# 4. Actions: '' @ num (length (ap_actions plan)) @ lit '' total.'' @ [10]) @ (lit ''dedcom_failed=0'' @ [10])
      @ concat (map (action_text plan datasets ts) (ap_actions plan)) @ closing (length (ap_actions plan)))
    ([options] @ preflight_commands plan @ definition_commands plan datasets @ [] @ [check_again]
      @ map (snapshot_command (the zfs) ts) (snap_targets plan datasets) @ [] @ [check_again] @ [] @ [start_counting]
      @ concat (map (action_commands plan datasets ts) (ap_actions plan)) @ commands (closing (length (ap_actions plan))))"
    by (intro reads_append reads_preamble assms reads_preflight reads_definitions c1 c3 c4 p s reads_snapshots z
        reads_concat reads_action reads_closing)
  then show ?thesis unfolding render_script_def if_not_P [OF z(2)] script_commands_def by simp
qed


text \<open>
  Without a trusted \<open>zfs\<close> the script of a plan that needs snapshots carries nothing out: it is
  the refusal and the exit, with no preflight, no step and no call.
\<close>
theorem script_fails_closed:
  assumes "10 \<notin> set (lit ts)" "10 \<notin> set phrase" "snap_targets plan datasets \<noteq> []"
  shows "commands (render_script plan datasets None phrase ts) = options # refusal_commands"
proof -
  have "render_script plan datasets None phrase ts = preamble plan phrase ts @ REFUSAL"
    using assms(3) by (simp add: render_script_def)
  then show ?thesis using reads_commands [OF reads_append [OF reads_preamble [OF assms(1,2)] reads_REFUSAL]] by simp
qed

section \<open>A sample script\<close>

definition script_sample_dataset :: dataset where
  "script_sample_dataset = \<lparr>ds_name = ''tank'', ds_mountpoint = [RootDir], ds_device = Some 1,
     ds_snapdir_visible = False, ds_block_cloning = None\<rparr>"

lemma sample_snap_targets: "snap_targets sample_plan [script_sample_dataset] = [''tank'']"
  unfolding sample_plan_def by code_simp


theorem script_fails_closed_witness:
  "commands (render_script sample_plan [script_sample_dataset] None (lit ''rescan required'') ''now'') = options # refusal_commands"
  by (rule script_fails_closed) (simp_all add: lit_def sample_snap_targets)

end
