(* ===== verification/Script_Route.thy ===== *)
theory Script_Route
  imports Script Batch_Safety
begin

text \<open>
  The script (\<open>actions/script_preview.rs\<close>) and the batch (\<open>actions/mod.rs\<close>) as two ways to carry out one
  plan: they put the files in the same place and take the same snapshots.
\<close>

section \<open>The script and the batch\<close>

lemma snap_targets_acc:
  "distinct known \<Longrightarrow>
   let names = fold (\<lambda>a names. case dataset_by_device datasets (target_device plan a) of
        Some ds \<Rightarrow> if ds_name ds \<in> set names then names else names @ [ds_name ds] | None \<Rightarrow> names) as known in
   distinct names \<and> set names = set known \<union> {ds_name ds | ds a. a \<in> set as \<and> dataset_by_device datasets (target_device plan a) = Some ds}"
proof (induction as arbitrary: known)
  case (Cons a as)
  define known' where "known' = (case dataset_by_device datasets (target_device plan a) of
        Some ds \<Rightarrow> if ds_name ds \<in> set known then known else known @ [ds_name ds] | None \<Rightarrow> known)"
  have k: "distinct known'" "set known' = set known \<union> {ds_name ds | ds. dataset_by_device datasets (target_device plan a) = Some ds}"
    using Cons.prems by (auto simp: known'_def split: option.split)
  have "{ds_name ds | ds b. b \<in> set (a # as) \<and> dataset_by_device datasets (target_device plan b) = Some ds} =
      {ds_name ds | ds. dataset_by_device datasets (target_device plan a) = Some ds}
      \<union> {ds_name ds | ds b. b \<in> set as \<and> dataset_by_device datasets (target_device plan b) = Some ds}" by auto
  with Cons.IH [OF k(1)] k(2) show ?case by (simp add: Let_def known'_def Un_assoc)
qed simp

lemma snap_targets_set:
  "distinct (snap_targets plan datasets) \<and>
   set (snap_targets plan datasets) = {ds_name ds | ds a. a \<in> set (ap_actions plan) \<and> dataset_by_device datasets (target_device plan a) = Some ds}"
  using snap_targets_acc [of "[]" datasets plan "ap_actions plan"] by (simp add: snap_targets_def Let_def)

lemma affected_in_plan:
  "foldl (add_affected rn) known xs = affected \<Longrightarrow> ds \<in> set affected \<Longrightarrow>
     ds \<in> set known \<or> (\<exists>a \<in> fst ` set xs. dataset_by_device (rn_datasets rn) (target_device (rn_plan rn) a) = Some ds)"
proof (induction xs arbitrary: known)
  case (Cons x xs)
  have "ds \<in> set (add_affected rn known x) \<Longrightarrow> ds \<in> set known \<or> dataset_by_device (rn_datasets rn) (target_device (rn_plan rn) (fst x)) = Some ds"
    by (cases x) (auto simp: add_affected_def split: option.splits if_splits)
  with Cons.IH [of "add_affected rn known x"] Cons.prems show ?case by auto
qed simp

lemma claim_name_suffixed: "claim_name env f skip attempts src base n w = (Inr q, w') \<Longrightarrow> \<exists>k. q = suffixed base k"
  by (induction env f skip attempts src base n w rule: claim_name.induct) (auto split: if_splits prod.splits sum.splits)

text \<open>
  The script takes the route of the batch. An action the batch has a place for is called with
  the quarantine path the batch tries first, the batch's own deletion ends there or at a numbered
  variant, its dataset is among the snapshots of the script, and every dataset the batch would take a
  snapshot of is snapshotted by the script, none of them twice.
\<close>
theorem script_takes_the_batch_route:
  assumes "a \<in> set (ap_actions plan)" "place plan a datasets reflink_safe = Inr ds"
    and "strip_prefix (pa_target a) (ds_mountpoint ds) = Some rel"
  shows "\<exists>dest. quarantine_dest a (target_device plan a) datasets ts = Some dest
     \<and> dest = join (quarantine_dir (ds_mountpoint ds) ts) rel
     \<and> (\<forall>env attempts w q w'. delete_to_quarantine env attempts (pa_target a) (ds_mountpoint ds) (quarantine_dir (ds_mountpoint ds) ts) w
           = (Inr q, w') \<longrightarrow> (\<exists>k. q = suffixed dest k))
     \<and> ds_name ds \<in> set (snap_targets plan datasets) \<and> distinct (snap_targets plan datasets)
     \<and> (\<forall>rn found. rn_plan rn = plan \<and> rn_datasets rn = datasets \<longrightarrow>
           set (map ds_name (affected_datasets rn found)) \<subseteq> set (snap_targets plan datasets))"
proof -
  have d: "dataset_by_device datasets (target_device plan a) = Some ds"
    using assms(2) by (auto simp: place_def Let_def split: if_splits option.splits)
  then have dest: "quarantine_dest a (target_device plan a) datasets ts = Some (join (quarantine_dir (ds_mountpoint ds) ts) rel)"
    by (simp add: quarantine_dest_def assms(3) quarantine_dir_def)
  have "\<exists>k. q = suffixed (join (quarantine_dir (ds_mountpoint ds) ts) rel) k"
    if "delete_to_quarantine env attempts (pa_target a) (ds_mountpoint ds) (quarantine_dir (ds_mountpoint ds) ts) w = (Inr q, w')"
    for env attempts w q w'
    using that assms(3) by (auto simp: delete_to_quarantine_def Let_def split: prod.splits sum.splits if_splits dest!: claim_name_suffixed)
  moreover have "set (map ds_name (affected_datasets rn found)) \<subseteq> set (snap_targets plan datasets)"
    if "rn_plan rn = plan \<and> rn_datasets rn = datasets" for rn found
    using affected_in_plan [OF refl, of _ rn "[]" "zip (ap_actions (rn_plan rn)) found"] that snap_targets_set [of plan datasets]
    by (fastforce simp: affected_datasets_def dest: set_zip_leftD)
  moreover have "ds_name ds \<in> set (snap_targets plan datasets)" using snap_targets_set [of plan datasets] d assms(1) by auto
  ultimately show ?thesis using dest snap_targets_set [of plan datasets] by blast
qed

theorem script_takes_the_batch_route_witness:
  "quarantine_dest (hd (ap_actions sample_plan)) (target_device sample_plan (hd (ap_actions sample_plan))) [sample_dataset] ''now''
      = Some [RootDir, Normal ''.dedcom-quarantine'', Normal ''now'', Normal ''c'']
   \<and> ''tank'' \<in> set (snap_targets sample_plan [sample_dataset])"
proof -
  let ?a = "hd (ap_actions sample_plan)"
  have ne: "ap_actions sample_plan \<noteq> []" using arg_cong [OF sample_actions(1), of length] by auto
  then have a: "?a \<in> set (ap_actions sample_plan)" by simp
  have t: "pa_target ?a = [RootDir, Normal ''c'']" using arg_cong [OF sample_actions(2), of hd] ne by (simp add: hd_map)
  have p: "place sample_plan ?a [sample_dataset] False = Inr sample_dataset"
    unfolding sample_plan_def by code_simp
  have s: "strip_prefix (pa_target ?a) (ds_mountpoint sample_dataset) = Some [Normal ''c'']"
    by (simp add: t) code_simp
  have "join (quarantine_dir (ds_mountpoint sample_dataset) ''now'') [Normal ''c''] = [RootDir, Normal ''.dedcom-quarantine'', Normal ''now'', Normal ''c'']"
    by code_simp
  moreover have "ds_name sample_dataset = ''tank''" by (simp add: sample_dataset_def)
  ultimately show ?thesis using script_takes_the_batch_route [OF a p s, of "''now''"] by auto
qed

end
