(* ===== verification/Script_Steps.thy ===== *)
theory Script_Steps
  imports Publication
begin

text \<open>
  The functions of the script (\<open>SHELL_COMMON\<close>, \<open>SHELL_DELETE\<close>, \<open>SHELL_REPLACE\<close> and \<open>SHELL_HARDLINK\<close> of
  \<open>actions/script_preview.rs\<close>) as operations on the file system. A function returns whether its exit
  status is 0. The tools are what they are documented to be: \<open>mv -n\<close> renames without replacing and
  succeeds when the destination is taken, \<open>rm -f\<close> succeeds when there is nothing, \<open>cmp\<close> reads both files,
  \<open>findmnt\<close> names the mount of a path. An identity that could not be read is the empty text, \<open>None\<close>; what
  the functions print is left out. On one mount a rename does not cross devices.
\<close>

section \<open>The tools\<close>

record shell =
  sh_env :: env
  sh_mount :: "nat \<Rightarrow> path \<Rightarrow> string option"
  sh_resolves :: "nat \<Rightarrow> path \<Rightarrow> bool"
  sh_temp :: "nat \<Rightarrow> path \<Rightarrow> path option"

type_synonym identity = "(u64 \<times> u64) option"

definition mv_n :: "shell \<Rightarrow> path \<Rightarrow> path \<Rightarrow> world \<Rightarrow> bool \<times> world" where
  "mv_n sh src dst w =
     (case syscall (sh_env sh) (k_rename (sh_env sh) src dst) w of
        (Inr _, w) \<Rightarrow> (True, w)
      | (Inl e, w) \<Rightarrow> (e = EEXIST, w))"

definition rm_f :: "shell \<Rightarrow> path \<Rightarrow> world \<Rightarrow> bool \<times> world" where
  "rm_f sh p w = (case remove_file (sh_env sh) p w of (Inr _, w) \<Rightarrow> (True, w) | (Inl e, w) \<Rightarrow> (e = ENOENT, w))"

definition is_link :: "shell \<Rightarrow> path \<Rightarrow> world \<Rightarrow> bool \<times> world" where
  "is_link sh p w = (case symlink_metadata (sh_env sh) p w of (Inr node, w) \<Rightarrow> (in_symlink node, w) | (Inl _, w) \<Rightarrow> (False, w))"

text \<open>\<open>-e\<close> follows a symbolic link; \<open>-e\<close> or \<open>-L\<close>: there is something at the path.\<close>

definition exists_e :: "shell \<Rightarrow> path \<Rightarrow> world \<Rightarrow> bool \<times> world" where
  "exists_e sh p w =
     (case symlink_metadata (sh_env sh) p w of
        (Inr node, w') \<Rightarrow> (\<not> in_symlink node \<or> sh_resolves sh (w_tick w) p, w')
      | (Inl _, w') \<Rightarrow> (False, w'))"

definition present :: "shell \<Rightarrow> path \<Rightarrow> world \<Rightarrow> bool \<times> world" where
  "present sh p w = (case symlink_metadata (sh_env sh) p w of (Inr _, w) \<Rightarrow> (True, w) | (Inl _, w) \<Rightarrow> (False, w))"

definition cmp_s :: "shell \<Rightarrow> path \<Rightarrow> path \<Rightarrow> world \<Rightarrow> bool \<times> world" where
  "cmp_s sh p q w =
     (case read_file (sh_env sh) p w of
        (Inl _, w) \<Rightarrow> (False, w)
      | (Inr a, w) \<Rightarrow> (case read_file (sh_env sh) q w of (Inl _, w) \<Rightarrow> (False, w) | (Inr b, w) \<Rightarrow> (a = b, w)))"

section \<open>The shared functions\<close>

definition dedcom_id :: "shell \<Rightarrow> path \<Rightarrow> world \<Rightarrow> identity \<times> world" where
  "dedcom_id sh p w =
     (case symlink_metadata (sh_env sh) p w of
        (Inr node, w) \<Rightarrow> (Some (li_device (in_live node), li_inode (in_live node)), w)
      | (Inl _, w) \<Rightarrow> (None, w))"

definition dedcom_mount :: "shell \<Rightarrow> path \<Rightarrow> world \<Rightarrow> string option" where
  "dedcom_mount sh p w = sh_mount sh (w_tick w) p"

definition dedcom_same :: "shell \<Rightarrow> path \<Rightarrow> path \<Rightarrow> world \<Rightarrow> bool \<times> world" where
  "dedcom_same sh target keeper w =
     (case is_link sh target w of
        (True, w) \<Rightarrow> (False, w)
      | (False, w) \<Rightarrow>
          (case is_link sh keeper w of
             (True, w) \<Rightarrow> (False, w)
           | (False, w) \<Rightarrow> cmp_s sh keeper target w))"

definition dedcom_evacuate :: "shell \<Rightarrow> path \<Rightarrow> identity \<Rightarrow> path \<Rightarrow> world \<Rightarrow> bool \<times> world" where
  "dedcom_evacuate sh target ino dest w =
     (let dir = (case parent dest of Some d \<Rightarrow> d | None \<Rightarrow> dest) in
      case create_dir_all (sh_env sh) dir w of
        (Inl _, w) \<Rightarrow> (False, w)
      | (Inr _, w) \<Rightarrow>
          (case (dedcom_mount sh target w, dedcom_mount sh dir w) of
             (Some here, Some there) \<Rightarrow>
               if here = [] \<or> there \<noteq> here then (False, w)
               else (case mv_n sh target dest w of
                   (False, w) \<Rightarrow> (False, w)
                 | (True, w) \<Rightarrow> (let (now, w) = dedcom_id sh dest w in (now = ino, w)))
           | _ \<Rightarrow> (False, w)))"

definition dedcom_delete :: "shell \<Rightarrow> path \<Rightarrow> path \<Rightarrow> path \<Rightarrow> world \<Rightarrow> bool \<times> world" where
  "dedcom_delete sh target keeper dest w =
     (case dedcom_same sh target keeper w of
        (False, w) \<Rightarrow> (False, w)
      | (True, w) \<Rightarrow>
          (case dedcom_id sh target w of
             (None, w) \<Rightarrow> (False, w)
           | (Some ino, w) \<Rightarrow> dedcom_evacuate sh target (Some ino) dest w))"

section \<open>The replacement\<close>

text \<open>Only the file told by \<open>made\<close> is removed; otherwise the leftover is named and left.\<close>

definition dedcom_drop :: "shell \<Rightarrow> path \<Rightarrow> identity \<Rightarrow> world \<Rightarrow> world" where
  "dedcom_drop sh stage made w =
     (let (now, w) = dedcom_id sh stage w in
      if now = made then
        (case rm_f sh stage w of (True, w) \<Rightarrow> w | (False, w) \<Rightarrow> snd (present sh stage w))
      else snd (present sh stage w))"

definition dedcom_publish :: "shell \<Rightarrow> path \<Rightarrow> identity \<Rightarrow> path \<Rightarrow> path \<Rightarrow> identity \<Rightarrow> world \<Rightarrow> bool \<times> world" where
  "dedcom_publish sh target ino dest stage made w =
     (case dedcom_evacuate sh target ino dest w of
        (False, w) \<Rightarrow> (False, dedcom_drop sh stage made w)
      | (True, w) \<Rightarrow>
          let (_, w) = mv_n sh stage target w;
              (now, w) = dedcom_id sh target w;
              (there, w) = (if now = made then exists_e sh stage w else (True, w)) in
          if \<not> there then (True, w)
          else
            let w = dedcom_drop sh stage made w;
                (_, w) = mv_n sh dest target w;
                (_, w) = dedcom_id sh target w in
            (False, w))"

definition dedcom_hardlink :: "shell \<Rightarrow> path \<Rightarrow> path \<Rightarrow> path \<Rightarrow> path \<Rightarrow> world \<Rightarrow> bool \<times> world" where
  "dedcom_hardlink sh target keeper dest dir w =
     (case dedcom_same sh target keeper w of
        (False, w) \<Rightarrow> (False, w)
      | (True, w) \<Rightarrow>
          (case dedcom_id sh target w of
             (None, w) \<Rightarrow> (False, w)
           | (Some ino, w) \<Rightarrow>
               (case sh_temp sh (w_tick w) dir of
                  None \<Rightarrow> (False, w)
                | Some stage \<Rightarrow>
                    (case hard_link (sh_env sh) keeper stage w of
                       (Inl _, w) \<Rightarrow> (False, w)
                     | (Inr _, w) \<Rightarrow>
                         let (made, w) = dedcom_id sh stage w in
                         dedcom_publish sh target (Some ino) dest stage made w))))"

section \<open>Nothing is lost\<close>

lemma mv_n_kept: "benign T (sh_env sh) \<Longrightarrow> dst \<notin> T \<or> src \<in> T \<Longrightarrow> kept T (w_fs w) (w_fs (snd (mv_n sh src dst w)))"
  using syscall_kept [where T = T and env = "sh_env sh" and body = "k_rename (sh_env sh) src dst" and w = w, OF _ k_rename_kept]
  by (cases "syscall (sh_env sh) (k_rename (sh_env sh) src dst) w") (auto simp: mv_n_def split: sum.split)

lemma rm_f_kept: "benign T (sh_env sh) \<Longrightarrow> p \<in> T \<Longrightarrow> kept T (w_fs w) (w_fs (snd (rm_f sh p w)))"
  using remove_file_kept [of T "sh_env sh" p w]
  by (cases "remove_file (sh_env sh) p w") (auto simp: rm_f_def split: sum.split)

lemma looks_kept:
  assumes "benign T (sh_env sh)"
  shows "kept T (w_fs w) (w_fs (snd (is_link sh p w)))" "kept T (w_fs w) (w_fs (snd (present sh p w)))"
    "kept T (w_fs w) (w_fs (snd (exists_e sh p w)))" "kept T (w_fs w) (w_fs (snd (dedcom_id sh p w)))"
  using symlink_metadata_kept [OF assms, of w p]
  by (cases "symlink_metadata (sh_env sh) p w";
      auto simp: is_link_def present_def exists_e_def dedcom_id_def split: sum.split)+

lemma cmp_s_kept:
  assumes "benign T (sh_env sh)"
  shows "kept T (w_fs w) (w_fs (snd (cmp_s sh p q w)))"
proof -
  obtain a w1 where a: "read_file (sh_env sh) p w = (a, w1)" by fastforce
  obtain b w2 where b: "read_file (sh_env sh) q w1 = (b, w2)" by fastforce
  have "kept T (w_fs w) (w_fs w1)" "kept T (w_fs w1) (w_fs w2)"
    using read_file_kept [OF assms, of w p] read_file_kept [OF assms, of w1 q] a b by simp_all
  then show ?thesis using a b by (auto simp: cmp_s_def split: sum.split intro: kept_trans)
qed

lemma same_kept:
  assumes "benign T (sh_env sh)"
  shows "kept T (w_fs w) (w_fs (snd (dedcom_same sh target keeper w)))"
proof -
  obtain a w1 where a: "is_link sh target w = (a, w1)" by fastforce
  obtain b w2 where b: "is_link sh keeper w1 = (b, w2)" by fastforce
  have "kept T (w_fs w) (w_fs w1)" "kept T (w_fs w1) (w_fs w2)" "kept T (w_fs w2) (w_fs (snd (cmp_s sh keeper target w2)))"
    using looks_kept(1) [OF assms, of w target] looks_kept(1) [OF assms, of w1 keeper] cmp_s_kept [OF assms, of w2] a b by simp_all
  then show ?thesis using a b by (auto simp: dedcom_same_def split: bool.split intro: kept_trans)
qed

lemma evacuate_step_kept:
  assumes "benign T (sh_env sh)" "dest \<notin> T"
  shows "kept T (w_fs w) (w_fs (snd (dedcom_evacuate sh target ino dest w)))"
proof -
  obtain r w1 where r: "create_dir_all (sh_env sh) (case parent dest of Some d \<Rightarrow> d | None \<Rightarrow> dest) w = (r, w1)" by fastforce
  obtain m w2 where m: "mv_n sh target dest w1 = (m, w2)" by fastforce
  obtain now w3 where n: "dedcom_id sh dest w2 = (now, w3)" by fastforce
  have "kept T (w_fs w) (w_fs w1)" using create_dir_all_kept [OF assms(1)] r by (metis snd_conv)
  moreover have "kept T (w_fs w1) (w_fs w2)" using mv_n_kept [OF assms(1), of dest target w1] assms(2) m by simp
  moreover have "kept T (w_fs w2) (w_fs w3)" using looks_kept(4) [OF assms(1), of w2 dest] n by simp
  ultimately show ?thesis
    using r m n by (auto simp: dedcom_evacuate_def Let_def split: sum.split option.split bool.split intro: kept_trans)
qed

lemma delete_step_kept:
  assumes "benign T (sh_env sh)" "dest \<notin> T"
  shows "kept T (w_fs w) (w_fs (snd (dedcom_delete sh target keeper dest w)))"
proof -
  obtain s w1 where s: "dedcom_same sh target keeper w = (s, w1)" by fastforce
  obtain i w2 where i: "dedcom_id sh target w1 = (i, w2)" by fastforce
  have "kept T (w_fs w) (w_fs w1)" "kept T (w_fs w1) (w_fs w2)"
    using same_kept [OF assms(1), of w target keeper] looks_kept(4) [OF assms(1), of w1 target] s i by simp_all
  moreover have "kept T (w_fs w2) (w_fs (snd (dedcom_evacuate sh target i dest w2)))" by (rule evacuate_step_kept [OF assms])
  ultimately show ?thesis using s i by (auto simp: dedcom_delete_def split: bool.split option.split intro: kept_trans)
qed

lemma drop_kept:
  assumes "benign T (sh_env sh)" "stage \<in> T"
  shows "kept T (w_fs w) (w_fs (dedcom_drop sh stage made w))"
proof -
  obtain n w1 where n: "dedcom_id sh stage w = (n, w1)" by fastforce
  obtain r w2 where r: "rm_f sh stage w1 = (r, w2)" by fastforce
  have "kept T (w_fs w) (w_fs w1)" "kept T (w_fs w1) (w_fs w2)"
    using looks_kept(4) [OF assms(1), of w stage] rm_f_kept [OF assms, of w1] n r by simp_all
  moreover have "kept T (w_fs v) (w_fs (snd (present sh stage v)))" for v by (rule looks_kept(2) [OF assms(1)])
  ultimately show ?thesis using n r by (auto simp: dedcom_drop_def Let_def split: bool.split intro: kept_trans)
qed

lemma publish_kept:
  assumes "benign T (sh_env sh)" "stage \<in> T" "dest \<notin> T" "target \<notin> T"
  shows "kept T (w_fs w) (w_fs (snd (dedcom_publish sh target ino dest stage made w)))"
proof -
  obtain e w1 where e: "dedcom_evacuate sh target ino dest w = (e, w1)" by fastforce
  obtain x w2 where x: "mv_n sh stage target w1 = (x, w2)" by fastforce
  obtain now w3 where n: "dedcom_id sh target w2 = (now, w3)" by fastforce
  obtain there w4 where t: "(if now = made then exists_e sh stage w3 else (True, w3)) = (there, w4)" by fastforce
  obtain y w6 where y: "mv_n sh dest target (dedcom_drop sh stage made w4) = (y, w6)" by fastforce
  obtain z w7 where z: "dedcom_id sh target w6 = (z, w7)" by fastforce
  have 1: "kept T (w_fs w) (w_fs w1)" using evacuate_step_kept [OF assms(1,3), of w target ino] e by simp
  have 2: "kept T (w_fs w1) (w_fs w2)" using mv_n_kept [OF assms(1), of target stage w1] assms(4) x by simp
  have 3: "kept T (w_fs w2) (w_fs w3)" using looks_kept(4) [OF assms(1), of w2 target] n by simp
  have 4: "kept T (w_fs w3) (w_fs w4)" using looks_kept(3) [OF assms(1), of w3 stage] t by (auto split: if_splits)
  have 5: "kept T (w_fs v) (w_fs (dedcom_drop sh stage made v))" for v by (rule drop_kept [OF assms(1,2)])
  have 6: "kept T (w_fs (dedcom_drop sh stage made w4)) (w_fs w6)"
    using mv_n_kept [OF assms(1), of target dest "dedcom_drop sh stage made w4"] assms(4) y by simp
  have 7: "kept T (w_fs w6) (w_fs w7)" using looks_kept(4) [OF assms(1), of w6 target] z by simp
  have 14: "kept T (w_fs w) (w_fs w4)" using 1 2 3 4 by (blast intro: kept_trans)
  have 17: "kept T (w_fs w) (w_fs w7)" using 14 5 [of w4] 6 7 by (blast intro: kept_trans)
  have 15: "kept T (w_fs w) (w_fs (dedcom_drop sh stage made w1))" using 1 5 by (rule kept_trans)
  have "snd (dedcom_publish sh target ino dest stage made w) \<in> {dedcom_drop sh stage made w1, w4, w7}"
    by (cases e; cases there) (simp_all add: dedcom_publish_def e x n t y z Let_def)
  then show ?thesis using 14 15 17 by auto
qed

lemma hardlink_step_kept:
  assumes "benign T (sh_env sh)" "dest \<notin> T" "target \<notin> T" "\<And>n stage. sh_temp sh n dir = Some stage \<Longrightarrow> stage \<in> T"
  shows "kept T (w_fs w) (w_fs (snd (dedcom_hardlink sh target keeper dest dir w)))"
proof -
  obtain s w1 where s: "dedcom_same sh target keeper w = (s, w1)" by fastforce
  obtain i w2 where i: "dedcom_id sh target w1 = (i, w2)" by fastforce
  have 12: "kept T (w_fs w) (w_fs w1)" "kept T (w_fs w1) (w_fs w2)"
    using same_kept [OF assms(1), of w target keeper] looks_kept(4) [OF assms(1), of w1 target] s i by simp_all
  show ?thesis
  proof (cases "s \<and> i \<noteq> None \<and> sh_temp sh (w_tick w2) dir \<noteq> None")
    case False
    then show ?thesis using s i 12 by (auto simp: dedcom_hardlink_def split: bool.split option.split intro: kept_trans)
  next
    case True
    then obtain ino stage where ok: "s" "i = Some ino" "sh_temp sh (w_tick w2) dir = Some stage" by auto
    obtain l w3 where l: "hard_link (sh_env sh) keeper stage w2 = (l, w3)" by fastforce
    obtain m w4 where m: "dedcom_id sh stage w3 = (m, w4)" by fastforce
    have "kept T (w_fs w2) (w_fs w3)" "kept T (w_fs w3) (w_fs w4)"
      using hard_link_kept [OF assms(1), of w2 keeper stage] looks_kept(4) [OF assms(1), of w3 stage] l m by simp_all
    moreover have "kept T (w_fs w4) (w_fs (snd (dedcom_publish sh target (Some ino) dest stage m w4)))"
      using publish_kept [OF assms(1) assms(4) [OF ok(3)] assms(2,3)] .
    moreover have "snd (dedcom_hardlink sh target keeper dest dir w) \<in> {w3, snd (dedcom_publish sh target (Some ino) dest stage m w4)}"
      using ok by (cases l) (simp_all add: dedcom_hardlink_def s i l m)
    ultimately show ?thesis using 12 by (auto intro: kept_trans kept_trans [OF kept_trans])
  qed
qed


section \<open>Where the file ends\<close>

text \<open>With nobody else at work, by the names alone.\<close>

lemma mv_n_alone:
  assumes "alone (sh_env sh)"
  shows "fs_names (w_fs (snd (mv_n sh src dst w))) = fs_names (w_fs w)
    \<or> fst (mv_n sh src dst w) \<and> moved_name src dst (w_fs w) (w_fs (snd (mv_n sh src dst w)))"
  using assms
  by (auto simp: mv_n_def syscall_def Let_def alone_def k_rename_def moved_name_def split: option.splits sum.splits if_splits)

lemma looks_alone:
  assumes "alone (sh_env sh)"
  shows "w_fs (snd (is_link sh p w)) = w_fs w" "w_fs (snd (present sh p w)) = w_fs w"
    "w_fs (snd (exists_e sh p w)) = w_fs w" "w_fs (snd (dedcom_id sh p w)) = w_fs w"
  using symlink_metadata_alone [OF assms, of p w]
  by (cases "symlink_metadata (sh_env sh) p w";
      auto simp: is_link_def present_def exists_e_def dedcom_id_def split: sum.split)+

lemma same_alone:
  assumes "alone (sh_env sh)"
  shows "w_fs (snd (dedcom_same sh target keeper w)) = w_fs w"
proof -
  obtain a w1 where a: "is_link sh target w = (a, w1)" by fastforce
  obtain b w2 where b: "is_link sh keeper w1 = (b, w2)" by fastforce
  obtain c w3 where c: "read_file (sh_env sh) keeper w2 = (c, w3)" by fastforce
  obtain d w4 where d: "read_file (sh_env sh) target w3 = (d, w4)" by fastforce
  have "w_fs w1 = w_fs w" "w_fs w2 = w_fs w1" "w_fs w3 = w_fs w2" "w_fs w4 = w_fs w3"
    using looks_alone(1) [OF assms, of target w] looks_alone(1) [OF assms, of keeper w1]
      read_file_alone [OF assms, of keeper w2] read_file_alone [OF assms, of target w3] a b c d by simp_all
  then show ?thesis using a b c d by (auto simp: dedcom_same_def cmp_s_def split: bool.split sum.split)
qed

lemma evacuate_step_alone:
  assumes "alone (sh_env sh)"
  shows "fs_names (w_fs (snd (dedcom_evacuate sh target ino dest w))) = fs_names (w_fs w)
    \<or> moved_name target dest (w_fs w) (w_fs (snd (dedcom_evacuate sh target ino dest w)))"
proof -
  obtain r w1 where r: "create_dir_all (sh_env sh) (case parent dest of Some d \<Rightarrow> d | None \<Rightarrow> dest) w = (r, w1)" by fastforce
  obtain m w2 where m: "mv_n sh target dest w1 = (m, w2)" by fastforce
  obtain now w3 where n: "dedcom_id sh dest w2 = (now, w3)" by fastforce
  have f: "w_fs w1 = w_fs w" "w_fs w3 = w_fs w2"
    using create_dir_all_alone [OF assms, of _ w] r looks_alone(4) [OF assms, of dest w2] n by (metis snd_conv)+
  have "snd (dedcom_evacuate sh target ino dest w) \<in> {w1, w2, w3}"
    using r m n by (auto simp: dedcom_evacuate_def Let_def split: sum.split option.split bool.split)
  then show ?thesis using mv_n_alone [OF assms, of target dest w1] f m by auto
qed

text \<open>
  The file \<open>i\<close> of the target is where it was, or in the quarantine with the target free or taken by what
  was staged; nothing else changed but the temporary name.
\<close>

definition exchange_ends :: "path \<Rightarrow> path \<Rightarrow> path \<Rightarrow> fs \<Rightarrow> fs \<Rightarrow> bool" where
  "exchange_ends stage target dest fs fs' \<longleftrightarrow>
     (\<forall>p. p \<notin> {stage, target, dest} \<longrightarrow> fs_names fs' p = fs_names fs p)
     \<and> (fs_names fs' target = fs_names fs target \<and> fs_names fs' dest = fs_names fs dest
        \<or> fs_names fs dest = None \<and> fs_names fs' dest = fs_names fs target
            \<and> fs_names fs' target \<in> {None, fs_names fs stage})"

lemma drop_alone:
  assumes "alone (sh_env sh)" "p \<noteq> stage"
  shows "fs_names (w_fs (dedcom_drop sh stage made w)) p = fs_names (w_fs w) p"
proof -
  obtain n w1 where n: "dedcom_id sh stage w = (n, w1)" by fastforce
  obtain r w2 where r: "remove_file (sh_env sh) stage w1 = (r, w2)" by fastforce
  have "w_fs w1 = w_fs w" using looks_alone(4) [OF assms(1), of stage w] n by simp
  moreover have "fs_names (w_fs w2) p = fs_names (w_fs w1) p"
    using remove_file_alone [OF assms(1), where p = stage and w = w1] r assms(2) by (auto split: sum.splits)
  moreover have "w_fs (snd (present sh stage v)) = w_fs v" for v by (rule looks_alone(2) [OF assms(1)])
  ultimately show ?thesis
    using n r by (auto simp: dedcom_drop_def rm_f_def Let_def split: bool.split sum.split)
qed

lemma publish_step_alone:
  assumes a: "alone (sh_env sh)" and ne: "stage \<noteq> target" "stage \<noteq> dest" "target \<noteq> dest" "fs_names (w_fs w) target \<noteq> None"
  shows "exchange_ends stage target dest (w_fs w) (w_fs (snd (dedcom_publish sh target ino dest stage made w)))"
proof -
  obtain e w1 where e: "dedcom_evacuate sh target ino dest w = (e, w1)" by fastforce
  obtain x w2 where x: "mv_n sh stage target w1 = (x, w2)" by fastforce
  obtain now w3 where n: "dedcom_id sh target w2 = (now, w3)" by fastforce
  obtain there w4 where t: "(if now = made then exists_e sh stage w3 else (True, w3)) = (there, w4)" by fastforce
  define w5 where "w5 = dedcom_drop sh stage made w4"
  obtain y w6 where y: "mv_n sh dest target w5 = (y, w6)" by fastforce
  obtain z w7 where z: "dedcom_id sh target w6 = (z, w7)" by fastforce
  have f: "w_fs w3 = w_fs w2" "w_fs w4 = w_fs w3" "w_fs w7 = w_fs w6"
    using looks_alone(4) [OF a, of target w2] n looks_alone(3) [OF a, of stage w3] t looks_alone(4) [OF a, of target w6] z
    by (auto split: if_splits)
  have d: "fs_names (w_fs w5) p = fs_names (w_fs w4) p" if "p \<noteq> stage" for p
    unfolding w5_def by (rule drop_alone [OF a that])
  have d1: "fs_names (w_fs (dedcom_drop sh stage made w1)) p = fs_names (w_fs w1) p" if "p \<noteq> stage" for p
    by (rule drop_alone [OF a that])
  note 1 = evacuate_step_alone [OF a, of target ino dest w, unfolded e snd_conv]
  note 2 = mv_n_alone [OF a, of stage target w1, unfolded x snd_conv fst_conv]
  note 3 = mv_n_alone [OF a, of dest target w5, unfolded y snd_conv fst_conv]
  have s1: "exchange_ends stage target dest (w_fs w) (w_fs (dedcom_drop sh stage made w1))"
    using 1 d1 ne by (auto simp: exchange_ends_def moved_name_def)
  have s4: "exchange_ends stage target dest (w_fs w) (w_fs w4)"
    using 1 2 ne unfolding f by (auto simp: exchange_ends_def moved_name_def)
  have s7: "exchange_ends stage target dest (w_fs w) (w_fs w7)"
    using 1 2 3 d ne unfolding f by (auto simp: exchange_ends_def moved_name_def)
  have "snd (dedcom_publish sh target ino dest stage made w) \<in> {dedcom_drop sh stage made w1, w4, w7}"
    by (cases e; cases there) (simp_all add: dedcom_publish_def e x n t y z w5_def [symmetric] Let_def)
  then show ?thesis using s1 s4 s7 by auto
qed

definition link_ends :: "path \<Rightarrow> path \<Rightarrow> path \<Rightarrow> path \<Rightarrow> fs \<Rightarrow> fs \<Rightarrow> bool" where
  "link_ends stage target keeper dest fs fs' \<longleftrightarrow>
     (\<forall>p. p \<notin> {stage, target, dest} \<longrightarrow> fs_names fs' p = fs_names fs p)
     \<and> (fs_names fs' target = fs_names fs target \<and> fs_names fs' dest = fs_names fs dest
        \<or> fs_names fs dest = None \<and> fs_names fs' dest = fs_names fs target
            \<and> fs_names fs' target \<in> {None, fs_names fs keeper})"

lemma dedcom_id_Some: "alone (sh_env sh) \<Longrightarrow> dedcom_id sh p w = (Some x, w') \<Longrightarrow> fs_names (w_fs w) p \<noteq> None"
  by (auto simp: dedcom_id_def symlink_metadata_def syscall_def Let_def alone_def k_stat_def split: option.splits sum.splits if_splits)

lemma delete_step_alone:
  assumes "alone (sh_env sh)"
  shows "fs_names (w_fs (snd (dedcom_delete sh target keeper dest w))) = fs_names (w_fs w)
    \<or> moved_name target dest (w_fs w) (w_fs (snd (dedcom_delete sh target keeper dest w)))"
proof -
  obtain s w1 where s: "dedcom_same sh target keeper w = (s, w1)" by fastforce
  obtain i w2 where i: "dedcom_id sh target w1 = (i, w2)" by fastforce
  have f: "w_fs w2 = w_fs w" "w_fs w1 = w_fs w"
    using same_alone [OF assms, of target keeper w] looks_alone(4) [OF assms, of target w1] s i by simp_all
  show ?thesis
    using evacuate_step_alone [OF assms, of target i dest w2] s i f
    by (auto simp: dedcom_delete_def split: bool.split option.split)
qed

lemma hardlink_step_alone:
  assumes a: "alone (sh_env sh)" and ne: "target \<noteq> dest" and stages: "\<And>n s. sh_temp sh n dir = Some s \<Longrightarrow> s \<noteq> target \<and> s \<noteq> dest"
  shows "fs_names (w_fs (snd (dedcom_hardlink sh target keeper dest dir w))) = fs_names (w_fs w)
    \<or> (\<exists>n stage. sh_temp sh n dir = Some stage \<and> fs_names (w_fs w) stage = None
        \<and> link_ends stage target keeper dest (w_fs w) (w_fs (snd (dedcom_hardlink sh target keeper dest dir w))))"
proof -
  obtain s w1 where s: "dedcom_same sh target keeper w = (s, w1)" by fastforce
  obtain i w2 where i: "dedcom_id sh target w1 = (i, w2)" by fastforce
  have f: "w_fs w2 = w_fs w" "w_fs w1 = w_fs w"
    using same_alone [OF a, of target keeper w] looks_alone(4) [OF a, of target w1] s i by simp_all
  show ?thesis
  proof (cases "s \<and> i \<noteq> None \<and> sh_temp sh (w_tick w2) dir \<noteq> None")
    case False
    then show ?thesis using s i f by (auto simp: dedcom_hardlink_def split: bool.split option.split)
  next
    case True
    then obtain ino stage where ok: "s" "i = Some ino" "sh_temp sh (w_tick w2) dir = Some stage" by auto
    obtain l w3 where l: "hard_link (sh_env sh) keeper stage w2 = (l, w3)" by fastforce
    obtain m w4 where m: "dedcom_id sh stage w3 = (m, w4)" by fastforce
    note L = hard_link_alone [OF a, where src = keeper and dst = stage and w = w2, unfolded l]
    show ?thesis
    proof (cases l)
      case (Inl e)
      with L have "w_fs w3 = w_fs w" by (simp add: f)
      then show ?thesis using ok l Inl by (simp add: dedcom_hardlink_def s i)
    next
      case (Inr u)
      then have n: "fs_names (w_fs w) stage = None" "fs_names (w_fs w3) = (fs_names (w_fs w))(stage := fs_names (w_fs w) keeper)"
        using L by (simp_all add: f)
      have f4: "w_fs w4 = w_fs w3" using looks_alone(4) [OF a, of stage w3] m by simp
      have t: "fs_names (w_fs w4) target \<noteq> None"
        using dedcom_id_Some [OF a i [unfolded ok(2)]] stages [OF ok(3)] by (auto simp: f4 n f)
      have "snd (dedcom_hardlink sh target keeper dest dir w) = snd (dedcom_publish sh target (Some ino) dest stage m w4)"
        using ok Inr by (simp add: dedcom_hardlink_def s i l m)
      moreover have "exchange_ends stage target dest (w_fs w4) (w_fs (snd (dedcom_publish sh target (Some ino) dest stage m w4)))"
        using stages [OF ok(3)] ne t by (intro publish_step_alone [OF a]) auto
      then have "link_ends stage target keeper dest (w_fs w) (w_fs (snd (dedcom_publish sh target (Some ino) dest stage m w4)))"
        using stages [OF ok(3)] by (auto simp: exchange_ends_def link_ends_def f4 n)
      ultimately show ?thesis using ok(3) n(1) by auto
    qed
  qed
qed


section \<open>On a quiet disk\<close>

definition later :: "world \<Rightarrow> world" where
  "later w = w\<lparr>w_tick := w_tick w + 1\<rparr>"

lemma later_fs [simp]: "w_fs (later w) = w_fs w"
  by (simp add: later_def)

lemma syscall_quiet:
  "quiet env \<Longrightarrow> syscall env body w =
     (case body (w_tick w) (w_fs w) of Inl e \<Rightarrow> (Inl e, later w) | Inr (x, fs') \<Rightarrow> (Inr x, (later w)\<lparr>w_fs := fs'\<rparr>))"
  by (cases w) (auto simp: syscall_def quiet_def alone_def Let_def later_def split: sum.split)

text \<open>The file at a path.\<close>

definition holds :: "world \<Rightarrow> path \<Rightarrow> inode_id \<Rightarrow> inode \<Rightarrow> bool" where
  "holds w p i node \<longleftrightarrow> fs_names (w_fs w) p = Some i \<and> fs_nodes (w_fs w) i = Some node"

definition identity_of :: "inode \<Rightarrow> u64 \<times> u64" where
  "identity_of node = (li_device (in_live node), li_inode (in_live node))"

lemma holds_later [simp]: "holds (later w) p i node = holds w p i node"
  by (simp add: holds_def)

lemma quiet_looks:
  assumes "quiet (sh_env sh)" "holds w p i node"
  shows "is_link sh p w = (in_symlink node, later w)" "dedcom_id sh p w = (Some (identity_of node), later w)"
    "in_type node = RegularFile \<Longrightarrow> read_file (sh_env sh) p w = (Inr (in_data node), later w)"
  using assms
  by (simp_all add: is_link_def dedcom_id_def symlink_metadata_def read_file_def syscall_quiet k_stat_def k_read_def holds_def identity_of_def later_def)

lemma quiet_gone: "quiet (sh_env sh) \<Longrightarrow> fs_names (w_fs w) p = None \<Longrightarrow> exists_e sh p w = (False, later w)"
  by (simp add: exists_e_def symlink_metadata_def syscall_quiet k_stat_def later_def)

lemma quiet_mv:
  assumes "quiet (sh_env sh)" "fs_names (w_fs w) src = Some i" "fs_names (w_fs w) dst = None"
  obtains w' where "mv_n sh src dst w = (True, w')" "fs_names (w_fs w') = (fs_names (w_fs w))(src := None, dst := Some i)"
    "fs_nodes (w_fs w') = fs_nodes (change_node i (touch (ev_clock (sh_env sh) (w_tick w))) (w_fs w))"
  using assms by (auto simp: mv_n_def syscall_quiet k_rename_def change_node_def set_name_def)

lemma identity_touch [simp]: "identity_of (touch c node) = identity_of node" "identity_of (relink f c node) = identity_of node"
  by (simp_all add: identity_of_def touch_def relink_def)

text \<open>What an action of the script needs: two regular files of one content, room and one mount.\<close>

definition ready :: "shell \<Rightarrow> path \<Rightarrow> path \<Rightarrow> path \<Rightarrow> world \<Rightarrow> bool" where
  "ready sh target keeper dest w \<longleftrightarrow>
     quiet (sh_env sh) \<and> target \<noteq> dest \<and> fs_names (w_fs w) dest = None
     \<and> (\<exists>i ni k nk. holds w target i ni \<and> holds w keeper k nk \<and> i \<noteq> k \<and> in_type ni = RegularFile \<and> in_type nk = RegularFile
          \<and> in_data ni = in_data nk)
     \<and> (\<exists>m. m \<noteq> [] \<and> (\<forall>n. sh_mount sh n target = Some m \<and> sh_mount sh n (case parent dest of Some d \<Rightarrow> d | None \<Rightarrow> dest) = Some m))"

lemma quiet_same:
  assumes "quiet (sh_env sh)" "holds w target i ni" "holds w keeper k nk" "in_type ni = RegularFile" "in_type nk = RegularFile"
  shows "dedcom_same sh target keeper w = (in_data nk = in_data ni, later (later (later (later w))))"
proof -
  have "\<not> in_symlink ni" "\<not> in_symlink nk" using assms(4,5) by (simp_all add: in_symlink_def)
  then show ?thesis
    using assms quiet_looks by (simp add: dedcom_same_def cmp_s_def)
qed

lemma quiet_evacuate:
  assumes "quiet (sh_env sh)" "holds w target i ni" "fs_names (w_fs w) dest = None" "target \<noteq> dest"
    and m: "m \<noteq> []" "\<forall>n. sh_mount sh n target = Some m \<and> sh_mount sh n (case parent dest of Some d \<Rightarrow> d | None \<Rightarrow> dest) = Some m"
  obtains w' where "dedcom_evacuate sh target (Some (identity_of ni)) dest w = (True, w')"
    "fs_names (w_fs w') = (fs_names (w_fs w))(target := None, dest := Some i)"
    "\<And>j node. fs_nodes (w_fs w) j = Some node \<Longrightarrow> \<exists>node'. fs_nodes (w_fs w') j = Some node' \<and> identity_of node' = identity_of node"
proof -
  have c: "create_dir_all (sh_env sh) d w = (Inr (), later w)" for d
    using assms(1) by (simp add: create_dir_all_def syscall_quiet later_def)
  have n: "fs_names (w_fs (later w)) target = Some i" "fs_names (w_fs (later w)) dest = None"
    using assms(2,3) by (simp_all add: holds_def)
  obtain w1 where w1: "mv_n sh target dest (later w) = (True, w1)" "fs_names (w_fs w1) = (fs_names (w_fs w))(target := None, dest := Some i)"
    "fs_nodes (w_fs w1) = fs_nodes (change_node i (touch (ev_clock (sh_env sh) (w_tick (later w)))) (w_fs w))"
    using quiet_mv [OF assms(1) n] by auto
  have "holds w1 dest i (touch (ev_clock (sh_env sh) (w_tick (later w))) ni)"
    using assms(2) by (simp add: holds_def w1 change_node_def)
  from quiet_looks(2) [OF assms(1) this]
  have "dedcom_evacuate sh target (Some (identity_of ni)) dest w = (True, later w1)"
    using c m w1(1) by (simp add: dedcom_evacuate_def dedcom_mount_def Let_def)
  then show ?thesis
    by (rule that) (auto simp: w1 change_node_def)
qed

lemma quiet_delete:
  assumes "ready sh target keeper dest w"
  shows "fst (dedcom_delete sh target keeper dest w) \<and> moved_name target dest (w_fs w) (w_fs (snd (dedcom_delete sh target keeper dest w)))"
proof -
  obtain i ni k nk m where h: "quiet (sh_env sh)" "target \<noteq> dest" "fs_names (w_fs w) dest = None"
    "holds w target i ni" "holds w keeper k nk" "in_type ni = RegularFile" "in_type nk = RegularFile" "in_data ni = in_data nk"
    "m \<noteq> []" "\<forall>n. sh_mount sh n target = Some m \<and> sh_mount sh n (case parent dest of Some d \<Rightarrow> d | None \<Rightarrow> dest) = Some m"
    using assms unfolding ready_def by blast
  define w4 where "w4 = later (later (later (later w)))"
  have s: "dedcom_same sh target keeper w = (True, w4)" using quiet_same [OF h(1,4,5,6,7)] h(8) by (simp add: w4_def)
  have t: "holds w4 target i ni" "holds (later w4) target i ni" "fs_names (w_fs (later w4)) dest = None" using h by (simp_all add: w4_def)
  obtain w' where e: "dedcom_evacuate sh target (Some (identity_of ni)) dest (later w4) = (True, w')"
    "fs_names (w_fs w') = (fs_names (w_fs (later w4)))(target := None, dest := Some i)"
    by (rule quiet_evacuate [OF h(1) t(2,3) h(2,9,10)])
  have "dedcom_delete sh target keeper dest w = (True, w')"
    using s e(1) quiet_looks(2) [OF h(1) t(1)] by (simp add: dedcom_delete_def)
  moreover have "fs_names (w_fs w) target = Some i" using h(4) by (simp add: holds_def)
  ultimately show ?thesis using e(2) h(3) by (simp add: moved_name_def w4_def)
qed

lemma quiet_hardlink:
  assumes r: "ready sh target keeper dest w"
    and temp: "\<forall>n. sh_temp sh n dir = Some stage" "fs_names (w_fs w) stage = None" "stage \<noteq> target" "stage \<noteq> dest"
  shows "fst (dedcom_hardlink sh target keeper dest dir w)
    \<and> fs_names (w_fs (snd (dedcom_hardlink sh target keeper dest dir w))) =
        (fs_names (w_fs w))(dest := fs_names (w_fs w) target, target := fs_names (w_fs w) keeper)"
proof -
  obtain i ni k nk m where h: "quiet (sh_env sh)" "target \<noteq> dest" "fs_names (w_fs w) dest = None"
    "holds w target i ni" "holds w keeper k nk" "in_type ni = RegularFile" "in_type nk = RegularFile" "in_data ni = in_data nk"
    "m \<noteq> []" "\<forall>n. sh_mount sh n target = Some m \<and> sh_mount sh n (case parent dest of Some d \<Rightarrow> d | None \<Rightarrow> dest) = Some m"
    "i \<noteq> k"
    using r unfolding ready_def by blast
  define w4 where "w4 = later (later (later (later w)))"
  define w5 where "w5 = later w4"
  have s: "dedcom_same sh target keeper w = (True, w4)" using quiet_same [OF h(1,4,5,6,7)] h(8) by (simp add: w4_def)
  have f5: "w_fs w5 = w_fs w" by (simp add: w5_def w4_def)
  have t4: "dedcom_id sh target w4 = (Some (identity_of ni), w5)"
    using quiet_looks(2) [OF h(1)] h(4) by (simp add: w5_def w4_def)
  obtain w6 where l: "hard_link (sh_env sh) keeper stage w5 = (Inr (), w6)"
    "fs_names (w_fs w6) = (fs_names (w_fs w))(stage := Some k)"
    "fs_nodes (w_fs w6) = fs_nodes (change_node k (relink (\<lambda>l. l + 1) (ev_clock (sh_env sh) (w_tick w5))) (w_fs w))"
    using h(1,5) temp(2) by (auto simp: hard_link_def syscall_quiet k_link_def holds_def f5 change_node_def set_name_def)
  have h6: "holds w6 stage k (relink (\<lambda>l. l + 1) (ev_clock (sh_env sh) (w_tick w5)) nk)" "holds w6 target i ni"
    using h(4,5,11) temp(3) by (auto simp: holds_def l change_node_def)
  define w7 where "w7 = later w6"
  have m: "dedcom_id sh stage w6 = (Some (identity_of nk), w7)" using quiet_looks(2) [OF h(1) h6(1)] by (simp add: w7_def)
  have t7: "holds w7 target i ni" "fs_names (w_fs w7) dest = None" using h6 h(3) temp(4) by (simp_all add: w7_def l)
  obtain w8 where e: "dedcom_evacuate sh target (Some (identity_of ni)) dest w7 = (True, w8)"
    "fs_names (w_fs w8) = (fs_names (w_fs w7))(target := None, dest := Some i)"
    "\<And>j node. fs_nodes (w_fs w7) j = Some node \<Longrightarrow> \<exists>node'. fs_nodes (w_fs w8) j = Some node' \<and> identity_of node' = identity_of node"
    by (rule quiet_evacuate [OF h(1) t7 h(2,9,10)]) blast
  have n8: "fs_names (w_fs w8) stage = Some k" "fs_names (w_fs w8) target = None"
    using e(2) h(2) temp(3,4) by (simp_all add: w7_def l)
  obtain w9 where x: "mv_n sh stage target w8 = (True, w9)" "fs_names (w_fs w9) = (fs_names (w_fs w8))(stage := None, target := Some k)"
    "fs_nodes (w_fs w9) = fs_nodes (change_node k (touch (ev_clock (sh_env sh) (w_tick w8))) (w_fs w8))"
    by (rule quiet_mv [OF h(1) n8])
  obtain nk' where nk': "fs_nodes (w_fs w8) k = Some nk'" "identity_of nk' = identity_of nk"
    using e(3) [of k] h6(1) by (auto simp: holds_def w7_def)
  have "holds w9 target k (touch (ev_clock (sh_env sh) (w_tick w8)) nk')" using nk'(1) by (simp add: holds_def x change_node_def)
  from quiet_looks(2) [OF h(1) this] have t9: "dedcom_id sh target w9 = (Some (identity_of nk), later w9)" by (simp add: nk'(2))
  have "exists_e sh stage (later w9) = (False, later (later w9))"
    using temp(3) by (intro quiet_gone h(1)) (simp add: x)
  then have "dedcom_publish sh target (Some (identity_of ni)) dest stage (Some (identity_of nk)) w7 = (True, later (later w9))"
    using e(1) x(1) t9 by (simp add: dedcom_publish_def Let_def)
  then have "dedcom_hardlink sh target keeper dest dir w = (True, later (later w9))"
    using s t4 temp(1) l(1) m by (simp add: dedcom_hardlink_def)
  moreover have "fs_names (w_fs w9) = (fs_names (w_fs w))(dest := Some i, target := Some k)"
    using temp(2,3,4) h(2) by (auto simp: x e w7_def l fun_eq_iff)
  ultimately show ?thesis using h(4,5) by (simp add: holds_def)
qed

text \<open>
  Where nothing stands in the way the script delivers: alone on a disk that answers, for two
  regular files of one content on one mount and a free quarantine path, a deletion moves the target
  there, a hardlink puts the keeper's file in its place, both report success and leave nothing behind.
\<close>
theorem script_steps_deliver:
  assumes "ready sh target keeper dest w"
    and "\<forall>n. sh_temp sh n dir = Some stage" "fs_names (w_fs w) stage = None" "stage \<noteq> target" "stage \<noteq> dest"
  shows "fst (dedcom_delete sh target keeper dest w) \<and> moved_name target dest (w_fs w) (w_fs (snd (dedcom_delete sh target keeper dest w)))
    \<and> fst (dedcom_hardlink sh target keeper dest dir w)
    \<and> fs_names (w_fs (snd (dedcom_hardlink sh target keeper dest dir w))) =
        (fs_names (w_fs w))(dest := fs_names (w_fs w) target, target := fs_names (w_fs w) keeper)"
  using quiet_delete [OF assms(1)] quiet_hardlink [OF assms] by blast

section \<open>Sample runs\<close>

definition sample_shell :: "env \<Rightarrow> shell" where
  "sample_shell env = \<lparr>sh_env = env, sh_mount = (\<lambda>_ _. Some ''1''), sh_resolves = (\<lambda>_ _. False),
     sh_temp = (\<lambda>_ dir. Some (dir @ [Normal ''tmp'']))\<rparr>"

lemma sample_ready: "ready (sample_shell sample_env) [RootDir, Normal ''c''] [RootDir, Normal ''a''] [RootDir, Normal ''q'', Normal ''c''] sample_world"
proof -
  have "\<exists>ni nk. holds sample_world [RootDir, Normal ''c''] (Inode 1 10) ni \<and> holds sample_world [RootDir, Normal ''a''] (Inode 1 11) nk
      \<and> in_type ni = RegularFile \<and> in_type nk = RegularFile \<and> in_data ni = in_data nk"
    by (intro exI [of _ "the (fs_nodes sample_fs (Inode 1 10))"] exI [of _ "the (fs_nodes sample_fs (Inode 1 11))"])
       (simp add: holds_def, code_simp)
  moreover have "Inode 1 10 \<noteq> Inode 1 11" by simp
  ultimately have "\<exists>i ni k nk. holds sample_world [RootDir, Normal ''c''] i ni \<and> holds sample_world [RootDir, Normal ''a''] k nk \<and> i \<noteq> k
      \<and> in_type ni = RegularFile \<and> in_type nk = RegularFile \<and> in_data ni = in_data nk" by blast
  moreover have "fs_names (w_fs sample_world) [RootDir, Normal ''q'', Normal ''c''] = None" by code_simp
  ultimately show ?thesis
    using sample_quiet by (simp add: ready_def sample_shell_def)
qed

theorem script_steps_deliver_witness:
  "let sh = sample_shell sample_env; q = [RootDir, Normal ''q'', Normal ''c''] in
   fst (dedcom_hardlink sh [RootDir, Normal ''c''] [RootDir, Normal ''a''] q [RootDir] sample_world)
   \<and> fs_names (w_fs (snd (dedcom_hardlink sh [RootDir, Normal ''c''] [RootDir, Normal ''a''] q [RootDir] sample_world))) q = Some (Inode 1 10)"
proof -
  have n: "fs_names (w_fs sample_world) [RootDir, Normal ''tmp''] = None" "fs_names (w_fs sample_world) [RootDir, Normal ''c''] = Some (Inode 1 10)"
    by code_simp+
  have t: "\<forall>n. sh_temp (sample_shell sample_env) n [RootDir] = Some [RootDir, Normal ''tmp'']" by (simp add: sample_shell_def)
  show ?thesis using script_steps_deliver [OF sample_ready t n(1)] n(2) by (simp add: Let_def)
qed



text \<open>
  Two unreadable identities compare equal: when somebody removes the replacement right after it was
  linked, its identity is the empty text, so is that of the evacuated target, and the step reports
  success although nothing has the target's name.
\<close>

definition cleaner :: env where
  "cleaner = sample_env\<lparr>ev_outside := (\<lambda>n fs. if n = 6 then set_name [RootDir, Normal ''tmp''] None fs else fs)\<rparr>"

lemma unread_identity_passes:
  "let r = dedcom_hardlink (sample_shell cleaner) [RootDir, Normal ''c''] [RootDir, Normal ''a''] [RootDir, Normal ''q'', Normal ''c''] [RootDir] sample_world
   in fst r \<and> fs_names (w_fs (snd r)) [RootDir, Normal ''c''] = None"
  unfolding Let_def by (rule conjI) code_simp+

end
