(* ===== verification/State_Dir.thy ===== *)
theory State_Dir
  imports Paths
begin

unbundle bit_operations_syntax

text \<open>
  \<open>paths.rs\<close>, first part: whose directory the state directory is. The walk goes down from \<open>/\<close>, one
  component at a time, creating what is missing, checking owner and permissions of each directory it
  opened, and takes the last one only if it is the program's own, new or empty. A directory is known
  by its path, nobody else changes the chain meanwhile (no outsider can write to a directory that
  passed), and any call may fail with an error of the system.
\<close>

section \<open>Directories\<close>

type_synonym u32 = "32 word"

record dir_node =
  dn_uid :: u32
  dn_mode :: u32
  dn_entries :: "string list"

datatype obj = ADirectory dir_node | ALink | AnotherThing

type_synonym dirs = "string list \<Rightarrow> obj option"

datatype dir_call = MkdirAt | OpenAt | FStat | ReadDir | FChmod

datatype sys_error = EntryExists | NoEntry | NotADir | Errno nat

record host =
  ho_euid :: u32
  ho_umask :: u32
  ho_fails :: "dir_call \<Rightarrow> string list \<Rightarrow> sys_error option"

datatype state_dir_error =
    NotAbsolute
  | BadComponent
  | IsTheRoot
  | HoldsNul
  | System sys_error
  | OwnedByOutsider
  | WritableByOthers
  | TopLevelAndEmpty
  | NotOurs string
  | NothingToReport

text \<open>\<open>mkdirat\<close> at \<open>0700\<close>, less the mask; the new name enters the listing of its directory.\<close>

definition mkdirat :: "host \<Rightarrow> string list \<Rightarrow> dirs \<Rightarrow> (sys_error + unit) \<times> dirs" where
  "mkdirat ho p fs =
     (case ho_fails ho MkdirAt p of
        Some e \<Rightarrow> (Inl e, fs)
      | None \<Rightarrow>
          if fs p \<noteq> None then (Inl EntryExists, fs)
          else
            let made = fs(p \<mapsto> ADirectory \<lparr>dn_uid = ho_euid ho, dn_mode = 0x1C0 AND NOT (ho_umask ho), dn_entries = []\<rparr>) in
            (Inr (), case fs (butlast p) of
               Some (ADirectory d) \<Rightarrow> made(butlast p \<mapsto> ADirectory (d\<lparr>dn_entries := dn_entries d @ [last p]\<rparr>))
             | _ \<Rightarrow> made))"

definition open_dir :: "host \<Rightarrow> string list \<Rightarrow> dirs \<Rightarrow> sys_error + dir_node" where
  "open_dir ho p fs =
     (case ho_fails ho OpenAt p of
        Some e \<Rightarrow> Inl e
      | None \<Rightarrow> (case fs p of None \<Rightarrow> Inl NoEntry | Some ALink \<Rightarrow> Inl NotADir | Some AnotherThing \<Rightarrow> Inl NotADir
          | Some (ADirectory d) \<Rightarrow> (case ho_fails ho FStat p of Some e \<Rightarrow> Inl e | None \<Rightarrow> Inr d)))"

definition new_mode :: "u32 \<Rightarrow> u32 \<Rightarrow> u32" where
  "new_mode m old = (old AND NOT 0xFFF) OR m"

definition set_mode :: "u32 \<Rightarrow> obj \<Rightarrow> obj" where
  "set_mode m = case_obj (\<lambda>d. ADirectory (d\<lparr>dn_mode := new_mode m (dn_mode d)\<rparr>)) ALink AnotherThing"

section \<open>What a directory holds\<close>

datatype held = HoldsNothing | HoldsOurs | HoldsForeign string

definition PROTECTED_STATE_ENTRIES :: "string list" where
  "PROTECTED_STATE_ENTRIES = [''dedcom.db'', ''dedcom.db-wal'', ''dedcom.db-shm'', ''dedcom.db-journal'', ''dedcom.lock'']"

definition DEDCOMS_LOGS :: "string list" where
  "DEDCOMS_LOGS = [''dedcom.log'', ''benchmarks.log'']"

fun held_loop :: "held \<Rightarrow> string list \<Rightarrow> held" where
  "held_loop held [] = held"
| "held_loop held (n # ns) =
     (if n = ''.'' \<or> n = ''..'' then held_loop held ns
      else if n \<in> set PROTECTED_STATE_ENTRIES then HoldsOurs
      else if held = HoldsNothing \<and> n \<notin> set DEDCOMS_LOGS then held_loop (HoldsForeign n) ns
      else held_loop held ns)"

definition held_by :: "host \<Rightarrow> string list \<Rightarrow> dir_node \<Rightarrow> sys_error + held" where
  "held_by ho p d = (case ho_fails ho ReadDir p of Some e \<Rightarrow> Inl e | None \<Rightarrow> Inr (held_loop HoldsNothing (dn_entries d)))"

section \<open>The walk\<close>

datatype walk = Establish | Report | OpenDb

record leaf =
  lf_walk :: walk
  lf_existed :: bool
  lf_top_level :: bool

definition others_write :: "u32 \<Rightarrow> bool" where
  "others_write mode \<longleftrightarrow> mode AND 0x12 \<noteq> 0"

definition sticky :: "u32 \<Rightarrow> bool" where
  "sticky mode \<longleftrightarrow> mode AND 0x200 \<noteq> 0"

definition accept_leaf :: "host \<Rightarrow> string list \<Rightarrow> dir_node \<Rightarrow> leaf \<Rightarrow> state_dir_error + unit" where
  "accept_leaf ho p d lf =
     (case lf_walk lf of
        Establish \<Rightarrow>
          if \<not> lf_existed lf then Inr ()
          else (case held_by ho p d of
              Inl e \<Rightarrow> Inl (System e)
            | Inr HoldsOurs \<Rightarrow> Inr ()
            | Inr HoldsNothing \<Rightarrow> if lf_top_level lf then Inl TopLevelAndEmpty else Inr ()
            | Inr (HoldsForeign example) \<Rightarrow> Inl (NotOurs example))
      | Report \<Rightarrow>
          (case held_by ho p d of
              Inl e \<Rightarrow> Inl (System e)
            | Inr h \<Rightarrow> if h = HoldsOurs then Inr () else Inl NothingToReport)
      | OpenDb \<Rightarrow> Inr ())"

definition open_verified_dir :: "host \<Rightarrow> string list \<Rightarrow> leaf option \<Rightarrow> dirs \<Rightarrow> (state_dir_error + unit) \<times> dirs" where
  "open_verified_dir ho p leaf fs =
     (case open_dir ho p fs of
        Inl e \<Rightarrow> (Inl (System e), fs)
      | Inr d \<Rightarrow>
          if dn_uid d \<noteq> ho_euid ho \<and> dn_uid d \<noteq> 0 then (Inl OwnedByOutsider, fs)
          else if others_write (dn_mode d) \<and> (leaf \<noteq> None \<or> \<not> sticky (dn_mode d)) then (Inl WritableByOthers, fs)
          else (case leaf of
              None \<Rightarrow> (Inr (), fs)
            | Some lf \<Rightarrow>
                (case accept_leaf ho p d lf of
                   Inl e \<Rightarrow> (Inl e, fs)
                 | Inr _ \<Rightarrow>
                     if lf_walk lf = Establish \<and> dn_mode d AND 0x1FF \<noteq> 0x1C0 then
                       (case ho_fails ho FChmod p of
                          Some e \<Rightarrow> (Inl (System e), fs)
                        | None \<Rightarrow> (Inr (), fs(p := map_option (set_mode 0x1C0) (fs p))))
                     else (Inr (), fs))))"

text \<open>\<open>before\<close> is what was walked, \<open>rest\<close> what is still to come.\<close>

fun establish_chain :: "host \<Rightarrow> walk \<Rightarrow> bool \<Rightarrow> string list \<Rightarrow> string list \<Rightarrow> dirs \<Rightarrow> (state_dir_error + unit) \<times> dirs" where
  "establish_chain ho walk below_root before [] fs = (Inr (), fs)"
| "establish_chain ho walk below_root before (n # rest) fs =
     (if CHR 0x00 \<in> set n then (Inl HoldsNul, fs)
      else
        let p = before @ [n];
            (made, fs) = (if walk = Establish then mkdirat ho p fs else (Inl EntryExists, fs)) in
        if made \<noteq> Inr () \<and> made \<noteq> Inl EntryExists then (Inl (System (projl made)), fs)
        else
          (case open_verified_dir ho p
              (if rest = [] then Some \<lparr>lf_walk = walk, lf_existed = (made = Inl EntryExists), lf_top_level = below_root\<rparr> else None) fs of
             (Inl e, fs) \<Rightarrow> (Inl e, fs)
           | (Inr _, fs) \<Rightarrow> establish_chain ho walk below_root p rest fs))"

definition names_below_root :: "path \<Rightarrow> state_dir_error + string list" where
  "names_below_root dir =
     (if \<not> (case dir of RootDir # _ \<Rightarrow> True | _ \<Rightarrow> False) then Inl NotAbsolute
      else rbind (rmap (\<lambda>c. case c of Normal n \<Rightarrow> Inr n | _ \<Rightarrow> Inl BadComponent) (tl dir)) (\<lambda>names.
        if names = [] then Inl IsTheRoot else Inr names))"

definition walk_state_dir :: "host \<Rightarrow> walk \<Rightarrow> path \<Rightarrow> dirs \<Rightarrow> (state_dir_error + unit) \<times> dirs" where
  "walk_state_dir ho walk dir fs =
     (case names_below_root dir of
        Inl e \<Rightarrow> (Inl e, fs)
      | Inr names \<Rightarrow>
          (case open_verified_dir ho [] None fs of
             (Inl e, fs) \<Rightarrow> (Inl e, fs)
           | (Inr _, fs) \<Rightarrow> establish_chain ho walk (length names = 1) [] names fs))"

definition establish_state_dir :: "host \<Rightarrow> path \<Rightarrow> dirs \<Rightarrow> (state_dir_error + unit) \<times> dirs" where
  "establish_state_dir ho = walk_state_dir ho Establish"

definition verify_state_dir :: "host \<Rightarrow> path \<Rightarrow> dirs \<Rightarrow> (state_dir_error + unit) \<times> dirs" where
  "verify_state_dir ho = walk_state_dir ho Report"

definition verify_db_dir :: "host \<Rightarrow> path \<Rightarrow> dirs \<Rightarrow> (state_dir_error + unit) \<times> dirs" where
  "verify_db_dir ho = walk_state_dir ho OpenDb"

section \<open>What the walk may change\<close>

text \<open>
  Nothing that was there changes owner or mode or goes away; what appears is a directory of ours at
  \<open>0700\<close> less the mask.
\<close>

definition kept_or_made :: "host \<Rightarrow> obj option \<Rightarrow> obj option \<Rightarrow> bool" where
  "kept_or_made ho x y \<longleftrightarrow>
     (case x of
        None \<Rightarrow> y = None \<or> (\<exists>d. y = Some (ADirectory d) \<and> dn_uid d = ho_euid ho \<and> dn_mode d = 0x1C0 AND NOT (ho_umask ho))
      | Some (ADirectory d) \<Rightarrow> \<exists>d'. y = Some (ADirectory d') \<and> dn_uid d' = dn_uid d \<and> dn_mode d' = dn_mode d
      | Some z \<Rightarrow> y = Some z)"

lemma kept_or_made_refl [simp]: "kept_or_made ho x x"
  by (auto simp: kept_or_made_def split: option.split obj.split)

lemma kept_or_made_trans: "kept_or_made ho x y \<Longrightarrow> kept_or_made ho y z \<Longrightarrow> kept_or_made ho x z"
  by (auto simp: kept_or_made_def split: option.splits obj.splits)

lemma mkdirat_kept: "kept_or_made ho (fs q) (snd (mkdirat ho p fs) q)"
  by (auto simp: mkdirat_def Let_def kept_or_made_def split: option.split obj.split)

lemma mkdirat_Inr:
  assumes "mkdirat ho (before @ [n]) fs = (Inr (), fs')"
  shows "fs (before @ [n]) = None" and "q \<noteq> before @ [n] \<Longrightarrow> q \<noteq> before \<Longrightarrow> fs' q = fs q"
    and "\<exists>d. fs' (before @ [n]) = Some (ADirectory d) \<and> dn_uid d = ho_euid ho \<and> dn_mode d = 0x1C0 AND NOT (ho_umask ho)"
  using assms by (auto simp: mkdirat_def Let_def split: option.splits obj.splits if_splits)

lemma mkdirat_Inl: "mkdirat ho p fs = (Inl e, fs') \<Longrightarrow> fs' = fs \<and> (e = EntryExists \<longrightarrow> fs p \<noteq> None \<or> ho_fails ho MkdirAt p = Some EntryExists)"
  by (auto simp: mkdirat_def Let_def split: option.splits obj.splits if_splits)

section \<open>What passes\<close>

definition trusted_owner :: "host \<Rightarrow> dir_node \<Rightarrow> bool" where
  "trusted_owner ho d \<longleftrightarrow> dn_uid d = ho_euid ho \<or> dn_uid d = 0"

definition safe_above :: "host \<Rightarrow> dir_node \<Rightarrow> bool" where
  "safe_above ho d \<longleftrightarrow> trusted_owner ho d \<and> (others_write (dn_mode d) \<longrightarrow> sticky (dn_mode d))"

lemma open_verified_Inl: "open_verified_dir ho p leaf fs = (Inl e, fs') \<Longrightarrow> fs' = fs"
  by (auto simp: open_verified_dir_def split: sum.splits if_splits option.splits)

lemma open_dir_Inr: "open_dir ho p fs = Inr d \<Longrightarrow> fs p = Some (ADirectory d)"
  by (auto simp: open_dir_def split: option.splits obj.splits)

lemma open_verified_above:
  "open_verified_dir ho p None fs = (Inr u, fs') \<Longrightarrow> fs' = fs \<and> (\<exists>d. fs p = Some (ADirectory d) \<and> safe_above ho d)"
  by (auto simp: open_verified_dir_def safe_above_def trusted_owner_def dest!: open_dir_Inr split: sum.splits if_splits)

lemma open_verified_leaf:
  assumes "open_verified_dir ho p (Some lf) fs = (Inr u, fs')"
  shows "\<exists>d. fs p = Some (ADirectory d) \<and> trusted_owner ho d \<and> \<not> others_write (dn_mode d) \<and> accept_leaf ho p d lf = Inr ()
    \<and> fs' = (if lf_walk lf = Establish \<and> dn_mode d AND 0x1FF \<noteq> 0x1C0 then fs(p := Some (set_mode 0x1C0 (ADirectory d))) else fs)"
  using assms
  by (auto simp: open_verified_dir_def trusted_owner_def dest!: open_dir_Inr split: sum.splits if_splits option.splits)

lemma mode_bits: "new_mode 0x1C0 m AND 0x1FF = 0x1C0"
proof -
  have "(NOT 0xFFF AND 0x1FF :: u32) = 0" by simp
  then have "(m AND NOT 0xFFF) AND (0x1FF :: u32) = 0" by (metis and.assoc and_zero_eq)
  then show ?thesis unfolding new_mode_def by (simp add: bit.conj_disj_distrib2)
qed

lemma mode_0700_private: "(m :: u32) AND 0x1FF = 0x1C0 \<Longrightarrow> \<not> others_write m"
proof -
  assume m: "m AND 0x1FF = 0x1C0"
  have "m AND 0x12 = (m AND 0x1FF) AND 0x12" by (simp add: and.assoc)
  then show ?thesis by (simp add: others_write_def m)
qed

text \<open>The loop over the names finds live state wherever it stands, and a foreign name only without it.\<close>

lemma names_apart:
  "\<not> (n \<in> set PROTECTED_STATE_ENTRIES \<and> n \<in> {''.'', ''..''} \<union> set DEDCOMS_LOGS)"
proof -
  have "list_all (\<lambda>n. n \<noteq> ''.'' \<and> n \<noteq> ''..'' \<and> n \<notin> set DEDCOMS_LOGS) PROTECTED_STATE_ENTRIES" by code_simp
  then show ?thesis by (auto simp: list_all_iff)
qed

lemma held_loop_ours: "held \<noteq> HoldsOurs \<Longrightarrow> held_loop held ns = HoldsOurs \<longleftrightarrow> (\<exists>n \<in> set ns. n \<in> set PROTECTED_STATE_ENTRIES)"
proof (induction ns arbitrary: held)
  case (Cons n ns)
  then show ?case using names_apart [of n] by auto
qed simp

lemma held_loop_nothing:
  "held_loop held ns = HoldsNothing \<longleftrightarrow> held = HoldsNothing \<and> (\<forall>n \<in> set ns. n \<in> {''.'', ''..''} \<union> set DEDCOMS_LOGS)"
proof (induction ns arbitrary: held)
  case (Cons n ns)
  then show ?case using names_apart [of n] by auto
qed simp

section \<open>Along the chain\<close>

text \<open>What a walk that returned has established of the last directory.\<close>

definition leaf_taken :: "host \<Rightarrow> walk \<Rightarrow> bool \<Rightarrow> obj option \<Rightarrow> obj option \<Rightarrow> bool" where
  "leaf_taken ho walk below_root x y \<longleftrightarrow>
     (\<exists>d. y = Some (ADirectory d) \<and> trusted_owner ho d \<and> \<not> others_write (dn_mode d)
        \<and> (walk = Establish \<longrightarrow> dn_mode d AND 0x1FF = 0x1C0) \<and> (walk \<noteq> Establish \<longrightarrow> y = x)
        \<and> (case x of
             None \<Rightarrow> walk = Establish \<and> dn_uid d = ho_euid ho
           | Some z \<Rightarrow> \<exists>d0. z = ADirectory d0 \<and> dn_uid d = dn_uid d0 \<and> \<not> others_write (dn_mode d0) \<and> dn_entries d = dn_entries d0
               \<and> (let h = held_loop HoldsNothing (dn_entries d0) in
                    (walk = Establish \<longrightarrow> h = HoldsOurs \<or> h = HoldsNothing \<and> \<not> below_root) \<and> (walk = Report \<longrightarrow> h = HoldsOurs))))"

lemma accept_leaf_Inr:
  "accept_leaf ho p d lf = Inr u \<Longrightarrow>
     (let h = held_loop HoldsNothing (dn_entries d) in
       (lf_walk lf = Establish \<and> lf_existed lf \<longrightarrow> h = HoldsOurs \<or> h = HoldsNothing \<and> \<not> lf_top_level lf)
       \<and> (lf_walk lf = Report \<longrightarrow> h = HoldsOurs))"
  by (auto simp: accept_leaf_def held_by_def Let_def split: walk.splits option.splits if_splits held.splits)

lemma set_mode_taken:
  assumes "trusted_owner ho d" "\<not> others_write (dn_mode d)"
  shows "\<exists>d'. (if dn_mode d AND 0x1FF \<noteq> 0x1C0 then set_mode 0x1C0 (ADirectory d) else ADirectory d) = ADirectory d'
    \<and> trusted_owner ho d' \<and> \<not> others_write (dn_mode d') \<and> dn_mode d' AND 0x1FF = 0x1C0 \<and> dn_uid d' = dn_uid d \<and> dn_entries d' = dn_entries d"
  using assms mode_0700_private [OF mode_bits] by (auto simp: set_mode_def mode_bits trusted_owner_def)

text \<open>One step: the directory was created or found, then opened and checked.\<close>

definition step_made :: "host \<Rightarrow> walk \<Rightarrow> string list \<Rightarrow> dirs \<Rightarrow> (sys_error + unit) \<times> dirs" where
  "step_made ho walk p fs = (if walk = Establish then mkdirat ho p fs else (Inl EntryExists, fs))"

lemma chain_Cons:
  "establish_chain ho walk below_root before (n # rest) fs =
     (if CHR 0x00 \<in> set n then (Inl HoldsNul, fs)
      else case step_made ho walk (before @ [n]) fs of
        (made, fs) \<Rightarrow>
          if made \<noteq> Inr () \<and> made \<noteq> Inl EntryExists then (Inl (System (projl made)), fs)
          else case open_verified_dir ho (before @ [n])
              (if rest = [] then Some \<lparr>lf_walk = walk, lf_existed = (made = Inl EntryExists), lf_top_level = below_root\<rparr> else None) fs of
             (Inl e, fs) \<Rightarrow> (Inl e, fs)
           | (Inr _, fs) \<Rightarrow> establish_chain ho walk below_root (before @ [n]) rest fs)"
  by (simp add: step_made_def Let_def case_prod_unfold)

declare establish_chain.simps(2) [simp del]

lemma step_made_kept: "kept_or_made ho (fs q) (snd (step_made ho walk p fs) q)"
  by (simp add: step_made_def mkdirat_kept)

lemma step_made_other: "walk \<noteq> Establish \<Longrightarrow> snd (step_made ho walk p fs) = fs"
  by (simp add: step_made_def)

lemma step_made_far: "q \<noteq> before @ [n] \<Longrightarrow> q \<noteq> before \<Longrightarrow> snd (step_made ho walk (before @ [n]) fs) q = fs q"
  by (auto simp: step_made_def mkdirat_def Let_def split: option.splits obj.splits)

lemma chain_refused:
  assumes "establish_chain ho walk below_root before rest fs = (Inl e, fs')"
  shows "kept_or_made ho (fs q) (fs' q) \<and> (walk \<noteq> Establish \<longrightarrow> fs' = fs)"
  using assms
proof (induction rest arbitrary: before fs)
  case (Cons n rest)
  obtain made fs1 where m: "step_made ho walk (before @ [n]) fs = (made, fs1)" by fastforce
  have k: "kept_or_made ho (fs q) (fs1 q)" using step_made_kept [of ho fs q walk "before @ [n]"] m by simp
  have o: "walk \<noteq> Establish \<longrightarrow> fs1 = fs" using step_made_other [of walk ho "before @ [n]" fs] m by simp
  let ?leaf = "if rest = [] then Some \<lparr>lf_walk = walk, lf_existed = (made = Inl EntryExists), lf_top_level = below_root\<rparr> else None"
  obtain r fs2 where r: "open_verified_dir ho (before @ [n]) ?leaf fs1 = (r, fs2)" by fastforce
  show ?case
  proof (cases "CHR 0x00 \<in> set n \<or> (made \<noteq> Inr () \<and> made \<noteq> Inl EntryExists)")
    case True
    then have "fs' = fs \<or> fs' = fs1" using Cons.prems m by (auto simp: chain_Cons split: if_splits)
    then show ?thesis using k o by auto
  next
    case False
    then have run: "(case (r, fs2) of (Inl e, fs) \<Rightarrow> (Inl e, fs) | (Inr _, fs) \<Rightarrow> establish_chain ho walk below_root (before @ [n]) rest fs) = (Inl e, fs')"
    proof -
      have c: "\<not> CHR 0x00 \<in> set n" "\<not> (made \<noteq> Inr () \<and> made \<noteq> Inl EntryExists)" using False by auto
      show ?thesis using Cons.prems unfolding chain_Cons if_not_P [OF c(1)] m prod.case if_not_P [OF c(2)] r .
    qed
    show ?thesis
    proof (cases r)
      case (Inl d)
      then have "fs2 = fs1" using open_verified_Inl r by blast
      then show ?thesis using run Inl k o by simp
    next
      case (Inr u)
      then have rec: "establish_chain ho walk below_root (before @ [n]) rest fs2 = (Inl e, fs')" using run by simp
      then have "rest \<noteq> []" by auto
      then have "fs2 = fs1" using open_verified_above [of ho "before @ [n]" fs1 u fs2] r Inr by simp
      with Cons.IH [OF rec] k o show ?thesis using kept_or_made_trans by blast
    qed
  qed
qed simp

lemma step_made_exists:
  assumes "step_made ho walk (before @ [n]) fs = (made, fs1)" "made = Inr () \<or> made = Inl EntryExists" "fs1 (before @ [n]) = Some (ADirectory d)"
  shows "made = Inr () \<and> walk = Establish \<and> fs (before @ [n]) = None \<and> dn_uid d = ho_euid ho \<or> made = Inl EntryExists \<and> fs1 = fs"
proof (cases "walk = Establish")
  case True
  then have m: "mkdirat ho (before @ [n]) fs = (made, fs1)" using assms(1) by (simp add: step_made_def)
  show ?thesis
  proof (cases made)
    case (Inl e)
    then show ?thesis using mkdirat_Inl [of ho "before @ [n]" fs e fs1] m assms(2) by simp
  next
    case (Inr u)
    then show ?thesis using mkdirat_Inr [of ho before n fs fs1] m True assms(3) by auto
  qed
next
  case False
  then show ?thesis using assms by (simp add: step_made_def)
qed

lemma chain_passed:
  assumes "establish_chain ho walk below_root before rest fs = (Inr (), fs')" "rest \<noteq> []"
  shows "(\<forall>k. 0 < k \<and> k < length rest \<longrightarrow> (\<exists>d. fs' (before @ take k rest) = Some (ADirectory d) \<and> safe_above ho d))
    \<and> leaf_taken ho walk below_root (fs (before @ rest)) (fs' (before @ rest))
    \<and> (\<forall>q. q \<noteq> before @ rest \<longrightarrow> kept_or_made ho (fs q) (fs' q)) \<and> (walk \<noteq> Establish \<longrightarrow> fs' = fs)"
  using assms
proof (induction rest arbitrary: before fs)
  case (Cons n rest)
  let ?p = "before @ [n]"
  let ?leaf = "\<lambda>made. \<lparr>lf_walk = walk, lf_existed = (made = Inl EntryExists), lf_top_level = below_root\<rparr>"
  obtain made fs1 where m: "step_made ho walk ?p fs = (made, fs1)" by fastforce
  have k1: "kept_or_made ho (fs q) (fs1 q)" for q using step_made_kept [of ho fs q walk ?p] m by simp
  have o1: "walk \<noteq> Establish \<longrightarrow> fs1 = fs" using step_made_other [of walk ho ?p fs] m by simp
  have ok: "made = Inr () \<or> made = Inl EntryExists" using Cons.prems(1) m by (auto simp: chain_Cons split: if_splits)
  show ?case
  proof (cases "rest = []")
    case True
    then obtain u fs2 where r: "open_verified_dir ho ?p (Some (?leaf made)) fs1 = (Inr u, fs2)" "fs' = fs2"
      using Cons.prems(1) m by (auto simp: chain_Cons split: if_splits prod.splits sum.splits)
    obtain d where d: "fs1 ?p = Some (ADirectory d)" "trusted_owner ho d" "\<not> others_write (dn_mode d)"
      "accept_leaf ho ?p d (?leaf made) = Inr ()"
      "fs' = (if walk = Establish \<and> dn_mode d AND 0x1FF \<noteq> 0x1C0 then fs1(?p := Some (set_mode 0x1C0 (ADirectory d))) else fs1)"
      using open_verified_leaf [OF r(1)] r(2) by auto
    note e = step_made_exists [OF m ok d(1)]
    have "\<exists>d'. fs' ?p = Some (ADirectory d') \<and> trusted_owner ho d' \<and> \<not> others_write (dn_mode d')
        \<and> (walk = Establish \<longrightarrow> dn_mode d' AND 0x1FF = 0x1C0) \<and> dn_uid d' = dn_uid d \<and> dn_entries d' = dn_entries d"
      using set_mode_taken [OF d(2,3)] d by (cases "walk = Establish"; cases "dn_mode d AND 0x1FF = 0x1C0") auto
    then obtain d' where d': "fs' ?p = Some (ADirectory d')" "trusted_owner ho d'" "\<not> others_write (dn_mode d')"
      "walk = Establish \<longrightarrow> dn_mode d' AND 0x1FF = 0x1C0" "dn_uid d' = dn_uid d" "dn_entries d' = dn_entries d" by blast
    have o: "walk \<noteq> Establish \<longrightarrow> fs' = fs" using d(5) o1 by simp
    have "leaf_taken ho walk below_root (fs ?p) (fs' ?p)"
      using e
    proof
      assume "made = Inr () \<and> walk = Establish \<and> fs ?p = None \<and> dn_uid d = ho_euid ho"
      then show ?thesis using d' by (simp add: leaf_taken_def)
    next
      assume "made = Inl EntryExists \<and> fs1 = fs"
      then show ?thesis using d' d(1,3) o accept_leaf_Inr [OF d(4)] by (auto simp: leaf_taken_def Let_def)
    qed
    moreover have "\<forall>q. q \<noteq> ?p \<longrightarrow> kept_or_made ho (fs q) (fs' q)" using d(5) k1 by auto
    ultimately show ?thesis using True o by simp
  next
    case False
    then obtain u where r: "open_verified_dir ho ?p None fs1 = (Inr u, fs1)" and
      rec: "establish_chain ho walk below_root ?p rest fs1 = (Inr (), fs')"
      using Cons.prems(1) m open_verified_above [of ho ?p fs1] by (auto simp: chain_Cons split: if_splits prod.splits sum.splits)
    obtain d where d: "fs1 ?p = Some (ADirectory d)" "safe_above ho d" using open_verified_above [OF r] by blast
    note ih = Cons.IH [OF rec False]
    have far: "fs1 (?p @ rest) = fs (?p @ rest)"
      using step_made_far [of "?p @ rest" before n ho walk fs] m False by simp
    have "?p \<noteq> ?p @ rest" using False by simp
    then have "kept_or_made ho (fs1 ?p) (fs' ?p)" using ih by blast
    then have first: "\<exists>d. fs' ?p = Some (ADirectory d) \<and> safe_above ho d"
      using d by (auto simp: kept_or_made_def safe_above_def trusted_owner_def)
    have "\<exists>d. fs' (before @ take k (n # rest)) = Some (ADirectory d) \<and> safe_above ho d" if "0 < k" "k < length (n # rest)" for k
      using that first ih by (cases k; cases "k = 1") auto
    moreover have "\<forall>q. q \<noteq> before @ n # rest \<longrightarrow> kept_or_made ho (fs q) (fs' q)"
      using ih k1 kept_or_made_trans by (metis append.assoc append_Cons append_Nil)
    ultimately show ?thesis using ih o1 far by simp
  qed
qed simp

section \<open>The state directory\<close>

lemma walk_cases:
  assumes "walk_state_dir ho walk dir fs = (r, fs')"
  shows "(\<exists>e. names_below_root dir = Inl e \<and> r = Inl e \<and> fs' = fs)
    \<or> (\<exists>names e. names_below_root dir = Inr names \<and> open_verified_dir ho [] None fs = (Inl e, fs) \<and> r = Inl e \<and> fs' = fs)
    \<or> (\<exists>names. names_below_root dir = Inr names \<and> open_verified_dir ho [] None fs = (Inr (), fs)
         \<and> establish_chain ho walk (length names = 1) [] names fs = (r, fs'))"
  using assms open_verified_Inl [of ho "[]" None fs] open_verified_above [of ho "[]" fs]
  by (auto simp: walk_state_dir_def split: sum.splits prod.splits)

lemma names_below_root_Inr: "names_below_root dir = Inr names \<Longrightarrow> names \<noteq> []"
  by (auto simp: names_below_root_def rbind_def split: if_splits sum.splits)

text \<open>
  Claim C22. A state directory is taken only when every directory above it, \<open>/\<close> included, belongs to
  the user or to root and cannot be written by others without the sticky bit, and the directory itself is
  the user's own or root's, writable by nobody else, was created by this walk or already holds this
  program's state (or nothing but its logs, below the top level); creating it leaves it at \<open>0700\<close>. Everything
  else is what it was, new directories of the chain aside, and a walk that only looks changes nothing at all.\<close>

theorem state_dir_taken:
  assumes "walk_state_dir ho walk dir fs = (Inr (), fs')" "names_below_root dir = Inr names"
  shows "(\<forall>k < length names. \<exists>d. fs' (take k names) = Some (ADirectory d) \<and> safe_above ho d)
    \<and> leaf_taken ho walk (length names = 1) (fs names) (fs' names)
    \<and> (\<forall>q. q \<noteq> names \<longrightarrow> kept_or_made ho (fs q) (fs' q)) \<and> (walk \<noteq> Establish \<longrightarrow> fs' = fs)"
proof -
  have r: "open_verified_dir ho [] None fs = (Inr (), fs)"
    and c: "establish_chain ho walk (length names = 1) [] names fs = (Inr (), fs')"
    using walk_cases [OF assms(1)] assms(2) by auto
  have ne: "names \<noteq> []" using names_below_root_Inr assms(2) by blast
  note p = chain_passed [OF c ne, simplified]
  obtain d where d: "fs [] = Some (ADirectory d)" "safe_above ho d" using open_verified_above [OF r] by blast
  have "kept_or_made ho (fs []) (fs' [])" using p ne by metis
  then have "\<exists>d. fs' [] = Some (ADirectory d) \<and> safe_above ho d"
    using d by (auto simp: kept_or_made_def safe_above_def trusted_owner_def)
  then have above: "\<exists>d. fs' (take k names) = Some (ADirectory d) \<and> safe_above ho d" if "k < length names" for k
    using that p by (cases "k = 0") auto
  show ?thesis using above p [THEN conjunct2] by (intro conjI allI impI) simp_all
qed

definition example_host :: host where
  "example_host = \<lparr>ho_euid = 1000, ho_umask = 0x12, ho_fails = (\<lambda>_ _. None)\<rparr>"

definition example_tree :: dirs where
  "example_tree = [[] \<mapsto> ADirectory \<lparr>dn_uid = 0, dn_mode = 0x1ED, dn_entries = [''home'', ''tmp'']\<rparr>,
     [''home''] \<mapsto> ADirectory \<lparr>dn_uid = 0, dn_mode = 0x1ED, dn_entries = []\<rparr>,
     [''tmp''] \<mapsto> ADirectory \<lparr>dn_uid = 0, dn_mode = 0x3FF, dn_entries = [''theirs'']\<rparr>,
     [''tmp'', ''theirs''] \<mapsto> ADirectory \<lparr>dn_uid = 1001, dn_mode = 0x1C0, dn_entries = []\<rparr>]"

definition example_made :: dirs where
  "example_made = snd (establish_state_dir example_host [RootDir, Normal ''home'', Normal ''dedcom''] example_tree)"

lemma example_names: "names_below_root [RootDir, Normal ''home'', Normal ''dedcom''] = Inr [''home'', ''dedcom'']"
  by code_simp

lemma example_run: "walk_state_dir example_host Establish [RootDir, Normal ''home'', Normal ''dedcom''] example_tree = (Inr (), example_made)"
proof -
  have "fst (walk_state_dir example_host Establish [RootDir, Normal ''home'', Normal ''dedcom''] example_tree) = Inr ()" by code_simp
  then show ?thesis by (simp add: example_made_def establish_state_dir_def prod_eq_iff)
qed

theorem state_dir_taken_witness:
  "leaf_taken example_host Establish False None (example_made [''home'', ''dedcom''])"
proof -
  have "example_tree [''home'', ''dedcom''] = None" by code_simp
  then show ?thesis using state_dir_taken [OF example_run example_names] by simp
qed

text \<open>
  A state directory that is refused leaves no trace on anything that was there: no owner, no
  mode and no name changes, at most directories of ours were created along the chain, and a walk that
  only looks leaves everything as it was.\<close>

theorem state_dir_refused:
  assumes "walk_state_dir ho walk dir fs = (Inl e, fs')"
  shows "kept_or_made ho (fs q) (fs' q) \<and> (walk \<noteq> Establish \<longrightarrow> fs' = fs)"
  using walk_cases [OF assms] chain_refused by auto

definition example_refused :: "(state_dir_error + unit) \<times> dirs" where
  "example_refused = walk_state_dir example_host Establish [RootDir, Normal ''tmp'', Normal ''theirs'', Normal ''state''] example_tree"

theorem state_dir_refused_witness:
  "kept_or_made example_host (example_tree [''tmp'', ''theirs'']) (snd example_refused [''tmp'', ''theirs''])"
proof -
  have "fst example_refused = Inl OwnedByOutsider" by code_simp
  then have "walk_state_dir example_host Establish [RootDir, Normal ''tmp'', Normal ''theirs'', Normal ''state''] example_tree
      = (Inl OwnedByOutsider, snd example_refused)"
    unfolding example_refused_def [symmetric] by (simp add: prod_eq_iff)
  then show ?thesis by (rule state_dir_refused [THEN conjunct1])
qed

end
