(* ===== verification/Rename_Guard.thy ===== *)
theory Rename_Guard
  imports Paths
begin

text \<open>
  The files this process keeps at their names: \<open>paths::OpenDatabase\<close> (the three files of each SQLite
  connection) and \<open>lock::LOCK_FILES\<close> (the lock files held, and the lock names worked under), and the
  one rename that asks both lists first, \<open>move_file::rename_noreplace\<close>. The tree is entries of
  directories by identity; a path is the list of names from the root, spelled without a link on the
  way, and a look at a name that is there does not fail. The lists are held over the rename, so each
  operation here is one step.
\<close>

section \<open>The tree\<close>

datatype kind = KDirectory | KRegular | KSymlink | KOther

record path_identity =
  pi_device :: u64
  pi_inode :: u64

record tree =
  tr_root :: path_identity
  tr_kind :: "path_identity \<Rightarrow> kind"
  tr_links :: "path_identity \<Rightarrow> nat"
  tr_entry :: "path_identity \<Rightarrow> string \<Rightarrow> path_identity option"

type_synonym abs_path = "string list"

fun reach :: "tree \<Rightarrow> path_identity \<Rightarrow> abs_path \<Rightarrow> path_identity option" where
  "reach t d [] = Some d"
| "reach t d (n # ns) =
     (if tr_kind t d \<noteq> KDirectory then None
      else case tr_entry t d n of None \<Rightarrow> None | Some x \<Rightarrow> reach t x ns)"

definition identity_at :: "tree \<Rightarrow> abs_path \<Rightarrow> path_identity option" where
  "identity_at t p = reach t (tr_root t) p"

definition is_dir_at :: "tree \<Rightarrow> abs_path \<Rightarrow> bool" where
  "is_dir_at t p = (case identity_at t p of None \<Rightarrow> False | Some x \<Rightarrow> tr_kind t x = KDirectory)"

text \<open>\<open>renameat2\<close> with \<open>RENAME_NOREPLACE\<close>; \<open>refused\<close> is any other error of the system.\<close>

definition renamed :: "bool \<Rightarrow> abs_path \<Rightarrow> abs_path \<Rightarrow> tree \<Rightarrow> tree option" where
  "renamed refused src dst t =
     (if refused \<or> src = [] \<or> dst = [] \<or> take (length src) dst = src
         \<or> \<not> is_dir_at t (butlast src) \<or> \<not> is_dir_at t (butlast dst) then None
      else
        let sp = the (identity_at t (butlast src)); dp = the (identity_at t (butlast dst)) in
        case tr_entry t sp (last src) of
          None \<Rightarrow> None
        | Some x \<Rightarrow>
            if tr_entry t dp (last dst) \<noteq> None then None
            else
              let gone = (tr_entry t)(sp := (tr_entry t sp)(last src := None)) in
              Some (t\<lparr>tr_entry := gone(dp := (gone dp)(last dst \<mapsto> x))\<rparr>))"

section \<open>The lock files\<close>

record listed =
  ls_entry :: nat
  ls_name :: abs_path
  ls_file :: "path_identity option"

datatype part = PartFile | PartDirectory

definition ancestors :: "abs_path \<Rightarrow> abs_path list" where
  "ancestors p = map (\<lambda>k. take k p) (rev [0..<Suc (length p)])"

definition lock_holds :: "listed list \<Rightarrow> path_identity \<Rightarrow> bool" where
  "lock_holds listed x \<longleftrightarrow> list_ex (\<lambda>kept. ls_file kept = Some x) listed"

definition same_directory :: "tree \<Rightarrow> abs_path \<Rightarrow> abs_path \<Rightarrow> bool" where
  "same_directory t a b \<longleftrightarrow> is_dir_at t a \<and> is_dir_at t b \<and> identity_at t a = identity_at t b"

definition lock_names :: "tree \<Rightarrow> listed list \<Rightarrow> abs_path \<Rightarrow> bool" where
  "lock_names t listed p \<longleftrightarrow>
     p \<noteq> [] \<and> list_ex (\<lambda>kept. ls_name kept \<noteq> [] \<and> last (ls_name kept) = last p
       \<and> same_directory t (butlast p) (butlast (ls_name kept))) listed"

definition lock_lies_above :: "tree \<Rightarrow> listed list \<Rightarrow> path_identity \<Rightarrow> bool" where
  "lock_lies_above t listed dir \<longleftrightarrow>
     list_ex (\<lambda>kept. list_ex (\<lambda>above. identity_at t above = Some dir) (drop 1 (ancestors (ls_name kept)))) listed"

definition part_listed :: "tree \<Rightarrow> listed list \<Rightarrow> abs_path \<Rightarrow> (unit + part option)" where
  "part_listed t listed p =
     (case identity_at t p of
        None \<Rightarrow> Inl ()
      | Some thing \<Rightarrow> Inr
          (if tr_kind t thing = KDirectory then (if lock_lies_above t listed thing then Some PartDirectory else None)
           else if lock_holds listed thing \<or> lock_names t listed p then Some PartFile else None))"

section \<open>The open databases\<close>

definition DATABASE_FILE_SUFFIXES :: "string list" where
  "DATABASE_FILE_SUFFIXES = [[], ''-wal'', ''-shm'']"

record held_files =
  hf_connection :: nat
  hf_names :: "abs_path list"
  hf_noted :: "path_identity option list"

definition database_names :: "abs_path \<Rightarrow> abs_path list" where
  "database_names p = map (\<lambda>suffix. butlast p @ [last p @ suffix]) DATABASE_FILE_SUFFIXES"

text \<open>\<open>HeldFiles::note\<close> and \<open>HeldFiles::files\<close>.\<close>

fun note_names :: "tree \<Rightarrow> nat \<Rightarrow> abs_path list \<Rightarrow> path_identity option list \<Rightarrow> path_identity option list" where
  "note_names t (Suc k) (n # ns) (x # xs) = (if x = None then identity_at t n else x) # note_names t k ns xs"
| "note_names t k ns xs = xs"

definition note_held :: "tree \<Rightarrow> nat \<Rightarrow> held_files \<Rightarrow> held_files" where
  "note_held t k held = held\<lparr>hf_noted := note_names t k (hf_names held) (hf_noted held)\<rparr>"

definition held_now :: "tree \<Rightarrow> held_files \<Rightarrow> path_identity list" where
  "held_now t held =
     List.map_filter (\<lambda>(n, x). if x = None then identity_at t n else x) (zip (hf_names held) (hf_noted held))"

definition db_holds :: "tree \<Rightarrow> held_files list \<Rightarrow> path_identity \<Rightarrow> bool" where
  "db_holds t dbs x \<longleftrightarrow> list_ex (\<lambda>held. x \<in> set (held_now t held)) dbs"

definition db_names :: "tree \<Rightarrow> held_files list \<Rightarrow> abs_path \<Rightarrow> bool" where
  "db_names t dbs p \<longleftrightarrow>
     p \<noteq> [] \<and> list_ex (\<lambda>held. list_ex (\<lambda>theirs. theirs \<noteq> [] \<and> last theirs = last p
       \<and> same_directory t (butlast p) (butlast theirs)) (hf_names held)) dbs"

fun db_lies_above :: "tree \<Rightarrow> path_identity \<Rightarrow> abs_path list \<Rightarrow> held_files list \<Rightarrow> bool" where
  "db_lies_above t dir walked [] = False"
| "db_lies_above t dir walked (held # dbs) =
     (let database = hd (hf_names held) in
      if database \<in> set walked then db_lies_above t dir walked dbs
      else list_ex (\<lambda>above. identity_at t above = Some dir) (drop 1 (ancestors database))
        \<or> db_lies_above t dir (database # walked) dbs)"

definition part_held :: "tree \<Rightarrow> held_files list \<Rightarrow> abs_path \<Rightarrow> (unit + part option)" where
  "part_held t dbs p =
     (case identity_at t p of
        None \<Rightarrow> Inl ()
      | Some thing \<Rightarrow> Inr
          (if tr_kind t thing = KDirectory then (if db_lies_above t thing [] dbs then Some PartDirectory else None)
           else if db_holds t dbs thing \<or> db_names t dbs p then Some PartFile else None))"

section \<open>The lists over time\<close>

record lists =
  li_locks :: "listed list"
  li_next_entry :: nat
  li_dbs :: "held_files list"
  li_next_connection :: nat

definition enter :: "abs_path \<Rightarrow> path_identity option \<Rightarrow> lists \<Rightarrow> nat \<times> lists" where
  "enter n f li =
     (li_next_entry li, li\<lparr>li_next_entry := li_next_entry li + 1,
        li_locks := li_locks li @ [\<lparr>ls_entry = li_next_entry li, ls_name = n, ls_file = f\<rparr>]\<rparr>)"

definition leave :: "nat \<Rightarrow> lists \<Rightarrow> lists" where
  "leave e li = li\<lparr>li_locks := filter (\<lambda>kept. ls_entry kept \<noteq> e) (li_locks li)\<rparr>"

definition lock_path :: "abs_path \<Rightarrow> abs_path" where
  "lock_path state_dir = state_dir @ [''dedcom.lock'']"

definition in_dir :: "abs_path \<Rightarrow> lists \<Rightarrow> nat \<times> lists" where
  "in_dir state_dir = enter (lock_path state_dir) None"

definition open_database_at :: "tree \<Rightarrow> abs_path \<Rightarrow> lists \<Rightarrow> nat \<times> lists" where
  "open_database_at t p li =
     (li_next_connection li, li\<lparr>li_next_connection := li_next_connection li + 1,
        li_dbs := li_dbs li @ [note_held t 1 \<lparr>hf_connection = li_next_connection li, hf_names = database_names p,
          hf_noted = replicate 3 None\<rparr>]\<rparr>)"

fun with_first :: "('a \<Rightarrow> bool) \<Rightarrow> ('a \<Rightarrow> 'a) \<Rightarrow> 'a list \<Rightarrow> 'a list" where
  "with_first P f [] = []"
| "with_first P f (x # xs) = (if P x then f x # xs else x # with_first P f xs)"

definition with_connection :: "nat \<Rightarrow> (held_files \<Rightarrow> held_files) \<Rightarrow> lists \<Rightarrow> lists" where
  "with_connection c f li = li\<lparr>li_dbs := with_first (\<lambda>held. hf_connection held = c) f (li_dbs li)\<rparr>"

definition note_files :: "tree \<Rightarrow> nat \<Rightarrow> lists \<Rightarrow> lists" where
  "note_files t c = with_connection c (note_held t 3)"

definition closing_connection :: "nat \<Rightarrow> lists \<Rightarrow> lists" where
  "closing_connection c = with_connection c (\<lambda>held. held\<lparr>hf_noted := replicate 3 None\<rparr>)"

definition drop_database :: "nat \<Rightarrow> lists \<Rightarrow> lists" where
  "drop_database c li = li\<lparr>li_dbs := filter (\<lambda>held. hf_connection held \<noteq> c) (li_dbs li)\<rparr>"

section \<open>The rename\<close>

datatype move_refusal = LookFailed | OpenDatabaseMove part | LockMove part | RenameFailed

definition guarded_rename :: "lists \<Rightarrow> bool \<Rightarrow> abs_path \<Rightarrow> abs_path \<Rightarrow> tree \<Rightarrow> (move_refusal + unit) \<times> tree" where
  "guarded_rename li refused src dst t =
     (case part_held t (li_dbs li) src of
        Inl _ \<Rightarrow> (Inl LookFailed, t)
      | Inr (Some p) \<Rightarrow> (Inl (OpenDatabaseMove p), t)
      | Inr None \<Rightarrow>
          (case part_listed t (li_locks li) src of
             Inl _ \<Rightarrow> (Inl LookFailed, t)
           | Inr (Some p) \<Rightarrow> (Inl (LockMove p), t)
           | Inr None \<Rightarrow>
               (case renamed refused src dst t of None \<Rightarrow> (Inl RenameFailed, t) | Some t' \<Rightarrow> (Inr (), t'))))"

section \<open>What a rename moves\<close>

lemma reach_append:
  "reach t d (p @ [n]) = (case reach t d p of None \<Rightarrow> None
     | Some x \<Rightarrow> if tr_kind t x \<noteq> KDirectory then None else tr_entry t x n)"
proof (induction p arbitrary: d)
  case Nil
  show ?case by (simp split: option.split)
next
  case (Cons m p)
  then show ?case by (simp split: option.split)
qed

lemma identity_at_append:
  "identity_at t (p @ [n]) = (case identity_at t p of None \<Rightarrow> None
     | Some x \<Rightarrow> if tr_kind t x \<noteq> KDirectory then None else tr_entry t x n)"
  by (simp add: identity_at_def reach_append)

lemma identity_at_Nil [simp]: "identity_at t [] = Some (tr_root t)"
  by (simp add: identity_at_def)

lemma is_dir_at_dest: "is_dir_at t p \<Longrightarrow> \<exists>d. identity_at t p = Some d \<and> tr_kind t d = KDirectory"
  by (auto simp: is_dir_at_def split: option.splits)

text \<open>A rename takes one entry away and adds one where none was; every entry that was is as it was.\<close>

lemma renamed_result:
  assumes "renamed refused src dst t = Some t'"
  shows "\<exists>sp x dp. identity_at t (butlast src) = Some sp \<and> tr_kind t sp = KDirectory \<and> src \<noteq> []
    \<and> tr_entry t sp (last src) = Some x \<and> tr_entry t dp (last dst) = None
    \<and> t' = t\<lparr>tr_entry := (let gone = (tr_entry t)(sp := (tr_entry t sp)(last src := None)) in gone(dp := (gone dp)(last dst \<mapsto> x)))\<rparr>"
proof -
  have c: "\<not> (refused \<or> src = [] \<or> dst = [] \<or> take (length src) dst = src
         \<or> \<not> is_dir_at t (butlast src) \<or> \<not> is_dir_at t (butlast dst))"
  proof
    assume c: "refused \<or> src = [] \<or> dst = [] \<or> take (length src) dst = src \<or> \<not> is_dir_at t (butlast src) \<or> \<not> is_dir_at t (butlast dst)"
    show False using assms unfolding renamed_def if_P [OF c] by simp
  qed
  then obtain sp dp where d: "identity_at t (butlast src) = Some sp" "tr_kind t sp = KDirectory" "identity_at t (butlast dst) = Some dp"
    using is_dir_at_dest by blast
  show ?thesis
    using assms c d unfolding renamed_def if_not_P [OF c] by (auto simp: Let_def split: option.splits if_splits)
qed

lemma renamed_entries:
  assumes "renamed refused src dst t = Some t'"
  obtains sp x where "identity_at t (butlast src) = Some sp" "tr_kind t sp = KDirectory"
    "tr_entry t sp (last src) = Some x" "src \<noteq> []" "tr_kind t' = tr_kind t" "tr_root t' = tr_root t"
    "\<And>d n y. tr_entry t d n = Some y \<Longrightarrow> (d, n) \<noteq> (sp, last src) \<Longrightarrow> tr_entry t' d n = Some y"
proof -
  obtain sp x dp where r: "identity_at t (butlast src) = Some sp" "tr_kind t sp = KDirectory" "src \<noteq> []"
    "tr_entry t sp (last src) = Some x" "tr_entry t dp (last dst) = None"
    "t' = t\<lparr>tr_entry := (let gone = (tr_entry t)(sp := (tr_entry t sp)(last src := None)) in gone(dp := (gone dp)(last dst \<mapsto> x)))\<rparr>"
    using renamed_result [OF assms] by blast
  have "tr_entry t' d n = Some y" if "tr_entry t d n = Some y" "(d, n) \<noteq> (sp, last src)" for d n y
    using that r(5) by (auto simp: r(6) Let_def)
  then show thesis using that r by auto
qed

lemma renamed_source:
  assumes "identity_at t (butlast src) = Some sp" "tr_kind t sp = KDirectory" "tr_entry t sp (last src) = Some x" "src \<noteq> []"
  shows "identity_at t src = Some x"
  using assms identity_at_append [of t "butlast src" "last src"] by simp

text \<open>A way survives a rename that takes none of its entries.\<close>

lemma way_survives:
  assumes "\<And>d n y. tr_entry t d n = Some y \<Longrightarrow> (d, n) \<noteq> gone \<Longrightarrow> tr_entry t' d n = Some y"
    "tr_kind t' = tr_kind t" "tr_root t' = tr_root t" "identity_at t N = Some f"
    "\<And>k d. k < length N \<Longrightarrow> identity_at t (take k N) = Some d \<Longrightarrow> (d, N ! k) \<noteq> gone"
  shows "identity_at t' N = Some f"
  using assms(4,5)
proof (induction N arbitrary: f rule: rev_induct)
  case Nil
  then show ?case using assms(3) by simp
next
  case (snoc n N)
  obtain d where d: "identity_at t N = Some d" "tr_kind t d = KDirectory" "tr_entry t d n = Some f"
    using snoc.prems(1) by (auto simp: identity_at_append split: option.splits if_splits)
  have "identity_at t' N = Some d"
  proof (rule snoc.IH [OF d(1)])
    fix k e assume k: "k < length N" and e: "identity_at t (take k N) = Some e"
    show "(e, N ! k) \<noteq> gone" using snoc.prems(2) [of k e] k e by (simp add: nth_append)
  qed
  moreover have "(d, n) \<noteq> gone" using snoc.prems(2) [of "length N" d] d(1) by simp
  ultimately show ?case using d assms(1,2) by (simp add: identity_at_append)
qed

lemma ancestors_above: "k < length p \<Longrightarrow> take k p \<in> set (drop 1 (ancestors p))"
proof -
  assume "k < length p"
  have "drop 1 (ancestors p) = map (\<lambda>k. take k p) (rev [0..<length p])"
    by (simp add: ancestors_def)
  then show ?thesis using \<open>k < length p\<close> by auto
qed

section \<open>A list that keeps names\<close>

text \<open>
  What both lists promise of a kept name: a non-directory found at that name in that directory is
  refused, and so is every directory on the way to it.
\<close>

locale name_keeper =
  fixes refuses :: "'l \<Rightarrow> tree \<Rightarrow> abs_path \<Rightarrow> bool"
    and kept :: "'l \<Rightarrow> abs_path \<Rightarrow> bool"
  assumes at_the_name: "kept l N \<Longrightarrow> N \<noteq> [] \<Longrightarrow> p \<noteq> [] \<Longrightarrow> last p = last N \<Longrightarrow> same_directory t (butlast p) (butlast N)
      \<Longrightarrow> identity_at t p = Some f \<Longrightarrow> tr_kind t f \<noteq> KDirectory \<Longrightarrow> refuses l t p"
    and on_the_way: "kept l N \<Longrightarrow> k < length N \<Longrightarrow> identity_at t (take k N) = Some d \<Longrightarrow> identity_at t p = Some d
      \<Longrightarrow> tr_kind t d = KDirectory \<Longrightarrow> refuses l t p"
begin

lemma kept_name_survives:
  assumes "kept l N" "\<not> refuses l t src" "renamed refused src dst t = Some t'"
    and "identity_at t N = Some f" "tr_kind t f \<noteq> KDirectory"
  shows "identity_at t' N = Some f"
proof -
  obtain sp x where r: "identity_at t (butlast src) = Some sp" "tr_kind t sp = KDirectory" "tr_entry t sp (last src) = Some x"
    "src \<noteq> []" "tr_kind t' = tr_kind t" "tr_root t' = tr_root t"
    "\<And>d n y. tr_entry t d n = Some y \<Longrightarrow> (d, n) \<noteq> (sp, last src) \<Longrightarrow> tr_entry t' d n = Some y"
    using renamed_entries [OF assms(3)] by metis
  note x = renamed_source [OF r(1-4)]
  have "(d, N ! k) \<noteq> (sp, last src)" if k: "k < length N" and d: "identity_at t (take k N) = Some d" for k d
  proof
    assume "(d, N ! k) = (sp, last src)"
    then have e: "d = sp" "N ! k = last src" by auto
    have tk: "take (Suc k) N = take k N @ [N ! k]" using k by (simp add: take_Suc_conv_app_nth)
    have next': "identity_at t (take (Suc k) N) = Some x"
      using d e r(2,3) by (simp add: tk identity_at_append)
    show False
    proof (cases "Suc k = length N")
      case True
      then have N: "N = butlast N @ [N ! k]" "butlast N = take k N" using tk by (simp, metis butlast_snoc, simp, metis butlast_snoc)
      then have "identity_at t N = Some x" "last N = last src" using next' True e(2) by (simp, metis last_snoc)
      moreover have "same_directory t (butlast src) (butlast N)"
        using r(1,2) d e(1) by (simp add: same_directory_def is_dir_at_def N(2))
      ultimately show False using at_the_name [OF assms(1), of src t x] assms(2,4,5) r(4) x N(1) by auto
    next
      case False
      then have s: "Suc k < length N" using k by simp
      have "identity_at t (take (Suc (Suc k)) N) = None \<or> tr_kind t x = KDirectory"
        using next' identity_at_append [of t "take (Suc k) N" "N ! Suc k"] s by (auto simp: take_Suc_conv_app_nth)
      moreover have "identity_at t (take j N) \<noteq> None" if "j \<le> length N" for j
        using that assms(4)
      proof (induction j rule: inc_induct)
        case (step j)
        then show ?case by (auto simp: take_Suc_conv_app_nth identity_at_append split: option.splits)
      qed simp
      ultimately have "tr_kind t x = KDirectory" using s by (metis Suc_leI)
      then show False using on_the_way [OF assms(1) s next' x] assms(2) by simp
    qed
  qed
  then show ?thesis using way_survives [OF r(7) r(5,6) assms(4)] by blast
qed

end

lemma lock_keeps_at_name:
  assumes "\<exists>kept \<in> set listed. ls_name kept = N" "N \<noteq> []" "p \<noteq> []" "last p = last N" "same_directory t (butlast p) (butlast N)"
    "identity_at t p = Some f" "tr_kind t f \<noteq> KDirectory"
  shows "part_listed t listed p \<noteq> Inr None"
  using assms by (auto simp: part_listed_def lock_names_def list_ex_iff)

lemma lock_keeps_way:
  assumes "\<exists>kept \<in> set listed. ls_name kept = N" "k < length N" "identity_at t (take k N) = Some d" "identity_at t p = Some d"
    "tr_kind t d = KDirectory"
  shows "part_listed t listed p \<noteq> Inr None"
  using assms ancestors_above [of k N] by (auto simp: part_listed_def lock_lies_above_def list_ex_iff)

interpretation lock_list: name_keeper
  "\<lambda>listed t p. part_listed t listed p \<noteq> Inr None" "\<lambda>listed N. \<exists>kept \<in> set listed. ls_name kept = N"
  by unfold_locales (rule lock_keeps_at_name, assumption+, rule lock_keeps_way, assumption+)

text \<open>A connection keeps its three names; the way to one of them is the way to the database.\<close>

definition db_kept :: "held_files list \<Rightarrow> abs_path \<Rightarrow> bool" where
  "db_kept dbs N \<longleftrightarrow> (\<exists>held \<in> set dbs. \<exists>p. p \<noteq> [] \<and> hf_names held = database_names p \<and> N \<in> set (database_names p))"

lemma database_names_take:
  "p \<noteq> [] \<Longrightarrow> N \<in> set (database_names p) \<Longrightarrow> k < length N \<Longrightarrow> take k N = take k p \<and> k < length p"
  by (cases p rule: rev_cases) (auto simp: database_names_def DATABASE_FILE_SUFFIXES_def)

lemma db_lies_above_iff:
  "db_lies_above t dir walked dbs \<or> (\<exists>n \<in> set walked. list_ex (\<lambda>above. identity_at t above = Some dir) (drop 1 (ancestors n))) \<longleftrightarrow>
     (\<exists>n \<in> set walked \<union> set (map (\<lambda>held. hd (hf_names held)) dbs). list_ex (\<lambda>above. identity_at t above = Some dir) (drop 1 (ancestors n)))"
proof (induction t dir walked dbs rule: db_lies_above.induct)
  case (2 t dir walked held dbs)
  then show ?case by (cases "hd (hf_names held) \<in> set walked") (auto simp: Let_def)
qed simp

lemma db_keeps_at_name:
  assumes "db_kept dbs N" "N \<noteq> []" "p \<noteq> []" "last p = last N" "same_directory t (butlast p) (butlast N)"
    "identity_at t p = Some f" "tr_kind t f \<noteq> KDirectory"
  shows "part_held t dbs p \<noteq> Inr None"
proof -
  have "db_names t dbs p" using assms(1-5) unfolding db_names_def db_kept_def list_ex_iff by metis
  then show ?thesis using assms(6,7) by (simp add: part_held_def)
qed

lemma db_keeps_way:
  assumes "db_kept dbs N" "k < length N" "identity_at t (take k N) = Some d" "identity_at t p = Some d" "tr_kind t d = KDirectory"
  shows "part_held t dbs p \<noteq> Inr None"
proof -
  obtain held q where h: "held \<in> set dbs" "q \<noteq> []" "hf_names held = database_names q" "N \<in> set (database_names q)"
    using assms(1) by (auto simp: db_kept_def)
  have k: "take k N = take k q" "k < length q" using database_names_take [OF h(2,4) assms(2)] by auto
  have "hd (hf_names held) = q" using h(2,3) by (simp add: database_names_def DATABASE_FILE_SUFFIXES_def)
  moreover have "list_ex (\<lambda>above. identity_at t above = Some d) (drop 1 (ancestors q))"
    using ancestors_above [OF k(2)] assms(3) k(1) unfolding list_ex_iff by metis
  ultimately have "db_lies_above t d [] dbs" using db_lies_above_iff [of t d "[]" dbs] h(1) by auto
  then show ?thesis using assms(4,5) by (simp add: part_held_def)
qed

interpretation db_list: name_keeper "\<lambda>dbs t p. part_held t dbs p \<noteq> Inr None" db_kept
  by unfold_locales (rule db_keeps_at_name, assumption+, rule db_keeps_way, assumption+)

section \<open>The lists stay well formed\<close>

text \<open>
  Every entry has a number of its own, below the next to be given, so leaving takes one's own entry and
  no other; a connection has the three names of its database and room for three noted files.
\<close>

definition lists_ok :: "lists \<Rightarrow> bool" where
  "lists_ok li \<longleftrightarrow>
     distinct (map ls_entry (li_locks li)) \<and> (\<forall>kept \<in> set (li_locks li). ls_entry kept < li_next_entry li)
     \<and> distinct (map hf_connection (li_dbs li)) \<and> (\<forall>held \<in> set (li_dbs li). hf_connection held < li_next_connection li)
     \<and> (\<forall>held \<in> set (li_dbs li). length (hf_noted held) = 3 \<and> (\<exists>p. p \<noteq> [] \<and> hf_names held = database_names p))"

lemma length_note_names [simp]: "length (note_names t k ns xs) = length xs"
  by (induction t k ns xs rule: note_names.induct) auto

lemma note_held_fields [simp]:
  "hf_connection (note_held t k held) = hf_connection held" "hf_names (note_held t k held) = hf_names held"
  "length (hf_noted (note_held t k held)) = length (hf_noted held)"
  by (simp_all add: note_held_def)

lemma with_first_map: "(\<And>x. g (f x) = g x) \<Longrightarrow> map g (with_first P f xs) = map g xs"
  by (induction xs) auto

lemma with_first_set: "y \<in> set (with_first P f xs) \<Longrightarrow> y \<in> set xs \<or> (\<exists>x \<in> set xs. y = f x)"
  by (induction xs) (auto split: if_splits)

lemma with_connection_ok:
  assumes "lists_ok li" "\<And>held. hf_connection (f held) = hf_connection held" "\<And>held. hf_names (f held) = hf_names held"
    "\<And>held. length (hf_noted held) = 3 \<Longrightarrow> length (hf_noted (f held)) = 3"
  shows "lists_ok (with_connection c f li)"
proof -
  have "map hf_connection (with_first (\<lambda>held. hf_connection held = c) f (li_dbs li)) = map hf_connection (li_dbs li)"
    using assms(2) by (rule with_first_map)
  moreover have "hf_connection y < li_next_connection li \<and> length (hf_noted y) = 3 \<and> (\<exists>p. p \<noteq> [] \<and> hf_names y = database_names p)"
    if "y \<in> set (with_first (\<lambda>held. hf_connection held = c) f (li_dbs li))" for y
    using with_first_set [OF that] assms by (auto simp: lists_ok_def)
  ultimately show ?thesis using assms(1) by (simp add: lists_ok_def with_connection_def)
qed

datatype list_call =
    EnterLock abs_path "path_identity option"
  | LeaveLock nat
  | OpenDatabase abs_path
  | NoteFiles nat
  | ClosingConnection nat
  | DropDatabase nat

fun on_lists :: "tree \<Rightarrow> list_call \<Rightarrow> lists \<Rightarrow> lists" where
  "on_lists t (EnterLock n f) li = snd (enter n f li)"
| "on_lists t (LeaveLock e) li = leave e li"
| "on_lists t (OpenDatabase p) li = snd (open_database_at t p li)"
| "on_lists t (NoteFiles c) li = note_files t c li"
| "on_lists t (ClosingConnection c) li = closing_connection c li"
| "on_lists t (DropDatabase c) li = drop_database c li"


definition root_dir :: path_identity where
  "root_dir = \<lparr>pi_device = 1, pi_inode = 2\<rparr>"

definition state_dir_node :: path_identity where
  "state_dir_node = \<lparr>pi_device = 1, pi_inode = 34\<rparr>"

definition db_node :: path_identity where
  "db_node = \<lparr>pi_device = 1, pi_inode = 40\<rparr>"

definition lock_node :: path_identity where
  "lock_node = \<lparr>pi_device = 1, pi_inode = 41\<rparr>"

definition small_tree :: tree where
  "small_tree = \<lparr>tr_root = root_dir, tr_kind = (\<lambda>x. if x = root_dir \<or> x = state_dir_node then KDirectory else KRegular),
     tr_links = (\<lambda>_. 1),
     tr_entry = (\<lambda>d n. if d = root_dir \<and> n = ''state'' then Some state_dir_node
       else if d = state_dir_node \<and> n = ''dedcom.db'' then Some db_node
       else if d = state_dir_node \<and> n = ''dedcom.lock'' then Some lock_node else None)\<rparr>"

definition no_lists :: lists where
  "no_lists = \<lparr>li_locks = [], li_next_entry = 0, li_dbs = [], li_next_connection = 0\<rparr>"

definition window_calls :: "(tree \<times> list_call) list" where
  "window_calls = [(small_tree, EnterLock [''state'', ''dedcom.lock''] (Some lock_node)),
     (small_tree, EnterLock [''state'', ''dedcom.lock''] None), (small_tree, OpenDatabase [''state'', ''dedcom.db'']),
     (small_tree, NoteFiles 0), (small_tree, LeaveLock 0)]"

definition window_lists :: lists where
  "window_lists = fold (\<lambda>(t, c). on_lists t c) window_calls no_lists"


section \<open>No rename takes a kept name\<close>

lemma guarded_rename_Inr:
  "guarded_rename li refused src dst t = (Inr (), t') \<Longrightarrow>
     part_held t (li_dbs li) src = Inr None \<and> part_listed t (li_locks li) src = Inr None \<and> renamed refused src dst t = Some t'"
  by (auto simp: guarded_rename_def split: sum.splits option.splits)

lemma guarded_rename_Inl: "guarded_rename li refused src dst t = (Inl e, t') \<Longrightarrow> t' = t"
  by (auto simp: guarded_rename_def split: sum.splits option.splits)

lemma guarded_rename_keeps:
  assumes "guarded_rename li refused src dst t = (r, t')"
    and "(\<exists>kept \<in> set (li_locks li). ls_name kept = N) \<or> db_kept (li_dbs li) N"
    and "identity_at t N = Some f" "tr_kind t f \<noteq> KDirectory"
  shows "identity_at t' N = Some f"
proof (cases r)
  case (Inl e)
  then show ?thesis using assms guarded_rename_Inl by blast
next
  case (Inr u)
  then have g: "part_held t (li_dbs li) src = Inr None" "part_listed t (li_locks li) src = Inr None" "renamed refused src dst t = Some t'"
    using assms(1) guarded_rename_Inr by auto
  from assms(2) show ?thesis
  proof
    assume "\<exists>kept \<in> set (li_locks li). ls_name kept = N"
    then show ?thesis using lock_list.kept_name_survives g assms(3,4) by blast
  next
    assume "db_kept (li_dbs li) N"
    then show ?thesis using db_list.kept_name_survives g assms(3,4) by blast
  qed
qed

lemma guarded_rename_kind: "guarded_rename li refused src dst t = (r, t') \<Longrightarrow> tr_kind t' = tr_kind t"
  using guarded_rename_Inl [of li refused src dst t] guarded_rename_Inr [of li refused src dst t] renamed_entries
  by (cases r) (simp, metis old.unit.exhaust)

text \<open>
  Claim C24. Whatever rename is asked for, the lock files and the databases this process keeps stay at their
  names: the name of a listed lock file, or one of the three names of an open database, that led to a file
  before leads to the same file after, however deep the source or the destination lies.\<close>

theorem rename_keeps_our_names:
  assumes "guarded_rename li refused src dst t = (r, t')"
    and "(\<exists>kept \<in> set (li_locks li). ls_name kept = N) \<or> db_kept (li_dbs li) N"
    and "identity_at t N = Some f" "tr_kind t f \<noteq> KDirectory"
  shows "identity_at t' N = Some f"
  using assms by (rule guarded_rename_keeps)

theorem rename_keeps_our_names_witness:
  "identity_at (snd (guarded_rename window_lists False [''state''] [''elsewhere''] small_tree)) [''state'', ''dedcom.lock''] = Some lock_node"
proof -
  have "ls_name (hd (li_locks window_lists)) = [''state'', ''dedcom.lock''] \<and> li_locks window_lists \<noteq> []" by code_simp
  then have "\<exists>kept \<in> set (li_locks window_lists). ls_name kept = [''state'', ''dedcom.lock'']" using list.set_sel(1) by blast
  moreover have "identity_at small_tree [''state'', ''dedcom.lock''] = Some lock_node" by code_simp
  moreover have "tr_kind small_tree lock_node \<noteq> KDirectory" by code_simp
  ultimately show ?thesis using rename_keeps_our_names [OF surjective_pairing] by blast
qed

end
