(* ===== verification/Operators.thy ===== *)
theory Operators
  imports Rename_Guard
begin

text \<open>
  \<open>lock.rs\<close> and its two front ends in \<open>main.rs\<close>: one state directory, any number of processes on it, and
  which of them may write. A process opens the lock file and checks that it is a plain file, then asks
  for \<open>flock\<close> and enters the file in its list, then decides its role by the policy and its flags. The
  moves of different processes interleave freely: between the opening of the file and the lock, a window
  of another process may rename anything its own lists let it. \<open>flock\<close> is on the file, and a file is held
  by at most one process at a time; a name newly made gets a file nobody holds.
\<close>

section \<open>The role decision\<close>

datatype lock_state = Held | Busy | Unknown

datatype concurrency_policy = Ask | ReadOnly | Block | Allow

datatype decision = BecomeOperator | Observe | Blocked | AskFirst

definition decide :: "lock_state \<Rightarrow> concurrency_policy \<Rightarrow> bool \<Rightarrow> bool \<Rightarrow> decision" where
  "decide state policy cli_read_only cli_force =
     (if cli_read_only then Observe
      else case state of
        Held \<Rightarrow> BecomeOperator
      | Unknown \<Rightarrow> if cli_force then BecomeOperator else Blocked
      | Busy \<Rightarrow>
          if cli_force then BecomeOperator
          else (case policy of Allow \<Rightarrow> BecomeOperator | ReadOnly \<Rightarrow> Observe | Block \<Rightarrow> Blocked | Ask \<Rightarrow> AskFirst))"

definition decide_headless :: "lock_state \<Rightarrow> concurrency_policy \<Rightarrow> bool \<Rightarrow> bool \<Rightarrow> decision" where
  "decide_headless state policy cli_read_only cli_force =
     (case decide state policy cli_read_only cli_force of AskFirst \<Rightarrow> Blocked | other \<Rightarrow> other)"

definition observer_asked :: "decision \<Rightarrow> bool \<Rightarrow> bool" where
  "observer_asked d cli_read_only \<longleftrightarrow> d = Observe \<and> cli_read_only"

section \<open>Opening the lock file\<close>

datatype open_error = NotOurLockFile | NotEvaluated nat

text \<open>
  \<open>OpenOptions\<close> with \<open>create\<close> and \<open>O_NOFOLLOW\<close>, then \<open>require_plain_lock_file\<close> on the descriptor.
  \<open>fault\<close> is any other errno of either call; \<open>fresh\<close> is the file the system makes where the name is free.
\<close>

definition open_lock_file :: "nat option \<Rightarrow> path_identity \<Rightarrow> abs_path \<Rightarrow> tree \<Rightarrow> (open_error + path_identity) \<times> tree" where
  "open_lock_file fault fresh path t =
     (case fault of
        Some errno \<Rightarrow> (Inl (NotEvaluated errno), t)
      | None \<Rightarrow>
          (case identity_at t path of
             Some f \<Rightarrow>
               (if tr_kind t f = KRegular \<and> tr_links t f = 1 then Inr f else Inl NotOurLockFile, t)
           | None \<Rightarrow>
               if path = [] \<or> \<not> is_dir_at t (butlast path) then (Inl (NotEvaluated 2), t)
               else
                 let d = the (identity_at t (butlast path)) in
                 (Inr fresh, t\<lparr>tr_kind := (tr_kind t)(fresh := KRegular), tr_links := (tr_links t)(fresh := 1),
                    tr_entry := (tr_entry t)(d := (tr_entry t d)(last path \<mapsto> fresh))\<rparr>)))"

section \<open>Processes\<close>

datatype kind_of_run = Window | Headless

record launch =
  su_run :: kind_of_run
  su_policy :: concurrency_policy
  su_read_only :: bool
  su_force :: bool

text \<open>
  Where a process is: it opened the lock file (at start or from the overlay, \<open>forcing\<close>), is running in a
  role, or is gone. \<open>pr_lock\<close> is the file it has under \<open>flock\<close> with the number of its entry.
\<close>

datatype stage = NotStarted | Opened bool path_identity | Operating bool | Observing | Asking | Gone

record proc =
  pr_stage :: stage
  pr_lock :: "(path_identity \<times> nat) option"
  pr_lists :: lists

record system =
  sy_tree :: tree
  sy_procs :: "nat \<Rightarrow> proc"

definition with_proc :: "nat \<Rightarrow> proc \<Rightarrow> system \<Rightarrow> system" where
  "with_proc p x s = s\<lparr>sy_procs := (sy_procs s)(p := x)\<rparr>"

text \<open>Dropping an \<open>InstanceLock\<close>: the entry goes and the lock with it.\<close>

definition release :: "proc \<Rightarrow> proc" where
  "release x =
     (case pr_lock x of
        None \<Rightarrow> x
      | Some (f, e) \<Rightarrow> x\<lparr>pr_lock := None, pr_lists := leave e (pr_lists x)\<rparr>)"

text \<open>A window keeps the lock name of its state directory from its start on (\<open>App::new\<close>).\<close>

definition open_window :: "abs_path \<Rightarrow> stage \<Rightarrow> proc \<Rightarrow> proc" where
  "open_window state_dir st x = x\<lparr>pr_stage := st, pr_lists := snd (in_dir state_dir (pr_lists x))\<rparr>"

definition take_role :: "launch \<Rightarrow> abs_path \<Rightarrow> lock_state \<Rightarrow> proc \<Rightarrow> proc" where
  "take_role su state_dir st x =
     (case su_run su of
        Window \<Rightarrow>
          (case decide st (su_policy su) (su_read_only su) (su_force su) of
             BecomeOperator \<Rightarrow> open_window state_dir (Operating (st \<noteq> Held)) x
           | Observe \<Rightarrow> open_window state_dir Observing (release x)
           | AskFirst \<Rightarrow> open_window state_dir Asking x
           | Blocked \<Rightarrow> (release x)\<lparr>pr_stage := Gone\<rparr>)
      | Headless \<Rightarrow>
          (case decide_headless st (su_policy su) (su_read_only su) (su_force su) of
             BecomeOperator \<Rightarrow> x\<lparr>pr_stage := Operating (st \<noteq> Held)\<rparr>
           | _ \<Rightarrow> (release x)\<lparr>pr_stage := Gone\<rparr>))"

text \<open>What an attempt established, at start (\<open>LockReading::of\<close>) and from the overlay (\<open>F\<close>).\<close>

definition after_attempt :: "launch \<Rightarrow> abs_path \<Rightarrow> bool \<Rightarrow> lock_state \<Rightarrow> proc \<Rightarrow> proc" where
  "after_attempt su state_dir forcing st x =
     (if forcing then x\<lparr>pr_stage := Operating (st \<noteq> Held)\<rparr> else take_role su state_dir st x)"

definition after_open :: "launch \<Rightarrow> abs_path \<Rightarrow> bool \<Rightarrow> (open_error + path_identity) \<Rightarrow> proc \<Rightarrow> proc" where
  "after_open su state_dir forcing r x =
     (case r of
        Inr f \<Rightarrow> x\<lparr>pr_stage := Opened forcing f\<rparr>
      | Inl NotOurLockFile \<Rightarrow> if forcing then x\<lparr>pr_stage := Operating True\<rparr> else x\<lparr>pr_stage := Gone\<rparr>
      | Inl (NotEvaluated _) \<Rightarrow> after_attempt su state_dir forcing Unknown x)"

definition held_by_another :: "system \<Rightarrow> nat \<Rightarrow> path_identity \<Rightarrow> bool" where
  "held_by_another s p f \<longleftrightarrow> (\<exists>q e. q \<noteq> p \<and> pr_lock (sy_procs s q) = Some (f, e))"

definition holding :: "abs_path \<Rightarrow> path_identity \<Rightarrow> proc \<Rightarrow> proc" where
  "holding state_dir f x =
     (case enter (lock_path state_dir) (Some f) (pr_lists x) of (e, li) \<Rightarrow> x\<lparr>pr_lock := Some (f, e), pr_lists := li\<rparr>)"

section \<open>Their moves\<close>

text \<open>
  \<open>su p\<close> is how process \<open>p\<close> was started; all work in \<open>state_dir\<close>. A window that observes may rename as
  far as this model goes; the program lets only an operator do it.
\<close>

inductive moves :: "(nat \<Rightarrow> launch) \<Rightarrow> abs_path \<Rightarrow> system \<Rightarrow> system \<Rightarrow> bool" for su state_dir where
  opens: "moves su state_dir s (with_proc p (after_open (su p) state_dir forcing r x) (s\<lparr>sy_tree := t\<rparr>))"
  if "sy_procs s p = x" "pr_stage x = (if forcing then Asking else NotStarted)"
    "open_lock_file fault fresh (lock_path state_dir) (sy_tree s) = (r, t)"
    "\<forall>d n. tr_entry (sy_tree s) d n \<noteq> Some fresh" "fresh \<noteq> tr_root (sy_tree s)"
    "\<forall>q f e. pr_lock (sy_procs s q) = Some (f, e) \<longrightarrow> f \<noteq> fresh"
| locks: "moves su state_dir s (with_proc p (after_attempt (su p) state_dir forcing Held (holding state_dir f x)) s)"
  if "sy_procs s p = x" "pr_stage x = Opened forcing f" "\<not> held_by_another s p f"
| finds_busy: "moves su state_dir s (with_proc p (after_attempt (su p) state_dir forcing Busy x) s)"
  if "sy_procs s p = x" "pr_stage x = Opened forcing f" "held_by_another s p f"
| cannot_tell: "moves su state_dir s (with_proc p (after_attempt (su p) state_dir forcing Unknown x) s)"
  if "sy_procs s p = x" "pr_stage x = Opened forcing f"
| observes: "moves su state_dir s (with_proc p (x\<lparr>pr_stage := Observing\<rparr>) s)"
  if "sy_procs s p = x" "pr_stage x = Asking"
| renames: "moves su state_dir s (s\<lparr>sy_tree := snd (guarded_rename (pr_lists (sy_procs s p)) refused src dst (sy_tree s))\<rparr>)"
  if "su_run (su p) = Window" "pr_stage (sy_procs s p) \<in> {Operating insisted, Observing}"
| quits: "moves su state_dir s (with_proc p (x\<lparr>pr_stage := Gone, pr_lock := None, pr_lists := no_lists\<rparr>) s)"
  if "sy_procs s p = x"

inductive reachable :: "(nat \<Rightarrow> launch) \<Rightarrow> abs_path \<Rightarrow> system \<Rightarrow> system \<Rightarrow> bool" for su state_dir s0 where
  start: "reachable su state_dir s0 s0"
| later: "reachable su state_dir s0 s \<Longrightarrow> moves su state_dir s s' \<Longrightarrow> reachable su state_dir s0 s'"

inductive_cases moves_elim: "moves su state_dir s s'"

text \<open>Nobody has started and the way to the state directory is there.\<close>

definition untouched :: "abs_path \<Rightarrow> system \<Rightarrow> bool" where
  "untouched state_dir s \<longleftrightarrow>
     (\<forall>p. sy_procs s p = \<lparr>pr_stage = NotStarted, pr_lock = None, pr_lists = no_lists\<rparr>)"

definition operator :: "system \<Rightarrow> nat \<Rightarrow> bool" where
  "operator s p \<longleftrightarrow> (\<exists>insisted. pr_stage (sy_procs s p) = Operating insisted)"

section \<open>One process\<close>

text \<open>Who may operate without the lock: \<open>--force\<close>, the \<open>allow\<close> policy, or the answer \<open>F\<close> to the question the \<open>ask\<close> policy puts.\<close>

definition asked :: "launch \<Rightarrow> bool" where
  "asked su \<longleftrightarrow> su_run su = Window \<and> su_policy su = Ask \<and> \<not> su_read_only su"

definition insists :: "launch \<Rightarrow> bool" where
  "insists su \<longleftrightarrow> \<not> su_read_only su \<and> (su_force su \<or> su_policy su = Allow \<or> asked su)"

definition keeps_name :: "launch \<Rightarrow> abs_path \<Rightarrow> proc \<Rightarrow> bool" where
  "keeps_name su state_dir x \<longleftrightarrow> (su_run su = Window \<longrightarrow> (\<exists>kept \<in> set (li_locks (pr_lists x)). ls_name kept = lock_path state_dir))"

definition proc_ok :: "launch \<Rightarrow> abs_path \<Rightarrow> proc \<Rightarrow> bool" where
  "proc_ok su state_dir x =
     (case pr_stage x of
        NotStarted \<Rightarrow> pr_lock x = None
      | Opened forcing f \<Rightarrow> pr_lock x = None \<and> (forcing \<longrightarrow> asked su \<and> keeps_name su state_dir x)
      | Operating insisted \<Rightarrow> keeps_name su state_dir x \<and> (insisted \<longrightarrow> pr_lock x = None \<and> insists su)
          \<and> (\<not> insisted \<longrightarrow> pr_lock x \<noteq> None)
      | Observing \<Rightarrow> pr_lock x = None \<and> keeps_name su state_dir x
      | Asking \<Rightarrow> pr_lock x = None \<and> asked su \<and> keeps_name su state_dir x
      | Gone \<Rightarrow> pr_lock x = None)"

lemma release_lock [simp]: "pr_lock (release x) = None"
  by (auto simp: release_def split: option.split)

lemma window_keeps: "keeps_name su state_dir (open_window state_dir st x)"
  by (auto simp: keeps_name_def open_window_def in_dir_def enter_def)

lemma open_window_fields [simp]: "pr_stage (open_window state_dir st x) = st" "pr_lock (open_window state_dir st x) = pr_lock x"
  by (simp_all add: open_window_def)

lemma after_attempt_ok:
  assumes "forcing \<longrightarrow> asked su \<and> keeps_name su state_dir x" "pr_lock x = None \<longleftrightarrow> st \<noteq> Held"
  shows "proc_ok su state_dir (after_attempt su state_dir forcing st x)"
proof (cases forcing)
  case True
  then show ?thesis using assms by (auto simp: after_attempt_def proc_ok_def keeps_name_def insists_def asked_def)
next
  case False
  then show ?thesis using assms(2) window_keeps [of su state_dir]
    by (cases "su_run su"; cases st; cases "su_policy su"; cases "su_read_only su"; cases "su_force su")
       (simp_all add: after_attempt_def take_role_def decide_def decide_headless_def proc_ok_def insists_def asked_def keeps_name_def)
qed

lemma after_attempt_lock: "pr_lock (after_attempt su state_dir forcing st x) \<in> {pr_lock x, None}"
  by (auto simp: after_attempt_def take_role_def split: kind_of_run.split decision.split)

lemma after_attempt_not_opened: "pr_stage (after_attempt su state_dir forcing st x) \<noteq> Opened b f"
  by (auto simp: after_attempt_def take_role_def split: kind_of_run.split decision.split)

lemma after_open_ok:
  assumes "pr_lock x = None" "forcing \<longrightarrow> asked su \<and> keeps_name su state_dir x"
  shows "proc_ok su state_dir (after_open su state_dir forcing r x)"
proof (cases r)
  case (Inl e)
  then show ?thesis using assms after_attempt_ok [of forcing su state_dir x Unknown]
    by (cases e) (auto simp: after_open_def proc_ok_def insists_def asked_def keeps_name_def)
next
  case (Inr f)
  then show ?thesis using assms by (auto simp: after_open_def proc_ok_def keeps_name_def)
qed

lemma after_open_lock: "pr_lock x = None \<Longrightarrow> pr_lock (after_open su state_dir forcing r x) = None"
  using after_attempt_lock [of su state_dir forcing Unknown x]
  by (auto simp: after_open_def split: sum.split open_error.split)

lemma after_open_opened: "pr_stage (after_open su state_dir forcing r x) = Opened b f \<Longrightarrow> r = Inr f"
  using after_attempt_not_opened [of su state_dir forcing Unknown x]
  by (auto simp: after_open_def split: sum.splits open_error.splits if_splits)

section \<open>The lock file at its name\<close>

definition lock_file_is :: "abs_path \<Rightarrow> tree \<Rightarrow> path_identity \<Rightarrow> bool" where
  "lock_file_is state_dir t f \<longleftrightarrow> identity_at t (lock_path state_dir) = Some f \<and> tr_kind t f \<noteq> KDirectory"

lemma opened_is_lock_file:
  assumes "open_lock_file fault fresh (lock_path state_dir) t = (r, t')"
    and "\<forall>d n. tr_entry t d n \<noteq> Some fresh" "fresh \<noteq> tr_root t"
  shows "(r = Inr f \<longrightarrow> lock_file_is state_dir t' f) \<and> (lock_file_is state_dir t g \<longrightarrow> t' = t)"
proof (cases "fault \<noteq> None \<or> identity_at t (lock_path state_dir) \<noteq> None \<or> \<not> is_dir_at t (butlast (lock_path state_dir))")
  case True
  then show ?thesis using assms(1)
    by (auto simp: open_lock_file_def lock_file_is_def split: option.splits if_splits)
next
  case False
  then obtain d where d: "identity_at t state_dir = Some d" "tr_kind t d = KDirectory"
    using is_dir_at_dest [of t state_dir] by (auto simp: lock_path_def)
  have n: "identity_at t (lock_path state_dir) = None" using False by auto
  then have e: "tr_entry t d ''dedcom.lock'' = None" using d by (simp add: lock_path_def identity_at_append)
  have run: "r = Inr fresh" "t' = t\<lparr>tr_kind := (tr_kind t)(fresh := KRegular), tr_links := (tr_links t)(fresh := 1),
      tr_entry := (tr_entry t)(d := (tr_entry t d)(''dedcom.lock'' \<mapsto> fresh))\<rparr>"
    using assms(1) False d n by (auto simp: open_lock_file_def lock_path_def Let_def)
  have other: "reach t a p = Some y \<Longrightarrow> a \<noteq> fresh \<Longrightarrow> y \<noteq> fresh" for a p y
    using assms(2) by (induction p arbitrary: a) (auto split: if_splits option.splits)
  have same: "reach t' a p = Some y" if "reach t a p = Some y" "a \<noteq> fresh" for a p y
    using that
  proof (induction p arbitrary: a)
    case (Cons m p)
    then obtain b where b: "tr_kind t a = KDirectory" "tr_entry t a m = Some b" "reach t b p = Some y"
      by (auto split: if_splits option.splits)
    then have "(a, m) \<noteq> (d, ''dedcom.lock'')" "b \<noteq> fresh" using e assms(2) by auto
    then show ?case using b Cons by (auto simp: run(2))
  qed (simp add: run(2))
  have "identity_at t' state_dir = Some d" using same d(1) assms(3) by (simp add: identity_at_def run(2))
  moreover have "d \<noteq> fresh" using other d(1) assms(3) by (metis identity_at_def)
  ultimately have "lock_file_is state_dir t' fresh"
    using d(2) by (auto simp: lock_file_is_def lock_path_def identity_at_append run(2))
  then show ?thesis using run(1) n by (auto simp: lock_file_is_def)
qed

section \<open>All of them\<close>

definition system_ok :: "(nat \<Rightarrow> launch) \<Rightarrow> abs_path \<Rightarrow> system \<Rightarrow> bool" where
  "system_ok su state_dir s \<longleftrightarrow>
     (\<forall>p. proc_ok (su p) state_dir (sy_procs s p))
     \<and> (\<forall>p b f. pr_stage (sy_procs s p) = Opened b f \<longrightarrow> lock_file_is state_dir (sy_tree s) f)
     \<and> (\<forall>p f e. pr_lock (sy_procs s p) = Some (f, e) \<longrightarrow> lock_file_is state_dir (sy_tree s) f)
     \<and> (\<forall>p q. pr_lock (sy_procs s p) \<noteq> None \<longrightarrow> pr_lock (sy_procs s q) \<noteq> None \<longrightarrow> p = q)"

lemma system_okD:
  assumes "system_ok su state_dir s"
  shows "proc_ok (su p) state_dir (sy_procs s p)"
    and "pr_stage (sy_procs s p) = Opened b f \<Longrightarrow> lock_file_is state_dir (sy_tree s) f"
    and "pr_lock (sy_procs s p) = Some (f, e) \<Longrightarrow> lock_file_is state_dir (sy_tree s) f"
    and "pr_lock (sy_procs s p) \<noteq> None \<Longrightarrow> pr_lock (sy_procs s q) \<noteq> None \<Longrightarrow> p = q"
  using assms unfolding system_ok_def by blast+

text \<open>One process changes: what is to be shown of it.\<close>

lemma with_proc_ok:
  assumes "system_ok su state_dir s" "proc_ok (su p) state_dir x"
    and "\<And>f. lock_file_is state_dir (sy_tree s) f \<Longrightarrow> lock_file_is state_dir t f"
    and "\<And>b f. pr_stage x = Opened b f \<Longrightarrow> lock_file_is state_dir t f"
    and "\<And>f e. pr_lock x = Some (f, e) \<Longrightarrow> lock_file_is state_dir t f \<and> (\<forall>q. q \<noteq> p \<longrightarrow> pr_lock (sy_procs s q) = None)"
  shows "system_ok su state_dir (with_proc p x (s\<lparr>sy_tree := t\<rparr>))"
  unfolding system_ok_def
proof (intro conjI allI impI)
  fix q show "proc_ok (su q) state_dir (sy_procs (with_proc p x (s\<lparr>sy_tree := t\<rparr>)) q)"
    using assms(1,2) by (simp add: with_proc_def system_okD)
next
  fix q b f assume "pr_stage (sy_procs (with_proc p x (s\<lparr>sy_tree := t\<rparr>)) q) = Opened b f"
  then show "lock_file_is state_dir (sy_tree (with_proc p x (s\<lparr>sy_tree := t\<rparr>))) f"
    using assms(3,4) system_okD(2) [OF assms(1)] by (auto simp: with_proc_def split: if_splits)
next
  fix q f e assume "pr_lock (sy_procs (with_proc p x (s\<lparr>sy_tree := t\<rparr>)) q) = Some (f, e)"
  then show "lock_file_is state_dir (sy_tree (with_proc p x (s\<lparr>sy_tree := t\<rparr>))) f"
    using assms(3,5) system_okD(3) [OF assms(1)] by (auto simp: with_proc_def split: if_splits)
next
  fix q r
  assume h: "pr_lock (sy_procs (with_proc p x (s\<lparr>sy_tree := t\<rparr>)) q) \<noteq> None" "pr_lock (sy_procs (with_proc p x (s\<lparr>sy_tree := t\<rparr>)) r) \<noteq> None"
  have alone: "z = p" if "pr_lock x \<noteq> None" "pr_lock (sy_procs s z) \<noteq> None" for z
  proof -
    obtain f e where fe: "pr_lock x = Some (f, e)" using \<open>pr_lock x \<noteq> None\<close> by auto
    have "\<forall>q. q \<noteq> p \<longrightarrow> pr_lock (sy_procs s q) = None" using assms(5) [OF fe] by (rule conjunct2)
    then have "z \<noteq> p \<longrightarrow> pr_lock (sy_procs s z) = None" by (rule spec)
    then show ?thesis using that(2) by (cases "z = p") simp_all
  qed
  consider "q = p" "r = p" | "q = p" "r \<noteq> p" | "q \<noteq> p" "r = p" | "q \<noteq> p" "r \<noteq> p" by blast
  then show "q = r"
  proof cases
    case 2
    then show ?thesis using h alone [of r] by (simp add: with_proc_def)
  next
    case 3
    then show ?thesis using h alone [of q] by (simp add: with_proc_def)
  next
    case 4
    then have "pr_lock (sy_procs s q) \<noteq> None" "pr_lock (sy_procs s r) \<noteq> None" using h by (simp_all add: with_proc_def)
    then show ?thesis by (rule system_okD(4) [OF assms(1)])
  qed simp
qed

lemma with_proc_ok_here:
  assumes "system_ok su state_dir s" "proc_ok (su p) state_dir x"
    and "\<And>b f. pr_stage x \<noteq> Opened b f"
    and "\<And>f e. pr_lock x = Some (f, e) \<Longrightarrow> lock_file_is state_dir (sy_tree s) f \<and> (\<forall>q. q \<noteq> p \<longrightarrow> pr_lock (sy_procs s q) = None)"
  shows "system_ok su state_dir (with_proc p x s)"
  using with_proc_ok [OF assms(1,2), of "sy_tree s"] assms(3,4) by simp

lemma nobody_else:
  assumes "system_ok su state_dir s" "lock_file_is state_dir (sy_tree s) f" "\<not> held_by_another s p f" "q \<noteq> p"
  shows "pr_lock (sy_procs s q) = None"
proof (rule ccontr)
  assume "pr_lock (sy_procs s q) \<noteq> None"
  then obtain g e where g: "pr_lock (sy_procs s q) = Some (g, e)" by auto
  then have "g = f" using system_okD(3) [OF assms(1) g] assms(2) by (simp add: lock_file_is_def)
  then show False using g assms(3,4) by (auto simp: held_by_another_def)
qed

lemma moves_ok:
  assumes "moves su state_dir s s'" "system_ok su state_dir s"
  shows "system_ok su state_dir s'"
  using assms
proof (induction rule: moves.induct)
  case (opens s p x forcing fault fresh r t)
  have x: "pr_lock x = None" "forcing \<longrightarrow> asked (su p) \<and> keeps_name (su p) state_dir x"
    using system_okD(1) [OF opens.prems, of p] opens(1,2) by (auto simp: proc_ok_def split: if_splits)
  note o = opened_is_lock_file [OF opens(3-5)]
  show ?case
  proof (rule with_proc_ok [OF opens.prems after_open_ok [OF x]])
    show "lock_file_is state_dir t f" if "lock_file_is state_dir (sy_tree s) f" for f using that o by blast
    show "lock_file_is state_dir t f" if "pr_stage (after_open (su p) state_dir forcing r x) = Opened b f" for b f
      using after_open_opened [OF that] o by blast
    show "lock_file_is state_dir t f \<and> (\<forall>q. q \<noteq> p \<longrightarrow> pr_lock (sy_procs s q) = None)"
      if "pr_lock (after_open (su p) state_dir forcing r x) = Some (f, e)" for f e
      using that after_open_lock [OF x(1)] by simp
  qed
next
  case (locks s p x forcing f)
  have x: "forcing \<longrightarrow> asked (su p) \<and> keeps_name (su p) state_dir x"
    using system_okD(1) [OF locks.prems, of p] locks(1,2) by (auto simp: proc_ok_def)
  have at: "lock_file_is state_dir (sy_tree s) f" using system_okD(2) [OF locks.prems, of p forcing f] locks(1,2) by simp
  have h: "pr_lock (holding state_dir f x) = Some (f, li_next_entry (pr_lists x))" "keeps_name (su p) state_dir (holding state_dir f x)"
    by (auto simp: holding_def enter_def keeps_name_def)
  show ?case
  proof (rule with_proc_ok_here [OF locks.prems])
    show "proc_ok (su p) state_dir (after_attempt (su p) state_dir forcing Held (holding state_dir f x))"
      using x h by (intro after_attempt_ok) auto
    show "lock_file_is state_dir (sy_tree s) g \<and> (\<forall>q. q \<noteq> p \<longrightarrow> pr_lock (sy_procs s q) = None)"
      if "pr_lock (after_attempt (su p) state_dir forcing Held (holding state_dir f x)) = Some (g, e)" for g e
    proof -
      have "g = f" using that after_attempt_lock [of "su p" state_dir forcing Held "holding state_dir f x"] h(1) by auto
      then show ?thesis using at nobody_else [OF locks.prems at locks(3)] by blast
    qed
  qed (rule after_attempt_not_opened)
next
  case (finds_busy s p x forcing f)
  have x: "forcing \<longrightarrow> asked (su p) \<and> keeps_name (su p) state_dir x" "pr_lock x = None"
    using system_okD(1) [OF finds_busy.prems, of p] finds_busy(1,2) by (auto simp: proc_ok_def)
  show ?case
    using after_attempt_lock [of "su p" state_dir forcing Busy x] x after_attempt_not_opened
    by (intro with_proc_ok_here [OF finds_busy.prems] after_attempt_ok) auto
next
  case (cannot_tell s p x forcing f)
  have x: "forcing \<longrightarrow> asked (su p) \<and> keeps_name (su p) state_dir x" "pr_lock x = None"
    using system_okD(1) [OF cannot_tell.prems, of p] cannot_tell(1,2) by (auto simp: proc_ok_def)
  show ?case
    using after_attempt_lock [of "su p" state_dir forcing Unknown x] x after_attempt_not_opened
    by (intro with_proc_ok_here [OF cannot_tell.prems] after_attempt_ok) auto
next
  case (observes s p x)
  then have "pr_lock x = None" "keeps_name (su p) state_dir x" using system_okD(1) [OF observes.prems, of p] by (auto simp: proc_ok_def)
  then show ?case by (intro with_proc_ok_here [OF observes.prems]) (auto simp: proc_ok_def keeps_name_def)
next
  case (renames p s insisted refused src dst)
  have kept: "\<exists>kept \<in> set (li_locks (pr_lists (sy_procs s p))). ls_name kept = lock_path state_dir"
    using system_okD(1) [OF renames.prems, of p] renames(1,2) by (auto simp: proc_ok_def keeps_name_def)
  let ?t = "snd (guarded_rename (pr_lists (sy_procs s p)) refused src dst (sy_tree s))"
  have "lock_file_is state_dir ?t f" if "lock_file_is state_dir (sy_tree s) f" for f
    using that kept guarded_rename_keeps [OF surjective_pairing] guarded_rename_kind [OF surjective_pairing]
    unfolding lock_file_is_def by metis
  then show ?case using renames.prems by (auto simp: system_ok_def)
next
  case (quits s p x)
  show ?case by (intro with_proc_ok_here [OF quits.prems]) (auto simp: proc_ok_def)
qed

lemma reachable_ok: "reachable su state_dir s0 s \<Longrightarrow> untouched state_dir s0 \<Longrightarrow> system_ok su state_dir s"
proof (induction rule: reachable.induct)
  case start
  then show ?case by (auto simp: untouched_def system_ok_def proc_ok_def)
next
  case (later s s')
  then show ?case using moves_ok by blast
qed

section \<open>At most one operator nobody insisted on\<close>


definition example_launch :: "nat \<Rightarrow> launch" where
  "example_launch p = \<lparr>su_run = Headless, su_policy = Ask, su_read_only = False, su_force = (p = 1)\<rparr>"

definition not_started :: proc where
  "not_started = \<lparr>pr_stage = NotStarted, pr_lock = None, pr_lists = no_lists\<rparr>"

definition sys0 :: system where
  "sys0 = \<lparr>sy_tree = small_tree, sy_procs = (\<lambda>_. not_started)\<rparr>"

definition sys1 :: system where
  "sys1 = with_proc 0 (not_started\<lparr>pr_stage := Opened False lock_node\<rparr>) sys0"

definition sys2 :: system where
  "sys2 = with_proc 0 (after_attempt (example_launch 0) [''state''] False Held (holding [''state''] lock_node (not_started\<lparr>pr_stage := Opened False lock_node\<rparr>))) sys1"

definition sys3 :: system where
  "sys3 = with_proc 1 (not_started\<lparr>pr_stage := Opened False lock_node\<rparr>) sys2"

definition sys4 :: system where
  "sys4 = with_proc 1 (after_attempt (example_launch 1) [''state''] False Busy (not_started\<lparr>pr_stage := Opened False lock_node\<rparr>)) sys3"

definition fresh_node :: path_identity where
  "fresh_node = \<lparr>pi_device = 1, pi_inode = 99\<rparr>"

lemma fresh_node_is_fresh: "\<forall>d n. tr_entry small_tree d n \<noteq> Some fresh_node" "fresh_node \<noteq> tr_root small_tree" "lock_node \<noteq> fresh_node"
  by (auto simp: small_tree_def fresh_node_def lock_node_def db_node_def state_dir_node_def root_dir_def)

lemma example_open: "open_lock_file None fresh_node (lock_path [''state'']) small_tree = (Inr lock_node, small_tree)"
proof -
  have "identity_at small_tree (lock_path [''state'']) = Some lock_node" by code_simp
  then show ?thesis by (simp add: open_lock_file_def) (simp add: small_tree_def lock_node_def root_dir_def state_dir_node_def)
qed

lemma sys_tree [simp]: "sy_tree sys0 = small_tree" "sy_tree sys1 = small_tree" "sy_tree sys2 = small_tree"
  by (simp_all add: sys0_def sys1_def sys2_def with_proc_def)

lemma sys_procs:
  "sy_procs sys0 = (\<lambda>_. not_started)"
  "sy_procs sys1 0 = not_started\<lparr>pr_stage := Opened False lock_node\<rparr>"
  "sy_procs sys2 0 = after_attempt (example_launch 0) [''state''] False Held (holding [''state''] lock_node (not_started\<lparr>pr_stage := Opened False lock_node\<rparr>))"
  "p \<noteq> 0 \<Longrightarrow> sy_procs sys2 p = not_started"
  "sy_procs sys3 1 = not_started\<lparr>pr_stage := Opened False lock_node\<rparr>"
  "sy_procs sys3 0 = sy_procs sys2 0" "sy_procs sys4 0 = sy_procs sys2 0"
  "sy_procs sys4 1 = after_attempt (example_launch 1) [''state''] False Busy (not_started\<lparr>pr_stage := Opened False lock_node\<rparr>)"
  by (simp_all add: sys0_def sys1_def sys2_def sys3_def sys4_def with_proc_def)

lemma example_lock: "pr_lock (sy_procs sys2 0) = Some (lock_node, 0)"
  unfolding sys_procs by code_simp

lemma example_reachable: "reachable example_launch [''state''] sys0 sys4"
proof -
  have m1: "moves example_launch [''state''] sys0 sys1"
    using moves.opens [of sys0 0 not_started False None fresh_node "[''state'']" "Inr lock_node" small_tree example_launch]
      example_open fresh_node_is_fresh
    by (simp add: sys1_def sys0_def not_started_def after_open_def)
  have m2: "moves example_launch [''state''] sys1 sys2"
    unfolding sys2_def
    by (rule moves.locks) (auto simp: sys_procs not_started_def held_by_another_def sys1_def sys0_def with_proc_def)
  have m3: "moves example_launch [''state''] sys2 sys3"
  proof -
    have "\<forall>q f e. pr_lock (sy_procs sys2 q) = Some (f, e) \<longrightarrow> f \<noteq> fresh_node"
    proof (intro allI impI)
      fix q f e assume "pr_lock (sy_procs sys2 q) = Some (f, e)"
      then show "f \<noteq> fresh_node" using example_lock sys_procs(4) [of q] fresh_node_is_fresh(3)
        by (cases "q = 0") (auto simp: not_started_def)
    qed
    then show ?thesis
      using moves.opens [of sys2 1 not_started False None fresh_node "[''state'']" "Inr lock_node" small_tree example_launch]
        example_open fresh_node_is_fresh sys_procs(4) [of 1]
      by (simp add: sys3_def not_started_def after_open_def) (simp add: sys2_def sys1_def sys0_def with_proc_def)
  qed
  have m4: "moves example_launch [''state''] sys3 sys4"
    unfolding sys4_def
    by (rule moves.finds_busy) (use example_lock in \<open>auto simp: sys_procs sys_procs(5) [simplified] not_started_def held_by_another_def\<close>)
  show ?thesis using m1 m2 m3 m4 reachable.intros by meson
qed


end
