(* ===== verification/Lease.thy ===== *)
theory Lease
  imports Plan_Build
begin

text \<open>
  The membership lease of \<open>state/store.rs\<close>: before a batch begins, the witness its plan carries (which
  groups of which publication it was folded from, with their digests and members) is compared with the
  database, in one write transaction that is held until the batch is over. The tables are the columns the
  statements read; a cell that is no key may hold a value of any storage class, the keys are distinct. The
  two validation statements are the lists of rows they return; each read may fail.
\<close>

section \<open>The tables\<close>

datatype sql_value = SNull | SInteger i64 | SReal | SText string | SBlob string

record group_row =
  gr_rank :: i64
  gr_hash :: sql_value
  gr_count :: sql_value

record member_row =
  mr_rank :: i64
  mr_path :: string
  mr_generation :: sql_value

record file_row =
  fr_path :: string
  fr_hash :: sql_value

record scan_tables =
  st_authority :: "(sql_value \<times> sql_value) option"
  st_groups :: "group_row list"
  st_members :: "member_row list"
  st_files :: "file_row list"

type_synonym database = "i64 \<Rightarrow> scan_tables option"

definition tables_ok :: "scan_tables \<Rightarrow> bool" where
  "tables_ok st \<longleftrightarrow>
     distinct (map gr_rank (st_groups st)) \<and> distinct (map (\<lambda>m. (mr_rank m, mr_path m)) (st_members st))
     \<and> distinct (map fr_path (st_files st))"

text \<open>SQLite's \<open>unhex\<close>: two hexadecimal digits per byte, nothing else.\<close>

definition hex_value :: "char \<Rightarrow> nat option" where
  "hex_value c =
     (let n = of_char c in
      if 48 \<le> n \<and> n \<le> 57 then Some (n - 48)
      else if 65 \<le> n \<and> n \<le> 70 then Some (n - 55)
      else if 97 \<le> n \<and> n \<le> 102 then Some (n - 87)
      else None)"

fun unhex :: "string \<Rightarrow> string option" where
  "unhex [] = Some []"
| "unhex [c] = None"
| "unhex (c # d # cs) =
     (case (hex_value c, hex_value d, unhex cs) of
        (Some h, Some l, Some bs) \<Rightarrow> Some (char_of (16 * h + l) # bs)
      | _ \<Rightarrow> None)"

section \<open>Refusals\<close>

datatype inconsistency =
    NoGroups
  | OtherScan i64
  | OtherGeneration i64
  | NegativeRank i64
  | WitnessedTwice i64
  | NoMembers i64
  | BadMode
  | BadGeneration
  | Unwitnessed i64
  | NoSummary i64
  | Miscounted i64 int nat
  | MemberGeneration i64 i64
  | MemberDigest i64 string nat
  | DuplicateDigests nat
  | NoManifest i64 string
  | DuplicatePaths nat
  | NotCovered nat nat
  | DerivedWithMembers

datatype lease_refusal =
    LeaseOpen string
  | LeaseSchema string
  | DatabaseBusy
  | ReadOnlyRole
  | NoSuchScan
  | UnknownMembership
  | Stale i64 i64
  | RankMissing i64
  | DigestChanged i64 string string
  | MemberCountChanged i64 nat nat
  | MembershipChanged path
  | Inconsistent inconsistency
  | StoreFailed string

datatype lease_step = BeginImmediate | ReadScan | ReadAuthority | PrepareRows | ReadRow nat | ReadMembers

record lease_io =
  lio_busy :: bool
  lio_fault :: "lease_step \<Rightarrow> string option"

definition reading :: "lease_io \<Rightarrow> lease_step \<Rightarrow> lease_refusal + unit" where
  "reading io s = (case lio_fault io s of None \<Rightarrow> Inr () | Some d \<Rightarrow> Inl (StoreFailed d))"

section \<open>The authority of a scan\<close>

datatype membership_mode = Derived | Explicit

definition decode_authority :: "sql_value \<Rightarrow> sql_value \<Rightarrow> inconsistency + membership_mode \<times> i64" where
  "decode_authority mode_value generation_value =
     rbind (case mode_value of
        SInteger m \<Rightarrow> if m = 1 then Inr Derived else if m = 2 then Inr Explicit else Inl BadMode
      | _ \<Rightarrow> Inl BadMode) (\<lambda>mode.
     case generation_value of
       SInteger g \<Rightarrow> if 0 < sint g then Inr (mode, g) else Inl BadGeneration
     | _ \<Rightarrow> Inl BadGeneration)"

section \<open>The validation statements\<close>

record lease_row =
  lr_rank :: i64
  lr_want :: string
  lr_hash :: sql_value
  lr_count :: sql_value
  lr_path :: "string option"
  lr_generation :: sql_value
  lr_observed :: nat
  lr_has_manifest :: bool
  lr_duplicates :: nat
  lr_digest_state :: nat

definition summary_of :: "scan_tables \<Rightarrow> i64 \<Rightarrow> group_row option" where
  "summary_of st rank = find (\<lambda>g. gr_rank g = rank) (st_groups st)"

definition manifest_of :: "scan_tables \<Rightarrow> string \<Rightarrow> file_row option" where
  "manifest_of st p = find (\<lambda>f. fr_path f = p) (st_files st)"

definition decoded_hash :: "sql_value \<Rightarrow> string option" where
  "decoded_hash v = (case v of SText t \<Rightarrow> unhex t | _ \<Rightarrow> None)"

text \<open>\<open>digest_state\<close>: the \<open>CASE\<close> of the explicit statement.\<close>

definition digest_state :: "file_row option \<Rightarrow> sql_value \<Rightarrow> nat" where
  "digest_state f group_hash =
     (case f of
        None \<Rightarrow> 0
      | Some f \<Rightarrow>
          (case fr_hash f of
             SNull \<Rightarrow> 1
           | SBlob b \<Rightarrow>
               if length b \<noteq> 32 then 3
               else (case decoded_hash group_hash of None \<Rightarrow> 4 | Some d \<Rightarrow> if b \<noteq> d then 5 else 6)
           | _ \<Rightarrow> 2))"

text \<open>How many values occur more than once: \<open>GROUP BY \<dots> HAVING COUNT(*) > 1\<close>.\<close>

definition repeated :: "'a list \<Rightarrow> nat" where
  "repeated xs = length (filter (\<lambda>x. 1 < count_list xs x) (remdups xs))"

definition base_row :: "scan_tables \<Rightarrow> group_witness \<Rightarrow> lease_row" where
  "base_row st g =
     \<lparr>lr_rank = gid_rank (gw_id g), lr_want = gw_digest g,
      lr_hash = (case summary_of st (gid_rank (gw_id g)) of None \<Rightarrow> SNull | Some s \<Rightarrow> gr_hash s),
      lr_count = (case summary_of st (gid_rank (gw_id g)) of None \<Rightarrow> SNull | Some s \<Rightarrow> gr_count s),
      lr_path = None, lr_generation = SNull, lr_observed = 0, lr_has_manifest = False, lr_duplicates = 0, lr_digest_state = 0\<rparr>"

definition explicit_rows :: "scan_tables \<Rightarrow> group_witness \<Rightarrow> lease_row list" where
  "explicit_rows st g =
     (let base = (base_row st g)\<lparr>lr_duplicates := repeated (map mr_path (st_members st))\<rparr>;
          members = sort_key mr_path (filter (\<lambda>m. mr_rank m = gid_rank (gw_id g)) (st_members st)) in
      if members = [] then [base]
      else map (\<lambda>m. base\<lparr>lr_path := Some (mr_path m), lr_generation := mr_generation m, lr_observed := length members,
             lr_has_manifest := manifest_of st (mr_path m) \<noteq> None,
             lr_digest_state := digest_state (manifest_of st (mr_path m)) (lr_hash base)\<rparr>) members)"

definition derived_files :: "scan_tables \<Rightarrow> sql_value \<Rightarrow> file_row list" where
  "derived_files st h =
     (case decoded_hash h of None \<Rightarrow> [] | Some d \<Rightarrow> sort_key fr_path (filter (\<lambda>f. fr_hash f = SBlob d) (st_files st)))"

definition derived_rows :: "scan_tables \<Rightarrow> group_witness \<Rightarrow> lease_row list" where
  "derived_rows st g =
     (let base = (base_row st g)\<lparr>lr_duplicates := repeated (map gr_hash (st_groups st))\<rparr>;
          files = derived_files st (lr_hash base) in
      if files = [] then [base]
      else map (\<lambda>f. base\<lparr>lr_path := Some (fr_path f), lr_observed := length files\<rparr>) files)"

definition by_rank :: "plan_witness \<Rightarrow> group_witness list" where
  "by_rank w = sort_key (\<lambda>g. sint (gid_rank (gw_id g))) (pw_groups w)"

section \<open>Reading the rows\<close>

definition MEMBER_DIGEST_OK :: nat where
  "MEMBER_DIGEST_OK = 6"

record witnessed_rank =
  wr_rank :: i64
  wr_witness_digest :: string
  wr_current_digest :: "string option"
  wr_members :: "(string \<times> i64 option \<times> nat) list"
  wr_declared :: "i64 option"
  wr_observed :: nat

definition check_member_row :: "i64 \<Rightarrow> path list \<Rightarrow> i64 option \<Rightarrow> string \<times> i64 option \<times> nat \<Rightarrow> lease_refusal + unit" where
  "check_member_row rank witnessed generation = (\<lambda>(p, member_generation, state).
     if components p \<notin> set witnessed then Inl (MembershipChanged (components p))
     else if (case (generation, member_generation) of (Some expected, Some found) \<Rightarrow> found \<noteq> expected | _ \<Rightarrow> False)
       then Inl (Inconsistent (MemberGeneration rank (the member_generation)))
     else if state \<in> {1, 2, 3, 4, 5} then Inl (Inconsistent (MemberDigest rank p state))
     else Inr ())"

definition check_witnessed_rank :: "group_witness list \<Rightarrow> i64 option \<Rightarrow> witnessed_rank \<Rightarrow> lease_refusal + unit" where
  "check_witnessed_rank index generation c =
     (case find (\<lambda>g. gid_rank (gw_id g) = wr_rank c) index of
        None \<Rightarrow> Inl (Inconsistent (Unwitnessed (wr_rank c)))
      | Some g \<Rightarrow>
          (case wr_current_digest c of
             None \<Rightarrow> if wr_members c = [] then Inl (RankMissing (wr_rank c)) else Inl (Inconsistent (NoSummary (wr_rank c)))
           | Some current \<Rightarrow>
               let declared = (case wr_declared c of None \<Rightarrow> -1 | Some n \<Rightarrow> sint n) in
               if current \<noteq> wr_witness_digest c then Inl (DigestChanged (wr_rank c) (wr_witness_digest c) current)
               else if declared \<noteq> int (wr_observed c) then Inl (Inconsistent (Miscounted (wr_rank c) declared (wr_observed c)))
               else if wr_observed c \<noteq> length (gw_members g)
                 then Inl (MemberCountChanged (wr_rank c) (length (gw_members g)) (wr_observed c))
               else
                 rbind (rfold (\<lambda>_. check_member_row (wr_rank c) (gw_members g) generation) () (wr_members c)) (\<lambda>_.
                 case find (\<lambda>p. p \<notin> components ` fst ` set (wr_members c)) (gw_members g) of
                   Some p \<Rightarrow> Inl (MembershipChanged p)
                 | None \<Rightarrow> Inr ())))"

text \<open>\<open>row.get\<close> of the columns; a cell of another storage class is an error of the store.\<close>

definition text_cell :: "sql_value \<Rightarrow> lease_refusal + string option" where
  "text_cell v = (case v of SNull \<Rightarrow> Inr None | SText t \<Rightarrow> Inr (Some t) | _ \<Rightarrow> Inl (StoreFailed ''invalid column type''))"

definition integer_cell :: "sql_value \<Rightarrow> lease_refusal + i64 option" where
  "integer_cell v = (case v of SNull \<Rightarrow> Inr None | SInteger n \<Rightarrow> Inr (Some n) | _ \<Rightarrow> Inl (StoreFailed ''invalid column type''))"

definition read_lease_row :: "bool \<Rightarrow> lease_row \<Rightarrow> lease_refusal + (string option \<times> i64 option \<times> (string \<times> i64 option \<times> nat) option)" where
  "read_lease_row explicit r =
     rbind (text_cell (lr_hash r)) (\<lambda>current.
     rbind (integer_cell (lr_count r)) (\<lambda>declared.
     rbind (if explicit then integer_cell (lr_generation r) else Inr None) (\<lambda>generation.
     rbind
       (if explicit then
          (if lr_path r \<noteq> None \<and> \<not> lr_has_manifest r then Inl (Inconsistent (NoManifest (lr_rank r) (the (lr_path r))))
           else if lr_duplicates r \<noteq> 0 then Inl (Inconsistent (DuplicatePaths (lr_duplicates r)))
           else Inr (lr_digest_state r))
        else if lr_duplicates r \<noteq> 0 then Inl (Inconsistent (DuplicateDigests (lr_duplicates r)))
        else Inr MEMBER_DIGEST_OK) (\<lambda>state.
     Inr (current, declared, map_option (\<lambda>p. (p, generation, state)) (lr_path r))))))"

definition open_rank :: "lease_row \<Rightarrow> string option \<Rightarrow> i64 option \<Rightarrow> witnessed_rank" where
  "open_rank r current declared =
     \<lparr>wr_rank = lr_rank r, wr_witness_digest = lr_want r, wr_current_digest = current, wr_members = [],
      wr_declared = declared, wr_observed = lr_observed r\<rparr>"

definition add_row_member :: "(string \<times> i64 option \<times> nat) option \<Rightarrow> witnessed_rank \<Rightarrow> witnessed_rank" where
  "add_row_member m c = (case m of None \<Rightarrow> c | Some m \<Rightarrow> c\<lparr>wr_members := wr_members c @ [m]\<rparr>)"

fun stream_witnessed_ranks ::
  "lease_io \<Rightarrow> group_witness list \<Rightarrow> i64 option \<Rightarrow> bool \<Rightarrow> nat \<Rightarrow> nat \<Rightarrow> witnessed_rank option \<Rightarrow> lease_row list \<Rightarrow> lease_refusal + nat" where
  "stream_witnessed_ranks io index generation explicit i seen current [] =
     rbind (reading io (ReadRow i)) (\<lambda>_.
     case current of
       None \<Rightarrow> Inr seen
     | Some c \<Rightarrow> rbind (check_witnessed_rank index generation c) (\<lambda>_. Inr (seen + 1)))"
| "stream_witnessed_ranks io index generation explicit i seen current (r # rows) =
     rbind (reading io (ReadRow i)) (\<lambda>_.
     rbind (read_lease_row explicit r) (\<lambda>(digest, declared, m).
     case current of
       None \<Rightarrow> stream_witnessed_ranks io index generation explicit (i + 1) seen (Some (add_row_member m (open_rank r digest declared))) rows
     | Some c \<Rightarrow>
         if wr_rank c = lr_rank r
         then stream_witnessed_ranks io index generation explicit (i + 1) seen (Some (add_row_member m c)) rows
         else rbind (check_witnessed_rank index generation c) (\<lambda>_.
           stream_witnessed_ranks io index generation explicit (i + 1) (seen + 1) (Some (add_row_member m (open_rank r digest declared))) rows)))"

section \<open>The lease\<close>

definition validate_rows :: "lease_io \<Rightarrow> plan_witness \<Rightarrow> i64 option \<Rightarrow> bool \<Rightarrow> lease_row list \<Rightarrow> lease_refusal + unit" where
  "validate_rows io w generation explicit rows =
     rbind (reading io PrepareRows) (\<lambda>_.
     rbind (stream_witnessed_ranks io (pw_groups w) generation explicit 0 0 None rows) (\<lambda>seen.
     if seen \<noteq> length (pw_groups w) then Inl (Inconsistent (NotCovered seen (length (pw_groups w)))) else Inr ()))"

definition validate_explicit_witness :: "lease_io \<Rightarrow> scan_tables \<Rightarrow> plan_witness \<Rightarrow> i64 \<Rightarrow> lease_refusal + unit" where
  "validate_explicit_witness io st w generation =
     validate_rows io w (Some generation) True (concat (map (explicit_rows st) (by_rank w)))"

definition validate_derived_witness :: "lease_io \<Rightarrow> scan_tables \<Rightarrow> plan_witness \<Rightarrow> lease_refusal + unit" where
  "validate_derived_witness io st w =
     rbind (validate_rows io w None False (concat (map (derived_rows st) (by_rank w)))) (\<lambda>_.
     rbind (reading io ReadMembers) (\<lambda>_.
     if st_members st \<noteq> [] then Inl (Inconsistent DerivedWithMembers) else Inr ()))"

definition validate_lease_witness :: "lease_io \<Rightarrow> database \<Rightarrow> plan_witness \<Rightarrow> lease_refusal + unit" where
  "validate_lease_witness io db w =
     rbind (reading io ReadScan) (\<lambda>_.
     case db (pw_scan_id w) of
       None \<Rightarrow> Inl NoSuchScan
     | Some st \<Rightarrow>
         rbind (reading io ReadAuthority) (\<lambda>_.
         case st_authority st of
           None \<Rightarrow> Inl UnknownMembership
         | Some (mode_value, generation_value) \<Rightarrow>
             rbind (map_err Inconsistent (decode_authority mode_value generation_value)) (\<lambda>(mode, generation).
             if generation \<noteq> pw_generation w then Inl (Stale (pw_generation w) generation)
             else (case mode of
                 Explicit \<Rightarrow> validate_explicit_witness io st w generation
               | Derived \<Rightarrow> validate_derived_witness io st w))))"

definition check_witnessed_group :: "plan_witness \<Rightarrow> i64 list \<Rightarrow> group_witness \<Rightarrow> lease_refusal + i64 list" where
  "check_witnessed_group w ranks g =
     (let rank = gid_rank (gw_id g) in
      if gid_scan (gw_id g) \<noteq> pw_scan_id w then Inl (Inconsistent (OtherScan rank))
      else if gid_generation (gw_id g) \<noteq> pw_generation w then Inl (Inconsistent (OtherGeneration rank))
      else if sint rank < 0 then Inl (Inconsistent (NegativeRank rank))
      else if rank \<in> set ranks then Inl (Inconsistent (WitnessedTwice rank))
      else if gw_members g = [] then Inl (Inconsistent (NoMembers rank))
      else Inr (rank # ranks))"

definition acquire_membership_lease :: "lease_io \<Rightarrow> database \<Rightarrow> plan_witness \<Rightarrow> lease_refusal + unit" where
  "acquire_membership_lease io db w =
     (if pw_groups w = [] then Inl (Inconsistent NoGroups)
      else
        rbind (rfold (check_witnessed_group w) [] (pw_groups w)) (\<lambda>_.
        if lio_busy io then Inl DatabaseBusy
        else rbind (reading io BeginImmediate) (\<lambda>_. validate_lease_witness io db w)))"

end
