(* ===== verification/Lease_Props.thy ===== *)
theory Lease_Props
  imports Lease
begin

text \<open>
  What a granted lease means, in terms of the tables: the publication the plan was folded from is still
  the scan's, and every group it rests on still has the digest, the number and the very members it had.
\<close>

section \<open>The witness itself\<close>

definition witness_ok :: "plan_witness \<Rightarrow> bool" where
  "witness_ok w \<longleftrightarrow>
     pw_groups w \<noteq> [] \<and> distinct (map (\<lambda>g. gid_rank (gw_id g)) (pw_groups w))
     \<and> (\<forall>g \<in> set (pw_groups w). gid_scan (gw_id g) = pw_scan_id w \<and> gid_generation (gw_id g) = pw_generation w
          \<and> 0 \<le> sint (gid_rank (gw_id g)) \<and> gw_members g \<noteq> [])"

lemma check_groups_Inr:
  "(\<exists>rs. rfold (check_witnessed_group w) ranks gs = Inr rs) \<longleftrightarrow>
     distinct (map (\<lambda>g. gid_rank (gw_id g)) gs) \<and> set ranks \<inter> (\<lambda>g. gid_rank (gw_id g)) ` set gs = {}
     \<and> (\<forall>g \<in> set gs. gid_scan (gw_id g) = pw_scan_id w \<and> gid_generation (gw_id g) = pw_generation w
          \<and> 0 \<le> sint (gid_rank (gw_id g)) \<and> gw_members g \<noteq> [])"
proof (induction gs arbitrary: ranks)
  case (Cons g gs)
  have "(\<exists>rs. rfold (check_witnessed_group w) ranks (g # gs) = Inr rs) \<longleftrightarrow>
      check_witnessed_group w ranks g = Inr (gid_rank (gw_id g) # ranks)
      \<and> (\<exists>rs. rfold (check_witnessed_group w) (gid_rank (gw_id g) # ranks) gs = Inr rs)"
    by (auto simp: check_witnessed_group_def Let_def split: if_splits)
  also have "check_witnessed_group w ranks g = Inr (gid_rank (gw_id g) # ranks) \<longleftrightarrow>
      gid_scan (gw_id g) = pw_scan_id w \<and> gid_generation (gw_id g) = pw_generation w
        \<and> 0 \<le> sint (gid_rank (gw_id g)) \<and> gid_rank (gw_id g) \<notin> set ranks \<and> gw_members g \<noteq> []"
    by (auto simp: check_witnessed_group_def Let_def)
  finally show ?case unfolding Cons.IH by auto
qed simp

section \<open>The rows, rank by rank\<close>

lemma reading_Inr [simp]: "reading io s = Inr u \<longleftrightarrow> lio_fault io s = None"
  by (auto simp: reading_def split: option.split)

definition decoded :: "bool \<Rightarrow> lease_row \<Rightarrow> string option \<times> i64 option \<times> (string \<times> i64 option \<times> nat) option" where
  "decoded explicit r = projr (read_lease_row explicit r)"

fun blocks :: "bool \<Rightarrow> witnessed_rank option \<Rightarrow> lease_row list \<Rightarrow> witnessed_rank list" where
  "blocks explicit current [] = (case current of None \<Rightarrow> [] | Some c \<Rightarrow> [c])"
| "blocks explicit current (r # rows) =
     (case decoded explicit r of (digest, declared, m) \<Rightarrow>
        (case current of
           None \<Rightarrow> blocks explicit (Some (add_row_member m (open_rank r digest declared))) rows
         | Some c \<Rightarrow>
             if wr_rank c = lr_rank r then blocks explicit (Some (add_row_member m c)) rows
             else c # blocks explicit (Some (add_row_member m (open_rank r digest declared))) rows))"

lemma all_le_Suc: "(\<forall>k \<le> Suc n. P k) \<longleftrightarrow> P 0 \<and> (\<forall>k \<le> n. P (Suc k))"
  using All_less_Suc2 [of "Suc n" P] by (simp add: less_Suc_eq_le)

lemma stream_Inr:
  "stream_witnessed_ranks io index generation explicit i seen current rows = Inr n \<longleftrightarrow>
     (\<forall>k \<le> length rows. lio_fault io (ReadRow (i + k)) = None)
     \<and> (\<forall>r \<in> set rows. \<exists>x. read_lease_row explicit r = Inr x)
     \<and> (\<forall>c \<in> set (blocks explicit current rows). check_witnessed_rank index generation c = Inr ())
     \<and> n = seen + length (blocks explicit current rows)"
proof (induction rows arbitrary: i seen current)
  case Nil
  then show ?case by (cases current) (auto simp: result_simps)
next
  case (Cons r rows)
  have split: "(\<forall>k \<le> length (r # rows). lio_fault io (ReadRow (i + k)) = None) \<longleftrightarrow>
      lio_fault io (ReadRow i) = None \<and> (\<forall>k \<le> length rows. lio_fault io (ReadRow (i + 1 + k)) = None)"
    using all_le_Suc [of "length rows" "\<lambda>k. lio_fault io (ReadRow (i + k)) = None"] by simp
  show ?case
  proof (cases "read_lease_row explicit r")
    case (Inl e)
    then show ?thesis by (auto simp: result_simps)
  next
    case (Inr x)
    obtain digest declared m where x: "x = (digest, declared, m)" by (cases x)
    then have d: "decoded explicit r = (digest, declared, m)" using Inr by (simp add: decoded_def)
    show ?thesis
      using Inr unfolding split x by (cases current) (auto simp: result_simps d Cons.IH)
  qed
qed

lemma blocks_same:
  assumes "\<forall>r \<in> set rs. lr_rank r = wr_rank c"
  shows "blocks explicit (Some c) (rs @ rest) =
    blocks explicit (Some (c\<lparr>wr_members := wr_members c @ List.map_filter (\<lambda>r. snd (snd (decoded explicit r))) rs\<rparr>)) rest"
  using assms
proof (induction rs arbitrary: c)
  case (Cons r rs)
  obtain digest declared m where d: "decoded explicit r = (digest, declared, m)" by (cases "decoded explicit r")
  have "wr_rank (add_row_member m c) = wr_rank c" by (simp add: add_row_member_def split: option.split)
  then have "\<forall>r \<in> set rs. lr_rank r = wr_rank (add_row_member m c)" using Cons.prems by simp
  from Cons.IH [OF this] show ?case
    using Cons.prems d by (cases m) (simp_all add: add_row_member_def List.map_filter_simps)
qed (simp add: List.map_filter_simps)

definition one_block :: "bool \<Rightarrow> lease_row list \<Rightarrow> witnessed_rank" where
  "one_block explicit rs =
     (case decoded explicit (hd rs) of (digest, declared, _) \<Rightarrow>
        (open_rank (hd rs) digest declared)\<lparr>wr_members := List.map_filter (\<lambda>r. snd (snd (decoded explicit r))) rs\<rparr>)"

lemma wr_rank_one_block [simp]: "wr_rank (one_block explicit rs) = lr_rank (hd rs)"
  by (simp add: one_block_def open_rank_def split: prod.split)

lemma blocks_first:
  assumes "rs \<noteq> []" "\<forall>r \<in> set rs. lr_rank r = lr_rank (hd rs)" "current = None \<or> wr_rank (the current) \<noteq> lr_rank (hd rs)"
  shows "blocks explicit current (rs @ rest) = (case current of None \<Rightarrow> [] | Some c \<Rightarrow> [c]) @ blocks explicit (Some (one_block explicit rs)) rest"
proof -
  obtain r rs' where rs: "rs = r # rs'" using assms(1) by (cases rs) auto
  obtain digest declared m where d: "decoded explicit r = (digest, declared, m)" by (cases "decoded explicit r")
  let ?c = "add_row_member m (open_rank r digest declared)"
  have c: "wr_rank ?c = lr_rank r" by (simp add: add_row_member_def open_rank_def split: option.split)
  have "blocks explicit current (rs @ rest) = (case current of None \<Rightarrow> [] | Some c \<Rightarrow> [c]) @ blocks explicit (Some ?c) (rs' @ rest)"
  proof (cases current)
    case None
    then show ?thesis by (simp add: rs d)
  next
    case (Some b)
    then have "wr_rank b \<noteq> lr_rank r" using assms(3) rs by simp
    then show ?thesis by (simp add: rs d Some)
  qed
  also have "blocks explicit (Some ?c) (rs' @ rest) = blocks explicit (Some (one_block explicit rs)) rest"
  proof -
    have "\<forall>x \<in> set rs'. lr_rank x = wr_rank ?c" unfolding c using assms(2) unfolding rs list.sel by simp
    note blocks_same [OF this, of explicit rest]
    moreover have "?c\<lparr>wr_members := wr_members ?c @ List.map_filter (\<lambda>r. snd (snd (decoded explicit r))) rs'\<rparr> = one_block explicit rs"
      by (cases m) (simp_all add: rs d one_block_def add_row_member_def open_rank_def List.map_filter_simps)
    ultimately show ?thesis by simp
  qed
  finally show ?thesis .
qed

lemma blocks_concat:
  assumes "\<forall>g \<in> set gs. f g \<noteq> [] \<and> (\<forall>r \<in> set (f g). lr_rank r = rank g)" "distinct (map rank gs)"
    and "current = None \<or> wr_rank (the current) \<notin> rank ` set gs"
  shows "blocks explicit current (concat (map f gs)) =
    (case current of None \<Rightarrow> [] | Some c \<Rightarrow> [c]) @ map (\<lambda>g. one_block explicit (f g)) gs"
  using assms
proof (induction gs arbitrary: current)
  case (Cons g gs)
  have g: "f g \<noteq> []" "\<forall>r \<in> set (f g). lr_rank r = lr_rank (hd (f g))" "lr_rank (hd (f g)) = rank g"
    using Cons.prems(1) by auto
  have "blocks explicit current (f g @ concat (map f gs)) =
      (case current of None \<Rightarrow> [] | Some c \<Rightarrow> [c]) @ blocks explicit (Some (one_block explicit (f g))) (concat (map f gs))"
    using Cons.prems(3) g by (intro blocks_first) auto
  also have "blocks explicit (Some (one_block explicit (f g))) (concat (map f gs)) = one_block explicit (f g) # map (\<lambda>g. one_block explicit (f g)) gs"
    using Cons.IH [of "Some (one_block explicit (f g))"] Cons.prems(1,2) g(3) by auto
  finally show ?case by simp
qed simp

section \<open>One group\<close>

text \<open>What the tables hold of a group: the paths of its members, by the mode of the publication.\<close>

definition live_members :: "scan_tables \<Rightarrow> membership_mode \<Rightarrow> group_witness \<Rightarrow> string list" where
  "live_members st mode g =
     (case mode of
        Explicit \<Rightarrow> map mr_path (filter (\<lambda>m. mr_rank m = gid_rank (gw_id g)) (st_members st))
      | Derived \<Rightarrow>
          (case unhex (gw_digest g) of
             None \<Rightarrow> []
           | Some d \<Rightarrow> map fr_path (filter (\<lambda>f. fr_hash f = SBlob d) (st_files st))))"

definition group_current :: "scan_tables \<Rightarrow> membership_mode \<Rightarrow> i64 \<Rightarrow> group_witness \<Rightarrow> bool" where
  "group_current st mode generation g \<longleftrightarrow>
     (\<exists>s n. summary_of st (gid_rank (gw_id g)) = Some s \<and> gr_hash s = SText (gw_digest g)
        \<and> gr_count s = SInteger n \<and> sint n = int (length (gw_members g)))
     \<and> length (live_members st mode g) = length (gw_members g)
     \<and> components ` set (live_members st mode g) = set (gw_members g)
     \<and> (mode = Explicit \<longrightarrow>
          (\<forall>m \<in> set (st_members st). mr_rank m = gid_rank (gw_id g) \<longrightarrow>
             mr_generation m \<in> {SInteger generation, SNull}
             \<and> (\<exists>f d. manifest_of st (mr_path m) = Some f \<and> fr_hash f = SBlob d \<and> length d = 32 \<and> unhex (gw_digest g) = Some d)))"

lemma repeated_0 [simp]: "repeated xs = 0 \<longleftrightarrow> distinct xs"
proof -
  have "repeated xs = 0 \<longleftrightarrow> (\<forall>x \<in> set xs. count_list xs x \<le> 1)"
    by (auto simp: repeated_def filter_empty_conv not_less)
  also have "\<dots> \<longleftrightarrow> distinct xs"
    by (induction xs) (auto simp: count_list_0_iff le_Suc_eq split: if_splits)
  finally show ?thesis .
qed

definition text_of :: "sql_value \<Rightarrow> string option" where
  "text_of v = (case v of SText t \<Rightarrow> Some t | _ \<Rightarrow> None)"

definition integer_of :: "sql_value \<Rightarrow> i64 option" where
  "integer_of v = (case v of SInteger n \<Rightarrow> Some n | _ \<Rightarrow> None)"

lemma cell_of_Some: "text_of v = Some t \<longleftrightarrow> v = SText t" "integer_of v = Some n \<longleftrightarrow> v = SInteger n"
  by (auto simp: text_of_def integer_of_def split: sql_value.splits)

lemma cells_Inr:
  "text_cell v = Inr x \<longleftrightarrow> (v = SNull \<or> (\<exists>t. v = SText t)) \<and> x = text_of v"
  "integer_cell v = Inr y \<longleftrightarrow> (v = SNull \<or> (\<exists>n. v = SInteger n)) \<and> y = integer_of v"
  by (auto simp: text_cell_def text_of_def integer_cell_def integer_of_def split: sql_value.split)

lemma read_lease_row_Inr:
  "read_lease_row explicit r = Inr x \<longleftrightarrow>
     (lr_hash r = SNull \<or> (\<exists>t. lr_hash r = SText t)) \<and> (lr_count r = SNull \<or> (\<exists>n. lr_count r = SInteger n))
     \<and> (explicit \<longrightarrow> (lr_generation r = SNull \<or> (\<exists>n. lr_generation r = SInteger n)) \<and> (lr_path r = None \<or> lr_has_manifest r))
     \<and> lr_duplicates r = 0
     \<and> x = (text_of (lr_hash r), integer_of (lr_count r),
            map_option (\<lambda>p. (p, if explicit then integer_of (lr_generation r) else None,
              if explicit then lr_digest_state r else MEMBER_DIGEST_OK)) (lr_path r))"
  by (cases explicit) (auto simp: read_lease_row_def result_simps cells_Inr)

definition same_generation :: "i64 option \<Rightarrow> i64 option \<Rightarrow> bool" where
  "same_generation x y \<longleftrightarrow> x = None \<or> y = None \<or> x = y"

text \<open>The check of one rank, as a statement about what was read of it.\<close>

lemma check_rank_Inr:
  assumes "find (\<lambda>g. gid_rank (gw_id g) = wr_rank c) index = Some g"
  shows "check_witnessed_rank index generation c = Inr () \<longleftrightarrow>
    (\<exists>n. wr_current_digest c = Some (wr_witness_digest c) \<and> wr_declared c = Some n \<and> sint n = int (wr_observed c))
    \<and> wr_observed c = length (gw_members g) \<and> components ` fst ` set (wr_members c) = set (gw_members g)
    \<and> (\<forall>m \<in> set (wr_members c). snd (snd m) \<notin> {1, 2, 3, 4, 5} \<and> same_generation generation (fst (snd m)))"
proof -
  have member: "check_member_row (wr_rank c) (gw_members g) generation m = Inr () \<longleftrightarrow>
      components (fst m) \<in> set (gw_members g) \<and> snd (snd m) \<notin> {1, 2, 3, 4, 5}
      \<and> same_generation generation (fst (snd m))" for m
    by (cases m; cases generation; cases "fst (snd m)") (auto simp: check_member_row_def same_generation_def)
  have members: "(\<exists>u. rfold (\<lambda>_. check_member_row (wr_rank c) (gw_members g) generation) () ms = Inr u) \<longleftrightarrow>
      (\<forall>m \<in> set ms. check_member_row (wr_rank c) (gw_members g) generation m = Inr ())" for ms
    by (induction ms) (auto simp: result_simps)
  have missing: "find (\<lambda>p. p \<notin> components ` fst ` set (wr_members c)) (gw_members g) = None \<longleftrightarrow>
      set (gw_members g) \<subseteq> components ` fst ` set (wr_members c)"
    by (auto simp: find_None_iff)
  have neg: "(case wr_declared c of None \<Rightarrow> -1 | Some n \<Rightarrow> sint n) = int (wr_observed c) \<longleftrightarrow>
      (\<exists>n. wr_declared c = Some n \<and> sint n = int (wr_observed c))"
    by (auto split: option.split)
  have "check_witnessed_rank index generation c = Inr () \<longleftrightarrow>
      wr_current_digest c = Some (wr_witness_digest c)
      \<and> (case wr_declared c of None \<Rightarrow> -1 | Some n \<Rightarrow> sint n) = int (wr_observed c)
      \<and> wr_observed c = length (gw_members g)
      \<and> (\<exists>u. rfold (\<lambda>_. check_member_row (wr_rank c) (gw_members g) generation) () (wr_members c) = Inr u)
      \<and> find (\<lambda>p. p \<notin> components ` fst ` set (wr_members c)) (gw_members g) = None"
    using assms by (auto simp: check_witnessed_rank_def Let_def result_simps split: option.splits if_splits)
  also have "\<dots> \<longleftrightarrow> (\<exists>n. wr_current_digest c = Some (wr_witness_digest c) \<and> wr_declared c = Some n \<and> sint n = int (wr_observed c))
      \<and> wr_observed c = length (gw_members g) \<and> components ` fst ` set (wr_members c) = set (gw_members g)
      \<and> (\<forall>m \<in> set (wr_members c). snd (snd m) \<notin> {1, 2, 3, 4, 5} \<and> same_generation generation (fst (snd m)))"
    unfolding neg missing members member by (auto simp: image_subset_iff)
  finally show ?thesis .
qed

lemma decoded_ok:
  "\<exists>x. read_lease_row explicit r = Inr x \<Longrightarrow> decoded explicit r =
     (text_of (lr_hash r), integer_of (lr_count r),
      map_option (\<lambda>p. (p, if explicit then integer_of (lr_generation r) else None,
        if explicit then lr_digest_state r else MEMBER_DIGEST_OK)) (lr_path r))"
proof -
  assume "\<exists>x. read_lease_row explicit r = Inr x"
  then obtain x where x: "read_lease_row explicit r = Inr x" ..
  then have "decoded explicit r = x" by (simp add: decoded_def)
  then show ?thesis using x unfolding read_lease_row_Inr by blast
qed

lemma digest_state_ok:
  "f \<noteq> None \<and> digest_state f h \<notin> {1, 2, 3, 4, 5} \<longleftrightarrow>
     (\<exists>f' d. f = Some f' \<and> fr_hash f' = SBlob d \<and> length d = 32 \<and> decoded_hash h = Some d)"
  by (cases f; cases "fr_hash (the f)"; cases "decoded_hash h") (auto simp: digest_state_def)

lemma map_filter_Some: "(\<And>x. x \<in> set xs \<Longrightarrow> f (h x) = Some (g x)) \<Longrightarrow> List.map_filter f (map h xs) = map g xs"
  by (induction xs) (auto simp: List.map_filter_simps)

text \<open>The rows of a group, whichever statement they come from, share everything but the member.\<close>

definition rows_from :: "lease_row \<Rightarrow> (string \<times> sql_value \<times> bool \<times> nat) list \<Rightarrow> lease_row list" where
  "rows_from base ms =
     (if ms = [] then [base]
      else map (\<lambda>(p, v, manifest, state). base\<lparr>lr_path := Some p, lr_generation := v, lr_observed := length ms,
        lr_has_manifest := manifest, lr_digest_state := state\<rparr>) ms)"

lemma rows_from_block:
  assumes "\<forall>r \<in> set (rows_from base ms). \<exists>x. read_lease_row explicit r = Inr x" "lr_path base = None" "lr_observed base = 0"
  shows "one_block explicit (rows_from base ms) =
    \<lparr>wr_rank = lr_rank base, wr_witness_digest = lr_want base, wr_current_digest = text_of (lr_hash base),
     wr_members = map (\<lambda>(p, v, _, state). (p, if explicit then integer_of v else None, if explicit then state else MEMBER_DIGEST_OK)) ms,
     wr_declared = integer_of (lr_count base), wr_observed = length ms\<rparr>"
proof (cases "ms = []")
  case True
  then show ?thesis using assms decoded_ok [of explicit base]
    by (simp add: rows_from_def one_block_def open_rank_def List.map_filter_simps)
next
  case False
  let ?row = "\<lambda>(p, v, manifest, state). base\<lparr>lr_path := Some p, lr_generation := v, lr_observed := length ms,
        lr_has_manifest := manifest, lr_digest_state := state\<rparr>"
  have rows: "rows_from base ms = map ?row ms" using False by (simp add: rows_from_def)
  have d: "decoded explicit (?row m) = (text_of (lr_hash base), integer_of (lr_count base),
      Some (case m of (p, v, _, state) \<Rightarrow> (p, if explicit then integer_of v else None, if explicit then state else MEMBER_DIGEST_OK)))"
    if "m \<in> set ms" for m
    using assms(1) that decoded_ok [of explicit "?row m"] unfolding rows by (cases m) auto
  have "List.map_filter (\<lambda>r. snd (snd (decoded explicit r))) (map ?row ms) =
      map (\<lambda>(p, v, _, state). (p, if explicit then integer_of v else None, if explicit then state else MEMBER_DIGEST_OK)) ms"
    by (rule map_filter_Some) (simp add: d)
  moreover obtain m where "decoded explicit (hd (map ?row ms)) = (text_of (lr_hash base), integer_of (lr_count base), m)"
    using d [OF hd_in_set [OF False]] unfolding hd_map [OF False] by blast
  moreover have "lr_rank (hd (map ?row ms)) = lr_rank base \<and> lr_want (hd (map ?row ms)) = lr_want base \<and> lr_observed (hd (map ?row ms)) = length ms"
    unfolding hd_map [OF False] by (cases "hd ms") simp
  ultimately show ?thesis unfolding rows by (simp add: one_block_def open_rank_def)
qed

definition explicit_members :: "scan_tables \<Rightarrow> group_witness \<Rightarrow> (string \<times> sql_value \<times> bool \<times> nat) list" where
  "explicit_members st g =
     map (\<lambda>m. (mr_path m, mr_generation m, manifest_of st (mr_path m) \<noteq> None,
               digest_state (manifest_of st (mr_path m)) (lr_hash (base_row st g))))
       (sort_key mr_path (filter (\<lambda>m. mr_rank m = gid_rank (gw_id g)) (st_members st)))"

lemma explicit_rows_from:
  "explicit_rows st g = rows_from ((base_row st g)\<lparr>lr_duplicates := repeated (map mr_path (st_members st))\<rparr>) (explicit_members st g)"
  by (simp add: explicit_rows_def rows_from_def explicit_members_def Let_def base_row_def comp_def)

definition derived_members :: "scan_tables \<Rightarrow> group_witness \<Rightarrow> (string \<times> sql_value \<times> bool \<times> nat) list" where
  "derived_members st g = map (\<lambda>f. (fr_path f, SNull, False, 0)) (derived_files st (lr_hash (base_row st g)))"

lemma derived_rows_from:
  "derived_rows st g = rows_from ((base_row st g)\<lparr>lr_duplicates := repeated (map gr_hash (st_groups st))\<rparr>) (derived_members st g)"
  by (simp add: derived_rows_def rows_from_def derived_members_def Let_def base_row_def comp_def)

lemma base_row_fields [simp]:
  "lr_rank (base_row st g) = gid_rank (gw_id g)" "lr_want (base_row st g) = gw_digest g" "lr_path (base_row st g) = None"
  "lr_observed (base_row st g) = 0" "lr_generation (base_row st g) = SNull"
  by (simp_all add: base_row_def)

text \<open>The summary read of a group is the witnessed one.\<close>

definition summary_current :: "scan_tables \<Rightarrow> group_witness \<Rightarrow> bool" where
  "summary_current st g \<longleftrightarrow>
     (\<exists>s n. summary_of st (gid_rank (gw_id g)) = Some s \<and> gr_hash s = SText (gw_digest g)
        \<and> gr_count s = SInteger n \<and> sint n = int (length (gw_members g)))"

lemma summary_read:
  "(\<exists>n. text_of (lr_hash (base_row st g)) = Some (gw_digest g) \<and> integer_of (lr_count (base_row st g)) = Some n
      \<and> sint n = int (length (gw_members g))) \<longleftrightarrow> summary_current st g"
  by (cases "summary_of st (gid_rank (gw_id g))")
     (auto simp: summary_current_def base_row_def text_of_def integer_of_def split: sql_value.splits)

lemma summary_hash: "summary_current st g \<Longrightarrow> lr_hash (base_row st g) = SText (gw_digest g)"
  "summary_current st g \<Longrightarrow> \<exists>n. lr_count (base_row st g) = SInteger n"
  by (auto simp: summary_current_def base_row_def)

text \<open>What the two statements and the check of a rank establish together.\<close>

definition rank_passes :: "group_witness list \<Rightarrow> i64 option \<Rightarrow> bool \<Rightarrow> lease_row list \<Rightarrow> bool" where
  "rank_passes index generation explicit rows \<longleftrightarrow>
     (\<forall>r \<in> set rows. \<exists>x. read_lease_row explicit r = Inr x) \<and> check_witnessed_rank index generation (one_block explicit rows) = Inr ()"

lemma rows_from_read:
  assumes "lr_path base = None"
  shows "(\<forall>r \<in> set (rows_from base ms). \<exists>x. read_lease_row explicit r = Inr x) \<longleftrightarrow>
     (lr_hash base = SNull \<or> (\<exists>t. lr_hash base = SText t)) \<and> (lr_count base = SNull \<or> (\<exists>n. lr_count base = SInteger n))
     \<and> lr_duplicates base = 0 \<and> (ms = [] \<longrightarrow> explicit \<longrightarrow> lr_generation base = SNull \<or> (\<exists>n. lr_generation base = SInteger n))
     \<and> (explicit \<longrightarrow> (\<forall>(p, v, manifest, state) \<in> set ms. (v = SNull \<or> (\<exists>n. v = SInteger n)) \<and> manifest))"
proof (cases "ms = []")
  case True
  then show ?thesis using assms by (auto simp: rows_from_def read_lease_row_Inr)
next
  case False
  then obtain m ms' where "ms = m # ms'" by (cases ms) auto
  then show ?thesis using assms by (cases m) (auto simp: rows_from_def read_lease_row_Inr)
qed

lemma rank_passes_from:
  assumes "find (\<lambda>g. gid_rank (gw_id g) = lr_rank base) index = Some g" "lr_path base = None" "lr_observed base = 0" "lr_generation base = SNull"
  shows "rank_passes index generation explicit (rows_from base ms) \<longleftrightarrow>
     lr_duplicates base = 0
     \<and> (\<exists>n. text_of (lr_hash base) = Some (lr_want base) \<and> integer_of (lr_count base) = Some n \<and> sint n = int (length (gw_members g)))
     \<and> length ms = length (gw_members g) \<and> components ` fst ` set ms = set (gw_members g)
     \<and> (explicit \<longrightarrow> (\<forall>(p, v, manifest, state) \<in> set ms. (v = SNull \<or> (\<exists>n. v = SInteger n)) \<and> manifest
          \<and> state \<notin> {1, 2, 3, 4, 5} \<and> same_generation generation (integer_of v)))"
proof (cases "\<forall>r \<in> set (rows_from base ms). \<exists>x. read_lease_row explicit r = Inr x")
  case True
  note b = rows_from_block [OF True assms(2,3)]
  have f: "find (\<lambda>g. gid_rank (gw_id g) = wr_rank (one_block explicit (rows_from base ms))) index = Some g"
    using assms(1) b by simp
  note r = True [unfolded rows_from_read [OF assms(2)]]
  let ?F = "\<lambda>(p, v, _ :: bool, state). (p :: string, if explicit then integer_of v else None, if explicit then state else MEMBER_DIGEST_OK)"
  have names: "components ` fst ` set (map ?F ms) = components ` fst ` set ms"
    by (force simp: image_image)
  have states: "(\<forall>m \<in> set (map ?F ms). snd (snd m) \<notin> {1, 2, 3, 4, 5} \<and> same_generation generation (fst (snd m))) \<longleftrightarrow>
      (explicit \<longrightarrow> (\<forall>(p, v, manifest, state) \<in> set ms. state \<notin> {1, 2, 3, 4, 5} \<and> same_generation generation (integer_of v)))"
    by (cases explicit) (auto simp: MEMBER_DIGEST_OK_def same_generation_def)
  have zero: "lr_duplicates base = 0" using r by (elim conjE)
  have cells: "explicit \<longrightarrow> (\<forall>(p, v, manifest, state) \<in> set ms. (v = SNull \<or> (\<exists>n. v = SInteger n)) \<and> manifest)"
    using r by (elim conjE)
  have all: "(explicit \<longrightarrow> (\<forall>(p, v, manifest, state) \<in> set ms. (v = SNull \<or> (\<exists>n. v = SInteger n)) \<and> manifest
          \<and> state \<notin> {1, 2, 3, 4, 5} \<and> same_generation generation (integer_of v))) \<longleftrightarrow>
      (explicit \<longrightarrow> (\<forall>(p, v, manifest, state) \<in> set ms. state \<notin> {1, 2, 3, 4, 5} \<and> same_generation generation (integer_of v)))"
    using cells by fast
  have pass: "rank_passes index generation explicit (rows_from base ms) \<longleftrightarrow>
      check_witnessed_rank index generation (one_block explicit (rows_from base ms)) = Inr ()"
    using True by (simp add: rank_passes_def)
  show ?thesis
    unfolding pass check_rank_Inr [OF f] all
    unfolding b witnessed_rank.simps names states
    by (cases "length ms = length (gw_members g)") (simp_all only: zero simp_thms)
next
  case False
  then have no: "\<not> rank_passes index generation explicit (rows_from base ms)" by (simp add: rank_passes_def)
  have neither: "\<not> (lr_duplicates base = 0
     \<and> (\<exists>n. text_of (lr_hash base) = Some (lr_want base) \<and> integer_of (lr_count base) = Some n \<and> sint n = int (length (gw_members g)))
     \<and> length ms = length (gw_members g) \<and> components ` fst ` set ms = set (gw_members g)
     \<and> (explicit \<longrightarrow> (\<forall>(p, v, manifest, state) \<in> set ms. (v = SNull \<or> (\<exists>n. v = SInteger n)) \<and> manifest
          \<and> state \<notin> {1, 2, 3, 4, 5} \<and> same_generation generation (integer_of v))))"
  proof (rule notI, elim conjE exE)
    fix n
    assume z: "lr_duplicates base = 0" and d: "text_of (lr_hash base) = Some (lr_want base)" "integer_of (lr_count base) = Some n"
      and c: "explicit \<longrightarrow> (\<forall>(p, v, manifest, state) \<in> set ms. (v = SNull \<or> (\<exists>n. v = SInteger n)) \<and> manifest
          \<and> state \<notin> {1, 2, 3, 4, 5} \<and> same_generation generation (integer_of v))"
    have n: "lr_hash base = SText (lr_want base)" "lr_count base = SInteger n" using d by (simp_all add: cell_of_Some)
    have c': "explicit \<longrightarrow> (\<forall>(p, v, manifest, state) \<in> set ms. (v = SNull \<or> (\<exists>n. v = SInteger n)) \<and> manifest)" using c by fast
    have "\<forall>r \<in> set (rows_from base ms). \<exists>x. read_lease_row explicit r = Inr x"
      unfolding rows_from_read [OF assms(2)] using z c' by (simp only: n assms(4) simp_thms sql_value.inject)
    with False show False by contradiction
  qed
  show ?thesis by (simp only: no neither)
qed

section \<open>One group of either mode\<close>

lemma group_current_summary:
  "group_current st mode generation g \<longleftrightarrow>
     summary_current st g \<and> length (live_members st mode g) = length (gw_members g)
     \<and> components ` set (live_members st mode g) = set (gw_members g)
     \<and> (mode = Explicit \<longrightarrow>
          (\<forall>m \<in> set (st_members st). mr_rank m = gid_rank (gw_id g) \<longrightarrow>
             mr_generation m \<in> {SInteger generation, SNull}
             \<and> (\<exists>f d. manifest_of st (mr_path m) = Some f \<and> fr_hash f = SBlob d \<and> length d = 32 \<and> unhex (gw_digest g) = Some d)))"
  by (simp add: group_current_def summary_current_def)

lemma generation_ok:
  "(v = SNull \<or> (\<exists>n. v = SInteger n)) \<and> same_generation (Some generation) (integer_of v) \<longleftrightarrow> v \<in> {SInteger generation, SNull}"
  by (cases v) (auto simp: same_generation_def integer_of_def)

lemma group_passes_from:
  assumes "find (\<lambda>h. gid_rank (gw_id h) = gid_rank (gw_id g)) index = Some g"
  shows "rank_passes index generation explicit (rows_from ((base_row st g)\<lparr>lr_duplicates := d\<rparr>) ms) \<longleftrightarrow>
    d = 0 \<and> summary_current st g \<and> length ms = length (gw_members g) \<and> components ` fst ` set ms = set (gw_members g)
    \<and> (explicit \<longrightarrow> (\<forall>(p, v, manifest, state) \<in> set ms. (v = SNull \<or> (\<exists>n. v = SInteger n)) \<and> manifest
          \<and> state \<notin> {1, 2, 3, 4, 5} \<and> same_generation generation (integer_of v)))"
proof -
  let ?b = "(base_row st g)\<lparr>lr_duplicates := d\<rparr>"
  have r: "rank_passes index generation explicit (rows_from ?b ms) \<longleftrightarrow>
     lr_duplicates ?b = 0
     \<and> (\<exists>n. text_of (lr_hash ?b) = Some (lr_want ?b) \<and> integer_of (lr_count ?b) = Some n \<and> sint n = int (length (gw_members g)))
     \<and> length ms = length (gw_members g) \<and> components ` fst ` set ms = set (gw_members g)
     \<and> (explicit \<longrightarrow> (\<forall>(p, v, manifest, state) \<in> set ms. (v = SNull \<or> (\<exists>n. v = SInteger n)) \<and> manifest
          \<and> state \<notin> {1, 2, 3, 4, 5} \<and> same_generation generation (integer_of v)))"
    by (rule rank_passes_from) (simp_all add: assms)
  have s: "(\<exists>n. text_of (lr_hash ?b) = Some (lr_want ?b) \<and> integer_of (lr_count ?b) = Some n \<and> sint n = int (length (gw_members g)))
      \<longleftrightarrow> summary_current st g"
    using summary_read [of st g] by simp
  have z: "lr_duplicates ?b = d" by simp
  show ?thesis unfolding r s z ..
qed

lemma explicit_group:
  assumes "find (\<lambda>h. gid_rank (gw_id h) = gid_rank (gw_id g)) index = Some g"
  shows "rank_passes index (Some generation) True (explicit_rows st g) \<longleftrightarrow>
    group_current st Explicit generation g \<and> distinct (map mr_path (st_members st))"
proof -
  let ?ms = "filter (\<lambda>m. mr_rank m = gid_rank (gw_id g)) (st_members st)"
  have names: "fst ` set (explicit_members st g) = set (live_members st Explicit g)"
    by (auto simp: explicit_members_def live_members_def image_image)
  have count: "length (explicit_members st g) = length (live_members st Explicit g)"
    by (simp add: explicit_members_def live_members_def)
  have each: "(\<forall>(p, v, manifest, state) \<in> set (explicit_members st g). (v = SNull \<or> (\<exists>n. v = SInteger n)) \<and> manifest
          \<and> state \<notin> {1, 2, 3, 4, 5} \<and> same_generation (Some generation) (integer_of v)) \<longleftrightarrow>
      (\<forall>m \<in> set (st_members st). mr_rank m = gid_rank (gw_id g) \<longrightarrow>
             mr_generation m \<in> {SInteger generation, SNull}
             \<and> (\<exists>f d. manifest_of st (mr_path m) = Some f \<and> fr_hash f = SBlob d \<and> length d = 32 \<and> unhex (gw_digest g) = Some d))"
    if s: "summary_current st g"
  proof -
    have h: "decoded_hash (lr_hash (base_row st g)) = unhex (gw_digest g)"
      using summary_hash(1) [OF s] by (simp add: decoded_hash_def)
    have "(case (mr_path m, mr_generation m, manifest_of st (mr_path m) \<noteq> None,
               digest_state (manifest_of st (mr_path m)) (lr_hash (base_row st g))) of
            (p, v, manifest, state) \<Rightarrow> (v = SNull \<or> (\<exists>n. v = SInteger n)) \<and> manifest
          \<and> state \<notin> {1, 2, 3, 4, 5} \<and> same_generation (Some generation) (integer_of v)) \<longleftrightarrow>
        mr_generation m \<in> {SInteger generation, SNull}
             \<and> (\<exists>f d. manifest_of st (mr_path m) = Some f \<and> fr_hash f = SBlob d \<and> length d = 32 \<and> unhex (gw_digest g) = Some d)" for m
      unfolding prod.case generation_ok [symmetric] h [symmetric] digest_state_ok [symmetric] by blast
    note one = this
    have "(\<forall>(p, v, manifest, state) \<in> set (explicit_members st g). (v = SNull \<or> (\<exists>n. v = SInteger n)) \<and> manifest
          \<and> state \<notin> {1, 2, 3, 4, 5} \<and> same_generation (Some generation) (integer_of v)) \<longleftrightarrow>
      (\<forall>m \<in> set ?ms. mr_generation m \<in> {SInteger generation, SNull}
             \<and> (\<exists>f d. manifest_of st (mr_path m) = Some f \<and> fr_hash f = SBlob d \<and> length d = 32 \<and> unhex (gw_digest g) = Some d))"
      unfolding explicit_members_def list.set_map set_sort ball_simps(9) one ..
    then show ?thesis by auto
  qed
  have base: "rank_passes index (Some generation) True (explicit_rows st g) \<longleftrightarrow>
      distinct (map mr_path (st_members st)) \<and> summary_current st g
      \<and> length (explicit_members st g) = length (gw_members g) \<and> components ` fst ` set (explicit_members st g) = set (gw_members g)
      \<and> (\<forall>(p, v, manifest, state) \<in> set (explicit_members st g). (v = SNull \<or> (\<exists>n. v = SInteger n)) \<and> manifest
          \<and> state \<notin> {1, 2, 3, 4, 5} \<and> same_generation (Some generation) (integer_of v))"
    unfolding explicit_rows_from group_passes_from [OF assms] repeated_0 by (simp only: simp_thms)
  show ?thesis
  proof (cases "summary_current st g")
    case True
    show ?thesis unfolding base each [OF True] names count group_current_summary by (simp only: simp_thms) blast
  next
    case False
    then show ?thesis unfolding base group_current_summary by simp
  qed
qed

lemma derived_group:
  assumes "find (\<lambda>h. gid_rank (gw_id h) = gid_rank (gw_id g)) index = Some g"
  shows "rank_passes index None False (derived_rows st g) \<longleftrightarrow>
    group_current st Derived generation g \<and> distinct (map gr_hash (st_groups st))"
proof -
  have live: "fst ` set (derived_members st g) = set (live_members st Derived g)"
      "length (derived_members st g) = length (live_members st Derived g)" if s: "summary_current st g"
    using summary_hash(1) [OF s]
    by (auto simp: derived_members_def live_members_def derived_files_def decoded_hash_def image_image split: option.split)
  have base: "rank_passes index None False (derived_rows st g) \<longleftrightarrow>
      distinct (map gr_hash (st_groups st)) \<and> summary_current st g
      \<and> length (derived_members st g) = length (gw_members g) \<and> components ` fst ` set (derived_members st g) = set (gw_members g)"
    unfolding derived_rows_from group_passes_from [OF assms] repeated_0 by (simp only: simp_thms)
  show ?thesis
  proof (cases "summary_current st g")
    case True
    show ?thesis unfolding base live [OF True] group_current_summary by auto
  next
    case False
    then show ?thesis unfolding base group_current_summary by simp
  qed
qed

section \<open>The lease\<close>

lemma find_by_rank:
  assumes "distinct (map rank gs)" "g \<in> set gs"
  shows "find (\<lambda>h. rank h = rank g) gs = Some g"
  using assms by (induction gs) auto

lemma by_rank_set [simp]: "set (by_rank w) = set (pw_groups w)" "length (by_rank w) = length (pw_groups w)"
  by (simp_all add: by_rank_def)

lemma by_rank_distinct:
  assumes "distinct (map (\<lambda>g. gid_rank (gw_id g)) (pw_groups w))"
  shows "distinct (map (\<lambda>g. gid_rank (gw_id g)) (by_rank w))"
  using assms by (simp add: by_rank_def distinct_map)

lemma rows_from_shape:
  "rows_from base ms \<noteq> [] \<and> (\<forall>r \<in> set (rows_from base ms). lr_rank r = lr_rank base)"
  by (auto simp: rows_from_def)

lemma validate_rows_Inr:
  assumes "distinct (map (\<lambda>g. gid_rank (gw_id g)) (pw_groups w))"
    and "\<And>g. f g \<noteq> [] \<and> (\<forall>r \<in> set (f g). lr_rank r = gid_rank (gw_id g))"
  shows "validate_rows io w generation explicit (concat (map f (by_rank w))) = Inr () \<longleftrightarrow>
    lio_fault io PrepareRows = None \<and> (\<forall>k \<le> length (concat (map f (by_rank w))). lio_fault io (ReadRow k) = None)
    \<and> (\<forall>g \<in> set (pw_groups w). rank_passes (pw_groups w) generation explicit (f g))"
proof -
  have b: "blocks explicit None (concat (map f (by_rank w))) = map (\<lambda>g. one_block explicit (f g)) (by_rank w)"
    using blocks_concat [of "by_rank w" f "\<lambda>g. gid_rank (gw_id g)" None explicit] assms(2) by_rank_distinct [OF assms(1)] by simp
  have "validate_rows io w generation explicit (concat (map f (by_rank w))) = Inr () \<longleftrightarrow>
      lio_fault io PrepareRows = None
      \<and> (\<exists>n. stream_witnessed_ranks io (pw_groups w) generation explicit 0 0 None (concat (map f (by_rank w))) = Inr n \<and> n = length (pw_groups w))"
    by (auto simp: validate_rows_def result_simps)
  also have "\<dots> \<longleftrightarrow> lio_fault io PrepareRows = None \<and> (\<forall>k \<le> length (concat (map f (by_rank w))). lio_fault io (ReadRow k) = None)
    \<and> (\<forall>r \<in> set (concat (map f (by_rank w))). \<exists>x. read_lease_row explicit r = Inr x)
    \<and> (\<forall>g \<in> set (pw_groups w). check_witnessed_rank (pw_groups w) generation (one_block explicit (f g)) = Inr ())"
    unfolding stream_Inr b by auto
  finally show ?thesis by (auto simp: rank_passes_def)
qed

text \<open>The publication the witness names is still the scan's, and every witnessed group is what it was.\<close>

definition mode_code :: "membership_mode \<Rightarrow> i64" where
  "mode_code mode = (case mode of Derived \<Rightarrow> 1 | Explicit \<Rightarrow> 2)"

definition database_current :: "database \<Rightarrow> plan_witness \<Rightarrow> bool" where
  "database_current db w \<longleftrightarrow>
     (\<exists>st mode. db (pw_scan_id w) = Some st
        \<and> st_authority st = Some (SInteger (mode_code mode), SInteger (pw_generation w)) \<and> 0 < sint (pw_generation w)
        \<and> (\<forall>g \<in> set (pw_groups w). group_current st mode (pw_generation w) g)
        \<and> (mode = Explicit \<longrightarrow> distinct (map mr_path (st_members st)))
        \<and> (mode = Derived \<longrightarrow> distinct (map gr_hash (st_groups st)) \<and> st_members st = []))"

lemma decode_authority_Inr:
  "decode_authority m v = Inr (mode, generation) \<longleftrightarrow>
     m = SInteger (mode_code mode) \<and> v = SInteger generation \<and> 0 < sint generation"
  by (cases m; cases v; cases mode) (auto simp: decode_authority_def mode_code_def rbind_def)

lemma mode_code_inject [simp]: "mode_code a = mode_code b \<longleftrightarrow> a = b"
  by (cases a; cases b) (simp_all add: mode_code_def)

lemma decode_authority_code [simp]:
  "0 < sint generation \<Longrightarrow> decode_authority (SInteger (mode_code mode)) (SInteger generation) = Inr (mode, generation)"
  by (simp add: decode_authority_Inr)

lemma validate_explicit_Inr:
  assumes "distinct (map (\<lambda>g. gid_rank (gw_id g)) (pw_groups w))" "pw_groups w \<noteq> []"
  shows "validate_explicit_witness io st w generation = Inr () \<longleftrightarrow>
    lio_fault io PrepareRows = None \<and> (\<forall>k \<le> length (concat (map (explicit_rows st) (by_rank w))). lio_fault io (ReadRow k) = None)
    \<and> (\<forall>g \<in> set (pw_groups w). group_current st Explicit generation g) \<and> distinct (map mr_path (st_members st))"
proof -
  have f: "explicit_rows st g \<noteq> [] \<and> (\<forall>r \<in> set (explicit_rows st g). lr_rank r = gid_rank (gw_id g))" for g
    using rows_from_shape unfolding explicit_rows_from by fastforce
  have "(\<forall>g \<in> set (pw_groups w). rank_passes (pw_groups w) (Some generation) True (explicit_rows st g)) \<longleftrightarrow>
      (\<forall>g \<in> set (pw_groups w). group_current st Explicit generation g \<and> distinct (map mr_path (st_members st)))"
    using explicit_group [OF find_by_rank [OF assms(1)]] by blast
  then show ?thesis
    unfolding validate_explicit_witness_def validate_rows_Inr [OF assms(1) f]
    using list.set_sel(1) [OF assms(2)] by blast
qed

lemma validate_derived_Inr:
  assumes "distinct (map (\<lambda>g. gid_rank (gw_id g)) (pw_groups w))" "pw_groups w \<noteq> []"
  shows "validate_derived_witness io st w = Inr () \<longleftrightarrow>
    lio_fault io PrepareRows = None \<and> (\<forall>k \<le> length (concat (map (derived_rows st) (by_rank w))). lio_fault io (ReadRow k) = None)
    \<and> lio_fault io ReadMembers = None
    \<and> (\<forall>g \<in> set (pw_groups w). group_current st Derived generation g) \<and> distinct (map gr_hash (st_groups st)) \<and> st_members st = []"
proof -
  have f: "derived_rows st g \<noteq> [] \<and> (\<forall>r \<in> set (derived_rows st g). lr_rank r = gid_rank (gw_id g))" for g
    using rows_from_shape unfolding derived_rows_from by fastforce
  have p: "(\<forall>g \<in> set (pw_groups w). rank_passes (pw_groups w) None False (derived_rows st g)) \<longleftrightarrow>
      (\<forall>g \<in> set (pw_groups w). group_current st Derived generation g) \<and> distinct (map gr_hash (st_groups st))"
    using derived_group [OF find_by_rank [OF assms(1)], of _ st generation] list.set_sel(1) [OF assms(2)] by blast
  have "validate_derived_witness io st w = Inr () \<longleftrightarrow>
      validate_rows io w None False (concat (map (derived_rows st) (by_rank w))) = Inr () \<and> lio_fault io ReadMembers = None \<and> st_members st = []"
    by (auto simp: validate_derived_witness_def result_simps)
  then show ?thesis unfolding validate_rows_Inr [OF assms(1) f] p by blast
qed

lemma acquire_Inr:
  "acquire_membership_lease io db w = Inr () \<longleftrightarrow>
     witness_ok w \<and> \<not> lio_busy io \<and> lio_fault io BeginImmediate = None \<and> validate_lease_witness io db w = Inr ()"
proof -
  have "acquire_membership_lease io db w = Inr () \<longleftrightarrow>
      pw_groups w \<noteq> [] \<and> (\<exists>rs. rfold (check_witnessed_group w) [] (pw_groups w) = Inr rs)
      \<and> \<not> lio_busy io \<and> lio_fault io BeginImmediate = None \<and> validate_lease_witness io db w = Inr ()"
    by (auto simp: acquire_membership_lease_def result_simps)
  then show ?thesis unfolding check_groups_Inr by (auto simp: witness_ok_def)
qed

lemma validate_lease_Inr:
  "validate_lease_witness io db w = Inr () \<longleftrightarrow>
     lio_fault io ReadScan = None \<and> lio_fault io ReadAuthority = None
     \<and> (\<exists>st mode. db (pw_scan_id w) = Some st \<and> st_authority st = Some (SInteger (mode_code mode), SInteger (pw_generation w))
          \<and> 0 < sint (pw_generation w)
          \<and> (case mode of Explicit \<Rightarrow> validate_explicit_witness io st w (pw_generation w) | Derived \<Rightarrow> validate_derived_witness io st w) = Inr ())"
proof (cases "db (pw_scan_id w)")
  case None
  then show ?thesis by (auto simp: validate_lease_witness_def result_simps)
next
  case (Some st)
  show ?thesis
  proof (cases "st_authority st")
    case None
    then show ?thesis using Some by (auto simp: validate_lease_witness_def result_simps)
  next
    case (Some mv)
    obtain m v where "mv = (m, v)" by (cases mv)
    then show ?thesis using \<open>db (pw_scan_id w) = Some st\<close> Some
      by (cases "decode_authority m v")
         (auto simp: validate_lease_witness_def result_simps decode_authority_Inr map_err_def split: if_splits
           dest: decode_authority_Inr [THEN iffD1])
  qed
qed

lemma lease_sound:
  assumes "acquire_membership_lease io db w = Inr ()"
  shows "witness_ok w \<and> database_current db w"
proof -
  have ok: "witness_ok w" and v: "validate_lease_witness io db w = Inr ()" using assms unfolding acquire_Inr by blast+
  have d: "distinct (map (\<lambda>g. gid_rank (gw_id g)) (pw_groups w))" "pw_groups w \<noteq> []" using ok by (simp_all add: witness_ok_def)
  from v [unfolded validate_lease_Inr] obtain st mode where st: "db (pw_scan_id w) = Some st"
    "st_authority st = Some (SInteger (mode_code mode), SInteger (pw_generation w))" "0 < sint (pw_generation w)"
    "(case mode of Explicit \<Rightarrow> validate_explicit_witness io st w (pw_generation w) | Derived \<Rightarrow> validate_derived_witness io st w) = Inr ()"
    by blast
  show ?thesis
  proof (cases mode)
    case Derived
    then show ?thesis using st ok validate_derived_Inr [OF d, of io st "pw_generation w"] unfolding database_current_def by auto
  next
    case Explicit
    then show ?thesis using st ok validate_explicit_Inr [OF d, of io st "pw_generation w"] unfolding database_current_def by auto
  qed
qed

text \<open>
  Claim C26. Where the database answers, the lease is granted exactly when the plan is still founded: its
  witness is well formed, the publication it names is the scan's own, and every group it rests on has the
  digest, the number and the very members it had, each of them still of this publication and of this content.
\<close>

theorem lease_exact:
  assumes "\<not> lio_busy io" "\<And>s. lio_fault io s = None"
  shows "acquire_membership_lease io db w = Inr () \<longleftrightarrow> witness_ok w \<and> database_current db w"
proof
  assume "acquire_membership_lease io db w = Inr ()"
  then show "witness_ok w \<and> database_current db w" by (rule lease_sound)
next
  assume h: "witness_ok w \<and> database_current db w"
  then have d: "distinct (map (\<lambda>g. gid_rank (gw_id g)) (pw_groups w))" "pw_groups w \<noteq> []" by (simp_all add: witness_ok_def)
  from h obtain st mode where st: "db (pw_scan_id w) = Some st"
    "st_authority st = Some (SInteger (mode_code mode), SInteger (pw_generation w))" "0 < sint (pw_generation w)"
    "\<forall>g \<in> set (pw_groups w). group_current st mode (pw_generation w) g"
    "mode = Explicit \<longrightarrow> distinct (map mr_path (st_members st))"
    "mode = Derived \<longrightarrow> distinct (map gr_hash (st_groups st)) \<and> st_members st = []"
    unfolding database_current_def by blast
  have "(case mode of Explicit \<Rightarrow> validate_explicit_witness io st w (pw_generation w) | Derived \<Rightarrow> validate_derived_witness io st w) = Inr ()"
    using st(4-6) validate_explicit_Inr [OF d, of io st "pw_generation w"] validate_derived_Inr [OF d, of io st "pw_generation w"] assms(2)
    by (cases mode) auto
  then have "validate_lease_witness io db w = Inr ()" unfolding validate_lease_Inr using st(1-3) assms(2) by blast
  then show "acquire_membership_lease io db w = Inr ()" unfolding acquire_Inr using h assms by blast
qed

definition sample_digest :: string where
  "sample_digest = replicate 64 (CHR ''a'')"

definition sample_blob :: string where
  "sample_blob = replicate 32 (char_of (170 :: nat))"

definition sample_witness :: plan_witness where
  "sample_witness = \<lparr>pw_scan_id = 7, pw_generation = 3, pw_groups =
     [\<lparr>gw_id = \<lparr>gid_scan = 7, gid_rank = 0, gid_generation = 3\<rparr>, gw_digest = sample_digest,
       gw_members = [components ''/t/b'', components ''/t/a'']\<rparr>]\<rparr>"

definition sample_tables :: scan_tables where
  "sample_tables = \<lparr>st_authority = Some (SInteger 1, SInteger 3),
     st_groups = [\<lparr>gr_rank = 0, gr_hash = SText sample_digest, gr_count = SInteger 2\<rparr>], st_members = [],
     st_files = [\<lparr>fr_path = ''/t/a'', fr_hash = SBlob sample_blob\<rparr>, \<lparr>fr_path = ''/t/b'', fr_hash = SBlob sample_blob\<rparr>,
       \<lparr>fr_path = ''/t/c'', fr_hash = SNull\<rparr>]\<rparr>"

definition sample_database :: database where
  "sample_database = [7 \<mapsto> sample_tables]"

definition healthy_io :: lease_io where
  "healthy_io = \<lparr>lio_busy = False, lio_fault = (\<lambda>_. None)\<rparr>"

theorem lease_exact_witness: "witness_ok sample_witness \<and> database_current sample_database sample_witness"
proof -
  have "acquire_membership_lease healthy_io sample_database sample_witness = Inr ()" by code_simp
  then show ?thesis using lease_exact [of healthy_io] by (simp add: healthy_io_def)
qed

end
