(* ===== verification/Guarded.thy ===== *)
theory Guarded
  imports Lease_Props Batch_Safety
begin

text \<open>
  \<open>apply_guarded_with\<close> of \<open>actions/mod.rs\<close>, the only way a batch begins: the checkpoint is opened, the
  lease is taken against the witness of the plan, and the batch runs under it. The lease writes nothing; it
  is held over the whole batch, so the tables it was granted on stay as they are for that long.
\<close>

datatype apply_refusal = LeaseRefused lease_refusal | RefusedNothingCanRun "nat \<times> obstacle \<times> path"

datatype guarded_apply = GuardedRefused apply_refusal | GuardedRan "detail + batch_result"

text \<open>\<open>opened\<close> is the answer of \<open>ScanStore::open_for_apply_lease\<close>.\<close>

definition apply_guarded_with :: "lease_refusal + unit \<Rightarrow> lease_io \<Rightarrow> database \<Rightarrow> run \<Rightarrow> world \<Rightarrow> guarded_apply \<times> world" where
  "apply_guarded_with opened io db rn w =
     (case opened of
        Inl refusal \<Rightarrow> (GuardedRefused (LeaseRefused refusal), w)
      | Inr _ \<Rightarrow>
          (case acquire_membership_lease io db (ap_witness (rn_plan rn)) of
             Inl refusal \<Rightarrow> (GuardedRefused (LeaseRefused refusal), w)
           | Inr _ \<Rightarrow>
               (case run_batch rn w of
                  (Inr (NothingCanRun line), w) \<Rightarrow> (GuardedRefused (RefusedNothingCanRun line), w)
                | (Inr (Ran batch), w) \<Rightarrow> (GuardedRan (Inr batch), w)
                | (Inl e, w) \<Rightarrow> (GuardedRan (Inl e), w))))"

lemma witness_of_plan:
  assumes "try_new scan_id input = Inr plan"
  shows "\<exists>generation. ap_witness plan = witness_of scan_id generation (normalise input)"
proof -
  let ?gs = "normalise input" and ?gen = "gid_generation (gi_id (hd input))"
  from assms obtain st where "finish_plan scan_id (witness_of scan_id ?gen ?gs) (map marks_of ?gs) st = Inr plan"
    by (cases input) (auto simp: try_new_def Let_def result_simps)
  then have "ap_witness plan = witness_of scan_id ?gen ?gs"
    by (auto simp: finish_plan_def result_simps split: list.splits if_splits)
  then show ?thesis ..
qed

lemma group_of_action:
  assumes "try_new scan_id input = Inr plan" "a \<in> set (ap_actions plan)"
  obtains g where "g \<in> set (pw_groups (ap_witness plan))" "gw_digest g = pa_expected_hash a"
    "pa_target a \<in> set (gw_members g)" "pa_keeper a \<in> set (gw_members g)"
proof -
  obtain generation where w: "ap_witness plan = witness_of scan_id generation (normalise input)"
    using witness_of_plan [OF assms(1)] by blast
  let ?g = "normalise input ! pa_group a"
  from action_wf_of_plan [OF assms] have wf: "pa_group a < length (normalise input)" "pa_expected_hash a = gi_hash ?g"
    "\<exists>t \<in> set (gi_members ?g). m_path t = pa_target a" "\<exists>k \<in> set (gi_members ?g). m_path k = pa_keeper a"
    by (auto simp: action_wf_def Let_def)
  show thesis
  proof (rule that [of "\<lparr>gw_id = gi_id ?g, gw_digest = gi_hash ?g, gw_members = map m_path (gi_members ?g)\<rparr>"])
    show "\<lparr>gw_id = gi_id ?g, gw_digest = gi_hash ?g, gw_members = map m_path (gi_members ?g)\<rparr> \<in> set (pw_groups (ap_witness plan))"
      using wf(1) by (auto simp: w witness_of_def)
    show "pa_target a \<in> set (gw_members \<lparr>gw_id = gi_id ?g, gw_digest = gi_hash ?g, gw_members = map m_path (gi_members ?g)\<rparr>)"
      "pa_keeper a \<in> set (gw_members \<lparr>gw_id = gi_id ?g, gw_digest = gi_hash ?g, gw_members = map m_path (gi_members ?g)\<rparr>)"
      using wf(3,4) by (simp_all, metis imageI, metis imageI)
  qed (simp add: wf(2))
qed

text \<open>What the tables say of an action: target and keeper are live members of one group of the digest the action rests on.\<close>

definition action_current :: "scan_tables \<Rightarrow> membership_mode \<Rightarrow> i64 \<Rightarrow> plan_action \<Rightarrow> bool" where
  "action_current st mode generation a \<longleftrightarrow>
     (\<exists>g. group_current st mode generation g \<and> gw_digest g = pa_expected_hash a
        \<and> pa_target a \<in> components ` set (live_members st mode g) \<and> pa_keeper a \<in> components ` set (live_members st mode g))"

definition actions_current :: "database \<Rightarrow> i64 \<Rightarrow> i64 \<Rightarrow> action_plan \<Rightarrow> bool" where
  "actions_current db scan_id generation plan \<longleftrightarrow>
     (\<exists>st mode. db scan_id = Some st \<and> st_authority st = Some (SInteger (mode_code mode), SInteger generation)
        \<and> (\<forall>a \<in> set (ap_actions plan). action_current st mode generation a))"

text \<open>
  Claim C27. A batch that ran was founded: every action of its plan joins two paths that the database, under
  the lease, lists as members of one group with exactly the digest the action expects.
\<close>

theorem guarded_batch_is_founded:
  assumes "try_new scan_id input = Inr plan" "rn_plan rn = with_unrunnable plan u"
    and "apply_guarded_with opened io db rn w = (GuardedRan r, w')"
  shows "actions_current db scan_id (pw_generation (ap_witness plan)) plan"
proof -
  have plan: "ap_witness (rn_plan rn) = ap_witness plan" by (simp add: assms(2) with_unrunnable_def)
  have "acquire_membership_lease io db (ap_witness plan) = Inr ()"
    using assms(3) unfolding apply_guarded_with_def plan by (auto split: sum.splits)
  then have "database_current db (ap_witness plan)" using lease_sound by blast
  moreover obtain generation where "ap_witness plan = witness_of scan_id generation (normalise input)"
    using witness_of_plan [OF assms(1)] by blast
  then have "pw_scan_id (ap_witness plan) = scan_id" by (simp add: witness_of_def)
  ultimately obtain st mode where st: "db scan_id = Some st"
    "st_authority st = Some (SInteger (mode_code mode), SInteger (pw_generation (ap_witness plan)))"
    "\<forall>g \<in> set (pw_groups (ap_witness plan)). group_current st mode (pw_generation (ap_witness plan)) g"
    unfolding database_current_def by auto
  have "action_current st mode (pw_generation (ap_witness plan)) a" if act: "a \<in> set (ap_actions plan)" for a
  proof -
    obtain g where g: "g \<in> set (pw_groups (ap_witness plan))" "gw_digest g = pa_expected_hash a"
      "pa_target a \<in> set (gw_members g)" "pa_keeper a \<in> set (gw_members g)"
      using group_of_action [OF assms(1) act] by blast
    then have "group_current st mode (pw_generation (ap_witness plan)) g" using st(3) by blast
    then show ?thesis using g unfolding action_current_def group_current_summary by blast
  qed
  then show ?thesis using st(1,2) unfolding actions_current_def by blast
qed

text \<open>
  A refusal costs nothing: with nobody else at work, whatever the guarded entry refuses for -- the
  checkpoint, the lease, or a plan no action of which can run -- the disk is as it was.
\<close>

theorem guarded_refusal_changes_nothing:
  assumes "alone (rn_env rn)" "apply_guarded_with opened io db rn w = (GuardedRefused r, w')"
  shows "w_fs w' = w_fs w"
proof (cases "(\<exists>e. opened = Inl e) \<or> (\<exists>e. acquire_membership_lease io db (ap_witness (rn_plan rn)) = Inl e)")
  case True
  then show ?thesis using assms(2) by (auto simp: apply_guarded_with_def split: sum.splits)
next
  case False
  then obtain line where run: "run_batch rn w = (Inr (NothingCanRun line), w')"
    using assms(2) by (auto simp: apply_guarded_with_def split: sum.splits prod.splits begun.splits)
  let ?w1 = "w\<lparr>w_tick := w_tick w + 1\<rparr>"
  note l1 = look_alone [OF assms(1), of w] and l2 = look_alone [OF assms(1), of ?w1]
  from run l1 l2 show ?thesis
  proof (cases rule: run_batch_cases)
    case stopped
    then show ?thesis by auto
  next
    case (ran live0 snapshots live steps cancelled b)
    then show ?thesis by (cases "finish_batch rn snapshots steps cancelled b") auto
  qed
qed

section \<open>On a sample\<close>

definition guarded_input :: "group_input list" where
  "guarded_input = [(sample_group sample_members)\<lparr>gi_hash := ''ab''\<rparr>]"

definition guarded_plan :: action_plan where
  "guarded_plan = (case try_new 7 guarded_input of Inr plan \<Rightarrow> plan)"

definition guarded_run :: run where
  "guarded_run = sample_run\<lparr>rn_plan := with_unrunnable guarded_plan (unrunnable_new []), rn_digest := (\<lambda>_. ''ab'')\<rparr>"

definition guarded_tables :: scan_tables where
  "guarded_tables = \<lparr>st_authority = Some (SInteger 1, SInteger 3),
     st_groups = [\<lparr>gr_rank = 0, gr_hash = SText ''ab'', gr_count = SInteger 5\<rparr>], st_members = [],
     st_files = map (\<lambda>n. \<lparr>fr_path = ''/'' @ n, fr_hash = SBlob [char_of (171 :: nat)]\<rparr>) [''a'', ''b'', ''c'', ''d'', ''e'']\<rparr>"

definition guarded_result :: "guarded_apply \<times> world" where
  "guarded_result = apply_guarded_with (Inr ()) healthy_io [7 \<mapsto> guarded_tables] guarded_run sample_world"

lemma guarded_accepted: "try_new 7 guarded_input = Inr guarded_plan"
  unfolding guarded_plan_def by code_simp

lemma guarded_ran: "case fst guarded_result of GuardedRan _ \<Rightarrow> True | GuardedRefused _ \<Rightarrow> False"
  unfolding guarded_result_def guarded_run_def guarded_plan_def sample_run_def sample_plan_def by code_simp

theorem guarded_batch_is_founded_witness:
  "actions_current [7 \<mapsto> guarded_tables] 7 (pw_generation (ap_witness guarded_plan)) guarded_plan \<and> ap_actions guarded_plan \<noteq> []"
proof
  obtain r where "fst guarded_result = GuardedRan r" using guarded_ran by (cases "fst guarded_result") auto
  then have "apply_guarded_with (Inr ()) healthy_io [7 \<mapsto> guarded_tables] guarded_run sample_world = (GuardedRan r, snd guarded_result)"
    unfolding guarded_result_def [symmetric] by (simp add: prod_eq_iff)
  then show "actions_current [7 \<mapsto> guarded_tables] 7 (pw_generation (ap_witness guarded_plan)) guarded_plan"
    using guarded_batch_is_founded [OF guarded_accepted, of guarded_run "unrunnable_new []"] by (simp add: guarded_run_def)
  show "ap_actions guarded_plan \<noteq> []" unfolding guarded_plan_def by code_simp
qed

definition refused_result :: "guarded_apply \<times> world" where
  "refused_result = apply_guarded_with (Inr ()) healthy_io [7 \<mapsto> guarded_tables] (guarded_run\<lparr>rn_datasets := []\<rparr>) sample_world"

theorem guarded_refusal_changes_nothing_witness: "w_fs (snd refused_result) = sample_fs"
proof -
  have "case fst refused_result of GuardedRefused (RefusedNothingCanRun _) \<Rightarrow> True | _ \<Rightarrow> False"
    unfolding refused_result_def guarded_run_def guarded_plan_def sample_run_def sample_plan_def by code_simp
  then obtain r where "fst refused_result = GuardedRefused r" by (cases "fst refused_result") auto
  then have "apply_guarded_with (Inr ()) healthy_io [7 \<mapsto> guarded_tables] (guarded_run\<lparr>rn_datasets := []\<rparr>) sample_world = (GuardedRefused r, snd refused_result)"
    unfolding refused_result_def [symmetric] by (simp add: prod_eq_iff)
  from guarded_refusal_changes_nothing [OF _ this] show ?thesis
    using sample_quiet(2) by (simp add: guarded_run_def sample_world_def)
qed

end
