(* ===== verification/Scan_Diff.thy ===== *)
theory Scan_Diff
  imports Paths
begin

text \<open>
  \<open>state/move_track.rs\<close>: the difference between two scans of one root. Every file of the old scan is
  unchanged, modified, moved (the same object under another name, or the same content elsewhere) or
  deleted; every file of the new scan no old one was matched to is new, or a duplicate of content
  the old scan already held. The rows are those \<open>files_for_scan\<close> reads, in the order the database
  gives them; the elapsed time of the report is left out.
\<close>

record scan_row =
  sr_path :: path
  sr_size :: u64
  sr_mtime :: i64
  sr_device :: u64
  sr_inode :: u64
  sr_hash :: "string option"

datatype file_change =
    is_Modified: Modified path path
  | is_MovedByInode: MovedByInode path path
  | is_MovedByHash: MovedByHash path path
  | is_Deleted: Deleted path
  | is_New: New path
  | is_NewDupCandidate: NewDupCandidate path "path list"

record diff_report =
  dr_old_scan_id :: i64
  dr_new_scan_id :: i64
  dr_root :: path
  dr_unchanged_count :: u64
  dr_modified :: "file_change list"
  dr_moved_inode :: "file_change list"
  dr_moved_hash :: "file_change list"
  dr_deleted :: "file_change list"
  dr_new :: "file_change list"
  dr_new_dup_candidates :: "file_change list"

definition empty_report :: "i64 \<Rightarrow> i64 \<Rightarrow> path \<Rightarrow> diff_report" where
  "empty_report old_id new_id root =
     \<lparr>dr_old_scan_id = old_id, dr_new_scan_id = new_id, dr_root = root, dr_unchanged_count = 0,
      dr_modified = [], dr_moved_inode = [], dr_moved_hash = [], dr_deleted = [], dr_new = [],
      dr_new_dup_candidates = []\<rparr>"

section \<open>Rows of the database\<close>

text \<open>The columns as \<open>files_for_scan\<close> reads them; a digest of another length than 32 bytes is none.\<close>

record stored_row =
  st_path :: string
  st_size :: i64
  st_mtime :: i64
  st_device :: i64
  st_inode :: i64
  st_hash :: "string option"

definition row_of :: "stored_row \<Rightarrow> scan_row" where
  "row_of r =
     \<lparr>sr_path = components (st_path r), sr_size = st_size r, sr_mtime = st_mtime r,
      sr_device = st_device r, sr_inode = st_inode r,
      sr_hash = (case st_hash r of None \<Rightarrow> None | Some b \<Rightarrow> if length b = 32 then Some b else None)\<rparr>"

definition files_for_scan :: "stored_row list \<Rightarrow> scan_row list" where
  "files_for_scan rows = map row_of rows"

definition within_root :: "path \<Rightarrow> scan_row list \<Rightarrow> scan_row list" where
  "within_root root rows = filter (\<lambda>r. starts_with (sr_path r) root) rows"

section \<open>The indexes\<close>

text \<open>\<open>entry(key).or_default().push(value)\<close>, and the four maps the loops ask.\<close>

definition push_under :: "'k \<Rightarrow> 'v \<Rightarrow> ('k \<Rightarrow> 'v list option) \<Rightarrow> ('k \<Rightarrow> 'v list option)" where
  "push_under k v m = m(k \<mapsto> (case m k of None \<Rightarrow> [] | Some vs \<Rightarrow> vs) @ [v])"

definition by_path :: "scan_row list \<Rightarrow> path \<Rightarrow> scan_row option" where
  "by_path rows = fold (\<lambda>r m. m(sr_path r \<mapsto> r)) rows (\<lambda>_. None)"

definition by_inode :: "scan_row list \<Rightarrow> u64 \<times> u64 \<Rightarrow> scan_row list option" where
  "by_inode rows = fold (\<lambda>r. push_under (sr_device r, sr_inode r) r) rows (\<lambda>_. None)"

definition by_hash :: "(scan_row \<Rightarrow> 'v) \<Rightarrow> scan_row list \<Rightarrow> string \<Rightarrow> 'v list option" where
  "by_hash value rows =
     fold (\<lambda>r m. case sr_hash r of None \<Rightarrow> m | Some h \<Rightarrow> push_under h (value r) m) rows (\<lambda>_. None)"

section \<open>The loops\<close>

type_synonym diff_state = "diff_report \<times> path list"

text \<open>The first candidate that suits and whose path no earlier row was matched to.\<close>

definition first_free :: "(scan_row \<Rightarrow> bool) \<Rightarrow> path list \<Rightarrow> scan_row list option \<Rightarrow> scan_row option" where
  "first_free suits matched candidates =
     (case candidates of
        None \<Rightarrow> None
      | Some rows \<Rightarrow> find (\<lambda>nr. suits nr \<and> sr_path nr \<notin> set matched) rows)"

definition place_old :: "scan_row list \<Rightarrow> scan_row \<Rightarrow> diff_state \<Rightarrow> diff_state" where
  "place_old new_rows old = (\<lambda>(rep, matched).
     case by_path new_rows (sr_path old) of
       Some nr \<Rightarrow>
         (if sr_size nr = sr_size old \<and> sr_mtime nr = sr_mtime old
          then rep\<lparr>dr_unchanged_count := dr_unchanged_count rep + 1\<rparr>
          else rep\<lparr>dr_modified := dr_modified rep @ [Modified (sr_path old) (sr_path nr)]\<rparr>,
          sr_path nr # matched)
     | None \<Rightarrow>
         (case first_free (\<lambda>nr. sr_size nr = sr_size old) matched
                 (by_inode new_rows (sr_device old, sr_inode old)) of
            Some target \<Rightarrow>
              (rep\<lparr>dr_moved_inode := dr_moved_inode rep @ [MovedByInode (sr_path old) (sr_path target)]\<rparr>,
               sr_path target # matched)
          | None \<Rightarrow>
              (case (case sr_hash old of
                       None \<Rightarrow> None
                     | Some h \<Rightarrow> first_free (\<lambda>nr. sr_path nr \<noteq> sr_path old) matched
                                   (by_hash (\<lambda>r. r) new_rows h)) of
                 Some target \<Rightarrow>
                   (rep\<lparr>dr_moved_hash := dr_moved_hash rep @ [MovedByHash (sr_path old) (sr_path target)]\<rparr>,
                    sr_path target # matched)
               | None \<Rightarrow> (rep\<lparr>dr_deleted := dr_deleted rep @ [Deleted (sr_path old)]\<rparr>, matched))))"

definition place_new :: "scan_row list \<Rightarrow> path list \<Rightarrow> scan_row \<Rightarrow> diff_report \<Rightarrow> diff_report" where
  "place_new old_rows matched nr rep =
     (if sr_path nr \<in> set matched then rep
      else case (case sr_hash nr of None \<Rightarrow> None | Some h \<Rightarrow> by_hash sr_path old_rows h) of
        Some peers \<Rightarrow>
          rep\<lparr>dr_new_dup_candidates := dr_new_dup_candidates rep @ [NewDupCandidate (sr_path nr) peers]\<rparr>
      | None \<Rightarrow> rep\<lparr>dr_new := dr_new rep @ [New (sr_path nr)]\<rparr>)"

definition diff :: "i64 \<Rightarrow> i64 \<Rightarrow> path \<Rightarrow> scan_row list \<Rightarrow> scan_row list \<Rightarrow> diff_report" where
  "diff old_id new_id root old_all new_all =
     (let old_rows = within_root root old_all;
          new_rows = within_root root new_all;
          (rep, matched) = fold (place_old new_rows) old_rows (empty_report old_id new_id root, [])
      in fold (place_new old_rows matched) new_rows rep)"

section \<open>What the indexes hold\<close>

definition none_if_empty :: "'a list \<Rightarrow> 'a list option" where
  "none_if_empty xs = (if xs = [] then None else Some xs)"

lemma push_under_twice:
  "push_under k v m k' = (if k = k' then Some ((case m k of None \<Rightarrow> [] | Some vs \<Rightarrow> vs) @ [v]) else m k')"
  by (simp add: push_under_def)

lemma by_inode_eq:
  "by_inode rows k = none_if_empty (filter (\<lambda>r. (sr_device r, sr_inode r) = k) rows)"
  unfolding by_inode_def
  by (induction rows rule: rev_induct) (auto simp: push_under_twice none_if_empty_def)

lemma by_hash_eq:
  "by_hash value rows h = none_if_empty (map value (filter (\<lambda>r. sr_hash r = Some h) rows))"
  unfolding by_hash_def
  by (induction rows rule: rev_induct) (auto simp: push_under_twice none_if_empty_def split: option.splits)

lemma by_path_eq_None: "by_path rows p = None \<longleftrightarrow> p \<notin> sr_path ` set rows"
  unfolding by_path_def by (induction rows rule: rev_induct) auto

lemma by_path_Some: "by_path rows p = Some r \<Longrightarrow> r \<in> set rows \<and> sr_path r = p"
  unfolding by_path_def by (induction rows rule: rev_induct) (auto split: if_splits)

lemma by_path_distinct:
  "distinct (map sr_path rows) \<Longrightarrow> by_path rows p = Some r \<longleftrightarrow> r \<in> set rows \<and> sr_path r = p"
  unfolding by_path_def by (induction rows rule: rev_induct) (auto simp: image_iff)

lemma first_free_Some:
  "first_free suits matched (none_if_empty rows) = Some r \<Longrightarrow> r \<in> set rows \<and> suits r \<and> sr_path r \<notin> set matched"
  by (auto simp: first_free_def none_if_empty_def find_Some_iff split: if_splits)

lemma first_free_None:
  "first_free suits matched (none_if_empty rows) = None
   \<longleftrightarrow> (\<forall>r\<in>set rows. suits r \<longrightarrow> sr_path r \<in> set matched)"
  by (auto simp: first_free_def none_if_empty_def find_None_iff split: if_splits)

end
