(* ===== verification/Scan_Diff_Props.thy ===== *)
theory Scan_Diff_Props
  imports Scan_Diff
begin

text \<open>
  What the difference of two scans says, and where it errs: every file of the old scan gets one
  verdict and every file of the new scan is accounted for, each verdict is founded on the rows, and
  a deleted file whose twin survives may be reported as moved onto the twin.
\<close>

section \<open>One old file\<close>

definition kept_as_was :: "scan_row list \<Rightarrow> scan_row \<Rightarrow> bool" where
  "kept_as_was new_rows old \<longleftrightarrow>
     (\<exists>nr\<in>set new_rows. sr_path nr = sr_path old \<and> sr_size nr = sr_size old \<and> sr_mtime nr = sr_mtime old)"

definition same_object :: "scan_row \<Rightarrow> scan_row \<Rightarrow> bool" where
  "same_object old nr \<longleftrightarrow>
     sr_device nr = sr_device old \<and> sr_inode nr = sr_inode old \<and> sr_size nr = sr_size old"

definition same_content :: "scan_row \<Rightarrow> scan_row \<Rightarrow> bool" where
  "same_content old nr \<longleftrightarrow> sr_hash old \<noteq> None \<and> sr_hash nr = sr_hash old"

text \<open>The five ways a step of the first loop ends.\<close>

lemma place_old_cases:
  assumes d: "distinct (map sr_path new_rows)"
    and s: "place_old new_rows old (rep, matched) = (rep', matched')"
  obtains
    (unchanged) "kept_as_was new_rows old" "sr_path old \<in> sr_path ` set new_rows"
      "rep' = rep\<lparr>dr_unchanged_count := dr_unchanged_count rep + 1\<rparr>" "matched' = sr_path old # matched"
  | (modified) "\<not> kept_as_was new_rows old" "sr_path old \<in> sr_path ` set new_rows"
      "rep' = rep\<lparr>dr_modified := dr_modified rep @ [Modified (sr_path old) (sr_path old)]\<rparr>"
      "matched' = sr_path old # matched"
  | (inode) nr where "nr \<in> set new_rows" "same_object old nr" "sr_path nr \<notin> set matched"
      "\<not> kept_as_was new_rows old" "sr_path old \<notin> sr_path ` set new_rows"
      "rep' = rep\<lparr>dr_moved_inode := dr_moved_inode rep @ [MovedByInode (sr_path old) (sr_path nr)]\<rparr>"
      "matched' = sr_path nr # matched"
  | (hash) nr where "nr \<in> set new_rows" "same_content old nr" "sr_path nr \<notin> set matched"
      "\<not> kept_as_was new_rows old" "sr_path old \<notin> sr_path ` set new_rows"
      "rep' = rep\<lparr>dr_moved_hash := dr_moved_hash rep @ [MovedByHash (sr_path old) (sr_path nr)]\<rparr>"
      "matched' = sr_path nr # matched"
  | (gone) "\<forall>nr\<in>set new_rows. same_object old nr \<or> same_content old nr \<longrightarrow> sr_path nr \<in> set matched"
      "\<not> kept_as_was new_rows old" "sr_path old \<notin> sr_path ` set new_rows"
      "rep' = rep\<lparr>dr_deleted := dr_deleted rep @ [Deleted (sr_path old)]\<rparr>" "matched' = matched"
proof (cases "by_path new_rows (sr_path old)")
  case (Some nr)
  then have nr: "nr \<in> set new_rows" "sr_path nr = sr_path old" by (auto dest: by_path_Some)
  have "x = nr" if "x \<in> set new_rows" "sr_path x = sr_path old" for x
    using d nr that by (auto simp: distinct_map inj_on_def)
  then have k: "kept_as_was new_rows old \<longleftrightarrow> sr_size nr = sr_size old \<and> sr_mtime nr = sr_mtime old"
    using nr unfolding kept_as_was_def by metis
  have p: "sr_path old \<in> sr_path ` set new_rows"
    using nr by (intro image_eqI [where f = sr_path and x = nr]) simp_all
  show thesis
  proof (cases "kept_as_was new_rows old")
    case True
    with k s Some nr have "rep' = rep\<lparr>dr_unchanged_count := dr_unchanged_count rep + 1\<rparr>"
      "matched' = sr_path old # matched" by (auto simp: place_old_def)
    with True p show thesis by (rule unchanged)
  next
    case False
    with k have "\<not> (sr_size nr = sr_size old \<and> sr_mtime nr = sr_mtime old)" by simp
    with s Some nr have
      "rep' = rep\<lparr>dr_modified := dr_modified rep @ [Modified (sr_path old) (sr_path old)]\<rparr>"
      "matched' = sr_path old # matched" by (auto simp: place_old_def split: if_splits)
    with False p show thesis by (rule modified)
  qed
next
  case None
  then have p: "sr_path old \<notin> sr_path ` set new_rows" by (simp add: by_path_eq_None)
  then have k: "\<not> kept_as_was new_rows old" unfolding kept_as_was_def image_iff by metis
  from p have q: "\<And>r. r \<in> set new_rows \<Longrightarrow> sr_path r \<noteq> sr_path old" by (metis image_eqI)
  let ?i = "first_free (\<lambda>nr. sr_size nr = sr_size old) matched (by_inode new_rows (sr_device old, sr_inode old))"
  let ?h = "case sr_hash old of None \<Rightarrow> None
              | Some h \<Rightarrow> first_free (\<lambda>nr. sr_path nr \<noteq> sr_path old) matched (by_hash (\<lambda>r. r) new_rows h)"
  show thesis
  proof (cases ?i)
    case (Some nr)
    then have "nr \<in> set new_rows \<and> same_object old nr \<and> sr_path nr \<notin> set matched"
      by (auto simp: by_inode_eq same_object_def dest: first_free_Some)
    moreover have "rep' = rep\<lparr>dr_moved_inode := dr_moved_inode rep @ [MovedByInode (sr_path old) (sr_path nr)]\<rparr>"
      "matched' = sr_path nr # matched"
      using s None Some by (simp_all add: place_old_def)
    ultimately show thesis using k p by - (rule inode, simp_all)
  next
    case no_inode: None
    then have i: "\<forall>nr\<in>set new_rows. same_object old nr \<longrightarrow> sr_path nr \<in> set matched"
      by (auto simp: by_inode_eq same_object_def first_free_None)
    show thesis
    proof (cases ?h)
      case (Some nr)
      then have "nr \<in> set new_rows \<and> same_content old nr \<and> sr_path nr \<notin> set matched"
        by (auto simp: by_hash_eq same_content_def dest: first_free_Some split: option.splits)
      moreover have "rep' = rep\<lparr>dr_moved_hash := dr_moved_hash rep @ [MovedByHash (sr_path old) (sr_path nr)]\<rparr>"
        "matched' = sr_path nr # matched"
        using s None no_inode Some by (simp_all add: place_old_def)
      ultimately show thesis using k p by - (rule hash, simp_all)
    next
      case no_hash: None
      then have "\<forall>nr\<in>set new_rows. same_content old nr \<longrightarrow> sr_path nr \<in> set matched"
        using q by (auto simp: by_hash_eq same_content_def first_free_None split: option.splits)
      with i have "\<forall>nr\<in>set new_rows. same_object old nr \<or> same_content old nr \<longrightarrow> sr_path nr \<in> set matched"
        by blast
      moreover have "rep' = rep\<lparr>dr_deleted := dr_deleted rep @ [Deleted (sr_path old)]\<rparr>" "matched' = matched"
        using s None no_inode no_hash by (simp_all add: place_old_def)
      ultimately show thesis using k p by - (rule gone, simp_all)
    qed
  qed
qed

section \<open>The verdicts\<close>

fun source_of :: "file_change \<Rightarrow> path" where
  "source_of (Modified p q) = p"
| "source_of (MovedByInode p q) = p"
| "source_of (MovedByHash p q) = p"
| "source_of (Deleted p) = p"
| "source_of (New p) = p"
| "source_of (NewDupCandidate p peers) = p"

fun target_of :: "file_change \<Rightarrow> path" where
  "target_of (Modified p q) = q"
| "target_of (MovedByInode p q) = q"
| "target_of (MovedByHash p q) = q"
| "target_of (Deleted p) = p"
| "target_of (New p) = p"
| "target_of (NewDupCandidate p peers) = p"

definition move_verdicts :: "diff_report \<Rightarrow> file_change list" where
  "move_verdicts rep = dr_moved_inode rep @ dr_moved_hash rep"

definition old_verdicts :: "diff_report \<Rightarrow> file_change list" where
  "old_verdicts rep = dr_modified rep @ move_verdicts rep @ dr_deleted rep"

definition arrivals :: "diff_report \<Rightarrow> file_change list" where
  "arrivals rep = dr_new rep @ dr_new_dup_candidates rep"

lemmas verdict_defs = move_verdicts_def old_verdicts_def arrivals_def

text \<open>Every list of the report holds verdicts of its own kind.\<close>

definition in_their_lists :: "diff_report \<Rightarrow> bool" where
  "in_their_lists rep \<longleftrightarrow>
     list_all is_Modified (dr_modified rep) \<and> list_all is_MovedByInode (dr_moved_inode rep)
     \<and> list_all is_MovedByHash (dr_moved_hash rep) \<and> list_all is_Deleted (dr_deleted rep)
     \<and> list_all is_New (dr_new rep) \<and> list_all is_NewDupCandidate (dr_new_dup_candidates rep)"

definition sorted_so_far :: "scan_row list \<Rightarrow> scan_row list \<Rightarrow> diff_report \<Rightarrow> path list \<Rightarrow> bool" where
  "sorted_so_far new_rows olds rep matched \<longleftrightarrow>
     dr_unchanged_count rep = of_nat (length (filter (kept_as_was new_rows) olds))
     \<and> mset (map sr_path olds)
         = mset (map sr_path (filter (kept_as_was new_rows) olds)) + mset (map source_of (old_verdicts rep))
     \<and> set matched = sr_path ` set olds \<inter> sr_path ` set new_rows \<union> target_of ` set (move_verdicts rep)
     \<and> distinct (map target_of (move_verdicts rep))
     \<and> in_their_lists rep
     \<and> target_of ` set (move_verdicts rep) \<subseteq> sr_path ` set new_rows
     \<and> dr_new rep = [] \<and> dr_new_dup_candidates rep = []"

lemma sorted_step:
  assumes d: "distinct (map sr_path new_rows)" and i: "sorted_so_far new_rows olds rep matched"
    and s: "place_old new_rows old (rep, matched) = (rep', matched')"
  shows "sorted_so_far new_rows (olds @ [old]) rep' matched'"
  using d s
proof (cases rule: place_old_cases)
  case unchanged
  then show ?thesis using i by (auto simp: sorted_so_far_def in_their_lists_def verdict_defs)
next
  case modified
  then show ?thesis using i by (auto simp: sorted_so_far_def in_their_lists_def verdict_defs)
next
  case (inode nr)
  then show ?thesis using i by (auto simp: sorted_so_far_def in_their_lists_def verdict_defs)
next
  case (hash nr)
  then show ?thesis using i by (auto simp: sorted_so_far_def in_their_lists_def verdict_defs)
next
  case gone
  then show ?thesis using i by (auto simp: sorted_so_far_def in_their_lists_def verdict_defs)
qed

lemma sorted_loop:
  assumes d: "distinct (map sr_path new_rows)"
    and s: "fold (place_old new_rows) olds (empty_report old_id new_id root, []) = (rep, matched)"
  shows "sorted_so_far new_rows olds rep matched"
  using s
proof (induction olds arbitrary: rep matched rule: rev_induct)
  case Nil
  then have "rep = empty_report old_id new_id root" "matched = []" by simp_all
  then show ?case by (simp add: sorted_so_far_def in_their_lists_def verdict_defs empty_report_def)
next
  case (snoc old olds)
  obtain rep0 matched0 where f: "fold (place_old new_rows) olds (empty_report old_id new_id root, []) = (rep0, matched0)"
    by force
  from snoc.prems f have "place_old new_rows old (rep0, matched0) = (rep, matched)" by simp
  with d snoc.IH [OF f] show ?case by (rule sorted_step)
qed

section \<open>What a verdict rests on\<close>

fun founded :: "scan_row list \<Rightarrow> scan_row list \<Rightarrow> path set \<Rightarrow> file_change \<Rightarrow> bool" where
  "founded new_rows olds arrived (Modified p q) \<longleftrightarrow>
     q = p \<and> p \<in> sr_path ` set new_rows \<and> (\<exists>old\<in>set olds. sr_path old = p \<and> \<not> kept_as_was new_rows old)"
| "founded new_rows olds arrived (MovedByInode p q) \<longleftrightarrow>
     p \<notin> sr_path ` set new_rows
     \<and> (\<exists>old\<in>set olds. \<exists>nr\<in>set new_rows. sr_path old = p \<and> sr_path nr = q \<and> same_object old nr)"
| "founded new_rows olds arrived (MovedByHash p q) \<longleftrightarrow>
     p \<notin> sr_path ` set new_rows
     \<and> (\<exists>old\<in>set olds. \<exists>nr\<in>set new_rows. sr_path old = p \<and> sr_path nr = q \<and> same_content old nr)"
| "founded new_rows olds arrived (Deleted p) \<longleftrightarrow>
     p \<notin> sr_path ` set new_rows
     \<and> (\<exists>old\<in>set olds. sr_path old = p
          \<and> (\<forall>nr\<in>set new_rows. same_object old nr \<or> same_content old nr \<longrightarrow> sr_path nr \<notin> arrived))"
| "founded new_rows olds arrived (New p) \<longleftrightarrow>
     p \<notin> sr_path ` set olds
     \<and> (\<exists>nr\<in>set new_rows. sr_path nr = p \<and> (\<forall>old\<in>set olds. \<not> same_content old nr))"
| "founded new_rows olds arrived (NewDupCandidate p peers) \<longleftrightarrow>
     p \<notin> sr_path ` set olds \<and> peers \<noteq> []
     \<and> (\<exists>nr\<in>set new_rows. sr_path nr = p \<and> peers = map sr_path (filter (\<lambda>old. same_content old nr) olds))"

lemma founded_mono:
  assumes f: "founded new_rows olds arrived c" and c: "c \<in> set (old_verdicts rep)"
    and kind: "\<forall>c\<in>set (old_verdicts rep). \<forall>p peers. c \<noteq> New p \<and> c \<noteq> NewDupCandidate p peers"
    and "set olds \<subseteq> set olds'" "arrived' \<subseteq> arrived"
  shows "founded new_rows olds' arrived' c"
proof (cases c)
  case (Deleted p)
  with f obtain old where "p \<notin> sr_path ` set new_rows" "old \<in> set olds" "sr_path old = p"
    "\<forall>nr\<in>set new_rows. same_object old nr \<or> same_content old nr \<longrightarrow> sr_path nr \<notin> arrived" by auto
  with Deleted assms(4,5) show ?thesis by (auto intro!: bexI [of _ old])
qed (use assms in \<open>auto\<close>)

definition founded_so_far :: "scan_row list \<Rightarrow> scan_row list \<Rightarrow> diff_report \<Rightarrow> path list \<Rightarrow> bool" where
  "founded_so_far new_rows olds rep matched \<longleftrightarrow>
     (\<forall>c\<in>set (old_verdicts rep). founded new_rows olds (- set matched) c
        \<and> (\<forall>p peers. c \<noteq> New p \<and> c \<noteq> NewDupCandidate p peers))"

lemma founded_step:
  assumes d: "distinct (map sr_path new_rows)" and i: "founded_so_far new_rows olds rep matched"
    and s: "place_old new_rows old (rep, matched) = (rep', matched')"
  shows "founded_so_far new_rows (olds @ [old]) rep' matched'"
proof -
  from d s have grow: "set matched \<subseteq> set matched'"
    by (cases rule: place_old_cases) auto
  from i have kind: "\<forall>c\<in>set (old_verdicts rep). \<forall>p peers. c \<noteq> New p \<and> c \<noteq> NewDupCandidate p peers"
    by (simp add: founded_so_far_def)
  have kept: "founded new_rows (olds @ [old]) (- set matched') c" if "c \<in> set (old_verdicts rep)" for c
  proof (rule founded_mono)
    show "founded new_rows olds (- set matched) c" using i that by (simp add: founded_so_far_def)
  qed (use that kind grow in auto)
  have "founded_so_far new_rows (olds @ [old]) rep' matched'
    \<longleftrightarrow> (\<forall>c\<in>set (old_verdicts rep') - set (old_verdicts rep). founded new_rows (olds @ [old]) (- set matched') c
        \<and> (\<forall>p peers. c \<noteq> New p \<and> c \<noteq> NewDupCandidate p peers))"
    using kept kind unfolding founded_so_far_def by blast
  also have "\<dots>"
    using d s by (cases rule: place_old_cases) (auto simp: verdict_defs)
  finally show ?thesis by blast
qed

lemma founded_loop:
  assumes d: "distinct (map sr_path new_rows)"
    and s: "fold (place_old new_rows) olds (empty_report old_id new_id root, []) = (rep, matched)"
  shows "founded_so_far new_rows olds rep matched"
  using s
proof (induction olds arbitrary: rep matched rule: rev_induct)
  case Nil
  then have "rep = empty_report old_id new_id root" by simp
  then show ?case by (simp add: founded_so_far_def verdict_defs empty_report_def)
next
  case (snoc old olds)
  obtain rep0 matched0 where f: "fold (place_old new_rows) olds (empty_report old_id new_id root, []) = (rep0, matched0)"
    by force
  from snoc.prems f have "place_old new_rows old (rep0, matched0) = (rep, matched)" by simp
  with d snoc.IH [OF f] show ?case by (rule founded_step)
qed

section \<open>The new files\<close>

definition twins :: "scan_row list \<Rightarrow> scan_row \<Rightarrow> path list" where
  "twins olds nr = map sr_path (filter (\<lambda>old. same_content old nr) olds)"

lemma peers_eq:
  "(case sr_hash nr of None \<Rightarrow> None | Some h \<Rightarrow> by_hash sr_path olds h) = none_if_empty (twins olds nr)"
proof (cases "sr_hash nr")
  case None
  then have "filter (\<lambda>old. same_content old nr) olds = []" by (auto simp: filter_empty_conv same_content_def)
  with None show ?thesis by (simp add: twins_def none_if_empty_def)
next
  case (Some h)
  then have "(\<lambda>old. same_content old nr) = (\<lambda>old. sr_hash old = Some h)" by (auto simp: same_content_def)
  with Some show ?thesis by (simp add: twins_def by_hash_eq)
qed

lemma place_new_eq:
  "place_new olds matched nr rep =
     (if sr_path nr \<in> set matched then rep
      else if twins olds nr = [] then rep\<lparr>dr_new := dr_new rep @ [New (sr_path nr)]\<rparr>
      else rep\<lparr>dr_new_dup_candidates :=
             dr_new_dup_candidates rep @ [NewDupCandidate (sr_path nr) (twins olds nr)]\<rparr>)"
  unfolding place_new_def peers_eq by (simp add: none_if_empty_def)

lemma new_loop:
  "fold (place_new olds matched) news rep = rep\<lparr>
     dr_new := dr_new rep @ map (\<lambda>nr. New (sr_path nr))
       (filter (\<lambda>nr. sr_path nr \<notin> set matched \<and> twins olds nr = []) news),
     dr_new_dup_candidates := dr_new_dup_candidates rep @ map (\<lambda>nr. NewDupCandidate (sr_path nr) (twins olds nr))
       (filter (\<lambda>nr. sr_path nr \<notin> set matched \<and> twins olds nr \<noteq> []) news)\<rparr>"
  by (induction news arbitrary: rep) (auto simp: place_new_eq)

text \<open>The two loops together.\<close>

lemma diff_runs:
  obtains rep matched where
    "fold (place_old (within_root root new_all)) (within_root root old_all) (empty_report old_id new_id root, [])
       = (rep, matched)"
    "diff old_id new_id root old_all new_all = fold (place_new (within_root root old_all) matched)
       (within_root root new_all) rep"
  by (cases "fold (place_old (within_root root new_all)) (within_root root old_all)
        (empty_report old_id new_id root, [])") (auto simp: diff_def)

lemma distinct_within: "distinct (map sr_path rows) \<Longrightarrow> distinct (map sr_path (within_root root rows))"
  by (simp add: within_root_def distinct_map_filter)

lemma arrivals_of_diff:
  assumes "dr_new rep = []" "dr_new_dup_candidates rep = []"
  shows "map target_of (arrivals (fold (place_new olds matched) news rep))
    = map sr_path (filter (\<lambda>nr. sr_path nr \<notin> set matched \<and> twins olds nr = []) news)
      @ map sr_path (filter (\<lambda>nr. sr_path nr \<notin> set matched \<and> twins olds nr \<noteq> []) news)"
  using assms by (simp add: new_loop arrivals_def)

lemma arrivals_are_unmatched:
  assumes "dr_new rep = []" "dr_new_dup_candidates rep = []" "distinct (map sr_path news)"
  shows "target_of ` set (arrivals (fold (place_new olds matched) news rep)) = sr_path ` set news - set matched"
    and "distinct (map target_of (arrivals (fold (place_new olds matched) news rep)))"
proof -
  show "target_of ` set (arrivals (fold (place_new olds matched) news rep)) = sr_path ` set news - set matched"
    using arg_cong [OF arrivals_of_diff [OF assms(1,2), of olds matched news], of set] by auto
  show "distinct (map target_of (arrivals (fold (place_new olds matched) news rep)))"
    unfolding arrivals_of_diff [OF assms(1,2)]
    using assms(3) by (auto simp: distinct_map_filter distinct_map inj_on_def)
qed

section \<open>The properties\<close>


lemma arrival_founded:
  assumes c: "c \<in> set (arrivals (fold (place_new olds matched) news rep))"
    and e: "dr_new rep = []" "dr_new_dup_candidates rep = []"
    and m: "sr_path ` set olds \<inter> sr_path ` set news \<subseteq> set matched"
  shows "founded news olds arrived c"
proof -
  from c e obtain nr where nr: "nr \<in> set news" "sr_path nr \<notin> set matched"
    and c': "c = New (sr_path nr) \<and> twins olds nr = []
             \<or> c = NewDupCandidate (sr_path nr) (twins olds nr) \<and> twins olds nr \<noteq> []"
    by (auto simp: arrivals_def new_loop)
  from m nr have p: "sr_path nr \<notin> sr_path ` set olds" by blast
  from c' show ?thesis
  proof
    assume "c = New (sr_path nr) \<and> twins olds nr = []"
    moreover from this have "\<forall>old\<in>set olds. \<not> same_content old nr" by (simp add: twins_def filter_empty_conv)
    ultimately show ?thesis using p nr(1) by auto
  next
    assume "c = NewDupCandidate (sr_path nr) (twins olds nr) \<and> twins olds nr \<noteq> []"
    with p nr(1) show ?thesis by (auto simp: twins_def)
  qed
qed


section \<open>A concrete pair of scans\<close>

definition at :: "string \<Rightarrow> u64 \<Rightarrow> string option \<Rightarrow> scan_row" where
  "at name inode h =
     \<lparr>sr_path = [RootDir, Normal ''x'', Normal name], sr_size = 10, sr_mtime = 100, sr_device = 1,
      sr_inode = inode, sr_hash = h\<rparr>"

definition before :: "scan_row list" where
  "before = [at ''a'' 1 (Some ''h''), at ''b'' 2 None, at ''c'' 3 (Some ''g'')]"

definition after :: "scan_row list" where
  "after = [at ''a'' 1 (Some ''h''), at ''d'' 2 None, at ''e'' 5 (Some ''h''), at ''f'' 6 None]"

lemmas sample_defs = before_def after_def at_def



text \<open>
  Two files with the same content, the first of which is deleted: the survivor was there before, and
  still the deletion is reported as a move onto it. Deleting the second instead is a deletion: a path
  is protected from being a target only once its own old row has been met.
\<close>

lemma deleted_twin_reported_as_move:
  "let twin = [at ''a'' 1 (Some ''h''), at ''b'' 2 (Some ''h'')];
       first = diff 1 2 [RootDir, Normal ''x''] twin [at ''b'' 2 (Some ''h'')];
       second = diff 1 2 [RootDir, Normal ''x''] twin [at ''a'' 1 (Some ''h'')]
   in dr_moved_hash first = [MovedByHash [RootDir, Normal ''x'', Normal ''a''] [RootDir, Normal ''x'', Normal ''b'']]
      \<and> dr_unchanged_count first = 1 \<and> dr_deleted first = []
      \<and> dr_moved_hash second = [] \<and> dr_unchanged_count second = 1
      \<and> dr_deleted second = [Deleted [RootDir, Normal ''x'', Normal ''b'']]"
  by code_simp

end
