(* ===== verification/Move_Tree.thy ===== *)
theory Move_Tree
  imports Quarantine
begin

text \<open>
  The directory tree the commander's move batch works on. A location is the list of names from the
  root; a path of the program is resolved to a location component by component, through symbolic
  links (forty at most, as the kernel allows). Renaming a directory takes everything below it along.
  Every call happens at a tick of the run: before it outsiders may have changed the tree, and it may
  fail with any error; a call that fails changes nothing.
\<close>

section \<open>The tree\<close>

type_synonym location = "string list"

datatype entry = FileEntry inode_id | DirEntry | LinkEntry path | OtherEntry

record node =
  nd_data :: string
  nd_mtime :: i64

record dtree =
  dt_entries :: "(location \<times> entry) list"
  dt_nodes :: "inode_id \<Rightarrow> node"

definition entry_at :: "dtree \<Rightarrow> location \<Rightarrow> entry option" where
  "entry_at t l = (if l = [] then Some DirEntry else map_of (dt_entries t) l)"

definition dir_at :: "dtree \<Rightarrow> location \<Rightarrow> bool" where
  "dir_at t l \<longleftrightarrow> entry_at t l = Some DirEntry"

text \<open>Path resolution: \<open>follow\<close> says whether a link in the last place is followed as well.\<close>

function walk :: "dtree \<Rightarrow> bool \<Rightarrow> nat \<Rightarrow> location \<Rightarrow> path \<Rightarrow> location option" where
  "walk t follow k cur [] = Some cur"
| "walk t follow k cur (RootDir # cs) = walk t follow k [] cs"
| "walk t follow k cur (CurDir # cs) = walk t follow k cur cs"
| "walk t follow k cur (ParentDir # cs) = walk t follow k (butlast cur) cs"
| "walk t follow k cur (Normal n # cs) =
     (case entry_at t (cur @ [n]) of
        None \<Rightarrow> None
      | Some DirEntry \<Rightarrow> walk t follow k (cur @ [n]) cs
      | Some (LinkEntry target) \<Rightarrow>
          if cs = [] \<and> \<not> follow then Some (cur @ [n])
          else (case k of 0 \<Rightarrow> None | Suc k' \<Rightarrow> walk t follow k' cur (target @ cs))
      | Some _ \<Rightarrow> if cs = [] then Some (cur @ [n]) else None)"
  by pat_completeness auto
termination
  by (relation "inv_image (less_than <*lex*> less_than) (\<lambda>(t, follow, k, cur, cs). (k, length cs))") auto

definition max_links :: nat where
  "max_links = 40"

definition resolved :: "dtree \<Rightarrow> path \<Rightarrow> location option" where
  "resolved t p = walk t True max_links [] p"

definition unfollowed :: "dtree \<Rightarrow> path \<Rightarrow> location option" where
  "unfollowed t p = walk t False max_links [] p"

text \<open>Where a name would be: in the directory its parent path resolves to.\<close>

definition slot :: "dtree \<Rightarrow> path \<Rightarrow> location option" where
  "slot t p =
     (case (file_name p, resolved t (butlast p)) of
        (Some n, Some d) \<Rightarrow> if dir_at t d then Some (d @ [n]) else None
      | _ \<Rightarrow> None)"

definition children_of :: "dtree \<Rightarrow> location \<Rightarrow> string list" where
  "children_of t d = map (\<lambda>(q, _). last q) (filter (\<lambda>(q, _). q \<noteq> [] \<and> butlast q = d) (dt_entries t))"

section \<open>The calls\<close>

definition ENOTDIR :: io_error where "ENOTDIR = Os 20"
definition EINVAL :: io_error where "EINVAL = Os 22"
definition EBUSY :: io_error where "EBUSY = Os 16"
definition ENOTEMPTY :: io_error where "ENOTEMPTY = Os 39"

definition reroot :: "location \<Rightarrow> location \<Rightarrow> location \<Rightarrow> location" where
  "reroot s d q = (if prefix s q then d @ drop (length s) q else q)"

definition take_along :: "location \<Rightarrow> location \<Rightarrow> dtree \<Rightarrow> dtree" where
  "take_along s d t = t\<lparr>dt_entries := map (\<lambda>(q, e). (reroot s d q, e)) (dt_entries t)\<rparr>"

text \<open>\<open>renameat2\<close> with \<open>RENAME_NOREPLACE\<close>.\<close>

definition t_rename :: "path \<Rightarrow> path \<Rightarrow> dtree \<Rightarrow> io_error + unit \<times> dtree" where
  "t_rename src dst t =
     (if file_name src = None \<or> file_name dst = None then Inl EBUSY
      else case (slot t src, slot t dst) of
        (Some s, Some d) \<Rightarrow>
          (if entry_at t s = None then Inl ENOENT
           else if entry_at t d \<noteq> None then Inl EEXIST
           else if prefix s d then Inl EINVAL
           else Inr ((), take_along s d t))
      | _ \<Rightarrow> Inl ENOENT)"

definition t_remove_dir :: "path \<Rightarrow> dtree \<Rightarrow> io_error + unit \<times> dtree" where
  "t_remove_dir p t =
     (case slot t p of
        None \<Rightarrow> Inl ENOENT
      | Some s \<Rightarrow>
          (case entry_at t s of
             None \<Rightarrow> Inl ENOENT
           | Some DirEntry \<Rightarrow>
               if list_ex (\<lambda>(q, _). strict_prefix s q) (dt_entries t) then Inl ENOTEMPTY
               else Inr ((), t\<lparr>dt_entries := filter (\<lambda>(q, _). q \<noteq> s) (dt_entries t)\<rparr>)
           | Some _ \<Rightarrow> Inl ENOTDIR))"

definition t_lstat :: "path \<Rightarrow> dtree \<Rightarrow> io_error + entry \<times> dtree" where
  "t_lstat p t =
     (case unfollowed t p of
        None \<Rightarrow> Inl ENOENT
      | Some l \<Rightarrow> (case entry_at t l of None \<Rightarrow> Inl ENOENT | Some e \<Rightarrow> Inr (e, t)))"

definition t_read_dir :: "path \<Rightarrow> dtree \<Rightarrow> io_error + string list \<times> dtree" where
  "t_read_dir p t =
     (case resolved t p of
        None \<Rightarrow> Inl ENOENT
      | Some l \<Rightarrow> if dir_at t l then Inr (children_of t l, t) else Inl ENOTDIR)"

definition t_open_read :: "path \<Rightarrow> dtree \<Rightarrow> io_error + string \<times> dtree" where
  "t_open_read p t =
     (case unfollowed t p of
        None \<Rightarrow> Inl ENOENT
      | Some l \<Rightarrow>
          (case entry_at t l of
             Some (FileEntry i) \<Rightarrow> Inr (nd_data (dt_nodes t i), t)
           | None \<Rightarrow> Inl ENOENT
           | Some _ \<Rightarrow> Inl (Own ''not a regular file'')))"

text \<open>\<open>create_dir_all\<close>: every directory of the path that is missing.\<close>

function make_dirs :: "nat \<Rightarrow> location \<Rightarrow> path \<Rightarrow> dtree \<Rightarrow> dtree" where
  "make_dirs k cur [] t = t"
| "make_dirs k cur (RootDir # cs) t = make_dirs k [] cs t"
| "make_dirs k cur (CurDir # cs) t = make_dirs k cur cs t"
| "make_dirs k cur (ParentDir # cs) t = make_dirs k (butlast cur) cs t"
| "make_dirs k cur (Normal n # cs) t =
     (case entry_at t (cur @ [n]) of
        None \<Rightarrow> make_dirs k (cur @ [n]) cs (t\<lparr>dt_entries := dt_entries t @ [(cur @ [n], DirEntry)]\<rparr>)
      | Some DirEntry \<Rightarrow> make_dirs k (cur @ [n]) cs t
      | Some (LinkEntry target) \<Rightarrow> (case k of 0 \<Rightarrow> t | Suc k' \<Rightarrow> make_dirs k' cur (target @ cs) t)
      | Some _ \<Rightarrow> t)"
  by pat_completeness auto
termination
  by (relation "inv_image (less_than <*lex*> less_than) (\<lambda>(k, cur, cs, t). (k, length cs))") auto

section \<open>A run\<close>

text \<open>
  The surroundings: outsiders before each tick, the error a call fails with, where a listing stops
  short, what is refused as the program's own open database or lock file, and the digest function.
\<close>

record tenv =
  te_outside :: "nat \<Rightarrow> dtree \<Rightarrow> dtree"
  te_fault :: "nat \<Rightarrow> io_error option"
  te_stop :: "nat \<Rightarrow> nat option"
  te_protected :: "dtree \<Rightarrow> path \<Rightarrow> string option"
  te_database :: "inode_id \<Rightarrow> bool"
  te_digest :: "string \<Rightarrow> string"

record tworld =
  tw_tick :: nat
  tw_tree :: dtree

definition tcall ::
  "tenv \<Rightarrow> (dtree \<Rightarrow> io_error + 'a \<times> dtree) \<Rightarrow> tworld \<Rightarrow> (io_error + 'a) \<times> tworld" where
  "tcall env body w =
     (let n = tw_tick w; t = te_outside env n (tw_tree w)
      in case te_fault env n of
           Some e \<Rightarrow> (Inl e, \<lparr>tw_tick = n + 1, tw_tree = t\<rparr>)
         | None \<Rightarrow>
             (case body t of
                Inl e \<Rightarrow> (Inl e, \<lparr>tw_tick = n + 1, tw_tree = t\<rparr>)
              | Inr (x, t') \<Rightarrow> (Inr x, \<lparr>tw_tick = n + 1, tw_tree = t'\<rparr>)))"

text \<open>\<open>Path::is_dir\<close> and \<open>Path::exists\<close>: an error reads as no.\<close>

definition is_dir :: "tenv \<Rightarrow> path \<Rightarrow> tworld \<Rightarrow> bool \<times> tworld" where
  "is_dir env p w =
     (case tcall env (\<lambda>t. Inr (case resolved t p of None \<Rightarrow> False | Some l \<Rightarrow> dir_at t l, t)) w of
        (Inl _, w') \<Rightarrow> (False, w')
      | (Inr b, w') \<Rightarrow> (b, w'))"

definition exists_at :: "tenv \<Rightarrow> path \<Rightarrow> tworld \<Rightarrow> bool \<times> tworld" where
  "exists_at env p w =
     (case tcall env (\<lambda>t. Inr (resolved t p \<noteq> None, t)) w of
        (Inl _, w') \<Rightarrow> (False, w')
      | (Inr b, w') \<Rightarrow> (b, w'))"

definition lstat :: "tenv \<Rightarrow> path \<Rightarrow> tworld \<Rightarrow> (io_error + entry) \<times> tworld" where
  "lstat env p = tcall env (t_lstat p)"

text \<open>\<open>read_dir\<close>: the names, and whether the listing stopped on an error after some of them.\<close>

definition read_dir :: "tenv \<Rightarrow> path \<Rightarrow> tworld \<Rightarrow> (io_error + string list \<times> bool) \<times> tworld" where
  "read_dir env p w =
     (case tcall env (t_read_dir p) w of
        (Inl e, w') \<Rightarrow> (Inl e, w')
      | (Inr names, w') \<Rightarrow>
          (case te_stop env (tw_tick w) of
             None \<Rightarrow> (Inr (names, False), w')
           | Some k \<Rightarrow> (Inr (take k names, True), w')))"

definition remove_dir :: "tenv \<Rightarrow> path \<Rightarrow> tworld \<Rightarrow> (io_error + unit) \<times> tworld" where
  "remove_dir env p = tcall env (t_remove_dir p)"

definition read_content :: "tenv \<Rightarrow> path \<Rightarrow> tworld \<Rightarrow> (io_error + string) \<times> tworld" where
  "read_content env p = tcall env (t_open_read p)"

definition create_dirs :: "tenv \<Rightarrow> path \<Rightarrow> tworld \<Rightarrow> tworld" where
  "create_dirs env p w = snd (tcall env (\<lambda>t. Inr ((), make_dirs max_links [] p t)) w)"

text \<open>\<open>move_file::rename_noreplace\<close>.\<close>

definition rename_into :: "tenv \<Rightarrow> path \<Rightarrow> path \<Rightarrow> tworld \<Rightarrow> (io_error + unit) \<times> tworld" where
  "rename_into env src dest w =
     (if has_nul src \<or> has_nul dest then (Inl (Own ''nul byte in a name''), w)
      else tcall env (\<lambda>t. case te_protected env t src of Some why \<Rightarrow> Inl (Own why) | None \<Rightarrow> t_rename src dest t) w)"

end
