(* ===== verification/Move_Batch.thy ===== *)
theory Move_Batch
  imports Move_Tree
begin

text \<open>
  \<open>tui/commander/move_batch.rs\<close> with \<open>same_size_files\<close>, \<open>dup_dest\<close>, \<open>restore_one\<close> and
  \<open>undo_last_move\<close> of \<open>tui/commander/mod.rs\<close>: moving a batch of files and directories into one
  directory, and undoing it. A file that duplicates one already there gets a marker in its name, a
  directory whose name is taken by a directory is merged into it child by child. What only reaches
  the log or the panels is left out.
\<close>

section \<open>The state of a batch\<close>

type_synonym file_identity = "inode_id \<times> u64 \<times> i64"

record move_event =
  me_scan_id :: "i64 option"
  me_source :: path
  me_target :: path
  me_hash :: "string option"
  me_duplicate :: bool

record move_store =
  ms_cache :: "(file_identity \<times> string) list"
  ms_events :: "move_event list"

record move_outcome =
  mo_moved :: "(path \<times> path) list"
  mo_hashes :: "(path \<times> string) list"
  mo_to_hash :: "path list"
  mo_failed :: nat
  mo_dups :: nat

record mb =
  mb_world :: tworld
  mb_store :: "move_store option"
  mb_out :: move_outcome

definition failed_one :: "mb \<Rightarrow> mb" where
  "failed_one s = s\<lparr>mb_out := (mb_out s)\<lparr>mo_failed := mo_failed (mb_out s) + 1\<rparr>\<rparr>"

definition on_world :: "(tworld \<Rightarrow> 'a \<times> tworld) \<Rightarrow> mb \<Rightarrow> 'a \<times> mb" where
  "on_world f s = (case f (mb_world s) of (x, w) \<Rightarrow> (x, s\<lparr>mb_world := w\<rparr>))"

definition tree_of :: "mb \<Rightarrow> dtree" where
  "tree_of s = tw_tree (mb_world s)"

section \<open>Moving one thing\<close>

text \<open>The loops of \<open>move_to\<close> and \<open>move_dir_to\<close>: \<open>dest\<close>, \<open>dest.1\<close>, \<dots>, at most \<open>attempts\<close> tries.\<close>

fun claim_in_tree ::
  "tenv \<Rightarrow> (path \<Rightarrow> bool) \<Rightarrow> nat \<Rightarrow> path \<Rightarrow> path \<Rightarrow> nat \<Rightarrow> tworld \<Rightarrow> (move_error + path) \<times> tworld" where
  "claim_in_tree env skip 0 src dest n w = (Inl CounterExhausted, w)"
| "claim_in_tree env skip (Suc attempts) src dest n w =
     (if skip (suffixed dest n) then claim_in_tree env skip attempts src dest (n + 1) w
      else case rename_into env src (suffixed dest n) w of
             (Inr _, w') \<Rightarrow> (Inr (suffixed dest n), w')
           | (Inl e, w') \<Rightarrow>
               if e = EEXIST then claim_in_tree env skip attempts src dest (n + 1) w'
               else if e = EXDEV then (Inl (CrossDevice src dest), w')
               else if 0 < n \<and> e = ENAMETOOLONG then (Inl (SuffixTooLong dest n e), w')
               else (Inl (IoFailed e), w'))"

definition tree_move_to :: "tenv \<Rightarrow> nat \<Rightarrow> path \<Rightarrow> path \<Rightarrow> tworld \<Rightarrow> (move_error + path) \<times> tworld" where
  "tree_move_to env attempts src dest w =
     (case lstat env src w of
        (Inl e, w1) \<Rightarrow> (Inl (IoFailed e), w1)
      | (Inr ent, w1) \<Rightarrow>
          (case ent of
             LinkEntry _ \<Rightarrow> (Inl SymlinkRefused, w1)
           | FileEntry _ \<Rightarrow>
               (case parent dest of
                  None \<Rightarrow> (Inl NoParent, w1)
                | Some p \<Rightarrow>
                    (case is_dir env p w1 of
                       (False, w2) \<Rightarrow> (Inl (NoDestination p), w2)
                     | (True, w2) \<Rightarrow>
                         if parent src = Some p \<and> file_name dest = file_name src then (Inl AlreadyThere, w2)
                         else claim_in_tree env (\<lambda>_. False) attempts src dest 0 w2))
           | _ \<Rightarrow> (Inl NotAFile, w1)))"

definition tree_move_dir_to :: "tenv \<Rightarrow> nat \<Rightarrow> path \<Rightarrow> path \<Rightarrow> tworld \<Rightarrow> (move_error + path) \<times> tworld" where
  "tree_move_dir_to env attempts src dest w =
     (case lstat env src w of
        (Inl e, w1) \<Rightarrow> (Inl (IoFailed e), w1)
      | (Inr ent, w1) \<Rightarrow>
          (if ent \<noteq> DirEntry then (Inl NotADirectory, w1)
           else case parent dest of
             None \<Rightarrow> (Inl NoParent, w1)
           | Some p \<Rightarrow>
               (case is_dir env p w1 of
                  (False, w2) \<Rightarrow> (Inl (NoDestination p), w2)
                | (True, w2) \<Rightarrow>
                    if parent src = Some p \<and> file_name dest = file_name src then (Inl AlreadyThere, w2)
                    else if starts_with dest src then (Inl IntoItself, w2)
                    else claim_in_tree env (\<lambda>candidate. starts_with candidate src) attempts src dest 0 w2)))"

definition tree_move_into_dir :: "tenv \<Rightarrow> nat \<Rightarrow> path \<Rightarrow> path \<Rightarrow> tworld \<Rightarrow> (move_error + path) \<times> tworld" where
  "tree_move_into_dir env attempts src dir w =
     (case file_name src of
        None \<Rightarrow> (Inl NoFileName, w)
      | Some name \<Rightarrow> tree_move_to env attempts src (join dir [Normal name]) w)"

definition tree_move_dir_into :: "tenv \<Rightarrow> nat \<Rightarrow> path \<Rightarrow> path \<Rightarrow> tworld \<Rightarrow> (move_error + path) \<times> tworld" where
  "tree_move_dir_into env attempts src dir w =
     (case file_name src of
        None \<Rightarrow> (Inl NoFileName, w)
      | Some name \<Rightarrow> tree_move_dir_to env attempts src (join dir [Normal name]) w)"

section \<open>The marker of a duplicate\<close>

text \<open>\<open>Path::file_stem\<close> and \<open>Path::extension\<close>: the last dot splits, unless it opens the name.\<close>

definition stem_and_extension :: "string \<Rightarrow> string \<times> string option" where
  "stem_and_extension name =
     (let back_part = takeWhile (\<lambda>c. c \<noteq> CHR ''.'') (rev name);
          front = drop (length back_part) (rev name)
      in if name = ''..'' \<or> front = [] \<or> tl front = [] then (name, None)
         else (rev (tl front), Some (rev back_part)))"

definition dup_name :: "string \<Rightarrow> nat \<Rightarrow> string" where
  "dup_name name n =
     (case stem_and_extension name of (stem, ext) \<Rightarrow>
        stem @ ''.dup'' @ decimal n @ (case ext of None \<Rightarrow> [] | Some e \<Rightarrow> CHR ''.'' # e))"

fun dup_dest :: "tenv \<Rightarrow> nat \<Rightarrow> path \<Rightarrow> string \<Rightarrow> nat \<Rightarrow> tworld \<Rightarrow> path option \<times> tworld" where
  "dup_dest env 0 dir name n w = (None, w)"
| "dup_dest env (Suc attempts) dir name n w =
     (let candidate = join dir [Normal (dup_name name n)]
      in case exists_at env candidate w of
           (False, w') \<Rightarrow> (Some candidate, w')
         | (True, w') \<Rightarrow> dup_dest env attempts dir name (n + 1) w')"

definition move_duplicate :: "tenv \<Rightarrow> nat \<Rightarrow> path \<Rightarrow> path \<Rightarrow> tworld \<Rightarrow> (move_error + path) \<times> tworld" where
  "move_duplicate env attempts src dir w =
     (case dup_dest env attempts dir (case file_name src of None \<Rightarrow> [] | Some name \<Rightarrow> name) 1 w of
        (None, w1) \<Rightarrow> (Inl CounterExhausted, w1)
      | (Some dest, w1) \<Rightarrow> tree_move_to env attempts src dest w1)"

section \<open>Is it a duplicate\<close>

definition identity_of :: "dtree \<Rightarrow> inode_id \<Rightarrow> file_identity" where
  "identity_of t i = (i, len_u64 (nd_data (dt_nodes t i)), nd_mtime (dt_nodes t i))"

text \<open>
  \<open>same_size_files\<close>: the regular files of a directory with that size, none of them the program's own
  database, in the order of their names. What vanished since the listing is passed over.
\<close>

fun candidates_among ::
  "tenv \<Rightarrow> path \<Rightarrow> u64 \<Rightarrow> string list \<Rightarrow> tworld \<Rightarrow> (io_error + path list) \<times> tworld" where
  "candidates_among env dir size_wanted [] w = (Inr [], w)"
| "candidates_among env dir size_wanted (n # ns) w =
     (case lstat env (join dir [Normal n]) w of
        (Inl e, w1) \<Rightarrow> if e = ENOENT then candidates_among env dir size_wanted ns w1 else (Inl e, w1)
      | (Inr ent, w1) \<Rightarrow>
          (case candidates_among env dir size_wanted ns w1 of
             (Inl e, w2) \<Rightarrow> (Inl e, w2)
           | (Inr ps, w2) \<Rightarrow>
               (Inr (case ent of
                       FileEntry i \<Rightarrow>
                         if len_u64 (nd_data (dt_nodes (tw_tree w1) i)) = size_wanted \<and> \<not> te_database env i
                         then join dir [Normal n] # ps else ps
                     | _ \<Rightarrow> ps), w2)))"

definition name_key :: "path \<Rightarrow> string" where
  "name_key p = (case file_name p of None \<Rightarrow> [] | Some n \<Rightarrow> n)"

definition same_size_files :: "tenv \<Rightarrow> path \<Rightarrow> u64 \<Rightarrow> tworld \<Rightarrow> (io_error + path list) \<times> tworld" where
  "same_size_files env dir size_wanted w =
     (case read_dir env dir w of
        (Inl e, w1) \<Rightarrow> (Inl e, w1)
      | (Inr (names, stopped), w1) \<Rightarrow>
          (case candidates_among env dir size_wanted names w1 of
             (Inl e, w2) \<Rightarrow> (Inl e, w2)
           | (Inr ps, w2) \<Rightarrow> if stopped then (Inl EIO, w2) else (Inr (sort_key name_key ps), w2)))"

text \<open>\<open>hash_of\<close>: by identity where the store knows it, otherwise from the content.\<close>

definition db_call :: "tenv \<Rightarrow> 'a \<Rightarrow> tworld \<Rightarrow> (io_error + 'a) \<times> tworld" where
  "db_call env answer = tcall env (\<lambda>t. Inr (answer, t))"

definition hash_file :: "tenv \<Rightarrow> path \<Rightarrow> tworld \<Rightarrow> (io_error + string) \<times> tworld" where
  "hash_file env p w =
     (case read_content env p w of (Inl e, w1) \<Rightarrow> (Inl e, w1) | (Inr data, w1) \<Rightarrow> (Inr (te_digest env data), w1))"

text \<open>The lookup by identity of \<open>state/store.rs\<close> is disabled: whatever the cache holds, it answers nothing.\<close>

definition hash_by_identity :: "move_store \<Rightarrow> file_identity \<Rightarrow> io_error + string option" where
  "hash_by_identity st identity = Inr None"

definition hash_of :: "tenv \<Rightarrow> move_store option \<Rightarrow> path \<Rightarrow> tworld \<Rightarrow> (io_error + string) \<times> tworld" where
  "hash_of env store p w =
     (case lstat env p w of
        (Inl e, w1) \<Rightarrow> (Inl e, w1)
      | (Inr ent, w1) \<Rightarrow>
          (case store of
             None \<Rightarrow> hash_file env p w1
           | Some st \<Rightarrow>
               (case (case ent of FileEntry i \<Rightarrow> hash_by_identity st (identity_of (tw_tree w1) i) | _ \<Rightarrow> Inr None) of
                  Inr (Some h) \<Rightarrow> (Inr h, w1)
                | _ \<Rightarrow> hash_file env p w1)))"

text \<open>The loop over the candidates: found, or not there, or left open by one that could not be read.\<close>

fun find_twin ::
  "tenv \<Rightarrow> move_store option \<Rightarrow> string \<Rightarrow> path list \<Rightarrow> bool \<Rightarrow> tworld \<Rightarrow> bool option \<times> tworld" where
  "find_twin env store own [] unread w = (if unread then None else Some False, w)"
| "find_twin env store own (c # cs) unread w =
     (case hash_of env store c w of
        (Inr other, w1) \<Rightarrow> if other = own then (Some True, w1) else find_twin env store own cs unread w1
      | (Inl e, w1) \<Rightarrow> find_twin env store own cs (if e = ENOENT then unread else True) w1)"

text \<open>Whether the file duplicates one there, and its digest where it took one to tell; else undetermined.\<close>

definition duplicate_question ::
  "tenv \<Rightarrow> move_store option \<Rightarrow> path \<Rightarrow> u64 \<Rightarrow> path \<Rightarrow> tworld \<Rightarrow> (bool \<times> string option) option \<times> tworld" where
  "duplicate_question env store src size_wanted dest_dir w =
     (case same_size_files env dest_dir size_wanted w of
        (Inl e, w1) \<Rightarrow> (None, w1)
      | (Inr [], w1) \<Rightarrow> (Some (False, None), w1)
      | (Inr candidates, w1) \<Rightarrow>
          (case hash_of env store src w1 of
             (Inl e, w2) \<Rightarrow> (None, w2)
           | (Inr own, w2) \<Rightarrow>
               (case find_twin env store own candidates False w2 of
                  (None, w3) \<Rightarrow> (None, w3)
                | (Some dup, w3) \<Rightarrow> (Some (dup, Some own), w3))))"

section \<open>The batch\<close>

text \<open>\<open>record\<close> and \<open>upsert_hash\<close>: both best-effort.\<close>

definition record_move :: "tenv \<Rightarrow> move_event \<Rightarrow> mb \<Rightarrow> mb" where
  "record_move env event s =
     (case mb_store s of
        None \<Rightarrow> s
      | Some st \<Rightarrow>
          (case db_call env () (mb_world s) of
             (Inl e, w) \<Rightarrow> s\<lparr>mb_world := w\<rparr>
           | (Inr _, w) \<Rightarrow> s\<lparr>mb_world := w, mb_store := Some (st\<lparr>ms_events := ms_events st @ [event]\<rparr>)\<rparr>))"

definition remember_hash :: "tenv \<Rightarrow> path \<Rightarrow> string \<Rightarrow> mb \<Rightarrow> mb" where
  "remember_hash env p h s =
     (case mb_store s of
        None \<Rightarrow> s
      | Some st \<Rightarrow>
          (case lstat env p (mb_world s) of
             (Inr (FileEntry i), w1) \<Rightarrow>
               (case db_call env () w1 of
                  (Inl e, w2) \<Rightarrow> s\<lparr>mb_world := w2\<rparr>
                | (Inr _, w2) \<Rightarrow>
                    s\<lparr>mb_world := w2,
                      mb_store := Some (st\<lparr>ms_cache := (identity_of (tw_tree w1) i, h) # ms_cache st\<rparr>)\<rparr>)
           | (_, w1) \<Rightarrow> s\<lparr>mb_world := w1\<rparr>))"

definition move_file_item ::
  "tenv \<Rightarrow> nat \<Rightarrow> i64 option \<Rightarrow> path \<Rightarrow> u64 \<Rightarrow> path \<Rightarrow> mb \<Rightarrow> mb" where
  "move_file_item env attempts scan src size_wanted dest_dir s =
     (case on_world (duplicate_question env (mb_store s) src size_wanted dest_dir) s of
        (None, s1) \<Rightarrow> failed_one s1
      | (Some (dup, h), s1) \<Rightarrow>
          (case on_world (if dup then move_duplicate env attempts src dest_dir
                          else tree_move_into_dir env attempts src dest_dir) s1 of
             (Inl e, s2) \<Rightarrow> failed_one s2
           | (Inr final_dest, s2) \<Rightarrow>
               let s3 = record_move env \<lparr>me_scan_id = scan, me_source = src, me_target = final_dest,
                          me_hash = h, me_duplicate = dup\<rparr> s2;
                   s4 = (case h of None \<Rightarrow> s3 | Some known \<Rightarrow> remember_hash env final_dest known s3)
               in s4\<lparr>mb_out := (mb_out s4)\<lparr>
                      mo_hashes := mo_hashes (mb_out s4) @ (case h of None \<Rightarrow> [] | Some d \<Rightarrow> [(final_dest, d)]),
                      mo_to_hash := mo_to_hash (mb_out s4) @ (if h = None then [final_dest] else []),
                      mo_dups := mo_dups (mb_out s4) + (if dup then 1 else 0),
                      mo_moved := mo_moved (mb_out s4) @ [(src, final_dest)]\<rparr>\<rparr>))"

fun each_item :: "(path \<Rightarrow> mb \<Rightarrow> mb option) \<Rightarrow> path list \<Rightarrow> mb \<Rightarrow> mb option" where
  "each_item f [] s = Some s"
| "each_item f (p # ps) s = (case f p s of None \<Rightarrow> None | Some s' \<Rightarrow> each_item f ps s')"

text \<open>\<open>item\<close> is the move of one child; \<open>None\<close> is a recursion deeper than the fuel.\<close>

definition merge_dir ::
  "(path \<Rightarrow> path \<Rightarrow> mb \<Rightarrow> mb option) \<Rightarrow> tenv \<Rightarrow> path \<Rightarrow> path \<Rightarrow> mb \<Rightarrow> mb option" where
  "merge_dir item env src target_dir s =
     (case on_world (read_dir env src) s of
        (Inl e, s1) \<Rightarrow> Some (failed_one s1)
      | (Inr (names, stopped), s1) \<Rightarrow>
          let s2 = (if stopped then failed_one s1 else s1);
              children = sort_key name_key (map (\<lambda>n. join src [Normal n]) names)
          in (case each_item (\<lambda>child. item child target_dir) children s2 of
               None \<Rightarrow> None
             | Some s3 \<Rightarrow>
                 (case on_world (remove_dir env src) s3 of
                    (Inr _, s4) \<Rightarrow> Some s4
                  | (Inl e, s4) \<Rightarrow>
                      Some (if mo_failed (mb_out s4) = mo_failed (mb_out s1) then failed_one s4 else s4))))"

definition move_dir_item ::
  "(path \<Rightarrow> path \<Rightarrow> mb \<Rightarrow> mb option) \<Rightarrow> tenv \<Rightarrow> nat \<Rightarrow> i64 option \<Rightarrow> path \<Rightarrow> path \<Rightarrow> mb \<Rightarrow> mb option" where
  "move_dir_item item env attempts scan src dest_dir s =
     (case file_name src of
        None \<Rightarrow> Some (failed_one s)
      | Some name \<Rightarrow>
          (case on_world (is_dir env (join dest_dir [Normal name])) s of
             (True, s1) \<Rightarrow> merge_dir item env src (join dest_dir [Normal name]) s1
           | (False, s1) \<Rightarrow>
               (case on_world (tree_move_dir_into env attempts src dest_dir) s1 of
                  (Inl e, s2) \<Rightarrow> Some (failed_one s2)
                | (Inr final_dest, s2) \<Rightarrow>
                    let s3 = record_move env \<lparr>me_scan_id = scan, me_source = src, me_target = final_dest,
                               me_hash = None, me_duplicate = False\<rparr> s2
                    in Some (s3\<lparr>mb_out := (mb_out s3)\<lparr>mo_moved := mo_moved (mb_out s3) @ [(src, final_dest)]\<rparr>\<rparr>))))"

definition refused_at_once :: "tenv \<Rightarrow> path \<Rightarrow> tworld \<Rightarrow> bool \<times> tworld" where
  "refused_at_once env src w =
     (case tcall env (\<lambda>t. Inr (te_protected env t src \<noteq> None, t)) w of
        (Inl _, w') \<Rightarrow> (True, w')
      | (Inr b, w') \<Rightarrow> (b, w'))"

definition move_item_with ::
  "(path \<Rightarrow> path \<Rightarrow> mb \<Rightarrow> mb option) \<Rightarrow> tenv \<Rightarrow> nat \<Rightarrow> i64 option \<Rightarrow> path \<Rightarrow> path \<Rightarrow> mb \<Rightarrow> mb option" where
  "move_item_with item env attempts scan src dest_dir s =
     (case on_world (lstat env src) s of
        (Inl e, s1) \<Rightarrow> Some (failed_one s1)
      | (Inr (LinkEntry _), s1) \<Rightarrow> Some (failed_one s1)
      | (Inr ent, s1) \<Rightarrow>
          (case on_world (refused_at_once env src) s1 of
             (True, s2) \<Rightarrow> Some (failed_one s2)
           | (False, s2) \<Rightarrow>
               if ent = DirEntry then move_dir_item item env attempts scan src dest_dir s2
               else Some (move_file_item env attempts scan src
                 (case ent of FileEntry i \<Rightarrow> len_u64 (nd_data (dt_nodes (tree_of s1) i)) | _ \<Rightarrow> 0) dest_dir s2)))"

primrec move_item ::
  "nat \<Rightarrow> tenv \<Rightarrow> nat \<Rightarrow> i64 option \<Rightarrow> path \<Rightarrow> path \<Rightarrow> mb \<Rightarrow> mb option" where
  "move_item 0 env attempts scan = (\<lambda>src dest_dir s. None)"
| "move_item (Suc fuel) env attempts scan =
     move_item_with (move_item fuel env attempts scan) env attempts scan"

definition empty_outcome :: move_outcome where
  "empty_outcome = \<lparr>mo_moved = [], mo_hashes = [], mo_to_hash = [], mo_failed = 0, mo_dups = 0\<rparr>"

definition move_batch ::
  "nat \<Rightarrow> tenv \<Rightarrow> nat \<Rightarrow> path list \<Rightarrow> path \<Rightarrow> i64 option \<Rightarrow> move_store option \<Rightarrow> tworld \<Rightarrow> mb option" where
  "move_batch fuel env attempts sources dest_dir scan store w =
     each_item (\<lambda>src. move_item fuel env attempts scan src dest_dir) sources
       \<lparr>mb_world = w, mb_store = store, mb_out = empty_outcome\<rparr>"

section \<open>Undo\<close>

definition restore_one :: "tenv \<Rightarrow> nat \<Rightarrow> path \<Rightarrow> path \<Rightarrow> tworld \<Rightarrow> (move_error + path) \<times> tworld" where
  "restore_one env attempts moved_to original w =
     (let w1 = (case parent original of None \<Rightarrow> w | Some p \<Rightarrow> create_dirs env p w)
      in case lstat env moved_to w1 of
           (Inr DirEntry, w2) \<Rightarrow> tree_move_dir_to env attempts moved_to original w2
         | (_, w2) \<Rightarrow> tree_move_to env attempts moved_to original w2)"

fun undo_moves :: "tenv \<Rightarrow> nat \<Rightarrow> (path \<times> path) list \<Rightarrow> nat \<times> nat \<Rightarrow> tworld \<Rightarrow> (nat \<times> nat) \<times> tworld" where
  "undo_moves env attempts [] counts w = (counts, w)"
| "undo_moves env attempts ((from_path, to_path) # items) (restored, failed) w =
     (case restore_one env attempts to_path from_path w of
        (Inr _, w1) \<Rightarrow> undo_moves env attempts items (restored + 1, failed) w1
      | (Inl _, w1) \<Rightarrow> undo_moves env attempts items (restored, failed + 1) w1)"

definition undo_last_move :: "tenv \<Rightarrow> nat \<Rightarrow> move_outcome \<Rightarrow> tworld \<Rightarrow> (nat \<times> nat) \<times> tworld" where
  "undo_last_move env attempts outcome w = undo_moves env attempts (rev (mo_moved outcome)) (0, 0) w"

end
