(* ===== verification/Move_Safety.thy ===== *)
theory Move_Safety
  imports Move_Batch
begin

text \<open>
  What a move batch can do to a tree: one relation between trees, kept by every call the batch makes,
  is kept by the whole batch. Its instances say that nothing is lost, that nothing is overwritten and
  that a file goes nowhere but from its source to the destination.
\<close>

section \<open>One relation for every call\<close>

lemma join_Normal [simp]: "join dir [Normal n] = dir @ [Normal n]"
  by (simp add: join_def)

lemma file_name_snoc [simp]: "file_name (p @ [Normal n]) = Some n"
  by (simp add: file_name_def)

lemma suffixed_snoc: "\<exists>m. suffixed (dir @ [Normal n]) k = dir @ [Normal m]"
  by (auto simp: suffixed_def with_file_name_def)

text \<open>
  \<open>R t ms t'\<close>: from \<open>t\<close> to \<open>t'\<close>, and on the way the moves \<open>ms\<close> were made. \<open>ok src dir\<close> says which
  renames are in question: of \<open>src\<close> to a name of \<open>dir\<close>, and so of the children of \<open>src\<close> to names of the
  directory it is merged into.
\<close>

locale tree_relation =
  fixes env :: tenv and R :: "dtree \<Rightarrow> (path \<times> path) list \<Rightarrow> dtree \<Rightarrow> bool" and ok :: "path \<Rightarrow> path \<Rightarrow> bool"
  assumes R_refl: "R t [] t"
    and R_trans: "R a ms b \<Longrightarrow> R b ns c \<Longrightarrow> R a (ms @ ns) c"
    and R_outside: "R t [] (te_outside env k t)"
    and R_rename: "ok src dir \<Longrightarrow> \<not> has_nul src \<Longrightarrow> \<not> has_nul (dir @ [Normal n]) \<Longrightarrow>
        t_rename src (dir @ [Normal n]) t = Inr (u, t') \<Longrightarrow> R t [(src, dir @ [Normal n])] t'"
    and R_rmdir: "ok src dir \<Longrightarrow> t_remove_dir src t = Inr (u, t') \<Longrightarrow> R t [] t'"
    and ok_child: "ok src dir \<Longrightarrow> file_name src = Some n \<Longrightarrow> ok (src @ [Normal m]) (dir @ [Normal n])"
begin

abbreviation Rw :: "tworld \<Rightarrow> tworld \<Rightarrow> bool" where
  "Rw w w' \<equiv> R (tw_tree w) [] (tw_tree w')"

text \<open>An attempt at a move: made, or nothing but looks.\<close>

definition Rm :: "path \<Rightarrow> move_error + path \<Rightarrow> tworld \<Rightarrow> tworld \<Rightarrow> bool" where
  "Rm src r w w' \<longleftrightarrow> R (tw_tree w) (case r of Inl _ \<Rightarrow> [] | Inr q \<Rightarrow> [(src, q)]) (tw_tree w')"

definition Rs :: "mb \<Rightarrow> mb \<Rightarrow> bool" where
  "Rs s s' \<longleftrightarrow>
     mo_failed (mb_out s) \<le> mo_failed (mb_out s')
     \<and> (\<exists>ms. mo_moved (mb_out s') = mo_moved (mb_out s) @ ms \<and> R (tree_of s) ms (tree_of s'))"

lemma Rw_trans: "R a [] b \<Longrightarrow> R b [] c \<Longrightarrow> R a [] c"
  using R_trans [of a "[]" b "[]" c] by simp

lemma Rw_Rm: "R (tw_tree w) [] b \<Longrightarrow> Rm src r v w' \<Longrightarrow> tw_tree v = b \<Longrightarrow> Rm src r w w'"
  using R_trans [of "tw_tree w" "[]" b] by (simp add: Rm_def)

lemma Rm_Rw: "Rm src r w v \<Longrightarrow> Rw v w' \<Longrightarrow> Rm src r w w'"
  using R_trans by (fastforce simp: Rm_def)

lemma Rm_Inl [simp]: "Rm src (Inl e) w w' \<longleftrightarrow> Rw w w'"
  by (simp add: Rm_def)

lemma Rs_refl: "Rs s s"
  by (auto simp: Rs_def R_refl)

lemma Rs_trans: "Rs a b \<Longrightarrow> Rs b c \<Longrightarrow> Rs a c"
  unfolding Rs_def using R_trans by fastforce

lemma tcall_moves:
  assumes "tcall env body w = (r, w')" and "\<And>t x t'. body t = Inr (x, t') \<Longrightarrow> R t ms t'"
  shows "R (tw_tree w) (case r of Inl _ \<Rightarrow> [] | Inr _ \<Rightarrow> ms) (tw_tree w')"
proof -
  have o: "R (tw_tree w) [] (te_outside env (tw_tick w) (tw_tree w))" by (rule R_outside)
  show ?thesis
  proof (cases "te_fault env (tw_tick w)")
    case None
    show ?thesis
    proof (cases "body (te_outside env (tw_tick w) (tw_tree w))")
      case (Inl e)
      with None o assms(1) show ?thesis by (auto simp: tcall_def Let_def)
    next
      case (Inr y)
      obtain x t' where y: "y = (x, t')" by fastforce
      from R_trans [OF o assms(2)] Inr y have "R (tw_tree w) ([] @ ms) t'" by blast
      with None Inr y assms(1) show ?thesis by (auto simp: tcall_def Let_def)
    qed
  next
    case (Some e)
    with o assms(1) show ?thesis by (auto simp: tcall_def Let_def)
  qed
qed

lemma tcall_R: "tcall env body w = (r, w') \<Longrightarrow> (\<And>t x t'. body t = Inr (x, t') \<Longrightarrow> R t [] t') \<Longrightarrow> Rw w w'"
  by (drule tcall_moves [where ms = "[]"]) (auto split: sum.splits)

lemma tcall_same: "tcall env body w = (r, w') \<Longrightarrow> (\<And>t x t'. body t = Inr (x, t') \<Longrightarrow> t' = t) \<Longrightarrow> Rw w w'"
  by (erule tcall_R) (metis R_refl)

lemma lstat_R: "lstat env p w = (r, w') \<Longrightarrow> Rw w w'"
  unfolding lstat_def by (erule tcall_same) (auto simp: t_lstat_def split: option.splits)

lemma is_dir_R: "is_dir env p w = (b, w') \<Longrightarrow> Rw w w'"
  unfolding is_dir_def by (auto split: prod.splits sum.splits dest!: tcall_same)

lemma exists_R: "exists_at env p w = (b, w') \<Longrightarrow> Rw w w'"
  unfolding exists_at_def by (auto split: prod.splits sum.splits dest!: tcall_same)

lemma read_dir_R: "read_dir env p w = (r, w') \<Longrightarrow> Rw w w'"
  unfolding read_dir_def
  by (auto split: prod.splits sum.splits option.splits if_splits dest!: tcall_same simp: t_read_dir_def)

lemma read_content_R: "read_content env p w = (r, w') \<Longrightarrow> Rw w w'"
  unfolding read_content_def by (erule tcall_same) (auto simp: t_open_read_def split: option.splits entry.splits)

lemma db_call_R: "db_call env x w = (r, w') \<Longrightarrow> Rw w w'"
  unfolding db_call_def by (erule tcall_same) auto

lemma refused_at_once_R: "refused_at_once env p w = (b, w') \<Longrightarrow> Rw w w'"
  unfolding refused_at_once_def by (auto split: prod.splits sum.splits dest!: tcall_same)

lemma remove_dir_R: "ok p dir \<Longrightarrow> remove_dir env p w = (r, w') \<Longrightarrow> Rw w w'"
  unfolding remove_dir_def by (erule tcall_R) (blast intro: R_rmdir)

lemma rename_into_R:
  assumes "ok src dir" and "rename_into env src (dir @ [Normal n]) w = (r, w')"
  shows "R (tw_tree w) (case r of Inl _ \<Rightarrow> [] | Inr _ \<Rightarrow> [(src, dir @ [Normal n])]) (tw_tree w')"
proof (cases "has_nul src \<or> has_nul (dir @ [Normal n])")
  case True
  with assms(2) show ?thesis by (auto simp: rename_into_def R_refl)
next
  case False
  with assms(2) have "tcall env (\<lambda>t. case te_protected env t src of Some why \<Rightarrow> Inl (Own why)
      | None \<Rightarrow> t_rename src (dir @ [Normal n]) t) w = (r, w')"
    by (simp add: rename_into_def)
  then show ?thesis
    by (rule tcall_moves) (use False in \<open>auto split: option.splits intro: R_rename [OF assms(1)]\<close>)
qed

lemma claim_R:
  "ok src dir \<Longrightarrow> claim_in_tree env skip attempts src (dir @ [Normal n]) k w = (r, w') \<Longrightarrow> Rm src r w w'"
proof (induction attempts arbitrary: k w)
  case (Suc attempts)
  obtain m where m: "suffixed (dir @ [Normal n]) k = dir @ [Normal m]" using suffixed_snoc by blast
  obtain x v where rn: "rename_into env src (dir @ [Normal m]) w = (x, v)" by fastforce
  note step = rename_into_R [OF Suc.prems(1) rn]
  consider (again) u where "Rw w u" "claim_in_tree env skip attempts src (dir @ [Normal n]) (k + 1) u = (r, w')"
    | (stopped) e where "r = Inl e" "Rw w w'"
    | (moved) "r = Inr (dir @ [Normal m])" "x = Inr ()" "w' = v"
    using Suc.prems(2) m rn step R_refl by (auto split: if_splits sum.splits)
  then show ?case
  proof cases
    case again
    with Suc.IH [OF Suc.prems(1) again(2)] show ?thesis by (blast intro: Rw_Rm)
  next
    case moved
    with step show ?thesis by (simp add: Rm_def)
  qed simp
qed (auto simp: R_refl)

lemma tree_move_to_R: "ok src dir \<Longrightarrow> tree_move_to env attempts src (dir @ [Normal n]) w = (r, w') \<Longrightarrow> Rm src r w w'"
  unfolding tree_move_to_def
  by (auto split: prod.splits sum.splits entry.splits option.splits bool.splits if_splits
      dest!: lstat_R is_dir_R claim_R intro: Rw_trans Rw_Rm)

lemma tree_move_dir_to_R:
  "ok src dir \<Longrightarrow> tree_move_dir_to env attempts src (dir @ [Normal n]) w = (r, w') \<Longrightarrow> Rm src r w w'"
  unfolding tree_move_dir_to_def
  by (auto split: prod.splits sum.splits entry.splits option.splits bool.splits if_splits
      dest!: lstat_R is_dir_R claim_R intro: Rw_trans Rw_Rm)

lemma dup_dest_R: "dup_dest env attempts dir name n w = (r, w') \<Longrightarrow> Rw w w'"
proof (induction attempts arbitrary: n w)
  case (Suc attempts)
  then show ?case
    by (auto simp: Let_def split: prod.splits bool.splits dest!: exists_R intro: Rw_trans)
qed (simp add: R_refl)

lemma dup_dest_path: "dup_dest env attempts dir name n w = (Some p, w') \<Longrightarrow> \<exists>m. p = dir @ [Normal m]"
  by (induction attempts arbitrary: n w) (auto simp: Let_def split: prod.splits bool.splits)

lemma move_duplicate_R: "ok src dir \<Longrightarrow> move_duplicate env attempts src dir w = (r, w') \<Longrightarrow> Rm src r w w'"
  unfolding move_duplicate_def
  by (auto split: prod.splits option.splits dest: dup_dest_R)
    (metis dup_dest_R dup_dest_path tree_move_to_R Rw_Rm)+

lemma candidates_among_R: "candidates_among env dir b ns w = (r, w') \<Longrightarrow> Rw w w'"
proof (induction ns arbitrary: w w' r)
  case (Cons n ns)
  obtain x v where v: "lstat env (dir @ [Normal n]) w = (x, v)" by fastforce
  obtain y u where u: "candidates_among env dir b ns v = (y, u)" by fastforce
  have "w' = v \<or> w' = u" using Cons.prems v u by (cases x; cases y) (simp_all split: if_splits)
  with lstat_R [OF v] Rw_trans [OF lstat_R [OF v] Cons.IH [OF u]] show ?case by blast
qed (simp add: R_refl)

lemma same_size_files_R: "same_size_files env dir b w = (r, w') \<Longrightarrow> Rw w w'"
proof -
  assume a: "same_size_files env dir b w = (r, w')"
  obtain x v where v: "read_dir env dir w = (x, v)" by fastforce
  show "Rw w w'"
  proof (cases x)
    case (Inl e)
    with a v read_dir_R [OF v] show ?thesis by (simp add: same_size_files_def)
  next
    case (Inr y)
    obtain names stopped where y: "y = (names, stopped)" by fastforce
    obtain z u where u: "candidates_among env dir b names v = (z, u)" by fastforce
    have "w' = u" using a v Inr y u by (simp add: same_size_files_def split: sum.splits if_splits)
    with Rw_trans [OF read_dir_R [OF v] candidates_among_R [OF u]] show ?thesis by simp
  qed
qed

lemma hash_file_R: "hash_file env p w = (r, w') \<Longrightarrow> Rw w w'"
  unfolding hash_file_def by (auto split: prod.splits sum.splits dest!: read_content_R)

lemma hash_of_R:
  assumes "hash_of env store p w = (r, w')"
  shows "Rw w w'"
proof -
  obtain x w1 where 1: "lstat env p w = (x, w1)" by fastforce
  note s1 = lstat_R [OF 1]
  show ?thesis
  proof (cases x)
    case (Inl e)
    with assms 1 s1 show ?thesis by (simp add: hash_of_def)
  next
    case (Inr ent)
    from assms 1 Inr have "hash_file env p w1 = (r, w')"
      by (auto simp: hash_of_def hash_by_identity_def split: option.splits entry.splits)
    from Rw_trans [OF s1 hash_file_R [OF this]] show ?thesis .
  qed
qed

lemma find_twin_R: "find_twin env store own cs unread w = (r, w') \<Longrightarrow> Rw w w'"
proof (induction cs arbitrary: unread w)
  case (Cons c cs)
  obtain x v where v: "hash_of env store c w = (x, v)" by fastforce
  show ?case
    using Cons.prems Cons.IH hash_of_R [OF v] v Rw_trans by (auto split: sum.splits if_splits)
qed (simp add: R_refl)

lemma duplicate_question_R:
  assumes "duplicate_question env store src b dir w = (r, w')"
  shows "Rw w w'"
proof -
  obtain x w1 where 1: "same_size_files env dir b w = (x, w1)" by fastforce
  obtain y w2 where 2: "hash_of env store src w1 = (y, w2)" by fastforce
  note r1 = same_size_files_R [OF 1] and r2 = Rw_trans [OF same_size_files_R [OF 1] hash_of_R [OF 2]]
  show ?thesis
  proof (cases "\<exists>c cs own. x = Inr (c # cs) \<and> y = Inr own")
    case False
    with assms 1 2 have "w' = w1 \<or> w' = w2"
      by (cases x; cases y) (auto simp: duplicate_question_def split: list.splits)
    with r1 r2 show ?thesis by blast
  next
    case True
    then obtain c cs own where xy: "x = Inr (c # cs)" "y = Inr own" by blast
    obtain z w3 where 3: "find_twin env store own (c # cs) False w2 = (z, w3)" by fastforce
    have "w' = w3"
      using assms by (simp add: duplicate_question_def 1 2 3 xy del: find_twin.simps split: option.splits)
    with Rw_trans [OF r2 find_twin_R [OF 3]] show ?thesis by simp
  qed
qed

lemma on_world_step: "on_world f s = (x, s') \<Longrightarrow> \<exists>w'. f (mb_world s) = (x, w') \<and> s' = s\<lparr>mb_world := w'\<rparr>"
  by (auto simp: on_world_def split: prod.splits)

lemma on_world_R: "on_world f s = (x, s') \<Longrightarrow> (\<And>w'. f (mb_world s) = (x, w') \<Longrightarrow> Rw (mb_world s) w') \<Longrightarrow> Rs s s'"
  by (auto simp: Rs_def tree_of_def dest!: on_world_step)

lemma tree_of_simps [simp]:
  "tree_of (failed_one s) = tree_of s" "tree_of (s\<lparr>mb_out := out\<rparr>) = tree_of s"
  "tree_of (s\<lparr>mb_store := st\<rparr>) = tree_of s" "tree_of (s\<lparr>mb_world := w\<rparr>) = tw_tree w"
  "mo_moved (mb_out (failed_one s)) = mo_moved (mb_out s)"
  by (simp_all add: tree_of_def failed_one_def)

lemma mo_failed_one [simp]: "mo_failed (mb_out (failed_one s)) = mo_failed (mb_out s) + 1"
  by (simp add: failed_one_def)

lemma Rs_failed: "Rs s s' \<Longrightarrow> Rs s (failed_one s')"
  by (auto simp: Rs_def)

lemma Rw_Rs: "Rw (mb_world s) w \<Longrightarrow> Rs s (s\<lparr>mb_world := w\<rparr>)" "Rw (mb_world s) w \<Longrightarrow> Rs s (s\<lparr>mb_world := w, mb_store := st\<rparr>)"
  by (simp_all add: Rs_def tree_of_def)

lemma record_move_R: "Rs s (record_move env event s)"
proof -
  obtain x w where c: "db_call env () (mb_world s) = (x, w)" by fastforce
  from Rw_Rs [OF db_call_R [OF this]] show ?thesis
    by (auto simp: record_move_def c Rs_refl split: option.splits sum.splits)
qed

lemma remember_hash_R: "Rs s (remember_hash env p h s)"
proof -
  obtain x w1 where 1: "lstat env p (mb_world s) = (x, w1)" by fastforce
  obtain y w2 where 2: "db_call env () w1 = (y, w2)" by fastforce
  note r = Rw_Rs [OF lstat_R [OF 1]] Rw_Rs [OF Rw_trans [OF lstat_R [OF 1] db_call_R [OF 2]]]
  from r show ?thesis
    by (auto simp: remember_hash_def 1 2 Rs_refl split: option.splits sum.splits entry.splits)
qed

text \<open>A move that was made, noted in the outcome.\<close>

lemma Rs_moved:
  assumes "on_world f s1 = (Inr q, s2)" "\<And>w'. f (mb_world s1) = (Inr q, w') \<Longrightarrow> Rm src (Inr q) (mb_world s1) w'"
    and "Rs s2 s3" and "mo_moved (mb_out s3) = mo_moved (mb_out s2)"
    and "tree_of s4 = tree_of s3" "mo_moved (mb_out s4) = mo_moved (mb_out s3) @ [(src, q)]"
    and "mo_failed (mb_out s4) = mo_failed (mb_out s3)"
  shows "Rs s1 s4"
proof -
  from on_world_step [OF assms(1)] obtain w' where w: "f (mb_world s1) = (Inr q, w')" "s2 = s1\<lparr>mb_world := w'\<rparr>" by blast
  with assms(2) have "R (tree_of s1) [(src, q)] (tree_of s2)" by (simp add: Rm_def tree_of_def)
  moreover from assms(3,4) have "R (tree_of s2) [] (tree_of s3)" by (auto simp: Rs_def)
  ultimately have "R (tree_of s1) [(src, q)] (tree_of s4)" using R_trans assms(5) by fastforce
  moreover from assms(3) w(2) have "mo_failed (mb_out s1) \<le> mo_failed (mb_out s3)" by (simp add: Rs_def)
  ultimately show ?thesis using w assms(4,6,7) by (simp add: Rs_def)
qed

lemma moved_same [simp]:
  "mo_moved (mb_out (record_move env event s)) = mo_moved (mb_out s)"
  "mo_moved (mb_out (remember_hash env p h s)) = mo_moved (mb_out s)"
  "mo_failed (mb_out (record_move env event s)) = mo_failed (mb_out s)"
  "mo_failed (mb_out (remember_hash env p h s)) = mo_failed (mb_out s)"
  by (auto simp: record_move_def remember_hash_def split: option.splits prod.splits sum.splits entry.splits)

lemma move_file_item_R:
  assumes "ok src dir"
  shows "Rs s (move_file_item env attempts scan src b dir s)"
proof -
  obtain q s1 where 1: "on_world (duplicate_question env (mb_store s) src b dir) s = (q, s1)" by fastforce
  have r1: "Rs s s1" by (rule on_world_R [OF 1 duplicate_question_R])
  show ?thesis
  proof (cases q)
    case None
    with 1 r1 show ?thesis by (simp add: move_file_item_def Rs_failed)
  next
    case (Some a)
    obtain dup h where a: "a = (dup, h)" by fastforce
    define f where "f = (if dup then move_duplicate env attempts src dir else tree_move_into_dir env attempts src dir)"
    have f: "Rm src x w w'" if "f w = (x, w')" for x w w'
      using that move_duplicate_R [OF assms] tree_move_to_R [OF assms]
      by (auto simp: f_def tree_move_into_dir_def R_refl split: if_splits option.splits)
    obtain y s2 where 2: "on_world f s1 = (y, s2)" by fastforce
    show ?thesis
    proof (cases y)
      case (Inl e)
      have "Rs s1 s2" by (rule on_world_R [OF 2]) (use f Inl in force)
      then have "Rs s s2" using r1 Rs_trans by blast
      with 1 Some a 2 Inl show ?thesis by (simp add: move_file_item_def Rs_failed flip: f_def)
    next
      case (Inr final_dest)
      define s3 where "s3 = record_move env \<lparr>me_scan_id = scan, me_source = src, me_target = final_dest,
        me_hash = h, me_duplicate = dup\<rparr> s2"
      define s4 where "s4 = (case h of None \<Rightarrow> s3 | Some known \<Rightarrow> remember_hash env final_dest known s3)"
      define s5 where "s5 = move_file_item env attempts scan src b dir s"
      have "Rs s2 s3" unfolding s3_def by (rule record_move_R)
      moreover have "Rs s3 s4" unfolding s4_def by (auto simp: Rs_refl remember_hash_R split: option.splits)
      ultimately have r4: "Rs s2 s4" by (rule Rs_trans)
      have t: "tree_of s5 = tree_of s4 \<and> mo_moved (mb_out s5) = mo_moved (mb_out s4) @ [(src, final_dest)]
          \<and> mo_failed (mb_out s5) = mo_failed (mb_out s4)"
        by (cases h) (simp_all add: s5_def move_file_item_def 1 Some a 2 [unfolded f_def] Inr Let_def s4_def s3_def)
      have "Rs s1 s5"
      proof (rule Rs_moved [OF 2 [unfolded Inr] _ r4 _ t [THEN conjunct1]])
        show "mo_moved (mb_out s4) = mo_moved (mb_out s2)" by (cases h) (simp_all add: s4_def s3_def)
      qed (use f t in \<open>blast+\<close>)
      with r1 show ?thesis unfolding s5_def by (rule Rs_trans)
    qed
  qed
qed

lemma each_item_R:
  assumes "\<And>p s s'. p \<in> set ps \<Longrightarrow> f p s = Some s' \<Longrightarrow> Rs s s'"
  shows "each_item f ps s = Some s' \<Longrightarrow> Rs s s'"
  using assms
proof (induction ps arbitrary: s)
  case (Cons p ps)
  from Cons.prems(1) obtain v where v: "f p s = Some v" "each_item f ps v = Some s'" by (auto split: option.splits)
  from Cons.prems(2) v(1) have "Rs s v" by auto
  moreover have "Rs v s'" by (rule Cons.IH [OF v(2)]) (use Cons.prems(2) in auto)
  ultimately show ?case by (rule Rs_trans)
qed (simp add: Rs_refl)

lemma merge_dir_R:
  assumes item: "\<And>p d s s'. ok p d \<Longrightarrow> item p d s = Some s' \<Longrightarrow> Rs s s'"
    and ok: "ok src dir" "file_name src = Some n"
    and m: "merge_dir item env src (dir @ [Normal n]) s = Some s'"
  shows "Rs s s'"
proof -
  obtain q s1 where 1: "on_world (read_dir env src) s = (q, s1)" by fastforce
  have r1: "Rs s s1" by (rule on_world_R [OF 1 read_dir_R])
  show ?thesis
  proof (cases q)
    case (Inl e)
    with m 1 r1 show ?thesis by (auto simp: merge_dir_def Rs_failed)
  next
    case (Inr a)
    obtain names stopped where a: "a = (names, stopped)" by fastforce
    define s2 where "s2 = (if stopped then failed_one s1 else s1)"
    define children where "children = sort_key name_key (map (\<lambda>n. src @ [Normal n]) names)"
    from m 1 Inr a obtain s3 where
      3: "each_item (\<lambda>child. item child (dir @ [Normal n])) children s2 = Some s3"
      by (auto simp: merge_dir_def Let_def s2_def children_def split: option.splits)
    have "ok (src @ [Normal m]) (dir @ [Normal n])" for m by (rule ok_child [OF ok])
    then have "Rs s2 s3"
      by (intro each_item_R [OF _ 3]) (auto simp: children_def dest: item)
    obtain z s4 where 4: "on_world (remove_dir env src) s3 = (z, s4)" by fastforce
    have "Rs s3 s4" by (rule on_world_R [OF 4]) (rule remove_dir_R [OF ok(1)])
    with \<open>Rs s2 s3\<close> have "Rs s2 s4" by (rule Rs_trans)
    moreover have "Rs s s2" using r1 by (simp add: s2_def Rs_failed)
    ultimately have "Rs s s4" by (blast intro: Rs_trans)
    moreover have "s' = s4 \<or> s' = failed_one s4"
      using m 1 Inr a 3 4
      by (auto simp: merge_dir_def Let_def s2_def children_def split: sum.splits if_splits)
    ultimately show ?thesis by (auto simp: Rs_failed)
  qed
qed

lemma move_dir_item_R:
  assumes item: "\<And>p d s s'. ok p d \<Longrightarrow> item p d s = Some s' \<Longrightarrow> Rs s s'"
    and ok: "ok src dir"
    and m: "move_dir_item item env attempts scan src dir s = Some s'"
  shows "Rs s s'"
proof (cases "file_name src")
  case None
  with m show ?thesis by (auto simp: move_dir_item_def Rs_refl Rs_failed)
next
  case (Some n)
  obtain b s1 where 1: "on_world (is_dir env (dir @ [Normal n])) s = (b, s1)" by fastforce
  have r1: "Rs s s1" by (rule on_world_R [OF 1 is_dir_R])
  show ?thesis
  proof (cases b)
    case True
    with m Some 1 have md: "merge_dir item env src (dir @ [Normal n]) s1 = Some s'"
      by (simp add: move_dir_item_def)
    have "Rs s1 s'" by (rule merge_dir_R [OF _ ok Some md]) (rule item)
    with r1 show ?thesis by (rule Rs_trans)
  next
    case False
    obtain y s2 where 2: "on_world (tree_move_dir_into env attempts src dir) s1 = (y, s2)" by fastforce
    have f: "Rm src x w w'" if "tree_move_dir_into env attempts src dir w = (x, w')" for x w w'
      using that by (auto simp: tree_move_dir_into_def Some dest: tree_move_dir_to_R [OF ok])
    have "Rs s1 s'"
    proof (cases y)
      case (Inl e)
      have "Rs s1 s2" by (rule on_world_R [OF 2]) (use f Inl in force)
      with m Some 1 False 2 Inl show ?thesis by (auto simp: move_dir_item_def Rs_failed)
    next
      case (Inr q)
      define s3 where "s3 = record_move env \<lparr>me_scan_id = scan, me_source = src, me_target = q,
        me_hash = None, me_duplicate = False\<rparr> s2"
      have s': "tree_of s' = tree_of s3" "mo_moved (mb_out s') = mo_moved (mb_out s3) @ [(src, q)]" "mo_failed (mb_out s') = mo_failed (mb_out s3)"
        using m Some 1 False 2 Inr by (auto simp: move_dir_item_def Let_def s3_def)
      have s3: "Rs s2 s3" "mo_moved (mb_out s3) = mo_moved (mb_out s2)"
        by (simp_all add: s3_def record_move_R)
      show ?thesis by (rule Rs_moved [OF 2 [unfolded Inr] _ s3 s']) (use f in blast)
    qed
    with r1 show ?thesis by (rule Rs_trans)
  qed
qed

lemma move_item_with_R:
  assumes item: "\<And>p d s s'. ok p d \<Longrightarrow> item p d s = Some s' \<Longrightarrow> Rs s s'"
    and ok: "ok src dir"
    and m: "move_item_with item env attempts scan src dir s = Some s'"
  shows "Rs s s'"
proof -
  obtain q s1 where 1: "on_world (lstat env src) s = (q, s1)" by fastforce
  obtain b s2 where 2: "on_world (refused_at_once env src) s1 = (b, s2)" by fastforce
  have r1: "Rs s s1" by (rule on_world_R [OF 1 lstat_R])
  have "Rs s1 s2" by (rule on_world_R [OF 2 refused_at_once_R])
  with r1 have r2: "Rs s s2" by (rule Rs_trans)
  consider "s' = failed_one s1" | "s' = failed_one s2"
    | "move_dir_item item env attempts scan src dir s2 = Some s'"
    | b where "s' = move_file_item env attempts scan src b dir s2"
    using m 1 2 by (fastforce simp: move_item_with_def split: sum.splits entry.splits bool.splits if_splits)
  then show ?thesis
  proof cases
    case 3
    have "Rs s2 s'" by (rule move_dir_item_R [OF _ ok 3]) (rule item)
    with r2 show ?thesis by (rule Rs_trans)
  next
    case 4
    with Rs_trans [OF r2 move_file_item_R [OF ok]] show ?thesis by simp
  qed (use r1 r2 in \<open>simp_all add: Rs_failed\<close>)
qed

lemma move_item_R: "ok src dir \<Longrightarrow> move_item fuel env attempts scan src dir s = Some s' \<Longrightarrow> Rs s s'"
proof (induction fuel arbitrary: src dir s s')
  case (Suc fuel)
  have m: "move_item_with (move_item fuel env attempts scan) env attempts scan src dir s = Some s'"
    using Suc.prems(2) by simp
  show ?case by (rule move_item_with_R [OF _ Suc.prems(1) m]) (rule Suc.IH)
qed simp

lemma move_batch_R:
  assumes "\<And>src. src \<in> set sources \<Longrightarrow> ok src dest_dir"
    and "move_batch fuel env attempts sources dest_dir scan store w = Some s"
  shows "R (tw_tree w) (mo_moved (mb_out s)) (tree_of s)"
proof -
  have "Rs \<lparr>mb_world = w, mb_store = store, mb_out = empty_outcome\<rparr> s"
    using assms(2) unfolding move_batch_def
    by (rule each_item_R [rotated]) (use move_item_R assms(1) in blast)
  then show ?thesis by (simp add: Rs_def tree_of_def empty_outcome_def)
qed

end

end
