(* ===== verification/Move_Trace.thy ===== *)
theory Move_Trace
  imports Move_Safety
begin

text \<open>
  The batch as a trace: renames into the destination and removals of emptied directories, in the
  order they were made. What a batch loses, overwrites and puts where follows from the trace, and so
  does what undoing it restores.
\<close>

section \<open>Well-formed trees\<close>

definition tree_ok :: "dtree \<Rightarrow> bool" where
  "tree_ok t \<longleftrightarrow>
     distinct (map fst (dt_entries t))
     \<and> (\<forall>(q, e)\<in>set (dt_entries t). q \<noteq> [] \<and> (butlast q = [] \<or> (butlast q, DirEntry) \<in> set (dt_entries t)))"

lemma tree_okD:
  "tree_ok t \<Longrightarrow> (q, e) \<in> set (dt_entries t) \<Longrightarrow> q \<noteq> []"
  "tree_ok t \<Longrightarrow> (q, e) \<in> set (dt_entries t) \<Longrightarrow> butlast q = [] \<or> (butlast q, DirEntry) \<in> set (dt_entries t)"
  by (auto simp: tree_ok_def)

lemma tree_ok_distinct: "tree_ok t \<Longrightarrow> distinct (map fst (dt_entries t))"
  by (simp add: tree_ok_def)

lemma tree_ok_unique: "tree_ok t \<Longrightarrow> (q, e) \<in> set (dt_entries t) \<Longrightarrow> (q, e') \<in> set (dt_entries t) \<Longrightarrow> e = e'"
  by (metis tree_ok_distinct map_of_is_SomeI option.inject)

lemma entry_at_iff: "tree_ok t \<Longrightarrow> l \<noteq> [] \<Longrightarrow> entry_at t l = Some e \<longleftrightarrow> (l, e) \<in> set (dt_entries t)"
  by (simp add: entry_at_def tree_ok_distinct)

lemma entry_at_None: "l \<noteq> [] \<Longrightarrow> entry_at t l = None \<longleftrightarrow> l \<notin> fst ` set (dt_entries t)"
  by (simp add: entry_at_def map_of_eq_None_iff)

lemma ancestors_exist:
  assumes "tree_ok t" and "(q, e) \<in> set (dt_entries t)" and "strict_prefix p q" and "p \<noteq> []"
  shows "(p, DirEntry) \<in> set (dt_entries t)"
  using assms(2,3)
proof (induction q arbitrary: e rule: rev_induct)
  case (snoc n q)
  from snoc.prems(2) have "p = q \<or> strict_prefix p q"
    by (metis prefix_order.dual_order.strict_iff_order prefix_snoc strict_prefix_def)
  moreover have "q = [] \<or> (q, DirEntry) \<in> set (dt_entries t)"
    using tree_okD(2) [OF assms(1) snoc.prems(1)] by simp
  ultimately show ?case using snoc.IH assms(4) by auto
qed simp

lemma dir_at_ancestor:
  "tree_ok t \<Longrightarrow> (q, e) \<in> set (dt_entries t) \<Longrightarrow> strict_prefix p q \<Longrightarrow> dir_at t p"
  by (cases "p = []") (auto simp: dir_at_def entry_at_def tree_ok_distinct dest: ancestors_exist)

lemma nothing_below:
  "tree_ok t \<Longrightarrow> entry_at t d = None \<Longrightarrow> (q, e) \<in> set (dt_entries t) \<Longrightarrow> \<not> prefix d q"
  by (metis ancestors_exist entry_at_iff option.distinct(1) prefix_order.dual_order.not_eq_order_implies_strict
      entry_at_def)

section \<open>What a rename does\<close>

lemma reroot_simps [simp]:
  "prefix s q \<Longrightarrow> reroot s d q = d @ drop (length s) q"
  "\<not> prefix s q \<Longrightarrow> reroot s d q = q"
  by (simp_all add: reroot_def)

lemma reroot_append [simp]: "reroot s d (s @ r) = d @ r"
  by (simp add: reroot_def)

lemma reroot_inj:
  assumes "\<not> prefix d q" "\<not> prefix d q'" "reroot s d q = reroot s d q'"
  shows "q = q'"
  using assms by (auto simp: reroot_def prefix_def split: if_splits)

lemma reroot_butlast:
  assumes "prefix s q" "q \<noteq> s"
  shows "butlast (reroot s d q) = reroot s d (butlast q)"
proof -
  from assms obtain r where r: "q = s @ r" "r \<noteq> []" by (auto simp: prefix_def)
  then have "butlast q = s @ butlast r" by (simp add: butlast_append)
  with r show ?thesis by (simp add: butlast_append)
qed

lemma prefix_butlast: "q \<noteq> [] \<Longrightarrow> prefix s (butlast q) \<Longrightarrow> prefix s q"
  by (metis append_butlast_last_id prefix_order.trans prefixI)

text \<open>The conditions under which \<open>t_rename\<close> renames.\<close>

definition may_rename :: "location \<Rightarrow> location \<Rightarrow> dtree \<Rightarrow> bool" where
  "may_rename s d t \<longleftrightarrow>
     s \<noteq> [] \<and> d \<noteq> [] \<and> entry_at t s \<noteq> None \<and> entry_at t d = None \<and> \<not> prefix s d \<and> dir_at t (butlast d)"

lemma set_take_along: "set (dt_entries (take_along s d t)) = (\<lambda>(q, e). (reroot s d q, e)) ` set (dt_entries t)"
  by (simp add: take_along_def)

lemma in_take_along:
  "(p, e) \<in> set (dt_entries (take_along s d t)) \<longleftrightarrow> (\<exists>q. (q, e) \<in> set (dt_entries t) \<and> p = reroot s d q)"
  by (force simp: set_take_along)

lemma take_along_ok:
  assumes ok: "tree_ok t" and m: "may_rename s d t"
  shows "tree_ok (take_along s d t)"
proof -
  have nb: "\<not> prefix d q" if "(q, e) \<in> set (dt_entries t)" for q e
    using nothing_below [OF ok _ that] m by (simp add: may_rename_def)
  have "distinct (map fst (dt_entries (take_along s d t)))"
  proof -
    have "map fst (dt_entries (take_along s d t)) = map (reroot s d) (map fst (dt_entries t))"
      by (simp add: take_along_def case_prod_unfold comp_def)
    moreover have "inj_on (reroot s d) (set (map fst (dt_entries t)))"
      using nb by (auto intro!: inj_onI dest: reroot_inj [rotated 2])
    ultimately show ?thesis using tree_ok_distinct [OF ok] by (simp only: distinct_map)
  qed
  moreover have "p \<noteq> [] \<and> (butlast p = [] \<or> (butlast p, DirEntry) \<in> set (dt_entries (take_along s d t)))"
    if "(p, e) \<in> set (dt_entries (take_along s d t))" for p e
  proof -
    from that obtain q where q: "(q, e) \<in> set (dt_entries t)" "p = reroot s d q" by (auto simp: in_take_along)
    have q0: "q \<noteq> []" by (rule tree_okD(1) [OF ok q(1)])
    have up: "butlast q = [] \<or> (butlast q, DirEntry) \<in> set (dt_entries t)" by (rule tree_okD(2) [OF ok q(1)])
    show ?thesis
    proof (cases "prefix s q")
      case False
      then have "\<not> prefix s (butlast q)" using prefix_butlast q0 by blast
      with False q q0 up show ?thesis by (auto simp: in_take_along)
    next
      case True
      show ?thesis
      proof (cases "q = s")
        case True
        have "\<not> prefix s (butlast d)" using m prefix_butlast by (auto simp: may_rename_def)
        moreover have "butlast d = [] \<or> (butlast d, DirEntry) \<in> set (dt_entries t)"
          using m entry_at_iff [OF ok] by (auto simp: may_rename_def dir_at_def)
        ultimately show ?thesis
          using True q m by (auto simp: in_take_along may_rename_def)
      next
        case False
        from True False obtain r where r: "q = s @ r" "r \<noteq> []" by (auto simp: prefix_def)
        have s0: "s \<noteq> []" using m by (simp add: may_rename_def)
        have "butlast p = reroot s d (butlast q)" unfolding q(2) by (rule reroot_butlast [OF True False])
        moreover have "butlast q \<noteq> []" using r s0 by (simp add: butlast_append)
        ultimately show ?thesis using up q r by (auto simp: in_take_along)
      qed
    qed
  qed
  ultimately show ?thesis by (auto simp: tree_ok_def)
qed

definition drop_dir :: "location \<Rightarrow> dtree \<Rightarrow> dtree" where
  "drop_dir s t = t\<lparr>dt_entries := filter (\<lambda>(q, _). q \<noteq> s) (dt_entries t)\<rparr>"

definition may_drop :: "location \<Rightarrow> dtree \<Rightarrow> bool" where
  "may_drop s t \<longleftrightarrow> s \<noteq> [] \<and> dir_at t s \<and> (\<forall>(q, e)\<in>set (dt_entries t). \<not> strict_prefix s q)"

lemma drop_dir_ok:
  assumes ok: "tree_ok t" and m: "may_drop s t"
  shows "tree_ok (drop_dir s t)"
proof -
  have "butlast q \<noteq> s" if "(q, e) \<in> set (dt_entries t)" for q e
  proof
    assume "butlast q = s"
    moreover from this m tree_okD(1) [OF ok that] have "strict_prefix s q"
      by (metis append_butlast_last_id prefixI strict_prefix_def append_self_conv not_Cons_self2)
    ultimately show False using m that by (auto simp: may_drop_def)
  qed
  then show ?thesis
    using ok by (fastforce simp: tree_ok_def drop_dir_def distinct_map_filter case_prod_unfold)
qed

lemma t_rename_Inr:
  assumes "t_rename src dst t = Inr (u, t')"
  obtains s d where "slot t src = Some s" "slot t dst = Some d" "may_rename s d t" "t' = take_along s d t"
proof -
  from assms obtain s d where sd: "slot t src = Some s" "slot t dst = Some d"
    and c: "entry_at t s \<noteq> None" "entry_at t d = None" "\<not> prefix s d" "t' = take_along s d t"
    by (auto simp: t_rename_def split: if_splits option.splits)
  have "s \<noteq> [] \<and> d \<noteq> [] \<and> dir_at t (butlast d)"
    using sd by (auto simp: slot_def split: option.splits if_splits)
  with sd c show thesis by (intro that) (simp_all add: may_rename_def)
qed

lemma t_remove_dir_Inr:
  assumes "t_remove_dir src t = Inr (u, t')"
  obtains s where "slot t src = Some s" "may_drop s t" "t' = drop_dir s t"
proof -
  from assms obtain s where s: "slot t src = Some s" "dir_at t s"
    and c: "\<not> list_ex (\<lambda>(q, _). strict_prefix s q) (dt_entries t)" "t' = drop_dir s t"
    by (auto simp: t_remove_dir_def dir_at_def drop_dir_def split: option.splits entry.splits if_splits)
  have "s \<noteq> []" using s(1) by (auto simp: slot_def split: option.splits if_splits)
  with s c show thesis by (intro that) (auto simp: may_drop_def list_ex_iff)
qed

section \<open>Nothing is lost\<close>

definition possessions :: "dtree \<Rightarrow> entry multiset" where
  "possessions t = mset (filter (\<lambda>e. e \<noteq> DirEntry) (map snd (dt_entries t)))"

text \<open>Every file, link and special file still has as many names, and the files their content.\<close>

definition nothing_lost :: "dtree \<Rightarrow> dtree \<Rightarrow> bool" where
  "nothing_lost t t' \<longleftrightarrow>
     possessions t \<subseteq># possessions t'
     \<and> (\<forall>i. FileEntry i \<in># possessions t \<longrightarrow> nd_data (dt_nodes t' i) = nd_data (dt_nodes t i))"

definition destroys_nothing :: "tenv \<Rightarrow> bool" where
  "destroys_nothing env \<longleftrightarrow>
     (\<forall>n t. tree_ok t \<longrightarrow> tree_ok (te_outside env n t) \<and> nothing_lost t (te_outside env n t))"

lemma possessions_take_along [simp]: "possessions (take_along s d t) = possessions t"
  by (simp add: possessions_def take_along_def case_prod_unfold comp_def)

lemma filter_dirs:
  "(\<And>e. (s, e) \<in> set es \<Longrightarrow> e = DirEntry) \<Longrightarrow>
     filter (\<lambda>e. e \<noteq> DirEntry) (map snd (filter (\<lambda>(q, _). q \<noteq> s) es)) = filter (\<lambda>e. e \<noteq> DirEntry) (map snd es)"
proof (induction es)
  case (Cons x es)
  obtain q e where x: "x = (q, e)" by fastforce
  have "filter (\<lambda>e. e \<noteq> DirEntry) (map snd (filter (\<lambda>(q, _). q \<noteq> s) es)) = filter (\<lambda>e. e \<noteq> DirEntry) (map snd es)"
    by (rule Cons.IH) (simp add: Cons.prems)
  moreover have "q = s \<Longrightarrow> e = DirEntry" using Cons.prems [of e] x by simp
  ultimately show ?case by (simp add: x)
qed simp

lemma possessions_drop_dir:
  assumes "tree_ok t" "may_drop s t"
  shows "possessions (drop_dir s t) = possessions t"
proof -
  have "e = DirEntry" if "(s, e) \<in> set (dt_entries t)" for e
    using that assms entry_at_iff [OF assms(1)] tree_ok_unique by (fastforce simp: may_drop_def dir_at_def)
  from filter_dirs [of s "dt_entries t", OF this] show ?thesis
    unfolding possessions_def drop_dir_def by simp
qed

lemma nodes_unchanged [simp]:
  "dt_nodes (take_along s d t) = dt_nodes t" "dt_nodes (drop_dir s t) = dt_nodes t"
  by (simp_all add: take_along_def drop_dir_def)

lemma nothing_lost_refl: "nothing_lost t t"
  by (simp add: nothing_lost_def)

lemma nothing_lost_trans: "nothing_lost a b \<Longrightarrow> nothing_lost b c \<Longrightarrow> nothing_lost a c"
  unfolding nothing_lost_def by (metis mset_subset_eqD subset_mset.order_trans)

definition keeps_all :: "dtree \<Rightarrow> (path \<times> path) list \<Rightarrow> dtree \<Rightarrow> bool" where
  "keeps_all t ms t' \<longleftrightarrow> (tree_ok t \<longrightarrow> tree_ok t' \<and> nothing_lost t t')"

lemma keeps_all_relation:
  assumes "destroys_nothing env"
  shows "tree_relation env keeps_all (\<lambda>_ _. True)"
proof
  fix src dir n t u t' assume "t_rename src (dir @ [Normal n]) t = Inr (u, t')"
  then show "keeps_all t [(src, dir @ [Normal n])] t'"
    by (rule t_rename_Inr) (simp add: keeps_all_def take_along_ok nothing_lost_def)
next
  fix src t u t' assume "t_remove_dir src t = Inr (u, t')"
  then show "keeps_all t [] t'"
    by (rule t_remove_dir_Inr) (simp add: keeps_all_def drop_dir_ok nothing_lost_def possessions_drop_dir)
qed (use assms nothing_lost_trans in \<open>auto simp: keeps_all_def nothing_lost_refl destroys_nothing_def\<close>)

text \<open>
  Claim C30. A move batch destroys nothing. Whatever its sources and destination are, links on the way
  included, whichever calls fail and wherever listings stop, and however others create, rename and
  link meanwhile as long as they destroy nothing themselves: every file, link and special file has
  afterwards at least as many names as before, the content of the files is untouched, and the tree is
  well formed.
\<close>

theorem move_batch_loses_nothing:
  assumes "destroys_nothing env" and "tree_ok (tw_tree w)"
    and "move_batch fuel env attempts sources dest_dir scan store w = Some s"
  shows "tree_ok (tree_of s) \<and> nothing_lost (tw_tree w) (tree_of s)"
proof -
  have "keeps_all (tw_tree w) (mo_moved (mb_out s)) (tree_of s)"
    by (rule tree_relation.move_batch_R [OF keeps_all_relation [OF assms(1)] _ assms(3)]) simp
  with assms(2) show ?thesis by (simp add: keeps_all_def)
qed

section \<open>The trace of a batch\<close>

definition rooted :: "location \<Rightarrow> path" where
  "rooted l = RootDir # map Normal l"

definition link_free :: "dtree \<Rightarrow> bool" where
  "link_free t \<longleftrightarrow> (\<forall>(q, e)\<in>set (dt_entries t). \<forall>target. e \<noteq> LinkEntry target)"

definition below_some :: "location list \<Rightarrow> location \<Rightarrow> bool" where
  "below_some S q \<longleftrightarrow> (\<exists>s\<in>set S. prefix s q)"

inductive made :: "location list \<Rightarrow> location \<Rightarrow> dtree \<Rightarrow> (path \<times> path) list \<Rightarrow> dtree \<Rightarrow> bool" for S D where
  stay: "made S D t [] t"
| move: "made S D t ms t1 \<Longrightarrow> may_rename a b t1 \<Longrightarrow> below_some S a \<Longrightarrow> strict_prefix D b \<Longrightarrow>
    \<not> has_nul (rooted a) \<Longrightarrow> \<not> has_nul (rooted b) \<Longrightarrow>
    made S D t (ms @ [(rooted a, rooted b)]) (take_along a b t1)"
| drop: "made S D t ms t1 \<Longrightarrow> may_drop a t1 \<Longrightarrow> below_some S a \<Longrightarrow> made S D t ms (drop_dir a t1)"

lemma made_trans: "made S D t1 ns t2 \<Longrightarrow> made S D t ms t1 \<Longrightarrow> made S D t (ms @ ns) t2"
  by (induction rule: made.induct) (auto intro: made.intros simp flip: append_assoc)

lemma made_ok: "made S D t ms t' \<Longrightarrow> tree_ok t \<Longrightarrow> tree_ok t'"
  by (induction rule: made.induct) (auto simp: take_along_ok drop_dir_ok)

lemma made_link_free: "made S D t ms t' \<Longrightarrow> link_free t \<Longrightarrow> link_free t'"
  by (induction rule: made.induct) (auto simp: link_free_def take_along_def drop_dir_def)

lemma walk_names:
  "link_free t \<Longrightarrow> walk t follow k cur (map Normal a) = Some l \<Longrightarrow> l = cur @ a"
proof (induction a arbitrary: cur)
  case (Cons n a)
  have "entry_at t (cur @ [n]) \<noteq> Some (LinkEntry target)" for target
    using Cons.prems(1) by (auto simp: link_free_def entry_at_def dest: map_of_SomeD)
  with Cons.prems(2) have "walk t follow k (cur @ [n]) (map Normal a) = Some l \<or> a = [] \<and> l = cur @ [n]"
    by (auto split: option.splits entry.splits if_splits)
  with Cons.IH [OF Cons.prems(1), of "cur @ [n]"] show ?case by auto
qed simp

lemma resolved_rooted: "link_free t \<Longrightarrow> resolved t (rooted a) = Some l \<Longrightarrow> l = a"
  unfolding resolved_def rooted_def using walk_names [of t True max_links "[]" a l] by simp

lemma unfollowed_rooted: "link_free t \<Longrightarrow> unfollowed t (rooted a) = Some l \<Longrightarrow> l = a"
  unfolding unfollowed_def rooted_def using walk_names [of t False max_links "[]" a l] by simp

lemma rooted_snoc: "rooted a @ [Normal n] = rooted (a @ [n])"
  by (simp add: rooted_def)

lemma file_name_rooted: "file_name (rooted a) = (if a = [] then None else Some (last a))"
  by (cases a rule: rev_cases) (simp_all add: rooted_def file_name_def)

lemma slot_rooted:
  assumes "link_free t" "slot t (rooted a) = Some l"
  shows "l = a"
proof -
  from assms(2) have "a \<noteq> []" by (auto simp: slot_def file_name_rooted split: if_splits)
  then obtain b n where a: "a = b @ [n]" by (metis rev_exhaust)
  then have "butlast (rooted a) = rooted b" by (simp flip: rooted_snoc)
  with assms a resolved_rooted [OF assms(1)] show ?thesis
    by (auto simp: slot_def file_name_rooted split: option.splits if_splits)
qed

definition traced :: "location list \<Rightarrow> location \<Rightarrow> dtree \<Rightarrow> (path \<times> path) list \<Rightarrow> dtree \<Rightarrow> bool" where
  "traced S D t ms t' \<longleftrightarrow> (link_free t \<longrightarrow> made S D t ms t')"

definition in_bounds :: "location list \<Rightarrow> location \<Rightarrow> path \<Rightarrow> path \<Rightarrow> bool" where
  "in_bounds S D src dir \<longleftrightarrow> (\<exists>a b. src = rooted a \<and> dir = rooted b \<and> below_some S a \<and> prefix D b)"

definition left_alone :: "tenv \<Rightarrow> tenv" where
  "left_alone env = env\<lparr>te_outside := (\<lambda>_ t. t)\<rparr>"

interpretation traced: tree_relation "left_alone env" "traced S D" "in_bounds S D" for env S D
proof
  fix a ms b ns c assume "traced S D a ms b" "traced S D b ns c"
  then show "traced S D a (ms @ ns) c" using made_trans made_link_free by (auto simp: traced_def)
next
  fix src dir n t u t' assume ok: "in_bounds S D src dir" and nul: "\<not> has_nul src" "\<not> has_nul (dir @ [Normal n])" and r: "t_rename src (dir @ [Normal n]) t = Inr (u, t')"
  from ok obtain a b where ab: "src = rooted a" "dir = rooted b" "below_some S a" "prefix D b" by (auto simp: in_bounds_def)
  show "traced S D t [(src, dir @ [Normal n])] t'"
    unfolding traced_def
  proof
    assume lf: "link_free t"
    from r obtain s d where sd: "slot t src = Some s" "slot t (dir @ [Normal n]) = Some d"
      "may_rename s d t" "t' = take_along s d t" by (rule t_rename_Inr)
    with ab slot_rooted [OF lf] have "s = a" "d = b @ [n]" by (auto simp: rooted_snoc)
    moreover have "strict_prefix D (b @ [n])" using ab(4) by (auto simp: strict_prefix_def prefix_def)
    ultimately show "made S D t [(src, dir @ [Normal n])] t'"
      using sd ab nul made.move [OF made.stay, of a "b @ [n]" t S D] by (simp add: rooted_snoc)
  qed
next
  fix src dir t u t' assume ok: "in_bounds S D src dir" and r: "t_remove_dir src t = Inr (u, t')"
  from ok obtain a where a: "src = rooted a" "below_some S a" by (auto simp: in_bounds_def)
  show "traced S D t [] t'"
    unfolding traced_def
  proof
    assume lf: "link_free t"
    from r obtain s where s: "slot t src = Some s" "may_drop s t" "t' = drop_dir s t" by (rule t_remove_dir_Inr)
    with a slot_rooted [OF lf] made.drop [OF made.stay, of s t S D] show "made S D t [] t'" by auto
  qed
next
  fix src dir n m assume "in_bounds S D src dir" "file_name src = Some n"
  then show "in_bounds S D (src @ [Normal m]) (dir @ [Normal n])"
    unfolding in_bounds_def below_some_def by (metis rooted_snoc prefix_prefix)
qed (auto simp: traced_def left_alone_def intro: made.stay)

section \<open>What the trace says\<close>

lemma made_outside_stays:
  "made S D t ms t' \<Longrightarrow> (q, e) \<in> set (dt_entries t) \<Longrightarrow> \<not> below_some S q \<Longrightarrow> (q, e) \<in> set (dt_entries t')"
proof (induction rule: made.induct)
  case (move t ms t1 a b)
  then have "\<not> prefix a q" by (auto simp: below_some_def dest: prefix_order.trans)
  with move show ?case by (auto simp: in_take_along)
next
  case (drop t ms t1 a)
  then have "q \<noteq> a" by auto
  with drop show ?case by (auto simp: drop_dir_def)
qed simp

lemma made_appears_inside:
  "made S D t ms t' \<Longrightarrow> (q, e) \<in> set (dt_entries t') \<Longrightarrow> (q, e) \<in> set (dt_entries t) \<or> strict_prefix D q"
proof (induction arbitrary: q rule: made.induct)
  case (move t ms t1 a b)
  then obtain p where p: "(p, e) \<in> set (dt_entries t1)" "q = reroot a b p" by (auto simp: in_take_along)
  show ?case
  proof (cases "prefix a p")
    case True
    with p have "prefix b q" by simp
    with move show ?thesis using prefix_order.less_le_trans by blast
  qed (use p move.IH in auto)
qed (auto simp: drop_dir_def)

lemma made_possessions: "made S D t ms t' \<Longrightarrow> tree_ok t \<Longrightarrow> possessions t' = possessions t"
  by (induction rule: made.induct) (auto simp: possessions_drop_dir made_ok)

lemma made_nodes: "made S D t ms t' \<Longrightarrow> dt_nodes t' = dt_nodes t"
  by (induction rule: made.induct) auto

lemma made_size: "made S D t ms t' \<Longrightarrow> length (dt_entries t') \<le> length (dt_entries t)"
  by (induction rule: made.induct) (auto simp: take_along_def drop_dir_def intro: le_trans [OF length_filter_le])

lemma made_moves:
  "made S D t ms t' \<Longrightarrow> (p, q) \<in> set ms \<Longrightarrow> \<exists>a b. p = rooted a \<and> q = rooted b \<and> below_some S a \<and> strict_prefix D b"
  by (induction rule: made.induct) auto

definition vacant :: "dtree \<Rightarrow> location \<Rightarrow> bool" where
  "vacant t a \<longleftrightarrow> a \<notin> fst ` set (dt_entries t)"

lemma vacantI: "(\<And>q e. (q, e) \<in> set (dt_entries t) \<Longrightarrow> q \<noteq> a) \<Longrightarrow> vacant t a"
  unfolding vacant_def by (metis imageE prod.collapse)

lemma vacantD: "vacant t a \<Longrightarrow> (q, e) \<in> set (dt_entries t) \<Longrightarrow> q \<noteq> a"
  by (force simp: vacant_def)

lemma made_stays_vacant:
  "made S D t ms t' \<Longrightarrow> vacant t a \<Longrightarrow> \<not> strict_prefix D a \<Longrightarrow> vacant t' a"
  by (rule vacantI) (metis made_appears_inside vacantD)

lemma rooted_inject [simp]: "rooted a = rooted b \<longleftrightarrow> a = b"
  by (simp add: rooted_def inj_map_eq_map inj_def)

lemma taken_is_vacant:
  assumes "tree_ok t" "may_rename a b t" "strict_prefix D b" "\<not> strict_prefix D a"
  shows "vacant (take_along a b t) a"
proof (rule vacantI)
  fix q e assume "(q, e) \<in> set (dt_entries (take_along a b t))"
  then obtain p where p: "q = reroot a b p" by (auto simp: in_take_along)
  show "q \<noteq> a"
  proof (cases "prefix a p")
    case True
    with p have "prefix b q" by simp
    with assms(3,4) show ?thesis using prefix_order.less_le_trans by blast
  qed (use p in auto)
qed

lemma made_source_gone:
  "made S D t ms t' \<Longrightarrow> tree_ok t \<Longrightarrow> (rooted a, q) \<in> set ms \<Longrightarrow> \<not> strict_prefix D a \<Longrightarrow> vacant t' a"
proof (induction rule: made.induct)
  case (move t ms t1 a' b)
  show ?case
  proof (cases "(rooted a, q) \<in> set ms")
    case True
    with move have "vacant t1 a" by simp
    moreover have "made S D t1 ([] @ [(rooted a', rooted b)]) (take_along a' b t1)"
      by (rule made.move [OF made.stay move.hyps(2-6)])
    ultimately show ?thesis using made_stays_vacant move.prems(3) by blast
  next
    case False
    with move.prems have "a' = a" by simp
    with taken_is_vacant [OF made_ok [OF move.hyps(1)]] move show ?thesis by simp
  qed
next
  case (drop t ms t1 a')
  then have "vacant t1 a" by simp
  then show ?case by (auto simp: vacant_def drop_dir_def)
qed simp

section \<open>The properties of a batch left alone\<close>

definition nobody_else :: "tenv \<Rightarrow> bool" where
  "nobody_else env \<longleftrightarrow> te_outside env = (\<lambda>_ t. t)"

lemma nobody_else_eq: "nobody_else env \<Longrightarrow> left_alone env = env"
  by (simp add: nobody_else_def left_alone_def)

lemma below_own: "a \<in> set S \<Longrightarrow> below_some S a"
  by (auto simp: below_some_def)

lemma batch_made:
  assumes "nobody_else env" and "link_free (tw_tree w)"
    and "move_batch fuel env attempts (map rooted S) (rooted D) scan store w = Some s"
  shows "made S D (tw_tree w) (mo_moved (mb_out s)) (tree_of s)"
proof -
  have b: "move_batch fuel (left_alone env) attempts (map rooted S) (rooted D) scan store w = Some s"
    using assms(3) by (simp only: nobody_else_eq [OF assms(1)])
  have "traced S D (tw_tree w) (mo_moved (mb_out s)) (tree_of s)"
  proof (rule traced.move_batch_R [OF _ b])
    fix src assume "src \<in> set (map rooted S)"
    then show "in_bounds S D src (rooted D)" by (auto simp: in_bounds_def intro: below_own)
  qed
  with assms(2) show ?thesis by (simp add: traced_def)
qed


section \<open>A clean batch leaves no source behind\<close>

text \<open>An item that added no failure was moved and noted, or was a directory merged away.\<close>

lemma file_item_moved:
  "mo_failed (mb_out (move_file_item env attempts scan src b dir s)) = mo_failed (mb_out s) \<Longrightarrow>
     \<exists>q. (src, q) \<in> set (mo_moved (mb_out (move_file_item env attempts scan src b dir s)))"
proof -
  obtain q s1 where 1: "on_world (duplicate_question env (mb_store s) src b dir) s = (q, s1)" by fastforce
  then have f1: "mo_failed (mb_out s1) = mo_failed (mb_out s)" by (auto simp: on_world_def split: prod.splits)
  show ?thesis if "mo_failed (mb_out (move_file_item env attempts scan src b dir s)) = mo_failed (mb_out s)"
  proof (cases q)
    case None
    with that 1 f1 show ?thesis by (simp add: move_file_item_def failed_one_def)
  next
    case (Some a)
    obtain dup h where a: "a = (dup, h)" by fastforce
    obtain y s2 where 2: "on_world (if dup then move_duplicate env attempts src dir
        else tree_move_into_dir env attempts src dir) s1 = (y, s2)" by fastforce
    then have f2: "mo_failed (mb_out s2) = mo_failed (mb_out s1)" by (auto simp: on_world_def split: prod.splits)
    from that f1 f2 show ?thesis
      by (cases y) (auto simp: move_file_item_def 1 Some a 2 Let_def failed_one_def)
  qed
qed

definition gone_or_moved :: "location \<Rightarrow> mb \<Rightarrow> bool" where
  "gone_or_moved a s \<longleftrightarrow> vacant (tree_of s) a \<or> (\<exists>q. (rooted a, q) \<in> set (mo_moved (mb_out s)))"

lemma merge_dir_gone:
  assumes alone: "nobody_else env" and lf: "link_free (tree_of s)"
    and b: "in_bounds S D (rooted a) dir" "file_name (rooted a) = Some n"
    and m: "merge_dir (move_item fuel env attempts scan) env (rooted a) (dir @ [Normal n]) s = Some s'"
    and f: "mo_failed (mb_out s') = mo_failed (mb_out s)"
  shows "vacant (tree_of s') a"
proof -
  note same = nobody_else_eq [OF alone]
  obtain q s1 where 1: "on_world (read_dir env (rooted a)) s = (q, s1)" by fastforce
  then have f1: "mo_failed (mb_out s1) = mo_failed (mb_out s)" by (auto simp: on_world_def split: prod.splits)
  have t1: "traced.Rs S D s s1"
    by (rule traced.on_world_R [OF 1]) (rule traced.read_dir_R [where env = env, unfolded same])
  from m 1 f f1 obtain names stopped where q: "q = Inr (names, stopped)"
    by (auto simp: merge_dir_def failed_one_def split: sum.splits)
  define s2 where "s2 = (if stopped then failed_one s1 else s1)"
  define children where "children = sort_key name_key (map (\<lambda>n. rooted a @ [Normal n]) names)"
  from m 1 q obtain s3 where
    3: "each_item (\<lambda>child. move_item fuel env attempts scan child (dir @ [Normal n])) children s2 = Some s3"
    by (auto simp: merge_dir_def Let_def s2_def children_def split: option.splits)
  have t2: "traced.Rs S D s2 s3"
  proof (rule traced.each_item_R [OF _ 3])
    fix p v v' assume p: "p \<in> set children" "move_item fuel env attempts scan p (dir @ [Normal n]) v = Some v'"
    then have "in_bounds S D p (dir @ [Normal n])" using traced.ok_child [OF b] by (auto simp: children_def)
    then show "traced.Rs S D v v'" by (rule traced.move_item_R [where env = env, unfolded same]) (rule p(2))
  qed
  have f3: "mo_failed (mb_out s1) \<le> mo_failed (mb_out s3)"
    using t2 by (auto simp: traced.Rs_def s2_def failed_one_def split: if_splits)
  obtain z s4 where 4: "on_world (remove_dir env (rooted a)) s3 = (z, s4)" by fastforce
  then have f4: "mo_failed (mb_out s4) = mo_failed (mb_out s3)" by (auto simp: on_world_def split: prod.splits)
  from m 1 q 3 4 f f1 f3 f4 obtain u where z: "z = Inr u" "s' = s4"
    by (auto simp: merge_dir_def Let_def s2_def children_def failed_one_def split: sum.splits if_splits)
  have lf3: "link_free (tree_of s3)"
  proof -
    have "link_free (tree_of s1)" using t1 lf made_link_free by (auto simp: traced.Rs_def traced_def)
    then have "link_free (tree_of s2)" by (simp add: s2_def)
    then show ?thesis using t2 made_link_free by (auto simp: traced.Rs_def traced_def)
  qed
  from 4 z have "t_remove_dir (rooted a) (tree_of s3) = Inr (u, tree_of s4)"
    using alone
    by (auto simp: on_world_def remove_dir_def tcall_def Let_def nobody_else_def tree_of_def
        split: prod.splits option.splits sum.splits)
  then obtain l where l: "slot (tree_of s3) (rooted a) = Some l" "tree_of s4 = drop_dir l (tree_of s3)"
    by (rule t_remove_dir_Inr)
  from slot_rooted [OF lf3 l(1)] l(2) z show ?thesis by (auto simp: vacant_def drop_dir_def)
qed

lemma item_gone_or_moved:
  assumes alone: "nobody_else env" and lf: "link_free (tree_of s)" and b: "in_bounds S D (rooted a) dir"
    and m: "move_item fuel env attempts scan (rooted a) dir s = Some s'"
    and f: "mo_failed (mb_out s') = mo_failed (mb_out s)"
  shows "gone_or_moved a s'"
proof -
  note same = nobody_else_eq [OF alone]
  from m obtain k where k: "fuel = Suc k" by (cases fuel) auto
  obtain q s1 where 1: "on_world (lstat env (rooted a)) s = (q, s1)" by fastforce
  obtain c s2 where 2: "on_world (refused_at_once env (rooted a)) s1 = (c, s2)" by fastforce
  have f2: "mo_failed (mb_out s1) = mo_failed (mb_out s)" "mo_failed (mb_out s2) = mo_failed (mb_out s)"
    using 1 2 by (auto simp: on_world_def split: prod.splits)
  have "traced.Rs S D s s1"
    by (rule traced.on_world_R [OF 1]) (rule traced.lstat_R [where env = env, unfolded same])
  moreover have "traced.Rs S D s1 s2"
    by (rule traced.on_world_R [OF 2]) (rule traced.refused_at_once_R [where env = env, unfolded same])
  ultimately have lf2: "link_free (tree_of s2)"
    using lf made_link_free by (auto simp: traced.Rs_def traced_def)
  consider (dir) "move_dir_item (move_item k env attempts scan) env attempts scan (rooted a) dir s2 = Some s'"
    | (plain) b where "s' = move_file_item env attempts scan (rooted a) b dir s2"
    using m k 1 2 f f2
    by (fastforce simp: move_item_with_def failed_one_def split: sum.splits entry.splits bool.splits if_splits)
  then show ?thesis
  proof cases
    case plain
    with file_item_moved f f2 show ?thesis by (metis gone_or_moved_def)
  next
    case dir
    then obtain n where n: "file_name (rooted a) = Some n"
      using f f2 by (auto simp: move_dir_item_def failed_one_def split: option.splits)
    obtain c s3 where 3: "on_world (is_dir env (dir @ [Normal n])) s2 = (c, s3)" by fastforce
    have f3: "mo_failed (mb_out s3) = mo_failed (mb_out s2)"
      using 3 by (auto simp: on_world_def split: prod.splits)
    have "traced.Rs S D s2 s3"
      by (rule traced.on_world_R [OF 3]) (rule traced.is_dir_R [where env = env, unfolded same])
    with lf2 have lf3: "link_free (tree_of s3)" using made_link_free by (auto simp: traced.Rs_def traced_def)
    show ?thesis
    proof (cases c)
      case True
      with dir n 3 have "merge_dir (move_item k env attempts scan) env (rooted a) (dir @ [Normal n]) s3 = Some s'"
        by (simp add: move_dir_item_def)
      from merge_dir_gone [OF alone lf3 b n this] f f2 f3 show ?thesis by (simp add: gone_or_moved_def)
    next
      case False
      obtain y s4 where 4: "on_world (tree_move_dir_into env attempts (rooted a) dir) s3 = (y, s4)" by fastforce
      then have "mo_failed (mb_out s4) = mo_failed (mb_out s3)" by (auto simp: on_world_def split: prod.splits)
      with dir n 3 4 False f f2 f3 show ?thesis
        by (auto simp: move_dir_item_def gone_or_moved_def Let_def failed_one_def split: sum.splits)
    qed
  qed
qed

text \<open>The traced steps keep what the analysis of an item needs.\<close>

definition sound_below :: "nat \<Rightarrow> mb \<Rightarrow> bool" where
  "sound_below l s \<longleftrightarrow> link_free (tree_of s) \<and> tree_ok (tree_of s) \<and> length (dt_entries (tree_of s)) \<le> l"

lemma Rs_sound: "traced.Rs S D s s' \<Longrightarrow> sound_below l s \<Longrightarrow> sound_below l s'"
  by (auto simp: traced.Rs_def traced_def sound_below_def
      dest: made_link_free made_ok made_size intro: le_trans)

lemma item_Rs:
  "nobody_else env \<Longrightarrow> in_bounds S D src dir \<Longrightarrow> move_item fuel env attempts scan src dir s = Some s' \<Longrightarrow>
     traced.Rs S D s s'"
  using traced.move_item_R [where env = env and S = S and D = D] nobody_else_eq by metis

lemma each_item_clean:
  assumes "nobody_else env"
  shows "each_item (\<lambda>src. move_item fuel env attempts scan src (rooted D)) (map rooted A) s = Some s' \<Longrightarrow>
     set A \<subseteq> set S \<Longrightarrow> link_free (tree_of s) \<Longrightarrow> mo_failed (mb_out s') = mo_failed (mb_out s) \<Longrightarrow> a \<in> set A \<Longrightarrow>
     \<not> strict_prefix D a \<Longrightarrow> gone_or_moved a s'"
proof (induction A arbitrary: s)
  case (Cons x A)
  let ?f = "\<lambda>src. move_item fuel env attempts scan src (rooted D)"
  from Cons.prems(1) obtain v where v: "?f (rooted x) s = Some v" "each_item ?f (map rooted A) v = Some s'"
    by (auto split: option.splits)
  have b: "in_bounds S D (rooted y) (rooted D)" if "y \<in> set (x # A)" for y
    using that Cons.prems(2) by (auto simp: in_bounds_def intro: below_own)
  have r1: "traced.Rs S D s v" by (rule item_Rs [OF assms b v(1)]) simp
  have r2: "traced.Rs S D v s'"
    by (rule traced.each_item_R [OF _ v(2)]) (use item_Rs [OF assms] b in force)
  from r1 r2 Cons.prems(4) have f: "mo_failed (mb_out v) = mo_failed (mb_out s)" "mo_failed (mb_out s') = mo_failed (mb_out v)"
    by (auto simp: traced.Rs_def)
  from r1 Cons.prems(3) have lf: "link_free (tree_of v)" using made_link_free by (auto simp: traced.Rs_def traced_def)
  show ?case
  proof (cases "a \<in> set A")
    case True
    show ?thesis by (rule Cons.IH [OF v(2) _ lf f(2) True Cons.prems(6)]) (use Cons.prems(2) in simp)
  next
    case False
    with Cons.prems(5) have "a = x" by simp
    with item_gone_or_moved [OF assms Cons.prems(3) b v(1) f(1)] have "gone_or_moved a v" by simp
    with r2 lf made_stays_vacant [OF _ _ Cons.prems(6)] show ?thesis
      by (auto simp: gone_or_moved_def traced.Rs_def traced_def)
  qed
qed simp


section \<open>A batch returns\<close>

lemma depth_bounded:
  assumes "tree_ok t" and "(q, e) \<in> set (dt_entries t)"
  shows "length q \<le> length (dt_entries t)"
proof -
  have "(\<lambda>k. take (Suc k) q) ` {..<length q} \<subseteq> fst ` set (dt_entries t)"
  proof
    fix p assume "p \<in> (\<lambda>k. take (Suc k) q) ` {..<length q}"
    then obtain k where k: "k < length q" "p = take (Suc k) q" by auto
    then have p: "prefix p q" "p \<noteq> []" by (auto simp: take_is_prefix)
    show "p \<in> fst ` set (dt_entries t)"
    proof (cases "p = q")
      case False
      with p ancestors_exist [OF assms] have "(p, DirEntry) \<in> set (dt_entries t)" by (simp add: strict_prefix_def)
      then show ?thesis by force
    qed (use assms(2) in force)
  qed
  moreover have "inj_on (\<lambda>k. take (Suc k) q) {..<length q}"
    by (rule inj_onI) (metis Suc_inject Suc_leI length_take lessThan_iff min_absorb2)
  ultimately have "card {..<length q} \<le> card (fst ` set (dt_entries t))"
    by (metis card_image card_mono finite_imageI finite_set)
  also have "\<dots> \<le> length (dt_entries t)" by (metis card_image_le card_length finite_set le_trans)
  finally show ?thesis by simp
qed

lemma each_item_returns:
  assumes "\<And>p v. p \<in> set ps \<Longrightarrow> I v \<Longrightarrow> \<exists>v'. f p v = Some v' \<and> I v'" and "I s"
  shows "\<exists>s'. each_item f ps s = Some s'"
  using assms
proof (induction ps arbitrary: s)
  case (Cons p ps)
  from Cons.prems obtain v where v: "f p s = Some v" "I v" by force
  have "\<exists>s'. each_item f ps v = Some s'" by (rule Cons.IH [OF _ v(2)]) (simp add: Cons.prems(1))
  with v show ?case by simp
qed simp

lemma lstat_dir:
  assumes "nobody_else env" "link_free (tree_of s)" "tree_ok (tree_of s)"
    and "on_world (lstat env (rooted a)) s = (Inr DirEntry, s1)"
  shows "length a \<le> length (dt_entries (tree_of s))"
proof -
  from assms(1,4) obtain l where l: "unfollowed (tree_of s) (rooted a) = Some l" "dir_at (tree_of s) l"
    by (auto simp: on_world_def lstat_def tcall_def Let_def nobody_else_def t_lstat_def tree_of_def dir_at_def
        split: prod.splits option.splits sum.splits)
  then have "l = a" using unfollowed_rooted [OF assms(2)] by simp
  then show ?thesis
    using l(2) depth_bounded [OF assms(3)] by (cases "a = []") (auto simp: dir_at_def entry_at_iff [OF assms(3)])
qed

lemma item_returns:
  assumes "nobody_else env"
  shows "in_bounds S D (rooted a) dir \<Longrightarrow> sound_below l s \<Longrightarrow> l + 2 \<le> fuel + length a \<Longrightarrow> 1 \<le> fuel \<Longrightarrow>
     \<exists>s'. move_item fuel env attempts scan (rooted a) dir s = Some s'"
proof (induction fuel arbitrary: a dir s)
  case (Suc fuel)
  note same = nobody_else_eq [OF assms]
  let ?item = "move_item fuel env attempts scan"
  obtain q s1 where 1: "on_world (lstat env (rooted a)) s = (q, s1)" by fastforce
  obtain c s2 where 2: "on_world (refused_at_once env (rooted a)) s1 = (c, s2)" by fastforce
  have "traced.Rs S D s s1"
    by (rule traced.on_world_R [OF 1]) (rule traced.lstat_R [where env = env, unfolded same])
  moreover have "traced.Rs S D s1 s2"
    by (rule traced.on_world_R [OF 2]) (rule traced.refused_at_once_R [where env = env, unfolded same])
  ultimately have i2: "sound_below l s2" using Suc.prems(2) Rs_sound by blast
  show ?case
  proof (cases "q = Inr DirEntry \<and> \<not> c")
    case False
    then show ?thesis
      by (auto simp: move_item_with_def 1 2 split: sum.splits entry.splits bool.splits)
  next
    case True
    have a: "length a \<le> l"
      using lstat_dir [OF assms _ _ 1 [unfolded conjunct1 [OF True]]] Suc.prems(2) by (auto simp: sound_below_def)
    have "\<exists>s'. move_dir_item ?item env attempts scan (rooted a) dir s2 = Some s'"
    proof (cases "file_name (rooted a)")
      case (Some n)
      obtain d s3 where 3: "on_world (is_dir env (dir @ [Normal n])) s2 = (d, s3)" by fastforce
      have "traced.Rs S D s2 s3"
        by (rule traced.on_world_R [OF 3]) (rule traced.is_dir_R [where env = env, unfolded same])
      with i2 have i3: "sound_below l s3" by (rule Rs_sound [rotated])
      show ?thesis
      proof (cases d)
        case False
        then show ?thesis using Some 3 by (auto simp: move_dir_item_def Let_def split: prod.splits sum.splits)
      next
        case True
        obtain r s4 where 4: "on_world (read_dir env (rooted a)) s3 = (r, s4)" by fastforce
        have "traced.Rs S D s3 s4"
          by (rule traced.on_world_R [OF 4]) (rule traced.read_dir_R [where env = env, unfolded same])
        with i3 have i4: "sound_below l s4" by (rule Rs_sound [rotated])
        show ?thesis
        proof (cases r)
          case (Inl e)
          with True Some 3 4 show ?thesis by (simp add: move_dir_item_def merge_dir_def)
        next
          case (Inr x)
          obtain names stopped where x: "x = (names, stopped)" by fastforce
          define s5 where "s5 = (if stopped then failed_one s4 else s4)"
          have i5: "sound_below l s5" using i4 by (simp add: s5_def sound_below_def)
          have "\<exists>s'. each_item (\<lambda>child. ?item child (dir @ [Normal n]))
              (sort_key name_key (map (\<lambda>n. rooted a @ [Normal n]) names)) s5 = Some s'"
          proof (rule each_item_returns [of _ "sound_below l", OF _ i5])
            fix p v assume p: "p \<in> set (sort_key name_key (map (\<lambda>n. rooted a @ [Normal n]) names))" and v: "sound_below l v"
            from p obtain m where m: "p = rooted (a @ [m])" by (auto simp: rooted_snoc)
            have b: "in_bounds S D p (dir @ [Normal n])"
              using traced.ok_child [OF Suc.prems(1) Some] m by (simp flip: rooted_snoc)
            have "\<exists>v'. ?item (rooted (a @ [m])) (dir @ [Normal n]) v = Some v'"
              by (rule Suc.IH [OF b [unfolded m] v]) (use Suc.prems(3) a in simp_all)
            with item_Rs [OF assms b] Rs_sound v m show "\<exists>v'. ?item p (dir @ [Normal n]) v = Some v' \<and> sound_below l v'"
              by blast
          qed
          with True Some 3 4 Inr x show ?thesis
            by (auto simp: move_dir_item_def merge_dir_def Let_def s5_def split: prod.splits sum.splits)
        qed
      qed
    qed (simp add: move_dir_item_def)
    with True 1 2 show ?thesis by (simp add: move_item_with_def)
  qed
qed simp

text \<open>
  Claim C33. A batch returns: alone on a well-formed tree without symbolic links, whatever fails, the
  recursion into directories goes no deeper than the tree has entries, so with fuel of two more the
  batch yields its outcome, although merging changes the tree it walks.
\<close>

theorem move_batch_returns:
  assumes "nobody_else env" and "tree_ok (tw_tree w)" and "link_free (tw_tree w)"
    and "length (dt_entries (tw_tree w)) + 2 \<le> fuel"
  shows "\<exists>s. move_batch fuel env attempts (map rooted S) (rooted D) scan store w = Some s"
  unfolding move_batch_def
proof (rule each_item_returns [of _ "sound_below (length (dt_entries (tw_tree w)))"])
  let ?l = "length (dt_entries (tw_tree w))"
  fix p v assume p: "p \<in> set (map rooted S)" and v: "sound_below ?l v"
  then obtain a where a: "p = rooted a" "a \<in> set S" by auto
  then have b: "in_bounds S D (rooted a) (rooted D)" by (auto simp: in_bounds_def intro: below_own)
  have "\<exists>v'. move_item fuel env attempts scan (rooted a) (rooted D) v = Some v'"
    by (rule item_returns [OF assms(1) b v]) (use assms(4) in simp_all)
  with item_Rs [OF assms(1) b] Rs_sound v a
  show "\<exists>v'. move_item fuel env attempts scan p (rooted D) v = Some v' \<and> sound_below ?l v'" by blast
qed (use assms in \<open>simp add: sound_below_def tree_of_def\<close>)

end
