(* ===== verification/Move_Undo.thy ===== *)
theory Move_Undo
  imports Move_Trace
begin

text \<open>
  Undo: run against the trace of a batch, newest move first, \<open>restore_one\<close> brings every file back to
  where it was. A directory that was merged away and held nothing that moved is not made again.
\<close>

section \<open>Paths that are there\<close>

text \<open>A tree of files and directories only.\<close>

definition plain :: "dtree \<Rightarrow> bool" where
  "plain t \<longleftrightarrow> (\<forall>(q, e)\<in>set (dt_entries t). e = DirEntry \<or> (\<exists>i. e = FileEntry i))"

lemma plain_link_free: "plain t \<Longrightarrow> link_free t"
  by (auto simp: plain_def link_free_def)

lemma plain_entry: "plain t \<Longrightarrow> entry_at t q = Some e \<Longrightarrow> e = DirEntry \<or> (\<exists>i. e = FileEntry i)"
  by (auto simp: plain_def entry_at_def dest: map_of_SomeD split: if_splits)

lemma walk_dirs:
  "(\<And>j. j \<le> length a \<Longrightarrow> dir_at t (cur @ take j a)) \<Longrightarrow> walk t follow k cur (map Normal a @ cs) = walk t follow k (cur @ a) cs"
proof (induction a arbitrary: cur)
  case (Cons n a)
  have "dir_at t (cur @ [n])" using Cons.prems [of 1] by simp
  moreover have "walk t follow k (cur @ [n]) (map Normal a @ cs) = walk t follow k ((cur @ [n]) @ a) cs"
  proof (rule Cons.IH)
    fix j assume "j \<le> length a"
    then show "dir_at t ((cur @ [n]) @ take j a)" using Cons.prems [of "Suc j"] by simp
  qed
  ultimately show ?case by (simp add: dir_at_def)
qed simp

lemma dirs_above:
  assumes "tree_ok t" and "dir_at t a"
  shows "dir_at t (take j a)"
proof (cases "take j a = [] \<or> take j a = a")
  case True
  with assms(2) show ?thesis by (auto simp: dir_at_def entry_at_def)
next
  case False
  with assms(2) have "(a, DirEntry) \<in> set (dt_entries t)"
    using entry_at_iff [OF assms(1), of a] by (auto simp: dir_at_def)
  moreover have "strict_prefix (take j a) a" using False by (simp add: strict_prefix_def take_is_prefix)
  ultimately show ?thesis by (rule dir_at_ancestor [OF assms(1)])
qed

lemma resolved_dir: "tree_ok t \<Longrightarrow> dir_at t a \<Longrightarrow> resolved t (rooted a) = Some a"
  unfolding resolved_def rooted_def
  using walk_dirs [of a t "[]" True max_links "[]"] dirs_above by simp

lemma slot_under_dir:
  "tree_ok t \<Longrightarrow> dir_at t a \<Longrightarrow> slot t (rooted (a @ [n])) = Some (a @ [n])"
  using resolved_dir by (simp add: slot_def file_name_rooted flip: rooted_snoc)

lemma parent_dir:
  assumes "tree_ok t" "(b, e) \<in> set (dt_entries t)"
  obtains d n where "b = d @ [n]" "dir_at t d"
proof -
  have "b \<noteq> []" by (rule tree_okD(1) [OF assms])
  then obtain d n where b: "b = d @ [n]" by (metis rev_exhaust)
  then have "dir_at t d" by (intro dir_at_ancestor [OF assms]) (simp add: strict_prefix_def)
  with b show thesis by (rule that)
qed

lemma unfollowed_present:
  assumes "tree_ok t" "plain t" "(b, e) \<in> set (dt_entries t)"
  shows "unfollowed t (rooted b) = Some b"
proof -
  obtain d n where b: "b = d @ [n]" "dir_at t d" using assms(1,3) by (rule parent_dir)
  have e: "entry_at t b = Some e" using entry_at_iff [OF assms(1)] tree_okD(1) [OF assms(1,3)] assms(3) by simp
  have "walk t False max_links [] (map Normal d @ [Normal n]) = walk t False max_links ([] @ d) [Normal n]"
    by (rule walk_dirs) (use dirs_above [OF assms(1) b(2)] in simp)
  also have "\<dots> = Some b" using e plain_entry [OF assms(2) e] b by auto
  finally show ?thesis by (simp add: unfollowed_def rooted_def b)
qed

section \<open>Directories made again\<close>

lemma make_dirs_names:
  assumes "plain t" "tree_ok t" "dir_at t cur"
    and "\<And>j. entry_at t (cur @ take j a) = None \<or> dir_at t (cur @ take j a)"
  shows "tree_ok (make_dirs k cur (map Normal a) t) \<and> plain (make_dirs k cur (map Normal a) t)
    \<and> dt_nodes (make_dirs k cur (map Normal a) t) = dt_nodes t
    \<and> set (dt_entries (make_dirs k cur (map Normal a) t))
        = set (dt_entries t) \<union> (\<lambda>j. (cur @ take (Suc j) a, DirEntry)) ` {..<length a}"
  using assms
proof (induction a arbitrary: cur t)
  case (Cons n a)
  have shift: "(\<lambda>j. (cur @ take (Suc j) (n # a), DirEntry)) ` {..<length (n # a)}
      = insert (cur @ [n], DirEntry) ((\<lambda>j. ((cur @ [n]) @ take (Suc j) a, DirEntry)) ` {..<length a})"
    by (auto simp: image_iff less_Suc_eq_0_disj)
  show ?case
  proof (cases "entry_at t (cur @ [n])")
    case (Some e)
    with Cons.prems(4) [of 1] have d: "dir_at t (cur @ [n])" by auto
    then have in_t: "(cur @ [n], DirEntry) \<in> set (dt_entries t)"
      using entry_at_iff [OF Cons.prems(2), of "cur @ [n]"] by (simp add: dir_at_def)
    have "entry_at t ((cur @ [n]) @ take j a) = None \<or> dir_at t ((cur @ [n]) @ take j a)" for j
      using Cons.prems(4) [of "Suc j"] by simp
    from Cons.IH [OF Cons.prems(1,2) d this] d in_t show ?thesis
      unfolding shift by (auto simp: dir_at_def)
  next
    case None
    define t1 where "t1 = t\<lparr>dt_entries := dt_entries t @ [(cur @ [n], DirEntry)]\<rparr>"
    have new: "cur @ [n] \<notin> fst ` set (dt_entries t)" using None entry_at_None [of "cur @ [n]" t] by simp
    have up: "cur = [] \<or> (cur, DirEntry) \<in> set (dt_entries t)"
      using Cons.prems(3) entry_at_iff [OF Cons.prems(2)] by (auto simp: dir_at_def)
    have ok1: "tree_ok t1" using Cons.prems(2) new up by (auto simp: tree_ok_def t1_def)
    have e1: "entry_at t1 q = (if q = cur @ [n] then Some DirEntry else entry_at t q)" for q
      using None by (auto simp: t1_def entry_at_def map_add_def split: option.splits)
    have p1: "plain t1" using Cons.prems(1) by (auto simp: plain_def t1_def)
    have d1: "dir_at t1 (cur @ [n])" by (simp add: dir_at_def e1)
    have "entry_at t1 ((cur @ [n]) @ take j a) = None \<or> dir_at t1 ((cur @ [n]) @ take j a)" for j
      using Cons.prems(4) [of "Suc j"] by (auto simp: e1 dir_at_def)
    from Cons.IH [OF p1 ok1 d1 this] None show ?thesis
      unfolding shift by (auto simp: t1_def)
  qed
qed simp

section \<open>One move taken back\<close>

text \<open>
  \<open>u\<close> recovers \<open>t\<close> but for directories: it holds nothing that \<open>t\<close> does not, and all of \<open>t\<close> except
  directories outside the destination.
\<close>

definition recovers :: "location \<Rightarrow> dtree \<Rightarrow> dtree \<Rightarrow> bool" where
  "recovers D u t \<longleftrightarrow>
     tree_ok u \<and> dt_nodes u = dt_nodes t \<and> set (dt_entries u) \<subseteq> set (dt_entries t)
     \<and> (\<forall>(q, e)\<in>set (dt_entries t). e \<noteq> DirEntry \<or> strict_prefix D q \<longrightarrow> (q, e) \<in> set (dt_entries u))"

definition quiet_env :: "tenv \<Rightarrow> bool" where
  "quiet_env env \<longleftrightarrow>
     nobody_else env \<and> (\<forall>n. te_fault env n = None) \<and> (\<forall>t p. te_protected env t p = None)"

lemma quiet_tcall:
  "quiet_env env \<Longrightarrow> tcall env body w =
     (case body (tw_tree w) of
        Inl e \<Rightarrow> (Inl e, \<lparr>tw_tick = tw_tick w + 1, tw_tree = tw_tree w\<rparr>)
      | Inr (x, t') \<Rightarrow> (Inr x, \<lparr>tw_tick = tw_tick w + 1, tw_tree = t'\<rparr>))"
  by (simp add: tcall_def quiet_env_def nobody_else_def Let_def)

lemma comparable: "prefix a q \<Longrightarrow> prefix b q \<Longrightarrow> prefix a b \<or> prefix b a"
  by (rule prefix_same_cases) auto

lemma butlast_rooted: "a \<noteq> [] \<Longrightarrow> butlast (rooted a) = rooted (butlast a)"
  by (simp add: rooted_def map_butlast)

lemma parent_rooted: "a \<noteq> [] \<Longrightarrow> parent (rooted a) = Some (rooted (butlast a))"
  using butlast_rooted [of a] by (cases a rule: rev_cases) (auto simp: parent_def rooted_def)

lemma starts_with_rooted: "starts_with (rooted a) (rooted b) \<longleftrightarrow> prefix b a"
proof -
  have "prefix (map Normal b) (map Normal a) \<longleftrightarrow> prefix b a"
  proof (induction b arbitrary: a)
    case (Cons n b)
    then show ?case by (cases a) simp_all
  qed simp
  then show ?thesis by (simp add: starts_with_def rooted_def)
qed

text \<open>The rename back is made at the first try.\<close>

lemma quiet_rename_back:
  assumes q: "quiet_env env" and u: "tree_ok u" "plain u" and m: "may_rename b a u"
    and nul: "\<not> has_nul (rooted a)" "\<not> has_nul (rooted b)"
    and skip: "\<not> skip (rooted a)" and n: "0 < attempts"
  shows "claim_in_tree env skip attempts (rooted b) (rooted a) 0 \<lparr>tw_tick = k, tw_tree = u\<rparr>
    = (Inr (rooted a), \<lparr>tw_tick = k + 1, tw_tree = take_along b a u\<rparr>)"
proof -
  from m have ab: "a \<noteq> []" "b \<noteq> []" by (simp_all add: may_rename_def)
  obtain e where "(b, e) \<in> set (dt_entries u)"
    using m entry_at_iff [OF u(1) ab(2)] by (auto simp: may_rename_def)
  then obtain d n where b: "b = d @ [n]" "dir_at u d" by (rule parent_dir [OF u(1)])
  have sb: "slot u (rooted b) = Some b" unfolding b by (rule slot_under_dir [OF u(1) b(2)])
  have "slot u (rooted (butlast a @ [last a])) = Some (butlast a @ [last a])"
    by (rule slot_under_dir [OF u(1)]) (use m in \<open>simp add: may_rename_def\<close>)
  with ab have sa: "slot u (rooted a) = Some a" by simp
  have f: "file_name (rooted a) \<noteq> None" "file_name (rooted b) \<noteq> None" using ab by (simp_all add: file_name_rooted)
  have "t_rename (rooted b) (rooted a) u = Inr ((), take_along b a u)"
    using m sa sb f by (simp add: t_rename_def may_rename_def)
  moreover obtain i where "attempts = Suc i" using n by (cases attempts) auto
  ultimately show ?thesis
    using q nul skip by (simp add: suffixed_def rename_into_def quiet_tcall quiet_env_def)
qed

lemma quiet_lstat:
  assumes q: "quiet_env env" and u: "tree_ok u" "plain u" and b: "(b, e) \<in> set (dt_entries u)"
  shows "lstat env (rooted b) \<lparr>tw_tick = k, tw_tree = u\<rparr> = (Inr e, \<lparr>tw_tick = k + 1, tw_tree = u\<rparr>)"
  using unfollowed_present [OF u b] entry_at_iff [OF u(1) tree_okD(1) [OF u(1) b], of e] b
  by (simp add: lstat_def quiet_tcall [OF q] t_lstat_def)

lemma quiet_is_dir:
  assumes "quiet_env env" "tree_ok u" "dir_at u d"
  shows "is_dir env (rooted d) \<lparr>tw_tick = k, tw_tree = u\<rparr> = (True, \<lparr>tw_tick = k + 1, tw_tree = u\<rparr>)"
  using resolved_dir [OF assms(2,3)] assms(3) by (simp add: is_dir_def quiet_tcall [OF assms(1)])

lemma move_back:
  assumes q: "quiet_env env" and u: "tree_ok u" "plain u" and m: "may_rename b a u"
    and nul: "\<not> has_nul (rooted a)" "\<not> has_nul (rooted b)" and n: "0 < attempts" and b: "(b, e) \<in> set (dt_entries u)"
  shows "(if e = DirEntry then tree_move_dir_to env attempts (rooted b) (rooted a) \<lparr>tw_tick = k, tw_tree = u\<rparr>
          else tree_move_to env attempts (rooted b) (rooted a) \<lparr>tw_tick = k, tw_tree = u\<rparr>)
    = (Inr (rooted a), \<lparr>tw_tick = k + 3, tw_tree = take_along b a u\<rparr>)"
proof -
  from m have ab: "a \<noteq> []" "b \<noteq> []" "\<not> prefix b a" and d: "dir_at u (butlast a)" and "a \<noteq> b"
    by (auto simp: may_rename_def)
  have other: "\<not> (parent (rooted b) = Some (rooted (butlast a)) \<and> file_name (rooted a) = file_name (rooted b))"
    using ab \<open>a \<noteq> b\<close> by (auto simp: parent_rooted file_name_rooted) (metis append_butlast_last_id)
  note facts = quiet_lstat [OF q u b] parent_rooted [OF ab(1)] quiet_is_dir [OF q u(1) d] starts_with_rooted
  show ?thesis
  proof (cases "e = DirEntry")
    case True
    with other ab(3) show ?thesis
      by (simp add: tree_move_dir_to_def facts quiet_rename_back [OF q u m nul _ n])
  next
    case False
    then obtain i where "e = FileEntry i" using u(2) b by (auto simp: plain_def)
    with other show ?thesis
      by (simp add: tree_move_to_def facts quiet_rename_back [OF q u m nul _ n])
  qed
qed

lemma recovers_plain: "recovers D u t \<Longrightarrow> plain t \<Longrightarrow> plain u"
  unfolding recovers_def plain_def by blast

text \<open>The directories above the place a file came from, made again where they are missing.\<close>

lemma remade:
  assumes t1: "tree_ok t1" and m: "may_rename a b t1" and u: "recovers D u t2" "plain t2" "tree_ok t2"
    and t2: "t2 = take_along a b t1"
  defines "u1 \<equiv> make_dirs max_links [] (rooted (butlast a)) u"
  shows "tree_ok u1" "plain u1" "dt_nodes u1 = dt_nodes u" "dir_at u1 (butlast a)"
    "set (dt_entries u) \<subseteq> set (dt_entries u1)" "set (dt_entries u1) \<subseteq> set (dt_entries t2)"
proof -
  have a: "a \<noteq> []" using m by (simp add: may_rename_def)
  obtain e where e: "(a, e) \<in> set (dt_entries t1)"
    using m entry_at_iff [OF t1 a] by (auto simp: may_rename_def)
  have uok: "tree_ok u" "plain u" using u(1) recovers_plain [OF u(1,2)] by (simp_all add: recovers_def)
  have above: "take j (butlast a) = [] \<or> (take j (butlast a), DirEntry) \<in> set (dt_entries t2)" for j
  proof (cases "take j (butlast a) = []")
    case False
    have "strict_prefix (take j (butlast a)) a"
      using a by (metis append_butlast_last_id prefix_snoc prefix_order.dual_order.strict_trans1
          prefix_order.less_le_trans strict_prefix_def take_is_prefix append_self_conv not_Cons_self2 prefixI)
    then have "(take j (butlast a), DirEntry) \<in> set (dt_entries t1)" and "\<not> prefix a (take j (butlast a))"
      using ancestors_exist [OF t1 e _ False] by (auto simp: strict_prefix_def)
    then show ?thesis unfolding t2 by (auto simp: in_take_along)
  qed simp
  have pre: "entry_at u ([] @ take j (butlast a)) = None \<or> dir_at u ([] @ take j (butlast a))" for j
  proof (cases "entry_at u (take j (butlast a))")
    case (Some x)
    show ?thesis
    proof (cases "take j (butlast a) = []")
      case False
      with Some have "(take j (butlast a), x) \<in> set (dt_entries t2)"
        using entry_at_iff [OF uok(1) False] u(1) by (auto simp: recovers_def)
      with above [of j] False have "x = DirEntry" using tree_ok_unique [OF u(3)] by blast
      with Some show ?thesis by (simp add: dir_at_def)
    qed (simp add: dir_at_def entry_at_def)
  qed simp
  have root: "dir_at u []" by (simp add: dir_at_def entry_at_def)
  have u1: "u1 = make_dirs max_links [] (map Normal (butlast a)) u" by (simp add: u1_def rooted_def)
  note made = make_dirs_names [OF uok(2,1) root pre, of max_links, folded u1]
  then show "tree_ok u1" "plain u1" "dt_nodes u1 = dt_nodes u" "set (dt_entries u) \<subseteq> set (dt_entries u1)" by auto
  have "(take (Suc j) (butlast a), DirEntry) \<in> set (dt_entries t2)" if "j < length (butlast a)" for j
  proof -
    from that have "take (Suc j) (butlast a) \<noteq> []" by (cases "butlast a") auto
    with above [of "Suc j"] show ?thesis by blast
  qed
  with made u(1) show "set (dt_entries u1) \<subseteq> set (dt_entries t2)" unfolding recovers_def by auto
  show "dir_at u1 (butlast a)"
  proof (cases "butlast a = []")
    case False
    then obtain j where j: "length (butlast a) = Suc j" by (metis length_0_conv not0_implies_Suc)
    have "([] @ take (Suc j) (butlast a), DirEntry)
        \<in> (\<lambda>j. ([] @ take (Suc j) (butlast a), DirEntry)) ` {..<length (butlast a)}"
      by (rule imageI) (use j in \<open>simp only: lessThan_iff lessI\<close>)
    then have "(take (Suc j) (butlast a), DirEntry) \<in> set (dt_entries u1)"
      unfolding made [THEN conjunct2, THEN conjunct2, THEN conjunct2] append_Nil by (rule UnI2)
    with j False show ?thesis using entry_at_iff [OF \<open>tree_ok u1\<close> False] by (simp add: dir_at_def)
  qed (simp add: dir_at_def entry_at_def)
qed

text \<open>Renaming there and back is the identity on what was in the tree.\<close>

lemma reroot_back:
  assumes "tree_ok t" "may_rename a b t" "(y, e) \<in> set (dt_entries t)"
  shows "reroot b a (reroot a b y) = y"
proof (cases "prefix a y")
  case True
  then obtain r where "y = a @ r" by (auto simp: prefix_def)
  then show ?thesis by simp
next
  case False
  moreover have "\<not> prefix b y" using nothing_below [OF assms(1) _ assms(3)] assms(2) by (simp add: may_rename_def)
  ultimately show ?thesis by simp
qed

lemma restore_one_back:
  assumes q: "quiet_env env" and n: "0 < attempts"
    and t1: "tree_ok t1" "plain t1" and m: "may_rename a b t1" and nul: "\<not> has_nul (rooted a)" "\<not> has_nul (rooted b)"
    and inside: "strict_prefix D b" and apart: "\<not> prefix D a" "\<not> prefix a D"
    and u: "recovers D (tw_tree w) (take_along a b t1)"
  shows "\<exists>w'. restore_one env attempts (rooted b) (rooted a) w = (Inr (rooted a), w') \<and> recovers D (tw_tree w') t1"
proof -
  define t2 where "t2 = take_along a b t1"
  define u1 where "u1 = make_dirs max_links [] (rooted (butlast a)) (tw_tree w)"
  have ab: "a \<noteq> []" "b \<noteq> []" using m by (auto simp: may_rename_def)
  have ok2: "tree_ok t2" unfolding t2_def by (rule take_along_ok [OF t1(1) m])
  have p2: "plain t2" using t1(2) by (auto simp: plain_def t2_def set_take_along)
  note r = remade [OF t1(1) m u [folded t2_def] p2 ok2 t2_def, folded u1_def]
  obtain e where e: "(a, e) \<in> set (dt_entries t1)"
    using m entry_at_iff [OF t1(1) ab(1)] by (auto simp: may_rename_def)
  then have "(b, e) \<in> set (dt_entries t2)" unfolding t2_def in_take_along by (intro exI [of _ a]) simp
  with u inside have b1: "(b, e) \<in> set (dt_entries u1)" using r(5) by (auto simp: recovers_def t2_def)
  have "vacant t2 a" unfolding t2_def
    by (rule taken_is_vacant [OF t1(1) m inside]) (use apart in \<open>simp add: strict_prefix_def\<close>)
  then have "entry_at u1 a = None"
    using r(6) entry_at_None [OF ab(1), of u1] by (auto simp: vacant_def)
  moreover have "\<not> prefix b a" using inside apart(1) by (meson prefix_order.less_imp_le prefix_order.trans)
  moreover have "entry_at u1 b = Some e" using entry_at_iff [OF r(1) ab(2)] b1 by simp
  ultimately have m1: "may_rename b a u1" using ab r(4) by (simp add: may_rename_def)
  define u2 where "u2 = take_along b a u1"
  have "create_dirs env (rooted (butlast a)) w = \<lparr>tw_tick = tw_tick w + 1, tw_tree = u1\<rparr>"
    by (simp add: create_dirs_def quiet_tcall [OF q] u1_def)
  then have "restore_one env attempts (rooted b) (rooted a) w
      = (if e = DirEntry then tree_move_dir_to env attempts (rooted b) (rooted a) \<lparr>tw_tick = tw_tick w + 2, tw_tree = u1\<rparr>
         else tree_move_to env attempts (rooted b) (rooted a) \<lparr>tw_tick = tw_tick w + 2, tw_tree = u1\<rparr>)"
    by (cases e) (simp_all add: restore_one_def parent_rooted [OF ab(1)] quiet_lstat [OF q r(1,2) b1])
  also have "\<dots> = (Inr (rooted a), \<lparr>tw_tick = tw_tick w + 5, tw_tree = u2\<rparr>)"
    using move_back [OF q r(1,2) m1 nul n b1, of "tw_tick w + 2"] by (simp add: u2_def)
  finally have run: "restore_one env attempts (rooted b) (rooted a) w
      = (Inr (rooted a), \<lparr>tw_tick = tw_tick w + 5, tw_tree = u2\<rparr>)" .
  have returned: "(reroot b a x, f) \<in> set (dt_entries t1)" if "(x, f) \<in> set (dt_entries t2)" for x f
    using that reroot_back [OF t1(1) m] by (auto simp: t2_def in_take_along)
  have "recovers D u2 t1"
    unfolding recovers_def
  proof (intro conjI)
    show "tree_ok u2" unfolding u2_def by (rule take_along_ok [OF r(1) m1])
    show "dt_nodes u2 = dt_nodes t1" using r(3) u by (simp add: u2_def recovers_def)
    show "set (dt_entries u2) \<subseteq> set (dt_entries t1)"
    proof clarify
      fix y f assume "(y, f) \<in> set (dt_entries u2)"
      then obtain x where x: "(x, f) \<in> set (dt_entries u1)" "y = reroot b a x" by (auto simp: u2_def in_take_along)
      from returned [OF subsetD [OF r(6) x(1)]] x(2) show "(y, f) \<in> set (dt_entries t1)" by simp
    qed
    show "\<forall>(y, f)\<in>set (dt_entries t1). f \<noteq> DirEntry \<or> strict_prefix D y \<longrightarrow> (y, f) \<in> set (dt_entries u2)"
    proof clarify
      fix y f assume y: "(y, f) \<in> set (dt_entries t1)" and f: "f \<noteq> DirEntry \<or> strict_prefix D y"
      have "strict_prefix D y \<Longrightarrow> reroot a b y = y"
        using comparable [of a y D] apart by (auto simp: strict_prefix_def reroot_def)
      with f have "f \<noteq> DirEntry \<or> strict_prefix D (reroot a b y)" by auto
      moreover have "(reroot a b y, f) \<in> set (dt_entries t2)" using y by (auto simp: t2_def in_take_along)
      ultimately have "(reroot a b y, f) \<in> set (dt_entries u1)" using u r(5) by (auto simp: recovers_def t2_def)
      then show "(y, f) \<in> set (dt_entries u2)"
        unfolding u2_def in_take_along using reroot_back [OF t1(1) m y] by metis
    qed
  qed
  with run show ?thesis by simp
qed

text \<open>With every name unique, the same files at the same places are the same files.\<close>

lemma possessions_eq:
  assumes "tree_ok t"
  shows "possessions t = image_mset snd (mset_set {x \<in> set (dt_entries t). snd x \<noteq> DirEntry})"
proof -
  have "distinct (dt_entries t)" using tree_ok_distinct [OF assms] by (simp add: distinct_map)
  then have "mset_set {x \<in> set (dt_entries t). snd x \<noteq> DirEntry} = mset (filter (\<lambda>x. snd x \<noteq> DirEntry) (dt_entries t))"
    using mset_set_set [OF distinct_filter, of "dt_entries t" "\<lambda>x. snd x \<noteq> DirEntry"] by (simp only: set_filter)
  then show ?thesis by (simp add: possessions_def filter_map comp_def)
qed

lemma recovers_possessions:
  assumes "tree_ok t" "recovers D u t"
  shows "possessions u = possessions t"
proof -
  have "{x \<in> set (dt_entries u). snd x \<noteq> DirEntry} = {x \<in> set (dt_entries t). snd x \<noteq> DirEntry}"
  proof (intro subset_antisym subsetI)
    fix x assume "x \<in> {x \<in> set (dt_entries u). snd x \<noteq> DirEntry}"
    with assms(2) show "x \<in> {x \<in> set (dt_entries t). snd x \<noteq> DirEntry}" by (auto simp: recovers_def)
  next
    fix x assume "x \<in> {x \<in> set (dt_entries t). snd x \<noteq> DirEntry}"
    with assms(2) show "x \<in> {x \<in> set (dt_entries u). snd x \<noteq> DirEntry}"
      by (cases x) (auto simp: recovers_def)
  qed
  with possessions_eq [OF assms(1)] possessions_eq [of u] assms(2) show ?thesis by (simp add: recovers_def)
qed

section \<open>The whole batch taken back\<close>

definition apart_from :: "location list \<Rightarrow> location \<Rightarrow> bool" where
  "apart_from S D \<longleftrightarrow> (\<forall>a\<in>set S. \<not> prefix D a \<and> \<not> prefix a D)"

lemma apart_below:
  assumes "apart_from S D" "below_some S a"
  shows "\<not> prefix D a" "\<not> prefix a D"
proof -
  from assms(2) obtain s where s: "s \<in> set S" "prefix s a" by (auto simp: below_some_def)
  with assms(1) have n: "\<not> prefix D s" "\<not> prefix s D" by (auto simp: apart_from_def)
  show "\<not> prefix D a" using comparable [of D a s] s(2) n by blast
  show "\<not> prefix a D" using s(2) n(2) by (meson prefix_order.trans)
qed

lemma made_plain: "made S D t ms t' \<Longrightarrow> plain t \<Longrightarrow> plain t'"
  by (induction rule: made.induct) (auto simp: plain_def take_along_def drop_dir_def)

text \<open>Going backwards over a removal costs nothing: the directory was no part of the destination.\<close>

lemma recovers_drop:
  assumes ok: "tree_ok t" and m: "may_drop a t" and p: "\<not> prefix D a" and u: "recovers D u (drop_dir a t)"
  shows "recovers D u t"
  unfolding recovers_def
proof (intro conjI)
  show "tree_ok u" "dt_nodes u = dt_nodes t" using u by (simp_all add: recovers_def)
  show "set (dt_entries u) \<subseteq> set (dt_entries t)" using u by (auto simp: recovers_def drop_dir_def)
  show "\<forall>(q, e)\<in>set (dt_entries t). e \<noteq> DirEntry \<or> strict_prefix D q \<longrightarrow> (q, e) \<in> set (dt_entries u)"
  proof clarify
    fix q e assume q: "(q, e) \<in> set (dt_entries t)" and e: "e \<noteq> DirEntry \<or> strict_prefix D q"
    have "q \<noteq> a"
    proof
      assume "q = a"
      moreover have "(a, DirEntry) \<in> set (dt_entries t)"
        using m entry_at_iff [OF ok] by (auto simp: may_drop_def dir_at_def)
      ultimately show False using tree_ok_unique [OF ok q] e p by (auto simp: strict_prefix_def)
    qed
    with q e u show "(q, e) \<in> set (dt_entries u)" by (auto simp: recovers_def drop_dir_def)
  qed
qed

lemma undo_along_the_trace:
  assumes q: "quiet_env env" "0 < attempts" and "apart_from S D"
  shows "made S D t0 ms t \<Longrightarrow> tree_ok t0 \<Longrightarrow> plain t0 \<Longrightarrow> recovers D (tw_tree w) t \<Longrightarrow>
    \<exists>w'. undo_moves env attempts (rev ms) (r, f) w = ((r + length ms, f), w') \<and> recovers D (tw_tree w') t0"
proof (induction arbitrary: w r rule: made.induct)
  case (stay t)
  then show ?case by simp
next
  case (move t ms t1 a b)
  note ok1 = made_ok [OF move.hyps(1) move.prems(1)] and p1 = made_plain [OF move.hyps(1) move.prems(2)]
  obtain w1 where w1: "restore_one env attempts (rooted b) (rooted a) w = (Inr (rooted a), w1)"
    "recovers D (tw_tree w1) t1"
    using restore_one_back [OF q ok1 p1 move.hyps(2,5,6,4) apart_below [OF assms(3) move.hyps(3)] move.prems(3)] by blast
  obtain w2 where "undo_moves env attempts (rev ms) (r + 1, f) w1 = ((r + 1 + length ms, f), w2)"
    "recovers D (tw_tree w2) t"
    using move.IH [OF move.prems(1,2) w1(2)] by blast
  with w1 show ?case by simp
next
  case (drop t ms t1 a)
  show ?case
    using drop.IH [OF drop.prems(1,2)]
      recovers_drop [OF made_ok [OF drop.hyps(1) drop.prems(1)] drop.hyps(2)
        apart_below(1) [OF assms(3) drop.hyps(3)] drop.prems(3)] by blast
qed


end
