(* ===== verification/Move_Dups.thy ===== *)
theory Move_Dups
  imports Move_Undo
begin

text \<open>
  Which file of a batch counts as a duplicate, and under which name it is moved; concrete batches for
  every property of moving and undoing; and the file that is taken for a duplicate of itself.
\<close>

section \<open>Looking changes nothing\<close>

lemma tcall_alone:
  assumes "nobody_else env" and "tcall env body w = (r, w')"
  shows "case r of
      Inl e \<Rightarrow> tw_tree w' = tw_tree w \<and> (te_fault env (tw_tick w) = Some e \<or> body (tw_tree w) = Inl e)
    | Inr x \<Rightarrow> body (tw_tree w) = Inr (x, tw_tree w')"
  using assms by (auto simp: tcall_def nobody_else_def Let_def split: option.splits sum.splits)

definition honest :: "tenv \<Rightarrow> bool" where
  "honest env \<longleftrightarrow> nobody_else env \<and> (\<forall>n. te_fault env n \<noteq> Some ENOENT)"

lemma lstat_alone:
  assumes "nobody_else env" "lstat env p w = (r, w')"
  shows "tw_tree w' = tw_tree w"
    and "r = Inr e \<Longrightarrow> \<exists>l. unfollowed (tw_tree w) p = Some l \<and> entry_at (tw_tree w) l = Some e"
    and "r = Inl x \<Longrightarrow> unfollowed (tw_tree w) p = Some l \<Longrightarrow> entry_at (tw_tree w) l \<noteq> None \<Longrightarrow>
      te_fault env (tw_tick w) = Some x"
  using tcall_alone [OF assms(1) assms(2) [unfolded lstat_def]]
  by (auto simp: t_lstat_def split: sum.splits option.splits)

text \<open>A path names a file: looked at without following a link in its last place.\<close>

definition names_file :: "dtree \<Rightarrow> path \<Rightarrow> inode_id \<Rightarrow> bool" where
  "names_file t p i \<longleftrightarrow> (\<exists>l. unfollowed t p = Some l \<and> entry_at t l = Some (FileEntry i))"

definition digest_of :: "tenv \<Rightarrow> dtree \<Rightarrow> inode_id \<Rightarrow> string" where
  "digest_of env t i = te_digest env (nd_data (dt_nodes t i))"

lemma hash_file_alone:
  assumes "honest env" "names_file (tw_tree w) p i" "hash_file env p w = (r, w')"
  shows "tw_tree w' = tw_tree w"
    and "case r of Inr h \<Rightarrow> h = digest_of env (tw_tree w) i | Inl e \<Rightarrow> e \<noteq> ENOENT \<and> (\<exists>n. te_fault env n \<noteq> None)"
proof -
  obtain x w1 where x: "read_content env p w = (x, w1)" by fastforce
  from assms(1) have a: "nobody_else env" "\<And>n. te_fault env n \<noteq> Some ENOENT" by (auto simp: honest_def)
  note t = tcall_alone [OF a(1) x [unfolded read_content_def]]
  show "tw_tree w' = tw_tree w"
    using t x assms(2,3) by (auto simp: hash_file_def names_file_def t_open_read_def split: sum.splits)
  show "case r of Inr h \<Rightarrow> h = digest_of env (tw_tree w) i | Inl e \<Rightarrow> e \<noteq> ENOENT \<and> (\<exists>n. te_fault env n \<noteq> None)"
    using t x assms(2,3) a(2)
    by (auto simp: hash_file_def names_file_def t_open_read_def digest_of_def split: sum.splits)
qed

lemma hash_of_alone:
  assumes h: "honest env" and f: "names_file (tw_tree w) p i"
    and r: "hash_of env store p w = (r, w')"
  shows "tw_tree w' = tw_tree w
    \<and> (case r of Inr x \<Rightarrow> x = digest_of env (tw_tree w) i | Inl e \<Rightarrow> e \<noteq> ENOENT \<and> (\<exists>n. te_fault env n \<noteq> None))"
proof -
  from h have a: "nobody_else env" "\<And>n. te_fault env n \<noteq> Some ENOENT" by (auto simp: honest_def)
  obtain l where l: "unfollowed (tw_tree w) p = Some l" "entry_at (tw_tree w) l = Some (FileEntry i)"
    using f by (auto simp: names_file_def)
  obtain x w1 where x: "lstat env p w = (x, w1)" by fastforce
  note t1 = lstat_alone(1) [OF a(1) x]
  show ?thesis
  proof (cases x)
    case (Inl e)
    have f: "te_fault env (tw_tick w) = Some e" by (rule lstat_alone(3) [OF a(1) x Inl l(1)]) (simp add: l)
    then have "e \<noteq> ENOENT" "\<exists>n. te_fault env n \<noteq> None" using a(2) by (metis, metis option.distinct(1))
    moreover have "r = Inl e" "w' = w1" using Inl x r by (simp_all add: hash_of_def)
    ultimately show ?thesis using t1 by simp
  next
    case (Inr ent)
    with lstat_alone(2) [OF a(1) x] l have ent: "ent = FileEntry i" by auto
    have hf: "tw_tree v' = tw_tree w \<and> (case q of Inr y \<Rightarrow> y = digest_of env (tw_tree w) i
        | Inl e \<Rightarrow> e \<noteq> ENOENT \<and> (\<exists>n. te_fault env n \<noteq> None))"
      if "hash_file env p v = (q, v')" "tw_tree v = tw_tree w" for v v' q
      using hash_file_alone [OF h _ that(1), of i, unfolded that(2)] f by simp
    from r x Inr have "hash_file env p w1 = (r, w')"
      by (auto simp: hash_of_def hash_by_identity_def split: option.splits entry.splits)
    with hf t1 show ?thesis by blast
  qed
qed

section \<open>The candidates\<close>

lemma walk_last:
  "walk t follow k cur p = Some d \<Longrightarrow> follow \<Longrightarrow> dir_at t d \<Longrightarrow> \<exists>k'. walk t False k cur (p @ [Normal n]) = walk t False k' d [Normal n]"
proof (induction t follow k cur p rule: walk.induct)
  case (5 t follow k cur m cs)
  then show ?case by (auto simp: dir_at_def split: option.splits entry.splits if_splits nat.splits)
qed auto

lemma unfollowed_child:
  assumes "resolved t dir = Some d" "dir_at t d" "entry_at t (d @ [n]) = Some e"
  shows "unfollowed t (dir @ [Normal n]) = Some (d @ [n])"
proof -
  obtain k where "unfollowed t (dir @ [Normal n]) = walk t False k d [Normal n]"
    using walk_last [OF assms(1) [unfolded resolved_def] _ assms(2), of n] by (auto simp: unfollowed_def)
  then show ?thesis using assms(3) by (auto split: entry.splits)
qed

definition candidate :: "tenv \<Rightarrow> dtree \<Rightarrow> location \<Rightarrow> u64 \<Rightarrow> string \<Rightarrow> inode_id \<Rightarrow> bool" where
  "candidate env t d size_wanted n i \<longleftrightarrow>
     entry_at t (d @ [n]) = Some (FileEntry i) \<and> len_u64 (nd_data (dt_nodes t i)) = size_wanted \<and> \<not> te_database env i"

lemma candidates_alone:
  assumes h: "honest env" and d: "resolved (tw_tree w) dir = Some d" "dir_at (tw_tree w) d"
  shows "candidates_among env dir b ns w = (r, w') \<Longrightarrow> \<forall>n\<in>set ns. entry_at (tw_tree w) (d @ [n]) \<noteq> None \<Longrightarrow>
    tw_tree w' = tw_tree w \<and> (case r of
        Inl e \<Rightarrow> \<exists>n. te_fault env n \<noteq> None
      | Inr ps \<Rightarrow> set ps = {dir @ [Normal n] | n i. n \<in> set ns \<and> candidate env (tw_tree w) d b n i})"
  using d
proof (induction ns arbitrary: w w' r)
  case (Cons n ns)
  from h have a: "nobody_else env" "\<And>n. te_fault env n \<noteq> Some ENOENT" by (auto simp: honest_def)
  obtain e where e: "entry_at (tw_tree w) (d @ [n]) = Some e" using Cons.prems(2) by auto
  note l = unfollowed_child [OF Cons.prems(3,4) e]
  obtain x v where x: "lstat env (dir @ [Normal n]) w = (x, v)" by fastforce
  note tv = lstat_alone(1) [OF a(1) x]
  obtain y u where y: "candidates_among env dir b ns v = (y, u)" by fastforce
  note ih = Cons.IH [OF y, unfolded tv, OF _ Cons.prems(3,4)]
  show ?case
  proof (cases x)
    case (Inl f)
    have f: "te_fault env (tw_tick w) = Some f" by (rule lstat_alone(3) [OF a(1) x Inl l]) (simp add: e)
    then have "f \<noteq> ENOENT" and "\<exists>n. te_fault env n \<noteq> None" using a(2) by (metis, metis option.distinct(1))
    moreover from this(1) have "r = Inl f" "w' = v" using Inl x Cons.prems(1) by simp_all
    ultimately show ?thesis using tv by simp
  next
    case (Inr ent)
    with lstat_alone(2) [OF a(1) x] l e have ent: "ent = e" by auto
    show ?thesis
    proof (cases y)
      case (Inl f)
      with Inr x y Cons.prems(1,2) ih show ?thesis by auto
    next
      case (Inr ps)
      have ps: "tw_tree u = tw_tree w" "set ps = {dir @ [Normal m] | m i. m \<in> set ns \<and> candidate env (tw_tree w) d b m i}"
        using ih Inr Cons.prems(2) by auto
      have one: "candidate env (tw_tree w) d b n i \<longleftrightarrow>
          e = FileEntry i \<and> len_u64 (nd_data (dt_nodes (tw_tree w) i)) = b \<and> \<not> te_database env i" for i
        by (auto simp: candidate_def e)
      have "{dir @ [Normal m] | m i. m \<in> set (n # ns) \<and> candidate env (tw_tree w) d b m i}
          = {dir @ [Normal n] | i. candidate env (tw_tree w) d b n i} \<union> set ps"
        unfolding ps(2) by auto
      moreover have "w' = u" "r = Inr (case e of FileEntry i \<Rightarrow>
            if len_u64 (nd_data (dt_nodes (tw_tree v) i)) = b \<and> \<not> te_database env i
            then join dir [Normal n] # ps else ps | _ \<Rightarrow> ps)"
        using Cons.prems(1) x y Inr \<open>x = Inr ent\<close> ent by simp_all
      note this [unfolded tv join_Normal]
      ultimately show ?thesis using ps(1) unfolding one by (auto split: entry.splits)
    qed
  qed
qed simp

lemma children_of_iff: "n \<in> set (children_of t d) \<longleftrightarrow> (\<exists>e. (d @ [n], e) \<in> set (dt_entries t))"
  unfolding children_of_def by (force simp: snoc_eq_iff_butlast)

definition something_failed :: "tenv \<Rightarrow> bool" where
  "something_failed env \<longleftrightarrow> (\<exists>n. te_fault env n \<noteq> None \<or> te_stop env n \<noteq> None)"

lemma same_size_files_alone:
  assumes h: "honest env" and ok: "tree_ok (tw_tree w)"
    and d: "resolved (tw_tree w) dir = Some d" "dir_at (tw_tree w) d"
    and r: "same_size_files env dir b w = (r, w')"
  shows "tw_tree w' = tw_tree w \<and> (case r of
      Inl e \<Rightarrow> something_failed env
    | Inr ps \<Rightarrow> set ps = {dir @ [Normal n] | n i. candidate env (tw_tree w) d b n i})"
proof -
  from h have a: "nobody_else env" by (simp add: honest_def)
  obtain x w1 where x: "read_dir env dir w = (x, w1)" by fastforce
  obtain y v where y: "tcall env (t_read_dir dir) w = (y, v)" by fastforce
  have t1: "tw_tree w1 = tw_tree w"
    and fail: "x = Inl e \<Longrightarrow> something_failed env" for e
    using tcall_alone [OF a y] x y d
    by (auto simp: read_dir_def t_read_dir_def something_failed_def split: sum.splits option.splits)
  show ?thesis
  proof (cases x)
    case (Inl e)
    with fail t1 r x show ?thesis by (auto simp: same_size_files_def)
  next
    case (Inr z)
    obtain names stopped where z: "z = (names, stopped)" by fastforce
    have names: "\<forall>n\<in>set names. n \<in> set (children_of (tw_tree w) d)"
      "stopped \<Longrightarrow> something_failed env" "\<not> stopped \<Longrightarrow> names = children_of (tw_tree w) d"
      using tcall_alone [OF a y] x y d Inr z
      by (auto simp: read_dir_def t_read_dir_def something_failed_def split: sum.splits option.splits dest: in_set_takeD)
    have present: "entry_at (tw_tree w) (d @ [n]) \<noteq> None" if "n \<in> set (children_of (tw_tree w) d)" for n
      using that entry_at_iff [OF ok, of "d @ [n]"] by (auto simp: children_of_iff)
    obtain q w2 where q: "candidates_among env dir b names w1 = (q, w2)" by fastforce
    have c: "tw_tree w2 = tw_tree w" "case q of Inl e \<Rightarrow> \<exists>n. te_fault env n \<noteq> None
        | Inr ps \<Rightarrow> set ps = {dir @ [Normal n] | n i. n \<in> set names \<and> candidate env (tw_tree w) d b n i}"
      using candidates_alone [OF h, of w1 dir d b names q w2, unfolded t1, OF d q] names(1) present by auto
    show ?thesis
    proof (cases "\<exists>ps. q = Inr ps \<and> \<not> stopped")
      case True
      then obtain ps where ps: "q = Inr ps" "\<not> stopped" by blast
      have "n \<in> set (children_of (tw_tree w) d)" if "candidate env (tw_tree w) d b n i" for n i
        using that entry_at_iff [OF ok, of "d @ [n]"] by (auto simp: candidate_def children_of_iff)
      then have "set ps = {dir @ [Normal n] | n i. candidate env (tw_tree w) d b n i}"
        using c(2) ps names(3) by auto
      with r x Inr z q ps c(1) show ?thesis by (auto simp: same_size_files_def)
    next
      case False
      have "w' = w2 \<and> (\<exists>e. r = Inl e)"
        using r x Inr z q False by (cases q) (auto simp: same_size_files_def)
      moreover have "something_failed env"
        using False names(2) c(2) by (cases q) (auto simp: something_failed_def)
      ultimately show ?thesis using c(1) by auto
    qed
  qed
qed

lemma find_twin_alone:
  assumes h: "honest env"
  shows "find_twin env store own cs unread w = (r, w') \<Longrightarrow> \<forall>p\<in>set cs. \<exists>i. names_file (tw_tree w) p i \<Longrightarrow>
    unread \<longrightarrow> something_failed env \<Longrightarrow>
    tw_tree w' = tw_tree w \<and> (case r of
        None \<Rightarrow> something_failed env
      | Some b \<Rightarrow> (b \<longleftrightarrow> (\<exists>p\<in>set cs. \<exists>i. names_file (tw_tree w) p i \<and> digest_of env (tw_tree w) i = own)) \<and> (unread \<longrightarrow> b))"
proof (induction cs arbitrary: unread w)
  case Nil
  then show ?case by (auto split: if_splits)
next
  case (Cons p cs)
  from Cons.prems(2) obtain i where i: "names_file (tw_tree w) p i" by auto
  have only: "names_file (tw_tree w) p j \<Longrightarrow> j = i" for j using i by (auto simp: names_file_def)
  obtain x v where x: "hash_of env store p w = (x, v)" by fastforce
  from hash_of_alone [OF h i x] have tv: "tw_tree v = tw_tree w"
    and xv: "case x of Inr y \<Rightarrow> y = digest_of env (tw_tree w) i | Inl e \<Rightarrow> e \<noteq> ENOENT \<and> (\<exists>n. te_fault env n \<noteq> None)"
    by simp_all
  note ih = Cons.IH [of _ v, unfolded tv]
  show ?case
  proof (cases x)
    case (Inl e)
    with xv have f: "e \<noteq> ENOENT" "something_failed env" by (auto simp: something_failed_def)
    with Inl x Cons.prems(1) have rec: "find_twin env store own cs True v = (r, w')" by simp
    have "tw_tree w' = tw_tree w \<and> (case r of None \<Rightarrow> something_failed env
      | Some b \<Rightarrow> (b \<longleftrightarrow> (\<exists>p\<in>set cs. \<exists>i. names_file (tw_tree w) p i \<and> digest_of env (tw_tree w) i = own)) \<and> b)"
      using ih [OF rec] Cons.prems(2) f(2) by (cases r) simp_all
    then show ?thesis by (cases r) auto
  next
    case (Inr other)
    show ?thesis
    proof (cases "other = own")
      case True
      with Inr x Cons.prems(1) have "r = Some True" "w' = v" by auto
      with i True Inr xv tv show ?thesis by auto
    next
      case False
      with Inr x Cons.prems(1) have rec: "find_twin env store own cs unread v = (r, w')" by simp
      have "digest_of env (tw_tree w) i \<noteq> own" using False Inr xv by simp
      with ih [OF rec] Cons.prems(2,3) only show ?thesis by (cases r) auto
    qed
  qed
qed

lemma duplicate_question_alone:
  assumes h: "honest env" and ok: "tree_ok (tw_tree w)"
    and d: "resolved (tw_tree w) dir = Some d" "dir_at (tw_tree w) d"
    and src: "names_file (tw_tree w) src j"
    and r: "duplicate_question env store src b dir w = (r, w')"
  shows "tw_tree w' = tw_tree w \<and> (case r of
      None \<Rightarrow> something_failed env
    | Some (dup, known) \<Rightarrow>
        (dup \<longleftrightarrow> (\<exists>n i. candidate env (tw_tree w) d b n i \<and> digest_of env (tw_tree w) i = digest_of env (tw_tree w) j))
        \<and> (\<forall>x. known = Some x \<longrightarrow> x = digest_of env (tw_tree w) j))"
proof -
  obtain x w1 where x: "same_size_files env dir b w = (x, w1)" by fastforce
  from same_size_files_alone [OF h ok d x] have t1: "tw_tree w1 = tw_tree w"
    and xv: "case x of Inl e \<Rightarrow> something_failed env
        | Inr ps \<Rightarrow> set ps = {dir @ [Normal n] | n i. candidate env (tw_tree w) d b n i}" by simp_all
  have is_file: "names_file (tw_tree w) (dir @ [Normal n]) i" if "candidate env (tw_tree w) d b n i" for n i
    using that unfollowed_child [OF d] by (auto simp: candidate_def names_file_def)
  have only: "k = i" if "candidate env (tw_tree w) d b n i" "names_file (tw_tree w) (dir @ [Normal n]) k" for n i k
    using is_file [OF that(1)] that(2) by (auto simp: names_file_def)
  show ?thesis
  proof (cases x)
    case (Inl e)
    with r x xv t1 show ?thesis by (auto simp: duplicate_question_def)
  next
    case (Inr ps)
    show ?thesis
    proof (cases ps)
      case Nil
      with r x Inr xv t1 show ?thesis by (auto simp: duplicate_question_def)
    next
      case (Cons p cs)
      obtain y w2 where y: "hash_of env store src w1 = (y, w2)" by fastforce
      from hash_of_alone [OF h _ y, of j, unfolded t1, OF src] have t2: "tw_tree w2 = tw_tree w"
        and yv: "case y of Inr z \<Rightarrow> z = digest_of env (tw_tree w) j | Inl e \<Rightarrow> e \<noteq> ENOENT \<and> (\<exists>n. te_fault env n \<noteq> None)"
        by simp_all
      show ?thesis
      proof (cases y)
        case (Inl e)
        with r x y Inr Cons yv t2 show ?thesis by (auto simp: duplicate_question_def something_failed_def)
      next
        case y': (Inr own)
        with yv have own: "own = digest_of env (tw_tree w) j" by simp
        obtain z w3 where z: "find_twin env store own ps False w2 = (z, w3)" by fastforce
        have ps: "set ps = {dir @ [Normal n] | n i. candidate env (tw_tree w) d b n i}" using xv Inr by simp
        have files: "\<forall>p\<in>set ps. \<exists>i. names_file (tw_tree w) p i"
        proof
          fix q assume "q \<in> set ps"
          then obtain n i where "q = dir @ [Normal n]" "candidate env (tw_tree w) d b n i" unfolding ps by fast
          then show "\<exists>i. names_file (tw_tree w) q i" using is_file [of n i] by fast
        qed
        have tw: "tw_tree w3 = tw_tree w \<and> (case z of None \<Rightarrow> something_failed env
            | Some b \<Rightarrow> (b \<longleftrightarrow> (\<exists>p\<in>set ps. \<exists>i. names_file (tw_tree w) p i \<and> digest_of env (tw_tree w) i = own)))"
        proof -
          have "tw_tree w3 = tw_tree w2 \<and> (case z of None \<Rightarrow> something_failed env
            | Some b \<Rightarrow> (b \<longleftrightarrow> (\<exists>p\<in>set ps. \<exists>i. names_file (tw_tree w2) p i \<and> digest_of env (tw_tree w2) i = own))
                \<and> (False \<longrightarrow> b))"
            using files by (intro find_twin_alone [OF h z]) (simp_all add: t2)
          then show ?thesis unfolding t2 by (cases z) simp_all
        qed
        have "(\<exists>p\<in>set ps. \<exists>i. names_file (tw_tree w) p i \<and> digest_of env (tw_tree w) i = own)
            \<longleftrightarrow> (\<exists>n i. candidate env (tw_tree w) d b n i \<and> digest_of env (tw_tree w) i = own)"
        proof
          assume "\<exists>p\<in>set ps. \<exists>i. names_file (tw_tree w) p i \<and> digest_of env (tw_tree w) i = own"
          then obtain n i k where "candidate env (tw_tree w) d b n i"
            "names_file (tw_tree w) (dir @ [Normal n]) k" "digest_of env (tw_tree w) k = own" unfolding ps by fast
          with only [of n i k] show "\<exists>n i. candidate env (tw_tree w) d b n i \<and> digest_of env (tw_tree w) i = own"
            by fast
        next
          assume "\<exists>n i. candidate env (tw_tree w) d b n i \<and> digest_of env (tw_tree w) i = own"
          then obtain n i where c: "candidate env (tw_tree w) d b n i" "digest_of env (tw_tree w) i = own" by fast
          then have "dir @ [Normal n] \<in> set ps" unfolding ps by fast
          with is_file [OF c(1)] c(2)
          show "\<exists>p\<in>set ps. \<exists>i. names_file (tw_tree w) p i \<and> digest_of env (tw_tree w) i = own" by fast
        qed
        moreover have "(r, w') = (case z of None \<Rightarrow> (None, w3) | Some dup \<Rightarrow> (Some (dup, Some own), w3))"
        proof -
          from r have "(r, w') = (case find_twin env store own ps False w2 of
              (None, w) \<Rightarrow> (None, w) | (Some dup, w) \<Rightarrow> (Some (dup, Some own), w))"
            unfolding duplicate_question_def x Inr Cons
            by (simp only: prod.case sum.case list.case y y')
          then show ?thesis by (simp only: z prod.case)
        qed
        ultimately show ?thesis using tw own by (cases z) auto
      qed
    qed
  qed
qed

section \<open>Where the file goes\<close>

lemma rename_into_alone:
  assumes "nobody_else env" "rename_into env src dest w = (r, w')"
  shows "case r of Inl e \<Rightarrow> tw_tree w' = tw_tree w | Inr _ \<Rightarrow> t_rename src dest (tw_tree w) = Inr ((), tw_tree w')"
proof (cases "has_nul src \<or> has_nul dest")
  case True
  with assms(2) show ?thesis by (auto simp: rename_into_def)
next
  case False
  with assms(2) have "tcall env (\<lambda>t. case te_protected env t src of Some why \<Rightarrow> Inl (Own why)
      | None \<Rightarrow> t_rename src dest t) w = (r, w')"
    by (simp add: rename_into_def)
  from tcall_alone [OF assms(1) this] show ?thesis by (auto split: sum.splits option.splits)
qed

definition put_there :: "path \<Rightarrow> path \<Rightarrow> move_error + path \<Rightarrow> tworld \<Rightarrow> tworld \<Rightarrow> bool" where
  "put_there src dest r w w' \<longleftrightarrow>
     (case r of
        Inl _ \<Rightarrow> tw_tree w' = tw_tree w
      | Inr p \<Rightarrow> (\<exists>m. p = suffixed dest m) \<and> t_rename src p (tw_tree w) = Inr ((), tw_tree w'))"

lemma put_there_after: "put_there src dest r v w' \<Longrightarrow> tw_tree v = tw_tree w \<Longrightarrow> put_there src dest r w w'"
  by (cases r) (simp_all add: put_there_def)

lemma put_there_Inl [simp]: "put_there src dest (Inl e) w w' \<longleftrightarrow> tw_tree w' = tw_tree w"
  by (simp add: put_there_def)

lemma claim_alone:
  assumes a: "nobody_else env"
  shows "claim_in_tree env skip attempts src dest n w = (r, w') \<Longrightarrow> put_there src dest r w w'"
proof (induction attempts arbitrary: n w)
  case (Suc attempts)
  obtain x v where rn: "rename_into env src (suffixed dest n) w = (x, v)" by fastforce
  note step = rename_into_alone [OF a rn]
  show ?case
  proof (cases "skip (suffixed dest n)")
    case True
    with Suc.prems show ?thesis by (intro Suc.IH) simp
  next
    case False
    show ?thesis
    proof (cases x)
      case (Inl e)
      with step have v: "tw_tree v = tw_tree w" by simp
      show ?thesis
      proof (cases "e = EEXIST")
        case True
        with Suc.prems False rn Inl have "claim_in_tree env skip attempts src dest (n + 1) v = (r, w')" by simp
        from put_there_after [OF Suc.IH [OF this] v] show ?thesis .
      next
        case other: False
        with Suc.prems False rn Inl have "w' = v" "\<exists>e. r = Inl e" by (auto split: if_splits)
        with v show ?thesis by auto
      qed
    next
      case (Inr u)
      with Suc.prems False rn have "r = Inr (suffixed dest n)" "w' = v" by simp_all
      with step Inr show ?thesis by (auto simp: put_there_def)
    qed
  qed
qed auto

lemma is_dir_alone: "nobody_else env \<Longrightarrow> is_dir env p w = (b, w') \<Longrightarrow> tw_tree w' = tw_tree w"
  by (auto simp: is_dir_def tcall_def nobody_else_def Let_def split: option.splits)

lemma exists_at_alone: "nobody_else env \<Longrightarrow> exists_at env p w = (b, w') \<Longrightarrow> tw_tree w' = tw_tree w"
  by (auto simp: exists_at_def tcall_def nobody_else_def Let_def split: option.splits)

lemma db_call_alone: "nobody_else env \<Longrightarrow> db_call env x w = (r, w') \<Longrightarrow> tw_tree w' = tw_tree w"
  by (auto simp: db_call_def tcall_def nobody_else_def Let_def split: option.splits)

lemma tree_move_to_alone:
  assumes a: "nobody_else env" and r: "tree_move_to env attempts src dest w = (r, w')"
  shows "put_there src dest r w w'"
proof -
  obtain x w1 where x: "lstat env src w = (x, w1)" by fastforce
  note t1 = lstat_alone(1) [OF a x]
  consider e where "r = Inl e" "w' = w1"
    | p b w2 where "is_dir env p w1 = (b, w2)" "(\<exists>e. r = Inl e) \<and> w' = w2"
    | p b w2 where "is_dir env p w1 = (b, w2)" "claim_in_tree env (\<lambda>_. False) attempts src dest 0 w2 = (r, w')"
    using r x by (auto simp: tree_move_to_def split: sum.splits entry.splits option.splits prod.splits bool.splits if_splits)
  then show ?thesis
  proof cases
    case 1
    with t1 show ?thesis by simp
  next
    case 2
    with t1 is_dir_alone [OF a 2(1)] show ?thesis by auto
  next
    case 3
    from put_there_after [OF claim_alone [OF a 3(2)], of w] is_dir_alone [OF a 3(1)] t1 show ?thesis by simp
  qed
qed

lemma dup_dest_alone:
  assumes a: "nobody_else env"
  shows "dup_dest env attempts dir name n w = (r, w') \<Longrightarrow>
    tw_tree w' = tw_tree w \<and> (\<forall>p. r = Some p \<longrightarrow> (\<exists>k. p = dir @ [Normal (dup_name name k)]))"
proof (induction attempts arbitrary: n w)
  case (Suc attempts)
  obtain b v where e: "exists_at env (dir @ [Normal (dup_name name n)]) w = (b, v)" by fastforce
  note v = exists_at_alone [OF a e]
  show ?case
  proof (cases b)
    case True
    with Suc.prems e have "dup_dest env attempts dir name (n + 1) v = (r, w')" by simp
    from Suc.IH [OF this] v show ?thesis by simp
  next
    case False
    with Suc.prems e v show ?thesis by auto
  qed
qed simp

text \<open>A file that is renamed is found under its new name, and its directory where it was.\<close>

lemma entry_taken_along:
  assumes ok: "tree_ok t" and m: "may_rename s d t" and f: "entry_at t s = Some (FileEntry j)"
  shows "entry_at (take_along s d t) d = Some (FileEntry j)"
    and "q \<noteq> s \<Longrightarrow> entry_at t q \<noteq> None \<Longrightarrow> entry_at (take_along s d t) q = entry_at t q"
proof -
  from m have ne: "s \<noteq> []" "d \<noteq> []" by (simp_all add: may_rename_def)
  note ok' = take_along_ok [OF ok m]
  have "(s, FileEntry j) \<in> set (dt_entries t)" using entry_at_iff [OF ok ne(1), of "FileEntry j"] f by simp
  then have "(d, FileEntry j) \<in> set (dt_entries (take_along s d t))" by (force simp: in_take_along)
  then show "entry_at (take_along s d t) d = Some (FileEntry j)" using entry_at_iff [OF ok' ne(2)] by simp
  show "entry_at (take_along s d t) q = entry_at t q" if q: "q \<noteq> s" "entry_at t q \<noteq> None"
  proof (cases "q = []")
    case False
    from q(2) obtain e where e: "entry_at t q = Some e" by auto
    then have "(q, e) \<in> set (dt_entries t)" using entry_at_iff [OF ok False] by simp
    moreover have "\<not> prefix s q"
    proof
      assume "prefix s q"
      with q(1) have "strict_prefix s q" by (simp add: strict_prefix_def)
      then have "dir_at t s" by (rule dir_at_ancestor [OF ok \<open>(q, e) \<in> set (dt_entries t)\<close>])
      with f show False by (simp add: dir_at_def)
    qed
    ultimately have "(q, e) \<in> set (dt_entries (take_along s d t))" by (force simp: in_take_along)
    with entry_at_iff [OF ok' False] e show ?thesis by simp
  qed (simp add: entry_at_def)
qed

lemma walk_keeps_dir:
  assumes keep: "\<And>q. q \<noteq> s \<Longrightarrow> entry_at t q \<noteq> None \<Longrightarrow> entry_at t' q = entry_at t q"
    and f: "entry_at t s = Some (FileEntry j)" and d: "dir_at t d"
  shows "walk t follow k cur p = Some d \<Longrightarrow> follow \<Longrightarrow> walk t' follow k cur p = Some d"
  using d f keep
proof (induction t follow k cur p rule: walk.induct)
  case (5 t follow k cur m cs)
  note f = 5(6) and d = 5(5)
  show ?case
  proof (cases "cur @ [m] = s")
    case True
    with f have "entry_at t (cur @ [m]) = Some (FileEntry j)" by simp
    with 5(3) d f True show ?thesis by (simp add: dir_at_def split: if_splits)
  next
    case False
    with 5(7) have e: "entry_at t (cur @ [m]) \<noteq> None \<Longrightarrow> entry_at t' (cur @ [m]) = entry_at t (cur @ [m])" by simp
    show ?thesis
    proof (cases "entry_at t (cur @ [m])")
      case None
      with 5(3) show ?thesis by simp
    next
      case (Some x)
      with 5 e show ?thesis by (cases x) (auto split: if_splits nat.splits)
    qed
  qed
qed auto

lemma file_name_Some: "file_name p = Some n \<Longrightarrow> p = butlast p @ [Normal n]"
  by (auto simp: file_name_def split: if_splits comp.splits) (metis append_butlast_last_id)

lemma file_put_there:
  assumes ok: "tree_ok t" and d: "resolved t dir = Some d" "dir_at t d" and src: "names_file t src j"
    and r: "t_rename src (dir @ [Normal m]) t = Inr (u, t')"
  shows "names_file t' (dir @ [Normal m]) j \<and> dt_nodes t' = dt_nodes t"
proof -
  from r obtain s e where s: "slot t src = Some s" "slot t (dir @ [Normal m]) = Some e"
    and mr: "may_rename s e t" and t': "t' = take_along s e t" by (rule t_rename_Inr)
  have e: "e = d @ [m]" using s(2) d by (simp add: slot_def)
  from s(1) obtain n c where n: "file_name src = Some n" "resolved t (butlast src) = Some c" "dir_at t c" "s = c @ [n]"
    by (auto simp: slot_def split: option.splits if_splits)
  have "entry_at t s \<noteq> None" using mr by (simp add: may_rename_def)
  then have "unfollowed t src = Some s"
    using unfollowed_child [OF n(2,3), of n] n(4) file_name_Some [OF n(1)] by (metis option.exhaust)
  with src have f: "entry_at t s = Some (FileEntry j)" by (simp add: names_file_def)
  note new = entry_taken_along [OF ok mr f, folded t']
  have "resolved t' dir = Some d"
    using walk_keeps_dir [OF new(2) f d(2)] d(1) by (simp add: resolved_def)
  moreover have "dir_at t' d"
  proof -
    have "d \<noteq> s" using d(2) f by (auto simp: dir_at_def)
    with new(2) [of d] d(2) show ?thesis by (simp add: dir_at_def)
  qed
  ultimately have "unfollowed t' (dir @ [Normal m]) = Some e"
    using unfollowed_child new(1) unfolding e by blast
  with new(1) t' show ?thesis by (simp add: names_file_def take_along_def)
qed

section \<open>A file of the batch\<close>

lemma record_move_alone: "nobody_else env \<Longrightarrow> tree_of (record_move env event s) = tree_of s \<and> mb_out (record_move env event s) = mb_out s"
  using db_call_alone
  by (auto simp: record_move_def tree_of_def split: option.splits prod.splits sum.splits)

lemma remember_hash_alone: "nobody_else env \<Longrightarrow> tree_of (remember_hash env p h s) = tree_of s \<and> mb_out (remember_hash env p h s) = mb_out s"
  unfolding remember_hash_def
  by (auto simp: tree_of_def split: option.splits prod.splits sum.splits entry.splits
      dest!: db_call_alone [rotated] lstat_alone(1) [rotated])

text \<open>The directory holds a file of that size and digest which is not the program's own database.\<close>

definition twin_in :: "tenv \<Rightarrow> dtree \<Rightarrow> location \<Rightarrow> inode_id \<Rightarrow> bool" where
  "twin_in env t d j \<longleftrightarrow>
     (\<exists>n i. candidate env t d (len_u64 (nd_data (dt_nodes t j))) n i \<and> digest_of env t i = digest_of env t j)"

lemma duplicates_are_digested: "duplicate_question env store src b dir w = (Some (True, h), w') \<Longrightarrow> h \<noteq> None"
  by (auto simp: duplicate_question_def simp del: find_twin.simps split: sum.splits prod.splits list.splits option.splits)

lemma file_item_target:
  assumes a: "nobody_else env" and n: "file_name src = Some name"
    and r: "(if dup then move_duplicate env attempts src dir else tree_move_into_dir env attempts src dir) w = (r, w')"
  shows "case r of
      Inl _ \<Rightarrow> tw_tree w' = tw_tree w
    | Inr p \<Rightarrow> (\<exists>m k. p = suffixed (dir @ [Normal (if dup then dup_name name k else name)]) m)
        \<and> t_rename src p (tw_tree w) = Inr ((), tw_tree w')"
proof (cases dup)
  case True
  obtain q v where q: "dup_dest env attempts dir name 1 w = (q, v)" by fastforce
  note 1 = dup_dest_alone [OF a q]
  show ?thesis
  proof (cases q)
    case None
    with True r n q 1 show ?thesis by (auto simp: move_duplicate_def)
  next
    case (Some p)
    with 1 obtain k where p: "p = dir @ [Normal (dup_name name k)]" by auto
    from True r n q Some have "tree_move_to env attempts src p v = (r, w')" by (simp add: move_duplicate_def)
    from put_there_after [OF tree_move_to_alone [OF a this]] 1 have "put_there src p r w w'" by simp
    with True p show ?thesis by (cases r) (auto simp: put_there_def)
  qed
next
  case False
  with r n have "tree_move_to env attempts src (dir @ [Normal name]) w = (r, w')" by (simp add: tree_move_into_dir_def)
  from tree_move_to_alone [OF a this] False show ?thesis by (cases r) (auto simp: put_there_def)
qed


end
