(* ===== verification/Move_Quiet.thy ===== *)
theory Move_Quiet
  imports Move_Dups
begin

text \<open>
  Left alone and with no call failing, a file of a batch is always moved. Concrete batches for every
  property of moving and undoing, and the file that is taken for a duplicate of itself.
\<close>

section \<open>The rename is made where the name is free\<close>

lemma walk_file_parent:
  assumes ok: "tree_ok t"
  shows "walk t False k cur (p @ [Normal n]) = Some l \<Longrightarrow> entry_at t l = Some (FileEntry j) \<Longrightarrow>
    \<exists>c. walk t True k cur p = Some c \<and> dir_at t c \<and> l = c @ [n]"
  using ok
proof (induction t "True" k cur p rule: walk.induct)
  case (1 t k cur)
  then have e: "entry_at t (cur @ [n]) = Some (FileEntry j)" "l = cur @ [n]"
    by (auto split: option.splits entry.splits)
  then have "(cur @ [n], FileEntry j) \<in> set (dt_entries t)"
    using entry_at_iff [OF 1(3), of "cur @ [n]"] by simp
  from dir_at_ancestor [OF 1(3) this, of cur] e show ?case by (simp add: strict_prefix_def)
next
  case (5 t k cur m cs)
  show ?case
  proof (cases "entry_at t (cur @ [m])")
    case None
    with 5(3) show ?thesis by simp
  next
    case (Some x)
    with 5 show ?thesis by (cases x) (auto split: if_splits nat.splits)
  qed
qed auto

lemma rename_possible:
  assumes ok: "tree_ok t" and src: "names_file t src j" "file_name src = Some name"
    and d: "resolved t dir = Some d" "dir_at t d"
  shows "t_rename src (dir @ [Normal m]) t = Inl EEXIST \<and> entry_at t (d @ [m]) \<noteq> None
    \<or> (\<exists>t'. t_rename src (dir @ [Normal m]) t = Inr ((), t'))"
proof -
  obtain s where s: "unfollowed t src = Some s" "entry_at t s = Some (FileEntry j)"
    using src(1) by (auto simp: names_file_def)
  obtain c where c: "resolved t (butlast src) = Some c" "dir_at t c" "s = c @ [name]"
    using walk_file_parent [OF ok, of max_links "[]" "butlast src" name s j] s file_name_Some [OF src(2)]
    by (auto simp: unfollowed_def resolved_def)
  have slots: "slot t src = Some s" "slot t (dir @ [Normal m]) = Some (d @ [m])"
    using c d src(2) by (simp_all add: slot_def)
  have "\<not> prefix s d"
  proof
    assume p: "prefix s d"
    show False
    proof (cases "s = d")
      case True
      with s(2) d(2) show False by (simp add: dir_at_def)
    next
      case False
      with p have sp: "strict_prefix s d" by (simp add: strict_prefix_def)
      then have "d \<noteq> []" by auto
      then have "(d, DirEntry) \<in> set (dt_entries t)" using entry_at_iff [OF ok] d(2) by (simp add: dir_at_def)
      from dir_at_ancestor [OF ok this sp] s(2) show False by (simp add: dir_at_def)
    qed
  qed
  then show ?thesis using slots s(2) src(2) by (auto simp: t_rename_def)
qed

section \<open>Some numbered name is free\<close>

lemma run_of_taken:
  assumes "inj leaf" and "\<forall>k<attempts. entry_at t (d @ [leaf (n + k)]) \<noteq> None"
  shows "attempts \<le> length (dt_entries t)"
proof -
  let ?A = "(\<lambda>k. d @ [leaf (n + k)]) ` {..<attempts}"
  have "?A \<subseteq> fst ` set (dt_entries t)" using assms(2) by (auto simp: entry_at_None)
  then have "card ?A \<le> card (fst ` set (dt_entries t))" by (intro card_mono) simp_all
  also have "\<dots> \<le> length (dt_entries t)"
    by (meson card_image_le card_length finite_set order.trans)
  finally have "card ?A \<le> length (dt_entries t)" .
  moreover have "card ?A = attempts"
    by (subst card_image) (auto intro!: inj_onI dest: injD [OF assms(1)])
  ultimately show ?thesis by simp
qed

lemma suffixed_leaf:
  obtains leaf where "inj leaf" "\<And>k. suffixed (dir @ [Normal name]) k = dir @ [Normal (leaf k)]"
proof -
  define leaf where "leaf k = (if k = 0 then name else name @ ''.'' @ decimal k)" for k :: nat
  have "suffixed (dir @ [Normal name]) k = dir @ [Normal (leaf k)]" for k
    by (simp add: suffixed_def with_file_name_def leaf_def)
  moreover from this suffixed_inj [of "dir @ [Normal name]" name] have "inj leaf"
    by (intro injI) (metis file_name_snoc)
  ultimately show thesis by (rule that [rotated])
qed

lemma quiet_claim_stuck:
  assumes q: "quiet_env env" and ok: "tree_ok t" and src: "names_file t src j" "file_name src = Some name0"
    and d: "resolved t dir = Some d" "dir_at t d"
    and nul: "\<not> has_nul src" "\<not> has_nul (dir @ [Normal name])"
    and leaf: "\<And>k. suffixed (dir @ [Normal name]) k = dir @ [Normal (leaf k)]"
  shows "claim_in_tree env (\<lambda>_. False) attempts src (dir @ [Normal name]) n \<lparr>tw_tick = c, tw_tree = t\<rparr> = (Inl e, w') \<Longrightarrow>
    \<forall>k<attempts. entry_at t (d @ [leaf (n + k)]) \<noteq> None"
proof (induction attempts arbitrary: n c)
  case (Suc attempts)
  have free: "\<not> has_nul (dir @ [Normal (leaf n)])" using has_nul_suffixed [OF nul(2), of n] leaf by simp
  have rn: "rename_into env src (dir @ [Normal (leaf n)]) \<lparr>tw_tick = c, tw_tree = t\<rparr> =
      (case t_rename src (dir @ [Normal (leaf n)]) t of
         Inl e \<Rightarrow> (Inl e, \<lparr>tw_tick = c + 1, tw_tree = t\<rparr>)
       | Inr (x, t') \<Rightarrow> (Inr x, \<lparr>tw_tick = c + 1, tw_tree = t'\<rparr>))"
    using q nul(1) free by (simp add: rename_into_def quiet_tcall [OF q] quiet_env_def split: sum.splits)
  from rename_possible [OF ok src d, of "leaf n"] Suc.prems leaf rn
  have taken: "t_rename src (dir @ [Normal (leaf n)]) t = Inl EEXIST" "entry_at t (d @ [leaf n]) \<noteq> None"
    by (auto split: sum.splits)
  with Suc.prems leaf rn
  have "claim_in_tree env (\<lambda>_. False) attempts src (dir @ [Normal name]) (n + 1) \<lparr>tw_tick = c + 1, tw_tree = t\<rparr> = (Inl e, w')"
    by simp
  note later = Suc.IH [OF this]
  show ?case
  proof (intro allI impI)
    fix k assume "k < Suc attempts"
    with taken(2) later show "entry_at t (d @ [leaf (n + k)]) \<noteq> None" by (cases k) auto
  qed
qed simp

lemma quiet_is_dir_at:
  assumes "quiet_env env" "resolved t p = Some d" "dir_at t d"
  shows "is_dir env p \<lparr>tw_tick = c, tw_tree = t\<rparr> = (True, \<lparr>tw_tick = c + 1, tw_tree = t\<rparr>)"
  using assms(2,3) by (simp add: is_dir_def quiet_tcall [OF assms(1)])

lemma quiet_move_to:
  assumes q: "quiet_env env" and ok: "tree_ok t" and src: "names_file t src j" "file_name src = Some name0"
    and d: "resolved t dir = Some d" "dir_at t d"
    and nul: "\<not> has_nul src" "\<not> has_nul (dir @ [Normal name])"
    and n: "length (dt_entries t) < attempts" and away: "parent src \<noteq> Some dir \<or> name0 \<noteq> name"
  shows "\<exists>p w'. tree_move_to env attempts src (dir @ [Normal name]) \<lparr>tw_tick = c, tw_tree = t\<rparr> = (Inr p, w')"
proof -
  obtain leaf where leaf: "inj leaf" "\<And>k. suffixed (dir @ [Normal name]) k = dir @ [Normal (leaf k)]"
    using suffixed_leaf by blast
  obtain r w' where r: "claim_in_tree env (\<lambda>_. False) attempts src (dir @ [Normal name]) 0
      \<lparr>tw_tick = c + 2, tw_tree = t\<rparr> = (r, w')" by fastforce
  have "\<exists>p. r = Inr p"
  proof (cases r)
    case (Inl e)
    with quiet_claim_stuck [OF q ok src d nul leaf(2)] r
    have "\<forall>k<attempts. entry_at t (d @ [leaf (0 + k)]) \<noteq> None" by blast
    from run_of_taken [OF leaf(1) this] n show ?thesis by simp
  qed simp
  moreover have "lstat env src \<lparr>tw_tick = c, tw_tree = t\<rparr> = (Inr (FileEntry j), \<lparr>tw_tick = c + 1, tw_tree = t\<rparr>)"
    using src(1) by (auto simp: lstat_def quiet_tcall [OF q] t_lstat_def names_file_def)
  moreover have "parent (dir @ [Normal name]) = Some dir" by (simp add: parent_def)
  moreover note quiet_is_dir_at [OF q d, of "c + 1"]
  ultimately show ?thesis using r away src(2) by (auto simp: tree_move_to_def)
qed

lemma stem_and_extension_parts:
  "stem_and_extension name = (stem, ext) \<Longrightarrow>
     name = stem @ (case ext of None \<Rightarrow> [] | Some e \<Rightarrow> CHR ''.'' # e)"
proof -
  assume a: "stem_and_extension name = (stem, ext)"
  define back_part where "back_part = takeWhile (\<lambda>c. c \<noteq> CHR ''.'') (rev name)"
  define front where "front = dropWhile (\<lambda>c. c \<noteq> CHR ''.'') (rev name)"
  have rn: "rev name = back_part @ front" by (simp add: back_part_def front_def)
  then have front: "drop (length back_part) (rev name) = front" by simp
  have st: "stem_and_extension name = (if name = ''..'' \<or> front = [] \<or> tl front = [] then (name, None)
      else (rev (tl front), Some (rev back_part)))"
    by (simp only: stem_and_extension_def Let_def front flip: back_part_def)
  show ?thesis
  proof (cases "name = ''..'' \<or> front = [] \<or> tl front = []")
    case True
    with a st show ?thesis by auto
  next
    case False
    then have "hd front = CHR ''.''"
      using hd_dropWhile [of "\<lambda>c. c \<noteq> CHR ''.''" "rev name"] unfolding front_def by blast
    with False have f: "front = CHR ''.'' # tl front" by (metis list.collapse)
    from False a have "stem = rev (tl front)" "ext = Some (rev back_part)"
      by (auto simp: st)
    moreover have "name = rev front @ rev back_part" using arg_cong [OF rn, of rev] by simp
    ultimately show ?thesis by (subst (asm) f) simp
  qed
qed

lemma dup_name_facts:
  shows "inj (dup_name name)" and "dup_name name k \<noteq> name"
    and "CHR 0x00 \<notin> set name \<Longrightarrow> CHR 0x00 \<notin> set (dup_name name k)"
proof -
  obtain stem ext where p: "stem_and_extension name = (stem, ext)" by fastforce
  note parts = stem_and_extension_parts [OF p]
  show "inj (dup_name name)" by (rule injI) (simp add: dup_name_def p)
  have "length (dup_name name k) \<noteq> length name" by (subst (2) parts) (simp add: dup_name_def p)
  then show "dup_name name k \<noteq> name" by metis
  show "CHR 0x00 \<notin> set (dup_name name k)" if n: "CHR 0x00 \<notin> set name"
  proof -
    have "CHR 0x00 \<notin> set stem" "CHR 0x00 \<notin> set (case ext of None \<Rightarrow> [] | Some e \<Rightarrow> CHR ''.'' # e)"
      using n by (subst (asm) parts; simp)+
    then show ?thesis using decimal_no_nul [of k] by (simp add: dup_name_def p)
  qed
qed

lemma walk_through:
  "walk t follow k cur p = Some d \<Longrightarrow> follow \<Longrightarrow> dir_at t d \<Longrightarrow> walk t follow k cur (p @ [Normal n]) \<noteq> None \<Longrightarrow>
    entry_at t (d @ [n]) \<noteq> None"
proof (induction t follow k cur p rule: walk.induct)
  case (5 t follow k cur m cs)
  show ?case
  proof (cases "entry_at t (cur @ [m])")
    case None
    with 5(3) show ?thesis by simp
  next
    case (Some x)
    with 5 show ?thesis by (cases x) (auto simp: dir_at_def split: if_splits nat.splits)
  qed
qed (auto split: option.splits)

lemma quiet_dup_dest_stuck:
  assumes q: "quiet_env env" and d: "resolved t dir = Some d" "dir_at t d"
  shows "dup_dest env attempts dir name n \<lparr>tw_tick = c, tw_tree = t\<rparr> = (None, w') \<Longrightarrow>
    \<forall>k<attempts. entry_at t (d @ [dup_name name (n + k)]) \<noteq> None"
proof (induction attempts arbitrary: n c)
  case (Suc attempts)
  have e: "exists_at env (dir @ [Normal (dup_name name n)]) \<lparr>tw_tick = c, tw_tree = t\<rparr> =
      (resolved t (dir @ [Normal (dup_name name n)]) \<noteq> None, \<lparr>tw_tick = c + 1, tw_tree = t\<rparr>)"
    by (simp add: exists_at_def quiet_tcall [OF q])
  have r: "resolved t (dir @ [Normal (dup_name name n)]) \<noteq> None"
    and "dup_dest env attempts dir name (n + 1) \<lparr>tw_tick = c + 1, tw_tree = t\<rparr> = (None, w')"
    using Suc.prems e by (simp_all add: Let_def split: bool.splits)
  note later = Suc.IH [OF this(2)]
  have here: "entry_at t (d @ [dup_name name n]) \<noteq> None"
    using walk_through [OF d(1) [unfolded resolved_def] _ d(2)] r by (auto simp: resolved_def)
  show ?case
  proof (intro allI impI)
    fix k assume "k < Suc attempts"
    with here later show "entry_at t (d @ [dup_name name (n + k)]) \<noteq> None" by (cases k) auto
  qed
qed simp

section \<open>A file left alone is moved\<close>

lemma quiet_honest: "quiet_env env \<Longrightarrow> honest env"
  by (simp add: quiet_env_def honest_def)

lemma quiet_target:
  assumes q: "quiet_env env" and ok: "tree_ok t" and src: "names_file t src j" "file_name src = Some name"
    and d: "resolved t dir = Some d" "dir_at t d"
    and nul: "\<not> has_nul src" "\<not> has_nul dir" and n: "length (dt_entries t) < attempts"
    and away: "dup \<or> parent src \<noteq> Some dir" and w: "tw_tree w = t"
  shows "\<exists>p w'. (if dup then move_duplicate env attempts src dir else tree_move_into_dir env attempts src dir) w = (Inr p, w')"
proof -
  from w obtain c where w: "w = \<lparr>tw_tick = c, tw_tree = t\<rparr>" by (cases w) auto
  have "Normal name \<in> set src" using file_name_Some [OF src(2)] by (metis in_set_conv_decomp)
  then have free: "CHR 0x00 \<notin> set name" using nul(1) by (auto simp: has_nul_def)
  show ?thesis
  proof (cases dup)
    case True
    obtain r v where r: "dup_dest env attempts dir name 1 \<lparr>tw_tick = c, tw_tree = t\<rparr> = (r, v)" by fastforce
    have "quiet_env env \<Longrightarrow> nobody_else env" by (simp add: quiet_env_def)
    note at = dup_dest_alone [OF this [OF q] r, simplified]
    show ?thesis
    proof (cases r)
      case None
      with quiet_dup_dest_stuck [OF q d] r
      have "\<forall>k<attempts. entry_at t (d @ [dup_name name (1 + k)]) \<noteq> None" by blast
      from run_of_taken [OF dup_name_facts(1) this] n show ?thesis by simp
    next
      case (Some p)
      with at obtain k where p: "p = dir @ [Normal (dup_name name k)]" by auto
      from at obtain c' where v: "v = \<lparr>tw_tick = c', tw_tree = t\<rparr>" by (cases v) auto
      have "\<not> has_nul (dir @ [Normal (dup_name name k)])"
        using nul(2) dup_name_facts(3) [OF free] by (auto simp: has_nul_def)
      from quiet_move_to [OF q ok src d nul(1) this n] dup_name_facts(2) [of name k]
      obtain p' w' where "tree_move_to env attempts src p v = (Inr p', w')" unfolding p v by metis
      then show ?thesis using True r Some src(2) w by (simp add: move_duplicate_def)
    qed
  next
    case False
    have "\<not> has_nul (dir @ [Normal name])" using nul(2) free by (auto simp: has_nul_def)
    from quiet_move_to [OF q ok src d nul(1) this n] away False
    obtain p w' where "tree_move_to env attempts src (dir @ [Normal name]) w = (Inr p, w')" unfolding w by blast
    then show ?thesis using False src(2) by (simp add: tree_move_into_dir_def)
  qed
qed


section \<open>A concrete batch\<close>

definition plain_env :: tenv where
  "plain_env = \<lparr>te_outside = (\<lambda>_ t. t), te_fault = (\<lambda>_. None), te_stop = (\<lambda>_. None),
     te_protected = (\<lambda>_ _. None), te_database = (\<lambda>_. False), te_digest = (\<lambda>d. d)\<rparr>"

definition photo_tree :: dtree where
  "photo_tree = \<lparr>dt_entries = [([''s''], DirEntry), ([''s'', ''a.b''], FileEntry (Inode 1 1)),
       ([''s'', ''x''], DirEntry), ([''s'', ''x'', ''q''], FileEntry (Inode 1 3)), ([''d''], DirEntry),
       ([''d'', ''x''], DirEntry), ([''d'', ''k''], FileEntry (Inode 1 2))],
     dt_nodes = (\<lambda>i. \<lparr>nd_data = ''u'', nd_mtime = 0\<rparr>)\<rparr>"

definition photo_world :: tworld where
  "photo_world = \<lparr>tw_tick = 0, tw_tree = photo_tree\<rparr>"

definition photo_batch :: "mb option" where
  "photo_batch = move_batch 9 plain_env 9 (map rooted [[''s'', ''a.b''], [''s'', ''x'']]) (rooted [''d'']) None None photo_world"

lemma photo_batch_runs:
  obtains s where "photo_batch = Some s" "mo_failed (mb_out s) = 0" "length (mo_moved (mb_out s)) = 2"
proof -
  have "(case photo_batch of None \<Rightarrow> False
      | Some s \<Rightarrow> mo_failed (mb_out s) = 0 \<and> length (mo_moved (mb_out s)) = 2)"
    by code_simp
  then show thesis by (auto intro: that split: option.splits)
qed

lemma photo_facts:
  "tw_tree photo_world = photo_tree" "tree_ok photo_tree" "plain photo_tree" "link_free photo_tree"
  "quiet_env plain_env" "nobody_else plain_env" "destroys_nothing plain_env" "\<forall>n. te_stop plain_env n = None"
  by (auto simp: photo_world_def photo_tree_def tree_ok_def plain_def link_free_def quiet_env_def plain_env_def
      nobody_else_def destroys_nothing_def nothing_lost_def)

theorem move_batch_loses_nothing_witness:
  "\<exists>s. photo_batch = Some s \<and> tree_ok (tree_of s) \<and> nothing_lost photo_tree (tree_of s)"
proof -
  obtain s where s: "photo_batch = Some s" by (rule photo_batch_runs)
  from move_batch_loses_nothing [OF photo_facts(7) _ s [unfolded photo_batch_def]] s show ?thesis
    by (auto simp: photo_facts)
qed



theorem move_batch_returns_witness:
  "\<exists>s. move_batch 9 plain_env 9 (map rooted [[''s'', ''a.b''], [''s'', ''x'']]) (rooted [''d'']) None None photo_world = Some s"
  by (rule move_batch_returns [OF photo_facts(6)]) (simp_all add: photo_facts, simp add: photo_tree_def)


definition photo_start :: mb where
  "photo_start = \<lparr>mb_world = photo_world, mb_store = None, mb_out = empty_outcome\<rparr>"

definition photo_item :: mb where
  "photo_item = move_file_item plain_env 9 None (rooted [''s'', ''a.b'']) 1 (rooted [''d'']) photo_start"

lemma photo_item_facts:
  "honest plain_env" "tree_of photo_start = photo_tree" "resolved photo_tree (rooted [''d'']) = Some [''d'']"
  "dir_at photo_tree [''d'']" "names_file photo_tree (rooted [''s'', ''a.b'']) (Inode 1 1)"
  "file_name (rooted [''s'', ''a.b'']) = Some ''a.b''"
  "len_u64 (nd_data (dt_nodes photo_tree (Inode 1 1))) = 1" "mb_out photo_start = empty_outcome"
  "twin_in plain_env photo_tree [''d''] (Inode 1 1)"
proof -
  show "twin_in plain_env photo_tree [''d''] (Inode 1 1)"
    unfolding twin_in_def
    by (rule exI [of _ "''k''"], rule exI [of _ "Inode 1 2"])
      (simp add: candidate_def entry_at_def photo_tree_def plain_env_def digest_of_def)
qed (simp_all add: quiet_honest photo_facts photo_start_def photo_world_def photo_tree_def tree_of_def
    dir_at_def entry_at_def resolved_def names_file_def unfollowed_def rooted_def file_name_def len_u64_def)



section \<open>A duplicate of itself\<close>

text \<open>
  A file moved to the directory it is in is among the candidates it is compared with: instead of the
  refusal ``source is already in this directory'' it is renamed as a duplicate, although it is the only
  copy there.
\<close>

lemma file_duplicates_itself:
  "twin_in plain_env photo_tree [''s''] (Inode 1 1) \<and>
   (case move_batch 9 plain_env 9 [rooted [''s'', ''a.b'']] (rooted [''s'']) None None photo_world of
      None \<Rightarrow> False
    | Some s \<Rightarrow> mo_failed (mb_out s) = 0 \<and> mo_dups (mb_out s) = 1
        \<and> mo_moved (mb_out s) = [(rooted [''s'', ''a.b''], rooted [''s'', ''a.dup1.b''])])"
proof
  show "twin_in plain_env photo_tree [''s''] (Inode 1 1)"
    unfolding twin_in_def
    by (rule exI [of _ "''a.b''"], rule exI [of _ "Inode 1 1"])
      (simp add: candidate_def entry_at_def photo_tree_def plain_env_def)
qed code_simp

end
