(* ===== verification/Walk.thy ===== *)
theory Walk
  imports Scan_Roots
begin

text \<open>
  \<open>pipeline/walk.rs\<close>: what a walk of the selected roots makes of the items the directory iterator hands
  it. The iterator is the \<open>ignore\<close> crate: which items it yields for a set of roots is a parameter, an
  entry with its type and its metadata or an error with the paths it carries. Every item becomes a file
  of the manifest, a directory noted by its identity, the program's own database, or one counted event.
\<close>

section \<open>What the iterator yields\<close>

datatype walk_err =
    Partial "walk_err list"
  | WithPath path walk_err
  | WithDepth nat walk_err
  | WithLineNumber nat walk_err
  | LoopErr path path
  | IoErr
  | GlobErr
  | UnrecognizedFileType
  | InvalidDefinition

record walk_meta =
  wm_size :: u64
  wm_mtime :: i64
  wm_mtime_nsec :: i64
  wm_ctime_sec :: i64
  wm_ctime_nsec :: i64
  wm_device :: u64
  wm_inode :: u64
  wm_nlink :: u64

text \<open>\<open>we_name\<close> is the entry's own \<open>file_name\<close>; \<open>we_type\<close> and \<open>we_meta\<close> are asked when it is handled.\<close>

record walk_entry =
  we_path :: path
  we_name :: string
  we_type :: "file_kind option"
  we_meta :: "walk_err + walk_meta"

type_synonym walk_item = "walk_err + walk_entry"

record walked_file =
  wf_path :: path
  wf_meta :: walk_meta

section \<open>Where events are counted\<close>

datatype snapshot_unavailable =
    RootsUnavailable authority_unavailable omission_summary
  | CountOverflow path_key path_key omission_reason
  | CountNotStorable path_key path_key omission_reason
  | UnregisteredRoot path_key path_key omission_reason
  | ObservedOverflow omission_reason

datatype omission_snapshot =
    Publishable "(path_key \<times> omission_counts) list"
  | SnapUnavailable snapshot_unavailable

record observed_tally =
  ot_summary :: omission_summary
  ot_failure :: "omission_reason option"

definition tally_new :: observed_tally where
  "tally_new = \<lparr>ot_summary = [], ot_failure = None\<rparr>"

definition tally_record :: "omission_reason \<Rightarrow> observed_tally \<Rightarrow> observed_tally" where
  "tally_record reason t =
     (if ot_failure t \<noteq> None then t
      else case summary_add reason count_ONE (ot_summary t) of
        Inl _ \<Rightarrow> t\<lparr>ot_failure := Some reason\<rparr>
      | Inr s \<Rightarrow> t\<lparr>ot_summary := s\<rparr>)"

definition tally_finish :: "authority_unavailable \<Rightarrow> observed_tally \<Rightarrow> omission_snapshot" where
  "tally_finish why t =
     (case ot_failure t of
        Some reason \<Rightarrow> SnapUnavailable (ObservedOverflow reason)
      | None \<Rightarrow> SnapUnavailable (RootsUnavailable why (ot_summary t)))"

record collector =
  co_per_root :: "(path_key \<times> omission_counts) list"
  co_failure :: "snapshot_unavailable option"

definition collector_new :: "path_key list \<Rightarrow> collector" where
  "collector_new roots =
     \<lparr>co_per_root = fold (\<lambda>root m. bt_insert root counts_new m) roots [], co_failure = None\<rparr>"

definition collector_record :: "path_key \<Rightarrow> path_key \<Rightarrow> omission_reason \<Rightarrow> collector \<Rightarrow> collector" where
  "collector_record root directory reason c =
     (if co_failure c \<noteq> None then c
      else case bt_get (co_per_root c) root of
        None \<Rightarrow> c\<lparr>co_failure := Some (UnregisteredRoot root directory reason)\<rparr>
      | Some counts \<Rightarrow>
          (case counts_bump directory reason counts of
             Inl _ \<Rightarrow> c\<lparr>co_failure := Some (CountOverflow root directory reason)\<rparr>
           | Inr counts' \<Rightarrow> c\<lparr>co_per_root := bt_insert root counts' (co_per_root c)\<rparr>))"

definition first_unstorable :: "(path_key \<times> omission_counts) list \<Rightarrow> snapshot_unavailable option" where
  "first_unstorable per_root =
     map_option (\<lambda>(root, directory, reason, n). CountNotStorable root directory reason)
       (find (\<lambda>(root, directory, reason, n). isl (count_to_i64 n))
         (concat (map (\<lambda>(root, counts). map (\<lambda>cell. (root, cell)) (counts_iter counts)) per_root)))"

definition collector_finish :: "collector \<Rightarrow> omission_snapshot" where
  "collector_finish c =
     (case co_failure c of
        Some why \<Rightarrow> SnapUnavailable why
      | None \<Rightarrow>
          (case first_unstorable (co_per_root c) of
             Some why \<Rightarrow> SnapUnavailable why
           | None \<Rightarrow> Publishable (co_per_root c)))"

datatype account = LedgerOf path_key collector | Observed observed_tally

text \<open>The log of walk errors: how many lines were written, how many were only counted.\<close>

definition WALK_ERRORS_LOGGED :: nat where
  "WALK_ERRORS_LOGGED = 1000"

definition log_note :: "nat \<times> nat \<Rightarrow> nat \<times> nat" where
  "log_note l = (case l of (logged, unlogged) \<Rightarrow>
     if logged < WALK_ERRORS_LOGGED then (logged + 1, unlogged) else (logged, unlogged + 1))"

record walk_sink =
  ws_files :: "walked_file list"
  ws_dirs :: alias_guard
  ws_account :: account
  ws_log :: "nat \<times> nat"
  ws_unverified :: "(path \<times> walk_err) option"
  ws_own_database :: "(u64 \<times> u64) list"

section \<open>The cell of an event\<close>

lemma parent_shorter: "parent p = Some q \<Longrightarrow> length q < length p"
  by (auto simp: parent_def split: if_splits)

text \<open>The nearest keyable ancestor inside the root, starting at the path itself.\<close>

function nearest_key :: "path_key \<Rightarrow> path \<Rightarrow> path_key option" where
  "nearest_key root p =
     (let up = (case parent p of None \<Rightarrow> None | Some q \<Rightarrow> nearest_key root q)
      in case path_key_new p of
           Some key \<Rightarrow> if is_at_or_under key root then Some key else up
         | None \<Rightarrow> up)"
  by pat_completeness auto
termination
  by (relation "measure (\<lambda>(root, p). length p)") (auto dest: parent_shorter)

declare nearest_key.simps [simp del]

definition attribute_child :: "path \<Rightarrow> path_key \<Rightarrow> path_key" where
  "attribute_child p root =
     (case parent p of
        None \<Rightarrow> root
      | Some q \<Rightarrow> (case nearest_key root q of None \<Rightarrow> root | Some key \<Rightarrow> key))"

definition attribute_error_path :: "path \<Rightarrow> path_key \<Rightarrow> path_key option" where
  "attribute_error_path p root = nearest_key root p"

fun error_paths :: "walk_err \<Rightarrow> path list" where
  "error_paths (Partial errs) = concat (map error_paths errs)"
| "error_paths (WithPath p err) = p # error_paths err"
| "error_paths (WithDepth _ err) = error_paths err"
| "error_paths (WithLineNumber _ err) = error_paths err"
| "error_paths (LoopErr ancestor child) = [ancestor, child]"
| "error_paths _ = []"

definition push_location :: "path_key \<Rightarrow> path \<Rightarrow> path_key list \<Rightarrow> path_key list" where
  "push_location root p locations =
     (case attribute_error_path p root of
        None \<Rightarrow> locations
      | Some key \<Rightarrow> if key \<in> set locations then locations else locations @ [key])"

definition error_locations :: "walk_err \<Rightarrow> path_key \<Rightarrow> path_key list" where
  "error_locations err root = fold (push_location root) (error_paths err) []"

definition error_cell :: "walk_err \<Rightarrow> path_key \<Rightarrow> path_key" where
  "error_cell err root =
     (case error_locations err root of
        [] \<Rightarrow> root
      | [key] \<Rightarrow> key
      | locations \<Rightarrow>
          (case find (\<lambda>candidate. list_all (\<lambda>other. is_at_or_under candidate other) locations) locations of
             Some key \<Rightarrow> key
           | None \<Rightarrow> root))"

definition is_failure_of :: "walk_err \<Rightarrow> path \<Rightarrow> bool" where
  "is_failure_of err dir = (case err of WithPath p _ \<Rightarrow> p = dir | _ \<Rightarrow> False)"

section \<open>Recording\<close>

definition record_child :: "path \<Rightarrow> omission_reason \<Rightarrow> walk_sink \<Rightarrow> walk_sink" where
  "record_child p reason s =
     s\<lparr>ws_account := (case ws_account s of
         LedgerOf root c \<Rightarrow> LedgerOf root (collector_record root (attribute_child p root) reason c)
       | Observed t \<Rightarrow> Observed (tally_record reason t))\<rparr>"

definition record_error :: "walk_err \<Rightarrow> walk_sink \<Rightarrow> walk_sink" where
  "record_error err s =
     s\<lparr>ws_log := log_note (ws_log s),
       ws_account := (case ws_account s of
         LedgerOf root c \<Rightarrow> LedgerOf root (collector_record root (error_cell err root) WalkError c)
       | Observed t \<Rightarrow> Observed (tally_record WalkError t))\<rparr>"

definition settle_unverified :: "walk_sink \<Rightarrow> walk_sink" where
  "settle_unverified s =
     (case ws_unverified s of
        None \<Rightarrow> s
      | Some (dir, cause) \<Rightarrow> record_error cause (s\<lparr>ws_unverified := None\<rparr>))"

section \<open>The filters of a scan\<close>

record walk_filter =
  wl_min_size :: u64
  wl_max_size :: "u64 option"
  wl_include_extensions :: "string list"

definition ascii_lower :: "char \<Rightarrow> char" where
  "ascii_lower c =
     (let n = (of_char c :: nat) in if 65 \<le> n \<and> n \<le> 90 then char_of (n + 32) else c)"

definition eq_ignore_ascii_case :: "string \<Rightarrow> string \<Rightarrow> bool" where
  "eq_ignore_ascii_case a b \<longleftrightarrow> map ascii_lower a = map ascii_lower b"

definition has_extension :: "string \<Rightarrow> string list \<Rightarrow> bool" where
  "has_extension name extensions =
     list_ex (\<lambda>ext. length ext + 1 < length name
       \<and> name ! (length name - length ext - 1) = CHR ''.''
       \<and> eq_ignore_ascii_case (drop (length name - length ext) name) ext) extensions"

text \<open>\<open>Path::to_str\<close>: separators are ASCII, so a path is UTF-8 when its names are.\<close>

definition path_to_str_ok :: "path \<Rightarrow> bool" where
  "path_to_str_ok p = list_all (\<lambda>c. case c of Normal n \<Rightarrow> to_str n \<noteq> None | _ \<Rightarrow> True) p"

section \<open>One item\<close>

datatype walk_error =
    NoScanRoot
  | InvalidGlob string
  | ExclusionsFailed
  | UnverifiableDirectory path walk_err
  | AliasedDirectory roots_error

definition absorb_file :: "walk_filter \<Rightarrow> walk_entry \<Rightarrow> walk_sink \<Rightarrow> walk_sink" where
  "absorb_file fl e s =
     (case we_meta e of
        Inl _ \<Rightarrow> record_child (we_path e) MetadataError s
      | Inr m \<Rightarrow>
          if (wm_device m, wm_inode m) \<in> set (ws_own_database s) then s
          else if wm_size m < wl_min_size fl then record_child (we_path e) MinSize s
          else if (case wl_max_size fl of None \<Rightarrow> False | Some largest \<Rightarrow> largest < wm_size m)
            then record_child (we_path e) MaxSize s
          else if wl_include_extensions fl \<noteq> [] \<and> \<not> has_extension (we_name e) (wl_include_extensions fl)
            then record_child (we_path e) ExtensionFiltered s
          else if \<not> path_to_str_ok (we_path e) then record_child (we_path e) NonUtf8 s
          else s\<lparr>ws_files := ws_files s @ [\<lparr>wf_path = we_path e, wf_meta = m\<rparr>]\<rparr>)"

definition absorb_entry :: "walk_filter \<Rightarrow> walk_entry \<Rightarrow> walk_sink \<Rightarrow> walk_error + walk_sink" where
  "absorb_entry fl e s =
     (case we_type e of
        Some IsFile \<Rightarrow> Inr (absorb_file fl e s)
      | Some IsDir \<Rightarrow>
          (case we_meta e of
             Inr m \<Rightarrow>
               (case note_dir (ws_dirs s) (we_path e) (wm_device m) (wm_inode m) of
                  Inl err \<Rightarrow> Inl (AliasedDirectory err)
                | Inr g \<Rightarrow> Inr (s\<lparr>ws_dirs := g\<rparr>))
           | Inl cause \<Rightarrow> Inr (s\<lparr>ws_unverified := Some (we_path e, cause)\<rparr>))
      | _ \<Rightarrow> Inr (record_child (we_path e) UnsupportedEntry s))"

text \<open>A directory that waits for its identity is settled by the next item.\<close>

definition settle_by :: "walk_item \<Rightarrow> walk_sink \<Rightarrow> walk_error + walk_sink" where
  "settle_by result s =
     (case ws_unverified s of
        None \<Rightarrow> Inr s
      | Some (dir, cause) \<Rightarrow>
          (case result of
             Inr e \<Rightarrow>
               if starts_with (we_path e) dir then Inl (UnverifiableDirectory dir cause)
               else Inr (record_error cause (s\<lparr>ws_unverified := None\<rparr>))
           | Inl err \<Rightarrow>
               if is_failure_of err dir then Inr (s\<lparr>ws_unverified := None\<rparr>) else Inr s))"

definition absorb :: "walk_filter \<Rightarrow> walk_item \<Rightarrow> walk_sink \<Rightarrow> walk_error + walk_sink" where
  "absorb fl result s =
     rbind (settle_by result s) (\<lambda>s1.
       case result of
         Inl err \<Rightarrow> Inr (record_error err s1)
       | Inr e \<Rightarrow> absorb_entry fl e s1)"

section \<open>The walk\<close>

text \<open>
  \<open>cancel n\<close> is what the flag says when it is read after \<open>n\<close> items, every 1024 of them. The result is
  the number of items handled, whether the walk was cancelled, and the sink.
\<close>

fun walk_loop ::
  "walk_filter \<Rightarrow> (nat \<Rightarrow> bool) \<Rightarrow> walk_item list \<Rightarrow> nat \<Rightarrow> walk_sink \<Rightarrow> walk_error + nat \<times> bool \<times> walk_sink" where
  "walk_loop fl cancel [] entries s = Inr (entries, False, s)"
| "walk_loop fl cancel (item # items) entries s =
     (if entries mod 1024 = 0 \<and> cancel entries then Inr (entries, True, s)
      else rbind (absorb fl item s) (walk_loop fl cancel items (entries + 1)))"

text \<open>One walk per root; files, directories, collector and log are shared across them.\<close>

fun walk_roots ::
  "walk_filter \<Rightarrow> (nat \<Rightarrow> bool) \<Rightarrow> (path list \<Rightarrow> walk_item list) \<Rightarrow> (path \<times> path_key) list \<Rightarrow> collector \<Rightarrow> nat
     \<Rightarrow> walk_sink \<Rightarrow> walk_error + bool \<times> collector \<times> walk_sink" where
  "walk_roots fl cancel items [] c entries s = Inr (False, c, s)"
| "walk_roots fl cancel items ((root_path, root_key) # roots) c entries s =
     rbind (walk_loop fl cancel (items [root_path]) entries
         (s\<lparr>ws_account := LedgerOf root_key c, ws_unverified := None\<rparr>))
       (\<lambda>(entries', cancelled, s1).
          let s2 = (if cancelled then s1 else settle_unverified s1);
              c2 = (case ws_account s2 of LedgerOf _ c' \<Rightarrow> c' | Observed _ \<Rightarrow> c)
          in if cancelled then Inr (True, c2, s2)
             else walk_roots fl cancel items roots c2 entries' s2)"

definition root_keys :: "path list \<Rightarrow> authority_unavailable + path_key list" where
  "root_keys roots =
     rbind (keyed_roots roots) (\<lambda>keys.
       case overlapping keys of
         Some (outer, inner) \<Rightarrow> Inl (AmbiguousRoots outer inner)
       | None \<Rightarrow> Inr keys)"

datatype walk_outcome =
    Finished "walked_file list" omission_snapshot
  | CancelledWalk "walked_file list"

record walk_view =
  wv_glob_ok :: "string \<Rightarrow> bool"
  wv_build_ok :: "string list \<Rightarrow> bool"
  wv_items :: "path list \<Rightarrow> walk_item list"
  wv_own_database :: "(u64 \<times> u64) list"
  wv_cancel :: "nat \<Rightarrow> bool"

definition walk_collecting ::
  "walk_view \<Rightarrow> path list \<Rightarrow> string list \<Rightarrow> walk_filter \<Rightarrow> walk_error + walk_outcome" where
  "walk_collecting v roots globs fl =
     (if roots = [] then Inl NoScanRoot
      else case find (\<lambda>g. \<not> wv_glob_ok v g) globs of
        Some g \<Rightarrow> Inl (InvalidGlob g)
      | None \<Rightarrow>
          if \<not> wv_build_ok v globs then Inl ExclusionsFailed
          else
            let s0 = \<lparr>ws_files = [], ws_dirs = (\<lambda>_. None), ws_account = Observed tally_new, ws_log = (0, 0),
                      ws_unverified = None, ws_own_database = wv_own_database v\<rparr>
            in case root_keys roots of
                 Inl why \<Rightarrow>
                   rbind (walk_loop fl (wv_cancel v) (wv_items v roots) 0 s0) (\<lambda>(entries, cancelled, s1).
                     let s2 = settle_unverified s1;
                         t = (case ws_account s2 of Observed t \<Rightarrow> t | LedgerOf _ _ \<Rightarrow> tally_new)
                     in Inr (if cancelled then CancelledWalk (ws_files s2)
                             else Finished (ws_files s2) (tally_finish why t)))
               | Inr keys \<Rightarrow>
                   rbind (walk_roots fl (wv_cancel v) (wv_items v) (zip roots keys) (collector_new keys) 0 s0)
                     (\<lambda>(cancelled, c, s1).
                     Inr (if cancelled then CancelledWalk (ws_files s1)
                          else Finished (ws_files s1) (collector_finish c))))"

end
