(* ===== verification/Walk_Props.thy ===== *)
theory Walk_Props
  imports Walk
begin

text \<open>
  What a walk promises. Its items are judged by a reference that looks ahead in the list of items where
  the program waits for the next one: what becomes of each item, where its event is counted, and that
  nothing an iterator yields is dropped between the manifest and the ledger.
\<close>

section \<open>The reference\<close>

text \<open>What the items after an unidentified directory say: gone into, its listing failed, passed by.\<close>

datatype listing_after = GoneInto | ListingFailed | PassedBy

fun after_dir :: "path \<Rightarrow> walk_item list \<Rightarrow> listing_after" where
  "after_dir dir [] = PassedBy"
| "after_dir dir (Inr e # items) = (if starts_with (we_path e) dir then GoneInto else PassedBy)"
| "after_dir dir (Inl err # items) = (if is_failure_of err dir then ListingFailed else after_dir dir items)"

text \<open>The first filter that keeps a file out of the manifest.\<close>

definition filtered_for :: "walk_filter \<Rightarrow> walk_entry \<Rightarrow> walk_meta \<Rightarrow> omission_reason option" where
  "filtered_for fl e m = map_option snd (find fst
     [(wm_size m < wl_min_size fl, MinSize),
      (case wl_max_size fl of None \<Rightarrow> False | Some largest \<Rightarrow> largest < wm_size m, MaxSize),
      (wl_include_extensions fl \<noteq> [] \<and> \<not> has_extension (we_name e) (wl_include_extensions fl), ExtensionFiltered),
      (\<not> path_to_str_ok (we_path e), NonUtf8)])"

definition own_file :: "(u64 \<times> u64) list \<Rightarrow> walk_meta \<Rightarrow> bool" where
  "own_file own m \<longleftrightarrow> (wm_device m, wm_inode m) \<in> set own"

definition taken_by :: "walk_filter \<Rightarrow> (u64 \<times> u64) list \<Rightarrow> walk_item \<Rightarrow> walked_file list" where
  "taken_by fl own item =
     (case item of
        Inr e \<Rightarrow>
          (case (we_type e, we_meta e) of
             (Some IsFile, Inr m) \<Rightarrow>
               if \<not> own_file own m \<and> filtered_for fl e m = None then [\<lparr>wf_path = we_path e, wf_meta = m\<rparr>] else []
           | _ \<Rightarrow> [])
      | Inl _ \<Rightarrow> [])"

definition noted_by :: "walk_item \<Rightarrow> (path \<times> u64 \<times> u64) list" where
  "noted_by item =
     (case item of
        Inr e \<Rightarrow>
          (case (we_type e, we_meta e) of
             (Some IsDir, Inr m) \<Rightarrow> [(we_path e, wm_device m, wm_inode m)]
           | _ \<Rightarrow> [])
      | Inl _ \<Rightarrow> [])"

definition item_events ::
  "path_key \<Rightarrow> walk_filter \<Rightarrow> (u64 \<times> u64) list \<Rightarrow> walk_item \<Rightarrow> walk_item list \<Rightarrow> (path_key \<times> omission_reason) list" where
  "item_events root fl own item rest =
     (case item of
        Inl err \<Rightarrow> [(error_cell err root, WalkError)]
      | Inr e \<Rightarrow>
          (case we_type e of
             Some IsFile \<Rightarrow>
               (case we_meta e of
                  Inl _ \<Rightarrow> [(attribute_child (we_path e) root, MetadataError)]
                | Inr m \<Rightarrow>
                    if own_file own m then []
                    else (case filtered_for fl e m of
                            None \<Rightarrow> []
                          | Some reason \<Rightarrow> [(attribute_child (we_path e) root, reason)]))
           | Some IsDir \<Rightarrow>
               (case we_meta e of
                  Inr _ \<Rightarrow> []
                | Inl cause \<Rightarrow> if after_dir (we_path e) rest = PassedBy then [(error_cell cause root, WalkError)] else [])
           | _ \<Rightarrow> [(attribute_child (we_path e) root, UnsupportedEntry)]))"

fun left_out ::
  "path_key \<Rightarrow> walk_filter \<Rightarrow> (u64 \<times> u64) list \<Rightarrow> walk_item list \<Rightarrow> (path_key \<times> omission_reason) list" where
  "left_out root fl own [] = []"
| "left_out root fl own (item # rest) = item_events root fl own item rest @ left_out root fl own rest"

definition unidentified :: "walk_item \<Rightarrow> path option" where
  "unidentified item =
     (case item of
        Inr e \<Rightarrow> if we_type e = Some IsDir \<and> isl (we_meta e) then Some (we_path e) else None
      | Inl _ \<Rightarrow> None)"

text \<open>Some directory was gone into without its identity.\<close>

fun gone_in_blind :: "walk_item list \<Rightarrow> bool" where
  "gone_in_blind [] = False"
| "gone_in_blind (item # rest) \<longleftrightarrow>
     (case unidentified item of None \<Rightarrow> False | Some dir \<Rightarrow> after_dir dir rest = GoneInto) \<or> gone_in_blind rest"

section \<open>One item\<close>

definition records :: "path_key \<Rightarrow> (path_key \<times> omission_reason) list \<Rightarrow> collector \<Rightarrow> collector" where
  "records root events c = fold (\<lambda>(d, r). collector_record root d r) events c"

lemma records_Nil [simp]: "records root [] c = c"
  by (simp add: records_def)

lemma records_append: "records root (as @ bs) c = records root bs (records root as c)"
  by (simp add: records_def)

definition tallies :: "(path_key \<times> omission_reason) list \<Rightarrow> observed_tally \<Rightarrow> observed_tally" where
  "tallies events t = fold (\<lambda>(d, r). tally_record r) events t"

definition accounted :: "path_key \<Rightarrow> (path_key \<times> omission_reason) list \<Rightarrow> account \<Rightarrow> account" where
  "accounted root events a =
     (case a of LedgerOf r c \<Rightarrow> LedgerOf r (records root events c) | Observed t \<Rightarrow> Observed (tallies events t))"

lemma accounted_Nil [simp]: "accounted root [] a = a"
  by (simp add: accounted_def tallies_def split: account.splits)

lemma accounted_append: "accounted root (as @ bs) a = accounted root bs (accounted root as a)"
  by (simp add: accounted_def tallies_def records_append split: account.splits)

definition waiting_events :: "path_key \<Rightarrow> (path \<times> walk_err) option \<Rightarrow> walk_item list \<Rightarrow> (path_key \<times> omission_reason) list" where
  "waiting_events root u items =
     (case u of
        None \<Rightarrow> []
      | Some (dir, cause) \<Rightarrow> if after_dir dir items = PassedBy then [(error_cell cause root, WalkError)] else [])"

definition waiting_blind :: "(path \<times> walk_err) option \<Rightarrow> walk_item list \<Rightarrow> bool" where
  "waiting_blind u items = (case u of None \<Rightarrow> False | Some (dir, _) \<Rightarrow> after_dir dir items = GoneInto)"

lemma waiting_None [simp]: "waiting_events root None items = []" "\<not> waiting_blind None items"
  by (simp_all add: waiting_events_def waiting_blind_def)

abbreviation note_one where
  "note_one \<equiv> \<lambda>g (p, dev, ino). note_dir g p dev ino"

text \<open>
  The fields a step leaves and the events it records. In a ledgered walk the events are those of the root
  whose tree is being walked; without a ledger the root does not matter.
\<close>

definition for_root :: "path_key \<Rightarrow> account \<Rightarrow> bool" where
  "for_root root a \<longleftrightarrow> (case a of LedgerOf r _ \<Rightarrow> r = root | Observed _ \<Rightarrow> True)"

lemma for_root_accounted [simp]: "for_root root (accounted root evs a) = for_root root a"
  by (simp add: for_root_def accounted_def split: account.splits)

definition walk_step ::
  "path_key \<Rightarrow> (path_key \<times> omission_reason) list \<Rightarrow> walked_file list \<Rightarrow> (path \<times> u64 \<times> u64) list
     \<Rightarrow> walk_sink \<Rightarrow> walk_sink \<Rightarrow> bool" where
  "walk_step root evs fs ds s s' \<longleftrightarrow>
     (for_root root (ws_account s) \<longrightarrow> ws_account s' = accounted root evs (ws_account s))
     \<and> ws_files s' = ws_files s @ fs \<and> ws_own_database s' = ws_own_database s
     \<and> rfold note_one (ws_dirs s) ds = Inr (ws_dirs s')"

lemma walk_step_refl: "walk_step root [] [] [] s s"
  by (simp add: walk_step_def)

lemma walk_step_trans:
  "walk_step root e1 f1 d1 s1 s2 \<Longrightarrow> walk_step root e2 f2 d2 s2 s3 \<Longrightarrow> walk_step root (e1 @ e2) (f1 @ f2) (d1 @ d2) s1 s3"
  by (simp add: walk_step_def accounted_append rfold_append)

lemma step_unverified: "walk_step root evs fs ds s (s'\<lparr>ws_unverified := u\<rparr>) \<longleftrightarrow> walk_step root evs fs ds s s'"
  "walk_step root evs fs ds (s\<lparr>ws_unverified := u\<rparr>) s' \<longleftrightarrow> walk_step root evs fs ds s s'"
  by (simp_all add: walk_step_def)

lemma step_record_error: "walk_step root [(error_cell err root, WalkError)] [] [] s (record_error err s)"
  by (simp add: walk_step_def record_error_def records_def tallies_def accounted_def for_root_def split: account.splits)

lemma step_record_child: "walk_step root [(attribute_child p root, reason)] [] [] s (record_child p reason s)"
  by (simp add: walk_step_def record_child_def records_def tallies_def accounted_def for_root_def split: account.splits)

lemma record_unverified [simp]:
  "ws_unverified (record_error err s) = ws_unverified s" "ws_unverified (record_child p reason s) = ws_unverified s"
  by (simp_all add: record_error_def record_child_def)

lemma absorb_file_step:
  assumes "we_type e = Some IsFile"
  shows "walk_step root (item_events root fl (ws_own_database s) (Inr e) rest) (taken_by fl (ws_own_database s) (Inr e))
      (noted_by (Inr e)) s (absorb_file fl e s)
    \<and> ws_unverified (absorb_file fl e s) = ws_unverified s"
proof (cases "we_meta e")
  case (Inl x)
  then show ?thesis using assms step_record_child by (simp add: item_events_def taken_by_def noted_by_def absorb_file_def)
next
  case (Inr m)
  have "walk_step root [] [\<lparr>wf_path = we_path e, wf_meta = m\<rparr>] [] s
      (s\<lparr>ws_files := ws_files s @ [\<lparr>wf_path = we_path e, wf_meta = m\<rparr>]\<rparr>)"
    by (simp add: walk_step_def)
  then show ?thesis
    using assms Inr walk_step_refl [of root s] step_record_child [of root "we_path e" _ s]
    by (simp add: item_events_def taken_by_def noted_by_def absorb_file_def own_file_def filtered_for_def)
qed

lemma settle_step:
  assumes "settle_by item s = Inr s1"
  obtains evs where "walk_step root evs [] [] s s1"
    "\<And>rest. mset (waiting_events root (ws_unverified s) (item # rest)) = mset evs + mset (waiting_events root (ws_unverified s1) (item # rest))"
    "\<And>rest. waiting_blind (ws_unverified s) (item # rest) = waiting_blind (ws_unverified s1) (item # rest)"
    "\<And>e. item = Inr e \<Longrightarrow> ws_unverified s1 = None"
    "\<And>err dir cause. item = Inl err \<Longrightarrow> ws_unverified s1 = Some (dir, cause) \<Longrightarrow> \<not> is_failure_of err dir"
proof (cases "ws_unverified s")
  case None
  with assms have "s1 = s" by (simp add: settle_by_def)
  with None show thesis by (intro that [of "[]"]) (simp_all add: walk_step_refl)
next
  case (Some u)
  obtain dir cause where u: "u = (dir, cause)" by fastforce
  show thesis
  proof (cases item)
    case (Inl err)
    show thesis
    proof (cases "is_failure_of err dir")
      case True
      with assms Some u Inl have "s1 = s\<lparr>ws_unverified := None\<rparr>" by (simp add: settle_by_def)
      with Some u Inl True show thesis
        by (intro that [of "[]"]) (simp_all add: step_unverified walk_step_refl waiting_events_def waiting_blind_def)
    next
      case False
      with assms Some u Inl have "s1 = s" by (simp add: settle_by_def)
      with Some u Inl False show thesis by (intro that [of "[]"]) (simp_all add: walk_step_refl)
    qed
  next
    case (Inr e)
    with assms Some u have no: "\<not> starts_with (we_path e) dir"
      and s1: "s1 = record_error cause (s\<lparr>ws_unverified := None\<rparr>)" by (auto simp: settle_by_def split: if_splits)
    have "walk_step root [(error_cell cause root, WalkError)] [] [] s s1"
      using step_record_error [of root cause "s\<lparr>ws_unverified := None\<rparr>"] unfolding s1 step_unverified .
    with Some u Inr no show thesis
      by (intro that [of "[(error_cell cause root, WalkError)]"])
        (simp_all add: s1 waiting_events_def waiting_blind_def)
  qed
qed

lemma absorb_entry_step:
  assumes "absorb_entry fl e s = Inr s'" and "ws_unverified s = None"
  obtains evs where "walk_step root evs (taken_by fl (ws_own_database s) (Inr e)) (noted_by (Inr e)) s s'"
    "\<And>rest. mset (item_events root fl (ws_own_database s) (Inr e) rest) = mset evs + mset (waiting_events root (ws_unverified s') rest)"
    "\<And>rest. (case unidentified (Inr e) of None \<Rightarrow> False | Some dir \<Rightarrow> after_dir dir rest = GoneInto) = waiting_blind (ws_unverified s') rest"
proof (cases "we_type e = Some IsFile")
  case True
  with assms(1) have s': "s' = absorb_file fl e s" by (simp add: absorb_entry_def)
  define evs where "evs = item_events root fl (ws_own_database s) (Inr e) []"
  have evs: "item_events root fl (ws_own_database s) (Inr e) rest = evs" for rest
    using True by (simp add: item_events_def evs_def)
  show thesis
    by (rule that [of evs])
      (use absorb_file_step [OF True, of root fl s "[]"] assms(2) True in
        \<open>simp_all add: evs s' waiting_events_def waiting_blind_def unidentified_def\<close>)
next
  case False
  show thesis
  proof (cases "we_type e = Some IsDir")
    case dir: True
    show thesis
    proof (cases "we_meta e")
      case (Inl cause)
      with assms dir have "s' = s\<lparr>ws_unverified := Some (we_path e, cause)\<rparr>" by (simp add: absorb_entry_def)
      with Inl dir show thesis
        by (intro that [of "[]"])
          (simp_all add: step_unverified walk_step_refl taken_by_def noted_by_def item_events_def waiting_events_def
            waiting_blind_def unidentified_def)
    next
      case (Inr m)
      with assms dir obtain g where "note_dir (ws_dirs s) (we_path e) (wm_device m) (wm_inode m) = Inr g" "s' = s\<lparr>ws_dirs := g\<rparr>"
        by (auto simp: absorb_entry_def split: sum.splits)
      with Inr dir assms(2) show thesis
        by (intro that [of "[]"])
          (simp_all add: walk_step_def taken_by_def noted_by_def item_events_def waiting_events_def
            waiting_blind_def unidentified_def)
    qed
  next
    case other: False
    with False assms(1) have s': "s' = record_child (we_path e) UnsupportedEntry s"
      by (auto simp: absorb_entry_def split: option.splits file_kind.splits)
    have ev: "item_events root fl own (Inr e) rest = [(attribute_child (we_path e) root, UnsupportedEntry)]" for own rest
      using False other by (auto simp: item_events_def split: option.splits file_kind.splits)
    have no: "taken_by fl own (Inr e) = []" "noted_by (Inr e) = []" for own
      using False other by (auto simp: taken_by_def noted_by_def split: option.splits file_kind.splits)
    show thesis
      by (rule that [of "[(attribute_child (we_path e) root, UnsupportedEntry)]"])
        (use assms(2) other in \<open>simp_all add: s' ev no step_record_child waiting_events_def waiting_blind_def unidentified_def\<close>)
  qed
qed

lemma absorb_step:
  assumes "absorb fl item s = Inr s'"
  obtains evs where "walk_step root evs (taken_by fl (ws_own_database s) item) (noted_by item) s s'"
    "\<And>rest. mset (waiting_events root (ws_unverified s) (item # rest) @ item_events root fl (ws_own_database s) item rest)
      = mset (evs @ waiting_events root (ws_unverified s') rest)"
    "\<And>rest. waiting_blind (ws_unverified s) (item # rest)
        \<or> (case unidentified item of None \<Rightarrow> False | Some dir \<Rightarrow> after_dir dir rest = GoneInto)
      \<longleftrightarrow> waiting_blind (ws_unverified s') rest"
proof -
  obtain s1 where s1: "settle_by item s = Inr s1"
    and more: "(case item of Inl err \<Rightarrow> Inr (record_error err s1) | Inr e \<Rightarrow> absorb_entry fl e s1) = Inr s'"
    using assms by (auto simp: absorb_def result_simps)
  from settle_step [OF s1, of root] obtain ev1 where 1: "walk_step root ev1 [] [] s s1"
    "\<And>rest. mset (waiting_events root (ws_unverified s) (item # rest)) = mset ev1 + mset (waiting_events root (ws_unverified s1) (item # rest))"
    "\<And>rest. waiting_blind (ws_unverified s) (item # rest) = waiting_blind (ws_unverified s1) (item # rest)"
    and entry: "\<And>e. item = Inr e \<Longrightarrow> ws_unverified s1 = None"
    and error: "\<And>err dir cause. item = Inl err \<Longrightarrow> ws_unverified s1 = Some (dir, cause) \<Longrightarrow> \<not> is_failure_of err dir"
    by metis
  have own: "ws_own_database s1 = ws_own_database s" using 1(1) by (simp add: walk_step_def)
  show thesis
  proof (cases item)
    case (Inl err)
    with more have s': "s' = record_error err s1" by simp
    have w: "waiting_events root (ws_unverified s1) (Inl err # rest) = waiting_events root (ws_unverified s1) rest"
      "waiting_blind (ws_unverified s1) (Inl err # rest) = waiting_blind (ws_unverified s1) rest" for rest
      using error [OF Inl] by (cases "ws_unverified s1"; force simp: waiting_events_def waiting_blind_def)+
    have "taken_by fl (ws_own_database s) item = []" "noted_by item = []"
      by (simp_all add: Inl taken_by_def noted_by_def)
    with walk_step_trans [OF 1(1) step_record_error [of root err s1]] s' 1(2,3) w show thesis
      by (intro that [of "ev1 @ [(error_cell err root, WalkError)]"])
        (simp_all add: Inl item_events_def unidentified_def)
  next
    case (Inr e)
    with more have a: "absorb_entry fl e s1 = Inr s'" by simp
    from absorb_entry_step [OF a entry [OF Inr], of root] obtain ev2 where
      2: "walk_step root ev2 (taken_by fl (ws_own_database s) (Inr e)) (noted_by (Inr e)) s1 s'"
      "\<And>rest. mset (item_events root fl (ws_own_database s) (Inr e) rest) = mset ev2 + mset (waiting_events root (ws_unverified s') rest)"
      "\<And>rest. (case unidentified (Inr e) of None \<Rightarrow> False | Some dir \<Rightarrow> after_dir dir rest = GoneInto) = waiting_blind (ws_unverified s') rest"
      unfolding own by metis
    show thesis
    proof (rule that [of "ev1 @ ev2"])
      show "walk_step root (ev1 @ ev2) (taken_by fl (ws_own_database s) item) (noted_by item) s s'"
        using walk_step_trans [OF 1(1) 2(1)] by (simp add: Inr)
    qed (simp_all add: 1(2,3) 2(2,3) [folded Inr] entry [OF Inr])
  qed
qed

section \<open>The items of one root\<close>

definition taken :: "walk_filter \<Rightarrow> (u64 \<times> u64) list \<Rightarrow> walk_item list \<Rightarrow> walked_file list" where
  "taken fl own items = concat (map (taken_by fl own) items)"

definition noted :: "walk_item list \<Rightarrow> (path \<times> u64 \<times> u64) list" where
  "noted items = concat (map noted_by items)"

lemma walk_loop_done:
  "walk_loop fl cancel items n s = Inr (n', False, s') \<Longrightarrow>
     \<exists>evs. walk_step root evs (taken fl (ws_own_database s) items) (noted items) s s'
       \<and> mset (waiting_events root (ws_unverified s) items @ left_out root fl (ws_own_database s) items)
           = mset (evs @ waiting_events root (ws_unverified s') [])
       \<and> \<not> waiting_blind (ws_unverified s) items \<and> \<not> gone_in_blind items"
proof (induction items arbitrary: n s)
  case Nil
  then show ?case
    by (intro exI [of _ "[]"]) (auto simp: walk_step_refl taken_def noted_def waiting_blind_def split: option.splits)
next
  case (Cons item items)
  obtain s1 where s1: "absorb fl item s = Inr s1" and more: "walk_loop fl cancel items (n + 1) s1 = Inr (n', False, s')"
    using Cons.prems by (auto simp: result_simps split: if_splits)
  from absorb_step [OF s1, of root] obtain ev1 where
    1: "walk_step root ev1 (taken_by fl (ws_own_database s) item) (noted_by item) s s1"
      "mset (waiting_events root (ws_unverified s) (item # items) @ item_events root fl (ws_own_database s) item items)
        = mset (ev1 @ waiting_events root (ws_unverified s1) items)"
      "waiting_blind (ws_unverified s) (item # items)
        \<or> (case unidentified item of None \<Rightarrow> False | Some dir \<Rightarrow> after_dir dir items = GoneInto)
        \<longleftrightarrow> waiting_blind (ws_unverified s1) items"
    by metis
  have own: "ws_own_database s1 = ws_own_database s" using 1(1) by (simp add: walk_step_def)
  from Cons.IH [OF more] obtain ev2 where
    2: "walk_step root ev2 (taken fl (ws_own_database s) items) (noted items) s1 s'"
      "mset (waiting_events root (ws_unverified s1) items @ left_out root fl (ws_own_database s) items)
         = mset (ev2 @ waiting_events root (ws_unverified s') [])"
      "\<not> waiting_blind (ws_unverified s1) items" "\<not> gone_in_blind items"
    unfolding own by blast
  show ?case
  proof (intro exI [of _ "ev1 @ ev2"] conjI)
    show "walk_step root (ev1 @ ev2) (taken fl (ws_own_database s) (item # items)) (noted (item # items)) s s'"
      using walk_step_trans [OF 1(1) 2(1)] by (simp add: taken_def noted_def)
    show "mset (waiting_events root (ws_unverified s) (item # items) @ left_out root fl (ws_own_database s) (item # items))
        = mset ((ev1 @ ev2) @ waiting_events root (ws_unverified s') [])"
    proof -
      let ?l = "mset (left_out root fl (ws_own_database s) items)"
      from 1(2) have "mset (waiting_events root (ws_unverified s) (item # items) @ item_events root fl (ws_own_database s) item items) + ?l
          = mset (ev1 @ waiting_events root (ws_unverified s1) items) + ?l" by (rule arg_cong)
      with 2(2) show ?thesis by (simp add: add.assoc)
    qed
  qed (use 1(3) 2(3,4) in auto)
qed

lemma settle_done:
  "walk_step root (waiting_events root (ws_unverified s) []) [] [] s (settle_unverified s)"
  "ws_unverified (settle_unverified s) = None"
proof -
  show "walk_step root (waiting_events root (ws_unverified s) []) [] [] s (settle_unverified s)"
  proof (cases "ws_unverified s")
    case None
    then show ?thesis by (simp add: settle_unverified_def walk_step_refl)
  next
    case (Some u)
    obtain dir cause where u: "u = (dir, cause)" by fastforce
    have "walk_step root [(error_cell cause root, WalkError)] [] [] s (record_error cause (s\<lparr>ws_unverified := None\<rparr>))"
      using step_record_error [of root cause "s\<lparr>ws_unverified := None\<rparr>"] unfolding step_unverified .
    with Some u show ?thesis by (simp add: settle_unverified_def waiting_events_def)
  qed
  show "ws_unverified (settle_unverified s) = None"
    by (simp add: settle_unverified_def split: option.splits prod.splits)
qed

lemma root_walked:
  assumes "walk_loop fl cancel items n s = Inr (n', False, s')" and "ws_unverified s = None"
  obtains evs where "mset evs = mset (left_out root fl (ws_own_database s) items)"
    "walk_step root evs (taken fl (ws_own_database s) items) (noted items) s (settle_unverified s')"
    "\<not> gone_in_blind items"
proof -
  from walk_loop_done [OF assms(1), of root] assms(2) obtain evs where
    1: "walk_step root evs (taken fl (ws_own_database s) items) (noted items) s s'"
      "mset (left_out root fl (ws_own_database s) items) = mset (evs @ waiting_events root (ws_unverified s') [])"
      "\<not> gone_in_blind items" by auto
  show thesis
    by (rule that [of "evs @ waiting_events root (ws_unverified s') []"])
      (use 1 walk_step_trans [OF 1(1) settle_done(1) [of root s']] in simp_all)
qed

section \<open>The collector\<close>

lemma records_failed: "co_failure c \<noteq> None \<Longrightarrow> records root evs c = c"
  by (induction evs) (auto simp: records_def collector_record_def split: prod.splits)

text \<open>A collector without a failure has counted every event where it belongs.\<close>

lemma records_counted:
  "co_failure (records root evs c) = None \<Longrightarrow> bt_wf (co_per_root c) \<Longrightarrow> bt_get (co_per_root c) root = Some m \<Longrightarrow>
     \<exists>m'. rfold (\<lambda>m (d, r). counts_bump d r m) m evs = Inr m'
       \<and> bt_get (co_per_root (records root evs c)) root = Some m' \<and> bt_wf (co_per_root (records root evs c))
       \<and> (\<forall>k. k \<noteq> root \<longrightarrow> bt_get (co_per_root (records root evs c)) k = bt_get (co_per_root c) k)
       \<and> co_failure c = None"
proof (induction evs arbitrary: c m)
  case (Cons ev evs)
  obtain d r where ev: "ev = (d, r)" by fastforce
  let ?c1 = "collector_record root d r c"
  have rec: "records root (ev # evs) c = records root evs ?c1" by (simp add: records_def ev)
  have ok: "co_failure c = None"
  proof (rule ccontr)
    assume "co_failure c \<noteq> None"
    then show False using Cons.prems(1) records_failed [of c root "ev # evs"] by simp
  qed
  have ok1: "co_failure ?c1 = None"
    using Cons.prems(1) records_failed [of ?c1 root evs] unfolding rec by force
  then obtain m1 where m1: "counts_bump d r m = Inr m1" "?c1 = c\<lparr>co_per_root := bt_insert root m1 (co_per_root c)\<rparr>"
    using ok Cons.prems(3) by (cases "counts_bump d r m") (auto simp: collector_record_def)
  have "bt_wf (co_per_root ?c1)" "bt_get (co_per_root ?c1) root = Some m1"
    "\<And>k. k \<noteq> root \<Longrightarrow> bt_get (co_per_root ?c1) k = bt_get (co_per_root c) k"
    using Cons.prems(2) by (simp_all add: m1(2) bt_wf_insert bt_get_insert)
  with Cons.IH [of ?c1 m1] Cons.prems(1) ok m1(1) show ?case unfolding rec by (auto simp: ev)
qed (simp add: records_def)

lemma records_wf:
  "bt_wf (co_per_root c) \<Longrightarrow> bt_wf (co_per_root (records root evs c)) \<and> fst ` set (co_per_root (records root evs c)) = fst ` set (co_per_root c)"
proof (induction evs arbitrary: c)
  case (Cons ev evs)
  obtain d r where ev: "ev = (d, r)" by fastforce
  let ?c1 = "collector_record root d r c"
  have rec: "records root (ev # evs) c = records root evs ?c1" by (simp add: records_def ev)
  have "bt_wf (co_per_root ?c1) \<and> fst ` set (co_per_root ?c1) = fst ` set (co_per_root c)"
    using Cons.prems bt_get_None_iff [of "co_per_root c" root]
    by (auto simp: collector_record_def bt_wf_insert fst_set_bt_insert split: option.splits sum.splits)
  with Cons.IH [of ?c1] show ?case unfolding rec by simp
qed (simp add: records_def)

text \<open>Without a ledger the events are counted per reason.\<close>

lemma tallies_failed: "ot_failure t \<noteq> None \<Longrightarrow> tallies evs t = t"
  by (induction evs) (auto simp: tallies_def tally_record_def split: prod.splits)

lemma tallies_counted:
  "ot_failure (tallies evs t) = None \<Longrightarrow> bt_wf (ot_summary t) \<Longrightarrow>
     count_of (ot_summary (tallies evs t)) r = count_of (ot_summary t) r + length (filter (\<lambda>(d, r'). r' = r) evs)"
proof (induction evs arbitrary: t)
  case (Cons ev evs)
  obtain d r' where ev: "ev = (d, r')" by fastforce
  let ?t1 = "tally_record r' t"
  have rec: "tallies (ev # evs) t = tallies evs ?t1" by (simp add: tallies_def ev)
  have ok: "ot_failure t = None" "ot_failure ?t1 = None"
    using Cons.prems(1) tallies_failed [of t "ev # evs"] tallies_failed [of ?t1 evs] unfolding rec by force+
  then obtain s1 where s1: "counter_add r' count_ONE (ot_summary t) = Inr s1" "?t1 = t\<lparr>ot_summary := s1\<rparr>"
    by (cases "counter_add r' count_ONE (ot_summary t)") (auto simp: tally_record_def summary_add_counter)
  note c = counter_add_Inr [OF s1(1) Cons.prems(2), of r]
  have "ot_failure (tallies evs ?t1) = None" using Cons.prems(1) by (simp add: rec)
  from Cons.IH [OF this] c s1(2) show ?case unfolding rec by (simp add: ev count_ONE_def)
qed (simp add: tallies_def)

section \<open>All the roots\<close>

definition each_root :: "(path list \<Rightarrow> walk_item list) \<Rightarrow> path list \<Rightarrow> walk_item list" where
  "each_root items roots = concat (map (\<lambda>p. items [p]) roots)"

lemma taken_append: "taken fl own (as @ bs) = taken fl own as @ taken fl own bs"
  by (simp add: taken_def)

lemma noted_append: "noted (as @ bs) = noted as @ noted bs"
  by (simp add: noted_def)

lemma walk_roots_files:
  "walk_roots fl cancel items rks c n s = Inr (False, c', s') \<Longrightarrow>
     ws_files s' = ws_files s @ taken fl (ws_own_database s) (each_root items (map fst rks))
     \<and> rfold note_one (ws_dirs s) (noted (each_root items (map fst rks))) = Inr (ws_dirs s')
     \<and> (\<forall>p \<in> fst ` set rks. \<not> gone_in_blind (items [p]))"
proof (induction rks arbitrary: c n s)
  case Nil
  then show ?case by (simp add: each_root_def taken_def noted_def)
next
  case (Cons rk rks)
  obtain p k where rk: "rk = (p, k)" by fastforce
  let ?s0 = "s\<lparr>ws_account := LedgerOf k c, ws_unverified := None\<rparr>"
  obtain n1 s1 where l: "walk_loop fl cancel (items [p]) n ?s0 = Inr (n1, False, s1)"
    and more: "walk_roots fl cancel items rks (case ws_account (settle_unverified s1) of LedgerOf _ c' \<Rightarrow> c' | Observed _ \<Rightarrow> c)
        n1 (settle_unverified s1) = Inr (False, c', s')"
    using Cons.prems by (auto simp: rk result_simps Let_def split: if_splits)
  from root_walked [OF l, of k] obtain evs where
    "walk_step k evs (taken fl (ws_own_database s) (items [p])) (noted (items [p])) ?s0 (settle_unverified s1)"
    and b: "\<not> gone_in_blind (items [p])" by auto
  then have st: "ws_files (settle_unverified s1) = ws_files s @ taken fl (ws_own_database s) (items [p])"
      "ws_own_database (settle_unverified s1) = ws_own_database s"
      "rfold note_one (ws_dirs s) (noted (items [p])) = Inr (ws_dirs (settle_unverified s1))"
    by (simp_all add: walk_step_def)
  from Cons.IH [OF more] st b show ?case
    by (simp add: rk each_root_def taken_append noted_append rfold_append)
qed

lemma walk_roots_ledger:
  "walk_roots fl cancel items rks c n s = Inr (False, c', s') \<Longrightarrow> co_failure c' = None \<Longrightarrow> bt_wf (co_per_root c) \<Longrightarrow>
     distinct (map snd rks) \<Longrightarrow> (\<forall>k \<in> snd ` set rks. bt_get (co_per_root c) k = Some counts_new) \<Longrightarrow>
     bt_wf (co_per_root c') \<and> fst ` set (co_per_root c') = fst ` set (co_per_root c) \<and> co_failure c = None
     \<and> (\<forall>k. k \<notin> snd ` set rks \<longrightarrow> bt_get (co_per_root c') k = bt_get (co_per_root c) k)
     \<and> (\<forall>(p, k) \<in> set rks. \<exists>evs counts. mset evs = mset (left_out k fl (ws_own_database s) (items [p]))
          \<and> walk_counts evs = Inr counts \<and> bt_get (co_per_root c') k = Some counts)"
proof (induction rks arbitrary: c n s)
  case Nil
  then show ?case by simp
next
  case (Cons rk rks)
  obtain p k where rk: "rk = (p, k)" by fastforce
  let ?s0 = "s\<lparr>ws_account := LedgerOf k c, ws_unverified := None\<rparr>"
  obtain n1 s1 where l: "walk_loop fl cancel (items [p]) n ?s0 = Inr (n1, False, s1)"
    and more: "walk_roots fl cancel items rks (case ws_account (settle_unverified s1) of LedgerOf _ c' \<Rightarrow> c' | Observed _ \<Rightarrow> c)
        n1 (settle_unverified s1) = Inr (False, c', s')"
    using Cons.prems(1) by (auto simp: rk result_simps Let_def split: if_splits)
  from root_walked [OF l, of k] obtain evs where
    evs: "mset evs = mset (left_out k fl (ws_own_database s) (items [p]))"
    and st: "walk_step k evs (taken fl (ws_own_database s) (items [p])) (noted (items [p])) ?s0 (settle_unverified s1)" by auto
  let ?c1 = "records k evs c"
  have "ws_account (settle_unverified s1) = LedgerOf k ?c1" and own: "ws_own_database (settle_unverified s1) = ws_own_database s"
    using st by (simp_all add: walk_step_def accounted_def for_root_def)
  with more have more: "walk_roots fl cancel items rks ?c1 n1 (settle_unverified s1) = Inr (False, c', s')" by simp
  note wf1 = records_wf [OF Cons.prems(3), of k evs]
  have new: "bt_get (co_per_root c) k = Some counts_new" and k: "k \<notin> snd ` set rks"
    using Cons.prems(4,5) by (auto simp: rk)
  have others: "bt_get (co_per_root ?c1) k' = bt_get (co_per_root c) k'" if "k' \<noteq> k" for k'
  proof -
    have "bt_get (co_per_root (collector_record k d r c0)) k' = bt_get (co_per_root c0) k'"
      if "bt_wf (co_per_root c0)" for d r c0
      using that \<open>k' \<noteq> k\<close> by (auto simp: collector_record_def bt_get_insert split: option.splits sum.splits)
    moreover have "bt_wf (co_per_root (collector_record k d r c0))" if "bt_wf (co_per_root c0)" for d r c0
      using records_wf [OF that, of k "[(d, r)]"] by (simp add: records_def)
    ultimately show ?thesis using Cons.prems(3)
      by (induction evs arbitrary: c) (auto simp: records_def)
  qed
  have "\<forall>k' \<in> snd ` set rks. bt_get (co_per_root ?c1) k' = Some counts_new"
  proof
    fix k' assume k': "k' \<in> snd ` set rks"
    with k have "k' \<noteq> k" by metis
    with others [OF this] Cons.prems(5) k' show "bt_get (co_per_root ?c1) k' = Some counts_new" by (simp add: rk)
  qed
  from Cons.IH [OF more Cons.prems(2) _ _ this, unfolded own] wf1 Cons.prems(4)
  have ih: "bt_wf (co_per_root c')" "fst ` set (co_per_root c') = fst ` set (co_per_root c)" "co_failure ?c1 = None"
      "\<forall>k'. k' \<notin> snd ` set rks \<longrightarrow> bt_get (co_per_root c') k' = bt_get (co_per_root ?c1) k'"
      "\<forall>(p, k) \<in> set rks. \<exists>evs counts. mset evs = mset (left_out k fl (ws_own_database s) (items [p]))
          \<and> walk_counts evs = Inr counts \<and> bt_get (co_per_root c') k = Some counts"
    by (auto simp: rk)
  from records_counted [OF ih(3) Cons.prems(3) new] obtain counts where
    counts: "walk_counts evs = Inr counts" "bt_get (co_per_root ?c1) k = Some counts" and f: "co_failure c = None"
    by (auto simp: walk_counts_def)
  show ?case
  proof (intro conjI)
    show "\<forall>k'. k' \<notin> snd ` set (rk # rks) \<longrightarrow> bt_get (co_per_root c') k' = bt_get (co_per_root c) k'"
      using ih(4) others by (simp add: rk)
    have "bt_get (co_per_root c') k = Some counts" using ih(4) k counts(2) by simp
    with evs counts(1) ih(5) show "\<forall>(p, k) \<in> set (rk # rks). \<exists>evs counts. mset evs = mset (left_out k fl (ws_own_database s) (items [p]))
          \<and> walk_counts evs = Inr counts \<and> bt_get (co_per_root c') k = Some counts"
      by (auto simp: rk)
  qed (use ih f in auto)
qed

lemma collector_new_facts:
  "bt_wf (co_per_root (collector_new keys)) \<and> fst ` set (co_per_root (collector_new keys)) = set keys
   \<and> (\<forall>k \<in> set keys. bt_get (co_per_root (collector_new keys)) k = Some counts_new) \<and> co_failure (collector_new keys) = None"
proof -
  have "bt_wf (fold (\<lambda>root m. bt_insert root counts_new m) keys m)
      \<and> fst ` set (fold (\<lambda>root m. bt_insert root counts_new m) keys m) = set keys \<union> fst ` set m
      \<and> (\<forall>k. bt_get (fold (\<lambda>root m. bt_insert root counts_new m) keys m) k =
            (if k \<in> set keys then Some counts_new else bt_get m k))"
    if "bt_wf m" for m :: "(path_key \<times> omission_counts) list"
    using that by (induction keys arbitrary: m) (auto simp: bt_wf_insert fst_set_bt_insert bt_get_insert)
  from this [of "[]"] show ?thesis by (simp add: collector_new_def)
qed

lemma root_keys_Inr:
  assumes "root_keys roots = Inr keys"
  shows "distinct keys" "length keys = length roots"
proof -
  from assms have k: "keyed_roots roots = Inr keys" "overlapping keys = None"
    by (cases "overlapping keys"; force simp: root_keys_def result_simps split: option.splits)+
  show "distinct keys" by (rule overlapping_None_disjoint(1) [OF k(2)])
  show "length keys = length roots" using k(1) by (auto simp: keyed_roots_def result_simps dest: list_all2_lengthD)
qed

lemma finish_Publishable:
  "collector_finish c = Publishable m \<longleftrightarrow> co_failure c = None \<and> first_unstorable (co_per_root c) = None \<and> m = co_per_root c"
  by (auto simp: collector_finish_def split: option.splits)

definition start_sink :: "walk_view \<Rightarrow> walk_sink" where
  "start_sink v = \<lparr>ws_files = [], ws_dirs = (\<lambda>_. None), ws_account = Observed tally_new, ws_log = (0, 0),
     ws_unverified = None, ws_own_database = wv_own_database v\<rparr>"

lemma walk_keyed:
  assumes "walk_collecting v roots globs fl = Inr (Finished files snap)" and "root_keys roots = Inr keys"
  obtains c s where "walk_roots fl (wv_cancel v) (wv_items v) (zip roots keys) (collector_new keys) 0 (start_sink v) = Inr (False, c, s)"
    "files = ws_files s" "snap = collector_finish c"
  using assms by (auto simp: walk_collecting_def start_sink_def result_simps Let_def split: if_splits option.splits)

lemma walk_unkeyed:
  assumes "walk_collecting v roots globs fl = Inr (Finished files snap)" and "root_keys roots = Inl why"
  obtains n s where "walk_loop fl (wv_cancel v) (wv_items v roots) 0 (start_sink v) = Inr (n, False, s)"
    "files = ws_files (settle_unverified s)"
    "snap = tally_finish why (case ws_account (settle_unverified s) of Observed t \<Rightarrow> t | LedgerOf _ _ \<Rightarrow> tally_new)"
  using assms by (auto simp: walk_collecting_def start_sink_def result_simps Let_def split: if_splits option.splits)

text \<open>
  Claim C37. A finished walk accounts for everything its iterator yielded. Where it publishes a ledger,
  the manifest is exactly the files that pass every filter and are not the program's own database, in the
  order they were yielded, root by root; and the ledger has one entry per root, each holding exactly one
  event for every other item of that root that is neither a directory with its identity nor the own
  database: at its directory, with the first filter that applies as its reason; a directory without
  identity that was not gone into is one walk error, and its failed listing is not a second one.
\<close>

theorem walk_accounts_for_everything:
  assumes "walk_collecting v roots globs fl = Inr (Finished files (Publishable per_root))"
  shows "\<exists>keys. root_keys roots = Inr keys
    \<and> files = taken fl (wv_own_database v) (each_root (wv_items v) roots)
    \<and> fst ` set per_root = set keys
    \<and> (\<forall>(root, key) \<in> set (zip roots keys). \<exists>events counts. bt_get per_root key = Some counts
         \<and> walk_counts events = Inr counts
         \<and> mset events = mset (left_out key fl (wv_own_database v) (wv_items v [root])))"
proof (cases "root_keys roots")
  case (Inl why)
  with walk_unkeyed [OF assms] have "\<exists>t. Publishable per_root = tally_finish why t" by blast
  then show ?thesis by (auto simp: tally_finish_def split: option.splits)
next
  case (Inr keys)
  obtain c s where w: "walk_roots fl (wv_cancel v) (wv_items v) (zip roots keys) (collector_new keys) 0 (start_sink v) = Inr (False, c, s)"
    "files = ws_files s" "Publishable per_root = collector_finish c"
    by (rule walk_keyed [OF assms Inr])
  from w(3) have c: "co_failure c = None" "per_root = co_per_root c" by (metis finish_Publishable)+
  note k = root_keys_Inr [OF Inr]
  have zips: "map fst (zip roots keys) = roots" "map snd (zip roots keys) = keys" using k(2) by simp_all
  then have keys: "snd ` set (zip roots keys) = set keys" by (metis list.set_map)
  from walk_roots_ledger [OF w(1) c(1)] collector_new_facts [of keys] k(1) zips(2) keys
  have "fst ` set per_root = set keys"
    "\<forall>(root, key) \<in> set (zip roots keys). \<exists>events counts. mset events = mset (left_out key fl (wv_own_database v) (wv_items v [root]))
         \<and> walk_counts events = Inr counts \<and> bt_get per_root key = Some counts"
    by (simp_all add: c(2) start_sink_def)
  moreover have "files = taken fl (wv_own_database v) (each_root (wv_items v) roots)"
    using walk_roots_files [OF w(1)] by (simp add: w(2) zips(1) start_sink_def)
  ultimately show ?thesis using Inr by fast
qed

text \<open>
  Without a ledger nothing is uncounted either. When the roots carry no authority, a finished walk
  returns the same files, and what it observed counts, per reason, exactly the items left out, whatever
  root one would attribute them to; the only other thing it can say is that a counter overflowed.
\<close>

theorem observed_walk_counts_everything:
  assumes "walk_collecting v roots globs fl = Inr (Finished files snap)" and "root_keys roots = Inl why"
  shows "files = taken fl (wv_own_database v) (wv_items v roots)
    \<and> (case snap of
         SnapUnavailable (RootsUnavailable why' observed) \<Rightarrow> why' = why
           \<and> (\<forall>reason key. count_of observed reason =
                length (filter (\<lambda>(d, r). r = reason) (left_out key fl (wv_own_database v) (wv_items v roots))))
       | SnapUnavailable (ObservedOverflow reason) \<Rightarrow> True
       | _ \<Rightarrow> False)"
proof -
  obtain n s where w: "walk_loop fl (wv_cancel v) (wv_items v roots) 0 (start_sink v) = Inr (n, False, s)"
    "files = ws_files (settle_unverified s)"
    "snap = tally_finish why (case ws_account (settle_unverified s) of Observed t \<Rightarrow> t | LedgerOf _ _ \<Rightarrow> tally_new)"
    by (rule walk_unkeyed [OF assms])
  have step: "\<exists>evs. mset evs = mset (left_out key fl (wv_own_database v) (wv_items v roots))
      \<and> ws_account (settle_unverified s) = Observed (tallies evs tally_new)
      \<and> files = taken fl (wv_own_database v) (wv_items v roots)" for key
    using root_walked [OF w(1), of key]
    by (auto simp: start_sink_def walk_step_def for_root_def accounted_def w(2))
  then obtain t where t: "ws_account (settle_unverified s) = Observed t" by blast
  show ?thesis
  proof (cases "ot_failure t")
    case None
    have "count_of (ot_summary t) reason =
        length (filter (\<lambda>(d, r). r = reason) (left_out key fl (wv_own_database v) (wv_items v roots)))" for reason key
    proof -
      obtain evs where e: "mset evs = mset (left_out key fl (wv_own_database v) (wv_items v roots))" "t = tallies evs tally_new"
        using step [of key] t by auto
      have "count_of (ot_summary t) reason = length (filter (\<lambda>(d, r). r = reason) evs)"
        using tallies_counted [of evs tally_new reason] None e(2) by (simp add: tally_new_def count_of_def)
      also have "\<dots> = length (filter (\<lambda>(d, r). r = reason) (left_out key fl (wv_own_database v) (wv_items v roots)))"
        using arg_cong [OF e(1), of "\<lambda>M. size (filter_mset (\<lambda>(d, r). r = reason) M)"] by (simp flip: mset_filter)
      finally show ?thesis .
    qed
    with step t None show ?thesis by (auto simp: w(3) tally_finish_def)
  next
    case (Some r)
    with step t show ?thesis by (auto simp: w(3) tally_finish_def)
  qed
qed

section \<open>When a walk finishes\<close>

lemma absorb_fails:
  assumes "absorb fl item s = Inl err"
  shows "(\<forall>rest. waiting_blind (ws_unverified s) (item # rest)) \<or> (\<exists>x. rfold note_one (ws_dirs s) (noted_by item) = Inl x)"
proof (cases "settle_by item s")
  case (Inl x)
  then obtain e dir cause where "item = Inr e" "ws_unverified s = Some (dir, cause)" "starts_with (we_path e) dir"
    by (auto simp: settle_by_def split: option.splits sum.splits if_splits)
  then show ?thesis by (simp add: waiting_blind_def)
next
  case (Inr s1)
  then have dirs: "ws_dirs s1 = ws_dirs s"
    by (auto simp: settle_by_def record_error_def split: option.splits sum.splits if_splits prod.splits)
  from assms Inr obtain e where e: "item = Inr e" "absorb_entry fl e s1 = Inl err"
    by (auto simp: absorb_def split: sum.splits)
  then show ?thesis
    by (auto simp: absorb_entry_def noted_by_def dirs split: option.splits file_kind.splits sum.splits)
qed

lemma walk_loop_fails:
  "walk_loop fl cancel items n s = Inl err \<Longrightarrow>
     waiting_blind (ws_unverified s) items \<or> gone_in_blind items \<or> (\<exists>x. rfold note_one (ws_dirs s) (noted items) = Inl x)"
proof (induction items arbitrary: n s)
  case (Cons item items)
  show ?case
  proof (cases "absorb fl item s")
    case (Inl x)
    from absorb_fails [OF this] show ?thesis by (auto simp: noted_def rfold_append)
  next
    case (Inr s1)
    with Cons.prems have "walk_loop fl cancel items (n + 1) s1 = Inl err" by (simp split: if_splits)
    note ih = Cons.IH [OF this]
    from absorb_step [OF Inr, of "[]"] obtain evs where
      1: "walk_step [] evs (taken_by fl (ws_own_database s) item) (noted_by item) s s1"
        "waiting_blind (ws_unverified s) (item # items)
          \<or> (case unidentified item of None \<Rightarrow> False | Some dir \<Rightarrow> after_dir dir items = GoneInto)
          \<longleftrightarrow> waiting_blind (ws_unverified s1) items" by metis
    then have "rfold note_one (ws_dirs s) (noted (item # items)) = rfold note_one (ws_dirs s1) (noted items)"
      by (simp add: noted_def rfold_append walk_step_def)
    with ih 1(2) show ?thesis by auto
  qed
qed simp

lemma walk_loop_not_cancelled:
  "\<forall>n. \<not> cancel n \<Longrightarrow> walk_loop fl cancel items n s = Inr y \<Longrightarrow> \<exists>n' s'. y = (n', False, s')"
  by (induction items arbitrary: n s) (auto simp: result_simps)

lemma walk_roots_not_cancelled:
  assumes nc: "\<forall>n. \<not> cancel n"
  shows "walk_roots fl cancel items rks c n s = Inr y \<Longrightarrow> \<exists>c' s'. y = (False, c', s')"
proof (induction rks arbitrary: c n s)
  case (Cons rk rks)
  obtain p k where rk: "rk = (p, k)" by fastforce
  from Cons.prems obtain x where x: "walk_loop fl cancel (items [p]) n (s\<lparr>ws_account := LedgerOf k c, ws_unverified := None\<rparr>) = Inr x"
    by (auto simp: rk result_simps)
  with walk_loop_not_cancelled [OF nc x] Cons.prems Cons.IH show ?case by (auto simp: rk Let_def)
qed auto

lemma walk_roots_fails:
  assumes nc: "\<forall>n. \<not> cancel n"
  shows "walk_roots fl cancel items rks c n s = Inl err \<Longrightarrow>
     (\<exists>p \<in> fst ` set rks. gone_in_blind (items [p])) \<or> (\<exists>x. rfold note_one (ws_dirs s) (noted (each_root items (map fst rks))) = Inl x)"
proof (induction rks arbitrary: c n s)
  case (Cons rk rks)
  obtain p k where rk: "rk = (p, k)" by fastforce
  let ?s0 = "s\<lparr>ws_account := LedgerOf k c, ws_unverified := None\<rparr>"
  show ?case
  proof (cases "walk_loop fl cancel (items [p]) n ?s0")
    case (Inl x)
    from walk_loop_fails [OF this] show ?thesis by (auto simp: rk each_root_def noted_append rfold_append)
  next
    case (Inr y)
    then obtain n1 s1 where l: "walk_loop fl cancel (items [p]) n ?s0 = Inr (n1, False, s1)"
      using walk_loop_not_cancelled [OF nc] by blast
    with Cons.prems have "\<exists>c1. walk_roots fl cancel items rks c1 n1 (settle_unverified s1) = Inl err"
      by (auto simp: rk Let_def)
    with Cons.IH have ih: "(\<exists>p \<in> fst ` set rks. gone_in_blind (items [p]))
        \<or> (\<exists>x. rfold note_one (ws_dirs (settle_unverified s1)) (noted (each_root items (map fst rks))) = Inl x)" by blast
    from root_walked [OF l, of k] have "rfold note_one (ws_dirs s) (noted (items [p])) = Inr (ws_dirs (settle_unverified s1))"
      by (auto simp: walk_step_def)
    then have "rfold note_one (ws_dirs s) (noted (each_root items (map fst (rk # rks))))
        = rfold note_one (ws_dirs (settle_unverified s1)) (noted (each_root items (map fst rks)))"
      by (simp add: rk each_root_def noted_append rfold_append)
    with ih show ?thesis by (auto simp: rk)
  qed
qed simp

definition one_name_each :: "(path \<times> u64 \<times> u64) list \<Rightarrow> bool" where
  "one_name_each dirs \<longleftrightarrow> (\<forall>p q dev ino. (p, dev, ino) \<in> set dirs \<longrightarrow> (q, dev, ino) \<in> set dirs \<longrightarrow> p = q)"

lemma noted_once: "(\<exists>g. rfold note_one (\<lambda>_. None) dirs = Inr g) \<longleftrightarrow> one_name_each dirs"
proof (cases "rfold note_one (\<lambda>_. None) dirs")
  case (Inl e)
  with note_all_Inl [of "\<lambda>_. None" dirs e "[]"] show ?thesis by (auto simp: one_name_each_def)
next
  case (Inr g)
  have "one_name_each dirs"
    unfolding one_name_each_def
  proof (intro allI impI)
    fix p q dev ino assume "(p, dev, ino) \<in> set dirs" "(q, dev, ino) \<in> set dirs"
    with note_all_Inr [OF Inr] have "g (dev, ino) = Some p" "g (dev, ino) = Some q" by fast+
    then show "p = q" by simp
  qed
  with Inr show ?thesis by simp
qed

text \<open>The walks a configuration makes: one per root where the roots have keys, else one of them all.\<close>

definition streams :: "walk_view \<Rightarrow> path list \<Rightarrow> walk_item list list" where
  "streams v roots = (if isl (root_keys roots) then [wv_items v roots] else map (\<lambda>p. wv_items v [p]) roots)"

text \<open>
  Claim C39. A walk that nobody cancels finishes exactly when its configuration is valid and it can tell
  the directories apart: whatever errors the iterator yields, whatever cannot be read and whatever is
  filtered, it returns files and an account unless it goes into a directory whose identity it could not
  read, or meets one directory under two pathnames, within a root or across roots.
\<close>

theorem walk_finishes_exactly:
  assumes "\<forall>n. \<not> wv_cancel v n"
  shows "(\<exists>files snap. walk_collecting v roots globs fl = Inr (Finished files snap)) \<longleftrightarrow>
    roots \<noteq> [] \<and> (\<forall>g \<in> set globs. wv_glob_ok v g) \<and> wv_build_ok v globs
    \<and> (\<forall>items \<in> set (streams v roots). \<not> gone_in_blind items)
    \<and> one_name_each (noted (concat (streams v roots)))"
proof (cases "roots \<noteq> [] \<and> (\<forall>g \<in> set globs. wv_glob_ok v g) \<and> wv_build_ok v globs")
  case False
  then show ?thesis by (auto simp: walk_collecting_def find_None_iff split: option.splits)
next
  case ok: True
  then have g: "find (\<lambda>g. \<not> wv_glob_ok v g) globs = None" by (simp add: find_None_iff)
  note nc = assms
  show ?thesis
  proof (cases "root_keys roots")
    case (Inl why)
    let ?w = "walk_loop fl (wv_cancel v) (wv_items v roots) 0 (start_sink v)"
    have run: "(\<exists>files snap. walk_collecting v roots globs fl = Inr (Finished files snap)) \<longleftrightarrow> \<not> isl ?w"
    proof (cases ?w)
      case (Inr y)
      then obtain n1 s1 where "?w = Inr (n1, False, s1)"
        using walk_loop_not_cancelled [OF nc] by blast
      then show ?thesis using ok g Inl by (simp add: walk_collecting_def start_sink_def Let_def)
    qed (use ok g Inl in \<open>simp add: walk_collecting_def start_sink_def Let_def\<close>)
    have "\<not> isl ?w \<longleftrightarrow> \<not> gone_in_blind (wv_items v roots) \<and> one_name_each (noted (wv_items v roots))"
    proof (cases ?w)
      case (Inl x)
      from walk_loop_fails [OF this] noted_once [of "noted (wv_items v roots)"] Inl show ?thesis
        by (auto simp: start_sink_def)
    next
      case (Inr y)
      then obtain n1 s1 where "?w = Inr (n1, False, s1)"
        using walk_loop_not_cancelled [OF nc] by blast
      from root_walked [OF this, of "[]"] have "\<not> gone_in_blind (wv_items v roots)"
        "\<exists>g. rfold note_one (\<lambda>_. None) (noted (wv_items v roots)) = Inr g"
        by (auto simp: start_sink_def walk_step_def)
      with noted_once Inr show ?thesis by auto
    qed
    with run ok Inl show ?thesis by (simp add: streams_def)
  next
    case (Inr keys)
    let ?w = "walk_roots fl (wv_cancel v) (wv_items v) (zip roots keys) (collector_new keys) 0 (start_sink v)"
    have zips: "map fst (zip roots keys) = roots" using root_keys_Inr [OF Inr] by simp
    then have set: "fst ` set (zip roots keys) = set roots" by (metis list.set_map)
    have run: "(\<exists>files snap. walk_collecting v roots globs fl = Inr (Finished files snap)) \<longleftrightarrow> \<not> isl ?w"
    proof (cases ?w)
      case w: (Inr y)
      then obtain c1 s1 where "?w = Inr (False, c1, s1)"
        using walk_roots_not_cancelled [OF nc] by blast
      then show ?thesis using ok g Inr by (simp add: walk_collecting_def start_sink_def)
    qed (use ok g Inr in \<open>simp add: walk_collecting_def start_sink_def\<close>)
    have "\<not> isl ?w \<longleftrightarrow> (\<forall>p \<in> set roots. \<not> gone_in_blind (wv_items v [p])) \<and> one_name_each (noted (each_root (wv_items v) roots))"
    proof (cases ?w)
      case (Inl x)
      from walk_roots_fails [OF nc this] noted_once [of "noted (each_root (wv_items v) roots)"] Inl show ?thesis
        by (auto simp: start_sink_def zips set)
    next
      case w: (Inr y)
      then obtain c1 s1 where "?w = Inr (False, c1, s1)"
        using walk_roots_not_cancelled [OF nc] by blast
      from walk_roots_files [OF this] have "\<forall>p \<in> set roots. \<not> gone_in_blind (wv_items v [p])"
        "\<exists>g. rfold note_one (\<lambda>_. None) (noted (each_root (wv_items v) roots)) = Inr g"
        by (auto simp: start_sink_def zips set)
      with noted_once w show ?thesis by auto
    qed
    with run ok Inr show ?thesis by (simp add: streams_def each_root_def)
  qed
qed

section \<open>Where an event is counted\<close>

definition proper_path :: "path \<Rightarrow> bool" where
  "proper_path p \<longleftrightarrow> (\<forall>n. Normal n \<in> set p \<longrightarrow> name_ok n)"

lemma proper_parent: "proper_path p \<Longrightarrow> parent p = Some q \<Longrightarrow> proper_path q"
  by (auto simp: proper_path_def parent_def dest: in_set_butlastD split: if_splits)

lemma proper_key:
  assumes "proper_path p" and "path_key_new p = Some key"
  shows "key_ok key" "components key = p"
proof -
  from assms(2) obtain cs k where cs: "p = RootDir # cs" "push_components [] cs = Some k" "key = (if k = [] then ''/'' else k)"
    by (auto simp: path_key_new_def split: list.splits comp.splits option.splits if_splits)
  then obtain names where n: "cs = map Normal names" "\<forall>n \<in> set names. to_str n \<noteq> None" "k = spell names"
    by (auto simp: push_components_Some_iff)
  have ok: "names_ok names" using assms(1) n(1,2) by (auto simp: names_ok_def proper_path_def cs(1))
  have key: "key = (if names = [] then ''/'' else spell names)" by (simp add: cs(3) n(3))
  then show "components key = p" using components_spell [OF ok] by (simp add: cs(1) n(1))
  then show "key_ok key" using assms(2) by (simp add: key_ok_def)
qed

text \<open>The key is of the path or of the nearest directory above it that has one inside the root.\<close>

lemma nearest_key_Some:
  "nearest_key root p = Some key \<Longrightarrow> proper_path p \<Longrightarrow> key_ok key \<and> is_at_or_under key root \<and> prefix (components key) p"
proof (induction root p rule: nearest_key.induct)
  case (1 root p)
  let ?up = "case parent p of None \<Rightarrow> None | Some q \<Rightarrow> nearest_key root q"
  show ?case
  proof (cases "\<exists>k. path_key_new p = Some k \<and> is_at_or_under k root")
    case True
    then obtain k where k: "path_key_new p = Some k" "is_at_or_under k root" by blast
    with 1(2) have "key = k" by (subst (asm) nearest_key.simps) simp
    with k proper_key [OF 1(3) k(1)] show ?thesis by simp
  next
    case False
    then have "?up = Some key" using 1(2) by (subst (asm) nearest_key.simps) (auto simp: Let_def split: option.splits if_splits)
    then obtain q where q: "parent p = Some q" "nearest_key root q = Some key" by (auto split: option.splits)
    have "prefix q p" using q(1) prefixeq_butlast [of p] by (auto simp: parent_def split: if_splits)
    moreover have "key_ok key \<and> is_at_or_under key root \<and> prefix (components key) q"
      by (rule 1(1) [OF q(1) q(2) proper_parent [OF 1(3) q(1)]])
    ultimately show ?thesis using prefix_order.trans by blast
  qed
qed

lemma attribute_child_inside:
  assumes "proper_path p" and "key_ok root"
  shows "key_ok (attribute_child p root) \<and> is_at_or_under (attribute_child p root) root"
proof (cases "parent p")
  case None
  then show ?thesis using assms(2) by (simp add: attribute_child_def)
next
  case (Some q)
  from nearest_key_Some [OF _ proper_parent [OF assms(1) Some], of root] assms(2) Some show ?thesis
    by (cases "nearest_key root q") (simp_all add: attribute_child_def)
qed

lemma locations_set:
  "set (fold (push_location root) ps locations) = set locations \<union> {k. \<exists>p \<in> set ps. nearest_key root p = Some k}"
proof (induction ps arbitrary: locations)
  case (Cons p ps)
  have "set (push_location root p locations) = set locations \<union> {k. nearest_key root p = Some k}"
    by (auto simp: push_location_def attribute_error_path_def split: option.splits)
  then show ?case by (auto simp: Cons.IH)
qed simp

lemma error_locations_set: "set (error_locations err root) = {k. \<exists>p \<in> set (error_paths err). nearest_key root p = Some k}"
  by (simp add: error_locations_def locations_set)

lemma error_cell_cases:
  "error_cell err root = root
   \<or> error_cell err root \<in> set (error_locations err root)
     \<and> (\<forall>key \<in> set (error_locations err root). is_at_or_under (error_cell err root) key)"
proof -
  have "P \<or> Q" if "\<not> P \<Longrightarrow> Q" for P Q using that by blast
  show ?thesis
  proof (cases "error_locations err root")
    case (Cons a as)
    show ?thesis
    proof (cases as)
      case Nil
      with Cons show ?thesis by (simp add: error_cell_def)
    next
      case (Cons b bs)
      note locs = \<open>error_locations err root = a # as\<close> [unfolded Cons]
      show ?thesis
      proof (cases "find (\<lambda>candidate. list_all (\<lambda>other. is_at_or_under candidate other) (a # b # bs)) (a # b # bs)")
        case None
        then show ?thesis by (simp add: error_cell_def locs del: find.simps)
      next
        case (Some key)
        then have "key \<in> set (a # b # bs)" "list_all (\<lambda>other. is_at_or_under key other) (a # b # bs)"
          by (auto simp: find_Some_iff in_set_conv_nth simp del: find.simps list.set)
        moreover have "error_cell err root = key" using Some by (simp add: error_cell_def locs del: find.simps)
        ultimately show ?thesis unfolding locs by (simp add: list_all_iff)
      qed
    qed
  qed (simp add: error_cell_def)
qed


section \<open>From the walk to the verdict\<close>

definition proper_item :: "walk_item \<Rightarrow> bool" where
  "proper_item item \<longleftrightarrow>
     (case item of
        Inl err \<Rightarrow> \<forall>p \<in> set (error_paths err). proper_path p
      | Inr e \<Rightarrow> proper_path (we_path e)
          \<and> (\<forall>cause. we_meta e = Inl cause \<longrightarrow> (\<forall>p \<in> set (error_paths cause). proper_path p)))"

lemma left_out_inside:
  assumes "key_ok root" and "\<forall>item \<in> set items. proper_item item"
  shows "\<forall>(d, r) \<in> set (left_out root fl own items). key_ok d \<and> is_at_or_under d root"
  using assms(2)
proof (induction items)
  case (Cons item items)
  have cell: "key_ok (error_cell err root) \<and> is_at_or_under (error_cell err root) root"
    if "\<forall>p \<in> set (error_paths err). proper_path p" for err
    using error_cell_cases [of err root] that nearest_key_Some [of root _ "error_cell err root"] assms(1)
    by (auto simp: error_locations_set)
  have "\<forall>(d, r) \<in> set (item_events root fl own item items). key_ok d \<and> is_at_or_under d root"
  proof (cases item)
    case (Inl err)
    with Cons.prems cell show ?thesis by (simp add: item_events_def proper_item_def)
  next
    case (Inr e)
    with Cons.prems have "proper_path (we_path e)"
      "\<And>cause. we_meta e = Inl cause \<Longrightarrow> \<forall>p \<in> set (error_paths cause). proper_path p"
      by (auto simp: proper_item_def)
    with attribute_child_inside [OF _ assms(1)] cell Inr show ?thesis
      by (auto simp: item_events_def split: option.splits file_kind.splits sum.splits if_splits)
  qed
  with Cons show ?case by auto
qed simp


section \<open>A concrete walk\<close>

definition plain_meta :: "u64 \<Rightarrow> u64 \<Rightarrow> walk_meta" where
  "plain_meta len ino = \<lparr>wm_size = len, wm_mtime = 0, wm_mtime_nsec = 0, wm_ctime_sec = 0, wm_ctime_nsec = 0,
     wm_device = 1, wm_inode = ino, wm_nlink = 1\<rparr>"

definition entry_of :: "string \<Rightarrow> string \<Rightarrow> file_kind \<Rightarrow> walk_err + walk_meta \<Rightarrow> walk_item" where
  "entry_of p name kind meta = Inr \<lparr>we_path = components p, we_name = name, we_type = Some kind, we_meta = meta\<rparr>"

text \<open>
  A directory, a file that is taken, one that is too small, a directory without identity whose listing
  fails as well, a socket, the program's own database.
\<close>

definition sample_walk :: "walk_item list" where
  "sample_walk = [entry_of ''/t'' ''t'' IsDir (Inr (plain_meta 2 10)),
     entry_of ''/t/a'' ''a'' IsFile (Inr (plain_meta 5000 11)),
     entry_of ''/t/b'' ''b'' IsFile (Inr (plain_meta 10 12)),
     entry_of ''/t/u'' ''u'' IsDir (Inl (WithPath (components ''/t/u'') IoErr)),
     Inl (WithPath (components ''/t/u'') IoErr),
     entry_of ''/t/w'' ''w'' IsOther (Inr (plain_meta 0 13)),
     entry_of ''/t/y'' ''y'' IsFile (Inr (plain_meta 9000 14))]"

definition sample_view :: walk_view where
  "sample_view = \<lparr>wv_glob_ok = (\<lambda>_. True), wv_build_ok = (\<lambda>_. True), wv_items = (\<lambda>_. sample_walk),
     wv_own_database = [(1, 14)], wv_cancel = (\<lambda>_. False)\<rparr>"

definition sample_filter :: walk_filter where
  "sample_filter = \<lparr>wl_min_size = 4096, wl_max_size = None, wl_include_extensions = []\<rparr>"

definition sample_files :: "walked_file list" where
  "sample_files = [\<lparr>wf_path = components ''/t/a'', wf_meta = plain_meta 5000 11\<rparr>]"

definition sample_ledger :: omission_counts where
  "sample_ledger = [((''/t'', MinSize), 1), ((''/t'', UnsupportedEntry), 1), ((''/t/u'', WalkError), 1)]"

lemma sample_walk_runs:
  "walk_collecting sample_view [components ''/t''] [] sample_filter = Inr (Finished sample_files (Publishable [(''/t'', sample_ledger)]))"
  by code_simp

lemma sample_left_out:
  "left_out ''/t'' sample_filter [(1, 14)] sample_walk = [(''/t'', MinSize), (''/t/u'', WalkError), (''/t'', UnsupportedEntry)]"
  by code_simp

lemma sample_view_simps [simp]:
  "wv_items sample_view roots = sample_walk" "wv_own_database sample_view = [(1, 14)]" "\<not> wv_cancel sample_view n"
  "wv_glob_ok sample_view g" "wv_build_ok sample_view gs"
  by (simp_all add: sample_view_def)

theorem walk_accounts_for_everything_witness:
  "\<exists>events. walk_counts events = Inr sample_ledger \<and> length events = 3
    \<and> sample_files = taken sample_filter [(1, 14)] sample_walk"
proof -
  have keys: "root_keys [components ''/t''] = Inr [''/t'']" by code_simp
  from walk_accounts_for_everything [OF sample_walk_runs] obtain events where
    e: "walk_counts events = Inr sample_ledger" "mset events = mset (left_out ''/t'' sample_filter [(1, 14)] sample_walk)"
      "sample_files = taken sample_filter [(1, 14)] sample_walk"
    by (auto simp: keys each_root_def bt_get_def)
  from mset_eq_length [OF e(2)] e(1,3) show ?thesis by (auto simp: sample_left_out)
qed

theorem observed_walk_counts_everything_witness:
  "\<exists>why observed. walk_collecting sample_view [components ''t''] [] sample_filter
      = Inr (Finished sample_files (SnapUnavailable (RootsUnavailable why observed)))
    \<and> count_of observed WalkError = 1"
proof -
  have keys: "root_keys [components ''t''] = Inl (UnkeyableRoot (components ''t''))" by code_simp
  let ?o = "[(MinSize, 1 :: u64), (WalkError, 1), (UnsupportedEntry, 1)]"
  have run: "walk_collecting sample_view [components ''t''] [] sample_filter
      = Inr (Finished sample_files (SnapUnavailable (RootsUnavailable (UnkeyableRoot (components ''t'')) ?o)))"
    by code_simp
  have "count_of ?o WalkError =
      length (filter (\<lambda>(d, r). r = WalkError) (left_out ''/t'' sample_filter [(1, 14)] sample_walk))"
    using observed_walk_counts_everything [OF run keys] by simp
  with run show ?thesis by (auto simp: sample_left_out)
qed

theorem walk_finishes_exactly_witness:
  "\<exists>files snap. walk_collecting sample_view [components ''/t''] [] sample_filter = Inr (Finished files snap)"
proof -
  have keys: "root_keys [components ''/t''] = Inr [''/t'']" by code_simp
  have "\<not> gone_in_blind sample_walk" "noted sample_walk = [(components ''/t'', 1, 10)]" by code_simp+
  then show ?thesis
    using walk_finishes_exactly [of sample_view "[components ''/t'']" "[]" sample_filter]
    by (simp add: streams_def keys one_name_each_def)
qed

definition sample_error :: walk_err where
  "sample_error = Partial [WithPath (components ''/t/a'') IoErr, LoopErr (components ''/t'') (components ''/t/a/b'')]"


lemma built_configured: "built_from [components rs] reg rows sn \<Longrightarrow> path_key_new (components rs) = Some root \<Longrightarrow> sn_configured sn = [root]"
  by (auto simp: built_from_def snapshot_build_def keyed_roots_def result_simps split: prod.splits)


section \<open>Extensions\<close>

lemma has_extension_iff:
  "has_extension name extensions \<longleftrightarrow>
     (\<exists>ext \<in> set extensions. \<exists>stem tail. name = stem @ CHR ''.'' # tail \<and> stem \<noteq> [] \<and> eq_ignore_ascii_case tail ext)"
proof -
  have one: "length ext + 1 < length name \<and> name ! (length name - length ext - 1) = CHR ''.''
        \<and> eq_ignore_ascii_case (drop (length name - length ext) name) ext
      \<longleftrightarrow> (\<exists>stem tail. name = stem @ CHR ''.'' # tail \<and> stem \<noteq> [] \<and> eq_ignore_ascii_case tail ext)" (is "?l \<longleftrightarrow> ?r") for ext
  proof
    assume l: ?l
    let ?n = "length name - length ext - 1"
    from l have n: "?n < length name" "Suc ?n = length name - length ext" "0 < ?n" by linarith+
    have "name = take ?n name @ name ! ?n # drop (Suc ?n) name" by (rule id_take_nth_drop [OF n(1)])
    moreover have "take ?n name \<noteq> []" using n by auto
    ultimately show ?r using l n(2) by metis
  next
    assume ?r
    then obtain stem tail where r: "name = stem @ CHR ''.'' # tail" "stem \<noteq> []" "eq_ignore_ascii_case tail ext" by blast
    then have "length tail = length ext" by (metis eq_ignore_ascii_case_def length_map)
    with r show ?l by (simp add: nth_append)
  qed
  show ?thesis unfolding has_extension_def list_ex_iff one by blast
qed

end
